(* ===== verification/Prelude.thy ===== *)
theory Prelude
  imports Main "HOL-Library.Word"
begin

text \<open>
  What every component shares: C's integer division, the range of a 32-bit \<open>int\<close>,
  the ways a C routine of this repository can stop (a failed \<open>ERRCHECK\<close>, a use of a
  null pointer, a call of \<open>exit\<close>), and generic lemmas on lists, powers of two and
  bytes.  Components import this theory and add their simplification rules to the
  collections declared here.
\<close>

section \<open>Rule collections\<close>

named_theorems frame_simps \<open>an operation leaves this part of the state alone\<close>
named_theorems inv_intros \<open>an operation keeps an invariant\<close>

section \<open>C integers\<close>

text \<open>
  A C \<open>int\<close> is an \<open>int\<close> here; \<open>INT_MIN\<close> and \<open>INT_MAX\<close> bound its values, and the
  bounds theorems say when an expression stays between them.  Division and remainder
  truncate towards zero, as C's do.
\<close>

definition INT_MAX :: int where "INT_MAX = 2147483647"
definition INT_MIN :: int where "INT_MIN = - 2147483648"

definition is_c_int :: "int \<Rightarrow> bool" where
  "is_c_int x \<longleftrightarrow> INT_MIN \<le> x \<and> x \<le> INT_MAX"

definition c_div :: "int \<Rightarrow> int \<Rightarrow> int" where
  "c_div a b = sgn a * sgn b * (\<bar>a\<bar> div \<bar>b\<bar>)"

definition c_mod :: "int \<Rightarrow> int \<Rightarrow> int" where
  "c_mod a b = a - b * c_div a b"

lemma c_div_nonneg [simp]: "0 \<le> a \<Longrightarrow> 0 \<le> b \<Longrightarrow> c_div a b = a div b"
  by (cases "a = 0"; cases "b = 0") (auto simp: c_div_def)

lemma c_mod_nonneg [simp]: "0 \<le> a \<Longrightarrow> 0 \<le> b \<Longrightarrow> c_mod a b = a mod b"
  by (simp add: c_mod_def minus_mult_div_eq_mod)

definition c_bool :: "bool \<Rightarrow> int" where
  "c_bool b = (if b then 1 else 0)"

text \<open>
  \<open>atoi\<close> and \<open>atof\<close> of the C library, where the source parses an option, are modelled on
  the decimal strings they are given: an optional sign and digits, then anything.
\<close>

definition digit_val :: "char \<Rightarrow> int" where
  "digit_val c = int (of_char c) - 48"

definition is_digit :: "char \<Rightarrow> bool" where
  "is_digit c \<longleftrightarrow> (48::nat) \<le> of_char c \<and> of_char c \<le> (57::nat)"

fun atoi_digits :: "int \<Rightarrow> string \<Rightarrow> int" where
  "atoi_digits acc [] = acc"
| "atoi_digits acc (c # cs) =
     (if is_digit c then atoi_digits (10 * acc + digit_val c) cs else acc)"

fun is_space :: "char \<Rightarrow> bool" where
  "is_space c = (of_char c = (32::nat) \<or> (9 \<le> (of_char c :: nat) \<and> (of_char c :: nat) \<le> 13))"

definition atoi :: "string \<Rightarrow> int" where
  "atoi s = (case dropWhile is_space s of
     [] \<Rightarrow> 0
   | c # cs \<Rightarrow> if c = CHR ''-'' then - atoi_digits 0 cs
              else if c = CHR ''+'' then atoi_digits 0 cs
              else atoi_digits 0 (c # cs))"

lemma atoi_digits_nonneg: "0 \<le> acc \<Longrightarrow> 0 \<le> atoi_digits acc cs"
  by (induction cs arbitrary: acc) (auto simp: digit_val_def is_digit_def)

section \<open>How a routine can stop\<close>

datatype halt =
    ErrCheck string      \<comment> \<open>a failed \<open>ERRCHECK\<close>: message, then \<open>exit(0)\<close>\<close>
  | Exit                 \<comment> \<open>\<open>exit(0)\<close> at the end of a job that is done\<close>
  | Usage                \<comment> \<open>\<open>PrintUsage\<close>: usage text, clean up, \<open>exit(0)\<close>\<close>
  | NullDeref            \<comment> \<open>a null pointer is dereferenced: undefined behaviour\<close>
  | Garbled              \<comment> \<open>bytes of a header are taken for data or the other way round\<close>
  | UninitRead           \<comment> \<open>a variable is read before it is written: undefined behaviour\<close>
  | OutOfBounds          \<comment> \<open>an access outside the object: undefined behaviour\<close>
  | DivByZero            \<comment> \<open>an integer division by zero: undefined behaviour\<close>
  | Overflow             \<comment> \<open>a conversion to \<open>int\<close> out of its range: undefined behaviour\<close>
  | ErrorX string        \<comment> \<open>MP_Lite's \<open>errorx\<close>/\<open>quitall\<close>: log and abort\<close>

type_synonym 'a outcome = "halt + 'a"

definition errcheck :: "bool \<Rightarrow> string \<Rightarrow> 'a outcome \<Rightarrow> 'a outcome" where
  "errcheck bad msg k = (if bad then Inl (ErrCheck msg) else k)"

lemma errcheck_Inr [simp]: "errcheck bad msg k = Inr x \<longleftrightarrow> \<not> bad \<and> k = Inr x"
  by (simp add: errcheck_def)

definition obind :: "'a outcome \<Rightarrow> ('a \<Rightarrow> 'b outcome) \<Rightarrow> 'b outcome" where
  "obind m f = (case m of Inl e \<Rightarrow> Inl e | Inr x \<Rightarrow> f x)"

lemma obind_simps [simp]: "obind (Inl e) f = Inl e" "obind (Inr x) f = f x"
  by (simp_all add: obind_def)

lemma obind_Inr_iff: "obind m f = Inr y \<longleftrightarrow> (\<exists>x. m = Inr x \<and> f x = Inr y)"
  by (cases m) auto

lemma map_sum_Inr_iff [simp]: "map_sum f g x = Inr y \<longleftrightarrow> (\<exists>z. x = Inr z \<and> y = g z)"
  by (cases x) auto

lemma map_sum_Inl_iff [simp]: "map_sum f g x = Inl y \<longleftrightarrow> (\<exists>z. x = Inl z \<and> y = f z)"
  by (cases x) auto

section \<open>Rounding up to a block\<close>

text \<open>
  The idiom \<open>if( x % b > 0 ) x += b - (x % b)\<close> occurs throughout the code (page sizes,
  pointer alignment, 8-byte records).
\<close>

definition round_up :: "int \<Rightarrow> int \<Rightarrow> int" where
  "round_up b x = (if c_mod x b > 0 then x + (b - c_mod x b) else x)"

lemma round_up_ge: "0 < b \<Longrightarrow> 0 \<le> x \<Longrightarrow> x \<le> round_up b x"
  using pos_mod_bound [of b x] by (simp add: round_up_def less_imp_le)

lemma round_up_less: "0 < b \<Longrightarrow> 0 \<le> x \<Longrightarrow> round_up b x < x + b"
  by (simp add: round_up_def)

lemma round_up_dvd:
  assumes "0 < b" and "0 \<le> x"
  shows "b dvd round_up b x"
proof -
  have "x + (b - x mod b) = b * (x div b + 1)"
    by (simp add: distrib_left minus_mod_eq_mult_div)
  then have "b dvd x + (b - x mod b)" by (metis dvd_triv_left)
  moreover have "b dvd x" if "\<not> 0 < x mod b"
  proof -
    have "0 \<le> x mod b" using assms by simp
    with that have "x mod b = 0" by linarith
    then show ?thesis by (simp add: dvd_eq_mod_eq_0)
  qed
  ultimately show ?thesis using assms by (simp add: round_up_def)
qed

lemma round_up_mod: "0 < b \<Longrightarrow> 0 \<le> x \<Longrightarrow> round_up b x mod b = 0"
  using round_up_dvd by (simp add: dvd_eq_mod_eq_0)

section \<open>Powers of two\<close>

text \<open>
  \<open>b = 1; while( b < n ) b *= 2;\<close> -- the smallest power of two that is at least \<open>n\<close>.
\<close>

function pow2_from :: "nat \<Rightarrow> nat \<Rightarrow> nat" where
  "pow2_from b n = (if 0 < b \<and> b < n then pow2_from (2 * b) n else b)"
  by pat_completeness auto
termination
  by (relation "measure (\<lambda>(b, n). n - b)") auto

declare pow2_from.simps [simp del]

lemma pow2_from_props:
  assumes "0 < b"
  shows "n \<le> pow2_from b n \<and> b \<le> pow2_from b n \<and> (\<exists>k. pow2_from b n = b * 2 ^ k)
    \<and> (b < n \<longrightarrow> pow2_from b n < 2 * n)"
  using assms
proof (induction b n rule: pow2_from.induct)
  case (1 b n)
  show ?case
  proof (cases "b < n")
    case False
    with 1 show ?thesis by (auto simp: pow2_from.simps [of b n] intro: exI [of _ 0])
  next
    case True
    with 1 have IH: "n \<le> pow2_from (2 * b) n" "2 * b \<le> pow2_from (2 * b) n"
        "\<exists>k. pow2_from (2 * b) n = 2 * b * 2 ^ k" "2 * b < n \<Longrightarrow> pow2_from (2 * b) n < 2 * n"
      by auto
    have eq: "pow2_from b n = pow2_from (2 * b) n"
      using True 1 by (simp add: pow2_from.simps [of b n])
    have "pow2_from (2 * b) n < 2 * n"
      using IH(4) True by (cases "2 * b < n") (auto simp: pow2_from.simps [of "2 * b" n])
    moreover obtain k where "pow2_from (2 * b) n = 2 * b * 2 ^ k"
      using IH(3) by blast
    then have "pow2_from (2 * b) n = b * 2 ^ Suc k" by simp
    then have "\<exists>k. pow2_from (2 * b) n = b * 2 ^ k" by blast
    moreover have "b \<le> pow2_from (2 * b) n" using IH(2) by linarith
    ultimately show ?thesis using IH(1) unfolding eq by simp
  qed
qed

definition pow2_above :: "nat \<Rightarrow> nat" where
  "pow2_above n = pow2_from 1 n"

lemma pow2_above_ge: "n \<le> pow2_above n"
  using pow2_from_props [of 1 n] by (simp add: pow2_above_def)

lemma pow2_above_pos: "0 < pow2_above n"
  using pow2_from_props [of 1 n] by (auto simp: pow2_above_def)

lemma pow2_above_power: "\<exists>k. pow2_above n = 2 ^ k"
  using pow2_from_props [of 1 n] by (simp add: pow2_above_def)

lemma pow2_above_less: "1 < n \<Longrightarrow> pow2_above n < 2 * n"
  using pow2_from_props [of 1 n] by (simp add: pow2_above_def)

section \<open>Storing a run of elements\<close>

definition store :: "'a list \<Rightarrow> nat \<Rightarrow> 'a list \<Rightarrow> 'a list" where
  "store mem off xs = take off mem @ xs @ drop (off + length xs) mem"

lemma nth_store:
  assumes "off + length xs \<le> length mem" and "i < length mem"
  shows "store mem off xs ! i = (if off \<le> i \<and> i < off + length xs then xs ! (i - off) else mem ! i)"
  using assms by (auto simp: store_def nth_append min_def)

lemma length_store: "off + length xs \<le> length mem \<Longrightarrow> length (store mem off xs) = length mem"
  by (simp add: store_def)

lemma div_block: "a * m \<le> i \<and> i < a * m + m \<longleftrightarrow> i div m = a" if "0 < m" for a m i :: nat
proof -
  have "a * m \<le> i \<longleftrightarrow> a \<le> i div m" using that by (simp add: less_eq_div_iff_mult_less_eq)
  moreover have "i < Suc a * m \<longleftrightarrow> i div m < Suc a" using that by (simp only: div_less_iff_less_mult)
  ultimately show ?thesis by (auto simp: add.commute)
qed

section \<open>Decimal numbers\<close>

fun show_nat :: "nat \<Rightarrow> string" where
  "show_nat n = (if n < 10 then [char_of (48 + n)] else show_nat (n div 10) @ [char_of (48 + n mod 10)])"

declare show_nat.simps [simp del]

definition show_int :: "int \<Rightarrow> string" where
  "show_int i = (if i < 0 then CHR ''-'' # show_nat (nat (- i)) else show_nat (nat i))"

lemma show_int_length: "1 \<le> length (show_int i)"
proof -
  have "1 \<le> length (show_nat n)" for n
    by (subst show_nat.simps) simp
  then show ?thesis by (auto simp: show_int_def intro: le_SucI)
qed

lemma show_nat_length: "0 < w \<Longrightarrow> n < 10 ^ w \<Longrightarrow> length (show_nat n) \<le> w"
proof (induction w arbitrary: n)
  case (Suc w)
  show ?case
  proof (cases "n < 10")
    case True
    then show ?thesis by (subst show_nat.simps) simp
  next
    case False
    with Suc.prems have "n div 10 < 10 ^ w" by (simp add: div_less_iff_less_mult)
    moreover from False Suc.prems have "0 < w" by (cases w) simp_all
    ultimately show ?thesis using Suc.IH [of "n div 10"] by (subst show_nat.simps) simp
  qed
qed simp

end
