(* ===== verification/Globals.thy ===== *)
theory Globals
  imports Prelude Complex_Main
begin

text \<open>
  The global state of the NetPIPE core: the variables of \<open>src/netpipe.h\<close> that the options
  set, the local variables of \<open>main()\<close> that hold options, and their initial values.
  C \<open>int\<close> flags keep the type \<open>int\<close> (0 is false); a \<open>double\<close> is a \<open>real\<close>, so rounding
  is not modelled.  The buffer pointers are the state of the theory \<open>Buffers\<close>.
\<close>

record globals =
  nprocs :: int
  myproc :: int
  transmitter :: int
  mypair :: int
  source :: int
  cache :: int
  bidir :: int
  stream :: int
  rwstream :: int
  workload :: int
  burst :: int
  async :: int
  perturbation :: int
  nrepeat_const :: int
  ntrials :: int
  start :: int
  end_size :: int
  finished :: int
  soffset :: int
  roffset :: int
  disk :: int
  stoptime :: real
  est_latency :: real
  module :: string
  integrityCheck :: int
  factors_of_2 :: int
  runtime :: real
  outfile :: string
  worktype :: "string option"
  worksize :: int

definition MEMSIZE :: int where "MEMSIZE = 200000000"
definition PAGESIZE_default :: int where "PAGESIZE_default = 4096"

text \<open>The initial values that \<open>main()\<close> assigns before \<open>Module_Init\<close>.\<close>

definition init_globals :: globals where
  "init_globals = \<lparr> nprocs = 0, myproc = 0, transmitter = 0, mypair = 0, source = 0,
     cache = 1, bidir = 0, stream = 0, rwstream = 0, workload = 0, burst = 0, async = 0,
     perturbation = 3, nrepeat_const = 0, ntrials = 7, start = 1, end_size = 10000000,
     finished = 0, soffset = 0, roffset = 0, disk = 0, stoptime = 10,
     est_latency = 10 / 1000000, module = '''', integrityCheck = 0, factors_of_2 = 0,
     runtime = 1 / 4, outfile = ''np.out'', worktype = None, worksize = 0 \<rparr>"

text \<open>
  After \<open>Module_Init\<close> has set \<open>nprocs\<close>, \<open>myproc\<close> and the module name, the first half
  of the processes become transmitters and every process gets its pair.
\<close>

definition set_roles :: "globals \<Rightarrow> globals" where
  "set_roles g =
     (let g1 = (if myproc g < c_div (nprocs g) 2 \<or> nprocs g = 1
                   \<or> module g = ''memcpy'' \<or> module g = ''disk''
                then g\<lparr>transmitter := 1\<rparr> else g\<lparr>transmitter := 0\<rparr>)
      in g1\<lparr>mypair := nprocs g - 1 - myproc g, source := nprocs g - 1 - myproc g\<rparr>)"

text \<open>The number of pairs that a bandwidth is summed over.\<close>

definition npairs_of :: "globals \<Rightarrow> int" where
  "npairs_of g =
     (if module g = ''memcpy'' \<or> module g = ''disk'' then nprocs g
      else if nprocs g = 1 then 1 else c_div (nprocs g) 2)"

lemma set_roles_simps [simp]:
  "myproc (set_roles g) = myproc g" "nprocs (set_roles g) = nprocs g"
  "module (set_roles g) = module g" "stream (set_roles g) = stream g"
  "bidir (set_roles g) = bidir g" "start (set_roles g) = start g"
  "mypair (set_roles g) = nprocs g - 1 - myproc g"
  "source (set_roles g) = nprocs g - 1 - myproc g"
  by (simp_all add: set_roles_def Let_def)

text \<open>
  Pairing is an involution: for an even number of processes of a message-passing
  module, my pair is a different process of the job, its pair is me, and exactly one of
  the two is the transmitter.
\<close>

theorem pairing_involution:
  assumes "0 < nprocs g" and "even (nprocs g)" and "0 \<le> myproc g" and "myproc g < nprocs g"
    and "module g \<noteq> ''memcpy''" and "module g \<noteq> ''disk''"
  shows "let me = set_roles g;
             it = set_roles (g\<lparr>myproc := mypair me\<rparr>)
         in 0 \<le> mypair me \<and> mypair me < nprocs g \<and> mypair me \<noteq> myproc g
            \<and> mypair it = myproc g \<and> transmitter me + transmitter it = 1"
proof -
  from assms(2) have "nprocs g \<noteq> 1" by auto
  with assms show ?thesis by (auto simp: set_roles_def Let_def elim!: evenE)
qed

theorem pairing_involution_witness:
  "let g = init_globals\<lparr>nprocs := 4, myproc := 3\<rparr>; me = set_roles g;
             it = set_roles (g\<lparr>myproc := mypair me\<rparr>)
         in 0 \<le> mypair me \<and> mypair me < nprocs g \<and> mypair me \<noteq> myproc g
            \<and> mypair it = myproc g \<and> transmitter me + transmitter it = 1"
  using pairing_involution [of "init_globals\<lparr>nprocs := 4, myproc := 3\<rparr>"]
  by (simp add: init_globals_def Let_def)

end
