(* ===== verification/Buffers.thy ===== *)
theory Buffers
  imports Globals
begin

text \<open>
  The send and receive buffers of \<open>src/netpipe.c\<close>: \<open>MallocBufs\<close>, \<open>FreeBufs\<close>,
  \<open>InitBufferData\<close>, \<open>SavePtrs\<close>, \<open>RestorePtrs\<close> and \<open>AdvancePtrs\<close>.  A \<open>char *\<close> is its
  address, an \<open>int\<close>, with 0 for \<open>NULL\<close>; the memory maps addresses to bytes.  The address
  that the allocator returns, the remote buffer of an RDMA module and the page size are
  parameters.
\<close>

section \<open>Pointers and memory\<close>

type_synonym ptr = int
type_synonym byte = "8 word"
type_synonym memory = "ptr \<Rightarrow> byte"

record bufs =
  sr_buf :: ptr
  s_buf :: ptr
  s_ptr :: ptr
  r_buf :: ptr
  r_ptr :: ptr
  dsr_buf :: ptr
  ds_buf :: ptr
  ds_ptr :: ptr
  dr_buf :: ptr
  dr_ptr :: ptr
  s_saved :: ptr
  r_saved :: ptr
  mem :: memory

definition memset :: "ptr \<Rightarrow> byte \<Rightarrow> int \<Rightarrow> memory \<Rightarrow> memory" where
  "memset a v n m = (\<lambda>x. if a \<le> x \<and> x < a + n then v else m x)"

text \<open>The global pointer variables whose addresses are passed to \<open>AdvancePtrs\<close>.\<close>

datatype pvar = S_PTR | R_PTR | DS_PTR | DR_PTR

fun get_ptr :: "pvar \<Rightarrow> bufs \<Rightarrow> ptr" where
  "get_ptr S_PTR b = s_ptr b"
| "get_ptr R_PTR b = r_ptr b"
| "get_ptr DS_PTR b = ds_ptr b"
| "get_ptr DR_PTR b = dr_ptr b"

fun set_ptr :: "pvar \<Rightarrow> ptr \<Rightarrow> bufs \<Rightarrow> bufs" where
  "set_ptr S_PTR v b = b\<lparr>s_ptr := v\<rparr>"
| "set_ptr R_PTR v b = b\<lparr>r_ptr := v\<rparr>"
| "set_ptr DS_PTR v b = b\<lparr>ds_ptr := v\<rparr>"
| "set_ptr DR_PTR v b = b\<lparr>dr_ptr := v\<rparr>"

section \<open>Saving and restoring\<close>

definition SavePtrs :: "ptr \<Rightarrow> ptr \<Rightarrow> bufs \<Rightarrow> bufs" where
  "SavePtrs s r b = b\<lparr>s_saved := s, r_saved := r\<rparr>"

definition RestorePtrs :: "pvar \<Rightarrow> pvar \<Rightarrow> bufs \<Rightarrow> bufs" where
  "RestorePtrs s r b = (let b1 = set_ptr s (s_saved b) b in set_ptr r (r_saved b1) b1)"

section \<open>AdvancePtrs\<close>

text \<open>
  \<open>sizeof(void *)\<close> is 8.  An argument is the address of a pointer variable, or \<open>NULL\<close>
  (\<open>None\<close>); dereferencing \<open>NULL\<close> is undefined behaviour.
\<close>

definition deref :: "pvar option \<Rightarrow> (pvar \<Rightarrow> 'a outcome) \<Rightarrow> 'a outcome" where
  "deref v k = (case v of None \<Rightarrow> Inl NullDeref | Some x \<Rightarrow> k x)"

definition advance_send :: "globals \<Rightarrow> pvar \<Rightarrow> int \<Rightarrow> bufs \<Rightarrow> bufs" where
  "advance_send g s_no blocksize b =
     (let v = get_ptr s_no b in
      if v = s_ptr b then
        (if v + 2 * blocksize < r_buf b then set_ptr s_no (v + blocksize) b
         else set_ptr s_no (s_buf b + soffset g) b)
      else if v = ds_ptr b \<and> v \<noteq> 0 then
        (if v + 2 * blocksize < dr_buf b then set_ptr s_no (v + blocksize) b
         else set_ptr s_no (s_buf b + soffset g) b)
      else b)"

definition advance_recv :: "globals \<Rightarrow> pvar \<Rightarrow> int \<Rightarrow> bufs \<Rightarrow> bufs" where
  "advance_recv g r_no blocksize b =
     (let v = get_ptr r_no b in
      if v = r_ptr b then
        (if v + 2 * blocksize < sr_buf b + MEMSIZE then set_ptr r_no (v + blocksize) b
         else set_ptr r_no (r_buf b + roffset g) b)
      else if v = dr_ptr b \<and> v \<noteq> 0 then
        (if v + 2 * blocksize < dsr_buf b + MEMSIZE then set_ptr r_no (v + blocksize) b
         else set_ptr r_no (dr_buf b + roffset g) b)
      else b)"

definition AdvancePtrs ::
  "globals \<Rightarrow> pvar option \<Rightarrow> pvar option \<Rightarrow> pvar option \<Rightarrow> pvar option \<Rightarrow> int
   \<Rightarrow> bufs \<Rightarrow> bufs outcome" where
  "AdvancePtrs g s_cache r_cache s_no r_no sz b =
     (let blocksize = round_up 8 sz in
      if cache g \<noteq> 0 then
        deref s_cache (\<lambda>sc.
          if get_ptr sc b \<noteq> 0 then
            deref r_cache (\<lambda>rc.
              let t = get_ptr sc b; b1 = set_ptr sc (get_ptr rc b) b
              in Inr (set_ptr rc t b1))
          else Inr b)
      else
        deref s_no (\<lambda>sn. deref r_no (\<lambda>rn.
          Inr (advance_recv g rn blocksize (advance_send g sn blocksize b)))))"

text \<open>The calls that the trial loops of \<open>main()\<close> make.\<close>

definition after_send :: "globals \<Rightarrow> int \<Rightarrow> bufs \<Rightarrow> bufs outcome" where
  "after_send g = AdvancePtrs g (Some DS_PTR) (Some DR_PTR) (Some S_PTR) (Some DR_PTR)"

definition after_recv :: "globals \<Rightarrow> int \<Rightarrow> bufs \<Rightarrow> bufs outcome" where
  "after_recv g = AdvancePtrs g (Some S_PTR) (Some R_PTR) (Some DS_PTR) (Some R_PTR)"

definition after_prepost :: "globals \<Rightarrow> int \<Rightarrow> bufs \<Rightarrow> bufs outcome" where
  "after_prepost g = AdvancePtrs g (Some S_PTR) (Some R_PTR) None (Some R_PTR)"

section \<open>Allocation\<close>

definition u64 :: "int \<Rightarrow> int" where "u64 x = x mod 2 ^ 64"

text \<open>The size of each half: half the request plus the larger offset, in whole pages.\<close>

definition half_bytes :: "globals \<Rightarrow> int \<Rightarrow> int \<Rightarrow> int" where
  "half_bytes g pagesize sz =
     (let nbytes = u64 (sz div 2 + max (soffset g) (roffset g))
      in if nbytes mod pagesize > 0 then u64 (nbytes + (pagesize - nbytes mod pagesize))
         else nbytes)"

text \<open>
  \<open>base\<close> is what \<open>mymalloc\<close> returns and \<open>remote\<close> the value of \<open>dsr_buf\<close> after the call
  (an RDMA module's \<open>Module_malloc\<close> sets it; 0 otherwise).
\<close>

definition MallocBufs :: "globals \<Rightarrow> int \<Rightarrow> ptr \<Rightarrow> ptr \<Rightarrow> int \<Rightarrow> bufs \<Rightarrow> bufs outcome" where
  "MallocBufs g pagesize base remote sz b =
     (if disk g > 1 then Inr (b\<lparr>sr_buf := base, dsr_buf := remote\<rparr>)
      else
        let nbytes = half_bytes g pagesize sz in
        errcheck (base = 0) ''Can't allocate send/recv buffers''
        (let b1 = b\<lparr>sr_buf := base, dsr_buf := remote,
                    s_buf := base, r_buf := base + nbytes,
                    r_ptr := base + nbytes + roffset g, s_ptr := base + soffset g\<rparr>;
             b2 = (if dsr_buf b1 \<noteq> 0 then
                     b1\<lparr>ds_buf := dsr_buf b1, dr_buf := dsr_buf b1 + nbytes,
                        dr_ptr := dsr_buf b1 + nbytes + roffset g,
                        ds_ptr := dsr_buf b1 + soffset g\<rparr>
                   else b1);
             b3 = (if module g = ''memcpy'' then
                     b2\<lparr>dsr_buf := sr_buf b2, ds_buf := s_buf b2, ds_ptr := s_ptr b2,
                        dr_buf := r_buf b2, dr_ptr := r_ptr b2\<rparr>
                   else b2)
         in Inr (b3\<lparr>mem := memset (s_buf b3) (if disk g \<noteq> 0 then 111 else -1)
                              (2 * nbytes) (mem b3)\<rparr>)))"

definition InitBufferData :: "globals \<Rightarrow> int \<Rightarrow> bufs \<Rightarrow> bufs" where
  "InitBufferData g nbytes b =
     (let b1 = b\<lparr>mem := memset (s_buf b) (-1) (nbytes + soffset g) (mem b)\<rparr>
      in b1\<lparr>r_ptr := r_buf b + roffset g, s_ptr := s_buf b + soffset g,
            dr_ptr := dr_buf b + roffset g, ds_ptr := ds_buf b + soffset g\<rparr>)"

section \<open>Saving and restoring, cache mode\<close>

lemma restore_save [simp]:
  "RestorePtrs S_PTR R_PTR (SavePtrs (s_ptr b) (r_ptr b) b) =
     b\<lparr>s_saved := s_ptr b, r_saved := r_ptr b\<rparr>"
  by (simp add: SavePtrs_def RestorePtrs_def)

lemma after_send_cache_local:
  "cache g \<noteq> 0 \<Longrightarrow> ds_ptr b = 0 \<Longrightarrow> after_send g sz b = Inr b"
  by (simp add: after_send_def AdvancePtrs_def deref_def)

lemma after_recv_cache:
  "cache g \<noteq> 0 \<Longrightarrow> s_ptr b \<noteq> 0 \<Longrightarrow>
     after_recv g sz b = Inr (b\<lparr>s_ptr := r_ptr b, r_ptr := s_ptr b\<rparr>)"
  by (simp add: after_recv_def AdvancePtrs_def deref_def Let_def)

lemma after_prepost_cache:
  "cache g \<noteq> 0 \<Longrightarrow> s_ptr b \<noteq> 0 \<Longrightarrow> after_prepost g sz b = after_recv g sz b"
  by (simp add: after_recv_def after_prepost_def AdvancePtrs_def deref_def)

text \<open>
  Burst mode cannot be combined with nocache mode: the call that advances the pointers
  between two preposted receives passes \<open>NULL\<close> for a pointer that nocache mode
  dereferences, so the first such call is undefined behaviour (on both sides), in every state.
\<close>

theorem burst_nocache_null_deref:
  "after_prepost (g\<lparr>cache := 0, burst := 1\<rparr>) sz b = Inl NullDeref"
  by (simp add: after_prepost_def AdvancePtrs_def deref_def)

section \<open>Message regions\<close>

text \<open>
  The \<open>n\<close> bytes at \<open>p\<close> lie in the \<open>len\<close> bytes at \<open>base\<close>; two regions do not overlap.
\<close>

definition inside :: "ptr \<Rightarrow> int \<Rightarrow> ptr \<Rightarrow> int \<Rightarrow> bool" where
  "inside p n base len \<longleftrightarrow> base \<le> p \<and> p + n \<le> base + len"

definition disjoint :: "ptr \<Rightarrow> int \<Rightarrow> ptr \<Rightarrow> int \<Rightarrow> bool" where
  "disjoint p n q k \<longleftrightarrow> p + n \<le> q \<or> q + k \<le> p"

text \<open>The current send and receive message lie in the allocated buffer, apart from each other.\<close>

definition bufs_ok :: "int \<Rightarrow> int \<Rightarrow> bufs \<Rightarrow> bool" where
  "bufs_ok n len b \<longleftrightarrow> 0 < sr_buf b \<and> inside (s_ptr b) n (sr_buf b) len
     \<and> inside (r_ptr b) n (sr_buf b) len \<and> disjoint (s_ptr b) n (r_ptr b) n"

lemma bufs_ok_swap [inv_intros]:
  "bufs_ok n len b \<Longrightarrow> bufs_ok n len (b\<lparr>s_ptr := r_ptr b, r_ptr := s_ptr b\<rparr>)"
  by (auto simp: bufs_ok_def disjoint_def)

definition offsets_ok :: "globals \<Rightarrow> bool" where
  "offsets_ok g \<longleftrightarrow> 0 \<le> soffset g \<and> soffset g \<le> 2 ^ 31 \<and> 0 \<le> roffset g \<and> roffset g \<le> 2 ^ 31"

lemma u64_id: "0 \<le> x \<Longrightarrow> x < 2 ^ 64 \<Longrightarrow> u64 x = x"
  by (simp add: u64_def)

lemma page_rounding:
  assumes "0 \<le> n" and "n < 2 ^ 33" and "0 < pg" and "pg \<le> 2 ^ 32"
  shows "(let k = u64 n in if k mod pg > 0 then u64 (k + (pg - k mod pg)) else k) = round_up pg n"
proof -
  have n: "u64 n = n" using assms(1,2) by (intro u64_id) auto
  have "0 \<le> n mod pg" "n mod pg < pg" using assms(3) by simp_all
  then have "0 \<le> n + (pg - n mod pg)" "n + (pg - n mod pg) \<le> 2 ^ 33 + 2 ^ 32"
    using assms by linarith+
  then have "u64 (n + (pg - n mod pg)) = n + (pg - n mod pg)" by (intro u64_id) simp_all
  with n assms(1,3) show ?thesis by (simp add: round_up_def Let_def)
qed

lemma half_bytes_props:
  assumes "offsets_ok g" and "0 < pg" and "pg \<le> 2 ^ 32" and "0 \<le> sz" and "sz \<le> 2 ^ 32"
  shows "sz div 2 + max (soffset g) (roffset g) \<le> half_bytes g pg sz
    \<and> half_bytes g pg sz < sz div 2 + max (soffset g) (roffset g) + pg
    \<and> half_bytes g pg sz mod pg = 0"
proof -
  obtain h m where h: "h = sz div 2" and m: "m = max (soffset g) (roffset g)" by simp
  have "0 \<le> h" "h \<le> 2 ^ 31"
    unfolding h using assms(4) zdiv_mono1 [OF assms(5), of 2] by simp_all
  moreover have "0 \<le> m" "m \<le> 2 ^ 31" unfolding m using assms(1) by (auto simp: offsets_ok_def max_def)
  ultimately have n: "0 \<le> h + m" "h + m < 2 ^ 33" by simp_all
  have "half_bytes g pg sz = round_up pg (h + m)"
    unfolding half_bytes_def h [symmetric] m [symmetric] by (rule page_rounding [OF n assms(2,3)])
  with round_up_ge [OF assms(2) n(1)] round_up_less [OF assms(2) n(1)]
    round_up_mod [OF assms(2) n(1)]
  show ?thesis unfolding h [symmetric] m [symmetric] by simp
qed

text \<open>
  In cache mode a data point's buffers are right: after \<open>MallocBufs( 2*buflen )\<close> both
  messages lie inside the allocation and apart, with the send half ending where the page-aligned
  receive half begins, whatever the offsets.
\<close>

theorem MallocBufs_cache_ok:
  assumes "offsets_ok g" and "0 < pg" and "pg \<le> 2 ^ 32" and "0 < base" and "base mod pg = 0"
    and "0 < n" and "n < 2 ^ 31" and "disk g \<le> 1" and "module g \<noteq> ''memcpy''"
    and "MallocBufs g pg base 0 (2 * n) b = Inr b'"
  shows "bufs_ok n (2 * half_bytes g pg (2 * n)) b' \<and> s_buf b' mod pg = 0 \<and> r_buf b' mod pg = 0
    \<and> s_ptr b' = s_buf b' + soffset g \<and> r_ptr b' = r_buf b' + roffset g"
proof -
  obtain nb where nb: "nb = half_bytes g pg (2 * n)" by simp
  have h: "n + max (soffset g) (roffset g) \<le> nb" "nb mod pg = 0"
    unfolding nb using half_bytes_props [OF assms(1,2,3), of "2 * n"] assms(6,7) by simp_all
  have "0 \<le> soffset g" "0 \<le> roffset g" using assms(1) by (simp_all add: offsets_ok_def)
  with h have so: "n + soffset g \<le> nb" "n + roffset g \<le> nb" "0 \<le> soffset g" "0 \<le> roffset g"
    by linarith+
  from assms(4-10) have b': "sr_buf b' = base" "s_buf b' = base" "r_buf b' = base + nb"
      "s_ptr b' = base + soffset g" "r_ptr b' = base + nb + roffset g"
    by (auto simp: MallocBufs_def Let_def nb)
  have "pg dvd base" "pg dvd nb" using assms(5) h(2) by (simp_all add: dvd_eq_mod_eq_0)
  then have "(base + nb) mod pg = 0" by (simp add: dvd_eq_mod_eq_0 [symmetric])
  with b' so assms(4-6) show ?thesis
    unfolding nb [symmetric] by (simp add: bufs_ok_def inside_def disjoint_def)
qed

definition null_bufs :: bufs where
  "null_bufs = \<lparr>sr_buf = 0, s_buf = 0, s_ptr = 0, r_buf = 0, r_ptr = 0, dsr_buf = 0, ds_buf = 0,
     ds_ptr = 0, dr_buf = 0, dr_ptr = 0, s_saved = 0, r_saved = 0, mem = (\<lambda>_. 0)\<rparr>"

theorem MallocBufs_cache_ok_witness:
  "\<exists>b'. MallocBufs (init_globals\<lparr>soffset := 5, roffset := 9\<rparr>) 4096 8192 0 (2 * 100) null_bufs
      = Inr b' \<and> bufs_ok 100 8192 b' \<and> s_ptr b' = s_buf b' + 5 \<and> r_ptr b' = r_buf b' + 9"
proof -
  let ?g = "init_globals\<lparr>soffset := 5, roffset := 9\<rparr>"
  obtain b' where m: "MallocBufs ?g 4096 8192 0 (2 * 100) null_bufs = Inr b'"
    by (simp add: MallocBufs_def init_globals_def null_bufs_def errcheck_def Let_def)
  have "half_bytes ?g 4096 (2 * 100) = 4096"
    by (simp add: half_bytes_def u64_def init_globals_def Let_def)
  with m MallocBufs_cache_ok [OF _ _ _ _ _ _ _ _ _ m] show ?thesis
    by (simp add: offsets_ok_def init_globals_def)
qed

section \<open>Nocache mode: walking through the large buffers\<close>

definition nocache_inv :: "globals \<Rightarrow> int \<Rightarrow> int \<Rightarrow> bufs \<Rightarrow> bool" where
  "nocache_inv g n half b \<longleftrightarrow>
     (let blk = round_up 8 n in
      0 < sr_buf b \<and> s_buf b = sr_buf b \<and> r_buf b = sr_buf b + half \<and> MEMSIZE \<le> 2 * half
      \<and> soffset g + blk \<le> half \<and> roffset g + blk \<le> half \<and> 0 \<le> soffset g \<and> 0 \<le> roffset g
      \<and> s_buf b + soffset g \<le> s_ptr b \<and> s_ptr b + blk \<le> r_buf b
      \<and> 8 dvd s_ptr b - (s_buf b + soffset g)
      \<and> r_buf b + roffset g \<le> r_ptr b \<and> r_ptr b + blk \<le> sr_buf b + 2 * half
      \<and> 8 dvd r_ptr b - (r_buf b + roffset g))"

text \<open>A sequence of the two calls of the trial loops: \<open>True\<close> after a send.\<close>

fun advance_seq :: "globals \<Rightarrow> int \<Rightarrow> bool list \<Rightarrow> bufs \<Rightarrow> bufs outcome" where
  "advance_seq g n [] b = Inr b"
| "advance_seq g n (d # ds) b =
     obind (if d then after_send g n b else after_recv g n b) (advance_seq g n ds)"

lemma dvd_step: "8 dvd (x::int) - y \<Longrightarrow> 8 dvd k \<Longrightarrow> 8 dvd x + k - y"
  by (metis add_diff_eq diff_add_eq dvd_add)

lemma after_send_nocache:
  assumes "nocache_inv g n half b" and "cache g = 0" and "0 < n"
  shows "\<exists>b'. after_send g n b = Inr b' \<and> nocache_inv g n half b'"
proof -
  let ?blk = "round_up 8 n"
  have blk: "0 < ?blk" "8 dvd ?blk"
    using round_up_ge [of 8 n] round_up_dvd [of 8 n] assms(3) by simp_all
  let ?b1 = "advance_send g S_PTR ?blk b"
  have 1: "nocache_inv g n half ?b1"
    using assms(1) blk
    by (auto simp: nocache_inv_def advance_send_def Let_def intro: dvd_step)
  have "nocache_inv g n half (advance_recv g DR_PTR ?blk ?b1)"
    using 1 by (auto simp: nocache_inv_def advance_recv_def Let_def)
  then show ?thesis using assms(2) by (simp add: after_send_def AdvancePtrs_def deref_def Let_def)
qed

lemma after_recv_nocache:
  assumes "nocache_inv g n half b" and "cache g = 0" and "0 < n"
  shows "\<exists>b'. after_recv g n b = Inr b' \<and> nocache_inv g n half b'"
proof -
  let ?blk = "round_up 8 n"
  have blk: "0 < ?blk" "8 dvd ?blk"
    using round_up_ge [of 8 n] round_up_dvd [of 8 n] assms(3) by simp_all
  let ?b1 = "advance_send g DS_PTR ?blk b"
  have 1: "nocache_inv g n half ?b1"
    using assms(1) by (auto simp: nocache_inv_def advance_send_def Let_def)
  have "nocache_inv g n half (advance_recv g R_PTR ?blk ?b1)"
    using 1 blk by (auto simp: nocache_inv_def advance_recv_def Let_def intro: dvd_step)
  then show ?thesis using assms(2) by (simp add: after_recv_def AdvancePtrs_def deref_def Let_def)
qed

lemma nocache_inv_ok: "nocache_inv g n half b \<Longrightarrow> 0 < n \<Longrightarrow> bufs_ok n (2 * half) b"
  using round_up_ge [of 8 n]
  by (auto simp: nocache_inv_def bufs_ok_def inside_def disjoint_def Let_def)

text \<open>
  C40.  Nocache mode walks safely: from pointers that \<open>InitBufferData\<close> set, any sequence of
  sends and receives of one message size keeps both messages inside their own half of the
  allocation, at a distance from their start that is a multiple of eight, and never stops.
\<close>

theorem nocache_walk_safe:
  assumes "nocache_inv g n half b" and "cache g = 0" and "0 < n"
  shows "\<exists>b'. advance_seq g n ds b = Inr b' \<and> bufs_ok n (2 * half) b'
    \<and> inside (s_ptr b') n (s_buf b') half \<and> inside (r_ptr b') n (r_buf b') half
    \<and> 8 dvd s_ptr b' - (s_buf b' + soffset g) \<and> 8 dvd r_ptr b' - (r_buf b' + roffset g)"
proof -
  have "\<exists>b'. advance_seq g n ds b = Inr b' \<and> nocache_inv g n half b'"
    using assms(1)
  proof (induction ds arbitrary: b)
    case (Cons d ds)
    from after_send_nocache [OF Cons.prems assms(2,3)] after_recv_nocache [OF Cons.prems assms(2,3)]
    obtain b1 where "(if d then after_send g n b else after_recv g n b) = Inr b1"
        and "nocache_inv g n half b1"
      by (cases d) auto
    with Cons.IH show ?case by auto
  qed simp
  then obtain b' where b': "advance_seq g n ds b = Inr b'" "nocache_inv g n half b'" by blast
  with nocache_inv_ok [OF b'(2) assms(3)] round_up_ge [of 8 n] assms(3) show ?thesis
    by (auto simp: nocache_inv_def inside_def Let_def)
qed

lemma InitBufferData_nocache [inv_intros]:
  assumes "offsets_ok g" and "0 < pg" and "pg \<le> 2 ^ 32" and "0 < base" and "cache g = 0"
    and "disk g \<le> 1" and "module g \<noteq> ''memcpy''" and "n \<le> MEMSIZE div 2" and "0 < n"
    and "MallocBufs g pg base remote MEMSIZE b = Inr b'"
  shows "nocache_inv g n (half_bytes g pg MEMSIZE) (InitBufferData g MEMSIZE b')"
proof -
  obtain nb where nb: "nb = half_bytes g pg MEMSIZE" by simp
  have h: "100000000 + max (soffset g) (roffset g) \<le> nb"
    unfolding nb using half_bytes_props [OF assms(1,2,3), of MEMSIZE] by (simp add: MEMSIZE_def)
  have "0 \<le> soffset g" "0 \<le> roffset g" using assms(1) by (simp_all add: offsets_ok_def)
  moreover have "round_up 8 n \<le> 100000000"
  proof -
    have "round_up 8 n < n + 8" using assms(9) by (intro round_up_less) simp_all
    moreover have "8 dvd round_up 8 n" using assms(9) by (intro round_up_dvd) simp_all
    ultimately show ?thesis using assms(8) unfolding MEMSIZE_def by presburger
  qed
  ultimately have so: "soffset g + round_up 8 n \<le> nb" "roffset g + round_up 8 n \<le> nb"
      "0 \<le> soffset g" "0 \<le> roffset g"
    using h by linarith+
  from assms(4-7,10) have "sr_buf b' = base" "s_buf b' = base" "r_buf b' = base + nb"
    by (auto simp: MallocBufs_def Let_def nb)
  with so h assms(4) show ?thesis unfolding nb [symmetric]
    by (auto simp: nocache_inv_def InitBufferData_def Let_def MEMSIZE_def)
qed

theorem nocache_walk_safe_witness:
  "\<exists>b b'. MallocBufs (init_globals\<lparr>cache := 0\<rparr>) 4096 8192 0 MEMSIZE null_bufs = Inr b
     \<and> advance_seq (init_globals\<lparr>cache := 0\<rparr>) 1003 [True, False, True, False]
           (InitBufferData (init_globals\<lparr>cache := 0\<rparr>) MEMSIZE b) = Inr b'
     \<and> inside (s_ptr b') 1003 (s_buf b') 100003840 \<and> 8 dvd s_ptr b' - s_buf b'"
proof -
  let ?g = "init_globals\<lparr>cache := 0\<rparr>"
  obtain b where b: "MallocBufs ?g 4096 8192 0 MEMSIZE null_bufs = Inr b"
    by (simp add: MallocBufs_def init_globals_def null_bufs_def errcheck_def Let_def)
  have "half_bytes ?g 4096 MEMSIZE = 100003840"
    by (simp add: half_bytes_def u64_def init_globals_def MEMSIZE_def Let_def)
  moreover have "nocache_inv ?g 1003 (half_bytes ?g 4096 MEMSIZE) (InitBufferData ?g MEMSIZE b)"
    by (rule InitBufferData_nocache [OF _ _ _ _ _ _ _ _ _ b])
      (simp_all add: offsets_ok_def init_globals_def MEMSIZE_def)
  ultimately have "nocache_inv ?g 1003 100003840 (InitBufferData ?g MEMSIZE b)" by simp
  from nocache_walk_safe [OF this, of "[True, False, True, False]"] b show ?thesis
    by (simp add: init_globals_def) blast
qed

text \<open>
  The remote send pointer of an RDMA module does not stay in the remote buffer: when it
  reaches the end of the remote send half it is reset to the local send buffer
  (\<open>s_buf + soffset\<close>, not \<open>ds_buf + soffset\<close>), which is outside the remote allocation
  whenever the two allocations do not overlap.
\<close>

theorem remote_pointer_leaves_buffer:
  assumes "cache g = 0" and "ds_ptr b \<noteq> s_ptr b" and "ds_ptr b \<noteq> 0"
    and "dr_buf b \<le> ds_ptr b + 2 * round_up 8 n"
    and "s_buf b + soffset g < dsr_buf b \<or> dsr_buf b + MEMSIZE \<le> s_buf b + soffset g"
  shows "\<exists>b'. after_recv g n b = Inr b' \<and> ds_ptr b' = s_buf b + soffset g
    \<and> \<not> inside (ds_ptr b') 1 (dsr_buf b') MEMSIZE"
proof -
  let ?b1 = "advance_send g DS_PTR (round_up 8 n) b"
  have b1: "?b1 = b\<lparr>ds_ptr := s_buf b + soffset g\<rparr>"
    using assms(2-4) by (simp add: advance_send_def Let_def)
  let ?b2 = "advance_recv g R_PTR (round_up 8 n) ?b1"
  have "ds_ptr ?b2 = s_buf b + soffset g" "dsr_buf ?b2 = dsr_buf b"
    unfolding b1 by (simp_all add: advance_recv_def Let_def)
  moreover have "after_recv g n b = Inr ?b2"
    using assms(1) by (simp add: after_recv_def AdvancePtrs_def deref_def Let_def)
  ultimately show ?thesis using assms(5) by (auto simp: inside_def)
qed

theorem remote_pointer_leaves_buffer_witness:
  "\<exists>b'. after_recv (init_globals\<lparr>cache := 0\<rparr>) 64
       (null_bufs\<lparr>sr_buf := 4096, s_buf := 4096, s_ptr := 4096, r_buf := 100004096,
          r_ptr := 100004096, dsr_buf := 1000000000, ds_buf := 1000000000,
          ds_ptr := 1099999900, dr_buf := 1100000000, dr_ptr := 1100000000\<rparr>) = Inr b'
     \<and> ds_ptr b' = 4096"
  using remote_pointer_leaves_buffer [of "init_globals\<lparr>cache := 0\<rparr>"
    "null_bufs\<lparr>sr_buf := 4096, s_buf := 4096, s_ptr := 4096, r_buf := 100004096,
          r_ptr := 100004096, dsr_buf := 1000000000, ds_buf := 1000000000,
          ds_ptr := 1099999900, dr_buf := 1100000000, dr_ptr := 1100000000\<rparr>" 64]
  by (auto simp: init_globals_def round_up_def)

end
