(* ===== verification/Integrity.thy ===== *)
theory Integrity
  imports Buffers
begin

text \<open>
  \<open>SetupBufferData\<close>, \<open>CheckBufferData\<close> and \<open>flushcache\<close> of \<open>src/netpipe.c\<close>.  A \<open>char\<close>
  is a signed byte, so a byte is compared with an \<open>int\<close> through \<open>sint\<close>.  The function-local
  statics \<open>stag\<close> and \<open>rtag\<close> and this process's entry of \<open>failures\<close> are part of the state;
  the failure count, a \<open>double\<close> in the code that is only ever increased by one, is a \<open>nat\<close>.
\<close>

record node =
  nbufs :: bufs
  stag :: int
  rtag :: int
  failures :: nat

text \<open>\<open>for( i = 1; i < buflen-1; i++ ) s_ptr[i] = i % 100;\<close>\<close>

definition fill_pattern :: "ptr \<Rightarrow> int \<Rightarrow> memory \<Rightarrow> memory" where
  "fill_pattern s buflen m =
     fold (\<lambda>i m. m(s + i := word_of_int (c_mod i 100))) [1..buflen - 2] m"

definition SetupBufferData :: "globals \<Rightarrow> int \<Rightarrow> node \<Rightarrow> node" where
  "SetupBufferData g buflen nd =
     (if disk g \<noteq> 0 then nd
      else
        let s = s_ptr (nbufs nd);
            m1 = (if integrityCheck g \<noteq> 0 then fill_pattern s buflen (mem (nbufs nd))
                  else mem (nbufs nd));
            tag = c_mod (stag nd + 1) 100;
            m2 = (m1(s + (buflen - 1) := word_of_int tag))(s := word_of_int tag)
        in nd\<lparr>nbufs := (nbufs nd)\<lparr>mem := m2\<rparr>, stag := tag\<rparr>)"

text \<open>
  The loop of the full integrity test: count the bytes that differ from the pattern and
  clear each for the next message.
\<close>

definition check_byte :: "ptr \<Rightarrow> int \<Rightarrow> memory \<times> nat \<Rightarrow> memory \<times> nat" where
  "check_byte r i = (\<lambda>(m, f).
     (m(r + i := -1), if sint (m (r + i)) \<noteq> c_mod i 100 then f + 1 else f))"

definition CheckBufferData :: "globals \<Rightarrow> int \<Rightarrow> node \<Rightarrow> node" where
  "CheckBufferData g buflen nd =
     (if disk g \<noteq> 0 then nd
      else
        let tag = c_mod (rtag nd + 1) 100; r = r_ptr (nbufs nd); m = mem (nbufs nd) in
        if integrityCheck g \<noteq> 0 then
          let (m1, f1) = fold (check_byte r) [1..buflen - 2] (m, failures nd);
              f2 = (if sint (m1 r) \<noteq> tag then f1 + 1 else f1);
              f3 = (if sint (m1 (r + (buflen - 1))) \<noteq> tag then f2 + 1 else f2)
          in nd\<lparr>nbufs := (nbufs nd)\<lparr>mem := m1\<rparr>, rtag := tag, failures := f3\<rparr>
        else
          nd\<lparr>rtag := tag,
             failures := (if sint (m r) \<noteq> tag \<or> sint (m (r + (buflen - 1))) \<noteq> tag
                          then failures nd + 1 else failures nd)\<rparr>)"

section \<open>Bytes\<close>

lemma sint_small [simp]: "0 \<le> k \<Longrightarrow> k < 128 \<Longrightarrow> sint (word_of_int k :: byte) = k"
  by (simp add: sint_sbintrunc' signed_take_bit_int_eq_self)

lemma c_mod_100 [simp]: "0 \<le> i \<Longrightarrow> 0 \<le> c_mod i 100 \<and> c_mod i 100 < 128"
  using pos_mod_bound [of 100 i] by simp

lemma fold_update_outside:
  "\<forall>i \<in> set xs. x \<noteq> s + i \<Longrightarrow> fold (\<lambda>i m. m(s + i := v i)) xs m x = m (x::int)"
  by (induction xs arbitrary: m) auto

lemma fold_update_inside:
  "distinct xs \<Longrightarrow> i \<in> set xs \<Longrightarrow> fold (\<lambda>i m. m(s + i := v i)) xs m (s + i :: int) = v i"
proof (induction xs arbitrary: m)
  case (Cons j xs)
  show ?case
  proof (cases "i = j")
    case True
    with Cons.prems have "\<forall>k \<in> set xs. s + i \<noteq> s + k" by auto
    from fold_update_outside [OF this, of v "m(s + j := v j)"] True show ?thesis
      by (simp only: fold_simps fun_upd_same)
  qed (use Cons in simp)
qed simp

lemma distinct_upto [simp]: "distinct [i..j :: int]"
  by (induction i j rule: upto.induct) (subst upto.simps, auto)

lemma fill_pattern_eq:
  "fill_pattern s n m x =
     (if 1 \<le> x - s \<and> x - s < n - 1 then word_of_int (c_mod (x - s) 100) else m x)"
proof (cases "1 \<le> x - s \<and> x - s < n - 1")
  case True
  then have "x - s \<in> set [1..n - 2]" by simp
  with fold_update_inside [OF distinct_upto this, of s "\<lambda>i. word_of_int (c_mod i 100)" m] True
  show ?thesis by (simp add: fill_pattern_def)
next
  case False
  then show ?thesis unfolding fill_pattern_def
    by (subst fold_update_outside) auto
qed

lemma fold_check_byte:
  "distinct xs \<Longrightarrow> fold (check_byte r) xs (m, f) =
     ((\<lambda>x. if x - r \<in> set xs then -1 else m x),
      f + length (filter (\<lambda>i. sint (m (r + i)) \<noteq> c_mod i 100) xs))"
proof (induction xs arbitrary: m f)
  case (Cons i xs)
  then have "filter (\<lambda>j. sint ((m(r + i := -1)) (r + j)) \<noteq> c_mod j 100) xs
      = filter (\<lambda>j. sint (m (r + j)) \<noteq> c_mod j 100) xs"
    by (intro filter_cong) auto
  with Cons show ?case by (auto simp: check_byte_def fun_eq_iff)
qed (simp add: fun_eq_iff)

section \<open>What a message looks like\<close>

text \<open>The bytes that \<open>SetupBufferData\<close> leaves for a message with tag \<open>t\<close>, in the full test.\<close>

definition pattern_byte :: "int \<Rightarrow> int \<Rightarrow> int \<Rightarrow> byte" where
  "pattern_byte n t i = (if i = 0 \<or> i = n - 1 then word_of_int t else word_of_int (c_mod i 100))"

lemma SetupBufferData_frame [frame_simps]:
  "s_ptr (nbufs (SetupBufferData g n nd)) = s_ptr (nbufs nd)"
  "r_ptr (nbufs (SetupBufferData g n nd)) = r_ptr (nbufs nd)"
  "rtag (SetupBufferData g n nd) = rtag nd" "failures (SetupBufferData g n nd) = failures nd"
  by (simp_all add: SetupBufferData_def Let_def)

lemma SetupBufferData_stag:
  "disk g = 0 \<Longrightarrow> stag (SetupBufferData g n nd) = c_mod (stag nd + 1) 100"
  by (simp add: SetupBufferData_def Let_def)

lemma SetupBufferData_ends:
  assumes "disk g = 0"
  shows "mem (nbufs (SetupBufferData g n nd)) (s_ptr (nbufs nd)) = word_of_int (c_mod (stag nd + 1) 100)"
    and "mem (nbufs (SetupBufferData g n nd)) (s_ptr (nbufs nd) + (n - 1)) =
           word_of_int (c_mod (stag nd + 1) 100)"
  using assms by (simp_all add: SetupBufferData_def Let_def)

lemma SetupBufferData_pattern:
  assumes "disk g = 0" and "integrityCheck g \<noteq> 0" and "0 \<le> i" and "i < n"
  shows "mem (nbufs (SetupBufferData g n nd)) (s_ptr (nbufs nd) + i) =
           pattern_byte n (c_mod (stag nd + 1) 100) i"
  using assms by (auto simp: SetupBufferData_def Let_def pattern_byte_def fill_pattern_eq)

lemma SetupBufferData_outside:
  assumes "x < s_ptr (nbufs nd) \<or> s_ptr (nbufs nd) + n \<le> x" and "0 < n"
  shows "mem (nbufs (SetupBufferData g n nd)) x = mem (nbufs nd) x"
  using assms by (auto simp: SetupBufferData_def Let_def fill_pattern_eq)

section \<open>The check counts exactly the wrong bytes\<close>

text \<open>The wrong bytes among the \<open>n\<close> at \<open>r\<close>, when a message with tag \<open>t\<close> is due.\<close>

definition wrong_inner :: "int \<Rightarrow> memory \<Rightarrow> ptr \<Rightarrow> nat" where
  "wrong_inner n m r = length (filter (\<lambda>i. sint (m (r + i)) \<noteq> c_mod i 100) [1..n - 2])"

definition wrong_end :: "int \<Rightarrow> memory \<Rightarrow> ptr \<Rightarrow> nat" where
  "wrong_end t m x = (if sint (m x) \<noteq> t then 1 else 0)"

lemma CheckBufferData_full:
  assumes "disk g = 0" and "integrityCheck g \<noteq> 0"
  shows "failures (CheckBufferData g n nd) = failures nd
    + wrong_inner n (mem (nbufs nd)) (r_ptr (nbufs nd))
    + wrong_end (c_mod (rtag nd + 1) 100) (mem (nbufs nd)) (r_ptr (nbufs nd))
    + wrong_end (c_mod (rtag nd + 1) 100) (mem (nbufs nd)) (r_ptr (nbufs nd) + (n - 1))"
  using assms
  by (simp add: CheckBufferData_def Let_def fold_check_byte wrong_inner_def wrong_end_def)

lemma CheckBufferData_quick:
  assumes "disk g = 0" and "integrityCheck g = 0"
  shows "failures (CheckBufferData g n nd) = failures nd
    + max (wrong_end (c_mod (rtag nd + 1) 100) (mem (nbufs nd)) (r_ptr (nbufs nd)))
          (wrong_end (c_mod (rtag nd + 1) 100) (mem (nbufs nd)) (r_ptr (nbufs nd) + (n - 1)))"
  using assms by (simp add: CheckBufferData_def Let_def wrong_end_def)

lemma CheckBufferData_frame [frame_simps]:
  "s_ptr (nbufs (CheckBufferData g n nd)) = s_ptr (nbufs nd)"
  "r_ptr (nbufs (CheckBufferData g n nd)) = r_ptr (nbufs nd)"
  "stag (CheckBufferData g n nd) = stag nd"
  "disk g = 0 \<Longrightarrow> rtag (CheckBufferData g n nd) = c_mod (rtag nd + 1) 100"
  by (simp_all add: CheckBufferData_def Let_def split: prod.split)

definition same_bytes :: "int \<Rightarrow> memory \<Rightarrow> ptr \<Rightarrow> memory \<Rightarrow> ptr \<Rightarrow> bool" where
  "same_bytes n m p m' q \<longleftrightarrow> (\<forall>i \<in> set [0..n - 1]. m (p + i) = m' (q + i))"

lemma same_bytesD: "same_bytes n m p m' q \<Longrightarrow> 0 \<le> i \<Longrightarrow> i < n \<Longrightarrow> m (p + i) = m' (q + i)"
  by (simp add: same_bytes_def)

text \<open>
  C38.  Round trip: if what \<open>SetupBufferData\<close> left in the sender's send buffer arrives in the
  receiver's receive buffer, and the receiver has checked as many messages as the sender had
  set up before, then \<open>CheckBufferData\<close> finds no failure, for every message size, in the
  full test and in the quick one.
\<close>

theorem setup_check_roundtrip:
  assumes "0 < n" and "0 \<le> stag a" and "rtag b = stag a"
    and "same_bytes n (mem (nbufs (SetupBufferData g n a))) (s_ptr (nbufs a))
           (mem (nbufs b)) (r_ptr (nbufs b))"
  shows "failures (CheckBufferData g n b) = failures b"
proof (cases "disk g = 0")
  case False
  then show ?thesis by (simp add: CheckBufferData_def)
next
  case True
  let ?t = "c_mod (stag a + 1) 100" and ?m = "mem (nbufs b)" and ?r = "r_ptr (nbufs b)"
  have t: "sint (word_of_int ?t :: byte) = ?t" using assms(2) c_mod_100 by (intro sint_small) simp_all
  have ends: "wrong_end ?t ?m ?r = 0" "wrong_end ?t ?m (?r + (n - 1)) = 0"
    using same_bytesD [OF assms(4), of 0] same_bytesD [OF assms(4), of "n - 1"] assms(1) t
    by (simp_all add: wrong_end_def SetupBufferData_ends [OF True])
  show ?thesis
  proof (cases "integrityCheck g = 0")
    case False
    have "sint (?m (?r + i)) = c_mod i 100" if "i \<in> set [1..n - 2]" for i
    proof -
      have "?m (?r + i) = word_of_int (c_mod i 100)"
        using that same_bytesD [OF assms(4), of i] SetupBufferData_pattern [OF True False, of i n a]
        by (simp add: pattern_byte_def)
      then show ?thesis using that c_mod_100 [of i] by simp
    qed
    then have "wrong_inner n ?m ?r = 0" by (simp add: wrong_inner_def)
    with ends show ?thesis by (simp add: CheckBufferData_full [OF True False] assms(3))
  qed (use ends in \<open>simp add: CheckBufferData_quick [OF True] assms(3)\<close>)
qed

definition demo_node :: "ptr \<Rightarrow> ptr \<Rightarrow> node" where
  "demo_node s r = \<lparr>nbufs = null_bufs\<lparr>s_ptr := s, r_ptr := r\<rparr>, stag = 7, rtag = 7, failures = 0\<rparr>"

theorem setup_check_roundtrip_witness:
  "\<exists>b. r_ptr (nbufs b) = 200 \<and> failures (CheckBufferData (init_globals\<lparr>integrityCheck := 1\<rparr>) 4 b) = 0"
proof -
  let ?g = "init_globals\<lparr>integrityCheck := 1\<rparr>" and ?a = "demo_node 100 200"
  let ?b = "?a\<lparr>nbufs := (nbufs ?a)\<lparr>mem := (\<lambda>x. mem (nbufs (SetupBufferData ?g 4 ?a)) (x - 100))\<rparr>\<rparr>"
  have "same_bytes 4 (mem (nbufs (SetupBufferData ?g 4 ?a))) (s_ptr (nbufs ?a))
      (mem (nbufs ?b)) (r_ptr (nbufs ?b))"
    by (simp add: same_bytes_def demo_node_def null_bufs_def)
  from setup_check_roundtrip [OF _ _ _ this]
  have "failures (CheckBufferData ?g 4 ?b) = 0" by (simp add: demo_node_def)
  moreover have "r_ptr (nbufs ?b) = 200" by (simp add: demo_node_def null_bufs_def)
  ultimately show ?thesis by blast
qed

text \<open>
  C39.  The full integrity test misses nothing: for a message of at least two bytes its failure
  count grows by exactly the number of positions at which the received byte differs from the
  byte that was due.
\<close>

theorem integrity_counts_corruption:
  assumes "2 \<le> n" and "0 \<le> rtag b" and "disk g = 0" and "integrityCheck g \<noteq> 0"
  shows "failures (CheckBufferData g n b) = failures b
    + length (filter (\<lambda>i. mem (nbufs b) (r_ptr (nbufs b) + i)
                           \<noteq> pattern_byte n (c_mod (rtag b + 1) 100) i) [0..n - 1])"
proof -
  let ?t = "c_mod (rtag b + 1) 100" and ?m = "mem (nbufs b)" and ?r = "r_ptr (nbufs b)"
  have byte: "sint w = k \<longleftrightarrow> w = word_of_int k" if "0 \<le> k" "k < 128" for k and w :: byte
  proof
    assume "sint w = k"
    then have "sint w = sint (word_of_int k :: byte)" using that by simp
    then show "w = word_of_int k" by (rule signed_word_eqI)
  qed (use that in simp)
  have t: "0 \<le> ?t" "?t < 128" using assms(2) c_mod_100 [of "rtag b + 1"] by simp_all
  have e: "wrong_end ?t ?m x = (if ?m x \<noteq> word_of_int ?t then 1 else 0)" for x
    by (simp only: wrong_end_def byte [OF t])
  have split: "[0..n - 1] = 0 # [1..n - 2] @ [n - 1]"
    using assms(1) upto_rec1 [of 0 "n - 1"] upto_rec2 [of 1 "n - 1"] by simp
  have "filter (\<lambda>i. ?m (?r + i) \<noteq> pattern_byte n ?t i) [1..n - 2]
      = filter (\<lambda>i. sint (?m (?r + i)) \<noteq> c_mod i 100) [1..n - 2]"
  proof (rule filter_cong)
    fix i assume "i \<in> set [1..n - 2]"
    then have "1 \<le> i" "i < n - 1" by simp_all
    show "(?m (?r + i) \<noteq> pattern_byte n ?t i) = (sint (?m (?r + i)) \<noteq> c_mod i 100)"
    proof -
      have "0 \<le> c_mod i 100" "c_mod i 100 < 128"
        using \<open>1 \<le> i\<close> c_mod_100 [of i] by linarith+
      note b = byte [OF this]
      have "pattern_byte n ?t i = word_of_int (c_mod i 100)"
        using \<open>1 \<le> i\<close> \<open>i < n - 1\<close> by (simp only: pattern_byte_def) simp
      then show ?thesis by (simp only: b)
    qed
  qed simp
  then show ?thesis
    unfolding CheckBufferData_full [OF assms(3,4)] split
    using assms(1) by (simp add: e wrong_inner_def pattern_byte_def)
qed

theorem integrity_counts_corruption_witness:
  "failures (CheckBufferData (init_globals\<lparr>integrityCheck := 1\<rparr>) 4 (demo_node 100 200)) = 4"
  using integrity_counts_corruption [of 4 "demo_node 100 200" "init_globals\<lparr>integrityCheck := 1\<rparr>"]
  by (simp add: demo_node_def null_bufs_def init_globals_def pattern_byte_def upto.simps)

section \<open>flushcache\<close>

text \<open>
  Successive calls add and subtract one from each of the first \<open>n\<close> integers (32-bit words)
  of the area; \<open>flag\<close> is the function's static variable.
\<close>

definition flushcache :: "nat \<Rightarrow> nat \<times> 32 word list \<Rightarrow> nat \<times> 32 word list" where
  "flushcache n = (\<lambda>(flag, area).
     let flag' = (flag + 1) mod 2
     in (flag', if flag' = 0 then map (\<lambda>w. w + 1) (take n area) @ drop n area
                else map (\<lambda>w. w - 1) (take n area) @ drop n area))"

lemma flushcache_twice:
  assumes "flag < 2" and "n \<le> length area"
  shows "flushcache n (flushcache n (flag, area)) = (flag, area)"
proof -
  have "flag = 0 \<or> flag = 1" using assms(1) by auto
  then show ?thesis using assms(2)
    by (auto simp: flushcache_def Let_def o_def)
qed

end
