(* ===== verification/PingPong.thy ===== *)
theory PingPong
  imports Integrity
begin

text \<open>
  One timed trial of \<open>main()\<close> in \<open>src/netpipe.c\<close>: a pair of processes, each running the loop
  \<open>for (j = 0; j < nrepeat; j++)\<close> of the transmitter or of the receiver, as a step relation
  in which either side may move.  A step is the sending half or the receiving half of the loop
  body, with the calls the code makes there: \<open>SetupBufferData\<close>, \<open>SendData\<close>,
  \<open>AdvancePtrs\<close>, or \<open>RecvData\<close>, \<open>CheckBufferData\<close>, \<open>AdvancePtrs\<close>.  The module's
  \<open>SendData\<close>/\<open>RecvData\<close> are an interface, the locale \<open>transport\<close>; the theories of the
  modules interpret it.  A send completes without waiting for the peer.
\<close>

section \<open>The interface of the modules\<close>

text \<open>
  A channel holds the messages sent and not yet received, in order.  All messages of a trial
  have the same length \<open>n\<close>.
\<close>

locale transport =
  fixes tsend :: "byte list \<Rightarrow> 'c \<Rightarrow> 'c"
    and trecv :: "nat \<Rightarrow> 'c \<Rightarrow> (byte list \<times> 'c) option"
    and msgs :: "'c \<Rightarrow> byte list list"
    and ok :: "'c \<Rightarrow> bool"
    and n :: nat
  assumes send_ok: "ok c \<Longrightarrow> length m = n \<Longrightarrow> ok (tsend m c)"
    and msgs_send: "ok c \<Longrightarrow> length m = n \<Longrightarrow> msgs (tsend m c) = msgs c @ [m]"
    and recv_ready: "ok c \<Longrightarrow> msgs c = m # ms \<Longrightarrow>
          \<exists>c'. trecv n c = Some (m, c') \<and> ok c' \<and> msgs c' = ms"
    and recv_blocks: "ok c \<Longrightarrow> msgs c = [] \<Longrightarrow> trecv n c = None"
begin

lemma recv_Some:
  assumes "ok c" and "trecv n c = Some (m, c')"
  shows "msgs c = m # msgs c' \<and> ok c'"
proof (cases "msgs c")
  case Nil
  with assms recv_blocks show ?thesis by simp
next
  case (Cons m' ms)
  with assms recv_ready [OF assms(1) Cons] show ?thesis by auto
qed

end

section \<open>The two processes\<close>

datatype pc = AtSend | AtRecv

datatype role = Transmitter | Receiver

record proc =
  p_node :: node
  p_pc :: pc
  p_j :: nat

text \<open>Side \<open>True\<close> is the process below \<open>nprocs/2\<close>; \<open>chans s\<close> carries what side \<open>s\<close> sends.\<close>

record 'c pair_sys =
  procs :: "bool \<Rightarrow> proc"
  chans :: "bool \<Rightarrow> 'c"

definition role_of :: "globals \<Rightarrow> bool \<Rightarrow> role" where
  "role_of g s = (if s \<or> bidir g \<noteq> 0 then Transmitter else Receiver)"

definition start_pc :: "role \<Rightarrow> pc" where
  "start_pc r = (case r of Transmitter \<Rightarrow> AtSend | Receiver \<Rightarrow> AtRecv)"

definition read_msg :: "int \<Rightarrow> ptr \<Rightarrow> memory \<Rightarrow> byte list" where
  "read_msg n s m = map (\<lambda>i. m (s + i)) [0..n - 1]"

definition write_msg :: "ptr \<Rightarrow> byte list \<Rightarrow> memory \<Rightarrow> memory" where
  "write_msg r bs m =
     (\<lambda>x. if r \<le> x \<and> x < r + int (length bs) then bs ! nat (x - r) else m x)"

text \<open>\<open>SetupBufferData(); SendData(); AdvancePtrs(...)\<close>: the message and the new state.\<close>

definition send_half :: "globals \<Rightarrow> int \<Rightarrow> node \<Rightarrow> (byte list \<times> node) outcome" where
  "send_half g n nd =
     (let nd1 = SetupBufferData g n nd; b = nbufs nd1
      in obind (after_send g n b) (\<lambda>b'. Inr (read_msg n (s_ptr b) (mem b), nd1\<lparr>nbufs := b'\<rparr>)))"

text \<open>\<open>RecvData(); CheckBufferData(); AdvancePtrs(...)\<close>, the received bytes given.\<close>

definition recv_half :: "globals \<Rightarrow> int \<Rightarrow> byte list \<Rightarrow> node \<Rightarrow> node outcome" where
  "recv_half g n bs nd =
     (let b = nbufs nd;
          nd1 = nd\<lparr>nbufs := b\<lparr>mem := write_msg (r_ptr b) bs (mem b)\<rparr>\<rparr>;
          nd2 = CheckBufferData g n nd1
      in obind (after_recv g n (nbufs nd2)) (\<lambda>b'. Inr (nd2\<lparr>nbufs := b'\<rparr>)))"

definition after_send_pc :: "globals \<Rightarrow> role \<Rightarrow> proc \<Rightarrow> proc" where
  "after_send_pc g r p = (case r of
     Transmitter \<Rightarrow> if stream g \<noteq> 0 then p\<lparr>p_j := p_j p + 1\<rparr> else p\<lparr>p_pc := AtRecv\<rparr>
   | Receiver \<Rightarrow> p\<lparr>p_pc := AtRecv, p_j := p_j p + 1\<rparr>)"

definition after_recv_pc :: "globals \<Rightarrow> role \<Rightarrow> proc \<Rightarrow> proc" where
  "after_recv_pc g r p = (case r of
     Transmitter \<Rightarrow> p\<lparr>p_pc := AtSend, p_j := p_j p + 1\<rparr>
   | Receiver \<Rightarrow> if stream g \<noteq> 0 then p\<lparr>p_j := p_j p + 1\<rparr> else p\<lparr>p_pc := AtSend\<rparr>)"

inductive pp_step ::
  "(byte list \<Rightarrow> 'c \<Rightarrow> 'c) \<Rightarrow> (nat \<Rightarrow> 'c \<Rightarrow> (byte list \<times> 'c) option) \<Rightarrow> globals \<Rightarrow> int \<Rightarrow> nat
   \<Rightarrow> 'c pair_sys \<Rightarrow> 'c pair_sys \<Rightarrow> bool"
  for tsend trecv g n nrepeat where
  pp_send: "p = procs y s \<Longrightarrow> p_pc p = AtSend \<Longrightarrow> p_j p < nrepeat \<Longrightarrow>
     send_half g n (p_node p) = Inr (bs, nd) \<Longrightarrow>
     pp_step tsend trecv g n nrepeat y
       (y\<lparr>procs := (procs y)(s := after_send_pc g (role_of g s) (p\<lparr>p_node := nd\<rparr>)),
          chans := (chans y)(s := tsend bs (chans y s))\<rparr>)"
| pp_recv: "p = procs y s \<Longrightarrow> p_pc p = AtRecv \<Longrightarrow> p_j p < nrepeat \<Longrightarrow>
     trecv (nat n) (chans y (\<not> s)) = Some (bs, c) \<Longrightarrow>
     recv_half g n bs (p_node p) = Inr nd \<Longrightarrow>
     pp_step tsend trecv g n nrepeat y
       (y\<lparr>procs := (procs y)(s := after_recv_pc g (role_of g s) (p\<lparr>p_node := nd\<rparr>)),
          chans := (chans y)(\<not> s := c)\<rparr>)"

text \<open>Both loops have run their \<open>nrepeat\<close> iterations.\<close>

definition pp_final :: "nat \<Rightarrow> 'c pair_sys \<Rightarrow> bool" where
  "pp_final nrepeat y \<longleftrightarrow> (\<forall>s. p_j (procs y s) = nrepeat)"

inductive pp_reach ::
  "(byte list \<Rightarrow> 'c \<Rightarrow> 'c) \<Rightarrow> (nat \<Rightarrow> 'c \<Rightarrow> (byte list \<times> 'c) option) \<Rightarrow> globals \<Rightarrow> int \<Rightarrow> nat
   \<Rightarrow> 'c pair_sys \<Rightarrow> nat \<Rightarrow> 'c pair_sys \<Rightarrow> bool"
  for tsend trecv g n nrepeat y0 where
  pp_start: "pp_reach tsend trecv g n nrepeat y0 0 y0"
| pp_more: "pp_reach tsend trecv g n nrepeat y0 k y \<Longrightarrow> pp_step tsend trecv g n nrepeat y z \<Longrightarrow>
     pp_reach tsend trecv g n nrepeat y0 (Suc k) z"

section \<open>One half of the loop body\<close>

text \<open>
  What the trial keeps of a node's buffers: \<open>bufs_ok\<close> in cache mode with no remote buffers,
  the walking invariant in nocache mode.
\<close>

definition node_bufs_ok :: "globals \<Rightarrow> int \<Rightarrow> bufs \<Rightarrow> bool" where
  "node_bufs_ok g n b \<longleftrightarrow>
     (if cache g \<noteq> 0 then (\<exists>len. bufs_ok n len b) \<and> ds_ptr b = 0
      else (\<exists>half. nocache_inv g n half b))"

lemma node_bufs_ok_mem [simp]: "node_bufs_ok g n (b\<lparr>mem := m\<rparr>) = node_bufs_ok g n b"
  by (simp add: node_bufs_ok_def bufs_ok_def nocache_inv_def Let_def)

lemma node_bufs_ok_pos: "node_bufs_ok g n b \<Longrightarrow> 0 < n \<Longrightarrow> s_ptr b \<noteq> 0"
  using round_up_ge [of 8 n]
  by (auto simp: node_bufs_ok_def bufs_ok_def inside_def nocache_inv_def Let_def split: if_splits)

lemma node_bufs_ok_send [inv_intros]:
  assumes "node_bufs_ok g n b" and "0 < n"
  shows "\<exists>b'. after_send g n b = Inr b' \<and> node_bufs_ok g n b'"
proof (cases "cache g = 0")
  case True
  with assms after_send_nocache show ?thesis unfolding node_bufs_ok_def by simp metis
next
  case False
  with assms after_send_cache_local show ?thesis by (auto simp: node_bufs_ok_def)
qed

lemma node_bufs_ok_recv [inv_intros]:
  assumes "node_bufs_ok g n b" and "0 < n"
  shows "\<exists>b'. after_recv g n b = Inr b' \<and> node_bufs_ok g n b'"
proof (cases "cache g = 0")
  case True
  with assms after_recv_nocache show ?thesis unfolding node_bufs_ok_def by simp metis
next
  case False
  with assms node_bufs_ok_pos [OF assms] bufs_ok_swap show ?thesis
    by (fastforce simp: node_bufs_ok_def after_recv_cache)
qed

text \<open>A message of \<open>n\<close> bytes with tag \<open>t\<close> as the receiver expects it.\<close>

definition good_msg :: "globals \<Rightarrow> int \<Rightarrow> int \<Rightarrow> byte list \<Rightarrow> bool" where
  "good_msg g n t bs \<longleftrightarrow> int (length bs) = n \<and>
     (disk g = 0 \<longrightarrow> bs ! 0 = word_of_int t \<and> bs ! (length bs - 1) = word_of_int t \<and>
       (integrityCheck g \<noteq> 0 \<longrightarrow> (\<forall>i < length bs. bs ! i = pattern_byte n t (int i))))"

lemma read_msg_nth:
  "0 < n \<Longrightarrow> i < nat n \<Longrightarrow> read_msg n s m ! i = m (s + int i)"
  by (simp add: read_msg_def nth_upto)

lemma length_read_msg [simp]: "0 < n \<Longrightarrow> length (read_msg n s m) = nat n"
  by (simp add: read_msg_def)

lemma send_half_props:
  assumes "node_bufs_ok g n (nbufs nd)" and "0 < n" and "disk g = 0"
  shows "\<exists>bs nd'. send_half g n nd = Inr (bs, nd') \<and> node_bufs_ok g n (nbufs nd')
    \<and> good_msg g n (c_mod (stag nd + 1) 100) bs \<and> stag nd' = c_mod (stag nd + 1) 100
    \<and> rtag nd' = rtag nd \<and> failures nd' = failures nd"
proof -
  let ?nd1 = "SetupBufferData g n nd" and ?t = "c_mod (stag nd + 1) 100"
  have "node_bufs_ok g n (nbufs ?nd1)"
    using assms(1) by (simp add: SetupBufferData_def Let_def)
  from node_bufs_ok_send [OF this assms(2)] obtain b'
    where b': "after_send g n (nbufs ?nd1) = Inr b'" "node_bufs_ok g n b'" by blast
  let ?bs = "read_msg n (s_ptr (nbufs ?nd1)) (mem (nbufs ?nd1))"
  have nth: "?bs ! i = mem (nbufs ?nd1) (s_ptr (nbufs nd) + int i)" if "i < nat n" for i
    using read_msg_nth [OF assms(2) that] by (simp add: frame_simps)
  have "good_msg g n ?t ?bs"
    using assms(2) nth [of 0] nth [of "nat n - 1"] SetupBufferData_ends [OF assms(3), of n nd]
      SetupBufferData_pattern [OF assms(3), of _ n nd] nth
    by (simp add: good_msg_def of_nat_diff)
  with b' show ?thesis
    by (simp add: send_half_def Let_def frame_simps SetupBufferData_stag [OF assms(3)])
qed

lemma recv_half_props:
  assumes "node_bufs_ok g n (nbufs nd)" and "0 < n" and "disk g = 0" and "0 \<le> rtag nd"
    and good: "good_msg g n (c_mod (rtag nd + 1) 100) bs"
  shows "\<exists>nd'. recv_half g n bs nd = Inr nd' \<and> node_bufs_ok g n (nbufs nd')
    \<and> stag nd' = stag nd \<and> rtag nd' = c_mod (rtag nd + 1) 100 \<and> failures nd' = failures nd"
proof -
  let ?t = "c_mod (rtag nd + 1) 100" and ?r = "r_ptr (nbufs nd)"
  let ?m = "write_msg ?r bs (mem (nbufs nd))"
  let ?nd1 = "nd\<lparr>nbufs := (nbufs nd)\<lparr>mem := ?m\<rparr>\<rparr>"
  have len: "length bs = nat n" using good by (auto simp: good_msg_def)
  have m: "?m (?r + i) = bs ! nat i" if "0 \<le> i" "i < n" for i
    using that len by (simp add: write_msg_def)
  have t: "sint (word_of_int ?t :: byte) = ?t"
    using assms(4) c_mod_100 [of "rtag nd + 1"] by (intro sint_small) linarith+
  have "nat (n - 1) = length bs - 1" using len assms(2) by simp
  with good m [of 0] m [of "n - 1"] assms(2,3) t
  have ends: "wrong_end ?t ?m ?r = 0" "wrong_end ?t ?m (?r + (n - 1)) = 0"
    by (simp_all add: wrong_end_def good_msg_def del: c_mod_nonneg)
  have fail: "failures (CheckBufferData g n ?nd1) = failures nd"
  proof (cases "integrityCheck g = 0")
    case True
    with ends show ?thesis
      by (simp add: CheckBufferData_quick [OF assms(3)] del: c_mod_nonneg)
  next
    case False
    have "sint (?m (?r + i)) = c_mod i 100" if "i \<in> set [1..n - 2]" for i
    proof -
      have "bs ! nat i = word_of_int (c_mod i 100)"
        using good False assms(3) that len by (auto simp: good_msg_def pattern_byte_def)
      with m [of i] that c_mod_100 [of i] show ?thesis by simp
    qed
    then have "wrong_inner n ?m ?r = 0" by (simp add: wrong_inner_def)
    with ends show ?thesis
      by (simp add: CheckBufferData_full [OF assms(3) False] del: c_mod_nonneg)
  qed
  have "node_bufs_ok g n (nbufs (CheckBufferData g n ?nd1))"
    using assms(1) by (simp add: CheckBufferData_def Let_def split: prod.split)
  from node_bufs_ok_recv [OF this assms(2)] fail show ?thesis
    by (auto simp: recv_half_def Let_def frame_simps assms(3))
qed

section \<open>The invariant of a trial\<close>

definition sent_of :: "globals \<Rightarrow> role \<Rightarrow> proc \<Rightarrow> nat" where
  "sent_of g r p = (case r of
     Transmitter \<Rightarrow> if stream g \<noteq> 0 \<or> p_pc p = AtSend then p_j p else p_j p + 1
   | Receiver \<Rightarrow> if stream g \<noteq> 0 then 0 else p_j p)"

definition recvd_of :: "globals \<Rightarrow> role \<Rightarrow> proc \<Rightarrow> nat" where
  "recvd_of g r p = (case r of
     Transmitter \<Rightarrow> if stream g \<noteq> 0 then 0 else p_j p
   | Receiver \<Rightarrow> if stream g \<noteq> 0 \<or> p_pc p = AtRecv then p_j p else p_j p + 1)"

definition proc_ok :: "globals \<Rightarrow> int \<Rightarrow> nat \<Rightarrow> nat \<Rightarrow> role \<Rightarrow> proc \<Rightarrow> bool" where
  "proc_ok g n nrepeat f r p \<longleftrightarrow> node_bufs_ok g n (nbufs (p_node p))
     \<and> 0 \<le> stag (p_node p) \<and> 0 \<le> rtag (p_node p) \<and> rtag (p_node p) < 100
     \<and> failures (p_node p) = f \<and> p_j p \<le> nrepeat
     \<and> (p_pc p \<noteq> start_pc r \<longrightarrow> p_j p < nrepeat \<and> stream g = 0)"

definition chan_ok :: "globals \<Rightarrow> int \<Rightarrow> role \<Rightarrow> role \<Rightarrow> proc \<Rightarrow> proc \<Rightarrow> byte list list \<Rightarrow> bool" where
  "chan_ok g n r r' p q ms \<longleftrightarrow> sent_of g r p = recvd_of g r' q + length ms
     \<and> stag (p_node p) = (rtag (p_node q) + int (length ms)) mod 100
     \<and> (\<forall>k < length ms. good_msg g n ((rtag (p_node q) + 1 + int k) mod 100) (ms ! k))"

definition pp_inv ::
  "('c \<Rightarrow> byte list list) \<Rightarrow> ('c \<Rightarrow> bool) \<Rightarrow> globals \<Rightarrow> int \<Rightarrow> nat \<Rightarrow> (bool \<Rightarrow> nat)
   \<Rightarrow> 'c pair_sys \<Rightarrow> bool" where
  "pp_inv msgs ok g n nrepeat F y \<longleftrightarrow>
     (\<forall>s. proc_ok g n nrepeat (F s) (role_of g s) (procs y s) \<and> ok (chans y s)
        \<and> chan_ok g n (role_of g s) (role_of g (\<not> s)) (procs y s) (procs y (\<not> s))
                  (msgs (chans y s)))"

text \<open>How a trial starts: at the top of both loops, with empty channels and tags in step.\<close>

definition pp_init ::
  "('c \<Rightarrow> byte list list) \<Rightarrow> ('c \<Rightarrow> bool) \<Rightarrow> globals \<Rightarrow> int \<Rightarrow> 'c pair_sys \<Rightarrow> bool" where
  "pp_init msgs ok g n y \<longleftrightarrow>
     (\<forall>s. p_pc (procs y s) = start_pc (role_of g s) \<and> p_j (procs y s) = 0
        \<and> node_bufs_ok g n (nbufs (p_node (procs y s)))
        \<and> stag (p_node (procs y s)) = rtag (p_node (procs y (\<not> s)))
        \<and> 0 \<le> rtag (p_node (procs y s)) \<and> rtag (p_node (procs y s)) < 100
        \<and> ok (chans y s) \<and> msgs (chans y s) = [])"

text \<open>The combinations of options that \<open>main()\<close> lets through to a message-passing trial.\<close>

definition trial_opts :: "globals \<Rightarrow> bool" where
  "trial_opts g \<longleftrightarrow> disk g = 0 \<and> \<not> (stream g \<noteq> 0 \<and> bidir g \<noteq> 0)"

lemma pp_init_inv [inv_intros]:
  "pp_init msgs ok g n y \<Longrightarrow>
     pp_inv msgs ok g n nrepeat (\<lambda>s. failures (p_node (procs y s))) y"
  by (auto simp: pp_init_def pp_inv_def proc_ok_def chan_ok_def sent_of_def recvd_of_def
      start_pc_def split: role.split)

lemma send_counts:
  assumes "p_pc p = AtSend" and "trial_opts g" and "r = role_of g s"
    and "p_pc p \<noteq> start_pc r \<longrightarrow> stream g = 0"
  shows "sent_of g r (after_send_pc g r p) = Suc (sent_of g r p)"
    and "recvd_of g r (after_send_pc g r p) = recvd_of g r p"
  using assms by (auto simp: sent_of_def recvd_of_def after_send_pc_def start_pc_def split: role.split)

lemma recv_counts:
  assumes "p_pc p = AtRecv" and "trial_opts g" and "r = role_of g s"
    and "p_pc p \<noteq> start_pc r \<longrightarrow> stream g = 0"
  shows "recvd_of g r (after_recv_pc g r p) = Suc (recvd_of g r p)"
    and "sent_of g r (after_recv_pc g r p) = sent_of g r p"
  using assms by (auto simp: sent_of_def recvd_of_def after_recv_pc_def start_pc_def split: role.split)

lemma counts_node [simp]:
  "sent_of g r (p\<lparr>p_node := nd\<rparr>) = sent_of g r p"
  "recvd_of g r (p\<lparr>p_node := nd\<rparr>) = recvd_of g r p"
  by (cases r; simp add: sent_of_def recvd_of_def)+

lemma node_after_pc [simp]:
  "p_node (after_send_pc g r p) = p_node p" "p_node (after_recv_pc g r p) = p_node p"
  by (simp_all add: after_send_pc_def after_recv_pc_def split: role.split)

lemma proc_ok_send:
  assumes "proc_ok g n nrepeat f r p" and "p_pc p = AtSend" and "p_j p < nrepeat"
    and "node_bufs_ok g n (nbufs nd)" and "stag nd = c_mod (stag (p_node p) + 1) 100"
    and "rtag nd = rtag (p_node p)" and "failures nd = failures (p_node p)"
  shows "proc_ok g n nrepeat f r (after_send_pc g r (p\<lparr>p_node := nd\<rparr>))"
  using assms by (auto simp: proc_ok_def after_send_pc_def start_pc_def split: role.splits)

lemma proc_ok_recv:
  assumes "proc_ok g n nrepeat f r p" and "p_pc p = AtRecv" and "p_j p < nrepeat"
    and "node_bufs_ok g n (nbufs nd)" and "rtag nd = c_mod (rtag (p_node p) + 1) 100"
    and "stag nd = stag (p_node p)" and "failures nd = failures (p_node p)"
  shows "proc_ok g n nrepeat f r (after_recv_pc g r (p\<lparr>p_node := nd\<rparr>))"
  using assms by (auto simp: proc_ok_def after_recv_pc_def start_pc_def split: role.splits)

lemma chan_ok_send:
  assumes "chan_ok g n r r' p q ms" and "proc_ok g n nrepeat f r p" and "trial_opts g"
    and "r = role_of g s" and "p_pc p = AtSend"
    and "good_msg g n (c_mod (stag (p_node p) + 1) 100) bs"
    and "stag nd = c_mod (stag (p_node p) + 1) 100"
  shows "chan_ok g n r r' (after_send_pc g r (p\<lparr>p_node := nd\<rparr>)) q (ms @ [bs])"
proof -
  have pos: "0 \<le> stag (p_node p)" and str: "p_pc p \<noteq> start_pc r \<longrightarrow> stream g = 0"
    using assms(2) by (simp_all add: proc_ok_def)
  have st: "(stag (p_node p) + 1) mod 100 = (rtag (p_node q) + 1 + int (length ms)) mod 100"
    using assms(1) by (simp add: chan_ok_def) presburger
  have "sent_of g r (after_send_pc g r (p\<lparr>p_node := nd\<rparr>)) = Suc (sent_of g r p)"
    using send_counts(1) [of "p\<lparr>p_node := nd\<rparr>" g r s] assms(3-5) str by simp
  moreover have "good_msg g n ((rtag (p_node q) + 1 + int k) mod 100) ((ms @ [bs]) ! k)"
    if "k < length (ms @ [bs])" for k
  proof (cases "k < length ms")
    case True
    with assms(1) show ?thesis by (simp add: chan_ok_def nth_append)
  next
    case False
    with that have "k = length ms" by simp
    with assms(6) pos st show ?thesis by (simp add: nth_append)
  qed
  moreover have "stag nd = (rtag (p_node q) + int (length (ms @ [bs]))) mod 100"
    using assms(7) pos st by (simp add: add.assoc)
  ultimately show ?thesis using assms(1) by (simp add: chan_ok_def)
qed

lemma mod100_shift: "((x + 1) mod 100 + k) mod (100::int) = (x + (k + 1)) mod 100"
  by (metis add.assoc add.commute mod_add_left_eq)

lemma chan_ok_recv:
  assumes "chan_ok g n r r' p q (bs # ms)" and "proc_ok g n nrepeat f r' q" and "trial_opts g"
    and "r' = role_of g s" and "p_pc q = AtRecv"
    and "rtag nd = c_mod (rtag (p_node q) + 1) 100"
  shows "chan_ok g n r r' p (after_recv_pc g r' (q\<lparr>p_node := nd\<rparr>)) ms"
proof -
  have pos: "0 \<le> rtag (p_node q)" and str: "p_pc q \<noteq> start_pc r' \<longrightarrow> stream g = 0"
    using assms(2) by (simp_all add: proc_ok_def)
  have rtag: "rtag nd = (rtag (p_node q) + 1) mod 100" using assms(6) pos by simp
  have good: "good_msg g n ((rtag nd + 1 + int k) mod 100) (ms ! k)" if "k < length ms" for k
  proof -
    have "\<forall>k < length (bs # ms).
        good_msg g n ((rtag (p_node q) + 1 + int k) mod 100) ((bs # ms) ! k)"
      using assms(1) unfolding chan_ok_def by (elim conjE)
    moreover have "Suc k < length (bs # ms)" using that by simp
    ultimately have "good_msg g n ((rtag (p_node q) + 1 + int (Suc k)) mod 100) ((bs # ms) ! Suc k)"
      by blast
    moreover have "(rtag (p_node q) + 1 + int (Suc k)) mod 100 = (rtag nd + 1 + int k) mod 100"
      using mod100_shift [of "rtag (p_node q)" "1 + int k"] rtag
      by (simp only: of_nat_Suc add.assoc add.commute add.left_commute)
    ultimately show ?thesis by (simp only: nth_Cons_Suc)
  qed
  have "recvd_of g r' (after_recv_pc g r' (q\<lparr>p_node := nd\<rparr>)) = Suc (recvd_of g r' q)"
    using recv_counts(1) [of "q\<lparr>p_node := nd\<rparr>" g r' s] assms(3-5) str by simp
  moreover have "(rtag (p_node q) + int (length (bs # ms))) mod 100
      = (rtag nd + int (length ms)) mod 100"
    using mod100_shift [of "rtag (p_node q)" "int (length ms)"] rtag
    by (simp only: of_nat_Suc list.size of_nat_add of_nat_1 of_nat_0 add_0 Suc_eq_plus1
        add.assoc add.commute add.left_commute add_0_right)
  ultimately show ?thesis using assms(1) good by (simp add: chan_ok_def)
qed

text \<open>The half a process has just run does not change the counts of its other channel.\<close>

lemma chan_ok_other:
  assumes "chan_ok g n r r' p q ms" and "recvd_of g r' q' = recvd_of g r' q"
    and "rtag (p_node q') = rtag (p_node q)"
  shows "chan_ok g n r r' p q' ms"
  using assms by (simp add: chan_ok_def)

lemma chan_ok_other_sender:
  assumes "chan_ok g n r r' p q ms" and "sent_of g r p' = sent_of g r p"
    and "stag (p_node p') = stag (p_node p)"
  shows "chan_ok g n r r' p' q ms"
  using assms by (simp add: chan_ok_def)

lemma pp_inv_upd:
  assumes "proc_ok g n nrepeat (F s) (role_of g s) p'"
    and "proc_ok g n nrepeat (F (\<not> s)) (role_of g (\<not> s)) (procs y (\<not> s))"
    and "ok (ch s)" and "ok (ch (\<not> s))"
    and "chan_ok g n (role_of g s) (role_of g (\<not> s)) p' (procs y (\<not> s)) (msgs (ch s))"
    and "chan_ok g n (role_of g (\<not> s)) (role_of g s) (procs y (\<not> s)) p' (msgs (ch (\<not> s)))"
  shows "pp_inv msgs ok g n nrepeat F (y\<lparr>procs := (procs y)(s := p'), chans := ch\<rparr>)"
  unfolding pp_inv_def
proof
  fix t :: bool
  let ?z = "y\<lparr>procs := (procs y)(s := p'), chans := ch\<rparr>"
  show "proc_ok g n nrepeat (F t) (role_of g t) (procs ?z t) \<and> ok (chans ?z t)
    \<and> chan_ok g n (role_of g t) (role_of g (\<not> t)) (procs ?z t) (procs ?z (\<not> t)) (msgs (chans ?z t))"
    using assms by (cases "t = s") auto
qed

lemma pp_invD:
  assumes "pp_inv msgs ok g n nrepeat F y"
  shows "proc_ok g n nrepeat (F s) (role_of g s) (procs y s)"
    and "ok (chans y s)"
    and "chan_ok g n (role_of g s) (role_of g (\<not> s)) (procs y s) (procs y (\<not> s)) (msgs (chans y s))"
    and "chan_ok g n (role_of g (\<not> s)) (role_of g s) (procs y (\<not> s)) (procs y s)
           (msgs (chans y (\<not> s)))"
  using assms [unfolded pp_inv_def, rule_format, of s]
    assms [unfolded pp_inv_def, rule_format, of "\<not> s"] by simp_all

lemma chan_ok_head:
  assumes "chan_ok g n r r' p q (bs # ms)" and "0 \<le> rtag (p_node q)"
  shows "good_msg g n (c_mod (rtag (p_node q) + 1) 100) bs"
proof -
  have "\<forall>k < length (bs # ms).
      good_msg g n ((rtag (p_node q) + 1 + int k) mod 100) ((bs # ms) ! k)"
    using assms(1) unfolding chan_ok_def by (elim conjE)
  from this [rule_format, of 0] assms(2) show ?thesis by simp
qed

definition halves :: "globals \<Rightarrow> 'c pair_sys \<Rightarrow> nat" where
  "halves g y = sent_of g (role_of g True) (procs y True) + recvd_of g (role_of g True) (procs y True)
     + sent_of g (role_of g False) (procs y False) + recvd_of g (role_of g False) (procs y False)"

lemma counts_bound:
  "proc_ok g n nrepeat f r p \<Longrightarrow> sent_of g r p \<le> nrepeat \<and> recvd_of g r p \<le> nrepeat"
  by (auto simp: proc_ok_def sent_of_def recvd_of_def start_pc_def split: role.splits pc.splits)

lemma proc_ok_failures: "proc_ok g n nrepeat f r p \<Longrightarrow> failures (p_node p) = f"
  by (simp add: proc_ok_def)

lemma halves_bound:
  assumes "\<And>s. proc_ok g n nrepeat (F s) (role_of g s) (procs y s)"
  shows "halves g y \<le> 4 * nrepeat"
  using counts_bound [OF assms, of True] counts_bound [OF assms, of False]
  by (simp add: halves_def)

section \<open>The invariant in every reachable state, for any module\<close>

context transport
begin

lemma pp_inv_send:
  assumes inv: "pp_inv msgs ok g N nrepeat F y" and N: "N = int n" "0 < n" and opts: "trial_opts g"
    and pc: "p_pc (procs y s) = AtSend" and j: "p_j (procs y s) < nrepeat"
    and snd: "send_half g N (p_node (procs y s)) = Inr (bs, nd)"
  shows "pp_inv msgs ok g N nrepeat F
    (y\<lparr>procs := (procs y)(s := after_send_pc g (role_of g s) (procs y s\<lparr>p_node := nd\<rparr>)),
       chans := (chans y)(s := tsend bs (chans y s))\<rparr>)"
proof -
  let ?p = "procs y s"
  note D = pp_invD [OF inv, of s]
  have str: "p_pc ?p \<noteq> start_pc (role_of g s) \<longrightarrow> stream g = 0"
    using D(1) by (simp add: proc_ok_def)
  have nd: "node_bufs_ok g N (nbufs nd)" "good_msg g N (c_mod (stag (p_node ?p) + 1) 100) bs"
      "stag nd = c_mod (stag (p_node ?p) + 1) 100" "rtag nd = rtag (p_node ?p)"
      "failures nd = failures (p_node ?p)"
    using send_half_props [of g N "p_node ?p"] D(1) snd N opts
    by (auto simp: proc_ok_def trial_opts_def)
  have len: "length bs = n" using nd(2) N by (simp add: good_msg_def)
  show ?thesis
  proof (rule pp_inv_upd)
    show "chan_ok g N (role_of g s) (role_of g (\<not> s))
        (after_send_pc g (role_of g s) (?p\<lparr>p_node := nd\<rparr>)) (procs y (\<not> s))
        (msgs (((chans y)(s := tsend bs (chans y s))) s))"
      using chan_ok_send [OF D(3,1) opts refl pc nd(2,3)] msgs_send [OF D(2) len] by simp
    have "chan_ok g N (role_of g (\<not> s)) (role_of g s) (procs y (\<not> s))
        (after_send_pc g (role_of g s) (?p\<lparr>p_node := nd\<rparr>)) (msgs (chans y (\<not> s)))"
      using nd(4) send_counts(2) [of "?p\<lparr>p_node := nd\<rparr>" g "role_of g s" s] pc opts str
      by (intro chan_ok_other [OF D(4)]) simp_all
    then show "chan_ok g N (role_of g (\<not> s)) (role_of g s) (procs y (\<not> s))
        (after_send_pc g (role_of g s) (?p\<lparr>p_node := nd\<rparr>))
        (msgs (((chans y)(s := tsend bs (chans y s))) (\<not> s)))" by simp
  qed (use proc_ok_send [OF D(1) pc j nd(1,3,4,5)] pp_invD [OF inv, of "\<not> s"]
        send_ok [OF D(2) len] in simp_all)
qed

lemma pp_inv_recv:
  assumes inv: "pp_inv msgs ok g N nrepeat F y" and N: "N = int n" "0 < n" and opts: "trial_opts g"
    and pc: "p_pc (procs y s) = AtRecv" and j: "p_j (procs y s) < nrepeat"
    and tr: "trecv (nat N) (chans y (\<not> s)) = Some (bs, c)"
    and rcv: "recv_half g N bs (p_node (procs y s)) = Inr nd"
  shows "pp_inv msgs ok g N nrepeat F
    (y\<lparr>procs := (procs y)(s := after_recv_pc g (role_of g s) (procs y s\<lparr>p_node := nd\<rparr>)),
       chans := (chans y)(\<not> s := c)\<rparr>)"
proof -
  let ?p = "procs y s"
  note D = pp_invD [OF inv, of s] and D' = pp_invD [OF inv, of "\<not> s"]
  have str: "p_pc ?p \<noteq> start_pc (role_of g s) \<longrightarrow> stream g = 0" and rt: "0 \<le> rtag (p_node ?p)"
    using D(1) by (simp_all add: proc_ok_def)
  have m: "msgs (chans y (\<not> s)) = bs # msgs c" "ok c"
    using recv_Some [OF D'(2)] tr N by simp_all
  note inn = D(4) [unfolded m(1)]
  have nd: "node_bufs_ok g N (nbufs nd)" "rtag nd = c_mod (rtag (p_node ?p) + 1) 100"
      "stag nd = stag (p_node ?p)" "failures nd = failures (p_node ?p)"
    using recv_half_props [of g N "p_node ?p" bs] D(1) rcv N opts chan_ok_head [OF inn rt] rt
    by (auto simp: proc_ok_def trial_opts_def)
  show ?thesis
  proof (rule pp_inv_upd)
    show "chan_ok g N (role_of g (\<not> s)) (role_of g s) (procs y (\<not> s))
        (after_recv_pc g (role_of g s) (?p\<lparr>p_node := nd\<rparr>))
        (msgs (((chans y)(\<not> s := c)) (\<not> s)))"
      using chan_ok_recv [OF inn D(1) opts refl pc nd(2)] by simp
    have "chan_ok g N (role_of g s) (role_of g (\<not> s))
        (after_recv_pc g (role_of g s) (?p\<lparr>p_node := nd\<rparr>)) (procs y (\<not> s)) (msgs (chans y s))"
      using nd(3) recv_counts(2) [of "?p\<lparr>p_node := nd\<rparr>" g "role_of g s" s] pc opts str
      by (intro chan_ok_other_sender [OF D(3)]) simp_all
    then show "chan_ok g N (role_of g s) (role_of g (\<not> s))
        (after_recv_pc g (role_of g s) (?p\<lparr>p_node := nd\<rparr>)) (procs y (\<not> s))
        (msgs (((chans y)(\<not> s := c)) s))" by simp
  qed (use proc_ok_recv [OF D(1) pc j nd(1,2,3,4)] D'(1) D(2) m(2) in simp_all)
qed

lemma pp_step_inv:
  assumes "pp_step tsend trecv g N nrepeat y z" and "pp_inv msgs ok g N nrepeat F y"
    and "N = int n" and "0 < n" and "trial_opts g"
  shows "pp_inv msgs ok g N nrepeat F z"
  using assms(1)
proof cases
  case (pp_send p s bs nd)
  with pp_inv_send [OF assms(2-5)] show ?thesis by simp
next
  case (pp_recv p s bs c nd)
  with pp_inv_recv [OF assms(2-5)] show ?thesis by simp
qed

lemma pp_reach_inv:
  assumes "pp_reach tsend trecv g N nrepeat y0 k y" and "pp_init msgs ok g N y0"
    and "N = int n" and "0 < n" and "trial_opts g"
  shows "pp_inv msgs ok g N nrepeat (\<lambda>s. failures (p_node (procs y0 s))) y"
  using assms(1)
proof induction
  case pp_start
  show ?case using assms(2) by (rule pp_init_inv)
next
  case (pp_more k y z)
  then show ?case using pp_step_inv assms(3-5) by blast
qed

text \<open>A process that can run the next half of its body does so: it is never refused.\<close>

lemma can_send:
  assumes inv: "pp_inv msgs ok g N nrepeat F y" and "N = int n" and "0 < n" and "trial_opts g"
    and "p_pc (procs y s) = AtSend" and "p_j (procs y s) < nrepeat"
  shows "\<exists>z. pp_step tsend trecv g N nrepeat y z"
proof -
  have p: "node_bufs_ok g N (nbufs (p_node (procs y s)))"
    using pp_invD(1) [OF inv, of s] by (simp add: proc_ok_def)
  have "0 < N" "disk g = 0" using assms(2-4) by (simp_all add: trial_opts_def)
  from send_half_props [OF p this] obtain bs nd
    where "send_half g N (p_node (procs y s)) = Inr (bs, nd)" by blast
  with pp_step.pp_send [OF refl assms(5,6)] show ?thesis by blast
qed

lemma can_recv:
  assumes inv: "pp_inv msgs ok g N nrepeat F y" and N: "N = int n" "0 < n" and "trial_opts g"
    and "p_pc (procs y s) = AtRecv" and "p_j (procs y s) < nrepeat"
    and "msgs (chans y (\<not> s)) \<noteq> []"
  shows "\<exists>z. pp_step tsend trecv g N nrepeat y z"
proof -
  from assms(7) obtain bs ms where m: "msgs (chans y (\<not> s)) = bs # ms"
    by (cases "msgs (chans y (\<not> s))") auto
  from recv_ready [OF pp_invD(2) [OF inv] m] obtain c
    where c: "trecv n (chans y (\<not> s)) = Some (bs, c)" by blast
  have p: "node_bufs_ok g N (nbufs (p_node (procs y s)))" "0 \<le> rtag (p_node (procs y s))"
    using pp_invD(1) [OF inv, of s] by (simp_all add: proc_ok_def)
  have "good_msg g N (c_mod (rtag (p_node (procs y s)) + 1) 100) bs"
    by (rule chan_ok_head [OF pp_invD(4) [OF inv, of s, unfolded m] p(2)])
  then have good: "good_msg g N (c_mod (rtag (p_node (procs y s)) + 1) 100) bs" .
  have "0 < N" "disk g = 0" using N assms(4) by (simp_all add: trial_opts_def)
  from recv_half_props [OF p(1) this p(2) good] obtain nd
    where nd: "recv_half g N bs (p_node (procs y s)) = Inr nd" by blast
  have "trecv (nat N) (chans y (\<not> s)) = Some (bs, c)" using c N(1) by simp
  from pp_step.pp_recv [where trecv = trecv and tsend = tsend and s = s and y = y and n = N,
      OF refl assms(5,6) this nd]
  show ?thesis by (rule exI)
qed

lemma pp_progress:
  assumes inv: "pp_inv msgs ok g N nrepeat F y" and N: "N = int n" "0 < n" and opts: "trial_opts g"
    and "\<not> pp_final nrepeat y"
  shows "\<exists>z. pp_step tsend trecv g N nrepeat y z"
proof (rule ccontr)
  assume stuck: "\<nexists>z. pp_step tsend trecv g N nrepeat y z"
  have at_recv: "p_pc (procs y s) = AtRecv" if "p_j (procs y s) < nrepeat" for s
    using can_send [OF inv N opts _ that] stuck by (cases "p_pc (procs y s)") auto
  have empty: "msgs (chans y (\<not> s)) = []" if "p_j (procs y s) < nrepeat" for s
    using can_recv [OF inv N opts at_recv [OF that] that] stuck by blast
  obtain s where s: "p_j (procs y s) < nrepeat"
    using assms(5) pp_invD(1) [OF inv] by (auto simp: pp_final_def proc_ok_def le_less)
  have roles: "role_of g s = Transmitter \<or> role_of g (\<not> s) = Transmitter"
    by (simp add: role_of_def)
  note P = pp_invD(1) [OF inv, of s] and Q = pp_invD(1) [OF inv, of "\<not> s"]
  have inn: "sent_of g (role_of g (\<not> s)) (procs y (\<not> s)) = recvd_of g (role_of g s) (procs y s)"
    using pp_invD(4) [OF inv, of s] empty [OF s] by (simp add: chan_ok_def)
  show False
  proof (cases "p_j (procs y (\<not> s)) < nrepeat")
    case True
    have "sent_of g (role_of g s) (procs y s) = recvd_of g (role_of g (\<not> s)) (procs y (\<not> s))"
      using pp_invD(3) [OF inv, of s] empty [OF True] by (simp add: chan_ok_def)
    with inn at_recv [OF s] at_recv [OF True] roles P Q show False
      by (auto simp: sent_of_def recvd_of_def proc_ok_def start_pc_def split: role.splits)
  next
    case False
    then have "p_j (procs y (\<not> s)) = nrepeat"
        "p_pc (procs y (\<not> s)) = start_pc (role_of g (\<not> s))"
      using Q by (auto simp: proc_ok_def)
    with inn at_recv [OF s] s roles P show False
      by (auto simp: sent_of_def recvd_of_def proc_ok_def start_pc_def split: role.splits if_splits)
  qed
qed

text \<open>The halves that have been run: one more with every step.\<close>

lemma pp_step_count:
  assumes "pp_step tsend trecv g N nrepeat y z" and "pp_inv msgs ok g N nrepeat F y"
    and "trial_opts g"
  shows "halves g z = Suc (halves g y)"
  using assms(1)
proof cases
  case (pp_send p s bs nd)
  have "p_pc p \<noteq> start_pc (role_of g s) \<longrightarrow> stream g = 0"
    using pp_invD(1) [OF assms(2), of s] pp_send(2) by (simp add: proc_ok_def)
  with send_counts [of "p\<lparr>p_node := nd\<rparr>" g "role_of g s" s] pp_send assms(3)
  show ?thesis by (cases s) (simp_all add: halves_def)
next
  case (pp_recv p s bs c nd)
  have "p_pc p \<noteq> start_pc (role_of g s) \<longrightarrow> stream g = 0"
    using pp_invD(1) [OF assms(2), of s] pp_recv(2) by (simp add: proc_ok_def)
  with recv_counts [of "p\<lparr>p_node := nd\<rparr>" g "role_of g s" s] pp_recv assms(3)
  show ?thesis by (cases s) (simp_all add: halves_def)
qed

lemma pp_reach_count:
  assumes "pp_reach tsend trecv g N nrepeat y0 k y" and "pp_init msgs ok g N y0"
    and "N = int n" and "0 < n" and "trial_opts g"
  shows "halves g y = k"
  using assms(1)
proof induction
  case pp_start
  show ?case using assms(2)
    by (simp add: pp_init_def halves_def sent_of_def recvd_of_def start_pc_def split: role.split)
next
  case (pp_more k y z)
  with pp_step_count [OF pp_more.hyps(2) pp_reach_inv [OF pp_more.hyps(1) assms(2-5)] assms(5)]
  show ?case by simp
qed

text \<open>The summary that the modules instantiate.\<close>

lemma trial_correct:
  assumes "pp_reach tsend trecv g N nrepeat y0 k y" and "pp_init msgs ok g N y0"
    and "N = int n" and "0 < n" and "trial_opts g"
  shows "(\<forall>s. failures (p_node (procs y s)) = failures (p_node (procs y0 s)))
    \<and> k \<le> 4 * nrepeat
    \<and> (pp_final nrepeat y \<or> (\<exists>z. pp_step tsend trecv g N nrepeat y z))"
proof -
  note inv = pp_reach_inv [OF assms]
  have "halves g y \<le> 4 * nrepeat"
    by (rule halves_bound [where F = "\<lambda>s. failures (p_node (procs y0 s))",
          OF pp_invD(1) [OF inv]])
  then show ?thesis
    using pp_progress [OF inv assms(3-5)] proc_ok_failures [OF pp_invD(1) [OF inv]]
      pp_reach_count [OF assms] by blast
qed

end

end
