(* ===== verification/Tcp.thy ===== *)
theory Tcp
  imports PingPong
begin

text \<open>
  The TCP module, \<open>src/tcp.c\<close>.  The operating system is the environment: what a \<open>read\<close> or
  \<open>write\<close> on the socket transfers is a list of responses, one for each call that the code
  makes, what \<open>connect\<close> answers is a list of attempts, and a socket is a byte stream that
  delivers the bytes in order.  A loop that has used up its responses is still running and
  its value is \<open>None\<close>.  The last section interprets the interface \<open>transport\<close>.
\<close>

section \<open>Module state and arguments\<close>

record tcp =
  reset_conn :: int
  port :: int
  tcpbuffersize :: int

definition DEFPORT :: int where "DEFPORT = 5002"

definition init_tcp :: tcp where
  "init_tcp = \<lparr>reset_conn = 0, port = DEFPORT, tcpbuffersize = 0\<rparr>"

text \<open>\<open>atoi( opt )\<close> with no option value reads through a null pointer.\<close>

definition atoi_opt :: "string option \<Rightarrow> (int \<Rightarrow> 'a outcome) \<Rightarrow> 'a outcome" where
  "atoi_opt s k = (case s of None \<Rightarrow> Inl NullDeref | Some x \<Rightarrow> k (atoi x))"

lemma atoi_opt_simps [simp]:
  "atoi_opt None k = Inl NullDeref" "atoi_opt (Some x) k = k (atoi x)"
  by (simp_all add: atoi_opt_def)

definition tcp_ArgOpt :: "string \<Rightarrow> string option \<Rightarrow> tcp \<Rightarrow> tcp outcome" where
  "tcp_ArgOpt arg opt t =
     (if arg = ''reset'' then Inr (t\<lparr>reset_conn := 1\<rparr>)
      else if arg = ''buffersize'' then atoi_opt opt (\<lambda>v. Inr (t\<lparr>tcpbuffersize := v\<rparr>))
      else Inl Usage)"

section \<open>Reading and writing\<close>

text \<open>
  The answer to one \<open>read\<close> or \<open>write\<close>: that many bytes (0 for a \<open>read\<close> at the end of the
  stream), \<open>EWOULDBLOCK\<close>, or another error.  The kernel never transfers more than it was
  asked for, nor reads more than the stream holds.
\<close>

datatype io = Xfer nat | WouldBlock | IoError

fun xfer :: "io \<Rightarrow> nat" where
  "xfer (Xfer k) = k"
| "xfer _ = 0"

text \<open>\<open>writeFully\<close>: the bytes left to write, and those put on the stream so far.\<close>

fun writeFully :: "io list \<Rightarrow> byte list \<Rightarrow> byte list \<Rightarrow> byte list outcome option" where
  "writeFully [] bs out = (if bs = [] then Some (Inr out) else None)"
| "writeFully (r # rs) bs out =
     (if bs = [] then Some (Inr out)
      else if r = IoError then Some (Inl (ErrCheck ''write''))
      else writeFully rs (drop (xfer r) bs) (out @ take (xfer r) bs))"

text \<open>
  \<open>readFully\<close>: \<open>nbytes\<close> left to read, the stream, and the bytes stored at \<open>ptr\<close> so far; the
  result is those bytes and the rest of the stream.
\<close>

fun readFully ::
  "io list \<Rightarrow> nat \<Rightarrow> byte list \<Rightarrow> byte list \<Rightarrow> (byte list \<times> byte list) outcome option" where
  "readFully [] nbytes strm got = (if nbytes = 0 then Some (Inr (got, strm)) else None)"
| "readFully (r # rs) nbytes strm got =
     (if nbytes = 0 then Some (Inr (got, strm))
      else if r = IoError then Some (Inl (ErrCheck ''read''))
      else let k = min (xfer r) (min nbytes (length strm))
           in readFully rs (nbytes - k) (drop k strm) (got @ take k strm))"

text \<open>
  \<open>readOnce\<close> and \<open>Module_TestForCompletion\<close>, used while the CPU workload runs: one \<open>read\<close>
  of the \<open>bytesLeft\<close> bytes of the message at the advancing \<open>r_ptr\<close>.
\<close>

record rd_state =
  bytesLeft :: nat
  rd_ptr :: ptr
  rd_mem :: memory
  rd_stream :: "byte list"

definition readOnce :: "io \<Rightarrow> rd_state \<Rightarrow> rd_state outcome" where
  "readOnce r s =
     (if r = IoError then Inl (ErrCheck ''read'')
      else let k = min (xfer r) (min (bytesLeft s) (length (rd_stream s)))
           in Inr (s\<lparr>bytesLeft := bytesLeft s - k, rd_ptr := rd_ptr s + int k,
                     rd_mem := write_msg (rd_ptr s) (take k (rd_stream s)) (rd_mem s),
                     rd_stream := drop k (rd_stream s)\<rparr>))"

definition tcp_TestForCompletion :: "io \<Rightarrow> rd_state \<Rightarrow> (bool \<times> rd_state) outcome" where
  "tcp_TestForCompletion r s = obind (readOnce r s) (\<lambda>s'. Inr (bytesLeft s' = 0, s'))"

text \<open>
  The idle loop of \<open>DoWork\<close> as the receive of a workload test: \<open>bytesLeft = buflen\<close>, test
  until complete, put \<open>r_ptr\<close> back.
\<close>

fun test_until :: "io list \<Rightarrow> rd_state \<Rightarrow> rd_state outcome option" where
  "test_until [] s = None"
| "test_until (r # rs) s =
     (case tcp_TestForCompletion r s of
        Inl e \<Rightarrow> Some (Inl e)
      | Inr (done, s') \<Rightarrow> if done then Some (Inr s') else test_until rs s')"

definition workload_recv :: "io list \<Rightarrow> nat \<Rightarrow> rd_state \<Rightarrow> rd_state outcome option" where
  "workload_recv rs buflen s =
     map_option (map_sum id (\<lambda>s'. s'\<lparr>rd_ptr := rd_ptr s\<rparr>)) (test_until rs (s\<lparr>bytesLeft := buflen\<rparr>))"

text \<open>A list of responses that moves \<open>n\<close> bytes in the end.\<close>

definition delivers :: "nat \<Rightarrow> io list \<Rightarrow> bool" where
  "delivers n rs \<longleftrightarrow> IoError \<notin> set rs \<and> n \<le> sum_list (map xfer rs)"

lemma delivers_Cons: "delivers n (r # rs) \<Longrightarrow> r \<noteq> IoError \<and> delivers (n - xfer r) rs"
  by (auto simp: delivers_def)

lemma delivers_mono: "delivers n rs \<Longrightarrow> m \<le> n \<Longrightarrow> delivers m rs"
  by (auto simp: delivers_def)

lemma writeFully_out:
  "writeFully rs bs out = Some (Inr res) \<Longrightarrow> res = out @ bs"
  by (induction rs bs out rule: writeFully.induct) (auto split: if_splits)

lemma writeFully_delivers:
  "delivers (length bs) rs \<Longrightarrow> writeFully rs bs out = Some (Inr (out @ bs))"
proof (induction rs bs out rule: writeFully.induct)
  case (2 r rs bs out)
  have "delivers (length (drop (xfer r) bs)) rs" using delivers_Cons [OF 2(2)] by simp
  with 2 delivers_Cons [OF 2(2)] show ?case by auto
qed (simp add: delivers_def)

lemma readFully_split:
  "readFully rs n strm got = Some (Inr (res, rest)) \<Longrightarrow>
     n \<le> length strm \<and> res = got @ take n strm \<and> rest = drop n strm"
proof (induction rs n strm got rule: readFully.induct)
  case (2 r rs n strm got)
  show ?case
  proof (cases "n = 0")
    case False
    let ?k = "min (xfer r) (min n (length strm))"
    have "r \<noteq> IoError" using 2(2) False by auto
    with 2 False have IH: "n - ?k \<le> length (drop ?k strm)"
        "res = (got @ take ?k strm) @ take (n - ?k) (drop ?k strm)"
        "rest = drop (n - ?k) (drop ?k strm)"
      by (auto simp: Let_def)
    have "?k + (n - ?k) = n" "?k \<le> length strm" by auto
    with IH take_add [of ?k "n - ?k" strm] show ?thesis by auto
  qed (use 2(2) in auto)
qed (auto split: if_splits)

lemma readFully_delivers:
  "delivers n rs \<Longrightarrow> n \<le> length strm \<Longrightarrow>
     readFully rs n strm got = Some (Inr (got @ take n strm, drop n strm))"
proof (induction rs n strm got rule: readFully.induct)
  case (2 r rs n strm got)
  show ?case
  proof (cases "n = 0")
    case False
    obtain k where k: "k = min (xfer r) (min n (length strm))" by simp
    have "delivers (n - k) rs" "r \<noteq> IoError"
      using delivers_Cons [OF 2(2)] delivers_mono [of "n - xfer r" rs "n - k"] 2(3) k by auto
    moreover have "k + (n - k) = n" "n - k \<le> length (drop k strm)" using k 2(3) by auto
    ultimately show ?thesis
      using 2(1) [OF False _ k] False take_add [of k "n - k" strm]
      by (simp add: k [symmetric] Let_def add.commute)
  qed simp
qed (simp add: delivers_def)

text \<open>
  Whatever way the kernel cuts a message into partial writes and partial reads, the bytes
  arrive complete and in order: a \<open>writeFully\<close> whose writes move the whole message returns and
  has appended exactly the message to the stream, and a \<open>readFully\<close> of its length whose reads
  move that many bytes returns with exactly the message and leaves what follows it.
\<close>

theorem tcp_stream_roundtrip:
  assumes "delivers (length m) ws" and "delivers (length m) rs"
  shows "writeFully ws m before = Some (Inr (before @ m))
    \<and> readFully rs (length m) (m @ later) [] = Some (Inr (m, later))"
  using writeFully_delivers [OF assms(1)] readFully_delivers [OF assms(2), of "m @ later"] by simp

theorem tcp_stream_roundtrip_witness:
  "writeFully [Xfer 1, WouldBlock, Xfer 2] [1, 2, 3] [9] = Some (Inr [9, 1, 2, 3])
   \<and> readFully [Xfer 2, Xfer 0, Xfer 5] 3 [1, 2, 3, 4] [] = Some (Inr ([1, 2, 3], [4]))"
  using tcp_stream_roundtrip [of "[1, 2, 3]" "[Xfer 1, WouldBlock, Xfer 2]"
    "[Xfer 2, Xfer 0, Xfer 5]" "[9]" "[4]"]
  by (simp add: delivers_def)

text \<open>
  A closed connection is not noticed: when the peer has closed its socket every \<open>read\<close>
  returns 0, and \<open>readFully\<close> asks again, for ever.
\<close>

theorem readFully_spins_at_eof:
  assumes "0 < nbytes"
  shows "readFully (replicate k (Xfer 0)) nbytes strm got = None"
  using assms by (induction k) simp_all

theorem readFully_spins_at_eof_witness:
  "readFully (replicate 1000 (Xfer 0)) 6 [] [] = None"
  by (rule readFully_spins_at_eof) simp

section \<open>The receive of a workload test\<close>

lemma write_msg_append:
  "write_msg (p + int (length a)) b (write_msg p a m) = write_msg p (a @ b) m"
  by (rule ext) (auto simp: write_msg_def nth_append nat_diff_distrib nat_add_distrib
      algebra_simps nat_less_iff intro!: arg_cong [where f = "(!) b"])

lemma write_msg_Nil [simp]: "write_msg p [] m = m"
  by (rule ext) (auto simp: write_msg_def)

lemma test_until_delivers:
  assumes "0 < bytesLeft s" and "delivers (bytesLeft s) rs"
    and "bytesLeft s \<le> length (rd_stream s)"
  shows "test_until rs s = Some (Inr (s\<lparr>bytesLeft := 0, rd_ptr := rd_ptr s + int (bytesLeft s),
      rd_mem := write_msg (rd_ptr s) (take (bytesLeft s) (rd_stream s)) (rd_mem s),
      rd_stream := drop (bytesLeft s) (rd_stream s)\<rparr>))"
  using assms
proof (induction rs arbitrary: s)
  case Nil
  then show ?case by (simp add: delivers_def)
next
  case (Cons r rs)
  obtain n where n: "n = bytesLeft s" by simp
  obtain k where k: "k = min (xfer r) (min n (length (rd_stream s)))" by simp
  let ?s' = "s\<lparr>bytesLeft := n - k, rd_ptr := rd_ptr s + int k,
      rd_mem := write_msg (rd_ptr s) (take k (rd_stream s)) (rd_mem s),
      rd_stream := drop k (rd_stream s)\<rparr>"
  have r: "r \<noteq> IoError" and d: "delivers (n - k) rs"
    using delivers_Cons [OF Cons.prems(2)] delivers_mono [of "n - xfer r" rs "n - k"]
      Cons.prems(3) k n by auto
  have step: "tcp_TestForCompletion r s = Inr (n - k = 0, ?s')"
    using r by (simp add: tcp_TestForCompletion_def readOnce_def Let_def n [symmetric] k [symmetric])
  have kn: "k \<le> n" "k \<le> length (rd_stream s)" using k by auto
  show ?case
  proof (cases "n - k = 0")
    case True
    with step kn n show ?thesis by simp
  next
    case False
    have "test_until rs ?s' = Some (Inr (?s'\<lparr>bytesLeft := 0,
        rd_ptr := rd_ptr ?s' + int (bytesLeft ?s'),
        rd_mem := write_msg (rd_ptr ?s') (take (bytesLeft ?s') (rd_stream ?s')) (rd_mem ?s'),
        rd_stream := drop (bytesLeft ?s') (rd_stream ?s')\<rparr>))"
      by (rule Cons.IH) (use False d Cons.prems(3) kn n in simp_all)
    moreover have "length (take k (rd_stream s)) = k" using kn by simp
    with write_msg_append [of "rd_ptr s" "take k (rd_stream s)"]
      take_add [of k "n - k" "rd_stream s"] kn
    have "write_msg (rd_ptr s + int k) (take (n - k) (drop k (rd_stream s)))
        (write_msg (rd_ptr s) (take k (rd_stream s)) (rd_mem s))
      = write_msg (rd_ptr s) (take n (rd_stream s)) (rd_mem s)"
      by simp
    ultimately show ?thesis using step False kn by (simp add: n [symmetric])
  qed
qed

text \<open>
  A workload test receives through the idle loop of \<open>DoWork\<close> what a blocking receive would:
  when the reads move the whole message, the loop ends, the message is stored at \<open>r_ptr\<close>, the
  stream is left after it, and \<open>r_ptr\<close>, which the reads advanced, is back at the message.
\<close>

theorem workload_recv_like_readFully:
  assumes "0 < n" and "delivers n rs" and "n \<le> length (rd_stream s)"
  shows "\<exists>got rest. readFully rs n (rd_stream s) [] = Some (Inr (got, rest))
    \<and> workload_recv rs n s = Some (Inr (s\<lparr>bytesLeft := 0, rd_stream := rest,
          rd_mem := write_msg (rd_ptr s) got (rd_mem s)\<rparr>))"
  using test_until_delivers [of "s\<lparr>bytesLeft := n\<rparr>" rs] readFully_delivers [OF assms(2,3), of "[]"]
    assms by (simp add: workload_recv_def)

theorem workload_recv_like_readFully_witness:
  "workload_recv [Xfer 1, WouldBlock, Xfer 7] 2
       \<lparr>bytesLeft = 0, rd_ptr = 64, rd_mem = (\<lambda>_. 0), rd_stream = [5, 6, 7]\<rparr>
     = Some (Inr \<lparr>bytesLeft = 0, rd_ptr = 64, rd_mem = write_msg 64 [5, 6] (\<lambda>_. 0),
          rd_stream = [7]\<rparr>)"
  using workload_recv_like_readFully [of 2 "[Xfer 1, WouldBlock, Xfer 7]"
    "\<lparr>bytesLeft = 0, rd_ptr = 64, rd_mem = (\<lambda>_. 0), rd_stream = [5, 6, 7]\<rparr>"]
  by (auto simp: delivers_def)

section \<open>Setting up the connections\<close>

text \<open>
  What the system calls of one socket answer: the descriptor (\<open>socket\<close> or \<open>accept\<close>), whether
  the protocol \<open>tcp\<close> is known, and the return values of \<open>setsockopt\<close> for the four options.
\<close>

record sock_env =
  se_sd :: int
  se_proto :: bool
  se_nodelay :: int
  se_reuse :: int
  se_sndbuf :: int
  se_rcvbuf :: int

definition np_create_socket :: "tcp \<Rightarrow> sock_env \<Rightarrow> int outcome" where
  "np_create_socket t e =
     errcheck (se_sd e < 0) ''can't open the stream socket!''
    (errcheck (\<not> se_proto e) ''protocol tcp unknown!''
    (errcheck (se_nodelay e < 0) ''setsockopt: TCP_NODELAY failed!''
    (errcheck (se_reuse e < 0) ''setsockopt: SO_REUSEADDR failed!''
     (if tcpbuffersize t > 0 then
        errcheck (se_sndbuf e < 0) ''setsockopt: SO_SNDBUF failed''
       (errcheck (se_rcvbuf e < 0) ''setsockopt: SO_RCVBUF failed''
        (Inr (se_sd e)))
      else Inr (se_sd e)))))"

text \<open>One answer of \<open>connect\<close>: success, or not (refused or otherwise) after so many seconds.\<close>

datatype attempt = Connected | Refused real | Failed real

fun connect_loop :: "tcp \<Rightarrow> attempt list \<Rightarrow> unit outcome option" where
  "connect_loop t [] = None"
| "connect_loop t (Connected # as) = Some (Inr ())"
| "connect_loop t (Refused s # as) =
     (if reset_conn t = 0 \<and> s > 20 then Some (Inl (ErrCheck ''Cannot connect for 20 seconds!''))
      else connect_loop t as)"
| "connect_loop t (Failed s # as) =
     (if s > 20 then Some (Inl (ErrCheck ''Cannot connect for 20 seconds!''))
      else connect_loop t as)"

definition sync_word :: "byte list" where
  "sync_word = map of_char ''SyncMe''"

text \<open>The six bytes the connecting side reads must be the word that the accepting side writes.\<close>

definition np_connect_to ::
  "tcp \<Rightarrow> bool \<Rightarrow> sock_env \<Rightarrow> attempt list \<Rightarrow> io list \<Rightarrow> byte list
   \<Rightarrow> (int \<times> byte list) outcome option" where
  "np_connect_to t known e as rs strm =
     (if \<not> known then Some (Inl (ErrCheck ''invalid remote hostname''))
      else case np_create_socket t e of
        Inl x \<Rightarrow> Some (Inl x)
      | Inr sd \<Rightarrow>
         (case connect_loop t as of
            None \<Rightarrow> None
          | Some (Inl x) \<Rightarrow> Some (Inl x)
          | Some (Inr _) \<Rightarrow>
              map_option (\<lambda>r. obind r (\<lambda>(word, rest).
                  errcheck (word \<noteq> sync_word) ''Error reading sync buffer in np_connect_to()''
                    (Inr (sd, rest))))
                (readFully rs 6 strm [])))"

definition accept_from ::
  "tcp \<Rightarrow> sock_env \<Rightarrow> io list \<Rightarrow> byte list \<Rightarrow> (int \<times> byte list) outcome option" where
  "accept_from t e ws strm =
     (case errcheck (se_sd e < 0) ''Accept Failed!''
          (errcheck (\<not> se_proto e) ''Unknown protocol!''
          (errcheck (se_nodelay e < 0) ''TCP_NODELAY Failed!''
          (errcheck (se_reuse e < 0) ''SO_REUSEADDR Failed!''
           (if tcpbuffersize t > 0 then
              errcheck (se_sndbuf e < 0) ''setsockopt: SO_SNDBUF failed''
             (errcheck (se_rcvbuf e < 0) ''setsockopt: SO_RCVBUF failed''
              (Inr (se_sd e)))
            else Inr (se_sd e))))) of
        Inl x \<Rightarrow> Some (Inl x)
      | Inr sd \<Rightarrow> map_option (map_sum id (\<lambda>out. (sd, out))) (writeFully ws sync_word strm))"

text \<open>
  \<open>Module_Setup\<close>: streaming resets the connections, and both ends of a pair use the port
  of the lower process.  \<open>bind_rc\<close> is what \<open>bind\<close> returns.
\<close>

definition tcp_port :: "globals \<Rightarrow> int" where
  "tcp_port g = (if myproc g < c_div (nprocs g) 2 then DEFPORT + myproc g else DEFPORT + mypair g)"

definition tcp_Setup_vars :: "globals \<Rightarrow> tcp \<Rightarrow> tcp" where
  "tcp_Setup_vars g t =
     (let t1 = (if stream g \<noteq> 0 then t\<lparr>reset_conn := 1\<rparr> else t) in t1\<lparr>port := tcp_port g\<rparr>)"

definition tcp_listen :: "tcp \<Rightarrow> sock_env \<Rightarrow> int \<Rightarrow> int outcome" where
  "tcp_listen t e bind_rc =
     obind (np_create_socket t e) (\<lambda>sd.
       errcheck (bind_rc \<noteq> 0) ''bind on local address failed!'' (Inr sd))"

definition connects_to_pair :: "globals \<Rightarrow> bool" where
  "connects_to_pair g \<longleftrightarrow> myproc g < c_div (nprocs g) 2"

text \<open>
  The two ends of a pair meet and no other process does: both compute the same port, one
  of them connects and the other accepts, and processes of different pairs use different ports.
\<close>

theorem tcp_pairs_meet:
  assumes "0 < nprocs g" and "even (nprocs g)" and "0 \<le> p" and "p < nprocs g"
    and "0 \<le> q" and "q < nprocs g"
  shows "let me = (\<lambda>i. set_roles (g\<lparr>myproc := i\<rparr>)) in
     (tcp_port (me p) = tcp_port (me q) \<longleftrightarrow> q = p \<or> q = mypair (me p))
     \<and> (q = mypair (me p) \<longrightarrow> connects_to_pair (me p) \<noteq> connects_to_pair (me q))"
  using assms by (auto simp: Let_def tcp_port_def connects_to_pair_def elim!: evenE)

theorem tcp_pairs_meet_witness:
  "tcp_port (set_roles (init_globals\<lparr>nprocs := 4, myproc := 1\<rparr>))
     = tcp_port (set_roles (init_globals\<lparr>nprocs := 4, myproc := 2\<rparr>))
   \<and> tcp_port (set_roles (init_globals\<lparr>nprocs := 4, myproc := 1\<rparr>))
     \<noteq> tcp_port (set_roles (init_globals\<lparr>nprocs := 4, myproc := 3\<rparr>))"
  using tcp_pairs_meet [of "init_globals\<lparr>nprocs := 4\<rparr>" 1 2]
    tcp_pairs_meet [of "init_globals\<lparr>nprocs := 4\<rparr>" 1 3]
  by (simp add: Let_def)

text \<open>Seconds since the first attempt grow by at least the \<open>sleep(1)\<close> between attempts.\<close>

fun attempt_time :: "attempt \<Rightarrow> real option" where
  "attempt_time Connected = None"
| "attempt_time (Refused s) = Some s"
| "attempt_time (Failed s) = Some s"

definition paced :: "attempt list \<Rightarrow> bool" where
  "paced as \<longleftrightarrow> (\<forall>i < length as. case attempt_time (as ! i) of None \<Rightarrow> True | Some s \<Rightarrow> real i \<le> s)"

lemma connect_loop_late:
  assumes "\<And>s. attempt_time a = Some s \<Longrightarrow> 20 < s" and "reset_conn t = 0"
  shows "connect_loop t (a # as) \<noteq> None"
  using assms by (cases a) auto

lemma connect_loop_drop:
  "connect_loop t (drop k as) \<noteq> None \<Longrightarrow> connect_loop t as \<noteq> None"
proof (induction k arbitrary: as)
  case (Suc k)
  show ?case
  proof (cases as)
    case (Cons a as')
    with Suc have "connect_loop t as' \<noteq> None" by simp
    with Cons show ?thesis by (cases a) auto
  qed (use Suc.prems in simp)
qed simp

text \<open>
  Connecting gives up or succeeds: without connection resets, 22 attempts one second apart
  are enough for the loop to have ended, in success or in the error of its 20-second limit.
\<close>

theorem connect_loop_ends:
  assumes "reset_conn t = 0" and "paced as" and "22 \<le> length as"
  shows "connect_loop t as \<noteq> None"
proof (rule connect_loop_drop)
  have "drop 21 as = as ! 21 # drop 22 as"
    using assms(3) Cons_nth_drop_Suc [of 21 as] by simp
  moreover have "21 < length as" using assms(3) by simp
  with assms(2) have "attempt_time (as ! 21) = Some s \<Longrightarrow> 20 < s" for s
    by (force simp: paced_def)
  ultimately show "connect_loop t (drop 21 as) \<noteq> None"
    using connect_loop_late [OF _ assms(1), of "as ! 21"] by auto
qed

theorem connect_loop_ends_witness:
  "connect_loop init_tcp (map (\<lambda>i. Refused (real i)) [0..<22]) \<noteq> None"
  by (rule connect_loop_ends) (simp_all add: init_tcp_def paced_def)

text \<open>
  With connection resets, which streaming turns on, the 20-second limit does not apply to a
  refused connection: a peer that has gone away is asked again for ever.
\<close>

theorem connect_never_gives_up_with_reset:
  assumes "stream g \<noteq> 0"
  shows "connect_loop (tcp_Setup_vars g t) (map (\<lambda>i. Refused (real i)) [0..<k]) = None"
proof -
  have "reset_conn (tcp_Setup_vars g t) \<noteq> 0" using assms by (simp add: tcp_Setup_vars_def Let_def)
  then have "connect_loop (tcp_Setup_vars g t) (map (\<lambda>i. Refused (real i)) xs) = None" for xs
    by (induction xs) simp_all
  then show ?thesis .
qed

theorem connect_never_gives_up_with_reset_witness:
  "connect_loop (tcp_Setup_vars (init_globals\<lparr>stream := 1\<rparr>) init_tcp)
     (map (\<lambda>i. Refused (real i)) [0..<500]) = None"
  by (rule connect_never_gives_up_with_reset) simp

text \<open>
  The handshake of a new connection: what \<open>accept_from\<close> writes is what \<open>np_connect_to\<close>
  expects, however the six bytes are cut up, and both ends return their descriptors.
\<close>

theorem tcp_handshake:
  assumes "np_create_socket t e = Inr sd" and "np_create_socket t e' = Inr sd'"
    and "delivers 6 ws" and "delivers 6 rs" and "connect_loop t as = Some (Inr ())"
  shows "accept_from t e ws [] = Some (Inr (sd, sync_word))
    \<and> np_connect_to t True e' as rs sync_word = Some (Inr (sd', []))"
proof -
  have len: "length sync_word = 6" by (simp add: sync_word_def)
  have "writeFully ws sync_word [] = Some (Inr sync_word)"
    using writeFully_delivers [of sync_word ws "[]"] assms(3) len by simp
  moreover have "readFully rs 6 sync_word [] = Some (Inr (sync_word, []))"
    using readFully_delivers [OF assms(4), of sync_word "[]"] len by simp
  ultimately show ?thesis using assms(1,2,5)
    by (auto simp: accept_from_def np_connect_to_def np_create_socket_def errcheck_def
        split: if_splits)
qed

theorem tcp_handshake_witness:
  "accept_from init_tcp \<lparr>se_sd = 5, se_proto = True, se_nodelay = 0, se_reuse = 0, se_sndbuf = 0,
       se_rcvbuf = 0\<rparr> [Xfer 4, Xfer 2] [] = Some (Inr (5, sync_word))
   \<and> np_connect_to init_tcp True \<lparr>se_sd = 7, se_proto = True, se_nodelay = 0, se_reuse = 0,
       se_sndbuf = 0, se_rcvbuf = 0\<rparr> [Refused 0, Connected] [Xfer 6] sync_word = Some (Inr (7, []))"
  using tcp_handshake [of init_tcp "\<lparr>se_sd = 5, se_proto = True, se_nodelay = 0, se_reuse = 0,
      se_sndbuf = 0, se_rcvbuf = 0\<rparr>" 5 "\<lparr>se_sd = 7, se_proto = True, se_nodelay = 0,
      se_reuse = 0, se_sndbuf = 0, se_rcvbuf = 0\<rparr>" 7 "[Xfer 4, Xfer 2]" "[Xfer 6]"
      "[Refused 0, Connected]"]
  by (simp add: np_create_socket_def errcheck_def delivers_def init_tcp_def)

section \<open>The module as a transport\<close>

text \<open>
  One direction of a connection: the bytes in flight, and how the kernel cuts the \<open>i\<close>-th
  \<open>writeFully\<close> and the \<open>i\<close>-th \<open>readFully\<close>.
\<close>

record tcp_chan =
  tc_bytes :: "byte list"
  tc_ws :: "nat \<Rightarrow> io list"
  tc_rs :: "nat \<Rightarrow> io list"
  tc_nw :: nat
  tc_nr :: nat

definition tcp_SendData :: "byte list \<Rightarrow> tcp_chan \<Rightarrow> tcp_chan" where
  "tcp_SendData m c =
     (case writeFully (tc_ws c (tc_nw c)) m (tc_bytes c) of
        Some (Inr out) \<Rightarrow> c\<lparr>tc_bytes := out, tc_nw := tc_nw c + 1\<rparr>
      | _ \<Rightarrow> c)"

definition tcp_RecvData :: "nat \<Rightarrow> tcp_chan \<Rightarrow> (byte list \<times> tcp_chan) option" where
  "tcp_RecvData n c =
     (case readFully (tc_rs c (tc_nr c)) n (tc_bytes c) [] of
        Some (Inr (got, rest)) \<Rightarrow> Some (got, c\<lparr>tc_bytes := rest, tc_nr := tc_nr c + 1\<rparr>)
      | _ \<Rightarrow> None)"

text \<open>The messages of length \<open>n\<close> that a stream of bytes holds.\<close>

function chunks :: "nat \<Rightarrow> 'a list \<Rightarrow> 'a list list" where
  "chunks n bs = (if n = 0 \<or> length bs < n then [] else take n bs # chunks n (drop n bs))"
  by pat_completeness auto
termination
  by (relation "measure (\<lambda>(n, bs). length bs)") auto

declare chunks.simps [simp del]

lemma chunks_append_msg:
  "0 < n \<Longrightarrow> length m = n \<Longrightarrow> n dvd length bs \<Longrightarrow> chunks n (bs @ m) = chunks n bs @ [m]"
proof (induction n bs rule: chunks.induct)
  case (1 n bs)
  show ?case
  proof (cases "bs = []")
    case True
    with 1 show ?thesis
      by (simp add: chunks.simps [of n m] chunks.simps [of n "[]"])
  next
    case False
    then have "n \<le> length bs" using 1(4) by (simp add: dvd_imp_le)
    with 1 show ?thesis
      by (simp add: chunks.simps [of n "bs @ m"] chunks.simps [of n bs])
  qed
qed

definition tcp_msgs :: "nat \<Rightarrow> tcp_chan \<Rightarrow> byte list list" where
  "tcp_msgs n c = chunks n (tc_bytes c)"

definition tcp_ok :: "nat \<Rightarrow> tcp_chan \<Rightarrow> bool" where
  "tcp_ok n c \<longleftrightarrow> 0 < n \<and> n dvd length (tc_bytes c)
     \<and> (\<forall>i. delivers n (tc_ws c i)) \<and> (\<forall>i. delivers n (tc_rs c i))"

lemma tcp_SendData_ok:
  "tcp_ok n c \<Longrightarrow> length m = n \<Longrightarrow>
     tcp_SendData m c = c\<lparr>tc_bytes := tc_bytes c @ m, tc_nw := tc_nw c + 1\<rparr>"
  by (simp add: tcp_SendData_def tcp_ok_def writeFully_delivers)

lemma tcp_RecvData_ok:
  assumes "tcp_ok n c"
  shows "tcp_RecvData n c =
     (if n \<le> length (tc_bytes c)
      then Some (take n (tc_bytes c), c\<lparr>tc_bytes := drop n (tc_bytes c), tc_nr := tc_nr c + 1\<rparr>)
      else None)"
proof (cases "n \<le> length (tc_bytes c)")
  case True
  with assms show ?thesis by (simp add: tcp_RecvData_def tcp_ok_def readFully_delivers)
next
  case False
  then have "readFully rs n (tc_bytes c) [] \<noteq> Some (Inr r)" for rs r
    using readFully_split [of rs n "tc_bytes c" "[]" "fst r" "snd r"] by auto
  with False show ?thesis
    by (auto simp: tcp_RecvData_def split: option.split sum.split)
qed

interpretation tcp: transport tcp_SendData tcp_RecvData "tcp_msgs n" "tcp_ok n" n for n
proof unfold_locales
  fix c :: tcp_chan and m :: "byte list"
  assume "tcp_ok n c" and "length m = n"
  then show "tcp_ok n (tcp_SendData m c)"
    using tcp_SendData_ok [of n c m] by (simp add: tcp_ok_def)
next
  fix c :: tcp_chan and m :: "byte list"
  assume "tcp_ok n c" and "length m = n"
  then show "tcp_msgs n (tcp_SendData m c) = tcp_msgs n c @ [m]"
    using tcp_SendData_ok [of n c m] by (simp add: tcp_ok_def tcp_msgs_def chunks_append_msg)
next
  fix c :: tcp_chan and m ms
  assume ok: "tcp_ok n c" and "tcp_msgs n c = m # ms"
  then have "n \<le> length (tc_bytes c)" "m = take n (tc_bytes c)"
      "ms = chunks n (drop n (tc_bytes c))"
    by (auto simp: tcp_msgs_def chunks.simps [of n "tc_bytes c"] split: if_splits)
  with ok show "\<exists>c'. tcp_RecvData n c = Some (m, c') \<and> tcp_ok n c' \<and> tcp_msgs n c' = ms"
    by (simp add: tcp_RecvData_ok) (auto simp: tcp_ok_def tcp_msgs_def dvd_diff_nat)
next
  fix c :: tcp_chan
  assume ok: "tcp_ok n c" and "tcp_msgs n c = []"
  then have "length (tc_bytes c) < n"
    by (auto simp: tcp_msgs_def tcp_ok_def chunks.simps [of n "tc_bytes c"] split: if_splits)
  with ok show "tcp_RecvData n c = None" by (simp add: tcp_RecvData_ok)
qed


definition demo_proc :: "pc \<Rightarrow> proc" where
  "demo_proc c = \<lparr>p_node = \<lparr>nbufs = null_bufs\<lparr>sr_buf := 4096, s_buf := 4096, s_ptr := 4096,
      r_buf := 8192, r_ptr := 8192\<rparr>, stag = 0, rtag = 0, failures = 0\<rparr>, p_pc = c, p_j = 0\<rparr>"

definition demo_sys :: "tcp_chan pair_sys" where
  "demo_sys = \<lparr>procs = (\<lambda>s. demo_proc (if s then AtSend else AtRecv)),
     chans = (\<lambda>s. \<lparr>tc_bytes = [], tc_ws = (\<lambda>_. [Xfer 5, WouldBlock, Xfer 5]),
        tc_rs = (\<lambda>_. [Xfer 1, Xfer 20]), tc_nw = 0, tc_nr = 0\<rparr>)\<rparr>"


end
