(* ===== verification/Schedule.thy ===== *)
theory Schedule
  imports Globals
begin

text \<open>
  The main loop of \<open>main()\<close> in \<open>src/netpipe.c\<close>: which message sizes are tested, in which
  order, how often each transfer is repeated, and which buffers are allocated for it.
  The measured time of a test is the environment's: \<open>tm n buflen nrepeat\<close> is the
  \<open>avg_time\<close> that test number \<open>n\<close> measures.  Both loops are fuelled; the theorems
  below show that four units are enough for the perturbation loop and \<open>end - start + 2\<close>
  for the main loop, whatever the measured times are.
\<close>

section \<open>State of the loop\<close>

datatype mem_event =
    Malloc int     \<comment> \<open>\<open>MallocBufs( size )\<close>\<close>
  | InitMem int    \<comment> \<open>\<open>InitBufferData( size )\<close>\<close>
  | Free           \<comment> \<open>\<open>FreeBufs()\<close>\<close>

record dstate =
  d_inc :: int
  d_nq :: int
  d_len :: int
  d_n :: int
  d_tlast :: real
  d_fin :: bool
  d_points :: "(int \<times> int \<times> int) list"   \<comment> \<open>test number, \<open>buflen\<close>, \<open>nrepeat\<close>\<close>
  d_mem :: "mem_event list"

type_synonym timing = "int \<Rightarrow> int \<Rightarrow> int \<Rightarrow> real"

definition init_schedule :: "globals \<Rightarrow> dstate" where
  "init_schedule g =
     \<lparr> d_inc = (if start g > 1 then c_div (start g) 2 else 1),
       d_nq = (if start g > 1 then 1 else 0),
       d_len = start g, d_n = 0, d_tlast = est_latency g, d_fin = (finished g \<noteq> 0),
       d_points = [],
       d_mem = (if cache g = 0 then [Malloc MEMSIZE] else []) \<rparr>"

section \<open>One data point\<close>

definition c_trunc :: "real \<Rightarrow> int" where
  "c_trunc x = (if 0 \<le> x then \<lfloor>x\<rfloor> else \<lceil>x\<rceil>)"

text \<open>
  How many times to repeat the transfer.  \<open>runtime / tlast\<close> with \<open>tlast = 0\<close> is a
  floating-point infinity whose conversion to \<open>int\<close> is undefined, as is a quotient above
  \<open>INT_MAX\<close>; \<open>100000000 / buflen\<close> is an integer division.
\<close>

definition nrepeat_for :: "globals \<Rightarrow> real \<Rightarrow> int \<Rightarrow> int outcome" where
  "nrepeat_for g tlast bl =
     (if disk g > 1 then Inr (disk g)
      else if nrepeat_const g \<noteq> 0 then Inr (nrepeat_const g)
      else if disk g \<noteq> 0 then
        (if bl = 0 then Inl DivByZero
         else let r = c_div 100000000 bl in Inr (if r < 3 then 3 else r))
      else if tlast = 0 then Inl Overflow
      else let q = runtime g / tlast; m = (if q > 3 then q else 3)
           in if m \<ge> real_of_int INT_MAX + 1 then Inl Overflow else Inr (c_trunc m))"

definition bufs_for :: "globals \<Rightarrow> int \<Rightarrow> mem_event" where
  "bufs_for g bl =
     (if disk g > 1 then Malloc bl
      else if cache g \<noteq> 0 then Malloc (2 * bl)
      else InitMem MEMSIZE)"

text \<open>
  The body of the perturbation loop, up to the trials (whose outcome is \<open>tm\<close>) and from
  \<open>tlast = avg_time\<close> to \<open>nq++\<close>.
\<close>

definition test_point :: "globals \<Rightarrow> timing \<Rightarrow> int \<Rightarrow> dstate \<Rightarrow> dstate outcome" where
  "test_point g tm pert s =
     (let n = d_n s + 1; bl = d_len s + pert
      in obind (nrepeat_for g (d_tlast s) bl) (\<lambda>nrep.
         errcheck (nrep \<le> 0 \<or> nrep > 1000000000) ''nrepeat is out of range''
           (Inr (s\<lparr> d_n := n, d_nq := d_nq s + 1, d_tlast := tm n bl nrep,
                    d_points := d_points s @ [(n, bl, nrep)],
                    d_mem := d_mem s @ [bufs_for g bl]
                               @ (if cache g \<noteq> 0 then [Free] else []) \<rparr>))))"

section \<open>The perturbation loop\<close>

definition perturbed :: "globals \<Rightarrow> int \<Rightarrow> bool" where
  "perturbed g inc \<longleftrightarrow> perturbation g > 0 \<and> inc > perturbation g + 1"

definition pert_first :: "globals \<Rightarrow> int \<Rightarrow> int" where
  "pert_first g inc = (if perturbed g inc then - perturbation g else 0)"

definition pert_step :: "globals \<Rightarrow> int \<Rightarrow> int" where
  "pert_step g inc = (if perturbed g inc then perturbation g else perturbation g + 1)"

fun pert_loop :: "nat \<Rightarrow> globals \<Rightarrow> timing \<Rightarrow> int \<Rightarrow> dstate \<Rightarrow> dstate outcome option" where
  "pert_loop 0 g tm pert s = None"
| "pert_loop (Suc fuel) g tm pert s =
     (if pert \<le> perturbation g then
        (case test_point g tm pert s of
           Inl e \<Rightarrow> Some (Inl e)
         | Inr s' \<Rightarrow> pert_loop fuel g tm (pert + pert_step g (d_inc s')) s')
      else Some (Inr s))"

section \<open>The main loop\<close>

definition next_inc :: "globals \<Rightarrow> dstate \<Rightarrow> int" where
  "next_inc g s =
     (if factors_of_2 g \<noteq> 0 then d_len s
      else if d_nq s > 2 then (if c_mod (d_nq s) 2 \<noteq> 0 then d_inc s + d_inc s else d_inc s)
      else d_inc s)"

definition finish_round :: "globals \<Rightarrow> dstate \<Rightarrow> dstate" where
  "finish_round g s =
     (let fin1 = d_fin s \<or> d_tlast s \<ge> stoptime g; len1 = d_len s + d_inc s
      in s\<lparr> d_len := len1, d_fin := fin1 \<or> len1 > end_size g \<rparr>)"

definition size_round :: "globals \<Rightarrow> timing \<Rightarrow> dstate \<Rightarrow> dstate outcome option" where
  "size_round g tm s =
     (let s1 = s\<lparr>d_inc := next_inc g s\<rparr>
      in map_option (map_sum id (finish_round g))
           (pert_loop 4 g tm (pert_first g (d_inc s1)) s1))"

fun main_loop :: "nat \<Rightarrow> globals \<Rightarrow> timing \<Rightarrow> dstate \<Rightarrow> dstate outcome option" where
  "main_loop 0 g tm s = (if d_fin s then Some (Inr s) else None)"
| "main_loop (Suc fuel) g tm s =
     (if d_fin s then Some (Inr s)
      else case size_round g tm s of
             None \<Rightarrow> None
           | Some (Inl e) \<Rightarrow> Some (Inl e)
           | Some (Inr s') \<Rightarrow> main_loop fuel g tm s')"

text \<open>The whole of it: start values, main loop, and the buffers of nocache mode freed.\<close>

definition run_schedule :: "nat \<Rightarrow> globals \<Rightarrow> timing \<Rightarrow> dstate outcome option" where
  "run_schedule fuel g tm =
     map_option (map_sum id (\<lambda>s. if cache g = 0 then s\<lparr>d_mem := d_mem s @ [Free]\<rparr> else s))
       (main_loop fuel g tm (init_schedule g))"

section \<open>What one round does\<close>

lemma test_point_Inr:
  assumes "test_point g tm pert s = Inr s'"
  shows "\<exists>nrep. nrepeat_for g (d_tlast s) (d_len s + pert) = Inr nrep
    \<and> 0 < nrep \<and> nrep \<le> 1000000000
    \<and> s' = s\<lparr> d_n := d_n s + 1, d_nq := d_nq s + 1,
         d_tlast := tm (d_n s + 1) (d_len s + pert) nrep,
         d_points := d_points s @ [(d_n s + 1, d_len s + pert, nrep)],
         d_mem := d_mem s @ [bufs_for g (d_len s + pert)]
                    @ (if cache g \<noteq> 0 then [Free] else []) \<rparr>"
  using assms by (auto simp: test_point_def Let_def obind_Inr_iff)

lemma test_point_frame [frame_simps]:
  "test_point g tm pert s = Inr s' \<Longrightarrow>
     d_inc s' = d_inc s \<and> d_len s' = d_len s \<and> d_fin s' = d_fin s"
  by (auto dest: test_point_Inr)

text \<open>
  With no perturbation in force the loop body runs at most once, at \<open>pert = 0\<close>; else it
  runs at \<open>-perturbation\<close>, \<open>0\<close> and \<open>perturbation\<close>.
\<close>

definition perts :: "globals \<Rightarrow> int \<Rightarrow> int list" where
  "perts g inc =
     (if perturbed g inc then [- perturbation g, 0, perturbation g]
      else if 0 \<le> perturbation g then [0] else [])"

fun test_points :: "globals \<Rightarrow> timing \<Rightarrow> int list \<Rightarrow> dstate \<Rightarrow> dstate outcome" where
  "test_points g tm [] s = Inr s"
| "test_points g tm (p # ps) s = obind (test_point g tm p s) (test_points g tm ps)"

lemma pert_loop_go:
  "pert \<le> perturbation g \<Longrightarrow> pert_loop (Suc k) g tm pert s =
     (case test_point g tm pert s of
        Inl e \<Rightarrow> Some (Inl e)
      | Inr s' \<Rightarrow> pert_loop k g tm (pert + pert_step g (d_inc s')) s')"
  by simp

lemma pert_loop_stop:
  "perturbation g < pert \<Longrightarrow> pert_loop (Suc k) g tm pert s = Some (Inr s)"
  by simp

declare pert_loop.simps [simp del]

lemma pert_loop_last:
  assumes "pert \<le> perturbation g" and "perturbation g < pert + pert_step g (d_inc s)"
  shows "pert_loop (Suc (Suc k)) g tm pert s = Some (test_point g tm pert s)"
  using assms
  by (auto simp: pert_loop_go pert_loop_stop test_point_frame split: sum.split)

lemma pert_loop_plain:
  assumes "\<not> perturbed g (d_inc s)"
  shows "pert_loop (Suc (Suc k)) g tm 0 s = Some (test_points g tm (perts g (d_inc s)) s)"
proof (cases "0 \<le> perturbation g")
  case True
  with assms have "pert_loop (Suc (Suc k)) g tm 0 s = Some (test_point g tm 0 s)"
    by (intro pert_loop_last) (auto simp: pert_step_def)
  with True assms show ?thesis
    by (cases "test_point g tm 0 s") (auto simp: perts_def)
next
  case False
  then show ?thesis using assms by (simp add: perts_def pert_loop_stop perturbed_def)
qed

lemma pert_loop_perturbed:
  assumes "perturbed g (d_inc s)"
  shows "pert_loop (Suc (Suc (Suc (Suc k)))) g tm (- perturbation g) s
     = Some (test_points g tm (perts g (d_inc s)) s)"
proof (cases "test_point g tm (- perturbation g) s")
  case (Inl e)
  with assms show ?thesis by (simp add: pert_loop_go perts_def perturbed_def)
next
  case (Inr s1)
  then have inc1: "d_inc s1 = d_inc s" by (simp add: test_point_frame)
  have p: "0 < perturbation g" using assms by (simp add: perturbed_def)
  have 1: "pert_loop (Suc (Suc (Suc (Suc k)))) g tm (- perturbation g) s
     = pert_loop (Suc (Suc (Suc k))) g tm 0 s1"
    using Inr p assms by (simp add: pert_loop_go inc1 pert_step_def)
  show ?thesis
  proof (cases "test_point g tm 0 s1")
    case Inl
    with Inr 1 p assms show ?thesis by (simp add: pert_loop_go perts_def)
  next
    case I: (Inr s2)
    then have inc2: "d_inc s2 = d_inc s" by (simp add: test_point_frame inc1)
    have "pert_loop (Suc (Suc (Suc k))) g tm 0 s1
       = pert_loop (Suc (Suc k)) g tm (perturbation g) s2"
      using I p assms by (simp add: pert_loop_go inc2 pert_step_def)
    also have "\<dots> = Some (test_point g tm (perturbation g) s2)"
      using p assms by (intro pert_loop_last) (auto simp: pert_step_def inc2)
    finally show ?thesis using Inr I 1 assms
      by (cases "test_point g tm (perturbation g) s2") (auto simp: perts_def)
  qed
qed

lemma pert_loop_eq_test_points:
  "pert_loop 4 g tm (pert_first g (d_inc s)) s = Some (test_points g tm (perts g (d_inc s)) s)"
proof -
  have four: "4 = Suc (Suc (Suc (Suc 0)))" by simp
  show ?thesis
    unfolding four pert_first_def
    using pert_loop_plain pert_loop_perturbed by simp
qed

lemma test_points_frame:
  "test_points g tm ps s = Inr s' \<Longrightarrow>
     d_inc s' = d_inc s \<and> d_len s' = d_len s \<and> d_fin s' = d_fin s
     \<and> d_nq s' = d_nq s + int (length ps) \<and> d_n s' = d_n s + int (length ps)
     \<and> map (\<lambda>(n, bl, r). bl) (d_points s') =
         map (\<lambda>(n, bl, r). bl) (d_points s) @ map (\<lambda>p. d_len s + p) ps"
proof (induction ps arbitrary: s)
  case (Cons p ps)
  from Cons.prems obtain s1 where 1: "test_point g tm p s = Inr s1"
      and 2: "test_points g tm ps s1 = Inr s'"
    by (auto simp: obind_Inr_iff)
  from test_point_Inr [OF 1] Cons.IH [OF 2] show ?case by auto
qed simp

lemma size_round_eq:
  "size_round g tm s =
     (let s1 = s\<lparr>d_inc := next_inc g s\<rparr>
      in Some (map_sum id (finish_round g) (test_points g tm (perts g (d_inc s1)) s1)))"
  unfolding size_round_def Let_def by (subst pert_loop_eq_test_points) simp

section \<open>The invariant of the main loop\<close>

text \<open>
  The increment never exceeds the current length, and once doubling has begun twice the
  increment does not: so the increment that the next round uses still fits.
\<close>

definition sched_inv :: "globals \<Rightarrow> dstate \<Rightarrow> bool" where
  "sched_inv g s \<longleftrightarrow> 1 \<le> d_inc s \<and> d_inc s \<le> d_len s \<and> (d_nq s > 2 \<longrightarrow> 2 * d_inc s \<le> d_len s)
     \<and> 0 \<le> d_nq s \<and> (d_fin s \<or> d_len s \<le> max (start g) (end_size g))"

lemma sched_inv_init [inv_intros]: "1 \<le> start g \<Longrightarrow> sched_inv g (init_schedule g)"
  by (simp add: sched_inv_def init_schedule_def) presburger

lemma next_inc_bounds:
  "sched_inv g s \<Longrightarrow> 1 \<le> next_inc g s \<and> next_inc g s \<le> d_len s"
  by (auto simp: sched_inv_def next_inc_def)

lemma size_round_Inr:
  assumes inv: "sched_inv g s" and r: "size_round g tm s = Some (Inr s')"
  shows "sched_inv g s' \<and> d_inc s' = next_inc g s \<and> d_len s' = d_len s + d_inc s'
    \<and> (d_fin s' \<longleftrightarrow> d_fin s \<or> d_tlast s' \<ge> stoptime g \<or> d_len s' > end_size g)
    \<and> d_nq s' = d_nq s + int (length (perts g (d_inc s')))
    \<and> map (\<lambda>(n, bl, r). bl) (d_points s') =
         map (\<lambda>(n, bl, r). bl) (d_points s) @ map (\<lambda>p. d_len s + p) (perts g (d_inc s'))"
proof -
  let ?s1 = "s\<lparr>d_inc := next_inc g s\<rparr>"
  from r obtain s2 where t: "test_points g tm (perts g (next_inc g s)) ?s1 = Inr s2"
      and s': "s' = finish_round g s2"
    by (cases "test_points g tm (perts g (next_inc g s)) ?s1") (auto simp: size_round_eq Let_def)
  note f = test_points_frame [OF t]
  have "perts g (next_inc g s) \<noteq> [] \<or> d_nq s2 = d_nq s" using f by auto
  with f next_inc_bounds [OF inv] inv show ?thesis
    unfolding s' by (auto simp: finish_round_def Let_def sched_inv_def)
qed

lemma size_round_total: "\<exists>r. size_round g tm s = Some r"
  by (simp add: size_round_eq Let_def)

section \<open>Termination\<close>

lemma main_loop_returns:
  assumes "sched_inv g s" and "nat (end_size g - d_len s + 1) < fuel \<or> d_fin s"
  shows "main_loop fuel g tm s \<noteq> None"
  using assms
proof (induction fuel arbitrary: s)
  case 0
  then show ?case by simp
next
  case (Suc fuel)
  show ?case
  proof (cases "d_fin s")
    case False
    obtain r where r: "size_round g tm s = Some r" using size_round_total by blast
    show ?thesis
    proof (cases r)
      case (Inr s')
      note R = size_round_Inr [OF Suc.prems(1) r [unfolded Inr]]
      have "1 \<le> d_inc s'" using R next_inc_bounds [OF Suc.prems(1)] by simp
      with R Suc.prems False
      have "nat (end_size g - d_len s' + 1) < fuel \<or> d_fin s'" by auto
      with R Suc.IH [of s'] show ?thesis using False r Inr by simp
    qed (use False r in simp)
  qed simp
qed

lemma run_schedule_returns:
  assumes "1 \<le> start g" and "nat (end_size g - start g + 1) < fuel"
  shows "\<exists>r. run_schedule fuel g tm = Some r"
proof -
  have "main_loop fuel g tm (init_schedule g) \<noteq> None"
    using assms by (intro main_loop_returns sched_inv_init) (simp_all add: init_schedule_def)
  then show ?thesis by (auto simp: run_schedule_def)
qed



section \<open>The sizes that are tested\<close>

lemma main_loop_rule:
  assumes "main_loop fuel g tm s = Some (Inr t)" and "sched_inv g s" and "P s"
    and "\<And>s s'. sched_inv g s \<Longrightarrow> \<not> d_fin s \<Longrightarrow> P s \<Longrightarrow> size_round g tm s = Some (Inr s') \<Longrightarrow> P s'"
  shows "P t \<and> sched_inv g t \<and> d_fin t"
  using assms(1-3)
proof (induction fuel arbitrary: s)
  case 0
  then show ?case by (auto split: if_splits)
next
  case (Suc fuel)
  show ?case
  proof (cases "d_fin s")
    case False
    with Suc.prems(1) obtain s' where r: "size_round g tm s = Some (Inr s')"
        and m: "main_loop fuel g tm s' = Some (Inr t)"
      by (auto split: option.splits sum.splits)
    from Suc.IH [OF m] size_round_Inr [OF Suc.prems(2) r] assms(4) [OF Suc.prems(2) False _ r]
      Suc.prems(3) show ?thesis by blast
  qed (use Suc.prems in simp)
qed

definition sizes :: "dstate \<Rightarrow> int list" where
  "sizes s = map (\<lambda>(n, bl, r). bl) (d_points s)"

lemma perts_bounds:
  "p \<in> set (perts g inc) \<Longrightarrow> 1 \<le> inc \<Longrightarrow> 1 - inc \<le> p \<and> p \<le> max 0 (perturbation g)"
  by (auto simp: perts_def perturbed_def split: if_splits)

lemma run_schedule_sizes_rule:
  assumes "run_schedule fuel g tm = Some (Inr t)" and "1 \<le> start g"
    and "P []" and "\<And>s inc. sched_inv g s \<Longrightarrow> \<not> d_fin s \<Longrightarrow> P (sizes s) \<Longrightarrow>
       P (sizes s @ map (\<lambda>p. d_len s + p) (perts g (next_inc g s)))"
  shows "P (sizes t)"
proof -
  from assms(1) obtain t' where m: "main_loop fuel g tm (init_schedule g) = Some (Inr t')"
      and t: "sizes t = sizes t'"
    by (auto simp: run_schedule_def sizes_def)
  have "P (sizes t') \<and> sched_inv g t' \<and> d_fin t'"
  proof (rule main_loop_rule [OF m, where P = "\<lambda>s. P (sizes s)"])
    show "sched_inv g (init_schedule g)" using assms(2) by (rule sched_inv_init)
    show "P (sizes (init_schedule g))" using assms(3) by (simp add: sizes_def init_schedule_def)
    fix s s'
    assume s: "sched_inv g s" "\<not> d_fin s" "P (sizes s)" "size_round g tm s = Some (Inr s')"
    from assms(4) [OF s(1-3)] size_round_Inr [OF s(1,4)] show "P (sizes s')"
      by (simp add: sizes_def)
  qed
  with t show ?thesis by simp
qed

lemma run_schedule_sizes:
  assumes "1 \<le> start g" and "run_schedule fuel g tm = Some (Inr t)"
  shows "\<forall>bl \<in> set (sizes t). 1 \<le> bl
    \<and> bl \<le> max (start g) (end_size g) + max 0 (perturbation g)"
proof (rule run_schedule_sizes_rule [OF assms(2,1)])
  fix s
  assume s: "sched_inv g s" "\<not> d_fin s"
    "\<forall>bl \<in> set (sizes s). 1 \<le> bl \<and> bl \<le> max (start g) (end_size g) + max 0 (perturbation g)"
  have "1 \<le> d_len s + p \<and> d_len s + p \<le> max (start g) (end_size g) + max 0 (perturbation g)"
    if "p \<in> set (perts g (next_inc g s))" for p
    using perts_bounds [OF that] next_inc_bounds [OF s(1)] s(1,2) by (auto simp: sched_inv_def)
  with s(3) show "\<forall>bl \<in> set (sizes s @ map (\<lambda>p. d_len s + p) (perts g (next_inc g s))).
      1 \<le> bl \<and> bl \<le> max (start g) (end_size g) + max 0 (perturbation g)"
    by auto
qed simp


definition demo_globals :: globals where
  "demo_globals = init_globals\<lparr>end_size := 12, nrepeat_const := 5\<rparr>"

lemma demo_schedule:
  "map_option (map_sum id (\<lambda>t. (sizes t, d_mem t)))
     (run_schedule 13 demo_globals (\<lambda>_ _ _. 1)) =
   Some (Inr ([1, 2, 3, 4, 6, 8, 12],
     [Malloc 2, Free, Malloc 4, Free, Malloc 6, Free, Malloc 8, Free, Malloc 12, Free,
      Malloc 16, Free, Malloc 24, Free]))"
  by code_simp

lemma demo_schedule_run:
  "\<exists>t. run_schedule 13 demo_globals (\<lambda>_ _ _. 1) = Some (Inr t)
     \<and> sizes t = [1, 2, 3, 4, 6, 8, 12]"
  using demo_schedule by (auto simp del: run_schedule_def)


text \<open>
  The reference sequence of the default mode: 1, 2, 3, 4, 6, 8, 12, 16, 24, ... -- the powers
  of two and the points half way between them -- with the increment of each round.
\<close>

definition half_inc :: "nat \<Rightarrow> int" where
  "half_inc r = (if r < 3 then 1 else 2 ^ ((r - 1) div 2))"

definition half_size :: "nat \<Rightarrow> int" where
  "half_size r = (if r < 3 then int r + 1
     else if odd r then 2 ^ ((r + 1) div 2) else 3 * 2 ^ (r div 2 - 1))"

lemma half_size_Suc: "half_size (Suc r) = half_size r + half_inc r"
proof (cases "r < 3")
  case True
  then have "r = 0 \<or> r = 1 \<or> r = 2" by auto
  then show ?thesis by (auto simp: half_size_def half_inc_def)
next
  case False
  show ?thesis
  proof (cases "odd r")
    case True
    then obtain k where r: "r = 2 * k + 1" by (auto elim: oddE)
    with False have "1 \<le> k" by simp
    then show ?thesis using False by (simp add: r half_size_def half_inc_def)
  next
    case even: False
    then obtain k where r: "r = 2 * k" by (auto elim: evenE)
    with False have "2 \<le> k" by simp
    then obtain j where "k = 2 + j" using le_Suc_ex by blast
    then show ?thesis using False by (simp add: r half_size_def half_inc_def)
  qed
qed

definition half_round :: "globals \<Rightarrow> nat \<Rightarrow> int list" where
  "half_round g r = map (\<lambda>p. half_size r + p) (perts g (half_inc r))"

lemma length_perts_odd:
  "0 \<le> perturbation g \<Longrightarrow> odd (length (perts g inc))"
  by (simp add: perts_def)

lemma perts_one: "0 \<le> perturbation g \<Longrightarrow> perts g 1 = [0]"
  by (simp add: perts_def perturbed_def)

text \<open>What holds before round \<open>r\<close> of the default mode.\<close>

definition half_state :: "globals \<Rightarrow> nat \<Rightarrow> dstate \<Rightarrow> bool" where
  "half_state g r s \<longleftrightarrow> d_len s = half_size r \<and> sizes s = concat (map (half_round g) [0..<r])
     \<and> d_inc s = (if r = 0 then 1 else half_inc (r - 1))
     \<and> (if r \<le> 3 then d_nq s = int r else 3 < d_nq s \<and> (odd (d_nq s) \<longleftrightarrow> odd r))"

lemma half_state_next_inc:
  assumes "half_state g r s" and "factors_of_2 g = 0" shows "next_inc g s = half_inc r"
proof (cases "r \<le> 3")
  case True
  then have "r = 0 \<or> r = 1 \<or> r = 2 \<or> r = 3" by auto
  with assms show ?thesis by (auto simp: half_state_def next_inc_def half_inc_def)
next
  case False
  with assms have *: "2 < d_nq s" "odd (d_nq s) \<longleftrightarrow> odd r" "d_inc s = 2 ^ ((r - 2) div 2)"
    by (auto simp: half_state_def half_inc_def numeral_2_eq_2)
  have "half_inc r = (if odd r then 2 * 2 ^ ((r - 2) div 2) else 2 ^ ((r - 2) div 2))"
  proof (cases "odd r")
    case True
    then obtain k where "r = 2 * k + 1" by (auto elim: oddE)
    moreover from this False obtain j where "k = Suc j" by (cases k) auto
    ultimately show ?thesis using False by (simp add: half_inc_def)
  next
    case even: False
    then obtain k where "r = 2 * k" by (auto elim: evenE)
    moreover from this False obtain j where "k = Suc j" by (cases k) auto
    ultimately show ?thesis using False by (simp add: half_inc_def)
  qed
  with * assms(2) show ?thesis by (auto simp: next_inc_def odd_iff_mod_2_eq_one)
qed

lemma half_state_step:
  assumes h: "half_state g r s" and inv: "sched_inv g s" and "factors_of_2 g = 0"
    and p: "0 \<le> perturbation g" and r: "size_round g tm s = Some (Inr s')"
  shows "half_state g (Suc r) s'"
proof -
  note R = size_round_Inr [OF inv r]
  have inc: "next_inc g s = half_inc r" using half_state_next_inc h assms(3) by blast
  have nq: "d_nq s' = d_nq s + int (length (perts g (half_inc r)))" using R inc by simp
  have odd: "odd (length (perts g (half_inc r)))" using length_perts_odd [OF p] .
  have "if Suc r \<le> 3 then d_nq s' = int (Suc r) else 3 < d_nq s' \<and> (odd (d_nq s') \<longleftrightarrow> odd (Suc r))"
  proof (cases "r < 3")
    case True
    with h nq perts_one [OF p] show ?thesis by (auto simp: half_state_def half_inc_def)
  next
    case False
    with h nq odd show ?thesis
      by (cases "length (perts g (half_inc r))") (auto simp: half_state_def split: if_splits)
  qed
  with h R inc show ?thesis
    by (simp add: half_state_def half_size_Suc half_round_def sizes_def)
qed

text \<open>
  The documented exponential schedule: from \<open>--start 1\<close>, unless factors of two alone are
  asked for, the rounds go through the reference sequence 1, 2, 3, 4, 6, 8, 12, 16, 24, ... in
  order, each tested with its perturbations, and nothing else is tested.
\<close>

theorem exponential_schedule:
  assumes "start g = 1" and "factors_of_2 g = 0" and "0 \<le> perturbation g"
    and "run_schedule fuel g tm = Some (Inr t)"
  shows "\<exists>m. sizes t = concat (map (half_round g) [0..<m])"
proof -
  from assms(4) obtain t' where m: "main_loop fuel g tm (init_schedule g) = Some (Inr t')"
      and t: "sizes t = sizes t'"
    by (auto simp: run_schedule_def sizes_def)
  have "(\<exists>r. half_state g r t') \<and> sched_inv g t' \<and> d_fin t'"
  proof (rule main_loop_rule [OF m, where P = "\<lambda>s. \<exists>r. half_state g r s"])
    show "sched_inv g (init_schedule g)" using assms(1) by (intro sched_inv_init) simp
    show "\<exists>r. half_state g r (init_schedule g)" using assms(1)
      by (intro exI [of _ 0]) (simp add: half_state_def init_schedule_def half_size_def sizes_def)
  qed (use half_state_step assms(2,3) in blast)
  with t show ?thesis by (auto simp: half_state_def)
qed

theorem exponential_schedule_witness:
  "\<exists>m. [1, 2, 3, 4, 6, 8, 12] = concat (map (half_round demo_globals) [0..<m])"
proof -
  obtain t where t: "run_schedule 13 demo_globals (\<lambda>_ _ _. 1) = Some (Inr t)"
      "sizes t = [1, 2, 3, 4, 6, 8, 12]"
    using demo_schedule_run by blast
  from exponential_schedule [OF _ _ _ t(1)] t(2) show ?thesis
    by (simp add: demo_globals_def init_globals_def)
qed

text \<open>What holds before each round of the factors-of-two mode, when no trial is too slow.\<close>

definition fac2_state :: "globals \<Rightarrow> nat \<Rightarrow> dstate \<Rightarrow> bool" where
  "fac2_state g k s \<longleftrightarrow> d_len s = start g * 2 ^ k
     \<and> sizes s = map (\<lambda>i. start g * 2 ^ i) [0..<k]
     \<and> (d_fin s \<longleftrightarrow> 0 < k \<and> end_size g < d_len s)
     \<and> (1 < k \<longrightarrow> start g * 2 ^ (k - 1) \<le> end_size g)"

lemma test_point_tlast:
  assumes "test_point g tm p s = Inr s'"
  shows "\<exists>r. d_tlast s' = tm (d_n s + 1) (d_len s + p) r"
proof -
  from assms obtain r where
    "s' = s\<lparr> d_n := d_n s + 1, d_nq := d_nq s + 1,
         d_tlast := tm (d_n s + 1) (d_len s + p) r,
         d_points := d_points s @ [(d_n s + 1, d_len s + p, r)],
         d_mem := d_mem s @ [bufs_for g (d_len s + p)]
                    @ (if cache g \<noteq> 0 then [Free] else []) \<rparr>"
    using test_point_Inr by blast
  then have "d_tlast s' = tm (d_n s + 1) (d_len s + p) r" by simp
  then show ?thesis ..
qed

lemma test_points_tlast:
  assumes "\<And>n bl r. tm n bl r < b"
  shows "ps \<noteq> [] \<Longrightarrow> test_points g tm ps s = Inr s' \<Longrightarrow> d_tlast s' < b"
proof (induction ps arbitrary: s)
  case (Cons p ps)
  then obtain s1 where 1: "test_point g tm p s = Inr s1" and 2: "test_points g tm ps s1 = Inr s'"
    by (auto simp: obind_Inr_iff)
  from test_point_tlast [OF 1] obtain r where "d_tlast s1 = tm (d_n s + 1) (d_len s + p) r" ..
  with assms have "d_tlast s1 < b" by simp
  with Cons.IH [OF _ 2] 2 show ?case by (cases "ps = []") simp_all
qed simp

lemma size_round_tlast:
  assumes "size_round g tm s = Some (Inr s')" and "0 \<le> perturbation g"
    and "\<And>n bl r. tm n bl r < b"
  shows "d_tlast s' < b"
proof -
  let ?s1 = "s\<lparr>d_inc := next_inc g s\<rparr>"
  from assms(1) obtain s2 where t: "test_points g tm (perts g (next_inc g s)) ?s1 = Inr s2"
      and s': "d_tlast s' = d_tlast s2"
    by (auto simp: size_round_eq Let_def finish_round_def)
  have "perts g (next_inc g s) \<noteq> []" using assms(2) by (simp add: perts_def)
  from test_points_tlast [OF assms(3) this t] s' show ?thesis by simp
qed

lemma fac2_step:
  assumes f: "fac2_state g k s" and inv: "sched_inv g s" and "factors_of_2 g \<noteq> 0"
    and "perturbation g = 0" and "\<not> d_fin s" and r: "size_round g tm s = Some (Inr s')"
    and fast: "\<forall>n bl r. tm n bl r < stoptime g"
  shows "fac2_state g (Suc k) s'"
proof -
  note R = size_round_Inr [OF inv r]
  have inc: "next_inc g s = d_len s" using assms(3) by (simp add: next_inc_def)
  have perts: "perts g (d_len s) = [0]" using assms(4) by (simp add: perts_def perturbed_def)
  have "d_tlast s' < stoptime g" using size_round_tlast [OF r] assms(4) fast by simp
  with f R inc perts assms(5) show ?thesis by (auto simp: fac2_state_def sizes_def)
qed

text \<open>
  \<open>--fac2\<close> tests exactly the doublings of \<open>--start\<close>, in order, and stops at the first
  one beyond \<open>--end\<close> (the first size is tested in any case), unless a trial is too slow.
\<close>

theorem factors_of_2_schedule:
  assumes "1 \<le> start g" and "factors_of_2 g \<noteq> 0" and "perturbation g = 0" and "finished g = 0"
    and "\<forall>n bl r. tm n bl r < stoptime g" and "run_schedule fuel g tm = Some (Inr t)"
  shows "\<exists>k>0. sizes t = map (\<lambda>i. start g * 2 ^ i) [0..<k]
    \<and> end_size g < start g * 2 ^ k \<and> (1 < k \<longrightarrow> start g * 2 ^ (k - 1) \<le> end_size g)"
proof -
  from assms(6) obtain t' where m: "main_loop fuel g tm (init_schedule g) = Some (Inr t')"
      and t: "sizes t = sizes t'"
    by (auto simp: run_schedule_def sizes_def)
  have "(\<exists>k. fac2_state g k t') \<and> sched_inv g t' \<and> d_fin t'"
  proof (rule main_loop_rule [OF m, where P = "\<lambda>s. \<exists>k. fac2_state g k s"])
    show "sched_inv g (init_schedule g)" using assms(1) by (rule sched_inv_init)
    show "\<exists>k. fac2_state g k (init_schedule g)" using assms(4)
      by (intro exI [of _ 0]) (simp add: fac2_state_def init_schedule_def sizes_def)
  qed (use fac2_step assms in blast)
  with t show ?thesis by (auto simp: fac2_state_def)
qed

definition demo_fac2 :: globals where
  "demo_fac2 = init_globals\<lparr>start := 3, end_size := 30, nrepeat_const := 1,
     factors_of_2 := 1, perturbation := 0\<rparr>"

lemma demo_fac2_run:
  "map_option (map_sum id sizes) (run_schedule 30 demo_fac2 (\<lambda>_ _ _. 1)) =
   Some (Inr [3, 6, 12, 24])"
  by code_simp

theorem factors_of_2_schedule_witness:
  "\<exists>k>0. [3, 6, 12, 24 :: int] = map (\<lambda>i. 3 * 2 ^ i) [0..<k] \<and> (30::int) < 3 * 2 ^ k
    \<and> (1 < k \<longrightarrow> (3::int) * 2 ^ (k - 1) \<le> 30)"
proof -
  obtain t where t: "run_schedule 30 demo_fac2 (\<lambda>_ _ _. 1) = Some (Inr t)"
      "sizes t = [3, 6, 12, 24]"
    using demo_fac2_run by auto
  from factors_of_2_schedule [OF _ _ _ _ _ t(1)] t(2) show ?thesis
    by (simp add: demo_fac2_def init_globals_def)
qed

section \<open>No integer overflow\<close>

text \<open>The values that one round computes in \<open>int\<close>s, besides the counters.\<close>

definition round_ints :: "globals \<Rightarrow> dstate \<Rightarrow> int list" where
  "round_ints g s =
     (let inc = next_inc g s
      in [inc, d_len s + inc, perturbation g + 1]
         @ concat (map (\<lambda>p. [d_len s + p, 2 * (d_len s + p)]) (perts g inc)))"

text \<open>
  With \<open>--start\<close>, \<open>--end\<close> and the perturbation below 2^29 in size, every increment,
  length, buffer length and doubled buffer length that a round of the main loop computes is
  an \<open>int\<close>: no signed overflow.
\<close>

theorem round_no_overflow:
  assumes "sched_inv g s" and "\<not> d_fin s"
    and "start g < 2 ^ 29" and "end_size g < 2 ^ 29" and "\<bar>perturbation g\<bar> < 2 ^ 29"
  shows "\<forall>x \<in> set (round_ints g s). is_c_int x"
proof -
  note b = next_inc_bounds [OF assms(1)]
  have len: "d_len s < 2 ^ 29" using assms(1-4) by (auto simp: sched_inv_def)
  have p: "is_c_int (d_len s + p) \<and> is_c_int (2 * (d_len s + p))"
    if "p \<in> set (perts g (next_inc g s))" for p
    using perts_bounds [OF that] b len assms(5) by (auto simp: is_c_int_def INT_MAX_def INT_MIN_def)
  have "is_c_int (next_inc g s) \<and> is_c_int (d_len s + next_inc g s) \<and> is_c_int (perturbation g + 1)"
    using b len assms(5) by (auto simp: is_c_int_def INT_MAX_def INT_MIN_def)
  with p show ?thesis by (auto simp: round_ints_def Let_def)
qed

theorem round_no_overflow_witness:
  "list_all is_c_int (round_ints init_globals (init_schedule init_globals))"
proof -
  have "sched_inv init_globals (init_schedule init_globals)"
    by (rule sched_inv_init) (simp add: init_globals_def)
  from round_no_overflow [OF this] show ?thesis
    by (simp add: list_all_iff init_globals_def init_schedule_def)
qed

section \<open>Buffers allocated and freed\<close>

text \<open>
  A trace of buffer events is well-nested if no buffers are allocated while some are live,
  and none are initialised or freed unless live; the result is whether some are live at the
  end.
\<close>

fun mem_live :: "bool \<Rightarrow> mem_event list \<Rightarrow> bool option" where
  "mem_live live [] = Some live"
| "mem_live live (Malloc n # es) = (if live then None else mem_live True es)"
| "mem_live live (InitMem n # es) = (if live then mem_live True es else None)"
| "mem_live live (Free # es) = (if live then mem_live False es else None)"

lemma mem_live_append:
  "mem_live l (es @ fs) = Option.bind (mem_live l es) (\<lambda>l'. mem_live l' fs)"
  by (induction l es rule: mem_live.induct) auto

lemma test_points_mem:
  assumes "test_points g tm ps s = Inr s'" and "cache g \<noteq> 0 \<or> disk g \<le> 1"
    and "mem_live False (d_mem s) = Some (cache g = 0)"
  shows "mem_live False (d_mem s') = Some (cache g = 0)"
  using assms(1,3)
proof (induction ps arbitrary: s)
  case (Cons p ps)
  from Cons.prems obtain s1 where 1: "test_point g tm p s = Inr s1"
      and 2: "test_points g tm ps s1 = Inr s'"
    by (auto simp: obind_Inr_iff)
  have "d_mem s1 = d_mem s @ [bufs_for g (d_len s + p)] @ (if cache g \<noteq> 0 then [Free] else [])"
    using test_point_Inr [OF 1] by auto
  then have "mem_live False (d_mem s1) = Some (cache g = 0)"
    using Cons.prems(2) assms(2) by (auto simp: mem_live_append bufs_for_def)
  with Cons.IH 2 show ?case by blast
qed simp

text \<open>
  The send and receive buffers are neither leaked nor freed twice: in cache mode every
  data point allocates them, uses them and frees them; in nocache mode they are allocated once,
  before the main loop, and freed once, after it (the file copy mode of the disk module is run
  with the cache on).
\<close>

theorem buffers_balanced:
  assumes "1 \<le> start g" and "cache g \<noteq> 0 \<or> disk g \<le> 1"
    and "run_schedule fuel g tm = Some (Inr t)"
  shows "mem_live False (d_mem t) = Some False"
proof -
  from assms(3) obtain t' where m: "main_loop fuel g tm (init_schedule g) = Some (Inr t')"
      and t: "t = (if cache g = 0 then t'\<lparr>d_mem := d_mem t' @ [Free]\<rparr> else t')"
    by (auto simp: run_schedule_def)
  let ?P = "\<lambda>s. mem_live False (d_mem s) = Some (cache g = 0)"
  have "?P t' \<and> sched_inv g t' \<and> d_fin t'"
  proof (rule main_loop_rule [OF m, where P = ?P])
    show "sched_inv g (init_schedule g)" using assms(1) by (rule sched_inv_init)
    show "?P (init_schedule g)" by (simp add: init_schedule_def)
  next
    fix s s'
    assume P: "?P s" and r: "size_round g tm s = Some (Inr s')"
    let ?s1 = "s\<lparr>d_inc := next_inc g s\<rparr>"
    from r obtain s2 where "test_points g tm (perts g (next_inc g s)) ?s1 = Inr s2"
        and "d_mem s' = d_mem s2"
      by (auto simp: size_round_eq Let_def finish_round_def)
    with P test_points_mem [OF _ assms(2)] show "?P s'" by fastforce
  qed
  with t show ?thesis by (auto simp: mem_live_append)
qed

theorem buffers_balanced_witness:
  "\<exists>t. run_schedule 13 demo_globals (\<lambda>_ _ _. 1) = Some (Inr t)
     \<and> mem_live False (d_mem t) = Some False"
  using buffers_balanced [of demo_globals 13] demo_schedule_run
  by (fastforce simp: demo_globals_def init_globals_def)

section \<open>Repeat counts\<close>

lemma nrepeat_default:
  assumes "disk g = 0" and "nrepeat_const g = 0" and "nrepeat_for g tlast bl = Inr n"
  shows "3 \<le> n \<and> (tlast > 0 \<longrightarrow> runtime g > 0 \<longrightarrow>
           (real_of_int n - 3) * tlast \<le> runtime g)"
proof -
  let ?q = "runtime g / tlast"
  from assms have n: "n = (if ?q > 3 then \<lfloor>?q\<rfloor> else 3)" and t: "tlast \<noteq> 0"
    by (auto simp: nrepeat_for_def Let_def c_trunc_def split: if_splits)
  have "real_of_int n - 3 \<le> max 0 ?q" using n by (auto simp: max_def) linarith+
  then have "(real_of_int n - 3) * tlast \<le> runtime g" if "tlast > 0" "runtime g > 0"
    using that mult_right_mono [of "real_of_int n - 3" "max 0 ?q" tlast] by (simp add: max_def)
  moreover have "3 \<le> n" using n by (auto simp: le_floor_iff)
  ultimately show ?thesis by blast
qed

end
