(* ===== verification/Args.thy ===== *)
theory Args
  imports Tcp
begin

text \<open>
  The command line of \<open>main()\<close> in \<open>src/netpipe.c\<close>: splitting it into an option and up to two
  values, and the effect of every option.  Options that the core does not know go to the
  module's \<open>Module_ArgOpt\<close>, the interface \<open>np_module\<close>.
\<close>

section \<open>Splitting the command line\<close>

definition dash :: "char \<Rightarrow> bool" where
  "dash c \<longleftrightarrow> c = CHR ''-''"

definition is_option :: "string \<Rightarrow> bool" where
  "is_option s \<longleftrightarrow> s \<noteq> [] \<and> dash (hd s)"

text \<open>The next argument is a value of this option unless it begins with a dash.\<close>

fun take_opt :: "string list \<Rightarrow> string option \<times> string list" where
  "take_opt [] = (None, [])"
| "take_opt (x # xs) = (if is_option x then (None, x # xs) else (Some x, xs))"

lemma take_opt_length: "take_opt as = (v, r) \<Longrightarrow> length r \<le> length as"
  by (cases as) (auto split: if_splits)

section \<open>The options of the core\<close>

definition need_opt :: "string option \<Rightarrow> string \<Rightarrow> (string \<Rightarrow> 'a outcome) \<Rightarrow> 'a outcome" where
  "need_opt v msg k = (case v of None \<Rightarrow> Inl (ErrCheck msg) | Some x \<Rightarrow> k x)"

lemma need_opt_Inr: "need_opt v msg k = Inr y \<longleftrightarrow> (\<exists>x. v = Some x \<and> k x = Inr y)"
  by (simp add: need_opt_def split: option.split)

definition set_workload :: "string option \<Rightarrow> string option \<Rightarrow> globals \<Rightarrow> globals" where
  "set_workload v v2 g =
     (let wt = (case v of None \<Rightarrow> ''matrix'' | Some x \<Rightarrow> x);
          ws = (if v2 = None \<and> wt = ''daxpy'' then 1000
                else if v2 = None \<and> wt = ''memcpy'' then 1000
                else case v2 of Some x \<Rightarrow> atoi x | None \<Rightarrow> 100)
      in g\<lparr>workload := 1, worktype := Some wt, worksize := ws, async := 1, start := 1048576\<rparr>)"

text \<open>
  One option with its values: \<open>Inr None\<close> says that it is not an option of the core.
\<close>

definition core_opt ::
  "string \<Rightarrow> string option \<Rightarrow> string option \<Rightarrow> globals \<Rightarrow> globals option outcome" where
  "core_opt arg v v2 g =
     (if arg = ''help'' \<or> arg = ''h'' then Inl Usage
      else if arg = ''repeats'' \<or> arg = ''repeat'' then
        atoi_opt v (\<lambda>n. Inr (Some (g\<lparr>nrepeat_const := n\<rparr>)))
      else if arg = ''workload'' then Inr (Some (set_workload v v2 g))
      else if arg = ''nocache'' \<or> arg = ''inval'' then Inr (Some (g\<lparr>cache := 0\<rparr>))
      else if arg = ''cache'' then Inr (Some (g\<lparr>cache := 1\<rparr>))
      else if arg = ''burst'' then Inr (Some (g\<lparr>burst := 1, async := 1\<rparr>))
      else if arg = ''soffset'' \<or> arg = ''send_offset'' then
        need_opt v ''No send offset value given'' (\<lambda>x. Inr (Some (g\<lparr>soffset := atoi x\<rparr>)))
      else if arg = ''roffset'' \<or> arg = ''recv_offset'' then
        need_opt v ''No recv offset value given'' (\<lambda>x. Inr (Some (g\<lparr>roffset := atoi x\<rparr>)))
      else if arg = ''perturbation'' \<or> arg = ''pert'' then
        need_opt v ''No perturbation value given'' (\<lambda>x. Inr (Some (g\<lparr>perturbation := atoi x\<rparr>)))
      else if arg = ''factorsof2'' \<or> arg = ''fac2'' then
        Inr (Some (g\<lparr>factors_of_2 := 1, perturbation := 0\<rparr>))
      else if arg = ''quick'' then
        Inr (Some (g\<lparr>ntrials := 3, runtime := 1 / 10, perturbation := 0\<rparr>))
      else if arg = ''quicker'' then
        Inr (Some (g\<lparr>ntrials := 1, runtime := 1 / 10, perturbation := 0\<rparr>))
      else if arg = ''quickest'' then
        Inr (Some (g\<lparr>ntrials := 1, runtime := 1 / 10, perturbation := 0,
          nrepeat_const := (if nrepeat_const g = 0 then 1 else nrepeat_const g)\<rparr>))
      else if arg = ''outfile'' \<or> arg = ''o'' then
        need_opt v ''No output file name given'' (\<lambda>x. Inr (Some (g\<lparr>outfile := x\<rparr>)))
      else if arg = ''stream'' then
        errcheck (bidir g \<noteq> 0) ''You cannot use stream and bidirection together''
          (Inr (Some (g\<lparr>stream := 1\<rparr>)))
      else if arg = ''start'' then
        need_opt v ''No lower bound given'' (\<lambda>x. let s = atoi x in
          errcheck (s < 1 \<or> s > end_size g) ''Lower bound must be positive and less than upper''
            (Inr (Some (g\<lparr>start := s\<rparr>))))
      else if arg = ''end'' then
        need_opt v ''No upper bound given'' (\<lambda>x. let e = atoi x in
          errcheck (e < start g) ''end must greater than start''
            (Inr (Some (g\<lparr>end_size := e\<rparr>))))
      else if arg = ''bidirectional'' \<or> arg = ''bidir'' then
        errcheck (stream g \<noteq> 0) ''You cannot use stream and bidirection together''
          (Inr (Some (g\<lparr>bidir := 1, transmitter := 1\<rparr>)))
      else if arg = ''integrity'' then Inr (Some (g\<lparr>integrityCheck := 1, ntrials := 1\<rparr>))
      else if arg = ''printhostnames'' then Inr (Some g)
      else Inr None)"

text \<open>A module's \<open>Module_ArgOpt\<close> may change its own state and the globals.\<close>

type_synonym 'm arg_opt =
  "string \<Rightarrow> string option \<Rightarrow> globals \<times> 'm \<Rightarrow> (globals \<times> 'm) outcome"

definition one_opt ::
  "'m arg_opt \<Rightarrow> string \<Rightarrow> string option \<Rightarrow> string option \<Rightarrow> globals \<times> 'm
   \<Rightarrow> (globals \<times> 'm) outcome" where
  "one_opt mod_opt arg v v2 st =
     obind (core_opt arg v v2 (fst st)) (\<lambda>r.
       case r of Some g \<Rightarrow> Inr (g, snd st) | None \<Rightarrow> mod_opt arg v st)"

function parse_args ::
  "'m arg_opt \<Rightarrow> string list \<Rightarrow> globals \<times> 'm \<Rightarrow> (globals \<times> 'm) outcome" where
  "parse_args mod_opt [] st = Inr st"
| "parse_args mod_opt (a # as) st =
     (let arg = dropWhile dash a;
          (v, r1) = take_opt as;
          (v2, r2) = take_opt r1
      in obind (one_opt mod_opt arg v v2 st) (parse_args mod_opt r2))"
  by pat_completeness auto
termination
proof (relation "measure (\<lambda>(m, as, st). length as)", goal_cases)
  case (2 m a as st arg p v r1 q v2 r2 st')
  then have "take_opt as = (v, r1)" "take_opt r1 = (v2, r2)" by simp_all
  from take_opt_length [OF this(1)] take_opt_length [OF this(2)] show ?case by simp
qed simp

text \<open>The checks after \<open>Module_Setup\<close>.\<close>

definition check_opts :: "globals \<Rightarrow> globals outcome" where
  "check_opts g =
     errcheck (integrityCheck g \<noteq> 0 \<and> burst g \<noteq> 0)
       ''Integrity check is not supported with burst mode'' (Inr g)"

section \<open>What every option keeps\<close>

text \<open>
  Streaming and bidirectional tests exclude each other, a bidirectional process transmits,
  the workload and the burst mode force asynchronous receives, and at least one trial is run.
\<close>

definition opts_ok :: "globals \<Rightarrow> bool" where
  "opts_ok g \<longleftrightarrow> \<not> (stream g \<noteq> 0 \<and> bidir g \<noteq> 0) \<and> (bidir g \<noteq> 0 \<longrightarrow> transmitter g \<noteq> 0)
     \<and> (workload g \<noteq> 0 \<or> burst g \<noteq> 0 \<longrightarrow> async g \<noteq> 0) \<and> 1 \<le> ntrials g"

lemma set_workload_fields [simp]:
  "stream (set_workload v v2 g) = stream g" "bidir (set_workload v v2 g) = bidir g"
  "transmitter (set_workload v v2 g) = transmitter g" "async (set_workload v v2 g) = 1"
  "ntrials (set_workload v v2 g) = ntrials g" "start (set_workload v v2 g) = 1048576"
  by (simp_all add: set_workload_def Let_def)

lemma atoi_opt_Inr: "atoi_opt v k = Inr y \<longleftrightarrow> (\<exists>x. v = Some x \<and> k (atoi x) = Inr y)"
  by (simp add: atoi_opt_def split: option.split)

lemma if_Inr_keeps:
  "(if c then x else y) = Inr r \<Longrightarrow> (x = Inr r \<Longrightarrow> P) \<Longrightarrow> (y = Inr r \<Longrightarrow> P) \<Longrightarrow> P"
  by (simp split: if_splits)

lemma core_opt_keeps:
  assumes "core_opt arg v v2 g = Inr (Some g')"
  shows "(opts_ok g \<longrightarrow> opts_ok g') \<and> (1 \<le> start g \<longrightarrow> 1 \<le> start g')"
  using assms unfolding core_opt_def
  apply (elim if_Inr_keeps)
  apply (simp_all only: sum.inject sum.distinct option.inject option.distinct need_opt_Inr
      atoi_opt_Inr Let_def errcheck_Inr)
  apply (simp_all add: opts_ok_def)
  apply ((elim exE conjE)?, hypsubst, simp split del: if_split)+
  done

lemma parse_args_invariant:
  assumes "\<And>arg v v2 st st'. one_opt m arg v v2 st = Inr st' \<Longrightarrow> P st \<Longrightarrow> P st'"
    and "parse_args m args st = Inr st'" and "P st"
  shows "P st'"
  using assms
proof (induction m args st rule: parse_args.induct)
  case (1 m st)
  then show ?case by simp
next
  case (2 m a rest st)
  obtain v r1 where v: "take_opt rest = (v, r1)" by fastforce
  obtain v2 r2 where v2: "take_opt r1 = (v2, r2)" by fastforce
  have "obind (one_opt m (dropWhile dash a) v v2 st) (parse_args m r2) = Inr st'"
    using 2(3) v v2 by (simp add: Let_def)
  then obtain st1 where st1: "one_opt m (dropWhile dash a) v v2 st = Inr st1"
      and rest: "parse_args m r2 st1 = Inr st'"
    by (auto simp: obind_Inr_iff)
  have "P st1" by (rule 2(2) [OF st1 2(4)])
  with 2(1) [OF refl v [symmetric] refl v2 [symmetric] refl 2(2) rest] show ?case by simp
qed

text \<open>The contract of a module: its options keep what the core relies on.\<close>

locale np_options =
  fixes mod_opt :: "'m arg_opt"
  assumes keeps_opts: "mod_opt arg v st = Inr st' \<Longrightarrow> opts_ok (fst st) \<Longrightarrow> opts_ok (fst st')"
begin

lemma one_opt_keeps:
  "one_opt mod_opt arg v v2 st = Inr st' \<Longrightarrow> opts_ok (fst st) \<Longrightarrow> opts_ok (fst st')"
  using core_opt_keeps [of arg v v2 "fst st"] keeps_opts [of arg v st st']
  by (auto simp: one_opt_def obind_Inr_iff split: option.splits)

lemma parse_keeps:
  "parse_args mod_opt as st = Inr st' \<Longrightarrow> opts_ok (fst st) \<Longrightarrow> opts_ok (fst st')"
  by (rule parse_args_invariant [where P = "\<lambda>st. opts_ok (fst st)", OF one_opt_keeps])

end

text \<open>Most modules also keep the first message size positive.\<close>

locale np_module = np_options +
  assumes keeps_start: "mod_opt arg v st = Inr st' \<Longrightarrow> 1 \<le> start (fst st) \<Longrightarrow> 1 \<le> start (fst st')"
begin

lemma one_opt_keeps_start:
  "one_opt mod_opt arg v v2 st = Inr st' \<Longrightarrow> 1 \<le> start (fst st) \<Longrightarrow> 1 \<le> start (fst st')"
  using core_opt_keeps [of arg v v2 "fst st"] keeps_start [of arg v st st']
  by (auto simp: one_opt_def obind_Inr_iff split: option.splits)

lemma parse_keeps_start:
  "parse_args mod_opt as st = Inr st' \<Longrightarrow> 1 \<le> start (fst st) \<Longrightarrow> 1 \<le> start (fst st')"
  by (rule parse_args_invariant [where P = "\<lambda>st. 1 \<le> start (fst st)", OF one_opt_keeps_start])

end

text \<open>The TCP module.\<close>

definition tcp_opts :: "tcp arg_opt" where
  "tcp_opts arg v st = map_sum id (\<lambda>t. (fst st, t)) (tcp_ArgOpt arg v (snd st))"

interpretation tcp_args: np_module tcp_opts
  by unfold_locales (auto simp: tcp_opts_def)

end
