(* ===== verification/Mpi.thy ===== *)
theory Mpi
  imports Args Schedule
begin

text \<open>
  The MPI module, \<open>src/mpi.c\<close>: its options, the datatype and the counts of its messages, and
  the tags and request slots of its transfers.  The MPI library is not modelled: an operation
  yields the library call it makes, with its arguments.
\<close>

section \<open>State and options\<close>

record mpi =
  syncSend :: int
  bytes_per :: int
  datasize :: int
  nrepeats :: int
  m_stag :: int
  m_rtag :: int
  m_btag :: int
  slots :: int   \<comment> \<open>length of the array \<open>recvRequest\<close>, 0 for \<open>NULL\<close>\<close>

definition init_mpi :: mpi where
  "init_mpi = \<lparr>syncSend = 0, bytes_per = 1, datasize = 1, nrepeats = 100, m_stag = 0,
     m_rtag = 0, m_btag = 0, slots = 0\<rparr>"

definition mpi_Init :: "int \<Rightarrow> int \<Rightarrow> globals \<times> mpi \<Rightarrow> globals \<times> mpi" where
  "mpi_Init rank n st =
     ((fst st)\<lparr>myproc := rank, nprocs := n, async := 0, source := 0\<rparr>, (snd st)\<lparr>syncSend := 0\<rparr>)"

text \<open>
  \<open>strcmp\<close> returns 0 for equal strings, and a positive number if the first is the larger one
  in the order of its characters; which positive or negative number is the library's choice.
\<close>

fun str_less :: "string \<Rightarrow> string \<Rightarrow> bool" where
  "str_less [] ys = (ys \<noteq> [])"
| "str_less (x # xs) [] = False"
| "str_less (x # xs) (y # ys) =
     (if x = y then str_less xs ys else (of_char x :: nat) < of_char y)"

definition strcmp_law :: "(string \<Rightarrow> string \<Rightarrow> int) \<Rightarrow> bool" where
  "strcmp_law cmp \<longleftrightarrow> (\<forall>s t. (cmp s t = 0 \<longleftrightarrow> s = t) \<and> (0 < cmp s t \<longleftrightarrow> str_less t s))"

definition c_not :: "int \<Rightarrow> int" where
  "c_not x = - x - 1"

text \<open>The test for the option \<open>double\<close> is \<open>~strcmp( arg, "double")\<close>, with a tilde.\<close>

definition mpi_ArgOpt ::
  "(string \<Rightarrow> string \<Rightarrow> int) \<Rightarrow> int \<Rightarrow> mpi arg_opt" where
  "mpi_ArgOpt cmp any_source arg v st =
     (let (g, m) = st in
      if arg = ''async'' \<or> arg = ''asynchronous'' then Inr (g\<lparr>async := 1\<rparr>, m)
      else if arg = ''syncSend'' \<or> arg = ''sync'' then Inr (g, m\<lparr>syncSend := 1\<rparr>)
      else if arg = ''anysource'' then Inr (g\<lparr>source := any_source\<rparr>, m)
      else if arg = ''doubles'' \<or> c_not (cmp arg ''double'') \<noteq> 0 then
        (let s1 = round_up 8 (start g); s2 = (if s1 < 16 then 16 else s1)
         in Inr (g\<lparr>perturbation := 0, start := s2, end_size := round_up 8 (end_size g)\<rparr>,
                 m\<lparr>datasize := 8, bytes_per := 8\<rparr>))
      else Inl Usage)"

definition mpi_Setup :: "globals \<times> mpi \<Rightarrow> globals \<times> mpi" where
  "mpi_Setup st = ((fst st)\<lparr>async := 1\<rparr>, (snd st)\<lparr>slots := 1\<rparr>)"

lemma mpi_ArgOpt_keeps:
  assumes "mpi_ArgOpt cmp any_source arg v (g, m) = Inr st'"
  shows "(opts_ok g \<longrightarrow> opts_ok (fst st')) \<and> (1 \<le> start g \<longrightarrow> 1 \<le> start (fst st'))"
  using assms unfolding mpi_ArgOpt_def Let_def prod.case
  apply (elim if_Inr_keeps)
  apply (simp_all only: sum.inject sum.distinct)
  apply (hypsubst, simp add: opts_ok_def)+
  done

interpretation mpi_args: np_module "mpi_ArgOpt cmp any_source" for cmp any_source
proof unfold_locales
  fix arg v and st st' :: "globals \<times> mpi"
  assume st': "mpi_ArgOpt cmp any_source arg v st = Inr st'"
  obtain g m where st: "st = (g, m)" by fastforce
  note keeps = mpi_ArgOpt_keeps [OF st' [unfolded st]]
  show "opts_ok (fst st')" if "opts_ok (fst st)" using keeps that st by simp
  show "1 \<le> start (fst st')" if "1 \<le> start (fst st)" using keeps that st by simp
qed

section \<open>Transfers\<close>

datatype mpi_type = MPI_BYTE | MPI_DOUBLE

fun type_size :: "mpi_type \<Rightarrow> int" where
  "type_size MPI_BYTE = 1"
| "type_size MPI_DOUBLE = 8"

datatype mpi_call =
    Send bool ptr int mpi_type int int  \<comment> \<open>synchronous?, buffer, count, type, destination, tag\<close>
  | Irecv ptr int mpi_type int int int  \<comment> \<open>buffer, count, type, source, tag, request slot\<close>
  | Recv ptr int mpi_type int int       \<comment> \<open>buffer, count, type, source, tag\<close>
  | Wait int                            \<comment> \<open>request slot\<close>
  | Test int

definition type_of :: "mpi \<Rightarrow> mpi_type" where
  "type_of m = (if datasize m = 1 then MPI_BYTE else MPI_DOUBLE)"

definition nelements :: "int \<Rightarrow> mpi \<Rightarrow> int" where
  "nelements buflen m = c_div buflen (bytes_per m)"

text \<open>The next tag; a remainder by zero is undefined.\<close>

definition next_tag :: "mpi \<Rightarrow> int \<Rightarrow> int outcome" where
  "next_tag m t = (if nrepeats m = 0 then Inl DivByZero else Inr (c_mod (t + 1) (nrepeats m)))"

definition mpi_SendData :: "globals \<Rightarrow> int \<Rightarrow> ptr \<Rightarrow> mpi \<Rightarrow> (mpi_call \<times> mpi) outcome" where
  "mpi_SendData g buflen s m =
     obind (next_tag m (m_stag m)) (\<lambda>t.
       Inr (Send (syncSend m \<noteq> 0) s (nelements buflen m) (type_of m) (mypair g) (m_stag m),
            m\<lparr>m_stag := t\<rparr>))"

definition slot_of :: "globals \<Rightarrow> mpi \<Rightarrow> int" where
  "slot_of g m = (if burst g \<noteq> 0 then m_rtag m else 0)"

definition in_slots :: "int \<Rightarrow> mpi \<Rightarrow> 'a outcome \<Rightarrow> 'a outcome" where
  "in_slots i m k = (if 0 \<le> i \<and> i < slots m then k else Inl OutOfBounds)"

definition mpi_PrepostRecv :: "globals \<Rightarrow> int \<Rightarrow> ptr \<Rightarrow> mpi \<Rightarrow> (mpi_call \<times> mpi) outcome" where
  "mpi_PrepostRecv g buflen r m =
     in_slots (slot_of g m) m
       (obind (next_tag m (m_rtag m)) (\<lambda>t.
          Inr (Irecv r (nelements buflen m) (type_of m) (source g) (m_rtag m) (slot_of g m),
               m\<lparr>m_rtag := t\<rparr>)))"

definition mpi_RecvData :: "globals \<Rightarrow> int \<Rightarrow> ptr \<Rightarrow> mpi \<Rightarrow> (mpi_call \<times> mpi) outcome" where
  "mpi_RecvData g buflen r m =
     (if async g \<noteq> 0 then
        in_slots (slot_of g m) m
         (if burst g \<noteq> 0 then
            obind (next_tag m (m_rtag m)) (\<lambda>t. Inr (Wait (m_rtag m), m\<lparr>m_rtag := t\<rparr>))
          else Inr (Wait 0, m))
      else
        obind (next_tag m (m_rtag m)) (\<lambda>t.
          Inr (Recv r (nelements buflen m) (type_of m) (source g) (m_rtag m), m\<lparr>m_rtag := t\<rparr>)))"

definition mpi_TestForCompletion :: "globals \<Rightarrow> mpi \<Rightarrow> mpi_call outcome" where
  "mpi_TestForCompletion g m = in_slots (slot_of g m) m (Inr (Test (slot_of g m)))"

text \<open>\<open>Broadcast\<close> of the value \<open>n\<close> that process 0 has; \<open>alloc\<close>: \<open>malloc\<close> succeeds.\<close>

definition mpi_Broadcast :: "globals \<Rightarrow> bool \<Rightarrow> int \<Rightarrow> mpi \<Rightarrow> mpi outcome" where
  "mpi_Broadcast g alloc n m =
     (let m1 = m\<lparr>nrepeats := n\<rparr> in
      obind (if burst g \<noteq> 0
             then errcheck (\<not> alloc) ''Could not malloc recvRequest'' (Inr (m1\<lparr>slots := n\<rparr>))
             else Inr m1)
        (\<lambda>m2. Inr (m2\<lparr>m_stag := 0, m_rtag := 0, m_btag := n\<rparr>)))"

text \<open>The same operation \<open>k\<close> times, at the given buffers, and the calls it makes.\<close>

fun repeat_op :: "(ptr \<Rightarrow> 's \<Rightarrow> ('e \<times> 's) outcome) \<Rightarrow> ptr list \<Rightarrow> 's \<Rightarrow> ('e list \<times> 's) outcome" where
  "repeat_op f [] s = Inr ([], s)"
| "repeat_op f (p # ps) s =
     obind (f p s) (\<lambda>(e, s1). obind (repeat_op f ps s1) (\<lambda>(es, s2). Inr (e # es, s2)))"

lemma repeat_op_tags:
  assumes "\<And>p i. f p (st i) = Inr (ev p i, st (i + 1))"
  shows "repeat_op f ps (st (i::nat)) =
    Inr (map (\<lambda>k. ev (ps ! k) (i + k)) [0..<length ps], st (i + length ps))"
proof (induction ps arbitrary: i)
  case (Cons p ps)
  have "map (\<lambda>k. ev ((p # ps) ! k) (i + k)) [0..<Suc (length ps)]
      = ev p i # map (\<lambda>k. ev (ps ! k) (Suc i + k)) [0..<length ps]"
    by (simp add: upt_rec [of 0 "Suc _"] map_Suc_upt [symmetric] del: upt_Suc)
  with Cons [of "Suc i"] assms [of p i] show ?case by simp
qed simp

section \<open>Tags and request slots of a trial\<close>

text \<open>The three operations as functions of the number of times they have been called.\<close>

lemma c_mod_Suc: "0 < n \<Longrightarrow> c_mod (int (i mod n) + 1) (int n) = int (Suc i mod n)"
  by (simp add: zmod_int mod_add_right_eq add.commute)

lemma SendData_step:
  assumes "nrepeats m = int n" and "0 < n"
  shows "mpi_SendData g bl p (m\<lparr>m_stag := int (i mod n)\<rparr>) =
    Inr (Send (syncSend m \<noteq> 0) p (nelements bl m) (type_of m) (mypair g) (int (i mod n)),
         m\<lparr>m_stag := int (Suc i mod n)\<rparr>)"
  using assms c_mod_Suc [of n i]
  by (simp add: mpi_SendData_def next_tag_def nelements_def type_of_def del: c_mod_nonneg)

lemma PrepostRecv_step:
  assumes "nrepeats m = int n" and "0 < n" and "slots m = (if burst g \<noteq> 0 then int n else 1)"
  shows "mpi_PrepostRecv g bl p (m\<lparr>m_rtag := int (i mod n)\<rparr>) =
    Inr (Irecv p (nelements bl m) (type_of m) (source g) (int (i mod n))
           (if burst g \<noteq> 0 then int (i mod n) else 0),
         m\<lparr>m_rtag := int (Suc i mod n)\<rparr>)"
  using assms c_mod_Suc [of n i]
  by (simp add: mpi_PrepostRecv_def next_tag_def nelements_def type_of_def slot_of_def in_slots_def
      del: c_mod_nonneg)

lemma RecvData_burst_step:
  assumes "nrepeats m = int n" and "0 < n" and "slots m = int n" and "burst g \<noteq> 0"
    and "async g \<noteq> 0"
  shows "mpi_RecvData g bl p (m\<lparr>m_rtag := int (i mod n)\<rparr>) =
    Inr (Wait (int (i mod n)), m\<lparr>m_rtag := int (Suc i mod n)\<rparr>)"
  using assms c_mod_Suc [of n i]
  by (simp add: mpi_RecvData_def next_tag_def slot_of_def in_slots_def del: c_mod_nonneg)

text \<open>
  Burst mode keeps its requests apart: after a \<open>Broadcast\<close> of \<open>n\<close> repeats, the \<open>n\<close>
  preposted receives use the tags \<open>0..n-1\<close> and the request slots \<open>0..n-1\<close>, all inside the
  allocation; the \<open>n\<close> receives of the timed loop wait for these slots in that order; the
  partner's \<open>n\<close> sends carry the same tags; and every counter is back at 0 for the next trial.
\<close>

theorem mpi_burst_trial:
  assumes "mpi_Broadcast g alloc (int n) m0 = Inr m" and "burst g \<noteq> 0" and "async g \<noteq> 0"
    and "0 < n" and "length ps = n"
  shows "repeat_op (mpi_PrepostRecv g bl) ps m =
      Inr (map (\<lambda>j. Irecv (ps ! j) (nelements bl m) (type_of m) (source g) (int j) (int j)) [0..<n], m)
    \<and> repeat_op (mpi_RecvData g bl) ps m = Inr (map (\<lambda>j. Wait (int j)) [0..<n], m)
    \<and> repeat_op (mpi_SendData g bl) ps m =
      Inr (map (\<lambda>j. Send (syncSend m \<noteq> 0) (ps ! j) (nelements bl m) (type_of m) (mypair g) (int j))
             [0..<n], m)"
proof -
  from assms(1,2) have m: "nrepeats m = int n" "slots m = int n" "m_stag m = 0" "m_rtag m = 0"
    by (auto simp: mpi_Broadcast_def Let_def obind_Inr_iff)
  have eq: "m\<lparr>m_rtag := 0\<rparr> = m" "m\<lparr>m_stag := 0\<rparr> = m" using m by simp_all
  note seq = repeat_op_tags [where i = 0 and ps = ps]
  have "repeat_op (mpi_PrepostRecv g bl) ps (m\<lparr>m_rtag := int (0 mod n)\<rparr>) =
      Inr (map (\<lambda>j. Irecv (ps ! j) (nelements bl m) (type_of m) (source g) (int ((0 + j) mod n))
             (int ((0 + j) mod n))) [0..<length ps], m\<lparr>m_rtag := int ((0 + length ps) mod n)\<rparr>)"
    by (rule seq [where st = "\<lambda>i. m\<lparr>m_rtag := int (i mod n)\<rparr>"])
      (use PrepostRecv_step [of m n g bl] m assms(2,4) in simp)
  moreover have "repeat_op (mpi_RecvData g bl) ps (m\<lparr>m_rtag := int (0 mod n)\<rparr>) =
      Inr (map (\<lambda>j. Wait (int ((0 + j) mod n))) [0..<length ps],
           m\<lparr>m_rtag := int ((0 + length ps) mod n)\<rparr>)"
    by (rule seq [where st = "\<lambda>i. m\<lparr>m_rtag := int (i mod n)\<rparr>"])
      (use RecvData_burst_step [of m n g bl] m assms(2-4) in simp)
  moreover have "repeat_op (mpi_SendData g bl) ps (m\<lparr>m_stag := int (0 mod n)\<rparr>) =
      Inr (map (\<lambda>j. Send (syncSend m \<noteq> 0) (ps ! j) (nelements bl m) (type_of m) (mypair g)
             (int ((0 + j) mod n))) [0..<length ps], m\<lparr>m_stag := int ((0 + length ps) mod n)\<rparr>)"
    by (rule seq [where st = "\<lambda>i. m\<lparr>m_stag := int (i mod n)\<rparr>"])
      (use SendData_step [of m n g bl] m assms(4) in simp)
  ultimately show ?thesis using assms(5) by (simp add: eq)
qed

theorem mpi_burst_trial_witness:
  "\<exists>m. mpi_Broadcast (init_globals\<lparr>burst := 1, async := 1\<rparr>) True 3 init_mpi = Inr m
     \<and> repeat_op (mpi_RecvData (init_globals\<lparr>burst := 1, async := 1\<rparr>) 8) [64, 72, 80] m
         = Inr ([Wait 0, Wait 1, Wait 2], m)"
proof -
  let ?g = "init_globals\<lparr>burst := 1, async := 1\<rparr>"
  obtain m where m: "mpi_Broadcast ?g True (int 3) init_mpi = Inr m"
    by (simp add: mpi_Broadcast_def errcheck_def Let_def)
  from mpi_burst_trial [OF m, of "[64, 72, 80]" 8]
  have "repeat_op (mpi_RecvData ?g 8) [64, 72, 80] m = Inr ([Wait 0, Wait 1, Wait 2], m)"
    by (simp add: init_globals_def upt_rec)
  with m show ?thesis by auto
qed

text \<open>
  Outside burst mode the \<open>k\<close>-th receive that a process posts has the tag of the \<open>k\<close>-th
  message its partner sends, for any number of messages in flight and over any number of
  repeats, and all of them use the one request slot that is allocated.
\<close>

theorem mpi_tags_in_step:
  assumes "nrepeats m = int n" and "0 < n" and "m_stag m = 0" and "m_rtag m = 0" and "slots m = 1"
    and "burst g = 0" and "length ps = length qs"
  shows "\<exists>m1 m2. repeat_op (mpi_PrepostRecv g bl) ps m =
      Inr (map (\<lambda>k. Irecv (ps ! k) (nelements bl m) (type_of m) (source g) (int (k mod n)) 0)
             [0..<length ps], m1)
    \<and> repeat_op (mpi_SendData g bl) qs m =
      Inr (map (\<lambda>k. Send (syncSend m \<noteq> 0) (qs ! k) (nelements bl m) (type_of m) (mypair g)
             (int (k mod n))) [0..<length ps], m2)
    \<and> m_rtag m1 = m_stag m2"
proof -
  note seq = repeat_op_tags [where i = 0]
  have eq: "m\<lparr>m_rtag := 0\<rparr> = m" "m\<lparr>m_stag := 0\<rparr> = m" using assms(3,4) by simp_all
  have "repeat_op (mpi_PrepostRecv g bl) ps (m\<lparr>m_rtag := int (0 mod n)\<rparr>) =
      Inr (map (\<lambda>k. Irecv (ps ! k) (nelements bl m) (type_of m) (source g) (int ((0 + k) mod n)) 0)
             [0..<length ps], m\<lparr>m_rtag := int ((0 + length ps) mod n)\<rparr>)"
    by (rule seq [where st = "\<lambda>i. m\<lparr>m_rtag := int (i mod n)\<rparr>"])
      (use PrepostRecv_step [of m n g bl] assms in simp)
  moreover have "repeat_op (mpi_SendData g bl) qs (m\<lparr>m_stag := int (0 mod n)\<rparr>) =
      Inr (map (\<lambda>k. Send (syncSend m \<noteq> 0) (qs ! k) (nelements bl m) (type_of m) (mypair g)
             (int ((0 + k) mod n))) [0..<length qs], m\<lparr>m_stag := int ((0 + length qs) mod n)\<rparr>)"
    by (rule seq [where st = "\<lambda>i. m\<lparr>m_stag := int (i mod n)\<rparr>"])
      (use SendData_step [of m n g bl] assms in simp)
  ultimately show ?thesis using assms(7) by (simp add: eq)
qed

theorem mpi_tags_in_step_witness:
  "\<exists>m. mpi_Broadcast init_globals True 2 (init_mpi\<lparr>slots := 1\<rparr>) = Inr m
     \<and> (\<exists>m1. repeat_op (mpi_PrepostRecv init_globals 5) [64, 96, 64] m
          = Inr ([Irecv 64 5 MPI_BYTE 0 0 0, Irecv 96 5 MPI_BYTE 0 1 0, Irecv 64 5 MPI_BYTE 0 0 0], m1))"
proof -
  obtain m where m: "mpi_Broadcast init_globals True 2 (init_mpi\<lparr>slots := 1\<rparr>) = Inr m"
    by (simp add: mpi_Broadcast_def Let_def init_globals_def)
  then have "nrepeats m = int 2" "m_stag m = 0" "m_rtag m = 0" "slots m = 1" "datasize m = 1"
      "bytes_per m = 1"
    by (auto simp: mpi_Broadcast_def Let_def init_globals_def init_mpi_def)
  note props = this
  have g: "burst init_globals = 0" "source init_globals = 0" by (simp_all add: init_globals_def)
  from mpi_tags_in_step [OF props(1) _ props(2,3,4) g(1), of "[64, 96, 64]" "[64, 96, 64]" 5]
  obtain m1 where "repeat_op (mpi_PrepostRecv init_globals 5) [64, 96, 64] m =
      Inr (map (\<lambda>k. Irecv ([64, 96, 64] ! k) (nelements 5 m) (type_of m) (source init_globals)
             (int (k mod 2)) 0) [0..<length [64, 96, 64 :: int]], m1)"
    by (auto simp del: repeat_op.simps)
  then have "repeat_op (mpi_PrepostRecv init_globals 5) [64, 96, 64] m =
      Inr ([Irecv 64 5 MPI_BYTE 0 0 0, Irecv 96 5 MPI_BYTE 0 1 0, Irecv 64 5 MPI_BYTE 0 0 0], m1)"
    using props g by (simp add: upt_rec nelements_def type_of_def c_div_def del: repeat_op.simps)
  with m show ?thesis by (auto simp del: repeat_op.simps)
qed

section \<open>Doubles\<close>

text \<open>A message of \<open>buflen\<close> bytes is complete if the count of its elements covers it.\<close>

definition bytes_sent :: "int \<Rightarrow> mpi \<Rightarrow> int" where
  "bytes_sent buflen m = nelements buflen m * type_size (type_of m)"

lemma sizes_multiple_rule:
  assumes "run_schedule fuel g tm = Some (Inr t)" and "k dvd start g"
    and "0 < start g" and "k dvd (if start g > 1 then start g div 2 else 1)" and "perturbation g = 0"
  shows "\<forall>bl \<in> set (sizes t). k dvd bl"
proof -
  from assms(1) obtain t' where m: "main_loop fuel g tm (init_schedule g) = Some (Inr t')"
      and t: "sizes t = sizes t'"
    by (auto simp: run_schedule_def sizes_def)
  have "(k dvd d_len t' \<and> k dvd d_inc t' \<and> (\<forall>bl \<in> set (sizes t'). k dvd bl)) \<and> sched_inv g t' \<and> d_fin t'"
  proof (rule main_loop_rule [OF m])
    show "sched_inv g (init_schedule g)" using assms(3) by (intro sched_inv_init) simp
    show "k dvd d_len (init_schedule g) \<and> k dvd d_inc (init_schedule g)
        \<and> (\<forall>bl \<in> set (sizes (init_schedule g)). k dvd bl)"
      using assms(2,3,4) by (auto simp: init_schedule_def sizes_def split: if_splits)
    fix s s'
    assume s: "sched_inv g s" "k dvd d_len s \<and> k dvd d_inc s \<and> (\<forall>bl \<in> set (sizes s). k dvd bl)"
      "size_round g tm s = Some (Inr s')"
    have "k dvd next_inc g s" using s(2) by (simp add: next_inc_def)
    moreover have "perts g (next_inc g s) = [0]" by (simp add: perts_def perturbed_def assms(5))
    ultimately show "k dvd d_len s' \<and> k dvd d_inc s' \<and> (\<forall>bl \<in> set (sizes s'). k dvd bl)"
      using size_round_Inr [OF s(1,3)] s(2) by (simp add: sizes_def ball_Un)
  qed
  with t show ?thesis by simp
qed

lemma sizes_positive:
  assumes "run_schedule fuel g tm = Some (Inr t)" and "1 \<le> start g"
  shows "\<forall>bl \<in> set (sizes t). 1 \<le> bl"
proof (rule run_schedule_sizes_rule [OF assms])
  fix s
  assume s: "sched_inv g s" and old: "\<forall>bl \<in> set (sizes s). 1 \<le> bl"
  have "1 \<le> d_len s + p" if "p \<in> set (perts g (next_inc g s))" for p
    using perts_bounds [OF that] next_inc_bounds [OF s] by linarith
  with old show "\<forall>bl \<in> set (sizes s @ map (\<lambda>p. d_len s + p) (perts g (next_inc g s))). 1 \<le> bl"
    by auto
qed simp

text \<open>
  With \<open>--doubles\<close> and the default start, or any start that is a multiple of 16, every
  message is transferred whole: each tested size is a number of whole doubles.
\<close>

theorem mpi_doubles_whole:
  assumes "mpi_ArgOpt cmp any_source ''doubles'' v (g, m) = Inr (g', m')"
    and "start g \<le> 16 \<or> 16 dvd start g" and "1 \<le> start g"
    and "run_schedule fuel g' tm = Some (Inr t)" and "bl \<in> set (sizes t)"
  shows "bytes_sent bl m' = bl"
proof -
  have g': "perturbation g' = 0" "start g' = (if round_up 8 (start g) < 16 then 16 else round_up 8 (start g))"
      "bytes_per m' = 8" "datasize m' = 8"
    using assms(1) by (auto simp: mpi_ArgOpt_def Let_def)
  have "16 dvd start g'"
  proof (cases "start g \<le> 16")
    case True
    have "8 dvd round_up 8 (start g)" "round_up 8 (start g) < 24"
      using round_up_dvd [of 8 "start g"] round_up_less [of 8 "start g"] assms(3) True by simp_all
    then have "round_up 8 (start g) \<le> 16" by presburger
    then show ?thesis unfolding g'(2) by (cases "round_up 8 (start g) = 16") auto
  next
    case False
    with assms(2) have d: "16 dvd start g" by simp
    then have "8 dvd start g" by (rule dvd_trans [rotated]) simp
    then have "round_up 8 (start g) = start g" using assms(3) by (simp add: round_up_def)
    with False d show ?thesis unfolding g'(2) by simp
  qed
  then obtain q where q: "start g' = 16 * q" by (elim dvdE)
  have pos: "0 < start g'" unfolding g'(2)
    using round_up_ge [of 8 "start g"] assms(3) by auto
  have "\<forall>bl \<in> set (sizes t). 8 dvd bl"
    by (rule sizes_multiple_rule [OF assms(4) _ pos _ g'(1)]) (use q pos in simp_all)
  moreover have "\<forall>bl \<in> set (sizes t). 1 \<le> bl"
    using sizes_positive [OF assms(4)] pos by simp
  ultimately have "8 dvd bl" "1 \<le> bl" using assms(5) by auto
  then show ?thesis using g' by (auto simp: bytes_sent_def nelements_def type_of_def)
qed

definition demo_doubles :: globals where
  "demo_doubles = init_globals\<lparr>perturbation := 0, start := 16, end_size := 40, nrepeat_const := 5\<rparr>"

lemma demo_doubles_run:
  "map_option (map_sum id sizes) (run_schedule 30 demo_doubles (\<lambda>_ _ _. 1))
     = Some (Inr [16, 24, 32])"
  by code_simp

theorem mpi_doubles_whole_witness:
  "bytes_sent 24 (init_mpi\<lparr>datasize := 8, bytes_per := 8\<rparr>) = 24"
proof -
  have opt: "mpi_ArgOpt (\<lambda>s t. 0) (-1) ''doubles'' None
      (init_globals\<lparr>end_size := 40, nrepeat_const := 5\<rparr>, init_mpi)
      = Inr (demo_doubles, init_mpi\<lparr>datasize := 8, bytes_per := 8\<rparr>)"
    by (simp add: mpi_ArgOpt_def demo_doubles_def init_globals_def round_up_def Let_def)
  obtain t where "run_schedule 30 demo_doubles (\<lambda>_ _ _. 1) = Some (Inr t)" "sizes t = [16, 24, 32]"
    using demo_doubles_run by (auto simp del: run_schedule_def)
  from mpi_doubles_whole [OF opt _ _ this(1), of 24] this(2) show ?thesis
    by (simp add: init_globals_def)
qed

text \<open>
  With another start the tail of a message is never sent: \<open>--start 24 --doubles\<close> tests a
  size that is not a number of doubles, the count is rounded down, and the last byte that the
  receiver checks is not among the bytes transferred.
\<close>

theorem mpi_doubles_short:
  "\<exists>g m t bl. mpi_ArgOpt cmp any_source ''doubles'' None
        (init_globals\<lparr>start := 24, end_size := 40, nrepeat_const := 5\<rparr>, init_mpi) = Inr (g, m)
     \<and> run_schedule 30 g (\<lambda>_ _ _. 1) = Some (Inr t) \<and> bl \<in> set (sizes t)
     \<and> bytes_sent bl m < bl"
proof -
  let ?g = "init_globals\<lparr>perturbation := 0, start := 24, end_size := 40, nrepeat_const := 5\<rparr>"
  let ?m = "init_mpi\<lparr>datasize := 8, bytes_per := 8\<rparr>"
  have "map_option (map_sum id sizes) (run_schedule 30 ?g (\<lambda>_ _ _. 1)) = Some (Inr [24, 36])"
    by code_simp
  then obtain t where t: "run_schedule 30 ?g (\<lambda>_ _ _. 1) = Some (Inr t)" "sizes t = [24, 36]"
    by (auto simp del: run_schedule_def)
  have "mpi_ArgOpt cmp any_source ''doubles'' None
      (init_globals\<lparr>start := 24, end_size := 40, nrepeat_const := 5\<rparr>, init_mpi) = Inr (?g, ?m)"
    by (simp add: mpi_ArgOpt_def init_globals_def round_up_def Let_def)
  moreover have "bytes_sent 36 ?m < 36"
    by (simp add: bytes_sent_def nelements_def type_of_def init_mpi_def)
  ultimately show ?thesis using t by fastforce
qed

text \<open>
  A misspelt option is not refused: because of the tilde, every argument that sorts after
  \<open>double\<close> and is not an option of its own is taken for \<open>--doubles\<close>, whatever positive number
  the library's \<open>strcmp\<close> returns.
\<close>

theorem mpi_accepts_unknown:
  assumes "strcmp_law cmp" and "str_less ''double'' arg"
    and "arg \<notin> {''sync'', ''syncSend''}"
  shows "mpi_ArgOpt cmp any_source arg v st = mpi_ArgOpt cmp any_source ''doubles'' None st"
proof -
  have "0 < cmp arg ''double''" using assms(1,2) by (simp add: strcmp_law_def)
  then have "c_not (cmp arg ''double'') \<noteq> 0" by (simp add: c_not_def)
  moreover have "arg \<noteq> ''async''" "arg \<noteq> ''asynchronous''" "arg \<noteq> ''anysource''"
    using assms(2) by auto
  ultimately show ?thesis using assms(3) by (simp add: mpi_ArgOpt_def)
qed

definition demo_cmp :: "string \<Rightarrow> string \<Rightarrow> int" where
  "demo_cmp s t = (if s = t then 0 else if str_less t s then 7 else - 7)"

theorem mpi_accepts_unknown_witness:
  "mpi_ArgOpt demo_cmp (-1) ''no-such-option'' None (init_globals, init_mpi)
     = mpi_ArgOpt demo_cmp (-1) ''doubles'' None (init_globals, init_mpi)"
proof (rule mpi_accepts_unknown)
  have irrefl: "\<not> str_less s s" for s by (induction s) auto
  show "strcmp_law demo_cmp" by (auto simp: strcmp_law_def demo_cmp_def irrefl)
qed simp_all

text \<open>
  The asynchronous mode is not an option: \<open>Module_Setup\<close> turns it on for every run, so no
  message is ever received with \<open>MPI_Recv\<close>.
\<close>

theorem mpi_always_async:
  assumes "mpi_Setup st = (g, m)" and "mpi_RecvData g bl r m' = Inr (call, m'')"
  shows "\<exists>i. call = Wait i"
  using assms by (auto simp: mpi_Setup_def mpi_RecvData_def in_slots_def obind_Inr_iff split: if_splits)

theorem mpi_always_async_witness:
  "\<exists>g m call m'. mpi_Setup (init_globals, init_mpi) = (g, m)
     \<and> mpi_RecvData g 100 64 m = Inr (call, m') \<and> (\<exists>i. call = Wait i)"
proof -
  obtain g m where s: "mpi_Setup (init_globals, init_mpi) = (g, m)" by fastforce
  then obtain call m' where "mpi_RecvData g 100 64 m = Inr (call, m')"
    by (auto simp: mpi_Setup_def mpi_RecvData_def in_slots_def slot_of_def init_globals_def)
  with mpi_always_async [OF s this] s show ?thesis by blast
qed

end
