(* ===== verification/Theo.thy ===== *)
theory Theo
  imports Args Complex_Main
begin

text \<open>
  The theoretical module, \<open>src/theo.c\<close>: a performance curve computed from a latency, a maximum
  rate and the packets of the medium.  Doubles are reals.
\<close>

section \<open>Options\<close>

text \<open>\<open>atof\<close>: a sign, digits with a decimal point, and an exponent.\<close>

definition pow10 :: "int \<Rightarrow> real \<Rightarrow> real" where
  "pow10 e x = (if 0 \<le> e then x * 10 ^ nat e else x / 10 ^ nat (- e))"

definition atof_abs :: "string \<Rightarrow> real" where
  "atof_abs s =
     (let ip = takeWhile is_digit s; r = dropWhile is_digit s;
          (fp, r2) = (case r of
             [] \<Rightarrow> ([], [])
           | c # cs \<Rightarrow> if c = CHR ''.'' then (takeWhile is_digit cs, dropWhile is_digit cs)
                      else ([], c # cs));
          m = real_of_int (atoi_digits 0 (ip @ fp)) / 10 ^ length fp
      in case r2 of
           [] \<Rightarrow> m
         | c # cs \<Rightarrow> if c = CHR ''e'' \<or> c = CHR ''E'' then pow10 (atoi cs) m else m)"

definition atof :: "string \<Rightarrow> real" where
  "atof s = (case dropWhile is_space s of
     [] \<Rightarrow> 0
   | c # cs \<Rightarrow> if c = CHR ''-'' then - atof_abs cs
              else if c = CHR ''+'' then atof_abs cs
              else atof_abs (c # cs))"

record theo =
  maxrate :: real
  latency :: real
  mtu :: int
  nheader :: int
  rendezvous :: int
  max_inline :: int
  alliance :: int
  mellanox :: int

definition init_theo :: theo where
  "init_theo = \<lparr>maxrate = 0, latency = 0, mtu = 0, nheader = 0, rendezvous = 1000000000,
     max_inline = 1000000000, alliance = 0, mellanox = 0\<rparr>"

definition theo_Init :: "globals \<Rightarrow> globals" where
  "theo_Init g = g\<lparr>myproc := 0, nprocs := 1, stream := 1, nrepeat_const := 1, ntrials := 1,
     module := ''theo''\<rparr>"

definition theo_ArgOpt :: "string \<Rightarrow> string option \<Rightarrow> theo \<Rightarrow> theo outcome" where
  "theo_ArgOpt arg v t =
     (if arg = ''maxrate'' then
        need_opt v ''No max theoretical rate was given!'' (\<lambda>x. Inr (t\<lparr>maxrate := atof x\<rparr>))
      else if arg = ''latency'' then
        need_opt v ''No latency was given!'' (\<lambda>x. Inr (t\<lparr>latency := atof x\<rparr>))
      else if arg = ''ethernet'' \<or> arg = ''E'' then
        Inr (t\<lparr>nheader := 42, mtu := (if mtu t = 0 then 1500 else mtu t)\<rparr>)
      else if arg = ''infiniband'' \<or> arg = ''IB'' then
        Inr (t\<lparr>mtu := (if mtu t = 0 then 4096 else mtu t), nheader := 34\<rparr>)
      else if arg = ''alliance'' then Inr (t\<lparr>alliance := 1\<rparr>)
      else if arg = ''mellanox'' then Inr (t\<lparr>mellanox := 1\<rparr>)
      else if arg = ''roce'' then
        Inr (t\<lparr>mtu := (if mtu t = 0 then 4096 else mtu t), nheader := 74\<rparr>)
      else if arg = ''mtu'' \<or> arg = ''MTU'' then
        need_opt v ''No MTU size was given!'' (\<lambda>x. Inr (t\<lparr>mtu := atoi x\<rparr>))
      else if arg = ''inline'' then
        need_opt v ''No max inline value was given!'' (\<lambda>x. Inr (t\<lparr>max_inline := atoi x\<rparr>))
      else if arg = ''rendezvous'' \<or> arg = ''MTU'' then
        need_opt v ''No rendezvous threshold was given!'' (\<lambda>x. Inr (t\<lparr>rendezvous := atoi x\<rparr>))
      else Inl Usage)"

definition theo_opts :: "theo arg_opt" where
  "theo_opts arg v st = map_sum id (\<lambda>t. (fst st, t)) (theo_ArgOpt arg v (snd st))"

interpretation theo_args: np_module theo_opts
  by unfold_locales (auto simp: theo_opts_def)

definition padded :: "theo \<Rightarrow> bool" where
  "padded t \<longleftrightarrow> alliance t \<noteq> 0 \<or> mellanox t \<noteq> 0"

text \<open>\<open>Module_Setup\<close>: from Gbps and microseconds to bytes per nanosecond and nanoseconds.\<close>

definition theo_Setup :: "theo \<Rightarrow> theo outcome" where
  "theo_Setup t =
     errcheck (maxrate t \<le> 0 \<or> latency t \<le> 0) ''You must set the maxrate and latency''
    (errcheck (nheader t \<le> 0) ''You must specify --ethernet or --infiniband''
     (let r = maxrate t / 8; l = latency t * 1000
      in Inr (t\<lparr>maxrate := r,
                latency := (if padded t then l - real_of_int (c_div (mtu t) 2) / r else l)\<rparr>)))"

section \<open>The time of a message\<close>

text \<open>The length, padded to half a packet for some cards, and the number of packets.\<close>

definition theo_packets :: "theo \<Rightarrow> int \<Rightarrow> (int \<times> int) outcome" where
  "theo_packets t n =
     (let half = c_div (mtu t) 2 in
      if padded t then
        (if n \<le> half then Inr (half, 1)
         else if mtu t = 0 then Inl DivByZero
         else Inr (n, 1 + c_div (n - half + mtu t - 1) (mtu t)))
      else if mtu t = 0 then Inl DivByZero
      else Inr (n, c_div (n + mtu t - 1) (mtu t)))"

definition Theo_Time :: "theo \<Rightarrow> int \<Rightarrow> real outcome" where
  "Theo_Time t buflen =
     map_sum id (\<lambda>(n, npackets).
       (let t0 = latency t + real_of_int (nheader t * (npackets - 1) + n) / maxrate t;
            t1 = (if padded t \<and> n > c_div (mtu t) 2 then t0 + latency t else t0);
            t2 = (if n > max_inline t then t1 + latency t else t1);
            t3 = (if n > rendezvous t then t2 + latency t else t2)
        in t3 / 1000000000))
       (theo_packets t buflen)"

text \<open>The extra latencies, as a number of hits.\<close>

definition latency_hits :: "theo \<Rightarrow> int \<Rightarrow> int" where
  "latency_hits t n = 1 + c_bool (padded t \<and> n > c_div (mtu t) 2) + c_bool (n > max_inline t)
     + c_bool (n > rendezvous t)"

lemma Theo_Time_eq:
  "theo_packets t b = Inr (n, p) \<Longrightarrow> Theo_Time t b =
     Inr ((real_of_int (latency_hits t n) * latency t
            + real_of_int (nheader t * (p - 1) + n) / maxrate t) / 1000000000)"
  by (simp add: Theo_Time_def latency_hits_def c_bool_def Let_def algebra_simps)

lemma latency_hits_mono: "n \<le> n' \<Longrightarrow> latency_hits t n \<le> latency_hits t n'"
  by (auto simp: latency_hits_def c_bool_def)

text \<open>A usable medium: what \<open>Module_Setup\<close> checks, and a positive packet size.\<close>

definition medium_ok :: "theo \<Rightarrow> bool" where
  "medium_ok t \<longleftrightarrow> 0 < maxrate t \<and> 0 \<le> latency t \<and> 0 < nheader t \<and> 0 < mtu t"

lemma theo_packets_mono:
  assumes "0 < mtu t" and "0 < n" and "n \<le> n'"
  shows "\<exists>k p k' p'. theo_packets t n = Inr (k, p) \<and> theo_packets t n' = Inr (k', p')
    \<and> k \<le> k' \<and> p \<le> p' \<and> 1 \<le> p \<and> n \<le> k"
proof (cases "padded t")
  case True
  have d: "c_div (mtu t) 2 = mtu t div 2" "0 \<le> mtu t div 2" using assms(1) by simp_all
  have q: "0 \<le> (x - mtu t div 2 + mtu t - 1) div mtu t" if "mtu t div 2 < x" for x
    using that assms(1) by (intro pos_imp_zdiv_nonneg_iff [THEN iffD2]) auto
  have m: "(n - mtu t div 2 + mtu t - 1) div mtu t \<le> (n' - mtu t div 2 + mtu t - 1) div mtu t"
    using assms by (intro zdiv_mono1) auto
  show ?thesis
    using True assms d q [of n] q [of n'] m
    by (auto simp: theo_packets_def Let_def)
next
  case False
  have "(n + mtu t - 1) div mtu t \<le> (n' + mtu t - 1) div mtu t"
    using assms by (intro zdiv_mono1) auto
  moreover have "1 * mtu t \<le> n + mtu t - 1" using assms by simp
  then have "1 \<le> (n + mtu t - 1) div mtu t" using assms(1) zdiv_mono1 [of "mtu t" "n + mtu t - 1" "mtu t"]
    by simp
  ultimately show ?thesis using False assms by (auto simp: theo_packets_def Let_def)
qed

lemma scaled_sum_ge: "0 \<le> y \<Longrightarrow> x \<le> z \<Longrightarrow> x \<le> 1000000000 * ((y + z) / 1000000000 :: real)"
  by simp

text \<open>
  The theoretical curve is sensible: for a usable medium a longer message never takes less
  time than a shorter one, and no message goes faster than the maximum rate of the medium.
\<close>

theorem theo_time_mono:
  assumes "medium_ok t" and "0 < n" and "n \<le> n'"
  shows "\<exists>s s'. Theo_Time t n = Inr s \<and> Theo_Time t n' = Inr s' \<and> s \<le> s'
    \<and> real_of_int n / maxrate t \<le> 1000000000 * s"
proof -
  from assms(1) have t: "0 < maxrate t" "0 \<le> latency t" "0 < nheader t" "0 < mtu t"
    by (simp_all add: medium_ok_def)
  from theo_packets_mono [OF t(4) assms(2,3)] obtain k p k' p'
    where P: "theo_packets t n = Inr (k, p)" "theo_packets t n' = Inr (k', p')"
      and le: "k \<le> k'" "p \<le> p'" "1 \<le> p" "n \<le> k" by blast
  have hits: "real_of_int (latency_hits t k) * latency t \<le> real_of_int (latency_hits t k') * latency t"
    using latency_hits_mono [OF le(1)] t(2) by (intro mult_right_mono) simp_all
  have "nheader t * (p - 1) + k \<le> nheader t * (p' - 1) + k'"
    using le t(3) by (intro add_mono mult_left_mono) simp_all
  then have bytes: "real_of_int (nheader t * (p - 1) + k) / maxrate t
      \<le> real_of_int (nheader t * (p' - 1) + k') / maxrate t"
    using t(1) by (intro divide_right_mono) (simp_all only: of_int_le_iff less_imp_le)
  have "n \<le> nheader t * (p - 1) + k" using le t(3) by (simp add: add_increasing)
  then have rate: "real_of_int n / maxrate t \<le> real_of_int (nheader t * (p - 1) + k) / maxrate t"
    using t(1) by (intro divide_right_mono) (simp_all only: of_int_le_iff less_imp_le)
  have "0 \<le> real_of_int (latency_hits t k) * latency t"
    using t(2) by (intro mult_nonneg_nonneg) (auto simp: latency_hits_def c_bool_def)
  with rate have "real_of_int n / maxrate t \<le> 1000000000 * ((real_of_int (latency_hits t k) * latency t
        + real_of_int (nheader t * (p - 1) + k) / maxrate t) / 1000000000)"
    by (intro scaled_sum_ge)
  moreover have "(real_of_int (latency_hits t k) * latency t
        + real_of_int (nheader t * (p - 1) + k) / maxrate t) / 1000000000
     \<le> (real_of_int (latency_hits t k') * latency t
        + real_of_int (nheader t * (p' - 1) + k') / maxrate t) / 1000000000"
    by (rule divide_right_mono [OF add_mono [OF hits bytes]]) simp
  ultimately show ?thesis using Theo_Time_eq [OF P(1)] Theo_Time_eq [OF P(2)] by blast
qed

definition demo_theo :: theo where
  "demo_theo = init_theo\<lparr>maxrate := 4, latency := 1500, nheader := 34, mtu := 4096\<rparr>"

theorem theo_time_mono_witness:
  "\<exists>s s'. Theo_Time demo_theo 1000 = Inr s \<and> Theo_Time demo_theo 5000 = Inr s' \<and> s \<le> s'"
  using theo_time_mono [of demo_theo 1000 5000]
  by (auto simp: medium_ok_def demo_theo_def init_theo_def)

text \<open>
  The curve starts at the measured latency: after \<open>Module_Setup\<close> a message of one packet
  takes the given microseconds plus its bytes at the given rate; for the cards that pad to half
  a packet, every message of up to half a packet takes exactly the given latency.
\<close>

theorem theo_small_message:
  assumes "theo_Setup t = Inr t'" and "0 < n"
    and "n \<le> (if padded t then mtu t div 2 else mtu t)" and "0 < mtu t"
    and "mtu t \<le> max_inline t" and "mtu t \<le> rendezvous t"
  shows "Theo_Time t' n = Inr ((if padded t then 0 else real_of_int n / (maxrate t * 10 ^ 9 / 8))
      + latency t / 10 ^ 6)"
proof -
  have r: "0 < maxrate t" using assms(1) by (auto simp: theo_Setup_def)
  have t': "maxrate t' = maxrate t / 8" "mtu t' = mtu t" "nheader t' = nheader t"
      "padded t' = padded t" "max_inline t' = max_inline t" "rendezvous t' = rendezvous t"
      "latency t' = latency t * 1000 - (if padded t then real_of_int (mtu t div 2) / (maxrate t / 8) else 0)"
    using assms(1,4) by (auto simp: theo_Setup_def padded_def Let_def)
  show ?thesis
  proof (cases "padded t")
    case True
    have "theo_packets t' n = Inr (mtu t div 2, 1)"
      using True assms(3,4) t' by (simp add: theo_packets_def Let_def)
    moreover have "mtu t div 2 \<le> mtu t" using assms(4) by simp
    then have "latency_hits t' (mtu t div 2) = 1"
      using True assms(4-6) t' by (simp add: latency_hits_def c_bool_def)
    ultimately show ?thesis using True r by (simp add: Theo_Time_eq t')
  next
    case False
    have "(n + mtu t - 1) div mtu t = 1"
      using assms(2-4) False by (intro int_div_pos_eq [where r = "n - 1"]) auto
    then have "theo_packets t' n = Inr (n, 1)"
      using False assms(2,4) t' by (simp add: theo_packets_def Let_def)
    moreover have "latency_hits t' n = 1"
      using False assms(3-6) t' by (simp add: latency_hits_def c_bool_def)
    ultimately show ?thesis using False r by (simp add: Theo_Time_eq t' field_simps)
  qed
qed

theorem theo_small_message_witness:
  "\<exists>t'. theo_Setup (init_theo\<lparr>maxrate := 32, latency := 3 / 2, nheader := 34, mtu := 4096,
       alliance := 1\<rparr>) = Inr t' \<and> Theo_Time t' 8 = Inr (3 / 2000000)"
proof -
  let ?t = "init_theo\<lparr>maxrate := 32, latency := 3 / 2, nheader := 34, mtu := 4096, alliance := 1\<rparr>"
  obtain t' where t': "theo_Setup ?t = Inr t'"
    by (simp add: theo_Setup_def init_theo_def errcheck_def Let_def)
  from theo_small_message [OF this, of 8] t' show ?thesis
    by (simp add: init_theo_def padded_def)
qed

text \<open>
  The inline threshold is applied to the padded length: on a card that pads, a threshold
  between the message and half a packet charges a message that is inlined the extra latency of
  one that is not.
\<close>

theorem theo_inline_ignores_padding:
  assumes "medium_ok t" and "padded t" and "n \<le> max_inline t" and "n \<le> mtu t div 2"
    and "max_inline t < mtu t div 2" and "mtu t \<le> rendezvous t"
  shows "Theo_Time t n = Inr ((2 * latency t + real_of_int (mtu t div 2) / maxrate t) / 10 ^ 9)"
proof -
  from assms(1) have t: "0 < mtu t" by (simp add: medium_ok_def)
  have "theo_packets t n = Inr (mtu t div 2, 1)"
    using assms(2,4) t by (simp add: theo_packets_def Let_def)
  moreover have "mtu t div 2 \<le> mtu t" using t by simp
  then have "latency_hits t (mtu t div 2) = 2"
    using assms(2,5,6) t by (simp add: latency_hits_def c_bool_def)
  ultimately show ?thesis by (simp add: Theo_Time_eq)
qed

theorem theo_inline_ignores_padding_witness:
  "Theo_Time (demo_theo\<lparr>alliance := 1, max_inline := 100\<rparr>) 8 = Inr (878 / 250000000)"
  using theo_inline_ignores_padding [of "demo_theo\<lparr>alliance := 1, max_inline := 100\<rparr>" 8]
  by (simp add: medium_ok_def padded_def demo_theo_def init_theo_def)

text \<open>
  A packet size of zero passes the checks of \<open>Module_Setup\<close> and divides by zero at the
  first message.
\<close>

theorem theo_zero_mtu:
  assumes "theo_Setup t = Inr t'" and "mtu t = 0" and "0 < n"
  shows "Theo_Time t' n = Inl DivByZero"
  using assms by (auto simp: theo_Setup_def Theo_Time_def theo_packets_def padded_def Let_def)

theorem theo_zero_mtu_witness:
  "\<exists>t t'. theo_ArgOpt ''mtu'' (Some ''0'') (init_theo\<lparr>maxrate := 10, latency := 5, nheader := 42,
       mtu := 1500\<rparr>) = Inr t \<and> theo_Setup t = Inr t' \<and> Theo_Time t' 100 = Inl DivByZero"
proof -
  let ?t0 = "init_theo\<lparr>maxrate := 10, latency := 5, nheader := 42, mtu := 1500\<rparr>"
  have a: "theo_ArgOpt ''mtu'' (Some ''0'') ?t0 = Inr (?t0\<lparr>mtu := 0\<rparr>)"
    by (simp add: theo_ArgOpt_def need_opt_def atoi_def is_digit_def digit_val_def)
  obtain t' where t': "theo_Setup (?t0\<lparr>mtu := 0\<rparr>) = Inr t'"
    by (simp add: theo_Setup_def init_theo_def errcheck_def Let_def)
  from theo_zero_mtu [OF this, of 100] a t' show ?thesis by simp
qed

end
