(* ===== verification/Memcpy.thy ===== *)
theory Memcpy
  imports Args
begin

text \<open>
  The memory-copy module, \<open>src/memcpy.c\<close>: the ways \<open>SendData\<close> moves \<open>buflen\<close> bytes.  An
  assignment of a \<open>double\<close> moves eight bytes at once; \<open>memcpy\<close> and \<open>memset\<close> of the C library
  are modelled by their effect.  The answers of the non-blocking pipe are the environment's.
\<close>

section \<open>Copies\<close>

definition memcpy_bytes :: "ptr \<Rightarrow> ptr \<Rightarrow> int \<Rightarrow> memory \<Rightarrow> memory" where
  "memcpy_bytes r s n m = (\<lambda>x. if r \<le> x \<and> x < r + n then m (s + (x - r)) else m x)"

text \<open>\<open>*rptr_double++ = *sptr_double++\<close>, \<open>k\<close> times; the new pointers and the memory.\<close>

fun copy_doubles :: "nat \<Rightarrow> ptr \<times> ptr \<times> memory \<Rightarrow> ptr \<times> ptr \<times> memory" where
  "copy_doubles 0 st = st"
| "copy_doubles (Suc k) (r, s, m) = copy_doubles k (r + 8, s + 8, memcpy_bytes r s 8 m)"

fun copy_chars :: "nat \<Rightarrow> ptr \<times> ptr \<times> memory \<Rightarrow> ptr \<times> ptr \<times> memory" where
  "copy_chars 0 st = st"
| "copy_chars (Suc k) (r, s, m) = copy_chars k (r + 1, s + 1, m(r := m s))"

text \<open>The unrolled loop: \<open>k\<close> times eight doubles.\<close>

fun dcopy_loop :: "nat \<Rightarrow> ptr \<times> ptr \<times> memory \<Rightarrow> ptr \<times> ptr \<times> memory" where
  "dcopy_loop 0 st = st"
| "dcopy_loop (Suc k) st = dcopy_loop k (copy_doubles 8 st)"

fun dread_loop :: "ptr \<Rightarrow> nat \<Rightarrow> ptr \<times> ptr \<times> memory \<Rightarrow> ptr \<times> ptr \<times> memory" where
  "dread_loop dvar 0 st = st"
| "dread_loop dvar (Suc k) (r, s, m) = dread_loop dvar k (copy_doubles 8 (dvar, s, m))"

fun dwrite_loop :: "ptr \<Rightarrow> nat \<Rightarrow> ptr \<times> ptr \<times> memory \<Rightarrow> ptr \<times> ptr \<times> memory" where
  "dwrite_loop dvar 0 st = st"
| "dwrite_loop dvar (Suc k) (r, s, m) = dwrite_loop dvar k (copy_doubles 8 (r, dvar, m))"

definition n_copy8 :: "int \<Rightarrow> nat" where
  "n_copy8 buflen = nat (c_div buflen 64)"

definition n_left :: "int \<Rightarrow> nat" where
  "n_left buflen = nat (buflen - 64 * c_div buflen 64)"

definition dcopy :: "int \<Rightarrow> ptr \<Rightarrow> ptr \<Rightarrow> memory \<Rightarrow> memory" where
  "dcopy n rptr sptr m =
     (let st = dcopy_loop (n_copy8 n) (rptr, sptr, m) in snd (snd (copy_chars (n_left n) st)))"

definition dread :: "ptr \<Rightarrow> int \<Rightarrow> ptr \<Rightarrow> ptr \<Rightarrow> memory \<Rightarrow> memory" where
  "dread dvar n rptr sptr m =
     (let (r, s, m1) = dread_loop dvar (n_copy8 n) (rptr, sptr, m)
      in snd (snd (copy_chars (n_left n) (dvar, s, m1))))"

definition dwrite :: "ptr \<Rightarrow> int \<Rightarrow> ptr \<Rightarrow> ptr \<Rightarrow> memory \<Rightarrow> memory" where
  "dwrite dvar n rptr sptr m =
     (let (r, s, m1) = dwrite_loop dvar (n_copy8 n) (rptr, sptr, m)
      in snd (snd (copy_chars (n_left n) (r, dvar, m1))))"

section \<open>The pipe\<close>

record pipe_state =
  pp_sptr :: ptr
  pp_rptr :: ptr
  nwritten :: int
  nread :: int
  pp_fifo :: "byte list"
  pp_mem :: memory

text \<open>
  One iteration.  \<open>w\<close> and \<open>r\<close> are what \<open>write\<close> and \<open>read\<close> return: \<open>-1\<close> for a failure, else
  the bytes moved, at most those asked for and, for \<open>read\<close>, those in the pipe.
\<close>

definition pipe_write :: "int \<Rightarrow> int \<Rightarrow> pipe_state \<Rightarrow> pipe_state" where
  "pipe_write buflen w p =
     (let nb = (if w < 0 then -1 else min w (buflen - nwritten p))
      in p\<lparr>pp_fifo := pp_fifo p @ read_msg nb (pp_sptr p) (pp_mem p),
            pp_sptr := pp_sptr p + nb, nwritten := nwritten p + nb\<rparr>)"

definition pipe_read :: "int \<Rightarrow> pipe_state \<Rightarrow> pipe_state" where
  "pipe_read r p =
     (let nb = (if r < 0 then -1
                else min r (min (nwritten p - nread p) (int (length (pp_fifo p)))))
      in p\<lparr>pp_mem := write_msg (pp_rptr p) (take (nat nb) (pp_fifo p)) (pp_mem p),
            pp_fifo := drop (nat nb) (pp_fifo p),
            pp_rptr := pp_rptr p + nb, nread := nread p + nb\<rparr>)"

fun pipe_loop :: "int \<Rightarrow> (int \<times> int) list \<Rightarrow> pipe_state \<Rightarrow> pipe_state option" where
  "pipe_loop buflen [] p = (if nread p < buflen then None else Some p)"
| "pipe_loop buflen ((w, r) # rs) p =
     (if nread p < buflen then pipe_loop buflen rs (pipe_read r (pipe_write buflen w p)) else Some p)"

definition pipe_start :: "ptr \<Rightarrow> ptr \<Rightarrow> memory \<Rightarrow> pipe_state" where
  "pipe_start rptr sptr m = \<lparr>pp_sptr = sptr, pp_rptr = rptr, nwritten = 0, nread = 0, pp_fifo = [],
     pp_mem = m\<rparr>"

section \<open>The module\<close>

record mcpy =
  mem_op :: string
  ichar :: int
  dvar_addr :: ptr

definition mcpy_Init :: "globals \<times> mcpy \<Rightarrow> globals \<times> mcpy" where
  "mcpy_Init st =
     ((fst st)\<lparr>stream := 1, module := ''memcpy'', end_size := 100000000,
        est_latency := 100 / 1000000000\<rparr>,
      (snd st)\<lparr>mem_op := ''memcpy''\<rparr>)"

text \<open>\<open>pipe_err\<close> is what \<open>pipe\<close> returns.\<close>

definition mcpy_ArgOpt :: "int \<Rightarrow> string \<Rightarrow> mcpy \<Rightarrow> mcpy outcome" where
  "mcpy_ArgOpt pipe_err arg t =
     (let t1 = t\<lparr>mem_op := arg\<rparr> in
      if arg = ''memcpy'' \<or> arg = ''dcopy'' \<or> arg = ''dread'' \<or> arg = ''dwrite'' \<or> arg = ''memset''
      then Inr t1
      else if arg = ''pipe'' then errcheck (pipe_err \<noteq> 0) ''Could not create the pipe()'' (Inr t1)
      else Inl Usage)"

definition mcpy_opts :: "int \<Rightarrow> mcpy arg_opt" where
  "mcpy_opts pipe_err arg v st = map_sum id (\<lambda>t. (fst st, t)) (mcpy_ArgOpt pipe_err arg (snd st))"

interpretation mcpy_args: np_module "mcpy_opts pipe_err" for pipe_err
  by unfold_locales (auto simp: mcpy_opts_def)

text \<open>\<open>SendData\<close>: the new memory and module state, or \<open>None\<close> while the pipe loop runs.\<close>

definition mcpy_SendData ::
  "globals \<Rightarrow> int \<Rightarrow> (int \<times> int) list \<Rightarrow> bufs \<Rightarrow> mcpy \<Rightarrow> (bufs \<times> mcpy) outcome option" where
  "mcpy_SendData g buflen rs b t =
     (let rptr = dr_ptr b; sptr = (if cache g \<noteq> 0 then ds_ptr b else s_ptr b); m = mem b;
          ret = (\<lambda>m'. Some (Inr (b\<lparr>mem := m'\<rparr>, t)))
      in if mem_op t = ''memcpy'' then ret (memcpy_bytes rptr sptr buflen m)
         else if mem_op t = ''memset'' then
           Some (Inr (b\<lparr>mem := memset rptr (word_of_int (ichar t)) buflen m\<rparr>,
                      t\<lparr>ichar := (if ichar t + 1 > 122 then 97 else ichar t + 1)\<rparr>))
         else if mem_op t = ''dcopy'' then ret (dcopy buflen rptr sptr m)
         else if mem_op t = ''dread'' then ret (dread (dvar_addr t) buflen rptr sptr m)
         else if mem_op t = ''dwrite'' then ret (dwrite (dvar_addr t) buflen rptr sptr m)
         else if mem_op t = ''pipe'' then
           (case pipe_loop buflen rs (pipe_start rptr sptr m) of
              None \<Rightarrow> None | Some p \<Rightarrow> ret (pp_mem p))
         else Some (Inl (ErrCheck
                ''You must choose memcpy, memset, dcopy, dread, dwrite, pipe'')))"

section \<open>The unrolled loops\<close>

lemma memcpy_bytes_append:
  assumes "disjoint r (a + b) s (a + b)" and "0 \<le> a" and "0 \<le> b"
  shows "memcpy_bytes (r + a) (s + a) b (memcpy_bytes r s a m) = memcpy_bytes r s (a + b) m"
proof
  fix x
  have "s + (x - r) < r \<or> r + a \<le> s + (x - r)" if "r + a \<le> x" "x < r + a + b"
    using that assms by (auto simp: disjoint_def)
  then show "memcpy_bytes (r + a) (s + a) b (memcpy_bytes r s a m) x = memcpy_bytes r s (a + b) m x"
    using assms(2,3) by (auto simp: memcpy_bytes_def algebra_simps)
qed

lemma memcpy_bytes_0 [simp]: "memcpy_bytes r s 0 m = m"
  by (rule ext) (auto simp: memcpy_bytes_def)

lemma memcpy_bytes_one: "m(r := m s) = memcpy_bytes r s 1 m"
  by (rule ext) (auto simp: memcpy_bytes_def)

lemma disjoint_shift:
  "disjoint r (a + b) s (a + b) \<Longrightarrow> 0 \<le> a \<Longrightarrow> 0 \<le> b \<Longrightarrow> disjoint (r + a) b (s + a) b"
  by (auto simp: disjoint_def)

lemma copy_doubles_eq:
  "disjoint r (8 * int k) s (8 * int k) \<Longrightarrow>
     copy_doubles k (r, s, m) = (r + 8 * int k, s + 8 * int k, memcpy_bytes r s (8 * int k) m)"
proof (induction k arbitrary: r s m)
  case 0
  show ?case by simp
next
  case (Suc k)
  have d: "disjoint r (8 + 8 * int k) s (8 + 8 * int k)" using Suc.prems by (simp add: algebra_simps)
  with Suc.IH [OF disjoint_shift [OF d]] memcpy_bytes_append [OF d] show ?case
    by (simp add: algebra_simps)
qed

lemma copy_chars_eq:
  "disjoint r (int k) s (int k) \<Longrightarrow>
     copy_chars k (r, s, m) = (r + int k, s + int k, memcpy_bytes r s (int k) m)"
proof (induction k arbitrary: r s m)
  case 0
  show ?case by simp
next
  case (Suc k)
  have d: "disjoint r (1 + int k) s (1 + int k)" using Suc.prems by simp
  with Suc.IH [OF disjoint_shift [OF d]] memcpy_bytes_append [OF d] show ?case
    by (simp add: memcpy_bytes_one algebra_simps del: fun_upd_apply)
qed

lemma dcopy_loop_eq:
  "disjoint r (64 * int k) s (64 * int k) \<Longrightarrow>
     dcopy_loop k (r, s, m) = (r + 64 * int k, s + 64 * int k, memcpy_bytes r s (64 * int k) m)"
proof (induction k arbitrary: r s m)
  case 0
  show ?case by simp
next
  case (Suc k)
  have d: "disjoint r (64 + 64 * int k) s (64 + 64 * int k)"
    using Suc.prems by (simp add: algebra_simps)
  then have "disjoint r (8 * int 8) s (8 * int 8)" by (auto simp: disjoint_def)
  from copy_doubles_eq [OF this, of m] Suc.IH [OF disjoint_shift [OF d]] memcpy_bytes_append [OF d]
  show ?case by (simp add: algebra_simps del: copy_doubles.simps)
qed

lemma copy_counts:
  assumes "0 \<le> n"
  shows "64 * int (n_copy8 n) + int (n_left n) = n" and "n_left n < 64"
proof -
  have "0 \<le> n mod 64" "n mod 64 < 64" "64 * (n div 64) + n mod 64 = n" "0 \<le> n div 64"
    using assms by simp_all
  then show "64 * int (n_copy8 n) + int (n_left n) = n" "n_left n < 64"
    using assms by (auto simp: n_copy8_def n_left_def)
qed

text \<open>
  The copy loop unrolled over doubles, with its loop over the remaining bytes, copies what
  \<open>memcpy\<close> copies, for every length, when the buffers do not overlap.
\<close>

theorem dcopy_is_memcpy:
  assumes "0 \<le> n" and "disjoint r n s n"
  shows "dcopy n r s m = memcpy_bytes r s n m"
proof -
  let ?a = "64 * int (n_copy8 n)" and ?b = "int (n_left n)"
  have d: "disjoint r (?a + ?b) s (?a + ?b)" using copy_counts [OF assms(1)] assms(2) by simp
  then have "disjoint r ?a s ?a" by (auto simp: disjoint_def)
  from dcopy_loop_eq [OF this, of m] copy_chars_eq [OF disjoint_shift [OF d]]
    memcpy_bytes_append [OF d, of m] copy_counts(1) [OF assms(1)]
  show ?thesis by (simp add: dcopy_def)
qed

theorem dcopy_is_memcpy_witness:
  "dcopy 131 4096 8192 (\<lambda>x. word_of_int x) = memcpy_bytes 4096 8192 131 (\<lambda>x. word_of_int x)"
  by (rule dcopy_is_memcpy) (simp_all add: disjoint_def)

lemma dread_loop_eq:
  assumes "disjoint dvar 64 s (64 * int k)"
  shows "\<exists>r' m'. dread_loop dvar k (r, s, m) = (r', s + 64 * int k, m')
    \<and> (\<forall>x. x < dvar \<or> dvar + 64 \<le> x \<longrightarrow> m' x = m x)"
  using assms
proof (induction k arbitrary: r s m)
  case (Suc k)
  from Suc.prems have "disjoint dvar (8 * int 8) s (8 * int 8)" "disjoint dvar 64 (s + 64) (64 * int k)"
    by (auto simp: disjoint_def)
  from copy_doubles_eq [OF this(1), of m] Suc.IH [OF this(2), of "dvar + 64" "memcpy_bytes dvar s 64 m"]
  obtain r' m' where "dread_loop dvar (Suc k) (r, s, m) = (r', s + 64 + 64 * int k, m')"
      "\<forall>x. x < dvar \<or> dvar + 64 \<le> x \<longrightarrow> m' x = memcpy_bytes dvar s 64 m x"
    by (auto simp del: copy_doubles.simps)
  then show ?case by (auto simp: memcpy_bytes_def algebra_simps)
qed simp

text \<open>
  The read test stays in its cache-resident array: for every length it stores into the 64
  bytes of \<open>dvar\<close> only, so neither the receive buffer nor the message changes.
\<close>

theorem dread_stays_in_dvar:
  assumes "0 \<le> n" and "disjoint dvar 64 s n" and "x < dvar \<or> dvar + 64 \<le> x"
  shows "dread dvar n r s m x = m x"
proof -
  let ?a = "64 * int (n_copy8 n)" and ?b = "int (n_left n)"
  note c = copy_counts [OF assms(1)]
  have "disjoint dvar 64 s ?a" using assms(2) c by (auto simp: disjoint_def)
  from dread_loop_eq [OF this, of r m] obtain r' m'
    where l: "dread_loop dvar (n_copy8 n) (r, s, m) = (r', s + ?a, m')"
      and m': "\<forall>x. x < dvar \<or> dvar + 64 \<le> x \<longrightarrow> m' x = m x" by blast
  have "disjoint dvar ?b (s + ?a) ?b" using assms(2) c by (auto simp: disjoint_def)
  from copy_chars_eq [OF this, of m'] l
  have "dread dvar n r s m = memcpy_bytes dvar (s + ?a) ?b m'" by (simp add: dread_def)
  moreover have "?b < 64" using c(2) by simp
  ultimately show ?thesis using m' assms(3) by (auto simp: memcpy_bytes_def)
qed

theorem dread_stays_in_dvar_witness:
  "dread 100 200 4096 8192 (\<lambda>_. 7) 4100 = 7"
  using dread_stays_in_dvar [of 200 100 8192 4100 4096 "\<lambda>_. 7"] by (simp add: disjoint_def)

lemma dwrite_loop_eq:
  assumes "disjoint dvar 64 r (64 * int k)"
  shows "\<exists>s'. dwrite_loop dvar k (r, s, m) = (r + 64 * int k, s',
    (\<lambda>x. if r \<le> x \<and> x < r + 64 * int k then m (dvar + (x - r) mod 64) else m x))"
  using assms
proof (induction k arbitrary: r s m)
  case 0
  have "(\<lambda>x. if r \<le> x \<and> x < r + 64 * int 0 then m (dvar + (x - r) mod 64) else m x) = m"
    by (rule ext) auto
  then show ?case by simp
next
  case (Suc k)
  from Suc.prems have d: "disjoint r (8 * int 8) dvar (8 * int 8)"
      and "disjoint dvar 64 (r + 64) (64 * int k)"
    by (auto simp: disjoint_def)
  let ?m = "memcpy_bytes r dvar 64 m"
  from copy_doubles_eq [OF d, of m] Suc.IH [OF \<open>disjoint dvar 64 (r + 64) _\<close>, of "dvar + 64" ?m]
  obtain s' where l: "dwrite_loop dvar (Suc k) (r, s, m) = (r + 64 + 64 * int k, s',
      (\<lambda>x. if r + 64 \<le> x \<and> x < r + 64 + 64 * int k then ?m (dvar + (x - (r + 64)) mod 64) else ?m x))"
    by (auto simp del: copy_doubles.simps)
  have "(if r + 64 \<le> x \<and> x < r + 64 + 64 * int k then ?m (dvar + (x - (r + 64)) mod 64) else ?m x)
      = (if r \<le> x \<and> x < r + 64 * int (Suc k) then m (dvar + (x - r) mod 64) else m x)" for x
  proof -
    have "(x - (r + 64)) mod 64 = (x - r) mod 64"
      using mod_add_self2 [of "x - (r + 64)" 64] by (simp add: algebra_simps)
    moreover have "0 \<le> (x - r) mod 64" "(x - r) mod 64 < 64" by simp_all
    moreover have "(x - r) mod 64 = x - r" if "r \<le> x" "x < r + 64"
      using that by (intro mod_pos_pos_trivial) auto
    ultimately show ?thesis using d by (auto simp: memcpy_bytes_def disjoint_def)
  qed
  with l show ?case by auto
qed

text \<open>
  The write test fills exactly the \<open>buflen\<close> bytes of the receive buffer, with the contents
  of the 64-byte array repeated from its start.
\<close>

theorem dwrite_repeats_dvar:
  assumes "0 \<le> n" and "disjoint dvar 64 r n"
  shows "dwrite dvar n r s m = (\<lambda>x. if r \<le> x \<and> x < r + n then m (dvar + (x - r) mod 64) else m x)"
proof -
  let ?a = "64 * int (n_copy8 n)" and ?b = "int (n_left n)"
  let ?m = "\<lambda>x. if r \<le> x \<and> x < r + ?a then m (dvar + (x - r) mod 64) else m x"
  note c = copy_counts [OF assms(1)]
  have "disjoint dvar 64 r ?a" using assms(2) c by (auto simp: disjoint_def)
  from dwrite_loop_eq [OF this, of s m] obtain s'
    where l: "dwrite_loop dvar (n_copy8 n) (r, s, m) = (r + ?a, s', ?m)" by blast
  have d: "disjoint (r + ?a) ?b dvar ?b" using assms(2) c by (auto simp: disjoint_def)
  from copy_chars_eq [OF d, of ?m] l
  have "dwrite dvar n r s m = memcpy_bytes (r + ?a) dvar ?b ?m" by (simp add: dwrite_def)
  moreover have "memcpy_bytes (r + ?a) dvar ?b ?m x =
      (if r \<le> x \<and> x < r + n then m (dvar + (x - r) mod 64) else m x)" for x
  proof -
    have b: "?b < 64" "?a + ?b = n" using c by simp_all
    have "(x - r) mod 64 = x - (r + ?a)" if "r + ?a \<le> x" "x < r + n"
    proof -
      have "x - r = (x - (r + ?a)) + 64 * int (n_copy8 n)" by simp
      then have "(x - r) mod 64 = (x - (r + ?a)) mod 64" by (metis mod_mult_self2)
      also have "\<dots> = x - (r + ?a)" using that b by (intro mod_pos_pos_trivial) auto
      finally show ?thesis .
    qed
    with assms(2) b show ?thesis by (auto simp: memcpy_bytes_def disjoint_def)
  qed
  ultimately show ?thesis by (simp add: fun_eq_iff)
qed

theorem dwrite_repeats_dvar_witness:
  "dwrite 100 70 4096 0 (\<lambda>x. word_of_int x) 4162 = 102"
  using dwrite_repeats_dvar [of 70 100 4096 0 "\<lambda>x. word_of_int x"] by (simp add: disjoint_def)

section \<open>Copying through the pipe\<close>

definition pipe_inv :: "int \<Rightarrow> ptr \<Rightarrow> ptr \<Rightarrow> memory \<Rightarrow> pipe_state \<Rightarrow> bool" where
  "pipe_inv n r s m p \<longleftrightarrow> 0 \<le> nread p \<and> nread p \<le> nwritten p \<and> nwritten p \<le> n
     \<and> pp_sptr p = s + nwritten p \<and> pp_rptr p = r + nread p
     \<and> pp_fifo p = read_msg (nwritten p - nread p) (s + nread p) m
     \<and> pp_mem p = memcpy_bytes r s (nread p) m"

lemma read_msg_append:
  "0 \<le> a \<Longrightarrow> 0 \<le> b \<Longrightarrow> read_msg (a + b) s m = read_msg a s m @ read_msg b (s + a) m"
proof -
  assume "0 \<le> a" and "0 \<le> b"
  then have "[0..a + b - 1] = [0..a - 1] @ [a..a + b - 1]"
    using upto_split1 [of 0 a "a + b - 1"] by (cases "b = 0") auto
  moreover have "[a..a + b - 1] = map (\<lambda>i. a + i) [0..b - 1]"
    by (intro nth_equalityI) auto
  ultimately show ?thesis by (simp add: read_msg_def add.assoc comp_def)
qed

lemma read_msg_cong:
  "(\<And>i. 0 \<le> i \<Longrightarrow> i < n \<Longrightarrow> m (s + i) = m' (s + i)) \<Longrightarrow> read_msg n s m = read_msg n s m'"
  by (auto simp: read_msg_def)

lemma length_read_msg_nonneg: "0 \<le> n \<Longrightarrow> length (read_msg n s m) = nat n"
  by (simp add: read_msg_def)

lemma write_read_msg: "0 \<le> n \<Longrightarrow> write_msg r (read_msg n s m) m' =
    (\<lambda>x. if r \<le> x \<and> x < r + n then m (s + (x - r)) else m' x)"
  by (rule ext) (auto simp: write_msg_def read_msg_def nth_upto)

lemma pipe_write_inv:
  assumes inv: "pipe_inv n r s m p" and "disjoint r n s n" and "0 \<le> w"
  shows "pipe_inv n r s m (pipe_write n w p)
    \<and> nread (pipe_write n w p) = nread p \<and> nwritten (pipe_write n w p) = min (nwritten p + w) n"
proof -
  define k where "k = min w (n - nwritten p)"
  note I = inv [unfolded pipe_inv_def]
  have k: "0 \<le> k" "nwritten p + k \<le> n" using assms(3) I by (auto simp: k_def)
  have "read_msg k (s + nwritten p) (memcpy_bytes r s (nread p) m) = read_msg k (s + nwritten p) m"
    using assms(2) I k by (intro read_msg_cong) (auto simp: memcpy_bytes_def disjoint_def)
  moreover have "read_msg (nwritten p + k - nread p) (s + nread p) m =
      read_msg (nwritten p - nread p) (s + nread p) m @ read_msg k (s + nwritten p) m"
    using read_msg_append [of "nwritten p - nread p" k "s + nread p" m] I k
    by (simp add: algebra_simps)
  ultimately show ?thesis
    using I k assms(3) by (auto simp: pipe_inv_def pipe_write_def Let_def k_def [symmetric]) 
      (auto simp: k_def)
qed

lemma pipe_read_inv:
  assumes inv: "pipe_inv n r s m p" and "0 \<le> v"
  shows "pipe_inv n r s m (pipe_read v p)
    \<and> nwritten (pipe_read v p) = nwritten p \<and> nread (pipe_read v p) = min (nread p + v) (nwritten p)"
proof -
  note I = inv [unfolded pipe_inv_def]
  define k where "k = min v (nwritten p - nread p)"
  have k: "0 \<le> k" "nread p + k \<le> nwritten p" using assms(2) I by (auto simp: k_def)
  have len: "min v (min (nwritten p - nread p) (int (length (pp_fifo p)))) = k"
    using I by (simp add: k_def length_read_msg_nonneg)
  have split: "pp_fifo p = read_msg k (s + nread p) m
      @ read_msg (nwritten p - nread p - k) (s + nread p + k) m"
    using read_msg_append [of k "nwritten p - nread p - k" "s + nread p" m] I k by simp
  have "length (read_msg k (s + nread p) m) = nat k" using k by (simp add: length_read_msg_nonneg)
  then have fifo: "take (nat k) (pp_fifo p) = read_msg k (s + nread p) m"
      "drop (nat k) (pp_fifo p) = read_msg (nwritten p - nread p - k) (s + nread p + k) m"
    unfolding split by simp_all
  have "write_msg (r + nread p) (read_msg k (s + nread p) m) (memcpy_bytes r s (nread p) m)
      = memcpy_bytes r s (nread p + k) m"
    using I k by (auto simp: write_read_msg memcpy_bytes_def fun_eq_iff algebra_simps)
  then show ?thesis
    using I k assms(2) len fifo
    by (auto simp: pipe_inv_def pipe_read_def Let_def algebra_simps) (auto simp: k_def)
qed

text \<open>
  Pushing the message through the pipe copies it: if every \<open>write\<close> moves at least one byte
  while there are any to write and every \<open>read\<close> at least one while the pipe holds any, the loop
  ends after at most \<open>buflen\<close> iterations and has copied what \<open>memcpy\<close> copies, whatever the
  capacity of the pipe and however the transfers are cut.
\<close>

theorem pipe_copies:
  assumes "0 \<le> n" and "disjoint r n s n" and "n \<le> int (length rs)"
    and "list_all (\<lambda>(w, v). 1 \<le> w \<and> 1 \<le> v) rs"
  shows "\<exists>p. pipe_loop n rs (pipe_start r s m) = Some p \<and> pp_mem p = memcpy_bytes r s n m"
proof -
  have "\<exists>q. pipe_loop n rs p = Some q \<and> pp_mem q = memcpy_bytes r s n m"
    if "pipe_inv n r s m p" and "n - nread p \<le> int (length rs)" for p
    using that assms(4)
  proof (induction rs arbitrary: p)
    case Nil
    then have "nread p = n" by (auto simp: pipe_inv_def)
    with Nil show ?case by (auto simp: pipe_inv_def)
  next
    case (Cons wv rs)
    obtain w v where wv: "wv = (w, v)" "1 \<le> w" "1 \<le> v" using Cons.prems(3) by (cases wv) auto
    show ?case
    proof (cases "nread p < n")
      case True
      let ?p1 = "pipe_write n w p"
      from pipe_write_inv [OF Cons.prems(1) assms(2), of w] wv
      have 1: "pipe_inv n r s m ?p1" "nread ?p1 = nread p" "nwritten ?p1 = min (nwritten p + w) n" by auto
      from pipe_read_inv [OF 1(1), of v] wv
      have 2: "pipe_inv n r s m (pipe_read v ?p1)"
          "nread (pipe_read v ?p1) = min (nread p + v) (min (nwritten p + w) n)" using 1 by auto
      have "nread p \<le> nwritten p" using Cons.prems(1) by (simp add: pipe_inv_def)
      then have "nread p + 1 \<le> nread (pipe_read v ?p1)" using 2(2) wv True by auto
      with Cons.IH [OF 2(1)] Cons.prems(2,3) True wv show ?thesis by auto
    next
      case False
      with Cons.prems(1) have "nread p = n" by (auto simp: pipe_inv_def)
      with Cons.prems(1) False wv show ?thesis by (auto simp: pipe_inv_def)
    qed
  qed
  from this [of "pipe_start r s m"] assms(1,3) show ?thesis
    by (simp add: pipe_inv_def pipe_start_def read_msg_def)
qed

theorem pipe_copies_witness:
  "\<exists>p. pipe_loop 6 (replicate 6 (4, 3)) (pipe_start 4096 8192 (\<lambda>x. word_of_int x)) = Some p
     \<and> pp_mem p = memcpy_bytes 4096 8192 6 (\<lambda>x. word_of_int x)"
  by (rule pipe_copies) (simp_all add: disjoint_def eval_nat_numeral)

text \<open>
  A failed call is counted as a transfer of minus one byte: after a \<open>read\<close> that fails (the
  pipe is non-blocking) the next byte read is stored in front of the receive buffer.
\<close>

theorem pipe_failed_read_writes_before_buffer:
  assumes "0 < n" and "1 \<le> v" and "w < 0"
  shows "\<exists>p. pipe_read v (pipe_write n w (pipe_read (-1) (pipe_write n 1 (pipe_start r s m)))) = p
    \<and> pp_mem p (r - 1) = m s"
proof -
  have "read_msg 1 s m = [m s]" "\<And>m. read_msg (-1) (s + 1) m = []" by (simp_all add: read_msg_def)
  with assms show ?thesis
    by (simp add: pipe_read_def pipe_write_def pipe_start_def write_msg_def Let_def)
qed

theorem pipe_failed_read_writes_before_buffer_witness:
  "pp_mem (pipe_read 5 (pipe_write 5 (-1) (pipe_read (-1) (pipe_write 5 1
     (pipe_start 4096 8192 (\<lambda>x. if x = 8192 then 77 else 0)))))) 4095 = 77"
  using pipe_failed_read_writes_before_buffer [of 5 5 "-1" 4096 8192 "\<lambda>x. if x = 8192 then 77 else 0"]
  by simp

text \<open>
  The byte that \<open>memset\<close> writes is always a lower-case letter: from its start value the
  counter cycles through \<open>a\<close> to \<open>z\<close>.
\<close>

theorem memset_letters:
  assumes "97 \<le> ichar t" and "ichar t \<le> 122"
    and "mcpy_SendData g n rs b t = Some (Inr (b', t'))"
  shows "97 \<le> ichar t' \<and> ichar t' \<le> 122"
  using assms by (auto simp: mcpy_SendData_def Let_def split: if_splits option.splits)

theorem memset_letters_witness:
  "\<exists>b' t'. mcpy_SendData init_globals 8 [] null_bufs \<lparr>mem_op = ''memset'', ichar = 122, dvar_addr = 0\<rparr>
     = Some (Inr (b', t')) \<and> 97 \<le> ichar t' \<and> ichar t' \<le> 122"
proof -
  obtain b' t' where s: "mcpy_SendData init_globals 8 [] null_bufs
      \<lparr>mem_op = ''memset'', ichar = 122, dvar_addr = 0\<rparr> = Some (Inr (b', t'))"
    by (simp add: mcpy_SendData_def Let_def)
  from memset_letters [OF _ _ s] s show ?thesis by simp
qed

end
