(* ===== verification/Disk.thy ===== *)
theory Disk
  imports Args Schedule
begin

text \<open>
  The disk module, \<open>src/disk.c\<close>: its options, the stdio and shell calls that one \<open>SendData\<close>
  makes, and the names of the files that are copied.  The environment answers the calls:
  \<open>rsp k\<close> is what the \<open>k\<close>-th stdio call of a \<open>SendData\<close> returns, \<open>slen k\<close> the length of the
  string it scans.  Loops are fuelled; \<open>None\<close> is a loop that has not ended.
\<close>

section \<open>State and options\<close>

record disk_st =
  cparg :: string
  datadir :: string
  datafile :: string
  ssh_host :: string
  iofunc :: char
  iotype :: char
  nchar :: int
  dk_flush :: int
  cpflag :: int
  scpflag :: int
  overwrite :: int
  num_GB :: int
  cbuf_len :: int      \<comment> \<open>size of the allocation of \<open>cbuf\<close>, all of it set to the letter o\<close>
  fs :: int
  filenum :: int
  n_static :: int

definition init_disk :: disk_st where
  "init_disk = \<lparr>cparg = [], datadir = [], datafile = [], ssh_host = [], iofunc = CHR ''w'',
     iotype = CHR ''c'', nchar = 0, dk_flush = 0, cpflag = 0, scpflag = 0, overwrite = 0,
     num_GB = 0, cbuf_len = 0, fs = 1, filenum = 0, n_static = 0\<rparr>"

definition disk_Init :: "globals \<times> disk_st \<Rightarrow> globals \<times> disk_st" where
  "disk_Init st =
     ((fst st)\<lparr>transmitter := 1, stream := 1, rwstream := 1, perturbation := 0, disk := 1,
        ntrials := 1, module := ''disk'', est_latency := 10 / 1000000\<rparr>,
      (snd st)\<lparr>iofunc := CHR ''w'', iotype := CHR ''c'', datafile := ''npdisk.out'', dk_flush := 0\<rparr>)"

text \<open>\<open>ERRCHECK( strlen( opt ) == 0, ... )\<close>: a missing value is a null pointer.\<close>

definition strlen_opt :: "string option \<Rightarrow> string \<Rightarrow> (string \<Rightarrow> 'a outcome) \<Rightarrow> 'a outcome" where
  "strlen_opt v msg k =
     (case v of None \<Rightarrow> Inl NullDeref | Some x \<Rightarrow> errcheck (length x = 0) msg (k x))"

lemma strlen_opt_Inr: "strlen_opt v msg k = Inr y \<longleftrightarrow> (\<exists>x. v = Some x \<and> x \<noteq> [] \<and> k x = Inr y)"
  by (auto simp: strlen_opt_def split: option.split)

text \<open>\<open>sprintf\<close> into an array of \<open>n\<close> characters.\<close>

definition sprintf_to :: "nat \<Rightarrow> string \<Rightarrow> (string \<Rightarrow> 'a outcome) \<Rightarrow> 'a outcome" where
  "sprintf_to n s k = (if length s < n then k s else Inl OutOfBounds)"

lemma sprintf_to_Inr: "sprintf_to n s k = Inr y \<longleftrightarrow> length s < n \<and> k s = Inr y"
  by (simp add: sprintf_to_def)

lemma sprintf_to_long: "n \<le> length s \<Longrightarrow> sprintf_to n s k = Inl OutOfBounds"
  by (simp add: sprintf_to_def)

definition nl :: string where "nl = [CHR 0x0A]"

definition disk_ArgOpt :: "disk_st arg_opt" where
  "disk_ArgOpt arg v st =
     (let (g, d) = st in
      if arg = ''datafile'' then
        strlen_opt v ''No data file name was given'' (\<lambda>x. Inr (g, d\<lparr>datafile := x\<rparr>))
      else if arg = ''read'' then Inr (g, d\<lparr>iofunc := CHR ''r''\<rparr>)
      else if arg = ''write'' then Inr (g, d\<lparr>iofunc := CHR ''w''\<rparr>)
      else if arg = ''char'' then Inr (g, d\<lparr>iotype := CHR ''c''\<rparr>)
      else if arg = ''string'' then
        strlen_opt v ''No string length given'' (\<lambda>x.
          Inr (g\<lparr>start := atoi x\<rparr>, d\<lparr>iotype := CHR ''s'', nchar := atoi x, cbuf_len := atoi x\<rparr>))
      else if arg = ''double'' then Inr (g\<lparr>start := 8\<rparr>, d\<lparr>iotype := CHR ''d''\<rparr>)
      else if arg = ''unformatted'' then Inr (g\<lparr>start := 8\<rparr>, d\<lparr>iotype := CHR ''u''\<rparr>)
      else if arg = ''binary'' then Inr (g, d\<lparr>iotype := CHR ''b''\<rparr>)
      else if arg = ''flush'' then Inr (g, d\<lparr>dk_flush := 1\<rparr>)
      else if arg = ''cp'' \<or> arg = ''cpto'' then
        strlen_opt v ''No data directory name was given'' (\<lambda>x.
          sprintf_to 120 (''mkdir -p '' @ x @ nl) (\<lambda>_.
            Inr (g\<lparr>disk := 10, end_size := 1000000000, stoptime := 10, est_latency := 3 / 1000\<rparr>,
                 d\<lparr>cpflag := (if arg = ''cpto'' then 2 else 1), iotype := CHR ''0'',
                   cparg := ''cp'', datadir := x\<rparr>)))
      else if arg = ''scp'' then
        strlen_opt v ''No data directory name was given'' (\<lambda>x.
          Inr (g\<lparr>disk := 10, stoptime := 10, est_latency := 3 / 1000\<rparr>,
               d\<lparr>scpflag := 1, iotype := CHR ''0'', cparg := ''scp'', datadir := x,
                 ssh_host := takeWhile (\<lambda>c. c \<noteq> CHR '':'') x\<rparr>))
      else if arg = ''overwrite'' then Inr (g, d\<lparr>overwrite := 1\<rparr>)
      else if arg = ''createfile'' then
        strlen_opt v ''No file size was given'' (\<lambda>x.
          Inr (g, d\<lparr>num_GB := atoi x, cbuf_len := 1073741824\<rparr>))
      else Inl Usage)"

lemma disk_ArgOpt_keeps:
  assumes "disk_ArgOpt arg v (g, d) = Inr st'"
  shows "opts_ok g \<longrightarrow> opts_ok (fst st')"
  using assms unfolding disk_ArgOpt_def Let_def prod.case
  apply (elim if_Inr_keeps)
  apply (simp_all only: sum.inject sum.distinct strlen_opt_Inr sprintf_to_Inr)
  apply ((elim exE conjE)?, hypsubst, simp add: opts_ok_def)+
  done

interpretation disk_args: np_options disk_ArgOpt
proof unfold_locales
  fix arg v and st st' :: "globals \<times> disk_st"
  assume st': "disk_ArgOpt arg v st = Inr st'" and "opts_ok (fst st)"
  obtain g d where "st = (g, d)" by fastforce
  with disk_ArgOpt_keeps st' \<open>opts_ok (fst st)\<close> show "opts_ok (fst st')" by simp
qed

section \<open>File names\<close>

text \<open>\<open>Module_malloc\<close> of a copy test: the name of the source file it creates.\<close>

definition source_file :: "disk_st \<Rightarrow> int \<Rightarrow> string" where
  "source_file d nbytes =
     (if cpflag d = 1 then datadir d @ ''/npdata-in.'' @ show_int nbytes
      else ''npdata-in.'' @ show_int nbytes)"

datatype disk_buf = FileOf string int | Memory int

definition disk_malloc :: "disk_st \<Rightarrow> bool \<Rightarrow> int \<Rightarrow> disk_buf outcome" where
  "disk_malloc d alloc nbytes =
     (if cpflag d \<noteq> 0 \<or> scpflag d \<noteq> 0 then
        sprintf_to 120 (source_file d nbytes) (\<lambda>df. Inr (FileOf df nbytes))
      else errcheck (\<not> alloc) ''Could not malloc'' (Inr (Memory nbytes)))"

definition dest_file :: "disk_st \<Rightarrow> string" where
  "dest_file d = datadir d @ ''/npdata-out.'' @ show_int (filenum d)"

section \<open>SendData\<close>

datatype disk_call =
    System string
  | Getc
  | Scan_string
  | Scan_double
  | Fread int int
  | Putc char
  | Print_string
  | Print_double real
  | Fwrite int int
  | Report_failure     \<comment> \<open>the message that a transfer failed, then \<open>clearerr\<close>\<close>
  | Fflush

text \<open>
  \<open>for( n = 0; n < nbytes; n += step )\<close> around one call: the calls, or \<open>None\<close> out of fuel.
\<close>

fun for_calls :: "nat \<Rightarrow> int \<Rightarrow> int \<Rightarrow> int \<Rightarrow> disk_call \<Rightarrow> disk_call list option" where
  "for_calls 0 n nbytes inc c = (if n < nbytes then None else Some [])"
| "for_calls (Suc fuel) n nbytes inc c =
     (if n < nbytes then map_option (\<lambda>cs. c # cs) (for_calls fuel (n + inc) nbytes inc c) else Some [])"

text \<open>The value of \<open>fs\<close> after \<open>k\<close> calls that assign it.\<close>

definition last_fs :: "(nat \<Rightarrow> int) \<Rightarrow> nat \<Rightarrow> int \<Rightarrow> int" where
  "last_fs rsp k old = (if k = 0 then old else rsp (k - 1))"

definition end_send ::
  "globals \<Rightarrow> disk_st \<Rightarrow> disk_call list \<Rightarrow> (disk_call list \<times> globals \<times> disk_st) outcome option" where
  "end_send g d cs =
     Some (Inr (cs @ (if dk_flush d \<noteq> 0 then [Fflush] else []),
                (if fs d = 0 then g\<lparr>finished := 1\<rparr> else g), d))"

definition disk_SendData ::
  "nat \<Rightarrow> (nat \<Rightarrow> int) \<Rightarrow> (nat \<Rightarrow> nat) \<Rightarrow> bool \<Rightarrow> int \<Rightarrow> globals \<Rightarrow> disk_st
   \<Rightarrow> (disk_call list \<times> globals \<times> disk_st) outcome option" where
  "disk_SendData fuel rsp slen ferr buflen g d0 =
     (let d = d0\<lparr>n_static := n_static d0 + 1\<rparr>; dvar = real_of_int (n_static d) / 3;
          loop = (\<lambda>inc c k. case for_calls fuel 0 buflen inc c of
                     None \<Rightarrow> None | Some cs \<Rightarrow> k cs);
          set_fs = (\<lambda>cs. end_send g (d\<lparr>fs := last_fs rsp (length cs) (fs d)\<rparr>) cs);
          keep_fs = (\<lambda>cs. end_send g d cs);
          stream_io = (\<lambda>c. end_send g (d\<lparr>fs := rsp 0\<rparr>)
                      (c # (if ferr \<or> rsp 0 \<noteq> buflen then [Report_failure] else [])))
      in if fs d = 0 then Some (Inr ([], g, d))
         else if cpflag d \<noteq> 0 \<or> scpflag d \<noteq> 0 then
           (let d1 = (if overwrite d = 0 then d\<lparr>filenum := filenum d + 1\<rparr> else d);
                cmd = (\<lambda>src. sprintf_to 120 (''cp '' @ src @ '' '' @ dest_file d1 @ nl) Inr)
            in if cpflag d1 = 1 then
                 (case cmd (datadir d1 @ ''/npdata-in.'' @ show_int buflen) of
                    Inl e \<Rightarrow> Some (Inl e) | Inr s \<Rightarrow> end_send g d1 [System s])
               else if cpflag d1 = 2 then
                 (case cmd (''npdata-in.'' @ show_int buflen) of
                    Inl e \<Rightarrow> Some (Inl e) | Inr s \<Rightarrow> end_send g d1 [System s])
               else Some (Inl Exit))
         else if iofunc d = CHR ''r'' \<and> iotype d = CHR ''c'' then loop 1 Getc keep_fs
         else if iofunc d = CHR ''r'' \<and> iotype d = CHR ''s'' then
           loop (nchar d) Scan_string (\<lambda>cs.
             if list_ex (\<lambda>k. rsp k = 1 \<and> cbuf_len d < int (slen k) + 1) [0..<length cs]
             then Some (Inl OutOfBounds) else set_fs cs)
         else if iofunc d = CHR ''r'' \<and> iotype d = CHR ''d'' then loop 8 Scan_double set_fs
         else if iofunc d = CHR ''r'' \<and> iotype d = CHR ''u'' then loop 8 (Fread 8 1) set_fs
         else if iofunc d = CHR ''r'' \<and> iotype d = CHR ''b'' then stream_io (Fread 1 buflen)
         else if iofunc d = CHR ''w'' \<and> iotype d = CHR ''c'' then loop 1 (Putc CHR ''o'') keep_fs
         else if iofunc d = CHR ''w'' \<and> iotype d = CHR ''s'' then
           (if 0 < buflen then Some (Inl OutOfBounds)
            else keep_fs [])
         else if iofunc d = CHR ''w'' \<and> iotype d = CHR ''d'' then loop 8 (Print_double dvar) keep_fs
         else if iofunc d = CHR ''w'' \<and> iotype d = CHR ''u'' then loop 8 (Fwrite 8 1) set_fs
         else if iofunc d = CHR ''w'' \<and> iotype d = CHR ''b'' then stream_io (Fwrite buflen 1)
         else Some (Inl (ErrCheck ''SendData unknown iofunc or iotype'')))"

section \<open>The calls of a transfer\<close>

lemma for_calls_eq:
  assumes "0 < inc"
  shows "nat (nbytes - n) \<le> fuel \<Longrightarrow>
     for_calls fuel n nbytes inc c = Some (replicate (nat ((nbytes - n + inc - 1) div inc)) c)"
proof (induction fuel arbitrary: n)
  case 0
  then have "nbytes - n + inc - 1 < inc" by simp
  then have "(nbytes - n + inc - 1) div inc \<le> 0"
    using assms by (cases "0 \<le> nbytes - n + inc - 1") (auto simp: div_pos_pos_trivial div_neg_pos_less0 less_imp_le)
  with 0 show ?case by simp
next
  case (Suc fuel)
  show ?case
  proof (cases "n < nbytes")
    case True
    have "nat (nbytes - (n + inc)) \<le> fuel" using Suc.prems True assms by simp
    from Suc.IH [OF this] have
      "for_calls fuel (n + inc) nbytes inc c = Some (replicate (nat ((nbytes - n - 1) div inc)) c)"
      by (simp add: algebra_simps)
    moreover have "(nbytes - n + inc - 1) div inc = (nbytes - n - 1) div inc + 1"
      using assms div_add_self2 [of inc "nbytes - n - 1"] by (simp add: algebra_simps)
    moreover have "0 \<le> (nbytes - n - 1) div inc" using True assms by (simp add: pos_imp_zdiv_nonneg_iff)
    ultimately show ?thesis using True by (simp add: nat_add_distrib)
  next
    case False
    then have "nbytes - n + inc - 1 < inc" by simp
    then have "(nbytes - n + inc - 1) div inc \<le> 0"
      using assms by (cases "0 \<le> nbytes - n + inc - 1") (auto simp: div_pos_pos_trivial div_neg_pos_less0 less_imp_le)
    with False show ?thesis by simp
  qed
qed

text \<open>
  A write test writes the message once: by characters it makes exactly \<open>buflen\<close> calls, by
  formatted doubles one call for every started eight bytes, and it ends in both cases.
\<close>

theorem disk_write_calls:
  assumes "0 < n" and "fs d \<noteq> 0" and "cpflag d = 0" and "scpflag d = 0" and "iofunc d = CHR ''w''"
    and "nat n \<le> fuel"
  shows "(iotype d = CHR ''c'' \<longrightarrow> disk_SendData fuel rsp slen ferr n g d =
      Some (Inr (replicate (nat n) (Putc CHR ''o'') @ (if dk_flush d \<noteq> 0 then [Fflush] else []), g,
                 d\<lparr>n_static := n_static d + 1\<rparr>)))
    \<and> (iotype d = CHR ''d'' \<longrightarrow> (\<exists>x. disk_SendData fuel rsp slen ferr n g d =
      Some (Inr (replicate (nat ((n + 7) div 8)) (Print_double x)
                   @ (if dk_flush d \<noteq> 0 then [Fflush] else []), g,
                 d\<lparr>n_static := n_static d + 1\<rparr>))))"
  using assms for_calls_eq [of 1 n 0 fuel] for_calls_eq [of 8 n 0 fuel]
  by (auto simp: disk_SendData_def end_send_def Let_def add.commute
      intro!: exI [of _ "real_of_int (n_static d + 1) / 3"])

theorem disk_write_calls_witness:
  "\<exists>x. disk_SendData 20 (\<lambda>_. 1) (\<lambda>_. 1) False 20 init_globals (init_disk\<lparr>iotype := CHR ''d''\<rparr>)
     = Some (Inr ([Print_double x, Print_double x, Print_double x], init_globals,
         init_disk\<lparr>iotype := CHR ''d'', n_static := 1\<rparr>))"
  using disk_write_calls [of 20 "init_disk\<lparr>iotype := CHR ''d''\<rparr>" 20 "\<lambda>_. 1" "\<lambda>_. 1" False
    init_globals]
  by (simp add: init_disk_def eval_nat_numeral)

text \<open>
  A copy test copies the file that was made for it: the source file in the command of
  \<open>SendData\<close> is the one that \<open>Module_malloc\<close> has created for this message size, and without
  \<open>--overwrite\<close> each copy has a destination of its own, the next in the sequence.
\<close>

theorem disk_copies_created_file:
  assumes "cpflag d \<in> {1, 2}" and "fs d \<noteq> 0"
    and "disk_malloc d alloc n = Inr (FileOf src n)"
    and "disk_SendData fuel rsp slen ferr n g d = Some (Inr (cs, g', d'))"
  shows "hd cs = System (''cp '' @ src @ '' '' @ dest_file d' @ nl) \<and> g' = g
    \<and> filenum d' = (if overwrite d = 0 then filenum d + 1 else filenum d)"
proof -
  have src: "src = source_file d n"
    using assms(1,3) by (auto simp: disk_malloc_def sprintf_to_def split: if_splits)
  show ?thesis
    using assms(1,2,4) unfolding src
    by (auto simp: disk_SendData_def end_send_def source_file_def dest_file_def sprintf_to_def
        Let_def split: if_splits)
qed

theorem disk_copies_created_file_witness:
  "\<exists>cs g' d'. disk_SendData 0 (\<lambda>_. 0) (\<lambda>_. 0) False 8 init_globals
       (init_disk\<lparr>cpflag := 2, datadir := ''out''\<rparr>) = Some (Inr (cs, g', d'))
     \<and> hd cs = System (''cp npdata-in.8 out/npdata-out.1'' @ nl)"
proof -
  let ?d = "init_disk\<lparr>cpflag := 2, datadir := ''out''\<rparr>"
  have show1: "show_int 8 = ''8''" "show_int 1 = ''1''"
    by code_simp+
  have m: "disk_malloc ?d True 8 = Inr (FileOf ''npdata-in.8'' 8)"
    by (simp add: disk_malloc_def source_file_def sprintf_to_def show1 init_disk_def)
  obtain cs g' d' where s: "disk_SendData 0 (\<lambda>_. 0) (\<lambda>_. 0) False 8 init_globals ?d
      = Some (Inr (cs, g', d'))"
    by (simp add: disk_SendData_def end_send_def sprintf_to_def dest_file_def show1 init_disk_def
        nl_def Let_def)
  from disk_copies_created_file [OF _ _ m s]
  have "hd cs = System (''cp '' @ ''npdata-in.8'' @ '' '' @ dest_file d' @ nl)" "filenum d' = 1"
    by (simp_all add: init_disk_def)
  moreover have "datadir d' = ''out''"
    using s by (auto simp: disk_SendData_def end_send_def sprintf_to_def init_disk_def Let_def
        split: if_splits)
  ultimately show ?thesis using s by (auto simp: dest_file_def show1)
qed

text \<open>
  A long directory name overflows the command buffer of 120 characters: from 45 characters
  on, every \<open>--cp\<close> copy does.
\<close>

theorem disk_command_overflow:
  assumes "45 \<le> length (datadir d)" and "cpflag d = 1" and "fs d \<noteq> 0"
  shows "disk_SendData fuel rsp slen ferr n g d = Some (Inl OutOfBounds)"
proof -
  have "sprintf_to 120 (''cp '' @ (datadir d @ ''/npdata-in.'' @ show_int n) @ '' ''
      @ (datadir d @ ''/npdata-out.'' @ show_int k) @ nl) Inr = (Inl OutOfBounds :: string outcome)" for k
    using assms(1) show_int_length [of n] show_int_length [of k]
    by (intro sprintf_to_long) (simp add: nl_def)
  from this [of "filenum d"] this [of "filenum d + 1"] assms(2,3) show ?thesis
    by (simp add: disk_SendData_def dest_file_def Let_def)
qed

theorem disk_command_overflow_witness:
  "disk_SendData 0 (\<lambda>_. 0) (\<lambda>_. 0) False 8 init_globals
     (init_disk\<lparr>cpflag := 1, datadir := replicate 50 CHR ''x''\<rparr>) = Some (Inl OutOfBounds)"
  by (rule disk_command_overflow) (simp_all add: init_disk_def)

text \<open>
  The end of the file is not seen by the formatted reads: \<open>fscanf\<close> returns \<open>EOF\<close>, which is
  negative, and the test for the end of the run asks for zero.
\<close>

theorem disk_eof_missed:
  assumes "iofunc d = CHR ''r''" and "iotype d = CHR ''d''" and "fs d \<noteq> 0" and "cpflag d = 0"
    and "scpflag d = 0" and "\<forall>k. rsp k = -1"
    and "disk_SendData fuel rsp slen ferr n g d = Some (Inr (cs, g', d'))"
  shows "finished g' = finished g \<and> fs d' \<noteq> 0"
  using assms by (auto simp: disk_SendData_def end_send_def last_fs_def Let_def split: option.splits if_splits)

theorem disk_eof_missed_witness:
  "\<exists>cs g' d'. disk_SendData 30 (\<lambda>_. -1) (\<lambda>_. 0) False 8 init_globals
       (init_disk\<lparr>iofunc := CHR ''r'', iotype := CHR ''d''\<rparr>) = Some (Inr (cs, g', d'))
     \<and> finished g' = 0"
proof -
  let ?d = "init_disk\<lparr>iofunc := CHR ''r'', iotype := CHR ''d''\<rparr>"
  obtain cs g' d' where s: "disk_SendData 30 (\<lambda>_. -1) (\<lambda>_. 0) False 8 init_globals ?d
      = Some (Inr (cs, g', d'))"
    using for_calls_eq [of 8 8 0 30] by (simp add: disk_SendData_def end_send_def init_disk_def Let_def)
  from disk_eof_missed [OF _ _ _ _ _ _ s] s show ?thesis by (auto simp: init_disk_def init_globals_def)
qed

text \<open>
  A complete binary write of more than one byte is reported as a failure: \<open>fwrite\<close> of one
  item of \<open>buflen\<close> bytes returns 1, and the code compares with \<open>buflen\<close>.
\<close>

theorem disk_binary_write_reported:
  assumes "iofunc d = CHR ''w''" and "iotype d = CHR ''b''" and "fs d \<noteq> 0" and "cpflag d = 0"
    and "scpflag d = 0" and "rsp 0 = 1" and "1 < n"
  shows "\<exists>cs d'. disk_SendData fuel rsp slen False n g d = Some (Inr (Fwrite n 1 # Report_failure # cs, g, d'))"
  using assms by (simp add: disk_SendData_def end_send_def Let_def)

theorem disk_binary_write_reported_witness:
  "\<exists>cs d'. disk_SendData 0 (\<lambda>_. 1) (\<lambda>_. 0) False 1000 init_globals
     (init_disk\<lparr>iotype := CHR ''b''\<rparr>) = Some (Inr (Fwrite 1000 1 # Report_failure # cs, init_globals, d'))"
  by (rule disk_binary_write_reported) (simp_all add: init_disk_def)

text \<open>
  A zero string length divides by zero: the options accept \<open>--string 0\<close>, which makes the
  first message size 0, and the number of repeats is computed by a division by that size.
\<close>

theorem disk_string_zero_divides:
  assumes "disk_ArgOpt ''string'' (Some ''0'') (g, d) = Inr (g', d')"
    and "disk g = 1" and "nrepeat_const g = 0" and "perturbation g = 0"
  shows "run_schedule (Suc fuel) (g'\<lparr>finished := 0\<rparr>) tm = Some (Inl DivByZero)"
proof -
  have g': "g' = g\<lparr>start := 0\<rparr>"
    using assms(1)
    by (auto simp: disk_ArgOpt_def strlen_opt_def errcheck_def atoi_def is_digit_def digit_val_def)
  let ?s = "init_schedule (g'\<lparr>finished := 0\<rparr>)"
  have s: "d_len ?s = 0" "d_nq ?s = 0" "d_inc ?s = 1" "\<not> d_fin ?s"
    by (simp_all add: init_schedule_def g')
  have "\<exists>i. size_round (g'\<lparr>finished := 0\<rparr>) tm ?s = Some (Inl DivByZero)"
    unfolding size_round_eq Let_def
    using s assms(2-4)
    by (simp add: perts_def perturbed_def g' test_point_def nrepeat_for_def obind_def Let_def)
  with s(4) show ?thesis by (simp add: run_schedule_def)
qed

theorem disk_string_zero_divides_witness:
  "\<exists>g' d'. disk_ArgOpt ''string'' (Some ''0'') (disk_Init (init_globals, init_disk)) = Inr (g', d')
     \<and> run_schedule 5 (g'\<lparr>finished := 0\<rparr>) (\<lambda>_ _ _. 1) = Some (Inl DivByZero)"
proof -
  obtain g d where i: "disk_Init (init_globals, init_disk) = (g, d)" by fastforce
  obtain g' d' where a: "disk_ArgOpt ''string'' (Some ''0'') (g, d) = Inr (g', d')"
    by (auto simp: disk_ArgOpt_def strlen_opt_def errcheck_def)
  have "disk g = 1" "nrepeat_const g = 0" "perturbation g = 0"
    using i by (auto simp: disk_Init_def init_globals_def)
  from disk_string_zero_divides [OF a this, of 4 "\<lambda>_ _ _. 1"]
  have "run_schedule 5 (g'\<lparr>finished := 0\<rparr>) (\<lambda>_ _ _. 1) = Some (Inl DivByZero)"
    by (simp only: eval_nat_numeral)
  with a show ?thesis unfolding i by blast
qed

text \<open>
  The string tests are not usable: \<open>cbuf\<close> is filled with letters and has no terminator, so
  the first \<open>fprintf\<close> of a write test reads beyond it, for every string length.
\<close>

theorem disk_string_write_overruns:
  assumes "disk_ArgOpt ''string'' v (g, d) = Inr (g', d')" and "iofunc d = CHR ''w''"
    and "fs d \<noteq> 0" and "cpflag d = 0" and "scpflag d = 0" and "0 < n"
  shows "disk_SendData fuel rsp slen ferr n g' d' = Some (Inl OutOfBounds)"
proof -
  have "iofunc d' = iofunc d" "iotype d' = CHR ''s''" "fs d' = fs d" "cpflag d' = cpflag d"
      "scpflag d' = scpflag d"
    using assms(1) by (auto simp: disk_ArgOpt_def strlen_opt_Inr)
  with assms(2-6) show ?thesis by (simp add: disk_SendData_def Let_def)
qed

theorem disk_string_write_overruns_witness:
  "\<exists>g' d'. disk_ArgOpt ''string'' (Some ''100'') (init_globals, init_disk) = Inr (g', d')
     \<and> disk_SendData 100 (\<lambda>_. 1) (\<lambda>_. 0) False 100 g' d' = Some (Inl OutOfBounds)"
proof -
  obtain g' d' where a: "disk_ArgOpt ''string'' (Some ''100'') (init_globals, init_disk) = Inr (g', d')"
    by (auto simp: disk_ArgOpt_def strlen_opt_def errcheck_def)
  from disk_string_write_overruns [OF a] a show ?thesis by (simp add: init_disk_def)
qed

end
