(* ===== verification/Driver.thy ===== *)
theory Driver
  imports Schedule Mpi Theo Memcpy Disk
begin

text \<open>
  The setup part of \<open>main()\<close> in \<open>src/netpipe.c\<close> around a module: the defaults,
  \<open>Module_Init\<close>, the roles, the command line, \<open>Module_Setup\<close> and the check of the options,
  followed by the main loop.  The program that is linked with one of the modules is one value of
  \<open>np_mod\<close>; the locale \<open>np_program\<close> is what \<open>main()\<close> relies on.
\<close>

section \<open>A module and the program\<close>

record 'm np_mod =
  mod_Init :: "globals \<times> 'm \<Rightarrow> globals \<times> 'm"
  mod_ArgOpt :: "'m arg_opt"
  mod_Setup :: "globals \<times> 'm \<Rightarrow> (globals \<times> 'm) outcome"

definition np_setup :: "'m np_mod \<Rightarrow> string list \<Rightarrow> 'm \<Rightarrow> (globals \<times> 'm) outcome" where
  "np_setup M argv m0 =
     (let (g, m) = mod_Init M (init_globals, m0) in
      obind (parse_args (mod_ArgOpt M) argv (set_roles g, m)) (\<lambda>st.
      obind (mod_Setup M st) (\<lambda>st. map_sum id (\<lambda>g. (g, snd st)) (check_opts (fst st)))))"

text \<open>The whole run: the main loop with the options that the setup has left.\<close>

definition np_main ::
  "nat \<Rightarrow> 'm np_mod \<Rightarrow> string list \<Rightarrow> 'm \<Rightarrow> timing \<Rightarrow> dstate outcome option" where
  "np_main fuel M argv m0 tm =
     (case np_setup M argv m0 of
        Inl e \<Rightarrow> Some (Inl e)
      | Inr (g, m) \<Rightarrow> run_schedule fuel g tm)"

section \<open>The modules\<close>

text \<open>\<open>MPI_Init\<close> gives a process its rank and the number of processes.\<close>

definition tcp_Init :: "int \<Rightarrow> int \<Rightarrow> globals \<times> tcp \<Rightarrow> globals \<times> tcp" where
  "tcp_Init rank n st = ((fst st)\<lparr>myproc := rank, nprocs := n\<rparr>, snd st)"

text \<open>
  \<open>Module_Setup\<close> of NPtcp: the variables and the listening socket; \<open>establish()\<close> is
  the subject of the theory \<open>Tcp\<close>.
\<close>

definition tcp_Setup :: "sock_env \<Rightarrow> int \<Rightarrow> globals \<times> tcp \<Rightarrow> (globals \<times> tcp) outcome" where
  "tcp_Setup e bind_rc st =
     (let t = tcp_Setup_vars (fst st) (snd st)
      in map_sum id (\<lambda>sd. (fst st, t)) (tcp_listen t e bind_rc))"

definition tcp_program :: "int \<Rightarrow> int \<Rightarrow> sock_env \<Rightarrow> int \<Rightarrow> tcp np_mod" where
  "tcp_program rank n e bind_rc =
     \<lparr> mod_Init = tcp_Init rank n, mod_ArgOpt = tcp_opts, mod_Setup = tcp_Setup e bind_rc \<rparr>"

definition mpi_program :: "int \<Rightarrow> int \<Rightarrow> (string \<Rightarrow> string \<Rightarrow> int) \<Rightarrow> int \<Rightarrow> mpi np_mod" where
  "mpi_program rank n cmp any_source =
     \<lparr> mod_Init = mpi_Init rank n, mod_ArgOpt = mpi_ArgOpt cmp any_source,
       mod_Setup = (\<lambda>st. Inr (mpi_Setup st)) \<rparr>"

definition theo_program :: "theo np_mod" where
  "theo_program =
     \<lparr> mod_Init = (\<lambda>(g, t). (theo_Init g, t)), mod_ArgOpt = theo_opts,
       mod_Setup = (\<lambda>(g, t). map_sum id (\<lambda>t. (g, t)) (theo_Setup t)) \<rparr>"

text \<open>NPmemcpy and NPdisk take their rank from \<open>MPI_Init\<close>, too.\<close>

definition mcpy_program :: "int \<Rightarrow> int \<Rightarrow> int \<Rightarrow> mcpy np_mod" where
  "mcpy_program rank n pipe_err =
     \<lparr> mod_Init = (\<lambda>st. mcpy_Init ((fst st)\<lparr>myproc := rank, nprocs := n\<rparr>, snd st)),
       mod_ArgOpt = mcpy_opts pipe_err, mod_Setup = (\<lambda>st. Inr st) \<rparr>"

section \<open>The contract\<close>

locale np_program = np_module "mod_ArgOpt M" for M :: "'m np_mod" +
  assumes init_opts: "mod_Init M (init_globals, m0) = (g, m) \<Longrightarrow> opts_ok (set_roles g) \<and> 1 \<le> start g"
    and setup_keeps: "mod_Setup M st = Inr st' \<Longrightarrow> opts_ok (fst st) \<Longrightarrow> 1 \<le> start (fst st) \<Longrightarrow>
      opts_ok (fst st') \<and> 1 \<le> start (fst st')"
begin

lemma setup_ok:
  assumes "np_setup M argv m0 = Inr (g, m)"
  shows "opts_ok g" and "1 \<le> start g" and "integrityCheck g = 0 \<or> burst g = 0"
proof -
  obtain g0 m1 where i: "mod_Init M (init_globals, m0) = (g0, m1)" by fastforce
  from assms i obtain st st' where p: "parse_args (mod_ArgOpt M) argv (set_roles g0, m1) = Inr st"
      and s: "mod_Setup M st = Inr st'" and c: "check_opts (fst st') = Inr g"
    by (auto simp: np_setup_def obind_Inr_iff check_opts_def errcheck_def split: if_splits)
  have r: "start (set_roles g0) = start g0" by (simp add: set_roles_def Let_def)
  have "opts_ok (fst st)"
    using parse_keeps [OF p] init_opts [OF i] by simp
  moreover have "1 \<le> start (fst st)"
    using parse_keeps_start [OF p] init_opts [OF i] r by simp
  ultimately have "opts_ok (fst st')" "1 \<le> start (fst st')" using setup_keeps [OF s] by auto
  moreover have "g = fst st'" "integrityCheck g = 0 \<or> burst g = 0"
    using c by (auto simp: check_opts_def errcheck_def split: if_splits)
  ultimately show "opts_ok g" and "1 \<le> start g" and "integrityCheck g = 0 \<or> burst g = 0" by auto
qed

lemma main_returns: "\<exists>fuel r. np_main fuel M argv m0 tm = Some r"
proof (cases "np_setup M argv m0")
  case (Inl e)
  then show ?thesis by (simp add: np_main_def)
next
  case (Inr gm)
  obtain g m where gm: "gm = (g, m)" by fastforce
  have "\<exists>r. run_schedule (Suc (nat (end_size g - start g + 1))) g tm = Some r"
    using setup_ok(2) [OF Inr [unfolded gm]] by (rule run_schedule_returns) simp
  then show ?thesis using Inr gm by (auto simp: np_main_def)
qed

end

lemma opts_ok_roles:
  "opts_ok (set_roles g) \<longleftrightarrow> \<not> (stream g \<noteq> 0 \<and> bidir g \<noteq> 0)
     \<and> (bidir g \<noteq> 0 \<longrightarrow> transmitter (set_roles g) \<noteq> 0)
     \<and> (workload g \<noteq> 0 \<or> burst g \<noteq> 0 \<longrightarrow> async g \<noteq> 0) \<and> 1 \<le> ntrials g"
  by (simp add: opts_ok_def set_roles_def Let_def)


lemma opts_ok_async: "opts_ok g \<Longrightarrow> opts_ok (g\<lparr>async := 1\<rparr>)"
  by (simp add: opts_ok_def)

interpretation tcp_main: np_program "tcp_program rank n e bind_rc" for rank n e bind_rc
  by unfold_locales
     (auto simp: tcp_program_def tcp_Init_def tcp_Setup_def init_globals_def opts_ok_roles Let_def
        map_sum_Inr_iff
      intro: tcp_args.keeps_opts tcp_args.keeps_start)

interpretation mpi_main: np_program "mpi_program rank n cmp any_source" for rank n cmp any_source
  by unfold_locales
     (auto simp: mpi_program_def mpi_Init_def mpi_Setup_def init_globals_def opts_ok_roles opts_ok_async
        intro: mpi_args.keeps_opts mpi_args.keeps_start)

interpretation theo_main: np_program theo_program
  by unfold_locales
     (auto simp: theo_program_def theo_Init_def init_globals_def opts_ok_roles
        map_sum_Inr_iff
      intro: theo_args.keeps_opts theo_args.keeps_start)

interpretation mcpy_main: np_program "mcpy_program rank n pipe_err" for rank n pipe_err
  by unfold_locales
     (auto simp: mcpy_program_def mcpy_Init_def init_globals_def opts_ok_roles
      intro: mcpy_args.keeps_opts mcpy_args.keeps_start)

end
