(* ===== verification/Stats.thy ===== *)
theory Stats
  imports Globals "HOL-Library.Multiset"
begin

text \<open>
  What \<open>src/netpipe.c\<close> reports: the times of the trials of a data point, their combination
  over the processes, the throughputs, the latency and the bandwidth at the end, the units in
  which they are printed, and the CPU work of \<open>DoWork\<close>.  Doubles are reals.
\<close>

section \<open>The trials of a data point\<close>

record times =
  min_time :: real
  max_time :: real
  avg_time :: real

definition LONGTIME :: real where "LONGTIME = 10 ^ 99"

definition start_times :: times where
  "start_times = \<lparr>min_time = LONGTIME, max_time = 0, avg_time = 0\<rparr>"

definition add_trial :: "globals \<Rightarrow> real \<Rightarrow> times \<Rightarrow> times" where
  "add_trial g t s =
     \<lparr>min_time = (if min_time s < t then min_time s else t),
      max_time = (if max_time s > t then max_time s else t),
      avg_time = avg_time s + t / real_of_int (ntrials g)\<rparr>"

text \<open>
  From the elapsed time of a trial to the one-way time: protected against 0, per repeat, and
  half of the round trip unless the traffic is streamed or bidirectional.
\<close>

definition trial_time :: "globals \<Rightarrow> real \<Rightarrow> int \<Rightarrow> real \<Rightarrow> real" where
  "trial_time g clock_res nrepeat elapsed =
     (let t = (if elapsed > clock_res then elapsed else clock_res) / real_of_int nrepeat
      in if stream g = 0 \<and> bidir g = 0 then t / 2 else t)"

definition run_trials :: "globals \<Rightarrow> real list \<Rightarrow> times" where
  "run_trials g ts = fold (add_trial g) ts start_times"

text \<open>
  Streaming gathers the times of the receivers, or of all processes for reads and writes, at
  process 0: \<open>mins\<close>, \<open>maxs\<close> and \<open>avgs\<close> are the arrays that \<open>Gather\<close> fills there.
\<close>

definition gathered :: "globals \<Rightarrow> 'a list \<Rightarrow> 'a list" where
  "gathered g xs = (if rwstream g \<noteq> 0 then take (nat (nprocs g)) xs
     else drop (nat (c_div (nprocs g) 2)) (take (nat (nprocs g)) xs))"

definition combine_times :: "globals \<Rightarrow> real list \<Rightarrow> real list \<Rightarrow> real list \<Rightarrow> times \<Rightarrow> times" where
  "combine_times g mins maxs avgs s =
     (if stream g \<noteq> 0 then
        \<lparr>min_time = fold (\<lambda>x m. if m < x then m else x) (gathered g mins) (min_time s),
         max_time = fold (\<lambda>x m. if m > x then m else x) (gathered g maxs) (max_time s),
         avg_time = fold (\<lambda>x a. a + x / real_of_int
                      (if rwstream g \<noteq> 0 then nprocs g else npairs_of g)) (gathered g avgs) 0\<rparr>
      else s)"

definition protect_zero :: "times \<Rightarrow> times" where
  "protect_zero s = (if min_time s < 1 / 1000000 then s\<lparr>min_time := 1 / 1000000\<rparr> else s)"

definition gbps :: "globals \<Rightarrow> int \<Rightarrow> real \<Rightarrow> real" where
  "gbps g buflen t = real_of_int (npairs_of g) * real_of_int (buflen * (1 + bidir g)) * 8 / 10 ^ 9 / t"

definition throughputs :: "globals \<Rightarrow> int \<Rightarrow> times \<Rightarrow> real \<times> real \<times> real" where
  "throughputs g buflen s =
     (gbps g buflen (max_time s), gbps g buflen (avg_time s), gbps g buflen (min_time s))"

lemma run_trials_bounds:
  assumes "\<forall>t \<in> set ts. 0 < t \<and> t < LONGTIME" and "0 < ntrials g" and "0 \<le> max_time s"
    and "0 < min_time s"
  defines "s' \<equiv> fold (add_trial g) ts s"
  shows "min_time s' \<le> min_time s \<and> (\<forall>t \<in> set ts. min_time s' \<le> t \<and> t \<le> max_time s')
    \<and> max_time s \<le> max_time s' \<and> 0 < min_time s'
    \<and> avg_time s' = avg_time s + sum_list ts / real_of_int (ntrials g)"
  unfolding s'_def using assms(1,3,4)
proof (induction ts arbitrary: s)
  case (Cons t ts)
  have "0 \<le> max_time (add_trial g t s)" "0 < min_time (add_trial g t s)"
    using Cons.prems by (auto simp: add_trial_def)
  with Cons.IH [of "add_trial g t s"] Cons.prems show ?case
    by (auto simp: add_trial_def add_divide_distrib split: if_splits)
qed simp

lemma sum_list_bounds:
  "\<forall>t \<in> set ts. a \<le> t \<and> t \<le> (b::real) \<Longrightarrow>
     real (length ts) * a \<le> sum_list ts \<and> sum_list ts \<le> real (length ts) * b"
  by (induction ts) (auto simp: algebra_simps)

lemma run_trials_order:
  assumes "\<forall>t \<in> set ts. 0 < t \<and> t < LONGTIME" and "0 < ntrials g"
    and "int (length ts) = ntrials g"
  shows "0 < min_time (run_trials g ts) \<and> min_time (run_trials g ts) \<le> avg_time (run_trials g ts)
    \<and> avg_time (run_trials g ts) \<le> max_time (run_trials g ts)"
proof -
  let ?s = "run_trials g ts"
  have b: "\<forall>t \<in> set ts. min_time ?s \<le> t \<and> t \<le> max_time ?s" "0 < min_time ?s"
      "avg_time ?s = sum_list ts / real_of_int (ntrials g)"
    using run_trials_bounds [OF assms(1,2), of start_times]
    by (auto simp: run_trials_def start_times_def LONGTIME_def)
  have n: "real (length ts) = real_of_int (ntrials g)" using assms(3) by (metis of_int_of_nat_eq)
  have pos: "0 < real_of_int (ntrials g)" using assms(2) by simp
  from sum_list_bounds [OF b(1)] n
  have "min_time ?s * real_of_int (ntrials g) \<le> sum_list ts"
      "sum_list ts \<le> max_time ?s * real_of_int (ntrials g)"
    by (simp_all add: mult.commute)
  then have "min_time ?s \<le> sum_list ts / real_of_int (ntrials g)"
      "sum_list ts / real_of_int (ntrials g) \<le> max_time ?s"
    using pos by (simp_all only: pos_le_divide_eq pos_divide_le_eq)
  with b(2,3) show ?thesis by simp
qed

text \<open>
  The reported throughputs of a data point are ordered as their names say: minimum, average,
  maximum, for any positive trial times of at least a microsecond.
\<close>

theorem throughputs_ordered:
  assumes "list_all (\<lambda>t. 1 / 1000000 \<le> t \<and> t < LONGTIME) ts" and "0 < ntrials g"
    and "int (length ts) = ntrials g" and "0 < buflen" and "0 \<le> bidir g" and "0 < nprocs g"
    and "throughputs g buflen (protect_zero (run_trials g ts)) = (lo, avg, hi)"
  shows "lo \<le> avg \<and> avg \<le> hi"
proof -
  let ?s = "run_trials g ts"
  have ts: "\<forall>t \<in> set ts. 1 / 1000000 \<le> t \<and> t < LONGTIME" using assms(1) by (simp add: list_all_iff)
  then have pos: "\<forall>t \<in> set ts. 0 < t \<and> t < LONGTIME" by force
  note o = run_trials_order [OF pos assms(2,3)]
  have np: "0 \<le> npairs_of g" using assms(6) by (auto simp: npairs_of_def)
  have "0 \<le> real_of_int (npairs_of g) * real_of_int (buflen * (1 + bidir g)) * 8 / 10 ^ 9"
    using np assms(4,5) by simp
  then have le: "gbps g buflen b \<le> gbps g buflen a" if "0 < a" "a \<le> b" for a b
    unfolding gbps_def using that by (intro divide_left_mono) auto
  have "1 / 1000000 \<le> min_time (fold (add_trial g) ts s)" if "1 / 1000000 \<le> min_time s" for s
    using ts that by (induction ts arbitrary: s) (auto simp: add_trial_def)
  then have "\<not> min_time ?s < 1 / 1000000"
    by (auto simp: run_trials_def start_times_def LONGTIME_def not_less)
  then have "protect_zero ?s = ?s" by (simp add: protect_zero_def)
  with assms(7) le o show ?thesis by (auto simp: throughputs_def)
qed

theorem throughputs_ordered_witness:
  "\<exists>lo avg hi. throughputs (init_globals\<lparr>nprocs := 2, ntrials := 3\<rparr>) 1024
      (protect_zero (run_trials (init_globals\<lparr>nprocs := 2, ntrials := 3\<rparr>) [3 / 1000, 1 / 1000, 2 / 1000]))
      = (lo, avg, hi) \<and> lo \<le> avg \<and> avg \<le> hi"
proof -
  let ?g = "init_globals\<lparr>nprocs := 2, ntrials := 3\<rparr>" and ?ts = "[3 / 1000, 1 / 1000, 2 / 1000]"
  obtain lo avg hi where t: "throughputs ?g 1024 (protect_zero (run_trials ?g ?ts)) = (lo, avg, hi)"
    by (metis prod_cases3)
  from throughputs_ordered [OF _ _ _ _ _ _ t] t show ?thesis
    by (simp add: LONGTIME_def init_globals_def)
qed

text \<open>
  Below a microsecond the protection against a zero time spoils the maximum: one trial of
  less than a microsecond is reported with a maximum throughput below its average, although
  both come from the same time.
\<close>

theorem submicrosecond_max_too_low:
  assumes "0 < t" and "t < 1 / 1000000" and "ntrials g = 1" and "0 < buflen" and "0 \<le> bidir g"
    and "1 < nprocs g" and "throughputs g buflen (protect_zero (run_trials g [t])) = (lo, avg, hi)"
  shows "hi < avg"
proof -
  have s: "protect_zero (run_trials g [t]) = \<lparr>min_time = 1 / 1000000, max_time = t, avg_time = t\<rparr>"
    using assms(1-3) by (simp add: run_trials_def start_times_def add_trial_def protect_zero_def LONGTIME_def)
  have "0 < npairs_of g" using assms(6) by (auto simp: npairs_of_def)
  then have "0 < real_of_int (npairs_of g) * real_of_int (buflen * (1 + bidir g)) * 8 / 10 ^ 9"
    using assms(4,5) by simp
  then have "gbps g buflen (1 / 1000000) < gbps g buflen t"
    unfolding gbps_def using assms(1,2) by (intro divide_strict_left_mono) auto
  with assms(7) s show ?thesis by (simp add: throughputs_def)
qed

theorem submicrosecond_max_too_low_witness:
  "\<exists>lo avg hi. throughputs (init_globals\<lparr>nprocs := 2, ntrials := 1\<rparr>) 8
      (protect_zero (run_trials (init_globals\<lparr>nprocs := 2, ntrials := 1\<rparr>) [1 / 10000000]))
      = (lo, avg, hi) \<and> hi < avg"
proof -
  let ?g = "init_globals\<lparr>nprocs := 2, ntrials := 1\<rparr>"
  obtain lo avg hi where t: "throughputs ?g 8 (protect_zero (run_trials ?g [1 / 10000000])) = (lo, avg, hi)"
    by (metis prod_cases3)
  from submicrosecond_max_too_low [OF _ _ _ _ _ _ t] t show ?thesis by (simp add: init_globals_def)
qed

section \<open>The latency\<close>

text \<open>
  \<open>avg_latency\<close> of a transmitter: the one-way times of the first ten data points, each with
  the times of its trials, divided at the end.
\<close>

definition sum_latency :: "real list list \<Rightarrow> real" where
  "sum_latency points = sum_list (map sum_list (take 10 points))"

definition final_latency :: "globals \<Rightarrow> real list list \<Rightarrow> real" where
  "final_latency g points =
     (let n = int (length points); a = sum_latency points
      in if n > 1 then a / real_of_int (ntrials g * (if n - 1 < 10 then n - 1 else 10)) else a)"

lemma sum_latency_const:
  "sum_latency (replicate n (replicate k t)) = real (min n 10) * (real k * t)"
  by (simp add: sum_latency_def take_replicate sum_list_replicate min_def)

text \<open>
  The latency is too high for a short run: with \<open>n\<close> data points, \<open>n\<close> from 2 to 10, the sum
  over \<open>n\<close> points is divided by \<open>n - 1\<close>, so that \<open>n\<close> equal measurements of \<open>t\<close> are reported as
  \<open>n / (n - 1)\<close> times \<open>t\<close>; from 11 points on the result is \<open>t\<close>.
\<close>

theorem latency_off_by_one:
  assumes "0 < ntrials g" and "1 < n"
  shows "final_latency g (replicate n (replicate (nat (ntrials g)) t)) =
    (if n \<le> 10 then real n / real (n - 1) * t else t)"
proof -
  obtain k where k: "ntrials g = int k" "0 < k" using assms(1) pos_int_cases by blast
  show ?thesis
  proof (cases "n \<le> 10")
    case True
    with assms(2) k show ?thesis
      by (simp add: final_latency_def sum_latency_const of_nat_diff Let_def field_simps)
  next
    case False
    with assms(2) k show ?thesis
      by (simp add: final_latency_def sum_latency_const Let_def field_simps)
  qed
qed

theorem latency_off_by_one_witness:
  "final_latency (init_globals\<lparr>ntrials := 7\<rparr>) (replicate 3 (replicate 7 4)) = 6
   \<and> final_latency (init_globals\<lparr>ntrials := 7\<rparr>) (replicate 12 (replicate 7 4)) = 4"
  using latency_off_by_one [of "init_globals\<lparr>ntrials := 7\<rparr>" 3 4]
    latency_off_by_one [of "init_globals\<lparr>ntrials := 7\<rparr>" 12 4]
  by simp

section \<open>The bandwidth\<close>

text \<open>
  \<open>AverageBandwidth\<close> keeps the \<open>nrates\<close> highest rates in a static array, \<open>None\<close> before the
  first call.
\<close>

definition nrates_of :: "globals \<Rightarrow> nat" where
  "nrates_of g = (if perturbation g \<noteq> 0 then 10 else 5)"

definition lowest_step :: "real list \<Rightarrow> nat \<Rightarrow> real \<times> nat \<Rightarrow> real \<times> nat" where
  "lowest_step bw i = (\<lambda>(low, idx). if bw ! i < low then (bw ! i, i) else (low, idx))"

definition find_lowest :: "nat \<Rightarrow> real list \<Rightarrow> real \<times> nat" where
  "find_lowest n bw = fold (lowest_step bw) [0..<n] (10 ^ 100, 0)"

definition AverageBandwidth :: "globals \<Rightarrow> real \<Rightarrow> real list option \<Rightarrow> real \<times> real list option" where
  "AverageBandwidth g rate st =
     (let nrates = nrates_of g;
          bw = (case st of None \<Rightarrow> replicate nrates 0 | Some bw \<Rightarrow> bw);
          (low, idx) = find_lowest nrates bw;
          bw' = (if rate > low then bw[idx := rate] else bw)
      in (fold (\<lambda>i a. a + bw' ! i / real nrates) [0..<nrates] 0, Some bw'))"

lemma find_lowest_props:
  assumes "\<exists>i < n. bw ! i < 10 ^ 100"
  shows "\<exists>idx < n. find_lowest n bw = (bw ! idx, idx) \<and> (\<forall>j < n. bw ! idx \<le> bw ! j)"
proof -
  have "let (low, idx) = find_lowest n bw in (\<forall>j < n. low \<le> bw ! j) \<and> low \<le> 10 ^ 100
      \<and> (low < 10 ^ 100 \<longrightarrow> idx < n \<and> bw ! idx = low)"
  proof (induction n)
    case (Suc n)
    then show ?case
      by (auto simp: find_lowest_def lowest_step_def Let_def less_Suc_eq split: prod.splits)
  qed (simp add: find_lowest_def)
  then obtain low idx where l: "find_lowest n bw = (low, idx)" "\<forall>j < n. low \<le> bw ! j"
      "low < 10 ^ 100 \<longrightarrow> idx < n \<and> bw ! idx = low"
    by (auto simp: Let_def split: prod.splits)
  from assms l(2) have "low < 10 ^ 100" by force
  with l show ?thesis by auto
qed

text \<open>
  The specification: \<open>bw\<close> holds \<open>n\<close> of the rates seen, counting \<open>n\<close> initial zeros, and every
  rate left out is at most every rate kept.
\<close>

definition top_rates :: "nat \<Rightarrow> real multiset \<Rightarrow> real list \<Rightarrow> bool" where
  "top_rates n seen bw \<longleftrightarrow> length bw = n \<and> (\<exists>dropped. mset bw + dropped = seen
     \<and> (\<forall>d \<in># dropped. \<forall>b \<in> set bw. d \<le> b))"

lemma sum_list_divide: "sum_list (map (\<lambda>x. f x / c) xs) = sum_list (map f xs) / (c::real)"
  by (induction xs) (simp_all add: add_divide_distrib)

lemma fold_mean:
  "length bw = n \<Longrightarrow> fold (\<lambda>i a. a + bw ! i / real n) [0..<n] 0 = sum_list bw / real n"
proof -
  have "fold (\<lambda>i a. a + f i) [0..<k] (0::real) = sum_list (map f [0..<k])" for f :: "nat \<Rightarrow> real" and k
    by (induction k) simp_all
  moreover assume "length bw = n"
  then have "sum_list (map (\<lambda>i. bw ! i / real n) [0..<n]) = sum_list bw / real n"
    using map_nth [of bw] by (simp add: sum_list_divide)
  ultimately show ?thesis by simp
qed

lemma top_rates_drop:
  assumes "top_rates n seen bw" and "\<forall>b \<in> set bw. r \<le> b"
  shows "top_rates n (add_mset r seen) bw"
proof -
  from assms(1) obtain dropped where "length bw = n" "mset bw + dropped = seen"
      "\<forall>d \<in># dropped. \<forall>b \<in> set bw. d \<le> b"
    by (auto simp: top_rates_def)
  with assms(2) show ?thesis
    unfolding top_rates_def by (intro conjI exI [of _ "add_mset r dropped"]) auto
qed

lemma top_rates_replace:
  assumes "top_rates n seen bw" and "i < n" and "\<forall>j < n. bw ! i \<le> bw ! j" and "bw ! i < r"
  shows "top_rates n (add_mset r seen) (bw[i := r])"
proof -
  from assms(1) obtain dropped where d: "length bw = n" "mset bw + dropped = seen"
      "\<forall>d \<in># dropped. \<forall>b \<in> set bw. d \<le> b"
    by (auto simp: top_rates_def)
  have "bw ! i \<in># mset bw" using assms(2) d(1) by simp
  then have "mset (bw[i := r]) + add_mset (bw ! i) dropped = add_mset r seen"
    using d(1,2) assms(2) by (auto simp: mset_update insert_DiffM)
  moreover have "bw ! i \<le> b" if "b \<in> set bw" for b
    using that assms(3) d(1) by (auto simp: in_set_conv_nth)
  with assms(4) have low: "bw ! i \<le> b" if "b \<in> set (bw[i := r])" for b
    using that set_update_subset_insert [of bw i r] by (auto dest: subsetD)
  have "d \<le> b" if "d \<in># add_mset (bw ! i) dropped" "b \<in> set (bw[i := r])" for d b
    using that low [OF that(2)] d(1,3) assms(2) by (metis insert_iff nth_mem order_trans set_mset_add_mset_insert)
  ultimately show ?thesis
    unfolding top_rates_def using d(1) by (intro conjI exI [of _ "add_mset (bw ! i) dropped"]) auto
qed

lemma AverageBandwidth_step:
  assumes "top_rates (nrates_of g) seen bw" and "\<exists>b \<in> set bw. b < 10 ^ 100"
  shows "\<exists>bw'. AverageBandwidth g r (Some bw) = (sum_list bw' / real (nrates_of g), Some bw')
    \<and> top_rates (nrates_of g) (add_mset r seen) bw'"
proof -
  let ?n = "nrates_of g"
  have len: "length bw = ?n" using assms(1) by (simp add: top_rates_def)
  with assms(2) have "\<exists>i < ?n. bw ! i < 10 ^ 100" by (metis in_set_conv_nth)
  from find_lowest_props [OF this] obtain i where i: "i < ?n" "find_lowest ?n bw = (bw ! i, i)"
      "\<forall>j < ?n. bw ! i \<le> bw ! j" by blast
  let ?bw = "if r > bw ! i then bw[i := r] else bw"
  have "\<forall>b \<in> set bw. bw ! i \<le> b" using i(3) len by (auto simp: in_set_conv_nth)
  then have "\<forall>b \<in> set bw. r \<le> b" if "r \<le> bw ! i" using that by force
  then have "top_rates ?n (add_mset r seen) ?bw"
    using top_rates_replace [OF assms(1) i(1,3)] top_rates_drop [OF assms(1), of r] by simp
  moreover have "AverageBandwidth g r (Some bw) = (sum_list ?bw / real ?n, Some ?bw)"
    using i(2) len fold_mean [of ?bw ?n] by (simp add: AverageBandwidth_def Let_def)
  ultimately show ?thesis by blast
qed

definition bandwidth_run :: "globals \<Rightarrow> real list \<Rightarrow> real \<times> real list option" where
  "bandwidth_run g rates = fold (\<lambda>r (a, st). AverageBandwidth g r st) rates (0, None)"

lemma top_rates_small:
  assumes "top_rates n (replicate_mset n 0 + mset rates) bw" and "0 < n"
    and "\<forall>r \<in> set rates. r < 10 ^ 100"
  shows "\<exists>b \<in> set bw. b < 10 ^ 100"
proof -
  from assms(1,2) obtain b where b: "b \<in> set bw" by (cases bw) (auto simp: top_rates_def)
  from assms(1) obtain dropped where "mset bw + dropped = replicate_mset n 0 + mset rates"
    by (auto simp: top_rates_def)
  then have "set_mset (mset bw) \<subseteq> set_mset (replicate_mset n 0 + mset rates)"
    by (metis mset_subset_eq_add_left set_mset_mono)
  then have "b = 0 \<or> b \<in> set rates" using b by (auto split: if_splits)
  with assms(3) b show ?thesis by (intro bexI [of _ b]) auto
qed

text \<open>
  The bandwidth at the end of a run is the mean of the highest rates: after any sequence of
  data points the array holds the 10 (5 without perturbations) highest of the rates, counting
  initial zeros, and the value returned last is their mean.
\<close>

theorem bandwidth_mean_of_top:
  assumes "rates \<noteq> []" and "list_all (\<lambda>r. r < 10 ^ 100) rates"
  shows "\<exists>bw. bandwidth_run g rates = (sum_list bw / real (nrates_of g), Some bw)
    \<and> top_rates (nrates_of g) (replicate_mset (nrates_of g) 0 + mset rates) bw"
proof -
  let ?n = "nrates_of g"
  have n: "0 < ?n" by (simp add: nrates_of_def)
  have start: "AverageBandwidth g r None = AverageBandwidth g r (Some (replicate ?n 0))" for r
    by (simp add: AverageBandwidth_def)
  have zero: "top_rates ?n (replicate_mset ?n 0) (replicate ?n 0)"
    unfolding top_rates_def by (intro conjI exI [of _ "{#}"]) simp_all
  show ?thesis using assms
  proof (induction rates rule: rev_induct)
    case (snoc r rates)
    show ?case
    proof (cases "rates = []")
      case True
      from AverageBandwidth_step [OF zero, of r] n start [of r] True show ?thesis
        by (auto simp: bandwidth_run_def)
    next
      case False
      with snoc obtain bw where bw: "bandwidth_run g rates = (sum_list bw / real ?n, Some bw)"
          "top_rates ?n (replicate_mset ?n 0 + mset rates) bw" by auto
      have "\<forall>r \<in> set rates. r < 10 ^ 100" using snoc.prems(2) by (simp add: list_all_iff)
      from AverageBandwidth_step [OF bw(2) top_rates_small [OF bw(2) n this], of r] bw(1)
      show ?thesis by (simp add: bandwidth_run_def)
    qed
  qed simp
qed

theorem bandwidth_mean_of_top_witness:
  "\<exists>bw. bandwidth_run (init_globals\<lparr>perturbation := 0\<rparr>) [3, 1, 4, 1, 5, 9, 2, 6]
      = (sum_list bw / 5, Some bw)
    \<and> top_rates 5 (replicate_mset 5 0 + mset [3, 1, 4, 1, 5, 9, 2, 6]) bw"
  using bandwidth_mean_of_top [of "[3, 1, 4, 1, 5, 9, 2, 6]" "init_globals\<lparr>perturbation := 0\<rparr>"]
  by (simp add: nrates_of_def)

section \<open>Units\<close>

text \<open>The scaled number and the unit that are printed.\<close>

definition bytestring :: "int \<Rightarrow> real \<times> string" where
  "bytestring n =
     (let x = real_of_int n in
      if x < 10 ^ 3 then (x, ''B'')
      else if x < 10 ^ 6 then (x / 10 ^ 3, ''KB'')
      else if x < 10 ^ 9 then (x / 10 ^ 6, ''MB'')
      else if x < 10 ^ 12 then (x / 10 ^ 9, ''GB'')
      else (x / 10 ^ 12, ''TB''))"

definition bitstring :: "real \<Rightarrow> real \<times> string" where
  "bitstring g =
     (let bps = g * 10 ^ 9 in
      if bps < 10 ^ 3 then (bps, ''bps'')
      else if bps < 10 ^ 6 then (bps / 10 ^ 3, ''Kbps'')
      else if bps < 10 ^ 9 then (bps / 10 ^ 6, ''Mbps'')
      else if bps < 10 ^ 12 then (bps / 10 ^ 9, ''Gbps'')
      else (bps / 10 ^ 12, ''Tbps''))"

definition timestring :: "real \<Rightarrow> real \<times> string" where
  "timestring secs =
     (if secs < 1 / 10 ^ 6 then (secs * 10 ^ 9, ''nsecs'')
      else if secs < 1 / 10 ^ 3 then (secs * 10 ^ 6, ''usecs'')
      else if secs < 1 then (secs * 10 ^ 3, ''msecs'')
      else (secs, ''secs''))"

lemma bytestring_range: "1000 \<le> n \<Longrightarrow> is_c_int n \<Longrightarrow> 1 \<le> fst (bytestring n) \<and> fst (bytestring n) < 1000"
  by (auto simp: bytestring_def Let_def is_c_int_def INT_MAX_def)

lemma timestring_range: "1 / 10 ^ 6 \<le> s \<Longrightarrow> s < 1 \<Longrightarrow> 1 \<le> fst (timestring s) \<and> fst (timestring s) < 1000"
  by (auto simp: timestring_def)

end
