(* ===== verification/Work.thy ===== *)
theory Work
  imports Globals
begin

text \<open>
  The CPU work of \<open>DoWork\<close> in \<open>src/netpipe.c\<close>, done while a message is in flight: its matrices
  and vectors, one unit of each kind of work, and the loop that works until the message is
  complete or, for a calibration, a given number of times.  Arrays are functions of their
  indices.
\<close>

section \<open>State\<close>

record work =
  wA :: "(nat \<Rightarrow> nat \<Rightarrow> real) option"
  wB :: "nat \<Rightarrow> nat \<Rightarrow> real"
  wC :: "nat \<Rightarrow> nat \<Rightarrow> real"
  wX :: "(nat \<Rightarrow> real) option"
  wY :: "nat \<Rightarrow> real"
  wZ :: "nat \<Rightarrow> real"
  w_a :: real
  flops :: real
  bytes_moved :: real

definition no_work :: work where
  "no_work = \<lparr>wA = None, wB = (\<lambda>_ _. 0), wC = (\<lambda>_ _. 0), wX = None, wY = (\<lambda>_. 0), wZ = (\<lambda>_. 0),
     w_a = 0, flops = 0, bytes_moved = 0\<rparr>"

text \<open>The first call of a kind allocates and initialises; \<open>pi\<close> is \<open>2*acos(0)\<close>.\<close>

definition init_work :: "string \<Rightarrow> nat \<Rightarrow> real \<Rightarrow> work \<Rightarrow> work" where
  "init_work type nelem pi_val s =
     (if type = ''matrix'' \<and> wA s = None then
        s\<lparr>wA := Some (\<lambda>i j. real (i * nelem + j)), wB := (\<lambda>i j. 2 * real j - 1), wC := (\<lambda>i j. 0)\<rparr>
      else if wX s = None then
        s\<lparr>w_a := pi_val, wX := Some real, wY := (\<lambda>i. real (i * i)), wZ := (\<lambda>_. 0)\<rparr>
      else s)"

section \<open>One unit of work\<close>

text \<open>The three nested loops of \<open>C[i][j] += A[i][k] * B[k][j]\<close>.\<close>

definition mat_k :: "(nat \<Rightarrow> nat \<Rightarrow> real) \<Rightarrow> (nat \<Rightarrow> nat \<Rightarrow> real) \<Rightarrow> nat \<Rightarrow> nat \<Rightarrow> nat
    \<Rightarrow> (nat \<Rightarrow> nat \<Rightarrow> real) \<Rightarrow> nat \<Rightarrow> nat \<Rightarrow> real" where
  "mat_k A B i j k C = C(i := (C i)(j := C i j + A i k * B k j))"

definition mat_j where
  "mat_j n A B i j C = fold (mat_k A B i j) [0..<n] C"

definition mat_i where
  "mat_i n A B i C = fold (mat_j n A B i) [0..<n] C"

definition mat_mult :: "nat \<Rightarrow> (nat \<Rightarrow> nat \<Rightarrow> real) \<Rightarrow> (nat \<Rightarrow> nat \<Rightarrow> real) \<Rightarrow> (nat \<Rightarrow> nat \<Rightarrow> real)
    \<Rightarrow> nat \<Rightarrow> nat \<Rightarrow> real" where
  "mat_mult n A B C = fold (mat_i n A B) [0..<n] C"

text \<open>\<open>2 * nelem*nelem*nelem\<close> is computed as an \<open>int\<close>.\<close>

definition matrix_flops :: "nat \<Rightarrow> real outcome" where
  "matrix_flops n =
     (let x = 2 * int n * int n * int n
      in if is_c_int x then Inr (real_of_int x) else Inl Overflow)"

definition work_unit :: "string \<Rightarrow> nat \<Rightarrow> nat \<Rightarrow> work \<Rightarrow> work outcome" where
  "work_unit type n ntests s =
     (if n = 0 \<and> type \<in> {''matrix'', ''daxpy'', ''memcpy''} then Inl OutOfBounds
      else if type = ''matrix'' then
        (case wA s of None \<Rightarrow> Inl NullDeref
         | Some A \<Rightarrow>
             obind (matrix_flops n) (\<lambda>f.
               Inr (s\<lparr>wC := mat_mult n A (wB s) (wC s),
                      wB := (wB s)(n - 1 := (wB s (n - 1))(n - 1 := real ntests)),
                      wA := Some (A(0 := (A 0)(0 := real ntests))), flops := flops s + f\<rparr>)))
      else if type = ''daxpy'' then
        (case wX s of None \<Rightarrow> Inl NullDeref
         | Some X \<Rightarrow>
             Inr (s\<lparr>wZ := (\<lambda>i. if i < n then w_a s * X i + wY s i else wZ s i),
                    wX := Some (X(n - 1 := real ntests, 0 := real ntests)),
                    flops := flops s + real (n * 2)\<rparr>))
      else if type = ''memcpy'' then
        (case wX s of None \<Rightarrow> Inl NullDeref
         | Some X \<Rightarrow>
             Inr (s\<lparr>wZ := (\<lambda>i. if i < n then X i else wZ s i),
                    wX := Some (X(n - 1 := real ntests, 0 := real ntests)),
                    bytes_moved := bytes_moved s + real (n * 8)\<rparr>))
      else Inr s)"

fun work_units :: "nat \<Rightarrow> string \<Rightarrow> nat \<Rightarrow> nat \<Rightarrow> work \<Rightarrow> work outcome" where
  "work_units 0 type n ntests s = Inr s"
| "work_units (Suc count) type n ntests s = obind (work_unit type n ntests s) (work_units count type n ntests)"

text \<open>
  The loop \<open>while( calibration || ! TestForCompletion() )\<close>: \<open>test k\<close> is the answer of the
  \<open>k\<close>-th test, \<open>None\<close> that the loop still runs.
\<close>

fun work_loop ::
  "nat \<Rightarrow> string \<Rightarrow> nat \<Rightarrow> nat \<Rightarrow> int \<Rightarrow> (nat \<Rightarrow> bool) \<Rightarrow> nat \<Rightarrow> work \<Rightarrow> work outcome option" where
  "work_loop 0 type n count cal test ntests s = None"
| "work_loop (Suc fuel) type n count cal test ntests s =
     (if cal = 0 \<and> test ntests then Some (Inr s)
      else case work_units count type n (ntests + 1) s of
        Inl e \<Rightarrow> Some (Inl e)
      | Inr s' \<Rightarrow> if int (ntests + 1) = cal then Some (Inr s')
                 else work_loop fuel type n count cal test (ntests + 1) s')"

definition DoWork ::
  "nat \<Rightarrow> string \<Rightarrow> nat \<Rightarrow> nat \<Rightarrow> int \<Rightarrow> (nat \<Rightarrow> bool) \<Rightarrow> real \<Rightarrow> work \<Rightarrow> (real \<times> work) outcome option" where
  "DoWork fuel type nelem count cal test pi_val s =
     map_option (map_sum id (\<lambda>s'. (if flops s' > bytes_moved s' then flops s' else bytes_moved s', s')))
       (work_loop fuel type nelem count cal test 0
          ((init_work type nelem pi_val s)\<lparr>flops := 0, bytes_moved := 0\<rparr>))"

section \<open>The matrix product\<close>

lemma mat_j_eq:
  "mat_j n A B i j C = C(i := (C i)(j := C i j + (\<Sum>k<n. A i k * B k j)))"
proof (induction n)
  case (Suc n)
  then show ?case by (simp add: mat_j_def mat_k_def fun_eq_iff)
qed (simp add: mat_j_def)

lemma mat_i_part:
  "fold (mat_j n A B i) [0..<m] C =
     C(i := (\<lambda>j. if j < m then C i j + (\<Sum>k<n. A i k * B k j) else C i j))"
proof (induction m)
  case (Suc m)
  then show ?case by (auto simp: mat_j_eq fun_eq_iff less_Suc_eq)
qed (simp add: fun_eq_iff)

lemma mat_mult_part:
  "fold (mat_i n A B) [0..<m] C =
     (\<lambda>i. if i < m then (\<lambda>j. if j < n then C i j + (\<Sum>k<n. A i k * B k j) else C i j) else C i)"
proof (induction m)
  case (Suc m)
  then show ?case by (auto simp: mat_i_def mat_i_part fun_eq_iff less_Suc_eq)
qed (simp add: fun_eq_iff)

text \<open>
  The matrix work adds the product of the two matrices: the three nested loops leave in
  every \<open>C[i][j]\<close> its old value plus the sum of \<open>A[i][k] * B[k][j]\<close>, and touch nothing else.
\<close>

theorem mat_mult_is_product:
  "mat_mult n A B C i j =
     (if i < n \<and> j < n then C i j + (\<Sum>k<n. A i k * B k j) else C i j)"
  by (simp add: mat_mult_def mat_mult_part)

section \<open>The amount of work\<close>

definition unit_work :: "string \<Rightarrow> nat \<Rightarrow> real" where
  "unit_work type n = (if type = ''matrix'' then 2 * real n ^ 3
     else if type = ''daxpy'' then 2 * real n else 8 * real n)"

definition ready :: "string \<Rightarrow> work \<Rightarrow> bool" where
  "ready type s \<longleftrightarrow> (if type = ''matrix'' then wA s \<noteq> None else wX s \<noteq> None)"

definition done_work :: "string \<Rightarrow> work \<Rightarrow> real" where
  "done_work type s = (if type = ''memcpy'' then bytes_moved s else flops s)"

definition other_work :: "string \<Rightarrow> work \<Rightarrow> real" where
  "other_work type s = (if type = ''memcpy'' then flops s else bytes_moved s)"

lemma matrix_flops_eq: "n \<le> 1023 \<Longrightarrow> matrix_flops n = Inr (2 * real n ^ 3)"
proof -
  assume "n \<le> 1023"
  then have "int n ^ 3 \<le> 1023 ^ 3" by (intro power_mono) simp_all
  then have "2 * int n ^ 3 \<le> INT_MAX" by (simp add: INT_MAX_def)
  moreover have "0 \<le> int n ^ 3" by (rule zero_le_power) simp
  ultimately have "is_c_int (2 * int n ^ 3)" unfolding is_c_int_def INT_MIN_def by linarith
  then have "is_c_int (2 * int n * int n * int n)" by (simp add: power3_eq_cube mult.assoc)
  then show ?thesis by (simp add: matrix_flops_def power3_eq_cube)
qed

lemma work_unit_counts:
  assumes "type \<in> {''matrix'', ''daxpy'', ''memcpy''}" and "0 < n \<and> n \<le> 1023" and "ready type s"
  shows "\<exists>s'. work_unit type n k s = Inr s' \<and> ready type s'
    \<and> done_work type s' = done_work type s + unit_work type n
    \<and> other_work type s' = other_work type s"
  using assms matrix_flops_eq [of n]
  by (auto simp: work_unit_def ready_def done_work_def other_work_def unit_work_def)

lemma work_units_counts:
  assumes "type \<in> {''matrix'', ''daxpy'', ''memcpy''}" and "0 < n \<and> n \<le> 1023"
  shows "ready type s \<Longrightarrow> \<exists>s'. work_units count type n k s = Inr s' \<and> ready type s'
    \<and> done_work type s' = done_work type s + real count * unit_work type n
    \<and> other_work type s' = other_work type s"
proof (induction count arbitrary: s)
  case (Suc count)
  from work_unit_counts [OF assms Suc.prems, of k] obtain s1 where 1: "work_unit type n k s = Inr s1"
      "ready type s1" "done_work type s1 = done_work type s + unit_work type n"
      "other_work type s1 = other_work type s" by blast
  from Suc.IH [OF 1(2)] 1 show ?case by (auto simp: algebra_simps)
qed simp

lemma work_loop_counts:
  assumes "type \<in> {''matrix'', ''daxpy'', ''memcpy''}" and "0 < n \<and> n \<le> 1023"
  shows "ready type s \<Longrightarrow> int ntests < cal \<Longrightarrow> nat (cal - int ntests) \<le> fuel \<Longrightarrow>
    \<exists>s'. work_loop fuel type n count cal test ntests s = Some (Inr s')
    \<and> done_work type s' = done_work type s + real_of_int (cal - int ntests) * real count * unit_work type n
    \<and> other_work type s' = other_work type s"
proof (induction fuel arbitrary: ntests s)
  case (Suc fuel)
  from work_units_counts [OF assms Suc.prems(1), of count "ntests + 1"] obtain s1
    where 1: "work_units count type n (ntests + 1) s = Inr s1" "ready type s1"
      "done_work type s1 = done_work type s + real count * unit_work type n"
      "other_work type s1 = other_work type s" by blast
  show ?case
  proof (cases "int (ntests + 1) = cal")
    case True
    with 1 Suc.prems(2) show ?thesis by auto
  next
    case False
    with Suc.prems have "int (ntests + 1) < cal" "nat (cal - int (ntests + 1)) \<le> fuel" by auto
    from Suc.IH [OF 1(2) this] 1 False Suc.prems(2) show ?thesis
      by (auto simp: algebra_simps)
  qed
qed simp

text \<open>
  A calibration does what it counts: with \<open>calibration\<close> tests of \<open>count\<close> units each it
  returns, and its result is that many times the floating-point operations (or the bytes) of
  one unit, for matrices of up to 1023 rows.
\<close>

theorem calibration_counts_work:
  assumes "type \<in> {''matrix'', ''daxpy'', ''memcpy''}" and "0 < n \<and> n \<le> 1023" and "0 < cal"
    and "nat cal \<le> fuel"
  shows "\<exists>s'. DoWork fuel type n count cal test pi_val s
    = Some (Inr (real_of_int cal * real count * unit_work type n, s'))"
proof -
  let ?s = "(init_work type n pi_val s)\<lparr>flops := 0, bytes_moved := 0\<rparr>"
  have "ready type ?s" using assms(1) by (auto simp: ready_def init_work_def)
  from work_loop_counts [OF assms(1,2) this, of 0 cal fuel count test] assms(3,4)
  obtain s' where s': "work_loop fuel type n count cal test 0 ?s = Some (Inr s')"
      "done_work type s' = real_of_int cal * real count * unit_work type n" "other_work type s' = 0"
    by (auto simp: done_work_def other_work_def)
  have "0 \<le> done_work type s'"
    unfolding s'(2) using assms(3) by (intro mult_nonneg_nonneg) (auto simp: unit_work_def)
  then have "(if flops s' > bytes_moved s' then flops s' else bytes_moved s') = done_work type s'"
    using s'(3) by (auto simp: done_work_def other_work_def split: if_splits)
  with s'(1,2) show ?thesis by (simp add: DoWork_def)
qed

theorem calibration_counts_work_witness:
  "\<exists>s'. DoWork 1000 ''matrix'' 100 10 1000 (\<lambda>_. True) pi no_work
     = Some (Inr (1000 * 10 * 2000000, s'))"
  using calibration_counts_work [of "''matrix''" 100 1000 1000 10 "\<lambda>_. True" pi no_work]
  by (simp add: unit_work_def)

text \<open>
  A workload of 1024 rows or more (\<open>--workload matrix 1024\<close>) overflows the integer that
  counts the operations of one unit.
\<close>

theorem workload_overflow:
  assumes "1024 \<le> n" and "0 < count" and "cal \<noteq> 0 \<or> \<not> test 0"
  shows "DoWork (Suc fuel) ''matrix'' n count cal test pi_val s = Some (Inl Overflow)"
proof -
  have "1024 ^ 3 \<le> int n ^ 3" using assms(1) by (intro power_mono) simp_all
  then have "INT_MAX < 2 * int n ^ 3" by (simp add: INT_MAX_def)
  then have "\<not> is_c_int (2 * int n * int n * int n)"
    by (simp add: is_c_int_def power3_eq_cube mult.assoc)
  then have f: "matrix_flops n = Inl Overflow" by (simp add: matrix_flops_def Let_def)
  obtain c where c: "count = Suc c" using assms(2) by (cases count) auto
  have "\<exists>A. wA (init_work ''matrix'' n pi_val s) = Some A" by (auto simp: init_work_def)
  then show ?thesis using assms(1,3) f c by (auto simp: DoWork_def work_unit_def)
qed

theorem workload_overflow_witness:
  "DoWork 1 ''matrix'' 1024 10 1 (\<lambda>_. False) pi no_work = Some (Inl Overflow)"
  using workload_overflow [of 1024 10 1 "\<lambda>_. False" 0 pi no_work] by simp

end
