(* ===== verification/Fifo.thy ===== *)
theory Fifo
  imports Prelude
begin

text \<open>
  The shared-memory queues of MP_Lite, \<open>MP_Lite/fifo.c\<close> (the variant \<open>SHM_FIFO\<close> that the file
  selects): a ring of 40 entries with one writer and one reader for each pair of processes of
  a node.  First the operations as a queue, through the interface \<open>bounded_queue\<close>; then the
  two processes as a step relation in which every access to the shared ring is a step of its
  own, under sequentially consistent memory.
\<close>

section \<open>The ring\<close>

definition FIFO_MAX :: nat where "FIFO_MAX = 40"

type_synonym offset = "64 word"

record fifo =
  recvpos :: nat
  sendpos :: nat
  slot :: "nat \<Rightarrow> offset"

definition fifo_room :: "fifo \<Rightarrow> bool" where
  "fifo_room f \<longleftrightarrow> sendpos f + 1 \<noteq> recvpos f \<and> (sendpos f + 1 \<noteq> FIFO_MAX \<or> recvpos f \<noteq> 0)"

definition next_pos :: "nat \<Rightarrow> nat" where
  "next_pos p = (if p = FIFO_MAX - 1 then 0 else p + 1)"

text \<open>One successful attempt of \<open>FIFOwrite\<close>, and \<open>FIFOread\<close>, which waits on an empty ring.\<close>

definition fifo_put :: "offset \<Rightarrow> fifo \<Rightarrow> fifo" where
  "fifo_put v f = f\<lparr>slot := (slot f)(sendpos f := v), sendpos := next_pos (sendpos f)\<rparr>"

definition FIFOread :: "fifo \<Rightarrow> (offset \<times> fifo) option" where
  "FIFOread f =
     (if recvpos f = sendpos f then None
      else Some (slot f (recvpos f), f\<lparr>recvpos := next_pos (recvpos f)\<rparr>))"

text \<open>
  \<open>FIFOwrite\<close> tries \<open>nsmp\<close> times.  Before the attempts the reader takes entries out of the
  ring: \<open>env j\<close> is how many before attempt \<open>j\<close>.
\<close>

fun reader_takes :: "nat \<Rightarrow> fifo \<Rightarrow> fifo" where
  "reader_takes 0 f = f"
| "reader_takes (Suc k) f = (case FIFOread f of None \<Rightarrow> f | Some (v, f') \<Rightarrow> reader_takes k f')"

fun fifo_attempts :: "nat list \<Rightarrow> offset \<Rightarrow> fifo \<Rightarrow> fifo" where
  "fifo_attempts [] v f = f"
| "fifo_attempts (k # ks) v f =
     (let f1 = reader_takes k f in if fifo_room f1 then fifo_put v f1 else fifo_attempts ks v f1)"

definition FIFOwrite :: "nat \<Rightarrow> (nat \<Rightarrow> nat) \<Rightarrow> offset \<Rightarrow> fifo \<Rightarrow> fifo" where
  "FIFOwrite nsmp env v f = fifo_attempts (map env [0..<nsmp]) v f"

section \<open>The pool of rings\<close>

text \<open>
  \<open>init_fifo\<close> stores in \<open>fifo_in[i*nsmp+j]\<close> and in \<open>fifo_out[j*nsmp+i]\<close> the index of the ring,
  and resets it.
\<close>

record fifo_pool =
  fifo_in :: "nat \<Rightarrow> nat"
  fifo_out :: "nat \<Rightarrow> nat"
  pool :: "nat \<Rightarrow> fifo"

definition init_entry :: "nat \<Rightarrow> nat \<Rightarrow> nat \<Rightarrow> fifo_pool \<Rightarrow> fifo_pool" where
  "init_entry nsmp i j p =
     (let k = i * nsmp + j in
      p\<lparr>fifo_in := (fifo_in p)(k := k), fifo_out := (fifo_out p)(j * nsmp + i := k),
        pool := (pool p)(k := (pool p k)\<lparr>sendpos := 0, recvpos := 0\<rparr>)\<rparr>)"

definition init_fifo :: "nat \<Rightarrow> fifo_pool \<Rightarrow> fifo_pool" where
  "init_fifo nsmp p = fold (\<lambda>i. fold (init_entry nsmp i) [0..<nsmp]) [0..<nsmp] p"

text \<open>\<open>sizeof(Fifo)\<close> is 328: two \<open>int\<close>s and 40 offsets.\<close>

definition sizeof_Fifo :: nat where "sizeof_Fifo = 8 + 8 * FIFO_MAX"

definition sizeofFifo :: "nat \<Rightarrow> nat" where
  "sizeofFifo nsmp = (nsmp * nsmp * sizeof_Fifo + 4095) div 4096 * 4096"

section \<open>A bounded queue\<close>

locale bounded_queue =
  fixes put :: "'a \<Rightarrow> 'q \<Rightarrow> 'q"
    and get :: "'q \<Rightarrow> ('a \<times> 'q) option"
    and room :: "'q \<Rightarrow> bool"
    and contents :: "'q \<Rightarrow> 'a list"
    and invar :: "'q \<Rightarrow> bool"
    and cap :: nat
  assumes room_iff: "invar q \<Longrightarrow> room q \<longleftrightarrow> length (contents q) < cap"
    and invar_put: "invar q \<Longrightarrow> room q \<Longrightarrow> invar (put x q)"
    and contents_put: "invar q \<Longrightarrow> room q \<Longrightarrow> contents (put x q) = contents q @ [x]"
    and get_empty: "invar q \<Longrightarrow> contents q = [] \<Longrightarrow> get q = None"
    and get_first: "invar q \<Longrightarrow> contents q = x # xs \<Longrightarrow>
          \<exists>q'. get q = Some (x, q') \<and> invar q' \<and> contents q' = xs"
    and bounded: "invar q \<Longrightarrow> length (contents q) \<le> cap"
begin

fun run :: "'a option list \<Rightarrow> 'q \<Rightarrow> ('a list \<times> 'q) option" where
  "run [] q = Some ([], q)"
| "run (Some x # ops) q = (if room q then run ops (put x q) else None)"
| "run (None # ops) q = (case get q of None \<Rightarrow> None
     | Some (y, q') \<Rightarrow> map_option (\<lambda>(ys, q''). (y # ys, q'')) (run ops q'))"

lemma run_fifo:
  "invar q \<Longrightarrow> run ops q = Some (ys, q') \<Longrightarrow>
     contents q @ [x. Some x \<leftarrow> ops] = ys @ contents q' \<and> invar q'"
proof (induction ops arbitrary: q ys)
  case (Cons opn ops)
  show ?case
  proof (cases opn)
    case None
    with Cons.prems obtain y q1 zs where g: "get q = Some (y, q1)" "run ops q1 = Some (zs, q')" "ys = y # zs"
      by (auto split: option.splits)
    from Cons.prems(1) g(1) get_empty obtain z rest where c: "contents q = z # rest"
      by (cases "contents q") auto
    from get_first [OF Cons.prems(1) c] g(1) have "z = y" "invar q1" "contents q1 = rest" by auto
    with Cons.IH [OF _ g(2)] g c None show ?thesis by simp
  next
    case (Some x)
    with Cons.prems have r: "room q" "run ops (put x q) = Some (ys, q')" by (auto split: if_splits)
    with Cons.IH [OF invar_put [OF Cons.prems(1) r(1)] r(2)] contents_put [OF Cons.prems(1) r(1)] Some
    show ?thesis by simp
  qed
qed simp

end

section \<open>The ring is a bounded queue\<close>

definition fifo_len :: "fifo \<Rightarrow> nat" where
  "fifo_len f = (sendpos f + FIFO_MAX - recvpos f) mod FIFO_MAX"

definition fifo_contents :: "fifo \<Rightarrow> offset list" where
  "fifo_contents f = map (\<lambda>i. slot f ((recvpos f + i) mod FIFO_MAX)) [0..<fifo_len f]"

definition fifo_ok :: "fifo \<Rightarrow> bool" where
  "fifo_ok f \<longleftrightarrow> recvpos f < FIFO_MAX \<and> sendpos f < FIFO_MAX"

lemma fifo_len_alt:
  "fifo_ok f \<Longrightarrow> fifo_len f = (if recvpos f \<le> sendpos f then sendpos f - recvpos f
     else sendpos f + FIFO_MAX - recvpos f)"
  by (auto simp: fifo_len_def fifo_ok_def FIFO_MAX_def mod_if)

lemma length_fifo_contents [simp]: "length (fifo_contents f) = fifo_len f"
  by (simp add: fifo_contents_def)

lemma fifo_room_iff: "fifo_ok f \<Longrightarrow> fifo_room f \<longleftrightarrow> fifo_len f < FIFO_MAX - 1"
  by (auto simp: fifo_len_alt fifo_room_def fifo_ok_def FIFO_MAX_def)

lemma fifo_len_bound: "fifo_ok f \<Longrightarrow> fifo_len f \<le> FIFO_MAX - 1"
  by (auto simp: fifo_len_alt fifo_ok_def FIFO_MAX_def)

lemma next_pos_mod: "p < FIFO_MAX \<Longrightarrow> next_pos p = (p + 1) mod FIFO_MAX"
  by (auto simp: next_pos_def FIFO_MAX_def)

lemma send_slot: "fifo_ok f \<Longrightarrow> (recvpos f + fifo_len f) mod FIFO_MAX = sendpos f"
  by (auto simp: fifo_len_alt fifo_ok_def FIFO_MAX_def mod_if)

lemma slot_free:
  "fifo_ok f \<Longrightarrow> i < fifo_len f \<Longrightarrow> (recvpos f + i) mod FIFO_MAX \<noteq> sendpos f"
proof -
  assume ok: "fifo_ok f" and i: "i < fifo_len f"
  then have b: "recvpos f + i < 2 * FIFO_MAX" "recvpos f < FIFO_MAX" "sendpos f < FIFO_MAX"
    using fifo_len_bound [OF ok] by (auto simp: fifo_ok_def FIFO_MAX_def)
  show ?thesis
  proof (cases "recvpos f + i < FIFO_MAX")
    case True
    with i b show ?thesis by (auto simp: fifo_len_alt [OF ok] split: if_splits)
  next
    case False
    then have "(recvpos f + i) mod FIFO_MAX = recvpos f + i - FIFO_MAX"
      using b by (simp add: mod_if [of "recvpos f + i"])
    with False i b show ?thesis by (auto simp: fifo_len_alt [OF ok] split: if_splits)
  qed
qed

lemma contents_store [simp]:
  "fifo_ok f \<Longrightarrow> fifo_contents (f\<lparr>slot := (slot f)(sendpos f := v)\<rparr>) = fifo_contents f"
  using slot_free [of f] by (auto simp: fifo_contents_def fifo_len_def)

lemma len_send_next:
  "fifo_ok f \<Longrightarrow> fifo_room f \<Longrightarrow> fifo_len (f\<lparr>sendpos := next_pos (sendpos f)\<rparr>) = Suc (fifo_len f)"
  by (auto simp: fifo_len_def fifo_ok_def fifo_room_def next_pos_def FIFO_MAX_def mod_if split: if_splits)

lemma contents_send_next:
  assumes "fifo_ok f" and "fifo_room f"
  shows "fifo_contents (f\<lparr>sendpos := next_pos (sendpos f)\<rparr>) = fifo_contents f @ [slot f (sendpos f)]"
  unfolding fifo_contents_def len_send_next [OF assms] using send_slot [OF assms(1)] by simp

lemma fifo_put_contents:
  assumes "fifo_ok f" and "fifo_room f"
  shows "fifo_contents (fifo_put v f) = fifo_contents f @ [v]"
proof -
  let ?f = "f\<lparr>slot := (slot f)(sendpos f := v)\<rparr>"
  have "fifo_ok ?f" "fifo_room ?f" using assms by (simp_all add: fifo_ok_def fifo_room_def)
  from contents_send_next [OF this] assms(1) show ?thesis by (simp add: fifo_put_def)
qed

lemma len_recv_next:
  "fifo_ok f \<Longrightarrow> recvpos f \<noteq> sendpos f \<Longrightarrow>
     Suc (fifo_len (f\<lparr>recvpos := next_pos (recvpos f)\<rparr>)) = fifo_len f"
  by (auto simp: fifo_len_def fifo_ok_def next_pos_def FIFO_MAX_def mod_if split: if_splits)

lemma contents_recv_next:
  assumes "fifo_ok f" and "recvpos f \<noteq> sendpos f"
  shows "fifo_contents f = slot f (recvpos f) # fifo_contents (f\<lparr>recvpos := next_pos (recvpos f)\<rparr>)"
proof -
  have "recvpos f mod FIFO_MAX = recvpos f" using assms(1) by (simp add: fifo_ok_def)
  moreover have "(recvpos f + Suc i) mod FIFO_MAX = (next_pos (recvpos f) + i) mod FIFO_MAX" for i
    using assms(1) by (simp add: fifo_ok_def next_pos_mod mod_simps)
  ultimately show ?thesis
    unfolding fifo_contents_def len_recv_next [OF assms, symmetric]
    by (simp add: upt_rec [of 0 "Suc _"] map_Suc_upt [symmetric] del: upt_Suc)
qed

lemma fifo_empty_iff: "fifo_ok f \<Longrightarrow> fifo_contents f = [] \<longleftrightarrow> recvpos f = sendpos f"
proof -
  assume ok: "fifo_ok f"
  have "fifo_contents f = [] \<longleftrightarrow> fifo_len f = 0" by (simp add: fifo_contents_def)
  with ok show ?thesis by (auto simp: fifo_len_alt fifo_ok_def)
qed

lemma next_pos_less: "p < FIFO_MAX \<Longrightarrow> next_pos p < FIFO_MAX"
  by (auto simp: next_pos_def FIFO_MAX_def)

interpretation ring: bounded_queue fifo_put FIFOread fifo_room fifo_contents fifo_ok "FIFO_MAX - 1"
proof unfold_locales
  fix f :: fifo and x xs
  assume ok: "fifo_ok f" and c: "fifo_contents f = x # xs"
  then have "recvpos f \<noteq> sendpos f" using fifo_empty_iff [OF ok] by simp
  with contents_recv_next [OF ok this] c ok
  show "\<exists>f'. FIFOread f = Some (x, f') \<and> fifo_ok f' \<and> fifo_contents f' = xs"
    by (auto simp: FIFOread_def fifo_ok_def next_pos_less)
next
  show "fifo_ok q \<Longrightarrow> length (fifo_contents q) \<le> FIFO_MAX - 1" for q
    using fifo_len_bound by simp
qed (simp_all add: fifo_room_iff fifo_put_contents FIFOread_def fifo_empty_iff,
     simp add: fifo_put_def fifo_ok_def next_pos_less)

section \<open>Writing and reading\<close>

definition empty_fifo :: fifo where
  "empty_fifo = \<lparr>recvpos = 0, sendpos = 0, slot = (\<lambda>_. 0)\<rparr>"

lemma empty_fifo_props [simp]: "fifo_ok empty_fifo" "fifo_contents empty_fifo = []"
  by (simp_all add: fifo_ok_def empty_fifo_def fifo_contents_def fifo_len_def FIFO_MAX_def)

text \<open>
  A ring delivers in order: whatever puts (\<open>Some v\<close>) and reads (\<open>None\<close>) are made, none of
  them refused, the offsets read, followed by those still in the ring, are exactly the offsets
  written, in the order they were written.
\<close>

theorem ring_in_order:
  assumes "ring.run ops empty_fifo = Some (out, f)"
  shows "[v. Some v \<leftarrow> ops] = out @ fifo_contents f"
  using ring.run_fifo [OF _ assms] by simp

theorem ring_in_order_witness:
  "\<exists>f. ring.run [Some 7, Some 8, None, Some 9, None] empty_fifo = Some ([7, 8], f)
     \<and> fifo_contents f = [9]"
proof -
  obtain f where f: "ring.run [Some 7, Some 8, None, Some 9, None] empty_fifo = Some ([7, 8], f)"
    by (simp add: empty_fifo_def fifo_room_def fifo_put_def next_pos_def FIFOread_def FIFO_MAX_def)
  with ring_in_order [OF f] show ?thesis by simp
qed

lemma reader_takes_ok: "fifo_ok f \<Longrightarrow> fifo_ok (reader_takes k f)"
proof (induction k arbitrary: f)
  case (Suc k)
  then show ?case by (auto simp: FIFOread_def fifo_ok_def next_pos_less)
qed simp

text \<open>
  An offset can be lost: when the ring is full and the reader takes nothing while the writer
  makes its \<open>nsmp\<close> attempts, \<open>FIFOwrite\<close> returns without having written, and nothing tells the
  caller.
\<close>

theorem FIFOwrite_drops_when_full:
  assumes "fifo_ok f" and "length (fifo_contents f) = 39"
  shows "FIFOwrite nsmp (\<lambda>_. 0) v f = f"
proof -
  have "\<not> fifo_room f" using assms fifo_room_iff [OF assms(1)] by (simp add: FIFO_MAX_def)
  then have "fifo_attempts (map (\<lambda>_. 0) xs) v f = f" for xs :: "nat list" by (induction xs) simp_all
  then show ?thesis by (simp add: FIFOwrite_def)
qed

definition full_fifo :: fifo where
  "full_fifo = \<lparr>recvpos = 1, sendpos = 0, slot = (\<lambda>_. 0)\<rparr>"

theorem FIFOwrite_drops_when_full_witness:
  "FIFOwrite 16 (\<lambda>_. 0) 4096 full_fifo = full_fifo"
  by (rule FIFOwrite_drops_when_full)
    (simp_all add: full_fifo_def fifo_ok_def fifo_contents_def fifo_len_def FIFO_MAX_def)

section \<open>The pool\<close>

lemma init_row:
  assumes "i < nsmp" and "m \<le> nsmp"
  shows "let q = fold (init_entry nsmp i) [0..<m] p in
     (\<forall>j < m. fifo_in q (i * nsmp + j) = i * nsmp + j \<and> fifo_out q (j * nsmp + i) = i * nsmp + j
        \<and> recvpos (pool q (i * nsmp + j)) = 0 \<and> sendpos (pool q (i * nsmp + j)) = 0)
     \<and> (\<forall>a < nsmp. \<forall>b < nsmp. a \<noteq> i \<longrightarrow> fifo_in q (a * nsmp + b) = fifo_in p (a * nsmp + b)
        \<and> fifo_out q (b * nsmp + a) = fifo_out p (b * nsmp + a)
        \<and> pool q (a * nsmp + b) = pool p (a * nsmp + b))"
  using assms(2)
proof (induction m)
  case (Suc m)
  have inj: "a * nsmp + b = c * nsmp + d \<longleftrightarrow> a = c \<and> b = d" if "b < nsmp" "d < nsmp" for a b c d
  proof
    assume e: "a * nsmp + b = c * nsmp + d"
    then have "(a * nsmp + b) div nsmp = (c * nsmp + d) div nsmp"
        "(a * nsmp + b) mod nsmp = (c * nsmp + d) mod nsmp" by simp_all
    with that show "a = c \<and> b = d" by simp
  qed simp
  show ?case using Suc assms(1)
    by (auto simp: Let_def init_entry_def inj less_Suc_eq)
qed simp

lemma init_fifo_rows:
  assumes "m \<le> nsmp"
  shows "let q = fold (\<lambda>i. fold (init_entry nsmp i) [0..<nsmp]) [0..<m] p in
     \<forall>i < m. \<forall>j < nsmp. fifo_in q (i * nsmp + j) = i * nsmp + j
        \<and> fifo_out q (j * nsmp + i) = i * nsmp + j
        \<and> recvpos (pool q (i * nsmp + j)) = 0 \<and> sendpos (pool q (i * nsmp + j)) = 0"
  using assms
proof (induction m)
  case (Suc m)
  let ?q = "fold (\<lambda>i. fold (init_entry nsmp i) [0..<nsmp]) [0..<m] p"
  have "m < nsmp" using Suc.prems by simp
  from init_row [OF this order_refl, of ?q] Suc show ?case
    by (auto simp: Let_def less_Suc_eq)
qed simp

text \<open>
  The queues are wired right: after \<open>init_fifo\<close> the ring that process \<open>r\<close> writes for \<open>d\<close>
  is the one that \<open>d\<close> reads from \<open>r\<close>, it is empty, it lies in the memory that \<open>sizeofFifo\<close>
  reserves, and different pairs of processes have different rings.
\<close>

theorem init_fifo_wiring:
  assumes "r < nsmp" and "d < nsmp" and "r' < nsmp" and "d' < nsmp"
  shows "let p = init_fifo nsmp p0; w = (\<lambda>r d. fifo_out p (r * nsmp + d));
             k = w r d
         in fifo_in p (d * nsmp + r) = k
            \<and> recvpos (pool p k) = 0 \<and> sendpos (pool p k) = 0
            \<and> (k + 1) * sizeof_Fifo \<le> sizeofFifo nsmp
            \<and> (w r' d' = k \<longleftrightarrow> r' = r \<and> d' = d)"
proof -
  let ?p = "init_fifo nsmp p0"
  have rows: "\<forall>i < nsmp. \<forall>j < nsmp. fifo_in ?p (i * nsmp + j) = i * nsmp + j
        \<and> fifo_out ?p (j * nsmp + i) = i * nsmp + j
        \<and> recvpos (pool ?p (i * nsmp + j)) = 0 \<and> sendpos (pool ?p (i * nsmp + j)) = 0"
    using init_fifo_rows [of nsmp nsmp p0] by (simp add: init_fifo_def Let_def)
  have "d * nsmp + r + 1 \<le> nsmp * nsmp"
    using assms(1,2) mult_le_mono1 [of "d + 1" nsmp nsmp] by (simp add: algebra_simps)
  then have "(d * nsmp + r + 1) * sizeof_Fifo \<le> nsmp * nsmp * sizeof_Fifo" by (rule mult_le_mono1)
  moreover have "x \<le> (x + 4095) div 4096 * 4096" for x :: nat
    using mod_less_divisor [of 4096 "x + 4095"] div_mult_mod_eq [of "x + 4095" 4096] by linarith
  ultimately have "(d * nsmp + r + 1) * sizeof_Fifo \<le> sizeofFifo nsmp"
    unfolding sizeofFifo_def using order_trans by blast
  moreover have "d' * nsmp + r' = d * nsmp + r \<longleftrightarrow> r' = r \<and> d' = d"
  proof
    assume e: "d' * nsmp + r' = d * nsmp + r"
    then have "(d' * nsmp + r') div nsmp = (d * nsmp + r) div nsmp"
        "(d' * nsmp + r') mod nsmp = (d * nsmp + r) mod nsmp" by simp_all
    with assms show "r' = r \<and> d' = d" by simp
  qed simp
  ultimately show ?thesis using rows assms by (simp add: Let_def)
qed

theorem init_fifo_wiring_witness:
  "fifo_in (init_fifo 3 \<lparr>fifo_in = (\<lambda>_. 0), fifo_out = (\<lambda>_. 0), pool = (\<lambda>_. full_fifo)\<rparr>) (2 * 3 + 1)
   = fifo_out (init_fifo 3 \<lparr>fifo_in = (\<lambda>_. 0), fifo_out = (\<lambda>_. 0), pool = (\<lambda>_. full_fifo)\<rparr>) (1 * 3 + 2)"
  using init_fifo_wiring [of 1 3 2 1 2 "\<lparr>fifo_in = (\<lambda>_. 0), fifo_out = (\<lambda>_. 0), pool = (\<lambda>_. full_fifo)\<rparr>"]
  by (simp add: Let_def)

section \<open>Writer and reader at the same time\<close>

text \<open>
  The two sides run without a lock.  The writer checks for room, stores the offset and then
  advances \<open>sendpos\<close>; the reader checks for an entry, loads it and then advances \<open>recvpos\<close>.
  \<open>sent\<close> and \<open>got\<close> record the offsets whose write or read is complete.
\<close>

datatype writer = WIdle | WRoom offset | WStored offset
datatype reader = RIdle | RReady | RLoaded offset

record spsc =
  ring :: fifo
  wpc :: writer
  rpc :: reader
  sent :: "offset list"
  got :: "offset list"

inductive spsc_step :: "spsc \<Rightarrow> spsc \<Rightarrow> bool" where
  w_check: "wpc y = WIdle \<Longrightarrow> fifo_room (ring y) \<Longrightarrow> spsc_step y (y\<lparr>wpc := WRoom v\<rparr>)"
| w_store: "wpc y = WRoom v \<Longrightarrow> f = ring y \<Longrightarrow>
     spsc_step y (y\<lparr>wpc := WStored v, ring := f\<lparr>slot := (slot f)(sendpos f := v)\<rparr>\<rparr>)"
| w_advance: "wpc y = WStored v \<Longrightarrow> f = ring y \<Longrightarrow>
     spsc_step y (y\<lparr>wpc := WIdle, ring := f\<lparr>sendpos := next_pos (sendpos f)\<rparr>, sent := sent y @ [v]\<rparr>)"
| r_check: "rpc y = RIdle \<Longrightarrow> recvpos (ring y) \<noteq> sendpos (ring y) \<Longrightarrow>
     spsc_step y (y\<lparr>rpc := RReady\<rparr>)"
| r_load: "rpc y = RReady \<Longrightarrow> f = ring y \<Longrightarrow>
     spsc_step y (y\<lparr>rpc := RLoaded (slot f (recvpos f))\<rparr>)"
| r_advance: "rpc y = RLoaded v \<Longrightarrow> f = ring y \<Longrightarrow>
     spsc_step y (y\<lparr>rpc := RIdle, ring := f\<lparr>recvpos := next_pos (recvpos f)\<rparr>, got := got y @ [v]\<rparr>)"

inductive spsc_reach :: "spsc \<Rightarrow> bool" where
  spsc_start: "spsc_reach \<lparr>ring = empty_fifo, wpc = WIdle, rpc = RIdle, sent = [], got = []\<rparr>"
| spsc_more: "spsc_reach y \<Longrightarrow> spsc_step y z \<Longrightarrow> spsc_reach z"

definition writer_ok :: "fifo \<Rightarrow> writer \<Rightarrow> bool" where
  "writer_ok f w = (case w of WIdle \<Rightarrow> True | WRoom v \<Rightarrow> fifo_len f < FIFO_MAX - 1
     | WStored v \<Rightarrow> fifo_len f < FIFO_MAX - 1 \<and> slot f (sendpos f) = v)"

definition reader_ok :: "fifo \<Rightarrow> reader \<Rightarrow> bool" where
  "reader_ok f r = (case r of RIdle \<Rightarrow> True | RReady \<Rightarrow> fifo_contents f \<noteq> []
     | RLoaded v \<Rightarrow> \<exists>vs. fifo_contents f = v # vs)"

definition spsc_inv :: "spsc \<Rightarrow> bool" where
  "spsc_inv y \<longleftrightarrow> fifo_ok (ring y) \<and> writer_ok (ring y) (wpc y) \<and> reader_ok (ring y) (rpc y)
     \<and> sent y = got y @ fifo_contents (ring y)"

lemma fifo_ok_upd [simp]:
  "fifo_ok (f\<lparr>slot := s\<rparr>) = fifo_ok f"
  "fifo_ok f \<Longrightarrow> fifo_ok (f\<lparr>sendpos := next_pos (sendpos f)\<rparr>)"
  "fifo_ok f \<Longrightarrow> fifo_ok (f\<lparr>recvpos := next_pos (recvpos f)\<rparr>)"
  "fifo_len (f\<lparr>slot := s\<rparr>) = fifo_len f"
  by (simp_all add: fifo_ok_def next_pos_less fifo_len_def)

lemma reader_ok_append:
  "reader_ok f r \<Longrightarrow> fifo_contents f' = fifo_contents f @ vs \<Longrightarrow> reader_ok f' r"
  by (auto simp: reader_ok_def split: reader.splits)

lemma spsc_step_inv:
  assumes "spsc_step y z" and "spsc_inv y"
  shows "spsc_inv z"
  using assms(1)
proof cases
  case (w_check v)
  with assms(2) show ?thesis by (simp add: spsc_inv_def writer_ok_def fifo_room_iff)
next
  case (w_store v f)
  with assms(2) show ?thesis
    using reader_ok_append [of f "rpc y" "f\<lparr>slot := (slot f)(sendpos f := v)\<rparr>" "[]"]
    by (simp add: spsc_inv_def writer_ok_def)
next
  case (w_advance v f)
  have ok: "fifo_ok f" "fifo_room f" "slot f (sendpos f) = v"
    using assms(2) w_advance by (simp_all add: spsc_inv_def writer_ok_def fifo_room_iff)
  with contents_send_next [OF ok(1,2)] w_advance assms(2) show ?thesis
    using reader_ok_append [of f "rpc y" "f\<lparr>sendpos := next_pos (sendpos f)\<rparr>" "[v]"]
    by (simp add: spsc_inv_def writer_ok_def)
next
  case r_check
  with assms(2) show ?thesis by (simp add: spsc_inv_def reader_ok_def fifo_empty_iff)
next
  case (r_load f)
  have ok: "fifo_ok f" "recvpos f \<noteq> sendpos f"
    using assms(2) r_load fifo_empty_iff [of f] by (auto simp: spsc_inv_def reader_ok_def)
  with contents_recv_next [OF ok] r_load assms(2) show ?thesis by (simp add: spsc_inv_def reader_ok_def)
next
  case (r_advance v f)
  then obtain vs where c: "fifo_contents f = v # vs"
    using assms(2) by (auto simp: spsc_inv_def reader_ok_def)
  have ok: "fifo_ok f" "recvpos f \<noteq> sendpos f"
    using assms(2) r_advance c fifo_empty_iff [of f] by (auto simp: spsc_inv_def)
  let ?f = "f\<lparr>recvpos := next_pos (recvpos f)\<rparr>"
  have "fifo_contents ?f = vs" "fifo_len ?f < fifo_len f"
    using contents_recv_next [OF ok] len_recv_next [OF ok] c by simp_all
  then have "writer_ok ?f (wpc y)"
    using assms(2) r_advance by (auto simp: spsc_inv_def writer_ok_def split: writer.splits)
  with \<open>fifo_contents ?f = vs\<close> r_advance assms(2) ok c show ?thesis
    by (simp add: spsc_inv_def reader_ok_def)
qed

text \<open>
  C32.  The ring is correct without a lock for one writer and one reader: in every interleaving of
  their memory accesses the offsets read so far are a prefix of the offsets written so far, the
  rest of them is what the ring holds, and an offset that the reader has loaded but not yet
  released is the first of these, so it is never overwritten.
\<close>

theorem spsc_in_order:
  assumes "spsc_reach y"
  shows "sent y = got y @ fifo_contents (ring y)
    \<and> (rpc y = RLoaded v \<longrightarrow> hd (fifo_contents (ring y)) = v \<and> fifo_contents (ring y) \<noteq> [])"
proof -
  have "spsc_inv y" using assms
  proof induction
    case spsc_start
    show ?case by (simp add: spsc_inv_def writer_ok_def reader_ok_def)
  next
    case (spsc_more y z)
    from spsc_step_inv [OF spsc_more.hyps(2) spsc_more.IH] show ?case .
  qed
  then show ?thesis by (auto simp: spsc_inv_def reader_ok_def)
qed

theorem spsc_in_order_witness:
  "\<exists>y. spsc_reach y \<and> wpc y = WStored 5 \<and> sent y = got y @ fifo_contents (ring y)"
proof -
  let ?y0 = "\<lparr>ring = empty_fifo, wpc = WIdle, rpc = RIdle, sent = [], got = []\<rparr>"
  have "spsc_step ?y0 (?y0\<lparr>wpc := WRoom 5\<rparr>)"
    by (rule w_check) (simp_all add: fifo_room_def empty_fifo_def FIFO_MAX_def)
  then have 1: "spsc_reach (?y0\<lparr>wpc := WRoom 5\<rparr>)" by (rule spsc_more [OF spsc_start])
  obtain z where z: "spsc_step (?y0\<lparr>wpc := WRoom 5\<rparr>) z" "wpc z = WStored 5"
    using w_store [of "?y0\<lparr>wpc := WRoom 5\<rparr>" 5 empty_fifo] by auto
  from spsc_in_order [OF spsc_more [OF 1 z(1)]] spsc_more [OF 1 z(1)] z(2) show ?thesis by blast
qed

end
