(* ===== verification/Cart.thy ===== *)
theory Cart
  imports Prelude
begin

text \<open>
  The Cartesian routines of MP_Lite, \<open>MP_Lite/mpcore.c\<close>: \<open>MP_Cart_Create\<close> divides the
  processes onto a mesh, \<open>MP_Cart_Coords\<close> and \<open>MP_Cart_Rank\<close> translate between ranks and
  coordinates, \<open>MP_Cart_Shift\<close> finds the neighbours.  The pointer \<open>mp_cart\<close> is an option, the
  arrays of the caller are lists, and an access beyond them is \<open>OutOfBounds\<close>.
\<close>

section \<open>The mesh\<close>

record cart_struct =
  ndims :: nat
  dim :: "int list"

text \<open>
  The loop that divides the processes: in each turn the last \<open>i\<close> up to \<open>np\<close> that divides \<open>np\<close>
  goes to the next dimension.  It does not end for \<open>np \<le> 0\<close>.
\<close>

definition last_factor :: "int \<Rightarrow> int" where
  "last_factor np = fold (\<lambda>i bf. if np mod i = 0 then i else bf) [2..np] 1"

partial_function (option) cart_divide :: "nat \<Rightarrow> int \<Rightarrow> nat \<Rightarrow> int list \<Rightarrow> int list option" where
  "cart_divide nd np d dims =
     (if np \<noteq> 1
      then let bf = last_factor np
           in cart_divide nd (c_div np bf) ((d + 1) mod nd) (dims[d := dims ! d * bf])
      else Some dims)"

text \<open>
  \<open>None\<close> is the endless loop.  \<open>errorx\<close> logs, sets the status of the job to \<open>ABORT\<close> and exits.
\<close>

definition MP_Cart_Create :: "int \<Rightarrow> int \<Rightarrow> int list \<Rightarrow> (cart_struct outcome) option" where
  "MP_Cart_Create nprocs nd dims =
     (if nd < 1 \<or> nd > 10 then Some (Inl (ErrorX ''MP_Cart_create() - ndims must be 1 or larger''))
      else if length dims < nat nd then Some (Inl OutOfBounds)
      else if dims ! 0 = 0
      then map_option (\<lambda>ds. Inr \<lparr>ndims = nat nd, dim = ds\<rparr>)
             (cart_divide (nat nd) nprocs 0 (replicate (nat nd) 1))
      else if fold (\<lambda>n np. np * dims ! n) [0..<nat nd] 1 \<noteq> nprocs
      then Some (Inl (ErrorX ''MP_Cart_Create() - dimensions do not multiply up to nprocs''))
      else Some (Inr \<lparr>ndims = nat nd, dim = take (nat nd) dims\<rparr>))"

definition no_cart :: string where
  "no_cart = ''You must use MP_Cart_create() first''"

fun cart_coords :: "int list \<Rightarrow> int \<Rightarrow> int list" where
  "cart_coords [] r = []"
| "cart_coords (m # ms) r = c_mod r m # cart_coords ms (c_div r m)"

definition MP_Cart_Coords :: "cart_struct option \<Rightarrow> int \<Rightarrow> int list outcome" where
  "MP_Cart_Coords mp_cart iproc = (case mp_cart of
     None \<Rightarrow> Inl (ErrorX no_cart)
   | Some c \<Rightarrow> Inr (cart_coords (dim c) iproc))"

definition MP_Cart_Get :: "cart_struct option \<Rightarrow> int \<Rightarrow> (int list \<times> int list) outcome" where
  "MP_Cart_Get mp_cart myproc = (case mp_cart of
     None \<Rightarrow> Inl (ErrorX no_cart)
   | Some c \<Rightarrow> obind (MP_Cart_Coords mp_cart myproc) (\<lambda>coord. Inr (dim c, coord)))"

fun cart_rank :: "int list \<Rightarrow> int list \<Rightarrow> int \<Rightarrow> int \<Rightarrow> int" where
  "cart_rank (d # ds) (x # xs) m rank = cart_rank ds xs (m * d) (rank + m * x)"
| "cart_rank _ _ m rank = rank"

definition MP_Cart_Rank :: "cart_struct option \<Rightarrow> int list \<Rightarrow> int outcome" where
  "MP_Cart_Rank mp_cart coord = (case mp_cart of
     None \<Rightarrow> Inl (ErrorX no_cart)
   | Some c \<Rightarrow> if length coord < ndims c then Inl OutOfBounds
              else Inr (cart_rank (dim c) coord 1 0))"

text \<open>
  The products with \<open>labs(dist)\<close> are computed in \<open>long\<close>.
\<close>

definition shift_to :: "int \<Rightarrow> int \<Rightarrow> int \<Rightarrow> int \<Rightarrow> int \<Rightarrow> int" where
  "shift_to d dmod base myproc dist = base + c_mod (myproc - base + dist * d + \<bar>dist\<bar> * dmod) dmod"

definition MP_Cart_Shift :: "cart_struct option \<Rightarrow> int \<Rightarrow> int \<Rightarrow> int \<Rightarrow> (int \<times> int) outcome" where
  "MP_Cart_Shift mp_cart myproc dir dist = (case mp_cart of
     None \<Rightarrow> Inl (ErrorX no_cart)
   | Some c \<Rightarrow>
       if dir < 0 \<or> dir > int (ndims c) - 1
       then Inl (ErrorX ''MP_Cart_shift() - the direction is greater than ndims'')
       else let d = fold (\<lambda>n d. d * dim c ! n) [0..<nat dir] 1;
                dmod = d * dim c ! nat dir;
                base = c_div myproc dmod * dmod
            in Inr (shift_to d dmod base myproc (- dist), shift_to d dmod base myproc dist))"

section \<open>Ranks and coordinates\<close>

definition mesh_ok :: "int \<Rightarrow> cart_struct \<Rightarrow> bool" where
  "mesh_ok nprocs c \<longleftrightarrow> length (dim c) = ndims c \<and> list_all (\<lambda>d. 0 < d) (dim c)
     \<and> prod_list (dim c) = nprocs"

definition coord_ok :: "cart_struct \<Rightarrow> int list \<Rightarrow> bool" where
  "coord_ok c x \<longleftrightarrow> list_all2 (\<lambda>i d. 0 \<le> i \<and> i < d) x (dim c)"

lemma prod_list_pos: "list_all (\<lambda>d. 0 < d) ds \<Longrightarrow> 0 < prod_list (ds :: int list)"
  by (induction ds) auto

lemma list_all_take: "list_all P xs \<Longrightarrow> list_all P (take n xs)"
  by (auto simp: list_all_iff dest: in_set_takeD)

lemma fold_prod: "n \<le> length ds \<Longrightarrow> fold (\<lambda>n p. p * ds ! n) [0..<n] (1 :: int) = prod_list (take n ds)"
  by (induction n) (simp_all add: take_Suc_conv_app_nth)

lemma coords_ok: "list_all (\<lambda>d. 0 < d) ds \<Longrightarrow> 0 \<le> r \<Longrightarrow>
    list_all2 (\<lambda>i d. 0 \<le> i \<and> i < d) (cart_coords ds r) ds"
  by (induction ds arbitrary: r) (auto simp: pos_imp_zdiv_nonneg_iff less_imp_le)

text \<open>The mixed-radix number with digits \<open>xs\<close>, least significant first.\<close>

fun mixed_radix :: "int list \<Rightarrow> int list \<Rightarrow> int" where
  "mixed_radix (d # ds) (x # xs) = x + d * mixed_radix ds xs"
| "mixed_radix _ _ = 0"

lemma cart_rank_mixed: "cart_rank ds xs m a = a + m * mixed_radix ds xs"
  by (induction ds xs m a rule: cart_rank.induct) (simp_all add: algebra_simps)

lemma mixed_bounds:
  "list_all2 (\<lambda>i d. 0 \<le> i \<and> i < d) xs ds \<Longrightarrow> 0 \<le> mixed_radix ds xs \<and> mixed_radix ds xs < prod_list ds"
proof (induction rule: list_all2_induct)
  case (Cons x xs d ds)
  then have "mixed_radix ds xs + 1 \<le> prod_list ds" "0 < d" by simp_all
  then have "d * (mixed_radix ds xs + 1) \<le> d * prod_list ds" by (intro mult_left_mono) simp_all
  with Cons show ?case by (simp add: algebra_simps)
qed simp

lemma mixed_coords:
  "list_all (\<lambda>d. 0 < d) ds \<Longrightarrow> 0 \<le> r \<Longrightarrow> mixed_radix ds (cart_coords ds r) = r mod prod_list ds"
proof (induction ds arbitrary: r)
  case (Cons d ds)
  then have "mixed_radix ds (cart_coords ds (r div d)) = r div d mod prod_list ds"
    by (simp add: pos_imp_zdiv_nonneg_iff)
  with Cons.prems show ?case by (simp add: less_imp_le zmod_zmult2_eq prod_list_pos)
qed simp

lemma coords_mixed:
  "list_all2 (\<lambda>i d. 0 \<le> i \<and> i < d) xs ds \<Longrightarrow> cart_coords ds (mixed_radix ds xs) = xs"
proof (induction rule: list_all2_induct)
  case (Cons x xs d ds)
  moreover have "0 \<le> mixed_radix ds xs" using mixed_bounds [OF Cons.hyps(2)] by simp
  ultimately show ?case by simp
qed simp

lemma coords_length [simp]: "length (cart_coords ds r) = length ds"
  by (induction ds arbitrary: r) simp_all

text \<open>
  Ranks and coordinates correspond: on a mesh of positive dimensions the coordinates of a
  rank lie inside the mesh and \<open>MP_Cart_Rank\<close> gives the rank back, and the rank of coordinates
  inside the mesh is a process whose coordinates they are.
\<close>

theorem cart_roundtrip:
  assumes "mesh_ok nprocs c"
  shows "(0 \<le> iproc \<and> iproc < nprocs \<longrightarrow>
            (\<exists>x. MP_Cart_Coords (Some c) iproc = Inr x \<and> coord_ok c x \<and> MP_Cart_Rank (Some c) x = Inr iproc))
       \<and> (coord_ok c x \<longrightarrow>
            (\<exists>r. MP_Cart_Rank (Some c) x = Inr r \<and> 0 \<le> r \<and> r < nprocs \<and> MP_Cart_Coords (Some c) r = Inr x))"
proof (intro conjI impI; (elim conjE)?)
  assume r: "0 \<le> iproc" "iproc < nprocs"
  let ?x = "cart_coords (dim c) iproc"
  have "mixed_radix (dim c) ?x = iproc"
    using assms r mixed_coords [of "dim c" iproc] by (simp add: mesh_ok_def)
  then have "MP_Cart_Rank (Some c) ?x = Inr iproc"
    using assms by (simp add: MP_Cart_Rank_def cart_rank_mixed mesh_ok_def)
  moreover have "coord_ok c ?x" using assms r coords_ok by (simp add: mesh_ok_def coord_ok_def)
  ultimately show "\<exists>x. MP_Cart_Coords (Some c) iproc = Inr x \<and> coord_ok c x
      \<and> MP_Cart_Rank (Some c) x = Inr iproc"
    by (simp add: MP_Cart_Coords_def)
next
  assume x: "coord_ok c x"
  then have "length x = ndims c" using assms by (simp add: coord_ok_def mesh_ok_def list_all2_lengthD)
  moreover have "0 \<le> mixed_radix (dim c) x \<and> mixed_radix (dim c) x < nprocs"
    using assms x mixed_bounds [of x "dim c"] by (simp add: coord_ok_def mesh_ok_def)
  moreover have "cart_coords (dim c) (mixed_radix (dim c) x) = x"
    using x coords_mixed by (simp add: coord_ok_def)
  ultimately show "\<exists>r. MP_Cart_Rank (Some c) x = Inr r \<and> 0 \<le> r \<and> r < nprocs
      \<and> MP_Cart_Coords (Some c) r = Inr x"
    by (simp add: MP_Cart_Rank_def MP_Cart_Coords_def cart_rank_mixed)
qed

definition mesh234 :: cart_struct where
  "mesh234 = \<lparr>ndims = 3, dim = [2, 3, 4]\<rparr>"

theorem cart_roundtrip_witness:
  "mesh_ok 24 mesh234 \<and> MP_Cart_Coords (Some mesh234) 17 = Inr [1, 2, 2]
   \<and> MP_Cart_Rank (Some mesh234) [1, 2, 2] = Inr 17"
proof -
  have ok: "mesh_ok 24 mesh234" by (simp add: mesh_ok_def mesh234_def)
  have c: "MP_Cart_Coords (Some mesh234) 17 = Inr [1, 2, 2]"
    by (simp add: MP_Cart_Coords_def mesh234_def)
  with cart_roundtrip [OF ok, of 17 "[]"] ok show ?thesis by auto
qed

section \<open>Creating a mesh\<close>

lemma last_factor_self: "2 \<le> np \<Longrightarrow> last_factor np = np"
  by (simp add: last_factor_def upto_rec2)

text \<open>
  A mesh with given dimensions: if \<open>MP_Cart_Create\<close> succeeds on positive dimensions the mesh
  is one of all the processes, and it fails exactly when the dimensions do not multiply up to
  the number of processes.
\<close>

theorem cart_create_given:
  assumes "1 \<le> nd" and "nd \<le> 10" and "nat nd \<le> length dims"
    and "list_all (\<lambda>d. 0 < d) (take (nat nd) dims)"
  shows "\<exists>res. MP_Cart_Create nprocs nd dims = Some res
    \<and> (case res of Inr c \<Rightarrow> mesh_ok nprocs c \<and> dim c = take (nat nd) dims
         | Inl e \<Rightarrow> prod_list (take (nat nd) dims) \<noteq> nprocs)"
proof -
  have "dims ! 0 \<noteq> 0"
    using assms by (cases dims; cases "nat nd") auto
  with assms show ?thesis
    by (auto simp: MP_Cart_Create_def fold_prod mesh_ok_def)
qed

theorem cart_create_given_witness:
  "\<exists>c. MP_Cart_Create 24 3 [2, 3, 4] = Some (Inr c) \<and> mesh_ok 24 c"
proof -
  have "\<exists>res. MP_Cart_Create 24 3 [2, 3, 4] = Some res
      \<and> (case res of Inr c \<Rightarrow> mesh_ok 24 c \<and> dim c = take (nat 3) [2, 3, 4]
           | Inl e \<Rightarrow> prod_list (take (nat 3) [2, 3, 4]) \<noteq> (24 :: int))"
    by (rule cart_create_given) simp_all
  then obtain res where "MP_Cart_Create 24 3 [2, 3, 4] = Some res"
    and "case res of Inr c \<Rightarrow> mesh_ok 24 c \<and> dim c = take (nat 3) [2, 3, 4]
           | Inl e \<Rightarrow> prod_list (take (nat 3) [2, 3, 4]) \<noteq> (24 :: int)"
    by blast
  then show ?thesis by (cases res) simp_all
qed

text \<open>
  The processes are not divided among the dimensions: with \<open>dims[0] = 0\<close> the search for a
  factor ends with the number itself, so the first dimension gets all processes and the others
  are 1, although the comment promises to minimize the difference between the dimensions.
\<close>

theorem cart_create_auto_one_dimension:
  assumes "1 \<le> nprocs" and "1 \<le> nd" and "nd \<le> 10" and "nat nd \<le> length dims" and "dims ! 0 = 0"
  shows "MP_Cart_Create nprocs nd dims
    = Some (Inr \<lparr>ndims = nat nd, dim = nprocs # replicate (nat nd - 1) 1\<rparr>)"
proof -
  obtain k where k: "nat nd = Suc k" using assms(2) by (cases "nat nd") auto
  have one: "cart_divide nd 1 d ds = Some ds" for nd d ds by (simp add: cart_divide.simps)
  have "cart_divide (Suc k) nprocs 0 (replicate (Suc k) 1) = Some (nprocs # replicate k 1)"
  proof (cases "nprocs = 1")
    case True
    then show ?thesis by (simp add: one)
  next
    case False
    with assms(1) have n: "2 \<le> nprocs" by simp
    then have "cart_divide (Suc k) nprocs 0 (replicate (Suc k) 1)
       = cart_divide (Suc k) 1 (1 mod Suc k) ((replicate (Suc k) 1)[0 := 1 * nprocs])"
      by (subst cart_divide.simps) (simp add: last_factor_self)
    then show ?thesis by (simp add: one)
  qed
  with assms k show ?thesis by (simp add: MP_Cart_Create_def)
qed

theorem cart_create_auto_one_dimension_witness:
  "MP_Cart_Create 36 2 [0, 0] = Some (Inr \<lparr>ndims = 2, dim = [36, 1]\<rparr>)"
  using cart_create_auto_one_dimension [of 36 2 "[0, 0]"] by (simp add: numeral_2_eq_2)

section \<open>Neighbours\<close>

lemma coords_nth:
  "list_all (\<lambda>d. 0 < d) ds \<Longrightarrow> 0 \<le> r \<Longrightarrow> n < length ds \<Longrightarrow>
     cart_coords ds r ! n = r div prod_list (take n ds) mod ds ! n"
proof (induction ds arbitrary: r n)
  case (Cons d ds)
  show ?case
  proof (cases n)
    case 0
    with Cons.prems show ?thesis by simp
  next
    case (Suc m)
    have "0 < prod_list (take m ds)" using Cons.prems(1) by (intro prod_list_pos list_all_take) simp
    with Cons Suc show ?thesis by (simp add: pos_imp_zdiv_nonneg_iff zdiv_zmult2_eq)
  qed
qed simp

text \<open>Moving by \<open>t\<close> inside a block of \<open>d * k\<close> consecutive ranks, in terms of digits.\<close>

lemma in_block_low:
  fixes x :: int
  assumes "0 < P" and "0 < m" and "P * m dvd d" and "P * m dvd b"
  shows "(b + (x + t * d) mod (d * k)) div P mod m = x div P mod m"
proof -
  have "((b + (x + t * d) mod (d * k)) mod (P * m)) = x mod (P * m)"
  proof -
    have "P * m dvd d * k" using assms(3) by simp
    then have "(x + t * d) mod (d * k) mod (P * m) = (x + t * d) mod (P * m)" by (rule mod_mod_cancel)
    also have "\<dots> = x mod (P * m)"
    proof -
      obtain q where "d = P * m * q" using assms(3) by (elim dvdE)
      then have "x + t * d = x + (t * q) * (P * m)" by simp
      then show ?thesis by (metis mod_mult_self1)
    qed
    finally have e: "(x + t * d) mod (d * k) mod (P * m) = x mod (P * m)" .
    obtain q where "b = P * m * q" using assms(4) by (elim dvdE)
    then have "(b + (x + t * d) mod (d * k)) mod (P * m) = (x + t * d) mod (d * k) mod (P * m)"
      by simp
    with e show ?thesis by simp
  qed
  moreover have "y div P mod m = y mod (P * m) div P" for y
    using assms(1,2) by (simp add: zmod_zmult2_eq)
  ultimately show ?thesis by simp
qed

lemma in_block_at:
  fixes x :: int
  assumes "0 < d" and "0 < k"
  shows "(x div (d * k) * (d * k) + (x + t * d) mod (d * k)) div d mod k = (x div d + t) mod k"
proof -
  have "(x div (d * k) * (d * k) + (x + t * d) mod (d * k)) div d
      = x div (d * k) * k + (x + t * d) mod (d * k) div d"
    using assms by (simp add: mult.assoc [symmetric] mult.commute [of d k] div_mult_self3)
  also have "(x + t * d) mod (d * k) div d = (x div d + t) mod k"
    using assms by (simp add: zmod_zmult2_eq add.commute)
  finally show ?thesis by (simp add: add.commute)
qed

lemma in_block_high:
  fixes x :: int
  assumes "0 < d" and "0 < k" and "d * k dvd P" and "0 < P"
  shows "(x div (d * k) * (d * k) + (x + t * d) mod (d * k)) div P = x div P"
proof -
  let ?y = "x div (d * k) * (d * k) + (x + t * d) mod (d * k)"
  obtain q where q: "P = d * k * q" using assms(3) by (elim dvdE)
  have "0 < d * k" using assms by simp
  with assms(4) q have "0 < q" by (metis zero_less_mult_pos)
  have "?y div (d * k) = x div (d * k)" using assms by simp
  then show ?thesis using \<open>0 < q\<close> by (simp add: q zdiv_zmult2_eq)
qed

lemma prod_take_dvd: "m \<le> n \<Longrightarrow> prod_list (take m ds) dvd (prod_list (take n ds) :: int)"
proof -
  assume "m \<le> n"
  then have "take n ds = take m ds @ take (n - m) (drop m ds)" by (metis le_add_diff_inverse take_add)
  then show ?thesis by simp
qed

lemma prod_take_Suc:
  "n < length ds \<Longrightarrow> prod_list (take (Suc n) ds) = prod_list (take n ds) * (ds ! n :: int)"
  by (simp add: take_Suc_conv_app_nth)

lemma shift_to_mod:
  assumes "0 < d" and "0 < k" and "0 \<le> myproc"
  shows "shift_to d (d * k) (c_div myproc (d * k) * (d * k)) myproc dist
       = myproc div (d * k) * (d * k) + (myproc + (dist + \<bar>dist\<bar> * k) * d) mod (d * k)"
proof -
  have sub: "myproc - myproc div (d * k) * (d * k) = myproc mod (d * k)"
    by (simp add: minus_div_mult_eq_mod)
  have "1 * \<bar>dist\<bar> \<le> k * \<bar>dist\<bar>" using assms(2) by (intro mult_right_mono) simp_all
  then have "0 \<le> dist + \<bar>dist\<bar> * k" by (simp add: mult.commute)
  then have "0 \<le> (dist + \<bar>dist\<bar> * k) * d" using assms(1) by simp
  moreover have "0 \<le> myproc mod (d * k)" using assms by simp
  ultimately have "0 \<le> myproc mod (d * k) + (dist + \<bar>dist\<bar> * k) * d" by simp
  then have nonneg: "0 \<le> myproc mod (d * k) + dist * d + \<bar>dist\<bar> * (d * k)"
    by (simp add: algebra_simps)
  have "(myproc mod (d * k) + dist * d + \<bar>dist\<bar> * (d * k)) mod (d * k)
      = (myproc + (dist + \<bar>dist\<bar> * k) * d) mod (d * k)"
  proof -
    have "dist * d + \<bar>dist\<bar> * (d * k) = (dist + \<bar>dist\<bar> * k) * d" by (simp add: algebra_simps)
    then show ?thesis by (metis add.assoc mod_add_left_eq)
  qed
  with nonneg sub assms show ?thesis
    by (simp add: shift_to_def less_imp_le)
qed

lemma shift_to_coords:
  fixes t :: int
  assumes ok: "mesh_ok nprocs c" and x: "0 \<le> x" "x < nprocs" and dir: "dir < ndims c"
  defines "d \<equiv> prod_list (take dir (dim c))" and "k \<equiv> dim c ! dir"
  assumes y_def: "y = x div (d * k) * (d * k) + (x + t * d) mod (d * k)"
  shows "0 \<le> y \<and> y < nprocs \<and>
     cart_coords (dim c) y = (cart_coords (dim c) x)[dir := (cart_coords (dim c) x ! dir + t) mod k]"
proof -
  let ?ds = "dim c"
  have pos: "list_all (\<lambda>d. 0 < d) ?ds" and len: "length ?ds = ndims c" and n: "prod_list ?ds = nprocs"
    using ok by (simp_all add: mesh_ok_def)
  have P: "0 < prod_list (take n ?ds)" for n using pos prod_list_pos list_all_take by blast
  have m: "n < ndims c \<Longrightarrow> 0 < ?ds ! n" for n using pos len by (simp add: list_all_length)
  have dpos: "0 < d" and kpos: "0 < k" using P m dir by (simp_all add: d_def k_def)
  then have dk: "0 < d * k" by simp
  have y0: "0 \<le> y" using dk x by (simp add: y_def pos_imp_zdiv_nonneg_iff)
  have ynth: "y div prod_list (take n ?ds) mod ?ds ! n
      = (if n = dir then (x div d + t) mod k else x div prod_list (take n ?ds) mod ?ds ! n)"
    if "n < ndims c" for n
  proof (cases n dir rule: linorder_cases)
    case less
    have "prod_list (take n ?ds) * ?ds ! n dvd d"
      using prod_take_dvd [of "Suc n" dir ?ds] less that len prod_take_Suc [of n ?ds]
      by (simp add: d_def)
    with less in_block_low [OF P m [OF that] this, of "x div (d * k) * (d * k)" x t k] show ?thesis
      by (simp add: y_def dvd_mult2 dvd_mult)
  next
    case equal
    with in_block_at [OF dpos kpos, of x t] show ?thesis by (simp add: y_def d_def k_def)
  next
    case greater
    have "d * k dvd prod_list (take n ?ds)"
      using prod_take_dvd [of "Suc dir" n ?ds] greater dir len prod_take_Suc [of dir ?ds]
      by (simp add: d_def k_def)
    with greater in_block_high [OF dpos kpos this P, of x t] show ?thesis by (simp add: y_def)
  qed
  have "y < nprocs"
  proof -
    have "d * k dvd nprocs"
      using prod_take_dvd [of "Suc dir" "length ?ds" ?ds] dir len prod_take_Suc [of dir ?ds] n
      by (simp add: d_def k_def)
    then obtain q where q: "nprocs = d * k * q" by (elim dvdE)
    have "x div (d * k) < q"
    proof (rule ccontr)
      assume "\<not> x div (d * k) < q"
      then have "q * (d * k) \<le> x div (d * k) * (d * k)" using dk by (intro mult_right_mono) simp_all
      also have "\<dots> \<le> x" using dk pos_mod_sign [OF dk, of x] div_mult_mod_eq [of x "d * k"] by linarith
      finally show False using x(2) q by (simp add: mult.commute)
    qed
    then have "(x div (d * k) + 1) * (d * k) \<le> q * (d * k)" using dk by (intro mult_right_mono) simp_all
    moreover have "(x + t * d) mod (d * k) < d * k" using dk by simp
    ultimately show ?thesis by (simp add: y_def q algebra_simps)
  qed
  moreover have "cart_coords ?ds y = (cart_coords ?ds x)[dir := (cart_coords ?ds x ! dir + t) mod k]"
  proof (rule nth_equalityI)
    fix n assume "n < length (cart_coords ?ds y)"
    then have "n < length ?ds" by simp
    then show "cart_coords ?ds y ! n
        = (cart_coords ?ds x)[dir := (cart_coords ?ds x ! dir + t) mod k] ! n"
      using coords_nth [OF pos y0] coords_nth [OF pos x(1)] ynth [of n] len
      by (simp add: nth_list_update d_def k_def mod_add_left_eq)
  qed simp
  ultimately show ?thesis using y0 by simp
qed

lemma cart_shift_step:
  assumes ok: "mesh_ok nprocs c" and "0 \<le> myproc" and "myproc < nprocs"
    and "0 \<le> dir" and "dir < int (ndims c)"
  shows "\<exists>src dst. MP_Cart_Shift (Some c) myproc dir dist = Inr (src, dst)
     \<and> 0 \<le> src \<and> src < nprocs \<and> 0 \<le> dst \<and> dst < nprocs
     \<and> (let x = cart_coords (dim c) myproc; n = nat dir; k = dim c ! n in
          cart_coords (dim c) src = x[n := (x ! n - dist) mod k]
        \<and> cart_coords (dim c) dst = x[n := (x ! n + dist) mod k])"
proof -
  let ?n = "nat dir" and ?ds = "dim c"
  let ?d = "prod_list (take ?n ?ds)" and ?k = "?ds ! ?n"
  have n: "?n < ndims c" using assms by simp
  have "list_all (\<lambda>d. 0 < d) ?ds" and len: "length ?ds = ndims c" using ok by (simp_all add: mesh_ok_def)
  then have "0 < ?d" "0 < ?k" using n prod_list_pos list_all_take by (blast, simp add: list_all_length)
  note to = shift_to_mod [OF this assms(2)]
  have move: "0 \<le> y \<and> y < nprocs \<and> cart_coords ?ds y
       = (cart_coords ?ds myproc)[?n := (cart_coords ?ds myproc ! ?n + e) mod ?k]"
    if "y = shift_to ?d (?d * ?k) (c_div myproc (?d * ?k) * (?d * ?k)) myproc e" for e y
    using shift_to_coords [OF ok assms(2,3) n that [unfolded to]] by (simp add: add.assoc [symmetric])
  have "MP_Cart_Shift (Some c) myproc dir dist
     = Inr (shift_to ?d (?d * ?k) (c_div myproc (?d * ?k) * (?d * ?k)) myproc (- dist),
            shift_to ?d (?d * ?k) (c_div myproc (?d * ?k) * (?d * ?k)) myproc dist)"
    using assms n len by (simp add: MP_Cart_Shift_def fold_prod Let_def)
  with move [OF refl, of "- dist"] move [OF refl, of dist] show ?thesis by (simp add: Let_def)
qed

text \<open>
  \<open>MP_Cart_Shift\<close> finds the neighbours on the torus: source and destination are processes of
  the mesh, the coordinate in the given direction is moved back or forward by the distance,
  wrapping around the ends for any distance of either sign, and the other coordinates stay.
\<close>

theorem cart_shift_neighbours:
  assumes ok: "mesh_ok nprocs c" and "0 \<le> myproc" and "myproc < nprocs"
    and "0 \<le> dir" and "dir < int (ndims c)"
  shows "\<exists>src dst. MP_Cart_Shift (Some c) myproc dir dist = Inr (src, dst)
     \<and> 0 \<le> src \<and> src < nprocs \<and> 0 \<le> dst \<and> dst < nprocs
     \<and> (let x = cart_coords (dim c) myproc; n = nat dir; k = dim c ! n in
          cart_coords (dim c) src = x[n := (x ! n - dist) mod k]
        \<and> cart_coords (dim c) dst = x[n := (x ! n + dist) mod k])"
  by (rule cart_shift_step [OF assms])

theorem cart_shift_neighbours_witness:
  "\<exists>src dst. MP_Cart_Shift (Some mesh234) 17 1 (- 4) = Inr (src, dst)
     \<and> cart_coords [2, 3, 4] src = [1, 0, 2] \<and> cart_coords [2, 3, 4] dst = [1, 1, 2]"
  using cart_shift_neighbours [of 24 mesh234 17 1 "- 4"]
  by (auto simp: mesh_ok_def mesh234_def Let_def)

text \<open>
  A shift matches: if I send to \<open>dst\<close>, then for \<open>dst\<close> the source of the same shift is me.
\<close>

theorem cart_shift_matches:
  assumes ok: "mesh_ok nprocs c" and "0 \<le> myproc" and "myproc < nprocs"
    and "0 \<le> dir" and "dir < int (ndims c)"
    and shift: "MP_Cart_Shift (Some c) myproc dir dist = Inr (src, dst)"
  shows "\<exists>dst'. MP_Cart_Shift (Some c) dst dir dist = Inr (myproc, dst')"
proof -
  let ?n = "nat dir" and ?ds = "dim c"
  let ?k = "?ds ! ?n" and ?x = "cart_coords ?ds myproc"
  from shift have
    move: "0 \<le> dst" "dst < nprocs" "cart_coords ?ds dst = ?x[?n := (?x ! ?n + dist) mod ?k]"
    using cart_shift_step [OF assms(1-5), of dist] by (auto simp: Let_def)
  obtain s' d' where ret: "MP_Cart_Shift (Some c) dst dir dist = Inr (s', d')" "0 \<le> s'" "s' < nprocs"
      "cart_coords ?ds s' = (cart_coords ?ds dst)[?n := (cart_coords ?ds dst ! ?n - dist) mod ?k]"
    using cart_shift_step [OF ok move(1,2) assms(4,5), of dist] by (auto simp: Let_def)
  have pos: "list_all (\<lambda>d. 0 < d) ?ds" and len: "length ?ds = ndims c" and n: "?n < ndims c"
    and prod: "prod_list ?ds = nprocs"
    using ok assms by (simp_all add: mesh_ok_def)
  then have "0 \<le> ?x ! ?n \<and> ?x ! ?n < ?k"
    using coords_ok [OF pos assms(2)] by (auto dest: list_all2_nthD2)
  then have "((?x ! ?n + dist) mod ?k - dist) mod ?k = ?x ! ?n" by (simp add: mod_diff_left_eq)
  then have same: "cart_coords ?ds s' = ?x" using ret(4) move(3) n len by simp
  have "s' = myproc"
  proof -
    have "s' mod nprocs = myproc mod nprocs"
      using mixed_coords [OF pos ret(2)] mixed_coords [OF pos assms(2)] same
      unfolding prod by metis
    with assms(2,3) ret(2,3) show ?thesis by (simp only: mod_pos_pos_trivial)
  qed
  with ret(1) show ?thesis by blast
qed

theorem cart_shift_matches_witness:
  "\<exists>dst'. MP_Cart_Shift (Some mesh234) 15 1 (- 4) = Inr (17, dst')"
proof (rule cart_shift_matches [where nprocs = 24])
  show "MP_Cart_Shift (Some mesh234) 17 1 (- 4) = Inr (13, 15)"
    by (simp add: MP_Cart_Shift_def mesh234_def Let_def shift_to_def)
qed (simp_all add: mesh_ok_def mesh234_def)

end
