(* ===== verification/Doubling.thy ===== *)
theory Doubling
  imports Prelude
begin

unbundle bit_operations_syntax

text \<open>
  The communication pattern that \<open>MP_Global\<close> and \<open>MP_Global_gather\<close> of
  \<open>MP_Lite/mpcore.c\<close> share: recursive doubling.  The participating processes are renumbered
  from 0 to \<open>nvprocs - 1\<close>; in the turn with distance \<open>np\<close> process \<open>p\<close> exchanges data with
  \<open>p ^ np\<close>.  When \<open>nvprocs\<close> is no power of two the last process stands in for the numbers
  above it, and the array \<open>trial\<close> tells which of these have data.

  A process preposts one receive, sends, and then waits.  A turn of all processes is one
  function of their data; a receive that no send matches is a hang, the value \<open>None\<close>.  The
  interface \<open>doubling\<close> says what one exchange must keep for the whole pattern to be right.
\<close>

section \<open>The processes of a mask\<close>

fun setup_step :: "int list \<Rightarrow> nat \<Rightarrow> nat \<Rightarrow> nat list \<times> nat \<Rightarrow> nat list \<times> nat" where
  "setup_step msk myproc i (vproc, myvproc) =
     (if msk ! i = 1 then vproc @ [i] else vproc, if i = myproc then length vproc else myvproc)"

definition setup_vprocs :: "nat \<Rightarrow> int list \<Rightarrow> nat \<Rightarrow> nat list \<times> nat" where
  "setup_vprocs nprocs msk myproc = fold (setup_step msk myproc) [0..<nprocs] ([], myproc)"

definition members :: "nat \<Rightarrow> int list \<Rightarrow> nat list" where
  "members nprocs msk = filter (\<lambda>i. msk ! i = 1) [0..<nprocs]"

lemma fst_setup [simp]: "fst (setup_vprocs nprocs msk me) = members nprocs msk"
proof -
  have "fst (fold (setup_step msk me) xs (vs, m)) = vs @ filter (\<lambda>i. msk ! i = 1) xs" for xs vs m
    by (induction xs arbitrary: vs m) simp_all
  then show ?thesis by (simp add: setup_vprocs_def members_def)
qed

lemma snd_setup:
  assumes "me < nprocs"
  shows "snd (setup_vprocs nprocs msk me) = length (members me msk)"
proof -
  have pre: "fst (fold (setup_step msk me) xs (vs, m)) = vs @ filter (\<lambda>i. msk ! i = 1) xs" for xs vs m
    by (induction xs arbitrary: vs m) simp_all
  have post: "snd (fold (setup_step msk me) xs (vs, m)) = m" if "me \<notin> set xs" for xs vs m
    using that by (induction xs arbitrary: vs m) simp_all
  have split: "[0..<nprocs] = [0..<me] @ me # [Suc me..<nprocs]"
    using assms by (metis upt_add_eq_append upt_conv_Cons le0 less_imp_le_nat le_add_diff_inverse)
  obtain vs m where h: "fold (setup_step msk me) [0..<me] ([], me) = (vs, m)" by fastforce
  with pre [of "[0..<me]" "[]" me] have "vs = members me msk" by (simp add: members_def)
  with h post show ?thesis by (simp add: setup_vprocs_def split)
qed

lemma member_at:
  assumes "me < nprocs" and "msk ! me = 1"
  shows "length (members me msk) < length (members nprocs msk)"
    and "members nprocs msk ! length (members me msk) = me"
proof -
  have split: "[0..<nprocs] = [0..<me] @ me # [Suc me..<nprocs]"
    using assms by (metis upt_add_eq_append upt_conv_Cons le0 less_imp_le_nat le_add_diff_inverse)
  then have "members nprocs msk = members me msk @ me # filter (\<lambda>i. msk ! i = 1) [Suc me..<nprocs]"
    using assms by (simp add: members_def)
  then show "length (members me msk) < length (members nprocs msk)"
    and "members nprocs msk ! length (members me msk) = me" by simp_all
qed

section \<open>One turn\<close>

text \<open>
  The source whose message is received, and the destinations in the order of the sends.
\<close>

definition turn_recv :: "nat \<Rightarrow> nat \<Rightarrow> int list \<Rightarrow> nat \<Rightarrow> nat option" where
  "turn_recv nv np trial me =
     (let source = me XOR np
      in if trial ! source \<noteq> 0 then Some (if source \<ge> nv then nv - 1 else source) else None)"

definition turn_sends :: "nat \<Rightarrow> nat \<Rightarrow> nat \<Rightarrow> int list \<Rightarrow> nat \<Rightarrow> nat list" where
  "turn_sends nv mx np trial me =
     (if me XOR np < nv then [me XOR np] else []) @
     (if me = nv - 1
      then [vp XOR np. vp \<leftarrow> [nv..<mx], trial ! vp \<noteq> 0 \<and> vp XOR np < nv - 1]
      else [])"

text \<open>
  \<open>step np me source from own other\<close> is the work of a process that has received: \<open>source\<close> is
  the partner, \<open>from\<close> the process that sent.
\<close>

definition turn_at ::
  "(nat \<Rightarrow> nat \<Rightarrow> nat \<Rightarrow> nat \<Rightarrow> 'b \<Rightarrow> 'b \<Rightarrow> 'b) \<Rightarrow> nat \<Rightarrow> nat \<Rightarrow> nat \<Rightarrow> int list \<Rightarrow> 'b list \<Rightarrow> nat \<Rightarrow> 'b option"
where
  "turn_at step nv mx np trial xs me = (case turn_recv nv np trial me of
     None \<Rightarrow> Some (xs ! me)
   | Some from \<Rightarrow> if me \<in> set (turn_sends nv mx np trial from)
                  then Some (step np me (me XOR np) from (xs ! me) (xs ! from)) else None)"

definition turn ::
  "(nat \<Rightarrow> nat \<Rightarrow> nat \<Rightarrow> nat \<Rightarrow> 'b \<Rightarrow> 'b \<Rightarrow> 'b) \<Rightarrow> nat \<Rightarrow> nat \<Rightarrow> nat \<Rightarrow> int list \<Rightarrow> 'b list \<Rightarrow> 'b list option"
where
  "turn step nv mx np trial xs = those (map (turn_at step nv mx np trial xs) [0..<nv])"

text \<open>The array is updated in place, so the second of a pair adds the sum already made.\<close>

definition update_trial :: "nat \<Rightarrow> nat \<Rightarrow> int list \<Rightarrow> int list" where
  "update_trial mx np trial = fold (\<lambda>i t. t[i := t ! i + t ! (i XOR np)]) [0..<mx] trial"

definition init_trial :: "nat \<Rightarrow> nat \<Rightarrow> int list" where
  "init_trial nv mx = replicate nv 1 @ replicate (mx - nv) 0"

function turns ::
  "(nat \<Rightarrow> nat \<Rightarrow> nat \<Rightarrow> nat \<Rightarrow> 'b \<Rightarrow> 'b \<Rightarrow> 'b) \<Rightarrow> nat \<Rightarrow> nat \<Rightarrow> nat \<Rightarrow> int list \<Rightarrow> 'b list \<Rightarrow> 'b list option"
where
  "turns step nv mx np trial xs =
     (if 0 < np \<and> np < mx
      then case turn step nv mx np trial xs of None \<Rightarrow> None
           | Some ys \<Rightarrow> turns step nv mx (np * 2) (update_trial mx np trial) ys
      else Some xs)"
  by pat_completeness auto
termination
  by (relation "measure (\<lambda>(step, nv, mx, np, trial, xs). mx - np)") auto

declare turns.simps [simp del]

definition all_turns :: "(nat \<Rightarrow> nat \<Rightarrow> nat \<Rightarrow> nat \<Rightarrow> 'b \<Rightarrow> 'b \<Rightarrow> 'b) \<Rightarrow> 'b list \<Rightarrow> 'b list option" where
  "all_turns step xs =
     (let nv = length xs; mx = pow2_above nv in turns step nv mx 1 (init_trial nv mx) xs)"

text \<open>
  A routine for the members of a mask, seen from all processes: \<open>data ! i\<close> is the memory of
  process \<open>i\<close>.  A process that is not in the mask returns at once, and so do all when there is
  nobody to talk to.
\<close>

definition masked :: "('b list \<Rightarrow> 'b list option) \<Rightarrow> nat \<Rightarrow> int list \<Rightarrow> 'b list \<Rightarrow> 'b list option" where
  "masked run nprocs msk data =
     (let vproc = members nprocs msk
      in if nprocs = 1 \<or> length vproc \<le> 1 then Some data
         else case run (map (\<lambda>i. data ! i) vproc) of None \<Rightarrow> None
         | Some ys \<Rightarrow> Some (map (\<lambda>i. if msk ! i \<noteq> 1 then data ! i
                               else ys ! snd (setup_vprocs nprocs msk i)) [0..<nprocs]))"

definition MP_all_mask :: "nat \<Rightarrow> int list" where
  "MP_all_mask nprocs = replicate nprocs 1"

lemma members_all [simp]: "members nprocs (MP_all_mask nprocs) = [0..<nprocs]"
  by (auto simp: members_def MP_all_mask_def intro: filter_True)

lemma members_set [simp]: "i \<in> set (members nprocs msk) \<longleftrightarrow> i < nprocs \<and> msk ! i = 1"
  by (auto simp: members_def)

text \<open>
  To show a property of every member it is enough to show it for the whole run on two members
  or more, and for the data of a single one.
\<close>

lemma masked_cases:
  assumes len: "length data = nprocs"
    and run: "2 \<le> length (members nprocs msk) \<Longrightarrow>
      \<exists>ys. run (map (\<lambda>i. data ! i) (members nprocs msk)) = Some ys
         \<and> length ys = length (members nprocs msk) \<and> (\<forall>p < length ys. P (ys ! p))"
    and single: "\<And>m. members nprocs msk = [m] \<Longrightarrow> P (data ! m)"
  shows "\<exists>res. masked run nprocs msk data = Some res \<and> length res = nprocs
     \<and> (\<forall>i < nprocs. if msk ! i = 1 then P (res ! i) else res ! i = data ! i)"
proof (cases "nprocs = 1 \<or> length (members nprocs msk) \<le> 1")
  case True
  have "P (data ! i)" if i: "i < nprocs" "msk ! i = 1" for i
  proof -
    have mem: "i \<in> set (members nprocs msk)" using i by simp
    have "length (members nprocs msk) \<le> nprocs"
      using length_filter_le [of _ "[0..<nprocs]"] by (simp add: members_def)
    with True have "length (members nprocs msk) \<le> 1" by linarith
    with mem have "members nprocs msk = [i]" by (cases "members nprocs msk") auto
    then show ?thesis by (rule single)
  qed
  with True len show ?thesis by (simp add: masked_def Let_def)
next
  case False
  then have "2 \<le> length (members nprocs msk)" by simp
  from run [OF this] obtain ys where ys: "run (map (\<lambda>i. data ! i) (members nprocs msk)) = Some ys"
      "length ys = length (members nprocs msk)" "\<forall>p < length ys. P (ys ! p)" by blast
  have "P (ys ! snd (setup_vprocs nprocs msk i))" if "i < nprocs" "msk ! i = 1" for i
    using ys(2,3) member_at(1) [OF that] that by (simp add: snd_setup)
  with ys(1) False show ?thesis by (simp add: masked_def Let_def)
qed

section \<open>Partners and blocks\<close>

lemma xor_twice [simp]: "(x XOR p) XOR p = x" for x p :: nat
  by (simp add: xor.assoc)

lemma xor_eq_iff: "x XOR p = y \<longleftrightarrow> x = y XOR p" for x y p :: nat
  by auto

lemma xor_pow2: "x XOR 2 ^ k = (if even (x div 2 ^ k) then x + 2 ^ k else x - 2 ^ k)" for x :: nat
proof -
  have up: "z XOR 2 ^ k = z + 2 ^ k" if "even (z div 2 ^ k)" for z :: nat
  proof -
    have "z XOR 2 ^ k = flip_bit k z" by (simp add: flip_bit_eq_xor push_bit_eq_mult)
    with that show ?thesis by (simp add: flip_bit_eq_if set_bit_eq bit_iff_odd)
  qed
  show ?thesis
  proof (cases "even (x div 2 ^ k)")
    case False
    then have "1 \<le> x div 2 ^ k" by (cases "x div 2 ^ k") auto
    then have le: "2 ^ k \<le> x" by (metis div_less less_one not_le)
    then obtain z where z: "x = z + 2 ^ k" by (metis le_add_diff_inverse2)
    then have "x div 2 ^ k = Suc (z div 2 ^ k)" by (simp add: div_add_self2)
    with False have "even (z div 2 ^ k)" by simp
    with up [OF this] z have "x = z XOR 2 ^ k" by simp
    then have "x XOR 2 ^ k = z" by simp
    with False z show ?thesis by simp
  qed (simp add: up)
qed

lemma xor_block:
  "(x XOR 2 ^ k) div 2 ^ k = (if even (x div 2 ^ k) then Suc (x div 2 ^ k) else x div 2 ^ k - 1)"
  for x :: nat
proof (cases "even (x div 2 ^ k)")
  case True
  then show ?thesis by (simp add: xor_pow2 div_add_self2)
next
  case False
  then have "1 \<le> x div 2 ^ k" by (cases "x div 2 ^ k") auto
  then have le: "2 ^ k \<le> x" by (metis div_less less_one not_le)
  then obtain z where z: "x = z + 2 ^ k" by (metis le_add_diff_inverse2)
  then have "x div 2 ^ k = Suc (z div 2 ^ k)" by (simp add: div_add_self2)
  with False z show ?thesis by (simp add: xor_pow2)
qed

lemma xor_block_neq: "(x XOR 2 ^ k) div 2 ^ k \<noteq> x div 2 ^ k" for x :: nat
  by (cases "x div 2 ^ k") (auto simp: xor_block)

lemma xor_block_half: "(x XOR 2 ^ k) div 2 ^ k div 2 = x div 2 ^ k div 2" for x :: nat
  by (auto simp: xor_block elim!: evenE oddE)

lemma xor_less:
  fixes x :: nat
  assumes "x < 2 ^ K" and "k < K"
  shows "(x XOR 2 ^ k) < 2 ^ K"
proof -
  obtain d where d: "K = Suc (k + d)" using assms(2) by (metis less_iff_Suc_add)
  have lt: "y < 2 ^ K \<longleftrightarrow> y div 2 ^ k div 2 < 2 ^ d" for y :: nat
    by (simp add: d div_mult2_eq [symmetric] div_less_iff_less_mult power_add mult_ac)
  show ?thesis using assms(1) by (simp add: lt xor_block_half)
qed

section \<open>Which numbers have data\<close>

text \<open>
  Before the turn with distance \<open>2 ^ k\<close> a number has data if the block of \<open>2 ^ k\<close> numbers it
  belongs to starts below \<open>nvprocs\<close>.
\<close>

definition trial_ok :: "nat \<Rightarrow> nat \<Rightarrow> nat \<Rightarrow> int list \<Rightarrow> bool" where
  "trial_ok nv K k trial \<longleftrightarrow> length trial = 2 ^ K
     \<and> (\<forall>i < 2 ^ K. 0 \<le> trial ! i \<and> (trial ! i \<noteq> 0 \<longleftrightarrow> i div 2 ^ k * 2 ^ k < nv))"

lemma init_trial_ok: "nv \<le> 2 ^ K \<Longrightarrow> trial_ok nv K 0 (init_trial nv (2 ^ K))"
  by (auto simp: trial_ok_def init_trial_def nth_append)

lemma update_trial_at:
  fixes trial :: "int list"
  assumes len: "length trial = 2 ^ K" and "k < K" and pos: "\<forall>i < 2 ^ K. 0 \<le> trial ! i" and "m \<le> 2 ^ K"
  shows "let t = fold (\<lambda>i t. t[i := t ! i + t ! (i XOR 2 ^ k)]) [0..<m] trial in
     length t = 2 ^ K \<and> (\<forall>i < 2 ^ K. 0 \<le> t ! i \<and>
       (t ! i \<noteq> 0 \<longleftrightarrow> trial ! i \<noteq> 0 \<or> i < m \<and> trial ! (i XOR 2 ^ k) \<noteq> 0))"
  using assms(4)
proof (induction m)
  case (Suc m)
  let ?t = "fold (\<lambda>i t. t[i := t ! i + t ! (i XOR 2 ^ k)]) [0..<m] trial"
  have IH: "length ?t = 2 ^ K" "\<And>i. i < 2 ^ K \<Longrightarrow> 0 \<le> ?t ! i \<and>
       (?t ! i \<noteq> 0 \<longleftrightarrow> trial ! i \<noteq> 0 \<or> i < m \<and> trial ! (i XOR 2 ^ k) \<noteq> 0)"
    using Suc by (simp_all add: Let_def)
  have m: "m < 2 ^ K" using Suc.prems by simp
  note p = xor_less [OF m assms(2)]
  have "0 \<le> ?t ! m" "0 \<le> ?t ! (m XOR 2 ^ k)" using IH(2) m p by blast+
  then have "?t ! m + ?t ! (m XOR 2 ^ k) \<noteq> 0 \<longleftrightarrow> ?t ! m \<noteq> 0 \<or> ?t ! (m XOR 2 ^ k) \<noteq> 0" by linarith
  also have "\<dots> \<longleftrightarrow> trial ! m \<noteq> 0 \<or> trial ! (m XOR 2 ^ k) \<noteq> 0"
    using IH(2) [OF m] IH(2) [OF p] by auto
  finally have nz: "?t ! m + ?t ! (m XOR 2 ^ k) \<noteq> 0 \<longleftrightarrow> trial ! m \<noteq> 0 \<or> trial ! (m XOR 2 ^ k) \<noteq> 0" .
  have "0 \<le> ?t ! m + ?t ! (m XOR 2 ^ k)" using \<open>0 \<le> ?t ! m\<close> \<open>0 \<le> ?t ! (m XOR 2 ^ k)\<close> by simp
  with nz IH m show ?case by (auto simp: Let_def nth_list_update less_Suc_eq)
qed (use len pos in \<open>simp add: Let_def\<close>)

lemma update_trial_ok:
  assumes "trial_ok nv K k trial" and "k < K"
  shows "trial_ok nv K (Suc k) (update_trial (2 ^ K) (2 ^ k) trial)"
proof -
  have len: "length trial = 2 ^ K" and pos: "\<forall>i < 2 ^ K. 0 \<le> trial ! i"
    and nz: "\<And>i. i < 2 ^ K \<Longrightarrow> trial ! i \<noteq> 0 \<longleftrightarrow> i div 2 ^ k * 2 ^ k < nv"
    using assms(1) by (simp_all add: trial_ok_def)
  have blk: "i div 2 ^ Suc k * 2 ^ Suc k < nv
      \<longleftrightarrow> i div 2 ^ k * 2 ^ k < nv \<or> (i XOR 2 ^ k) div 2 ^ k * 2 ^ k < nv" for i :: nat
  proof -
    have e: "i div 2 ^ Suc k * 2 ^ Suc k = 2 * (i div 2 ^ k div 2) * 2 ^ k"
      by (simp add: div_mult2_eq [symmetric] mult_ac)
    show ?thesis
    proof (cases "even (i div 2 ^ k)")
      case True
      then obtain q where "i div 2 ^ k = 2 * q" by (elim evenE)
      then show ?thesis unfolding e by (auto simp: xor_block algebra_simps)
    next
      case False
      then obtain q where "i div 2 ^ k = 2 * q + 1" by (elim oddE)
      then show ?thesis unfolding e by (auto simp: xor_block algebra_simps)
    qed
  qed
  have "let t = update_trial (2 ^ K) (2 ^ k) trial in
     length t = 2 ^ K \<and> (\<forall>i < 2 ^ K. 0 \<le> t ! i \<and>
       (t ! i \<noteq> 0 \<longleftrightarrow> trial ! i \<noteq> 0 \<or> i < 2 ^ K \<and> trial ! (i XOR 2 ^ k) \<noteq> 0))"
    unfolding update_trial_def by (rule update_trial_at [OF len assms(2) pos order_refl])
  then show ?thesis
    using nz xor_less [OF _ assms(2)] unfolding trial_ok_def blk by (simp add: Let_def)
qed

section \<open>Receives and sends of a turn match\<close>

lemma block_end: "x div 2 ^ k * 2 ^ k < nv \<Longrightarrow> nv \<le> x \<Longrightarrow> (nv - 1) div 2 ^ k = x div 2 ^ k" for x :: nat
proof -
  assume a: "x div 2 ^ k * 2 ^ k < nv" "nv \<le> x"
  have "x div 2 ^ k \<le> (nv - 1) div 2 ^ k"
    using a by (simp add: less_eq_div_iff_mult_less_eq)
  moreover have "(nv - 1) div 2 ^ k \<le> x div 2 ^ k" using a by (intro div_le_mono) simp
  ultimately show ?thesis by simp
qed

lemma own_block: "x < nv \<Longrightarrow> x div 2 ^ k * 2 ^ k < nv" for x :: nat
  by (metis div_times_less_eq_dividend le_less_trans)

lemma turn_matched:
  assumes t: "trial_ok nv K k trial" and k: "k < K" and nv: "nv \<le> 2 ^ K" and me: "me < nv" and s: "s < nv"
  shows "distinct (turn_sends nv (2 ^ K) (2 ^ k) trial s)"
    and "me \<in> set (turn_sends nv (2 ^ K) (2 ^ k) trial s) \<longleftrightarrow> turn_recv nv (2 ^ k) trial me = Some s"
proof -
  have nz: "trial ! i \<noteq> 0 \<longleftrightarrow> i div 2 ^ k * 2 ^ k < nv" if "i < 2 ^ K" for i
    using t that by (simp add: trial_ok_def)
  have inj: "x XOR 2 ^ k = y XOR 2 ^ k \<longleftrightarrow> x = y" for x y :: nat by (metis xor_twice)
  let ?vps = "[vp \<leftarrow> [nv..<2 ^ K]. trial ! vp \<noteq> 0 \<and> vp XOR 2 ^ k < nv - 1]"
  have conv: "[vp XOR 2 ^ k. vp \<leftarrow> xs, trial ! vp \<noteq> 0 \<and> vp XOR 2 ^ k < nv - 1]
      = map (\<lambda>vp. vp XOR 2 ^ k) [vp \<leftarrow> xs. trial ! vp \<noteq> 0 \<and> vp XOR 2 ^ k < nv - 1]" for xs
    by (induction xs) simp_all
  have "distinct (map (\<lambda>vp. vp XOR 2 ^ k) ?vps)" by (simp add: distinct_map inj_on_def inj)
  moreover have "s XOR 2 ^ k \<notin> (\<lambda>vp. vp XOR 2 ^ k) ` set ?vps" using s by (auto simp: inj)
  ultimately show "distinct (turn_sends nv (2 ^ K) (2 ^ k) trial s)"
    unfolding turn_sends_def conv by auto
  let ?p = "me XOR 2 ^ k"
  have p: "?p < 2 ^ K" using me nv k by (intro xor_less) simp_all
  have "me \<in> (\<lambda>vp. vp XOR 2 ^ k) ` set ?vps \<longleftrightarrow> nv \<le> ?p \<and> trial ! ?p \<noteq> 0 \<and> me < nv - 1"
    using p by (auto simp: image_iff intro!: bexI [of _ ?p])
  also have "\<dots> \<longleftrightarrow> nv \<le> ?p \<and> trial ! ?p \<noteq> 0"
    using me nz [OF p] block_end [of ?p k nv] xor_block_neq [of me k] by (cases "me = nv - 1") auto
  finally have virt: "me \<in> (\<lambda>vp. vp XOR 2 ^ k) ` set ?vps \<longleftrightarrow> nv \<le> ?p \<and> trial ! ?p \<noteq> 0" .
  have "?p < nv \<Longrightarrow> trial ! ?p \<noteq> 0" using nz [OF p] own_block by blast
  moreover have "me = s XOR 2 ^ k \<longleftrightarrow> s = ?p" by (metis xor_twice)
  ultimately show "me \<in> set (turn_sends nv (2 ^ K) (2 ^ k) trial s)
      \<longleftrightarrow> turn_recv nv (2 ^ k) trial me = Some s"
    unfolding turn_sends_def conv turn_recv_def Let_def set_append Un_iff set_map
    using s me virt by auto
qed

section \<open>What one exchange must keep\<close>

locale doubling =
  fixes step :: "nat \<Rightarrow> nat \<Rightarrow> nat \<Rightarrow> nat \<Rightarrow> 'b \<Rightarrow> 'b \<Rightarrow> 'b"
    and good :: "nat \<Rightarrow> nat \<Rightarrow> nat \<Rightarrow> 'b \<Rightarrow> bool"
  assumes exchange: "me < nv \<Longrightarrow> from < nv \<Longrightarrow> source = me XOR 2 ^ k \<Longrightarrow>
        from div 2 ^ k = source div 2 ^ k \<Longrightarrow> good nv k me x \<Longrightarrow> good nv k from y \<Longrightarrow>
        good nv (Suc k) me (step (2 ^ k) me source from x y)"
    and alone: "me < nv \<Longrightarrow> nv \<le> (me XOR 2 ^ k) div 2 ^ k * 2 ^ k \<Longrightarrow> good nv k me x \<Longrightarrow>
        good nv (Suc k) me x"
begin

lemma turn_good:
  assumes t: "trial_ok nv K k trial" and k: "k < K" and nv: "nv \<le> 2 ^ K"
    and good: "length xs = nv" "\<forall>p < nv. good nv k p (xs ! p)"
  shows "\<exists>ys. turn step nv (2 ^ K) (2 ^ k) trial xs = Some ys \<and> length ys = nv
     \<and> (\<forall>p < nv. good nv (Suc k) p (ys ! p))"
proof -
  have one: "\<exists>y. turn_at step nv (2 ^ K) (2 ^ k) trial xs me = Some y \<and> good nv (Suc k) me y"
    if me: "me < nv" for me
  proof -
    let ?p = "me XOR 2 ^ k"
    have p: "?p < 2 ^ K" using me nv k by (intro xor_less) simp_all
    have nz: "trial ! ?p \<noteq> 0 \<longleftrightarrow> ?p div 2 ^ k * 2 ^ k < nv"
      using t p by (simp add: trial_ok_def)
    show ?thesis
    proof (cases "trial ! ?p = 0")
      case True
      with nz have "nv \<le> ?p div 2 ^ k * 2 ^ k" by simp
      with alone [OF me this] good me True show ?thesis
        by (simp add: turn_at_def turn_recv_def)
    next
      case False
      let ?from = "if ?p \<ge> nv then nv - 1 else ?p"
      have f: "?from < nv" using me by simp
      have r: "turn_recv nv (2 ^ k) trial me = Some ?from"
        using False by (simp add: turn_recv_def)
      have "?from div 2 ^ k = ?p div 2 ^ k" using False nz block_end [of ?p k nv] by simp
      from exchange [OF me f refl this] good me f r turn_matched(2) [OF t k nv me f]
      show ?thesis by (simp add: turn_at_def)
    qed
  qed
  then obtain y where y: "\<forall>me < nv. turn_at step nv (2 ^ K) (2 ^ k) trial xs me = Some (y me)
      \<and> good nv (Suc k) me (y me)" by metis
  then have "map (turn_at step nv (2 ^ K) (2 ^ k) trial xs) [0..<nv] = map (Some \<circ> y) [0..<nv]" by simp
  moreover have "those (map (Some \<circ> g) ns) = Some (map g ns)" for g :: "nat \<Rightarrow> 'b" and ns
    by (induction ns) simp_all
  ultimately have "turn step nv (2 ^ K) (2 ^ k) trial xs = Some (map y [0..<nv])"
    by (simp only: turn_def)
  with y show ?thesis by simp
qed

lemma turns_good:
  assumes "trial_ok nv K k trial" and "k \<le> K" and nv: "nv \<le> 2 ^ K"
    and "length xs = nv" and "\<forall>p < nv. good nv k p (xs ! p)"
  shows "\<exists>ys. turns step nv (2 ^ K) (2 ^ k) trial xs = Some ys \<and> length ys = nv
     \<and> (\<forall>p < nv. good nv K p (ys ! p))"
  using assms(1,2,4,5)
proof (induction "K - k" arbitrary: k trial xs)
  case 0
  then have "k = K" by simp
  with 0 show ?case by (simp add: turns.simps)
next
  case (Suc d)
  then have k: "k < K" by simp
  obtain ys where ys: "turn step nv (2 ^ K) (2 ^ k) trial xs = Some ys" "length ys = nv"
      "\<forall>p < nv. good nv (Suc k) p (ys ! p)"
    using turn_good [OF Suc.prems(1) k nv Suc.prems(3,4)] by blast
  have "turns step nv (2 ^ K) (2 ^ k) trial xs
      = turns step nv (2 ^ K) (2 ^ Suc k) (update_trial (2 ^ K) (2 ^ k) trial) ys"
    using ys k by (subst turns.simps) (simp add: mult.commute)
  moreover have "d = K - Suc k" "Suc k \<le> K" using Suc.hyps(2) k by simp_all
  ultimately show ?case
    using Suc.hyps(1) [OF _ update_trial_ok [OF Suc.prems(1) k] _ ys(2,3)] by simp
qed

lemma all_turns_good:
  assumes "\<forall>p < length xs. good (length xs) 0 p (xs ! p)"
  shows "\<exists>ys K. all_turns step xs = Some ys \<and> length ys = length xs \<and> length xs \<le> 2 ^ K
     \<and> (\<forall>p < length xs. good (length xs) K p (ys ! p))"
proof -
  obtain K where K: "pow2_above (length xs) = 2 ^ K" using pow2_above_power by blast
  then have le: "length xs \<le> 2 ^ K" using pow2_above_ge [of "length xs"] by simp
  from turns_good [OF init_trial_ok [OF le] le0 le refl assms] le K show ?thesis
    by (simp add: all_turns_def Let_def) blast
qed

end

end
