(* ===== verification/Reduction.thy ===== *)
theory Reduction
  imports Doubling
begin

text \<open>
  Global reductions, \<open>MP_Global\<close> of \<open>MP_Lite/mpcore.c\<close> and its type-specific wrappers: every
  process of a mask ends with the elementwise sum, maximum or minimum of the vectors of all of
  them.  \<open>int\<close> elements are 32-bit words; the arithmetic of \<open>float\<close> and \<open>double\<close>, which the
  machine provides, is a parameter.
\<close>

section \<open>MP_Global\<close>

definition global_bytes_per :: "int \<Rightarrow> int" where
  "global_bytes_per op_type =
     (if c_mod op_type 3 = 1 then 4 else if c_mod op_type 3 = 2 then 4 else 8)"

text \<open>
  The new value of an element from its old value \<open>v\<close> and the one received, \<open>w\<close>.  For an unknown
  \<open>op_type\<close> an error is printed and the vector stays.
\<close>

definition global_elem :: "('a \<Rightarrow> 'a \<Rightarrow> 'a) \<Rightarrow> ('a \<Rightarrow> 'a \<Rightarrow> bool) \<Rightarrow> int \<Rightarrow> 'a \<Rightarrow> 'a \<Rightarrow> 'a" where
  "global_elem add lt op_type v w =
     (if op_type = 0 \<or> op_type = 1 \<or> op_type = 2 then add v w
      else if op_type = 3 \<or> op_type = 4 \<or> op_type = 5 then (if lt v w then w else v)
      else if op_type = 6 \<or> op_type = 7 \<or> op_type = 8 then (if lt w v then w else v)
      else v)"

definition global_step ::
  "('a \<Rightarrow> 'a \<Rightarrow> 'a) \<Rightarrow> nat \<Rightarrow> nat \<Rightarrow> nat \<Rightarrow> nat \<Rightarrow> 'a list \<Rightarrow> 'a list \<Rightarrow> 'a list" where
  "global_step elem np myvproc source from vec work = map2 elem vec work"

definition MP_Global ::
  "('a \<Rightarrow> 'a \<Rightarrow> 'a) \<Rightarrow> ('a \<Rightarrow> 'a \<Rightarrow> bool) \<Rightarrow> nat \<Rightarrow> int \<Rightarrow> int list \<Rightarrow> 'a list list \<Rightarrow> 'a list list option"
where
  "MP_Global add lt nprocs op_type msk vecs =
     masked (all_turns (global_step (global_elem add lt op_type))) nprocs msk vecs"

text \<open>The wrappers, for all processes and for those of a mask.\<close>

definition MP_dSum ::
  "('a \<Rightarrow> 'a \<Rightarrow> 'a) \<Rightarrow> ('a \<Rightarrow> 'a \<Rightarrow> bool) \<Rightarrow> nat \<Rightarrow> 'a list list \<Rightarrow> 'a list list option" where
  "MP_dSum add lt nprocs = MP_Global add lt nprocs 0 (MP_all_mask nprocs)"

definition MP_iSum :: "nat \<Rightarrow> 32 word list list \<Rightarrow> 32 word list list option" where
  "MP_iSum nprocs = MP_Global (+) (<s) nprocs 1 (MP_all_mask nprocs)"

definition MP_fSum ::
  "('a \<Rightarrow> 'a \<Rightarrow> 'a) \<Rightarrow> ('a \<Rightarrow> 'a \<Rightarrow> bool) \<Rightarrow> nat \<Rightarrow> 'a list list \<Rightarrow> 'a list list option" where
  "MP_fSum add lt nprocs = MP_Global add lt nprocs 2 (MP_all_mask nprocs)"

definition MP_dMax ::
  "('a \<Rightarrow> 'a \<Rightarrow> 'a) \<Rightarrow> ('a \<Rightarrow> 'a \<Rightarrow> bool) \<Rightarrow> nat \<Rightarrow> 'a list list \<Rightarrow> 'a list list option" where
  "MP_dMax add lt nprocs = MP_Global add lt nprocs 3 (MP_all_mask nprocs)"

definition MP_iMax :: "nat \<Rightarrow> 32 word list list \<Rightarrow> 32 word list list option" where
  "MP_iMax nprocs = MP_Global (+) (<s) nprocs 4 (MP_all_mask nprocs)"

definition MP_fMax ::
  "('a \<Rightarrow> 'a \<Rightarrow> 'a) \<Rightarrow> ('a \<Rightarrow> 'a \<Rightarrow> bool) \<Rightarrow> nat \<Rightarrow> 'a list list \<Rightarrow> 'a list list option" where
  "MP_fMax add lt nprocs = MP_Global add lt nprocs 5 (MP_all_mask nprocs)"

definition MP_dMin ::
  "('a \<Rightarrow> 'a \<Rightarrow> 'a) \<Rightarrow> ('a \<Rightarrow> 'a \<Rightarrow> bool) \<Rightarrow> nat \<Rightarrow> 'a list list \<Rightarrow> 'a list list option" where
  "MP_dMin add lt nprocs = MP_Global add lt nprocs 6 (MP_all_mask nprocs)"

definition MP_iMin :: "nat \<Rightarrow> 32 word list list \<Rightarrow> 32 word list list option" where
  "MP_iMin nprocs = MP_Global (+) (<s) nprocs 7 (MP_all_mask nprocs)"

definition MP_fMin ::
  "('a \<Rightarrow> 'a \<Rightarrow> 'a) \<Rightarrow> ('a \<Rightarrow> 'a \<Rightarrow> bool) \<Rightarrow> nat \<Rightarrow> 'a list list \<Rightarrow> 'a list list option" where
  "MP_fMin add lt nprocs = MP_Global add lt nprocs 8 (MP_all_mask nprocs)"

definition MP_dSum_masked ::
  "('a \<Rightarrow> 'a \<Rightarrow> 'a) \<Rightarrow> ('a \<Rightarrow> 'a \<Rightarrow> bool) \<Rightarrow> nat \<Rightarrow> int list \<Rightarrow> 'a list list \<Rightarrow> 'a list list option" where
  "MP_dSum_masked add lt nprocs msk = MP_Global add lt nprocs 0 msk"

definition MP_iSum_masked :: "nat \<Rightarrow> int list \<Rightarrow> 32 word list list \<Rightarrow> 32 word list list option" where
  "MP_iSum_masked nprocs msk = MP_Global (+) (<s) nprocs 1 msk"

definition MP_fSum_masked ::
  "('a \<Rightarrow> 'a \<Rightarrow> 'a) \<Rightarrow> ('a \<Rightarrow> 'a \<Rightarrow> bool) \<Rightarrow> nat \<Rightarrow> int list \<Rightarrow> 'a list list \<Rightarrow> 'a list list option" where
  "MP_fSum_masked add lt nprocs msk = MP_Global add lt nprocs 2 msk"

definition MP_dMax_masked ::
  "('a \<Rightarrow> 'a \<Rightarrow> 'a) \<Rightarrow> ('a \<Rightarrow> 'a \<Rightarrow> bool) \<Rightarrow> nat \<Rightarrow> int list \<Rightarrow> 'a list list \<Rightarrow> 'a list list option" where
  "MP_dMax_masked add lt nprocs msk = MP_Global add lt nprocs 3 msk"

definition MP_iMax_masked :: "nat \<Rightarrow> int list \<Rightarrow> 32 word list list \<Rightarrow> 32 word list list option" where
  "MP_iMax_masked nprocs msk = MP_Global (+) (<s) nprocs 4 msk"

definition MP_fMax_masked ::
  "('a \<Rightarrow> 'a \<Rightarrow> 'a) \<Rightarrow> ('a \<Rightarrow> 'a \<Rightarrow> bool) \<Rightarrow> nat \<Rightarrow> int list \<Rightarrow> 'a list list \<Rightarrow> 'a list list option" where
  "MP_fMax_masked add lt nprocs msk = MP_Global add lt nprocs 5 msk"

definition MP_dMin_masked ::
  "('a \<Rightarrow> 'a \<Rightarrow> 'a) \<Rightarrow> ('a \<Rightarrow> 'a \<Rightarrow> bool) \<Rightarrow> nat \<Rightarrow> int list \<Rightarrow> 'a list list \<Rightarrow> 'a list list option" where
  "MP_dMin_masked add lt nprocs msk = MP_Global add lt nprocs 6 msk"

definition MP_iMin_masked :: "nat \<Rightarrow> int list \<Rightarrow> 32 word list list \<Rightarrow> 32 word list list option" where
  "MP_iMin_masked nprocs msk = MP_Global (+) (<s) nprocs 7 msk"

definition MP_fMin_masked ::
  "('a \<Rightarrow> 'a \<Rightarrow> 'a) \<Rightarrow> ('a \<Rightarrow> 'a \<Rightarrow> bool) \<Rightarrow> nat \<Rightarrow> int list \<Rightarrow> 'a list list \<Rightarrow> 'a list list option" where
  "MP_fMin_masked add lt nprocs msk = MP_Global add lt nprocs 8 msk"

section \<open>The tree of partial results\<close>

definition merge :: "('b \<Rightarrow> 'b \<Rightarrow> 'b) \<Rightarrow> 'b option \<Rightarrow> 'b option \<Rightarrow> 'b option" where
  "merge g x y = (case x of None \<Rightarrow> y | Some a \<Rightarrow> (case y of None \<Rightarrow> x | Some b \<Rightarrow> Some (g a b)))"

text \<open>The partial result of block \<open>b\<close> of \<open>2 ^ k\<close> processes.\<close>

fun tree :: "('b \<Rightarrow> 'b \<Rightarrow> 'b) \<Rightarrow> 'b list \<Rightarrow> nat \<Rightarrow> nat \<Rightarrow> 'b option" where
  "tree g vs 0 b = (if b < length vs then Some (vs ! b) else None)"
| "tree g vs (Suc k) b = merge g (tree g vs k (2 * b)) (tree g vs k (2 * b + 1))"

lemma merge_None_iff [simp]: "merge g x y = None \<longleftrightarrow> x = None \<and> y = None"
  by (simp add: merge_def split: option.splits)

lemma tree_None_iff: "tree g vs k b = None \<longleftrightarrow> length vs \<le> b * 2 ^ k"
proof (induction k arbitrary: b)
  case (Suc k)
  have "length vs \<le> 2 * b * 2 ^ k \<and> length vs \<le> (2 * b + 1) * 2 ^ k \<longleftrightarrow> length vs \<le> b * 2 ^ Suc k"
    by auto
  then show ?case using Suc by simp
qed auto

definition red_good :: "('a \<Rightarrow> 'a \<Rightarrow> 'a) \<Rightarrow> 'a list list \<Rightarrow> nat \<Rightarrow> nat \<Rightarrow> nat \<Rightarrow> 'a list \<Rightarrow> bool" where
  "red_good elem vs nv k p x \<longleftrightarrow>
     ((\<forall>a b. elem a b = elem b a) \<longrightarrow> nv = length vs \<longrightarrow> tree (map2 elem) vs k (p div 2 ^ k) = Some x)"

lemma map2_commute: "(\<And>a b. f a b = f b a) \<Longrightarrow> map2 f xs ys = map2 f ys xs"
  by (rule nth_equalityI) simp_all

lemma half: "me div (2 * 2 ^ k) = me div 2 ^ k div 2" for me :: nat
  by (simp add: div_mult2_eq [symmetric] mult.commute)

interpretation red: doubling "global_step elem" "red_good elem vs" for elem vs
proof
  fix me nv "from" source k and x y :: "'a list"
  assume src: "source = me XOR 2 ^ k" and blk: "from div 2 ^ k = source div 2 ^ k"
    and g: "red_good elem vs nv k me x" "red_good elem vs nv k from y"
  show "red_good elem vs nv (Suc k) me (global_step elem (2 ^ k) me source from x y)"
    unfolding red_good_def
  proof (intro impI)
    assume comm: "\<forall>a b. elem a b = elem b a" and nv: "nv = length vs"
    let ?q = "me div 2 ^ k"
    have x: "tree (map2 elem) vs k ?q = Some x"
      using g(1) comm nv by (simp add: red_good_def)
    have y: "tree (map2 elem) vs k ((me XOR 2 ^ k) div 2 ^ k) = Some y"
      using g(2) comm nv unfolding blk src by (simp add: red_good_def blk [unfolded src])
    have "map2 elem y x = map2 elem x y" by (rule map2_commute) (simp add: comm)
    with x y show "tree (map2 elem) vs (Suc k) (me div 2 ^ Suc k)
        = Some (global_step elem (2 ^ k) me source from x y)"
      by (cases "even ?q") (auto simp: half xor_block merge_def global_step_def elim!: evenE oddE)
  qed
next
  fix me nv k and x :: "'a list"
  assume far: "nv \<le> (me XOR 2 ^ k) div 2 ^ k * 2 ^ k" and me: "me < nv" and g: "red_good elem vs nv k me x"
  show "red_good elem vs nv (Suc k) me x"
    unfolding red_good_def
  proof (intro impI)
    assume comm: "\<forall>a b. elem a b = elem b a" and nv: "nv = length vs"
    let ?q = "me div 2 ^ k"
    have x: "tree (map2 elem) vs k ?q = Some x"
      using g comm nv by (simp add: red_good_def)
    have none: "tree (map2 elem) vs k ((me XOR 2 ^ k) div 2 ^ k) = None"
      using far nv by (simp add: tree_None_iff)
    have "even ?q"
    proof (rule ccontr)
      assume "odd ?q"
      then have "(me XOR 2 ^ k) div 2 ^ k \<le> ?q" by (simp add: xor_block)
      then have "(me XOR 2 ^ k) div 2 ^ k * 2 ^ k \<le> ?q * 2 ^ k" by (rule mult_le_mono1)
      with far own_block [OF me, of k] show False by linarith
    qed
    with x none show "tree (map2 elem) vs (Suc k) (me div 2 ^ Suc k) = Some x"
      by (auto simp: half xor_block merge_def elim!: evenE)
  qed
qed

section \<open>What the processes end with\<close>

lemma global_tree:
  assumes comm: "\<forall>a b. elem a b = elem b a" and ne: "vs \<noteq> []"
  shows "\<exists>ys r K. all_turns (global_step elem) vs = Some ys \<and> length ys = length vs
     \<and> length vs \<le> 2 ^ K \<and> tree (map2 elem) vs K 0 = Some r \<and> (\<forall>p < length ys. ys ! p = r)"
proof -
  have "\<forall>p < length vs. red_good elem vs (length vs) 0 p (vs ! p)" by (simp add: red_good_def)
  from red.all_turns_good [OF this] obtain ys K where
    ys: "all_turns (global_step elem) vs = Some ys" "length ys = length vs" "length vs \<le> 2 ^ K"
      "\<And>p. p < length vs \<Longrightarrow> red_good elem vs (length vs) K p (ys ! p)" by blast
  have "tree (map2 elem) vs K 0 = Some (ys ! p)" if "p < length vs" for p
    using ys(4) [OF that] comm that ys(3) by (simp add: red_good_def)
  moreover have "0 < length vs" using ne by simp
  ultimately have "tree (map2 elem) vs K 0 = Some (ys ! 0) \<and> (\<forall>p < length ys. ys ! p = ys ! 0)"
    using ys(2) by (metis option.inject)
  with ys show ?thesis by blast
qed

text \<open>The reduction of a list, from left to right.\<close>

definition reduce :: "('a \<Rightarrow> 'a \<Rightarrow> 'a) \<Rightarrow> 'a list \<Rightarrow> 'a" where
  "reduce f xs = foldl f (hd xs) (tl xs)"

lemma reduce_single [simp]: "reduce f [x] = x"
  by (simp add: reduce_def)

lemma reduce_append:
  assumes assoc: "\<And>a b c. f (f a b) c = f a (f b c)" and "xs \<noteq> []" and "ys \<noteq> []"
  shows "reduce f (xs @ ys) = f (reduce f xs) (reduce f ys)"
proof -
  have "foldl f (f a b) zs = f a (foldl f b zs)" for a b zs
    by (induction zs arbitrary: b) (simp_all add: assoc)
  with assms(2,3) show ?thesis by (cases xs; cases ys) (simp_all add: reduce_def)
qed

lemma tree_reduce:
  assumes assoc: "\<And>a b c. g (g a b) c = g a (g b c)"
  shows "tree g vs k b = (let xs = take (2 ^ k) (drop (b * 2 ^ k) vs)
     in if xs = [] then None else Some (reduce g xs))"
proof (induction k arbitrary: b)
  case 0
  have "take (Suc 0) (drop b vs) = (if b < length vs then [vs ! b] else [])"
    by (simp add: take_Suc hd_drop_conv_nth)
  then show ?case by simp
next
  case (Suc k)
  let ?l = "take (2 ^ k) (drop (2 * b * 2 ^ k) vs)" and ?r = "take (2 ^ k) (drop ((2 * b + 1) * 2 ^ k) vs)"
  have split: "take (2 ^ Suc k) (drop (b * 2 ^ Suc k) vs) = ?l @ ?r"
    by (simp add: mult_2 take_add algebra_simps)
  have "?l \<noteq> []" if "?r \<noteq> []" using that by auto
  with Suc [of "2 * b"] Suc [of "2 * b + 1"] show ?case
    unfolding tree.simps Let_def split
    by (cases "?l = []"; cases "?r = []") (simp_all add: merge_def reduce_append [OF assoc])
qed

lemma map2_assoc:
  assumes "\<And>a b c. f (f a b) c = f a (f b c)"
  shows "map2 f (map2 f xs ys) zs = map2 f xs (map2 f ys zs)"
  by (rule nth_equalityI) (simp_all add: assms)

lemma reduce_column:
  assumes "vs \<noteq> []" and "\<forall>v \<in> set vs. length v = n"
  shows "length (reduce (map2 f) vs) = n \<and> (\<forall>j < n. reduce (map2 f) vs ! j = reduce f (map (\<lambda>v. v ! j) vs))"
proof -
  have "length (foldl (map2 f) v ws) = n \<and> (\<forall>j < n. foldl (map2 f) v ws ! j = foldl f (v ! j) (map (\<lambda>v. v ! j) ws))"
    if "length v = n" "\<forall>w \<in> set ws. length w = n" for v ws
    using that by (induction ws arbitrary: v) simp_all
  with assms show ?thesis by (cases vs) (simp_all add: reduce_def)
qed

definition vec_of :: "nat \<Rightarrow> nat \<Rightarrow> int list \<Rightarrow> 'a list list \<Rightarrow> ('a \<Rightarrow> 'a \<Rightarrow> 'a) \<Rightarrow> 'a list" where
  "vec_of n nprocs msk vecs f =
     map (\<lambda>j. reduce f (map (\<lambda>m. vecs ! m ! j) (members nprocs msk))) [0..<n]"

text \<open>
  C4.  All processes of the mask agree: for any elementwise operation that commutes, a floating
  point sum included although it is not associative, no receive of \<open>MP_Global\<close> waits for a
  message that is not sent, every process of the mask ends with the same vector, bit for bit,
  and the vectors of the others are not touched.
\<close>

theorem global_agrees:
  assumes comm: "\<forall>a b. global_elem add lt op_type a b = global_elem add lt op_type b a"
    and len: "length vecs = nprocs"
  shows "\<exists>res v. MP_Global add lt nprocs op_type msk vecs = Some res \<and> length res = nprocs
     \<and> (\<forall>i < nprocs. if msk ! i = 1 then res ! i = v else res ! i = vecs ! i)"
proof -
  let ?ms = "members nprocs msk" and ?f = "global_elem add lt op_type"
  obtain v where v: "\<And>m. ?ms = [m] \<Longrightarrow> v = vecs ! m"
    "2 \<le> length ?ms \<Longrightarrow> \<exists>ys. all_turns (global_step ?f) (map (\<lambda>i. vecs ! i) ?ms) = Some ys
       \<and> length ys = length ?ms \<and> (\<forall>p < length ys. ys ! p = v)"
  proof (cases "2 \<le> length ?ms")
    case True
    then have "map (\<lambda>i. vecs ! i) ?ms \<noteq> []" by auto
    from global_tree [OF comm this] obtain ys r K where
      "all_turns (global_step ?f) (map (\<lambda>i. vecs ! i) ?ms) = Some ys"
      "length ys = length (map (\<lambda>i. vecs ! i) ?ms)" "\<forall>p < length ys. ys ! p = r" by blast
    moreover have "r = vecs ! m" if "?ms = [m]" for m using True that by simp
    ultimately show thesis using that [of r] by simp
  next
    case False
    with that [of "vecs ! hd ?ms"] show thesis by fastforce
  qed
  have "\<exists>res. masked (all_turns (global_step ?f)) nprocs msk vecs = Some res \<and> length res = nprocs
     \<and> (\<forall>i < nprocs. if msk ! i = 1 then res ! i = v else res ! i = vecs ! i)"
    by (rule masked_cases [OF len, where P = "\<lambda>x. x = v"]) (use v in auto)
  then show ?thesis unfolding MP_Global_def by blast
qed

theorem global_agrees_witness:
  "\<exists>res. MP_Global (\<lambda>x y. x + y) (<) 3 0 [1, 1, 1] [[1 :: int], [2], [3]] = Some res \<and> res ! 0 = res ! 2"
proof -
  obtain res v where "MP_Global (\<lambda>x y. x + y) (<) 3 0 [1, 1, 1] [[1 :: int], [2], [3]] = Some res"
    and "\<forall>i < 3. if [1, 1, 1 :: int] ! i = 1 then res ! i = v else res ! i = [[1 :: int], [2], [3]] ! i"
    using global_agrees [of "\<lambda>x y. x + y" "(<)" 0 "[[1 :: int], [2], [3]]" 3 "[1, 1, 1]"]
    by (auto simp: global_elem_def add.commute)
  then show ?thesis by (auto dest: spec [of _ 0] spec [of _ 2])
qed

lemma global_columns:
  assumes comm: "\<forall>a b. global_elem add lt op_type a b = global_elem add lt op_type b a"
    and assoc: "\<forall>a b c. global_elem add lt op_type (global_elem add lt op_type a b) c
                   = global_elem add lt op_type a (global_elem add lt op_type b c)"
    and len: "length vecs = nprocs" and n: "\<forall>v \<in> set vecs. length v = n"
  shows "\<exists>res. MP_Global add lt nprocs op_type msk vecs = Some res
     \<and> (\<forall>i < nprocs. if msk ! i = 1 then res ! i = vec_of n nprocs msk vecs (global_elem add lt op_type)
                     else res ! i = vecs ! i)"
proof -
  let ?f = "global_elem add lt op_type" and ?ms = "members nprocs msk"
  let ?vs = "map (\<lambda>i. vecs ! i) ?ms"
  have as: "\<And>a b c. ?f (?f a b) c = ?f a (?f b c)" using assoc by blast
  have inv: "\<forall>v \<in> set ?vs. length v = n" using n len by auto
  have red: "reduce (map2 ?f) ?vs = vec_of n nprocs msk vecs ?f" if "?ms \<noteq> []"
    using reduce_column [of ?vs n ?f] inv that
    by (auto simp: vec_of_def comp_def intro!: nth_equalityI)
  have "\<exists>res. masked (all_turns (global_step ?f)) nprocs msk vecs = Some res \<and> length res = nprocs
     \<and> (\<forall>i < nprocs. if msk ! i = 1 then res ! i = vec_of n nprocs msk vecs ?f
         else res ! i = vecs ! i)"
  proof (rule masked_cases [OF len, where P = "\<lambda>x. x = vec_of n nprocs msk vecs ?f"])
    assume "2 \<le> length ?ms"
    then have ne: "?vs \<noteq> []" by auto
    from global_tree [OF comm ne] obtain ys r K where ys:
      "all_turns (global_step ?f) ?vs = Some ys" "length ys = length ?vs" "length ?vs \<le> 2 ^ K"
      "tree (map2 ?f) ?vs K 0 = Some r" "\<forall>p < length ys. ys ! p = r" by blast
    have "r = reduce (map2 ?f) ?vs"
      using tree_reduce [OF map2_assoc [OF as], of ?vs K 0] ys(3,4) ne by (simp add: Let_def split: if_splits)
    also have "\<dots> = vec_of n nprocs msk vecs ?f" using red ne by simp
    finally show "\<exists>ys. all_turns (global_step ?f) ?vs = Some ys \<and> length ys = length ?ms
        \<and> (\<forall>p < length ys. ys ! p = vec_of n nprocs msk vecs ?f)"
      using ys(1,2,5) by simp
  next
    fix m assume "?ms = [m]"
    with red show "vecs ! m = vec_of n nprocs msk vecs ?f" by simp
  qed
  then show ?thesis unfolding MP_Global_def by blast
qed

text \<open>
  C3.  \<open>MP_Global\<close> reduces: for an operation that is also associative, element \<open>j\<close> of the vector
  that every process of the mask ends with is the reduction of element \<open>j\<close> over all processes of
  the mask in their order, for any number of processes, a power of two or not.
\<close>

theorem global_reduces:
  assumes comm: "\<forall>a b. global_elem add lt op_type a b = global_elem add lt op_type b a"
    and assoc: "\<forall>a b c. global_elem add lt op_type (global_elem add lt op_type a b) c
                   = global_elem add lt op_type a (global_elem add lt op_type b c)"
    and len: "length vecs = nprocs" and n: "\<forall>v \<in> set vecs. length v = n"
  shows "\<exists>res. MP_Global add lt nprocs op_type msk vecs = Some res
     \<and> (\<forall>i < nprocs. if msk ! i = 1 then res ! i = vec_of n nprocs msk vecs (global_elem add lt op_type)
                     else res ! i = vecs ! i)"
  by (rule global_columns [OF assms])

theorem global_reduces_witness:
  "\<exists>res. MP_Global (\<lambda>x y. x + y) (<) 3 0 [1, 0, 1] [[1 :: int, 10], [2, 20], [3, 30]] = Some res
     \<and> res ! 0 = [4, 40]"
proof -
  let ?data = "[[1 :: int, 10], [2, 20], [3, 30]]"
  obtain res where "MP_Global (\<lambda>x y. x + y) (<) 3 0 [1, 0, 1] ?data = Some res"
    and "\<forall>i < 3. if [1, 0, 1 :: int] ! i = 1
           then res ! i = vec_of 2 3 [1, 0, 1] ?data (global_elem (\<lambda>x y. x + y) (<) 0)
           else res ! i = ?data ! i"
    using global_reduces [of "\<lambda>x y. x + y" "(<)" 0 ?data 3 2 "[1, 0, 1]"]
    by (auto simp: global_elem_def)
  then show ?thesis
    by (auto simp: vec_of_def members_def reduce_def upt_rec global_elem_def dest: spec [of _ 0])
qed

section \<open>Integer reductions\<close>

lemma word_sum_elem: "global_elem (+) lt 1 = ((+) :: 32 word \<Rightarrow> 32 word \<Rightarrow> 32 word)"
  by (intro ext) (simp add: global_elem_def)

lemma reduce_plus: "xs \<noteq> [] \<Longrightarrow> reduce (+) xs = sum_list (xs :: 'a :: comm_monoid_add list)"
proof (cases xs)
  case (Cons x ys)
  have "foldl (+) a zs = a + sum_list zs" for a :: 'a and zs
    by (induction zs arbitrary: a) (simp_all add: add.assoc)
  with Cons show ?thesis by (simp add: reduce_def)
qed simp

lemma word_max_elem: "global_elem add (<s) 4 a b = (if sint (a :: 32 word) < sint b then b else a)"
  by (simp add: global_elem_def word_sless_alt)

text \<open>
  \<open>MP_iSum_masked\<close> adds: every process of the mask ends with the sums, modulo \<open>2 ^ 32\<close>, over
  the processes of the mask, and \<open>MP_iMax_masked\<close> with the largest element, as signed numbers.
\<close>

theorem int_reductions:
  assumes len: "length vecs = nprocs" and n: "\<forall>v \<in> set vecs. length v = n"
    and i: "i < nprocs" "msk ! i = 1" and j: "j < n"
  shows "(\<exists>res. MP_iSum_masked nprocs msk vecs = Some res
             \<and> res ! i ! j = (\<Sum>m \<leftarrow> members nprocs msk. vecs ! m ! j))
       \<and> (\<exists>res. MP_iMax_masked nprocs msk vecs = Some res
             \<and> sint (res ! i ! j) = Max ((\<lambda>m. sint (vecs ! m ! j)) ` set (members nprocs msk)))"
proof
  have ne: "members nprocs msk \<noteq> []" using i by (metis members_set list.set(1) empty_iff)
  have "\<forall>a b :: 32 word. global_elem (+) (<s) 1 a b = global_elem (+) (<s) 1 b a"
    "\<forall>a b c :: 32 word. global_elem (+) (<s) 1 (global_elem (+) (<s) 1 a b) c
       = global_elem (+) (<s) 1 a (global_elem (+) (<s) 1 b c)"
    by (simp_all add: word_sum_elem add.commute add.assoc)
  from global_columns [OF this len n, of msk] i j ne
  show "\<exists>res. MP_iSum_masked nprocs msk vecs = Some res
      \<and> res ! i ! j = (\<Sum>m \<leftarrow> members nprocs msk. vecs ! m ! j)"
    by (auto simp: MP_iSum_masked_def vec_of_def word_sum_elem reduce_plus)
next
  let ?f = "global_elem (+) (<s) 4 :: 32 word \<Rightarrow> 32 word \<Rightarrow> 32 word"
  have ne: "members nprocs msk \<noteq> []" using i by (metis members_set list.set(1) empty_iff)
  have mx: "sint (?f a b) = max (sint a) (sint b)" for a b
    by (simp add: word_max_elem)
  have eq: "?f a b = c \<longleftrightarrow> sint (?f a b) = sint c" for a b c by (rule word_eq_iff_signed)
  have "\<forall>a b. ?f a b = ?f b a" "\<forall>a b c. ?f (?f a b) c = ?f a (?f b c)"
    unfolding eq mx by (simp_all add: ac_simps)
  note r = global_columns [OF this len n, of msk]
  have "sint (foldl ?f x xs) = fold max (map sint xs) (sint x)" for x xs
    by (induction xs arbitrary: x) (simp_all add: mx max.commute)
  then have "sint (foldl ?f x xs) = Max (set (map sint (x # xs)))" for x xs
    by (simp only: Max.set_eq_fold list.map)
  then have "sint (reduce ?f xs) = Max (sint ` set xs)" if "xs \<noteq> []" for xs
    using that by (cases xs) (simp_all add: reduce_def)
  with r i j ne show "\<exists>res. MP_iMax_masked nprocs msk vecs = Some res
      \<and> sint (res ! i ! j) = Max ((\<lambda>m. sint (vecs ! m ! j)) ` set (members nprocs msk))"
    by (auto simp: MP_iMax_masked_def vec_of_def image_image)
qed

theorem int_reductions_witness:
  "\<exists>res. MP_iSum_masked 3 [1, 0, 1] [[4294967295], [2], [3]] = Some res \<and> res ! 2 ! 0 = 2"
proof -
  have "(\<exists>res. MP_iSum_masked 3 [1, 0, 1] [[4294967295], [2], [3]] = Some res
      \<and> res ! 2 ! 0 = (\<Sum>m \<leftarrow> members 3 [1, 0, 1]. [[4294967295], [2], [3]] ! m ! 0))"
    using int_reductions [of "[[4294967295], [2], [3]]" 3 1 2 "[1, 0, 1]" 0] by simp
  then show ?thesis by (auto simp: members_def upt_rec)
qed

end
