(* ===== verification/Gather.thy ===== *)
theory Gather
  imports Doubling
begin

text \<open>
  \<open>MP_Global_gather\<close> of \<open>MP_Lite/mpcore.c\<close> and its wrappers: every process of a mask ends with
  the contributions of all of them, in order.  The memory from \<open>vec\<close> on is a list of bytes;
  the process numbered \<open>p\<close> contributes the \<open>p\<close>-th block of \<open>n * bytes_per\<close> of them.
\<close>

section \<open>MP_Global_gather\<close>

definition gather_bytes_per :: "int \<Rightarrow> nat" where
  "gather_bytes_per op_type = (if op_type = 0 then 8 else if op_type = 1 then 4 else if op_type = 2 then 4 else 1)"

text \<open>
  \<open>snd_fct\<close> and \<open>rcv_fct\<close>: the number of contributions that the group of \<open>np\<close> processes around
  \<open>p\<close> has, fewer for the group that the last process is in.
\<close>

definition gather_fct :: "nat \<Rightarrow> nat \<Rightarrow> nat \<Rightarrow> nat" where
  "gather_fct nvprocs np p = (if p + (np - p mod np) > nvprocs then nvprocs mod np else np)"

definition gather_offset :: "nat \<Rightarrow> nat \<Rightarrow> nat \<Rightarrow> nat" where
  "gather_offset np p sz = (p - p mod np) * sz"

text \<open>
  The receive is posted for \<open>rcv_fct\<close> contributions, with the factor of the partner
  \<open>source\<close> and the offset of the process \<open>from\<close> that really sends.
\<close>

definition gather_step :: "nat \<Rightarrow> nat \<Rightarrow> nat \<Rightarrow> nat \<Rightarrow> nat \<Rightarrow> nat \<Rightarrow> 'a list \<Rightarrow> 'a list \<Rightarrow> 'a list" where
  "gather_step nvprocs sz np myvproc source from vec other =
     (let msg = take (gather_fct nvprocs np from * sz) (drop (gather_offset np from sz) other)
      in store vec (gather_offset np from sz) (take (gather_fct nvprocs np source * sz) msg))"

definition MP_Global_gather :: "nat \<Rightarrow> nat \<Rightarrow> int \<Rightarrow> int list \<Rightarrow> 'a list list \<Rightarrow> 'a list list option" where
  "MP_Global_gather nprocs n op_type msk vecs =
     masked (\<lambda>xs. all_turns (gather_step (length xs) (n * gather_bytes_per op_type)) xs) nprocs msk vecs"

definition MP_dGather :: "nat \<Rightarrow> nat \<Rightarrow> 'a list list \<Rightarrow> 'a list list option" where
  "MP_dGather nprocs n = MP_Global_gather nprocs n 0 (MP_all_mask nprocs)"

definition MP_iGather :: "nat \<Rightarrow> nat \<Rightarrow> 'a list list \<Rightarrow> 'a list list option" where
  "MP_iGather nprocs n = MP_Global_gather nprocs n 1 (MP_all_mask nprocs)"

definition MP_fGather :: "nat \<Rightarrow> nat \<Rightarrow> 'a list list \<Rightarrow> 'a list list option" where
  "MP_fGather nprocs n = MP_Global_gather nprocs n 2 (MP_all_mask nprocs)"

definition MP_Gather :: "nat \<Rightarrow> nat \<Rightarrow> 'a list list \<Rightarrow> 'a list list option" where
  "MP_Gather nprocs n = MP_Global_gather nprocs n 3 (MP_all_mask nprocs)"

definition MP_dGather_masked :: "nat \<Rightarrow> nat \<Rightarrow> int list \<Rightarrow> 'a list list \<Rightarrow> 'a list list option" where
  "MP_dGather_masked nprocs n msk = MP_Global_gather nprocs n 0 msk"

definition MP_iGather_masked :: "nat \<Rightarrow> nat \<Rightarrow> int list \<Rightarrow> 'a list list \<Rightarrow> 'a list list option" where
  "MP_iGather_masked nprocs n msk = MP_Global_gather nprocs n 1 msk"

definition MP_fGather_masked :: "nat \<Rightarrow> nat \<Rightarrow> int list \<Rightarrow> 'a list list \<Rightarrow> 'a list list option" where
  "MP_fGather_masked nprocs n msk = MP_Global_gather nprocs n 2 msk"

definition MP_Gather_masked :: "nat \<Rightarrow> nat \<Rightarrow> int list \<Rightarrow> 'a list list \<Rightarrow> 'a list list option" where
  "MP_Gather_masked nprocs n msk = MP_Global_gather nprocs n 3 msk"

section \<open>Blocks of contributions\<close>

lemma gather_offset_block: "gather_offset (2 ^ k) p sz = p div 2 ^ k * 2 ^ k * sz"
  by (simp add: gather_offset_def minus_mod_eq_div_mult)

lemma gather_fct_block:
  assumes "p div 2 ^ k * 2 ^ k < nv"
  shows "gather_fct nv (2 ^ k) p = min (2 ^ k) (nv - p div 2 ^ k * 2 ^ k)"
proof -
  let ?b = "p div 2 ^ k * 2 ^ k"
  have r: "p mod 2 ^ k < 2 ^ k" by simp
  have p: "p = ?b + p mod 2 ^ k" by (rule div_mult_mod_eq [symmetric])
  then have e: "p + (2 ^ k - p mod 2 ^ k) = ?b + 2 ^ k" using r by linarith
  have "nv mod 2 ^ k = nv - ?b" if "nv < ?b + 2 ^ k"
  proof -
    have "nv = (nv - ?b) + ?b" using assms by simp
    moreover have "nv - ?b < 2 ^ k" using that assms by (simp add: less_diff_conv2 less_imp_le add.commute)
    ultimately show ?thesis by (metis mod_less mod_mult_self1)
  qed
  then show ?thesis unfolding gather_fct_def e by auto
qed

lemma block_index:
  fixes r :: nat
  assumes "i < sz"
  shows "a * sz \<le> r * sz + i \<longleftrightarrow> a \<le> r" and "r * sz + i < b * sz \<longleftrightarrow> r < b"
proof -
  have "(r * sz + i) div sz = r" using assms by simp
  with assms show "a * sz \<le> r * sz + i \<longleftrightarrow> a \<le> r" and "r * sz + i < b * sz \<longleftrightarrow> r < b"
    by (metis less_eq_div_iff_mult_less_eq gr_implies_not0 neq0_conv,
        metis div_less_iff_less_mult gr_implies_not0 neq0_conv)
qed

lemma block_iff: "a * 2 ^ k \<le> q \<and> q < a * 2 ^ k + 2 ^ k \<longleftrightarrow> q div 2 ^ k = a" for q :: nat
proof -
  have "a * 2 ^ k \<le> q \<longleftrightarrow> a \<le> q div 2 ^ k" by (simp add: less_eq_div_iff_mult_less_eq)
  moreover have "q < Suc a * 2 ^ k \<longleftrightarrow> q div 2 ^ k < Suc a" by (simp add: div_less_iff_less_mult)
  ultimately show ?thesis by (auto simp: add.commute)
qed

lemma half_block:
  fixes q p :: nat
  assumes "q div 2 ^ Suc k = p div 2 ^ Suc k"
  shows "q div 2 ^ k = p div 2 ^ k \<or> q div 2 ^ k = (p XOR 2 ^ k) div 2 ^ k"
proof -
  have "q div 2 ^ k div 2 = p div 2 ^ k div 2"
    using assms by (simp add: div_mult2_eq [symmetric] mult.commute)
  then show ?thesis unfolding xor_block by (auto elim!: evenE oddE)
qed

definition gather_good :: "nat \<Rightarrow> nat \<Rightarrow> 'a list list \<Rightarrow> nat \<Rightarrow> nat \<Rightarrow> nat \<Rightarrow> 'a list \<Rightarrow> bool" where
  "gather_good nv0 sz parts nv k p mem \<longleftrightarrow> (nv = nv0 \<longrightarrow>
     nv * sz \<le> length mem
     \<and> (\<forall>q < nv. q div 2 ^ k = p div 2 ^ k \<longrightarrow> (\<forall>i < sz. mem ! (q * sz + i) = parts ! q ! i)))"

interpretation gat: doubling "gather_step nv0 sz" "gather_good nv0 sz parts" for nv0 sz parts
proof
  fix me nv "from" source k and x y :: "'a list"
  assume "from": "from < nv" and src: "source = me XOR 2 ^ k" and blk: "from div 2 ^ k = source div 2 ^ k"
    and g: "gather_good nv0 sz parts nv k me x" "gather_good nv0 sz parts nv k from y"
  show "gather_good nv0 sz parts nv (Suc k) me (gather_step nv0 sz (2 ^ k) me source from x y)"
    unfolding gather_good_def
  proof (intro impI)
    assume nv: "nv = nv0"
    let ?b = "from div 2 ^ k * 2 ^ k" and ?c = "min (2 ^ k) (nv - from div 2 ^ k * 2 ^ k)"
    let ?msg = "take (?c * sz) (drop (?b * sz) y)"
    have b: "?b < nv" using "from" own_block by blast
    have len: "nv * sz \<le> length x" "nv * sz \<le> length y" using g nv by (simp_all add: gather_good_def)
    have bc: "?b + ?c \<le> nv" using b by linarith
    then have bcs: "?b * sz + ?c * sz \<le> nv * sz"
      by (metis add_mult_distrib mult_le_mono1)
    then have lmsg: "length ?msg = ?c * sz" using len(2) by simp
    have step: "gather_step nv0 sz (2 ^ k) me source from x y = store x (?b * sz) ?msg"
      using b blk nv by (simp add: gather_step_def gather_offset_block gather_fct_block)
    have fits: "?b * sz + length ?msg \<le> length x" using bcs len lmsg by linarith
    have "store x (?b * sz) ?msg ! (q * sz + i) = parts ! q ! i"
      if q: "q < nv" and same: "q div 2 ^ Suc k = me div 2 ^ Suc k" and i: "i < sz" for q i
    proof -
      have idx: "q * sz + i < nv * sz" using block_index(2) [OF i] q by blast
      have inr: "?b * sz \<le> q * sz + i \<and> q * sz + i < ?b * sz + length ?msg \<longleftrightarrow> q div 2 ^ k = from div 2 ^ k"
      proof -
        have "?b * sz \<le> q * sz + i \<and> q * sz + i < ?b * sz + length ?msg \<longleftrightarrow> ?b \<le> q \<and> q < ?b + ?c"
          using block_index [OF i] lmsg by (metis add_mult_distrib)
        also have "\<dots> \<longleftrightarrow> ?b \<le> q \<and> q < ?b + 2 ^ k" using q by auto
        also have "\<dots> \<longleftrightarrow> q div 2 ^ k = from div 2 ^ k"
          by (rule block_iff)
        finally show ?thesis .
      qed
      have "q * sz + i < length x" using idx len(1) by linarith
      from nth_store [OF fits this]
      have st: "store x (?b * sz) ?msg ! (q * sz + i) = (if q div 2 ^ k = from div 2 ^ k
           then ?msg ! (q * sz + i - ?b * sz) else x ! (q * sz + i))"
        unfolding inr .
      show ?thesis
      proof (cases "q div 2 ^ k = from div 2 ^ k")
        case True
        then have "store x (?b * sz) ?msg ! (q * sz + i) = ?msg ! (q * sz + i - ?b * sz)"
          using st by simp
        also have "\<dots> = y ! (q * sz + i)"
        proof -
          have "?b * sz \<le> q * sz + i" "q * sz + i - ?b * sz < ?c * sz"
            using True inr lmsg by linarith+
          moreover from this have "?b * sz \<le> length y" using idx len(2) by linarith
          ultimately show ?thesis by (simp only: nth_take nth_drop le_add_diff_inverse)
        qed
        also have "\<dots> = parts ! q ! i" using g(2) True q i nv by (simp add: gather_good_def)
        finally show ?thesis .
      next
        case False
        then have "store x (?b * sz) ?msg ! (q * sz + i) = x ! (q * sz + i)"
          using st by simp
        moreover have "q div 2 ^ k = me div 2 ^ k" using half_block [OF same] False blk src by simp
        ultimately show ?thesis using g(1) q i nv by (simp add: gather_good_def)
      qed
    qed
    then show "nv * sz \<le> length (gather_step nv0 sz (2 ^ k) me source from x y) \<and>
       (\<forall>q < nv. q div 2 ^ Suc k = me div 2 ^ Suc k \<longrightarrow> (\<forall>i < sz.
          gather_step nv0 sz (2 ^ k) me source from x y ! (q * sz + i) = parts ! q ! i))"
      unfolding step using fits len by (simp add: length_store)
  qed
next
  fix me nv k and x :: "'a list"
  assume far: "nv \<le> (me XOR 2 ^ k) div 2 ^ k * 2 ^ k" and g: "gather_good nv0 sz parts nv k me x"
  have "q div 2 ^ k = me div 2 ^ k" if "q < nv" "q div 2 ^ Suc k = me div 2 ^ Suc k" for q
  proof (rule ccontr)
    assume "q div 2 ^ k \<noteq> me div 2 ^ k"
    then have "q div 2 ^ k = (me XOR 2 ^ k) div 2 ^ k" using half_block [OF that(2)] by simp
    then show False using far that(1) div_times_less_eq_dividend [of q "2 ^ k"] by simp
  qed
  with g show "gather_good nv0 sz parts nv (Suc k) me x" by (auto simp: gather_good_def)
qed

section \<open>What the processes end with\<close>

lemma concat_nth:
  "\<forall>c \<in> set cs. length c = sz \<Longrightarrow> q < length cs \<Longrightarrow> i < sz \<Longrightarrow> concat cs ! (q * sz + i) = cs ! q ! i"
proof (induction cs arbitrary: q)
  case (Cons c cs)
  then show ?case by (cases q) (simp_all add: nth_append)
qed simp

lemma concat_blocks:
  assumes parts: "\<forall>c \<in> set cs. length c = sz" and len: "length cs * sz \<le> length mem"
    and at: "\<And>q i. q < length cs \<Longrightarrow> i < sz \<Longrightarrow> mem ! (q * sz + i) = cs ! q ! i"
  shows "take (length cs * sz) mem = concat cs"
proof (rule nth_equalityI)
  have lc: "length (concat cs) = length cs * sz" using parts by (induction cs) simp_all
  with len show "length (take (length cs * sz) mem) = length (concat cs)" by simp
  fix j assume "j < length (take (length cs * sz) mem)"
  then have j: "j < length cs * sz" by simp
  then have i: "j mod sz < sz" by (cases "sz = 0") simp_all
  have q: "j div sz < length cs" using j by (simp add: less_mult_imp_div_less)
  have "j = j div sz * sz + j mod sz" by simp
  with at [OF q i] concat_nth [OF parts q i] j show "take (length cs * sz) mem ! j = concat cs ! j"
    by simp
qed

text \<open>The contribution of the process \<open>m\<close>, the \<open>p\<close>-th of the mask.\<close>

definition contribution :: "nat \<Rightarrow> 'a list list \<Rightarrow> nat list \<Rightarrow> nat \<Rightarrow> 'a list" where
  "contribution sz vecs ms p = take sz (drop (p * sz) (vecs ! (ms ! p)))"

definition gathered_all :: "nat \<Rightarrow> 'a list list \<Rightarrow> nat list \<Rightarrow> 'a list" where
  "gathered_all sz vecs ms = concat (map (contribution sz vecs ms) [0..<length ms])"

lemma gather_columns:
  fixes vecs :: "'a list list"
  assumes ms_def: "ms = members nprocs msk" and sz_def: "sz = n * gather_bytes_per op_type"
    and len: "length vecs = nprocs" and room: "\<forall>m \<in> set ms. length ms * sz \<le> length (vecs ! m)"
  shows "\<exists>res. MP_Global_gather nprocs n op_type msk vecs = Some res
     \<and> (\<forall>i < nprocs. if msk ! i = 1
          then take (length ms * sz) (res ! i) = gathered_all sz vecs ms
          else res ! i = vecs ! i)"
proof -
  let ?parts = "map (contribution sz vecs ms) [0..<length ms]"
  let ?run = "\<lambda>xs. all_turns (gather_step (length xs) sz) xs"
  have parts: "\<forall>c \<in> set ?parts. length c = sz"
  proof
    fix c assume "c \<in> set ?parts"
    then obtain p where p: "p < length ms" "c = contribution sz vecs ms p" by auto
    have "(p + 1) * sz \<le> length ms * sz" using p by (intro mult_le_mono1) simp
    also have "\<dots> \<le> length (vecs ! (ms ! p))" using room p by simp
    finally show "length c = sz" by (simp add: p contribution_def)
  qed
  have "\<exists>res. masked ?run nprocs msk vecs = Some res \<and> length res = nprocs
     \<and> (\<forall>i < nprocs. if msk ! i = 1 then take (length ms * sz) (res ! i) = gathered_all sz vecs ms
         else res ! i = vecs ! i)"
  proof (rule masked_cases [OF len])
    let ?xs = "map (\<lambda>i. vecs ! i) (members nprocs msk)"
    have nv: "length ?xs = length ms" by (simp add: ms_def)
    have "\<forall>p < length ?xs. gather_good (length ?xs) sz ?parts (length ?xs) 0 p (?xs ! p)"
    proof (intro allI impI)
      fix p assume "p < length ?xs"
      then have p: "p < length ms" by (simp add: ms_def)
      then have r: "length ms * sz \<le> length (vecs ! (ms ! p))" using room nth_mem by blast
      have "(p + 1) * sz \<le> length ms * sz" using p by (intro mult_le_mono1) simp
      with r p show "gather_good (length ?xs) sz ?parts (length ?xs) 0 p (?xs ! p)"
        by (auto simp: gather_good_def contribution_def ms_def)
    qed
    from gat.all_turns_good [OF this] obtain ys K where
      ys: "?run ?xs = Some ys" "length ys = length ?xs" "length ?xs \<le> 2 ^ K"
        "\<And>p. p < length ?xs \<Longrightarrow> gather_good (length ?xs) sz ?parts (length ?xs) K p (ys ! p)" by blast
    have "take (length ms * sz) (ys ! p) = gathered_all sz vecs ms" if "p < length ys" for p
    proof -
      have "gather_good (length ms) sz ?parts (length ms) K p (ys ! p)"
        using ys(4) [of p] ys(2) nv that by simp
      then have "length ms * sz \<le> length (ys ! p)"
        "\<And>q i. q < length ms \<Longrightarrow> i < sz \<Longrightarrow> ys ! p ! (q * sz + i) = ?parts ! q ! i"
        using that ys(2,3) nv by (auto simp: gather_good_def)
      with concat_blocks [OF parts, of "ys ! p"] show ?thesis by (simp add: gathered_all_def)
    qed
    with ys(1,2) nv show "\<exists>ys. ?run ?xs = Some ys \<and> length ys = length (members nprocs msk)
        \<and> (\<forall>p < length ys. take (length ms * sz) (ys ! p) = gathered_all sz vecs ms)"
      by (auto simp: ms_def)
  next
    fix m assume "members nprocs msk = [m]"
    then have "ms = [m]" by (simp add: ms_def)
    then show "take (length ms * sz) (vecs ! m) = gathered_all sz vecs ms"
      by (simp add: gathered_all_def contribution_def)
  qed
  then show ?thesis unfolding MP_Global_gather_def sz_def by blast
qed

text \<open>
  C6.  \<open>MP_Global_gather\<close> gathers: if the memory of every process of the mask has room for the
  contributions of all, no receive waits for a message that is not sent, and afterwards the
  memory of each of them starts with all contributions in order, while the memory of the other
  processes is not touched.
\<close>

theorem gather_collects:
  assumes "length vecs = nprocs"
    and "\<forall>m < nprocs. msk ! m = 1 \<longrightarrow>
           length (members nprocs msk) * (n * gather_bytes_per op_type) \<le> length (vecs ! m)"
  shows "\<exists>res. MP_Global_gather nprocs n op_type msk vecs = Some res
     \<and> (\<forall>i < nprocs. if msk ! i = 1
          then take (length (members nprocs msk) * (n * gather_bytes_per op_type)) (res ! i)
             = gathered_all (n * gather_bytes_per op_type) vecs (members nprocs msk)
          else res ! i = vecs ! i)"
  by (rule gather_columns [OF refl refl assms(1)]) (use assms(2) in simp)

theorem gather_collects_witness:
  "\<exists>res. MP_Global_gather 3 2 3 [1, 1, 1] [[1, 2, 0, 0, 0, 0 :: int], [0, 0, 3, 4, 0, 0], [0, 0, 0, 0, 5, 6]]
        = Some res \<and> take 6 (res ! 1) = [1, 2, 3, 4, 5, 6]"
proof -
  let ?data = "[[1, 2, 0, 0, 0, 0 :: int], [0, 0, 3, 4, 0, 0], [0, 0, 0, 0, 5, 6]]"
  have ms: "members 3 [1, 1, 1] = [0, 1, 2]" by (simp add: members_def upt_rec)
  have room: "\<forall>m < 3. [1, 1, 1 :: int] ! m = 1 \<longrightarrow> length (members 3 [1, 1, 1]) * (2 * gather_bytes_per 3)
      \<le> length (?data ! m)"
    unfolding ms by (auto simp: gather_bytes_per_def less_Suc_eq numeral_3_eq_3)
  obtain res where run: "MP_Global_gather 3 2 3 [1, 1, 1] ?data = Some res"
    and "\<forall>i < 3. if [1, 1, 1 :: int] ! i = 1
          then take (length (members 3 [1, 1, 1]) * (2 * gather_bytes_per 3)) (res ! i)
             = gathered_all (2 * gather_bytes_per 3) ?data (members 3 [1, 1, 1])
          else res ! i = ?data ! i"
    using gather_collects [OF _ room] by auto
  then have "take 6 (res ! 1) = gathered_all 2 ?data [0, 1, 2]"
    by (auto simp: ms gather_bytes_per_def dest: spec [of _ 1])
  with run show ?thesis by (simp add: gathered_all_def contribution_def upt_rec)
qed

end
