(* ===== verification/Broadcast.thy ===== *)
theory Broadcast
  imports Prelude "HOL-Library.Sublist"
begin

text \<open>
  The broadcast of \<open>MP_Lite/mpcore.c\<close>, \<open>MP_Bcast_masked\<close>: a binary tree over the processes of
  a mask, renumbered so that the root is 0.  What one process does is a list of actions; the
  processes of a mask run theirs together as a step relation.  The interface \<open>bcast_tree\<close> says
  what is needed of the tree.
\<close>

section \<open>Numbering\<close>

fun bcast_number :: "int list \<Rightarrow> nat \<Rightarrow> nat \<Rightarrow> nat \<Rightarrow> nat list \<times> nat option \<Rightarrow> nat list \<times> nat option" where
  "bcast_number msk root myproc n (vproc, myvproc) =
     (if n \<noteq> root
      then (if msk ! n = 1 then vproc @ [n] else vproc,
            if n = myproc then Some (length vproc) else myvproc)
      else (vproc, myvproc))"

definition bcast_setup :: "nat \<Rightarrow> int list \<Rightarrow> nat \<Rightarrow> nat \<Rightarrow> nat list \<times> nat option" where
  "bcast_setup nprocs msk root myproc =
     fold (bcast_number msk root myproc) [0..<nprocs]
       ([root], if myproc = root then Some 0 else None)"

section \<open>The actions of one process\<close>

datatype bcast_act =
    Post nat      \<comment> \<open>\<open>MP_ARecv\<close> from the process\<close>
  | Send_to nat   \<comment> \<open>\<open>MP_Send\<close> to the process\<close>
  | Await         \<comment> \<open>\<open>MP_Wait\<close> for the receive\<close>

text \<open>The two loops; \<open>b\<close> is the value before it is halved, a power of two and at least 2.\<close>

function bcast_prepost :: "nat \<Rightarrow> nat \<Rightarrow> bool \<Rightarrow> bcast_act list" where
  "bcast_prepost v b0 igot =
     (let b = b0 div 2;
          now = \<not> igot \<and> v mod b = 0
      in (if now then [Post (v - b)] else [])
         @ (if b > 1 then bcast_prepost v b (igot \<or> now) else []))"
  by pat_completeness auto
termination by (relation "measure (\<lambda>(v, b, igot). b)") auto

function bcast_sends :: "nat \<Rightarrow> nat \<Rightarrow> nat \<Rightarrow> bool \<Rightarrow> bcast_act list" where
  "bcast_sends nv v b0 igot =
     (let b = b0 div 2;
          now = \<not> igot \<and> v mod b = 0
      in (if igot then (if v + b < nv then [Send_to (v + b)] else [])
          else if now then [Await] else [])
         @ (if b > 1 then bcast_sends nv v b (igot \<or> now) else []))"
  by pat_completeness auto
termination by (relation "measure (\<lambda>(nv, v, b, igot). b)") auto

declare bcast_prepost.simps [simp del] bcast_sends.simps [simp del]

definition bcast_script :: "nat \<Rightarrow> nat \<Rightarrow> bcast_act list" where
  "bcast_script nv v =
     bcast_prepost v (pow2_above nv) (v = 0) @ bcast_sends nv v (pow2_above nv) (v = 0)"

fun real_act :: "nat list \<Rightarrow> bcast_act \<Rightarrow> bcast_act" where
  "real_act vproc (Post v) = Post (vproc ! v)"
| "real_act vproc (Send_to v) = Send_to (vproc ! v)"
| "real_act vproc Await = Await"

definition MP_Bcast_masked :: "nat \<Rightarrow> nat \<Rightarrow> int list \<Rightarrow> nat \<Rightarrow> bcast_act list outcome" where
  "MP_Bcast_masked nprocs root msk myproc =
     (if msk ! myproc \<noteq> 1 then Inr []
      else if msk ! root = 0
      then Inl (ErrorX ''MP_Bcast_masked() - root node must be in the mask'')
      else if nprocs = 1 then Inr []
      else case bcast_setup nprocs msk root myproc of
        (vproc, None) \<Rightarrow> Inl UninitRead
      | (vproc, Some v) \<Rightarrow>
          if length vproc \<le> 1 then Inr []
          else Inr (map (real_act vproc) (bcast_script (length vproc) v)))"

section \<open>All processes together\<close>

text \<open>
  \<open>posted p\<close> is the source of the receive that \<open>p\<close> has posted, \<open>arrived p\<close> says that it is
  complete, \<open>chan s d\<close> holds the messages that the library keeps for a receive that is not
  posted yet.  Whether it does so (\<open>eager\<close>) or lets the sender wait is left open.
\<close>

record 'a bnet =
  todo :: "nat \<Rightarrow> bcast_act list"
  vec :: "nat \<Rightarrow> 'a"
  posted :: "nat \<Rightarrow> nat option"
  arrived :: "nat \<Rightarrow> bool"
  chan :: "nat \<Rightarrow> nat \<Rightarrow> 'a list"

inductive bcast_step :: "bool \<Rightarrow> 'a bnet \<Rightarrow> 'a bnet \<Rightarrow> bool" for eager where
  post: "todo y p = Post s # r \<Longrightarrow> chan y s p = [] \<Longrightarrow>
     bcast_step eager y (y\<lparr>todo := (todo y)(p := r), posted := (posted y)(p := Some s)\<rparr>)"
| post_early: "todo y p = Post s # r \<Longrightarrow> chan y s p = m # ms \<Longrightarrow>
     bcast_step eager y (y\<lparr>todo := (todo y)(p := r), posted := (posted y)(p := Some s),
       arrived := (arrived y)(p := True), vec := (vec y)(p := m),
       chan := (chan y)(s := (chan y s)(p := ms))\<rparr>)"
| send_direct: "todo y p = Send_to d # r \<Longrightarrow> posted y d = Some p \<Longrightarrow> \<not> arrived y d \<Longrightarrow>
     bcast_step eager y (y\<lparr>todo := (todo y)(p := r), arrived := (arrived y)(d := True),
       vec := (vec y)(d := vec y p)\<rparr>)"
| send_early: "todo y p = Send_to d # r \<Longrightarrow> posted y d = None \<Longrightarrow> eager \<Longrightarrow>
     bcast_step eager y (y\<lparr>todo := (todo y)(p := r),
       chan := (chan y)(p := (chan y p)(d := chan y p d @ [vec y p]))\<rparr>)"
| await: "todo y p = Await # r \<Longrightarrow> arrived y p \<Longrightarrow>
     bcast_step eager y (y\<lparr>todo := (todo y)(p := r)\<rparr>)"

definition bcast_start :: "nat \<Rightarrow> (nat \<Rightarrow> 'a) \<Rightarrow> 'a bnet" where
  "bcast_start nv vec0 =
     \<lparr>todo = (\<lambda>v. if v < nv then bcast_script nv v else []), vec = vec0,
      posted = (\<lambda>_. None), arrived = (\<lambda>_. False), chan = (\<lambda>_ _. [])\<rparr>"

inductive bcast_run :: "bool \<Rightarrow> 'a bnet \<Rightarrow> nat \<Rightarrow> 'a bnet \<Rightarrow> bool" for eager y0 where
  run_start: "bcast_run eager y0 0 y0"
| run_step: "bcast_run eager y0 n y \<Longrightarrow> bcast_step eager y z \<Longrightarrow> bcast_run eager y0 (Suc n) z"

section \<open>The shape of a script\<close>

text \<open>The exponent of two in \<open>v\<close>.\<close>

function low :: "nat \<Rightarrow> nat" where
  "low v = (if v = 0 \<or> odd v then 0 else Suc (low (v div 2)))"
  by pat_completeness auto
termination by (relation "measure id") auto

declare low.simps [simp del]

lemma low_iff: "0 < v \<Longrightarrow> 2 ^ i dvd v \<longleftrightarrow> i \<le> low v"
proof (induction v arbitrary: i rule: low.induct)
  case (1 v)
  show ?case
  proof (cases "odd v")
    case True
    then have "low v = 0" by (simp add: low.simps)
    moreover have "2 ^ i dvd v \<longleftrightarrow> i = 0"
      using True by (cases i) (auto dest: dvd_mult_left)
    ultimately show ?thesis by simp
  next
    case False
    then have "even v" by simp
    then obtain w where w: "v = 2 * w" by (elim evenE)
    with 1(2) have "low v = Suc (low w)" "0 < w" by (simp_all add: low.simps [of "2 * w"])
    moreover from 1(1) [of "i - 1"] 1(2) w False have "2 ^ (i - 1) dvd w \<longleftrightarrow> i - 1 \<le> low w" by simp
    ultimately show ?thesis using w by (cases i) auto
  qed
qed

definition kids :: "nat \<Rightarrow> nat \<Rightarrow> nat \<Rightarrow> nat list" where
  "kids nv v k = filter (\<lambda>d. d < nv) (map (\<lambda>i. v + 2 ^ i) (rev [0..<k]))"

lemma prepost_got: "bcast_prepost v b True = []"
proof (induction b rule: less_induct)
  case (less b)
  show ?case using less [of "b div 2"] by (subst bcast_prepost.simps) (simp add: Let_def)
qed

lemma prepost_shape: "0 < v \<Longrightarrow> low v \<le> k \<Longrightarrow> bcast_prepost v (2 ^ Suc k) False = [Post (v - 2 ^ low v)]"
proof (induction k)
  case 0
  then show ?case by (subst bcast_prepost.simps) (simp add: Let_def)
next
  case (Suc k)
  show ?case
  proof (cases "low v = Suc k")
    case True
    then have "v mod 2 ^ Suc k = 0" using low_iff [OF Suc.prems(1), of "Suc k"] by (simp add: dvd_eq_mod_eq_0)
    with True show ?thesis
      by (subst bcast_prepost.simps) (simp add: Let_def prepost_got del: power_Suc, simp)
  next
    case False
    then have "v mod 2 ^ Suc k \<noteq> 0" using low_iff [OF Suc.prems(1), of "Suc k"] Suc.prems by (simp add: dvd_eq_mod_eq_0)
    moreover have "Suc 0 < 2 * 2 ^ k" using one_le_power [of "2 :: nat" k] by linarith
    ultimately show ?thesis
      using False Suc by (subst bcast_prepost.simps) (simp add: Let_def)
  qed
qed

lemma sends_got: "bcast_sends nv v (2 ^ Suc k) True = map Send_to (kids nv v (Suc k))"
proof (induction k)
  case 0
  then show ?case by (subst bcast_sends.simps) (simp add: Let_def kids_def)
next
  case (Suc k)
  have "Suc 0 < 2 * 2 ^ k" using one_le_power [of "2 :: nat" k] by linarith
  with Suc show ?case
    by (subst bcast_sends.simps) (simp add: Let_def kids_def)
qed

lemma sends_shape:
  "0 < v \<Longrightarrow> low v \<le> k \<Longrightarrow> bcast_sends nv v (2 ^ Suc k) False = Await # map Send_to (kids nv v (low v))"
proof (induction k)
  case 0
  then show ?case by (subst bcast_sends.simps) (simp add: Let_def kids_def)
next
  case (Suc k)
  have one: "Suc 0 < 2 * 2 ^ k" using one_le_power [of "2 :: nat" k] by linarith
  show ?case
  proof (cases "low v = Suc k")
    case True
    then have "v mod 2 ^ Suc k = 0" using low_iff [OF Suc.prems(1), of "Suc k"] by (simp add: dvd_eq_mod_eq_0)
    with True one show ?thesis
      using sends_got [of nv v k]
      by (subst bcast_sends.simps) (simp add: Let_def)
  next
    case False
    then have "v mod 2 ^ Suc k \<noteq> 0" using low_iff [OF Suc.prems(1), of "Suc k"] Suc.prems by (simp add: dvd_eq_mod_eq_0)
    with False one Suc show ?thesis
      by (subst bcast_sends.simps) (simp add: Let_def)
  qed
qed

definition bcast_parent :: "nat \<Rightarrow> nat" where
  "bcast_parent v = v - 2 ^ low v"

lemma script_root: "2 \<le> nv \<Longrightarrow> \<exists>k. nv \<le> 2 ^ k \<and> bcast_script nv 0 = map Send_to (kids nv 0 k)"
proof -
  assume nv: "2 \<le> nv"
  obtain K where K: "pow2_above nv = 2 ^ K" using pow2_above_power by blast
  moreover from K nv pow2_above_ge [of nv] have "K \<noteq> 0" by (intro notI) simp
  ultimately obtain k where "pow2_above nv = 2 ^ Suc k" by (metis not0_implies_Suc)
  with sends_got [of nv 0 k] pow2_above_ge [of nv] show ?thesis
    by (intro exI [of _ "Suc k"]) (simp add: bcast_script_def prepost_got)
qed

lemma script_other:
  assumes "0 < v" and "v < nv"
  shows "bcast_script nv v = Post (bcast_parent v) # Await # map Send_to (kids nv v (low v))"
proof -
  obtain K where K: "pow2_above nv = 2 ^ K" using pow2_above_power by blast
  have "2 ^ low v \<le> v" using low_iff [OF assms(1), of "low v"] assms(1) by (simp add: dvd_imp_le)
  then have "(2 :: nat) ^ low v < 2 ^ K" using assms(2) pow2_above_ge [of nv] K by linarith
  then have "low v < K" by simp
  then obtain k where "K = Suc k" "low v \<le> k" by (cases K) simp_all
  with K prepost_shape [OF assms(1), of k] sends_shape [OF assms(1), of k nv] assms(1) show ?thesis
    by (simp add: bcast_script_def bcast_parent_def)
qed

lemma low_unique: "2 ^ Suc i dvd q \<Longrightarrow> low (q + 2 ^ i) = i"
proof -
  assume q: "2 ^ Suc i dvd q"
  then have "(2 :: nat) ^ i dvd q" by (meson dvd_trans le_imp_power_dvd lessI less_imp_le)
  then have "2 ^ i dvd q + 2 ^ i" by simp
  moreover have "\<not> 2 ^ Suc i dvd q + 2 ^ i"
    using q by (simp add: dvd_add_right_iff nat_dvd_not_less)
  moreover have "0 < q + 2 ^ i" by simp
  then have "2 ^ j dvd q + 2 ^ i \<longleftrightarrow> j \<le> low (q + 2 ^ i)" for j by (rule low_iff)
  ultimately have "i \<le> low (q + 2 ^ i)" "\<not> Suc i \<le> low (q + 2 ^ i)" by metis+
  then show ?thesis by simp
qed

lemma parent_split:
  assumes "0 < d"
  shows "d = bcast_parent d + 2 ^ low d" and "2 ^ Suc (low d) dvd bcast_parent d"
proof -
  have "2 ^ low d dvd d" using low_iff [OF assms] by blast
  then obtain m where m: "d = 2 ^ low d * m" by (elim dvdE)
  have "\<not> 2 ^ Suc (low d) dvd d" using low_iff [OF assms, of "Suc (low d)"] by simp
  then have "odd m" by (metis m dvd_triv_right mult_dvd_mono dvd_refl power_Suc2)
  then obtain l where l: "m = 2 * l + 1" by (elim oddE)
  show "d = bcast_parent d + 2 ^ low d"
    using \<open>2 ^ low d dvd d\<close> assms by (simp add: bcast_parent_def dvd_imp_le)
  have "bcast_parent d = 2 ^ low d * m - 2 ^ low d" using m by (simp add: bcast_parent_def)
  also have "\<dots> = 2 ^ Suc (low d) * l" by (simp add: l algebra_simps)
  finally show "2 ^ Suc (low d) dvd bcast_parent d" by simp
qed

lemma kids_iff:
  assumes "q < nv" and k: "if q = 0 then nv \<le> 2 ^ k else k = low q"
  shows "d \<in> set (kids nv q k) \<longleftrightarrow> 0 < d \<and> d < nv \<and> bcast_parent d = q"
proof
  assume "d \<in> set (kids nv q k)"
  then obtain i where i: "i < k" "d = q + 2 ^ i" "d < nv" by (auto simp: kids_def)
  have "2 ^ Suc i dvd q"
    using i(1) k low_iff [of q "Suc i"] by (cases "q = 0") simp_all
  then have "low d = i" using low_unique i(2) by simp
  with i show "0 < d \<and> d < nv \<and> bcast_parent d = q" by (simp add: bcast_parent_def)
next
  assume d: "0 < d \<and> d < nv \<and> bcast_parent d = q"
  with parent_split have eq: "d = q + 2 ^ low d" and dv: "2 ^ Suc (low d) dvd q" by blast+
  have "low d < k"
  proof (cases "q = 0")
    case True
    with eq d k have "(2 :: nat) ^ low d < 2 ^ k" by simp
    then show ?thesis by simp
  next
    case False
    with dv low_iff [of q "Suc (low d)"] k show ?thesis by simp
  qed
  with eq d show "d \<in> set (kids nv q k)" by (auto simp: kids_def)
qed

lemma distinct_kids: "distinct (kids nv q k)"
  by (simp add: kids_def distinct_map inj_on_def)

section \<open>What is needed of the tree\<close>

locale bcast_tree =
  fixes script :: "nat \<Rightarrow> bcast_act list"
    and parent :: "nat \<Rightarrow> nat"
    and nv :: nat
  assumes root: "\<exists>ks. script 0 = map Send_to ks"
    and other: "0 < v \<Longrightarrow> v < nv \<Longrightarrow> \<exists>ks. script v = Post (parent v) # Await # map Send_to ks"
    and none: "nv \<le> v \<Longrightarrow> script v = []"
    and dist: "distinct (script v)"
    and sends: "q < nv \<Longrightarrow> Send_to d \<in> set (script q) \<longleftrightarrow> 0 < d \<and> d < nv \<and> parent d = q"
    and parent_less: "0 < d \<Longrightarrow> parent d < d"
begin

text \<open>The state of the edge from the parent of \<open>d\<close> to \<open>d\<close>.\<close>

definition link :: "'a \<Rightarrow> 'a bnet \<Rightarrow> nat \<Rightarrow> bool" where
  "link data y d \<longleftrightarrow> (let q = parent d; sent = (Send_to d \<notin> set (todo y q)) in
     (case posted y d of
        None \<Rightarrow> Post q \<in> set (todo y d) \<and> \<not> arrived y d \<and> chan y q d = (if sent then [data] else [])
      | Some s \<Rightarrow> s = q \<and> Post q \<notin> set (todo y d) \<and> chan y q d = [] \<and> (arrived y d \<longleftrightarrow> sent))
     \<and> (Await \<notin> set (todo y d) \<longrightarrow> arrived y d)
     \<and> (arrived y d \<longrightarrow> vec y d = data))"

lemma post_first:
  assumes "0 < d" and "d < nv" and "suffix xs (script d)" and "Post (parent d) \<in> set xs"
  shows "\<exists>r. xs = Post (parent d) # r"
proof -
  obtain ks where "script d = Post (parent d) # Await # map Send_to ks" using other [OF assms(1,2)] by blast
  with assms(3,4) show ?thesis by (auto simp: suffix_Cons dest!: set_mono_suffix)
qed

definition net_inv :: "'a \<Rightarrow> 'a bnet \<Rightarrow> bool" where
  "net_inv data y \<longleftrightarrow> (\<forall>p. suffix (todo y p) (script p)) \<and> vec y 0 = data
     \<and> (\<forall>d. 0 < d \<and> d < nv \<longrightarrow> link data y d)"

lemma suffix_head:
  assumes "suffix (x # r) (script p)"
  shows "p < nv" and "x \<notin> set r" and "suffix r (script p)" and "x \<in> set (script p)"
    and "x = Post s \<Longrightarrow> 0 < p \<and> s = parent p"
    and "x = Await \<Longrightarrow> 0 < p \<and> (\<forall>s. Post s \<notin> set r)"
    and "x = Send_to d \<Longrightarrow> 0 < d \<and> d < nv \<and> parent d = p \<and> Await \<notin> set r \<and> (\<forall>s. Post s \<notin> set r)"
proof -
  obtain zs where zs: "script p = zs @ x # r" using assms by (auto simp: suffix_def)
  then show p: "p < nv" using none [of p] by (metis append_is_Nil_conv list.distinct(1) not_le)
  show "x \<notin> set r" using dist [of p] zs by simp
  show "suffix r (script p)" using zs by (simp add: suffix_def)
  show mem: "x \<in> set (script p)" using zs by simp
  show "x = Post s \<Longrightarrow> 0 < p \<and> s = parent p"
    using mem root other [of p] p by (cases "p = 0") auto
  obtain ks where "script p = map Send_to ks \<or> (0 < p \<and> script p = Post (parent p) # Await # map Send_to ks)"
    using root other [of p] p by (cases "p = 0") auto
  then have shape: "0 < p \<and> x = Post (parent p) \<or> 0 < p \<and> x = Await \<and> set r \<subseteq> range Send_to
      \<or> x \<in> range Send_to \<and> set r \<subseteq> range Send_to"
    using zs by (cases zs; cases "tl zs") (auto simp: append_eq_map_conv Cons_eq_map_conv)
  then show "x = Await \<Longrightarrow> 0 < p \<and> (\<forall>s. Post s \<notin> set r)" by auto
  show "x = Send_to d \<Longrightarrow> 0 < d \<and> d < nv \<and> parent d = p \<and> Await \<notin> set r \<and> (\<forall>s. Post s \<notin> set r)"
    using shape mem sends [OF p, of d] by auto
qed

lemma link_post:
  assumes l: "link data y d" and t: "todo y p = Post (parent p) # r" "Post (parent p) \<notin> set r" and "0 < d"
    and c: "chan y (parent p) p = []"
  shows "link data (y\<lparr>todo := (todo y)(p := r), posted := (posted y)(p := Some (parent p))\<rparr>) d"
  using l t c parent_less [OF \<open>0 < d\<close>]
  by (cases "d = p"; cases "parent d = p") (auto simp: link_def Let_def split: option.splits if_splits)

lemma link_early:
  assumes l: "link data y d" and t: "todo y p = Post (parent p) # r" "Post (parent p) \<notin> set r" and "0 < d"
    and c: "chan y (parent p) p = m # ms" and p: "link data y p"
  shows "link data (y\<lparr>todo := (todo y)(p := r), posted := (posted y)(p := Some (parent p)),
       arrived := (arrived y)(p := True), vec := (vec y)(p := m),
       chan := (chan y)(parent p := (chan y (parent p))(p := ms))\<rparr>) d"
  using l p t c parent_less [OF \<open>0 < d\<close>]
  by (cases "d = p"; cases "parent d = p") (auto simp: link_def Let_def split: option.splits if_splits)

lemma link_direct:
  assumes l: "link data y d" and t: "todo y p = Send_to e # r" "Send_to e \<notin> set r" and "0 < d"
    and e: "0 < e" "parent e = p" "posted y e = Some p" "\<not> arrived y e" and p: "vec y p = data"
  shows "link data (y\<lparr>todo := (todo y)(p := r), arrived := (arrived y)(e := True),
       vec := (vec y)(e := vec y p)\<rparr>) d"
  using l t e p parent_less [OF \<open>0 < d\<close>] parent_less [OF e(1)]
  by (cases "d = p"; cases "d = e"; cases "parent d = p")
    (auto simp: link_def Let_def split: option.splits if_splits)

lemma link_buffer:
  assumes l: "link data y d" and t: "todo y p = Send_to e # r" "Send_to e \<notin> set r" and "0 < d"
    and e: "0 < e" "parent e = p" "posted y e = None" and p: "vec y p = data" and le: "link data y e"
  shows "link data (y\<lparr>todo := (todo y)(p := r),
       chan := (chan y)(p := (chan y p)(e := chan y p e @ [vec y p]))\<rparr>) d"
  using l t e p le parent_less [OF \<open>0 < d\<close>] parent_less [OF e(1)]
  by (cases "d = p"; cases "d = e"; cases "parent d = p")
    (auto simp: link_def Let_def split: option.splits if_splits)

lemma link_await:
  assumes l: "link data y d" and t: "todo y p = Await # r" "Await \<notin> set r" and "arrived y p" and "0 < d"
  shows "link data (y\<lparr>todo := (todo y)(p := r)\<rparr>) d"
  using l t assms(4) parent_less [OF \<open>0 < d\<close>]
  by (cases "d = p"; cases "parent d = p") (auto simp: link_def Let_def split: option.splits if_splits)

lemma sender_has:
  assumes inv: "net_inv data y" and t: "todo y p = Send_to d # r"
  shows "vec y p = data"
proof (cases "p = 0")
  case True
  with inv show ?thesis by (simp add: net_inv_def)
next
  case False
  have "suffix (Send_to d # r) (script p)" using inv t by (metis net_inv_def)
  from suffix_head(1,7) [OF this] have "p < nv" "Await \<notin> set r" by auto
  with False inv t show ?thesis by (auto simp: net_inv_def link_def Let_def)
qed

lemma step_inv:
  assumes step: "bcast_step eager y z" and inv: "net_inv data y"
  shows "net_inv data z \<and> (\<exists>p < nv. \<exists>x r. todo y p = x # r \<and> todo z = (todo y)(p := r))"
proof -
  have suf: "suffix (todo y p) (script p)" and v0: "vec y 0 = data"
    and link: "0 < d \<Longrightarrow> d < nv \<Longrightarrow> link data y d" for p d
    using inv by (simp_all add: net_inv_def)
  from step show ?thesis
  proof cases
    case (post p s r)
    note h = suffix_head [OF suf [of p, unfolded post(2)]]
    have p: "0 < p" "s = parent p" using h(5) by simp_all
    have "link data z d" if "0 < d" "d < nv" for d
      using link_post [OF link [OF that]] post h(2) that(1) by (simp add: p(2))
    moreover have "suffix (todo z q) (script q)" for q using suf h(3) post by simp
    ultimately show ?thesis using post h(1) v0 by (auto simp: net_inv_def)
  next
    case (post_early p s r m ms)
    note h = suffix_head [OF suf [of p, unfolded post_early(2)]]
    have p: "0 < p" "s = parent p" using h(5) by simp_all
    have "link data z d" if "0 < d" "d < nv" for d
      using link_early [OF link [OF that]] post_early h(2) that(1) link [OF p(1) h(1)] by (simp add: p(2))
    moreover have "suffix (todo z q) (script q)" for q using suf h(3) post_early by simp
    ultimately show ?thesis using post_early h(1) v0 p(1) by (auto simp: net_inv_def)
  next
    case (send_direct p d r)
    note h = suffix_head [OF suf [of p, unfolded send_direct(2)]]
    have d: "0 < d" "d < nv" "parent d = p" using h(7) by simp_all
    have "link data z e" if "0 < e" "e < nv" for e
      using link_direct [OF link [OF that], of p d r] send_direct h(2) that(1) d sender_has [OF inv send_direct(2)]
      by simp
    moreover have "suffix (todo z q) (script q)" for q using suf h(3) send_direct by simp
    ultimately show ?thesis using send_direct h(1) v0 d(1) by (auto simp: net_inv_def)
  next
    case (send_early p d r)
    note h = suffix_head [OF suf [of p, unfolded send_early(2)]]
    have d: "0 < d" "d < nv" "parent d = p" using h(7) by simp_all
    have "link data z e" if "0 < e" "e < nv" for e
      using link_buffer [OF link [OF that], of p d r] send_early h(2) that(1) d sender_has [OF inv send_early(2)]
        link [OF d(1,2)] by simp
    moreover have "suffix (todo z q) (script q)" for q using suf h(3) send_early by simp
    ultimately show ?thesis using send_early h(1) v0 by (auto simp: net_inv_def)
  next
    case (await p r)
    note h = suffix_head [OF suf [of p, unfolded await(2)]]
    have "link data z d" if "0 < d" "d < nv" for d
      using link_await [OF link [OF that], of p r] await h(2) that(1) by simp
    moreover have "suffix (todo z q) (script q)" for q using suf h(3) await by simp
    ultimately show ?thesis using await h(1) v0 by (auto simp: net_inv_def)
  qed
qed

lemma progress:
  assumes inv: "net_inv data y" and "todo y p \<noteq> []"
  shows "\<exists>z. bcast_step eager y z"
  using assms(2)
proof (induction p rule: less_induct)
  case (less p)
  then obtain x r where t: "todo y p = x # r" by (cases "todo y p") auto
  have suf: "suffix (x # r) (script p)" using inv t by (metis net_inv_def)
  note h = suffix_head [OF suf]
  show ?case
  proof (cases x)
    case (Post s)
    with t show ?thesis by (cases "chan y s p") (auto intro: bcast_step.post bcast_step.post_early)
  next
    case (Send_to d)
    with h(7) have d: "0 < d" "d < nv" "parent d = p" by simp_all
    with inv have l: "link data y d" by (simp add: net_inv_def)
    show ?thesis
    proof (cases "posted y d")
      case None
      with l have "Post (parent d) \<in> set (todo y d)" by (simp add: link_def Let_def)
      moreover have "suffix (todo y d) (script d)" using inv by (simp add: net_inv_def)
      ultimately have "\<exists>r. todo y d = Post (parent d) # r"
        using post_first [OF d(1,2)] by blast
      then show ?thesis by (cases "chan y (parent d) d") (auto intro: bcast_step.post bcast_step.post_early)
    next
      case (Some s)
      with l d t Send_to have "s = p" "\<not> arrived y d" by (auto simp: link_def Let_def)
      with Some t Send_to show ?thesis by (auto intro: bcast_step.send_direct)
    qed
  next
    case Await
    show ?thesis
    proof (cases "arrived y p")
      case True
      with t Await show ?thesis by (auto intro: bcast_step.await)
    next
      case False
      have p: "0 < p" using h(6) Await by simp
      with inv h(1) have l: "link data y p" by (simp add: net_inv_def)
      have "posted y p \<noteq> None"
        using l t Await h(6) by (cases "posted y p") (auto simp: link_def Let_def)
      with l False have "Send_to p \<in> set (todo y (parent p))" by (auto simp: link_def Let_def)
      then have "todo y (parent p) \<noteq> []" by auto
      with less.IH [OF parent_less [OF p]] show ?thesis by blast
    qed
  qed
qed

lemma start_inv:
  "net_inv data \<lparr>todo = script, vec = v0(0 := data), posted = (\<lambda>_. None), arrived = (\<lambda>_. False),
     chan = (\<lambda>_ _. [])\<rparr>"
proof -
  have "Post (parent d) \<in> set (script d) \<and> Await \<in> set (script d) \<and> Send_to d \<in> set (script (parent d))"
    if "0 < d" "d < nv" for d
    using other [OF that] sends [of "parent d" d] parent_less [OF that(1)] that by auto
  then show ?thesis by (auto simp: net_inv_def link_def Let_def)
qed

lemma run_props:
  assumes "bcast_run eager y0 n y" and "net_inv data y0"
  shows "net_inv data y \<and> n + (\<Sum>p < nv. length (todo y p)) = (\<Sum>p < nv. length (todo y0 p))"
  using assms
proof induction
  case (run_step n y z)
  then have IH: "net_inv data y" "n + (\<Sum>p < nv. length (todo y p)) = (\<Sum>p < nv. length (todo y0 p))"
    by simp_all
  from step_inv [OF run_step.hyps(2) IH(1)] obtain p x r where
    z: "net_inv data z" "p < nv" "todo y p = x # r" "todo z = (todo y)(p := r)" by blast
  have "(\<Sum>q < nv. length (todo y q)) = length (todo y p) + (\<Sum>q \<in> {..<nv} - {p}. length (todo y q))"
    using z(2) by (simp add: sum.remove)
  moreover have "(\<Sum>q < nv. length (todo z q)) = length (todo z p) + (\<Sum>q \<in> {..<nv} - {p}. length (todo z q))"
    using z(2) by (simp add: sum.remove)
  moreover have "(\<Sum>q \<in> {..<nv} - {p}. length (todo z q)) = (\<Sum>q \<in> {..<nv} - {p}. length (todo y q))"
    using z(4) by (intro sum.cong) simp_all
  ultimately show ?case using IH(2) z by simp
qed simp

lemma finished_has:
  assumes "net_inv data y" and "todo y p = []" and "p < nv"
  shows "vec y p = data"
  using assms by (cases "p = 0") (auto simp: net_inv_def link_def Let_def)

end

section \<open>The tree of the code\<close>

definition scripts :: "nat \<Rightarrow> nat \<Rightarrow> bcast_act list" where
  "scripts nv v = (if 2 \<le> nv \<and> v < nv then bcast_script nv v else [])"

interpretation bt: bcast_tree "scripts nv" bcast_parent nv for nv
proof
  fix d q v
  obtain k where k: "2 \<le> nv \<Longrightarrow> nv \<le> 2 ^ k \<and> bcast_script nv 0 = map Send_to (kids nv 0 k)"
    using script_root [of nv] by blast
  show "\<exists>ks. scripts nv 0 = map Send_to ks" using k by (auto simp: scripts_def)
  show "0 < v \<Longrightarrow> v < nv \<Longrightarrow> \<exists>ks. scripts nv v = Post (bcast_parent v) # Await # map Send_to ks"
    using script_other [of v nv] by (auto simp: scripts_def)
  show "nv \<le> v \<Longrightarrow> scripts nv v = []" by (simp add: scripts_def)
  show "distinct (scripts nv v)"
    using k script_other [of v nv] distinct_kids
    by (cases "v = 0") (auto simp: scripts_def distinct_map inj_on_def)
  show "Send_to d \<in> set (scripts nv q) \<longleftrightarrow> 0 < d \<and> d < nv \<and> bcast_parent d = q" if "q < nv"
  proof (cases "q = 0")
    case True
    with k kids_iff [of 0 nv k d] that show ?thesis
      by (cases "2 \<le> nv") (auto simp: scripts_def)
  next
    case False
    with script_other [of q nv] kids_iff [of q nv "low q" d] that show ?thesis by (auto simp: scripts_def)
  qed
  show "0 < d \<Longrightarrow> bcast_parent d < d" by (simp add: bcast_parent_def)
qed

text \<open>
  C5.  The broadcast delivers: in any interleaving of the processes, and whether the library buffers
  early messages or lets their senders wait, a process that has finished its part holds the data
  of the root, some process can go on as long as not all have finished, and all have finished
  after exactly as many steps as the scripts have actions.
\<close>

theorem bcast_delivers:
  assumes run: "bcast_run eager (bcast_start nv (v0(0 := data))) n y" and nv: "2 \<le> nv"
  shows "(\<forall>p < nv. todo y p = [] \<longrightarrow> vec y p = data)
    \<and> ((\<exists>z. bcast_step eager y z) \<or> (\<forall>p < nv. todo y p = []))
    \<and> n \<le> (\<Sum>p < nv. length (bcast_script nv p))
    \<and> (n = (\<Sum>p < nv. length (bcast_script nv p)) \<longrightarrow> (\<forall>p < nv. todo y p = []))"
proof -
  have start: "bcast_start nv (v0(0 := data)) = \<lparr>todo = scripts nv, vec = v0(0 := data),
      posted = (\<lambda>_. None), arrived = (\<lambda>_. False), chan = (\<lambda>_ _. [])\<rparr>"
    using nv by (auto simp: bcast_start_def scripts_def)
  note inv = bt.run_props [OF run [unfolded start] bt.start_inv]
  have sum: "(\<Sum>p < nv. length (scripts nv p)) = (\<Sum>p < nv. length (bcast_script nv p))"
    using nv by (intro sum.cong) (simp_all add: scripts_def)
  have fin: "\<forall>p < nv. todo y p = [] \<longrightarrow> vec y p = data"
    by (simp add: bt.finished_has [OF conjunct1 [OF inv]])
  have go: "(\<exists>z. bcast_step eager y z) \<or> (\<forall>p < nv. todo y p = [])"
    using bt.progress [OF conjunct1 [OF inv], of _ eager] by blast
  from conjunct2 [OF inv] have total: "n + (\<Sum>p < nv. length (todo y p)) = (\<Sum>p < nv. length (bcast_script nv p))"
    by (simp only: sum bnet.simps)
  have "(\<Sum>p < nv. length (todo y p)) = 0 \<longrightarrow> (\<forall>p < nv. todo y p = [])" by simp
  with total have all: "n = (\<Sum>p < nv. length (bcast_script nv p)) \<longrightarrow> (\<forall>p < nv. todo y p = [])"
    by (metis add_cancel_right_right)
  from total have "n \<le> (\<Sum>p < nv. length (bcast_script nv p))" by linarith
  with fin go all show ?thesis by blast
qed

theorem bcast_delivers_witness:
  "\<exists>y. bcast_run False (bcast_start 3 ((\<lambda>_. 0)(0 := 7 :: nat))) 1 y \<and> posted y 1 = Some 0
     \<and> (\<exists>z. bcast_step False y z)"
proof -
  let ?y = "bcast_start 3 ((\<lambda>_. 0)(0 := 7 :: nat))"
  let ?z = "?y\<lparr>todo := (todo ?y)(1 := [Await]), posted := (posted ?y)(1 := Some 0)\<rparr>"
  have "low 1 = 0" by (simp add: low.simps [of "Suc 0"])
  then have "bcast_script 3 1 = [Post 0, Await]"
    using script_other [of 1 3] by (simp add: bcast_parent_def kids_def)
  then have "bcast_step False ?y ?z"
    by (intro bcast_step.post) (simp_all add: bcast_start_def)
  then have run: "bcast_run False ?y 1 ?z" using run_step [OF run_start] by simp
  have "(\<exists>z. bcast_step False ?z z) \<or> (\<forall>p < 3. todo ?z p = [])"
    by (rule bcast_delivers [OF run, THEN conjunct2, THEN conjunct1]) simp
  moreover have "todo ?z 1 \<noteq> []" by simp
  moreover have "(1 :: nat) < 3" by simp
  ultimately have "\<exists>z. bcast_step False ?z z" by blast
  with run show ?thesis by (intro exI [of _ ?z]) simp
qed

text \<open>
  The numbering is right: the processes of the mask, each exactly once and the root first, are
  the targets of the tree, and every one of them finds its own number.
\<close>

theorem bcast_numbering:
  assumes "root < nprocs" and "myproc < nprocs" and "msk ! root = 1" and "msk ! myproc = 1"
  shows "\<exists>vproc v. bcast_setup nprocs msk root myproc = (vproc, Some v)
     \<and> v < length vproc \<and> vproc ! v = myproc \<and> vproc ! 0 = root
     \<and> distinct vproc \<and> set vproc = {n. n < nprocs \<and> msk ! n = 1}"
proof -
  let ?P = "\<lambda>n. n \<noteq> root \<and> msk ! n = 1"
  have skip: "fold (bcast_number msk root myproc) xs (vs, m) = (vs @ filter ?P xs, m)"
    if "myproc = root \<or> myproc \<notin> set xs" for xs vs m
    using that by (induction xs arbitrary: vs m) auto
  show ?thesis
  proof (cases "myproc = root")
    case True
    then have "bcast_setup nprocs msk root myproc = ([root] @ filter ?P [0..<nprocs], Some 0)"
      unfolding bcast_setup_def by (subst skip) simp_all
    moreover have "set ([root] @ filter ?P [0..<nprocs]) = {n. n < nprocs \<and> msk ! n = 1}"
      using assms by auto
    ultimately show ?thesis using True by simp
  next
    case False
    have split: "[0..<nprocs] = [0..<myproc] @ myproc # [Suc myproc..<nprocs]"
      using assms(2) by (metis upt_add_eq_append upt_conv_Cons le0 less_imp_le_nat le_add_diff_inverse)
    let ?l = "filter ?P [0..<myproc]" and ?r = "filter ?P [Suc myproc..<nprocs]"
    have eq: "bcast_setup nprocs msk root myproc = ((root # ?l) @ myproc # ?r, Some (length (root # ?l)))"
      using False assms(4) unfolding bcast_setup_def split by (simp add: skip)
    have "set ((root # ?l) @ myproc # ?r) = {n. n < nprocs \<and> msk ! n = 1}"
      using assms False by auto
    moreover have "distinct ((root # ?l) @ myproc # ?r)" using False by auto
    moreover have "((root # ?l) @ myproc # ?r) ! length (root # ?l) = myproc" by (rule nth_append_length)
    moreover have "length (root # ?l) < length ((root # ?l) @ myproc # ?r)"
      "((root # ?l) @ myproc # ?r) ! 0 = root" by simp_all
    ultimately show ?thesis unfolding eq by blast
  qed
qed

theorem bcast_numbering_witness:
  "\<exists>vproc v. bcast_setup 4 [1, 0, 1, 1] 2 3 = (vproc, Some v) \<and> vproc ! v = 3 \<and> vproc ! 0 = 2"
  using bcast_numbering [of 2 4 3 "[1, 0, 1, 1]"] by auto

end
