(* ===== verification/Messages.thy ===== *)
theory Messages
  imports Prelude
begin

text \<open>
  The parts of \<open>MP_Lite/mpcore.c\<close> around the message calls: the wrappers for typed data, the
  range check of every send and receive, and the synchronous exchanges \<open>MP_SSend\<close>, \<open>MP_SRecv\<close>
  and \<open>MP_SShift\<close>.  The calls that the modules of MP_Lite provide are the constructors of
  \<open>mp_call\<close>.
\<close>

section \<open>Typed wrappers\<close>

datatype mp_call =
    MP_Send int int int int          \<comment> \<open>buffer, bytes, destination, tag\<close>
  | MP_Recv int int int int          \<comment> \<open>buffer, bytes, source, tag\<close>
  | MP_ASend int int int int int     \<comment> \<open>and the message id\<close>
  | MP_ARecv int int int int int
  | MP_Wait int
  | Bcast_call int int int "int list" \<comment> \<open>\<open>MP_Bcast_masked\<close>: buffer, bytes, root, mask\<close>

text \<open>
  \<open>count*sizeof(type)\<close> is computed in 64-bit unsigned arithmetic and passed as an \<open>int\<close>.
\<close>

definition byte_count :: "int \<Rightarrow> int \<Rightarrow> int" where
  "byte_count count width = sint (ucast (word_of_int count * word_of_int width :: 64 word) :: 32 word)"

definition MP_dSend :: "int \<Rightarrow> int \<Rightarrow> int \<Rightarrow> int \<Rightarrow> mp_call" where
  "MP_dSend buf count dest tag = MP_Send buf (byte_count count 8) dest tag"

definition MP_iSend :: "int \<Rightarrow> int \<Rightarrow> int \<Rightarrow> int \<Rightarrow> mp_call" where
  "MP_iSend buf count dest tag = MP_Send buf (byte_count count 4) dest tag"

definition MP_fSend :: "int \<Rightarrow> int \<Rightarrow> int \<Rightarrow> int \<Rightarrow> mp_call" where
  "MP_fSend buf count dest tag = MP_Send buf (byte_count count 4) dest tag"

definition MP_dRecv :: "int \<Rightarrow> int \<Rightarrow> int \<Rightarrow> int \<Rightarrow> mp_call" where
  "MP_dRecv buf count source tag = MP_Recv buf (byte_count count 8) source tag"

definition MP_iRecv :: "int \<Rightarrow> int \<Rightarrow> int \<Rightarrow> int \<Rightarrow> mp_call" where
  "MP_iRecv buf count source tag = MP_Recv buf (byte_count count 4) source tag"

definition MP_fRecv :: "int \<Rightarrow> int \<Rightarrow> int \<Rightarrow> int \<Rightarrow> mp_call" where
  "MP_fRecv buf count source tag = MP_Recv buf (byte_count count 4) source tag"

definition MP_dASend :: "int \<Rightarrow> int \<Rightarrow> int \<Rightarrow> int \<Rightarrow> int \<Rightarrow> mp_call" where
  "MP_dASend buf count dest tag msg_id = MP_ASend buf (byte_count count 8) dest tag msg_id"

definition MP_iASend :: "int \<Rightarrow> int \<Rightarrow> int \<Rightarrow> int \<Rightarrow> int \<Rightarrow> mp_call" where
  "MP_iASend buf count dest tag msg_id = MP_ASend buf (byte_count count 4) dest tag msg_id"

definition MP_fASend :: "int \<Rightarrow> int \<Rightarrow> int \<Rightarrow> int \<Rightarrow> int \<Rightarrow> mp_call" where
  "MP_fASend buf count dest tag msg_id = MP_ASend buf (byte_count count 4) dest tag msg_id"

definition MP_dARecv :: "int \<Rightarrow> int \<Rightarrow> int \<Rightarrow> int \<Rightarrow> int \<Rightarrow> mp_call" where
  "MP_dARecv buf count source tag msg_id = MP_ARecv buf (byte_count count 8) source tag msg_id"

definition MP_iARecv :: "int \<Rightarrow> int \<Rightarrow> int \<Rightarrow> int \<Rightarrow> int \<Rightarrow> mp_call" where
  "MP_iARecv buf count source tag msg_id = MP_ARecv buf (byte_count count 4) source tag msg_id"

definition MP_fARecv :: "int \<Rightarrow> int \<Rightarrow> int \<Rightarrow> int \<Rightarrow> int \<Rightarrow> mp_call" where
  "MP_fARecv buf count source tag msg_id = MP_ARecv buf (byte_count count 4) source tag msg_id"

definition MP_Broadcast :: "nat \<Rightarrow> int \<Rightarrow> int \<Rightarrow> mp_call" where
  "MP_Broadcast nprocs ptr nbytes = Bcast_call ptr nbytes 0 (replicate nprocs 1)"

definition MP_dBroadcast :: "nat \<Rightarrow> int \<Rightarrow> int \<Rightarrow> mp_call" where
  "MP_dBroadcast nprocs ptr count = Bcast_call ptr (byte_count count 8) 0 (replicate nprocs 1)"

definition MP_iBroadcast :: "nat \<Rightarrow> int \<Rightarrow> int \<Rightarrow> mp_call" where
  "MP_iBroadcast nprocs ptr count = Bcast_call ptr (byte_count count 4) 0 (replicate nprocs 1)"

definition MP_fBroadcast :: "nat \<Rightarrow> int \<Rightarrow> int \<Rightarrow> mp_call" where
  "MP_fBroadcast nprocs ptr count = Bcast_call ptr (byte_count count 4) 0 (replicate nprocs 1)"

definition MP_Bcast :: "nat \<Rightarrow> int \<Rightarrow> int \<Rightarrow> int \<Rightarrow> mp_call" where
  "MP_Bcast nprocs ptr nbytes root = Bcast_call ptr nbytes root (replicate nprocs 1)"

definition MP_dBcast :: "nat \<Rightarrow> int \<Rightarrow> int \<Rightarrow> int \<Rightarrow> mp_call" where
  "MP_dBcast nprocs ptr count root = Bcast_call ptr (byte_count count 8) root (replicate nprocs 1)"

definition MP_iBcast :: "nat \<Rightarrow> int \<Rightarrow> int \<Rightarrow> int \<Rightarrow> mp_call" where
  "MP_iBcast nprocs ptr count root = Bcast_call ptr (byte_count count 4) root (replicate nprocs 1)"

definition MP_fBcast :: "nat \<Rightarrow> int \<Rightarrow> int \<Rightarrow> int \<Rightarrow> mp_call" where
  "MP_fBcast nprocs ptr count root = Bcast_call ptr (byte_count count 4) root (replicate nprocs 1)"

definition MP_dBcast_masked :: "int \<Rightarrow> int \<Rightarrow> int \<Rightarrow> int list \<Rightarrow> mp_call" where
  "MP_dBcast_masked ptr count root msk = Bcast_call ptr (byte_count count 8) root msk"

definition MP_iBcast_masked :: "int \<Rightarrow> int \<Rightarrow> int \<Rightarrow> int list \<Rightarrow> mp_call" where
  "MP_iBcast_masked ptr count root msk = Bcast_call ptr (byte_count count 4) root msk"

definition MP_fBcast_masked :: "int \<Rightarrow> int \<Rightarrow> int \<Rightarrow> int list \<Rightarrow> mp_call" where
  "MP_fBcast_masked ptr count root msk = Bcast_call ptr (byte_count count 4) root msk"


lemma byte_count_signed: "byte_count count width = signed_take_bit 31 (count * width)"
  by (simp add: byte_count_def signed_ucast_eq signed_of_int of_int_mult [symmetric] unsigned_of_int
      signed_take_bit_take_bit del: of_int_mult)

lemma byte_count_id: "is_c_int (count * width) \<Longrightarrow> byte_count count width = count * width"
  by (simp add: byte_count_signed is_c_int_def INT_MIN_def INT_MAX_def signed_take_bit_int_eq_self)

text \<open>
  A typed call moves the bytes of its elements as long as these fit into an \<open>int\<close>, and from
  \<open>2 ^ 28\<close> doubles on it does not: \<open>2 ^ 29\<close> doubles are sent as a message of no bytes, one
  more as 8 bytes.
\<close>

theorem typed_counts:
  "(0 \<le> count \<and> count < 2 ^ 28 \<longrightarrow>
      MP_dSend buf count dest tag = MP_Send buf (8 * count) dest tag
    \<and> MP_dRecv buf count dest tag = MP_Recv buf (8 * count) dest tag
    \<and> MP_iSend buf count dest tag = MP_Send buf (4 * count) dest tag
    \<and> MP_dBcast np buf count dest = Bcast_call buf (8 * count) dest (replicate np 1))
   \<and> (0 \<le> count \<and> count < 2 ^ 28 \<longrightarrow>
      MP_dSend buf (count + 2 ^ 29) dest tag = MP_Send buf (8 * count) dest tag)"
proof -
  have small: "byte_count count 8 = 8 * count" "byte_count count 4 = 4 * count"
    if "0 \<le> count" "count < 2 ^ 28"
    using that byte_count_id [of count 8] byte_count_id [of count 4]
    by (simp_all add: is_c_int_def INT_MIN_def INT_MAX_def mult.commute)
  have "byte_count (count + 2 ^ 29) 8 = byte_count count 8"
  proof -
    have "take_bit 32 ((count + 2 ^ 29) * 8) = take_bit 32 (count * 8)"
      by (simp add: take_bit_eq_mod algebra_simps)
    then show ?thesis
      unfolding byte_count_signed by (subst signed_take_bit_eq_iff_take_bit_eq) simp
  qed
  with small show ?thesis
    by (simp add: MP_dSend_def MP_dRecv_def MP_iSend_def MP_dBcast_def)
qed

section \<open>The range check\<close>

text \<open>
  A node that is too large ends the job; the text about a negative length is only printed.
  \<open>MP_Get_Last_Tag\<close> and its like read what the last receive has left.
\<close>

definition range_check :: "int \<Rightarrow> int \<Rightarrow> int \<Rightarrow> string option outcome" where
  "range_check nprocs nbytes node =
     (if node \<ge> nprocs then Inl Exit
      else Inr (if nbytes < 0 then Some ''ERROR - Send/Recv of %d bytes is out of range'' else None))"

section \<open>Synchronous send and receive\<close>

text \<open>The address of the local variable \<open>token\<close>, and the two message ids of an exchange.\<close>

definition token :: int where "token = - 1"

definition MP_SSend :: "int \<Rightarrow> int \<Rightarrow> int \<Rightarrow> int \<Rightarrow> mp_call list" where
  "MP_SSend buf nbytes dest tag = [MP_Recv token 4 dest tag, MP_Send buf nbytes dest tag]"

definition MP_SRecv :: "int \<Rightarrow> int \<Rightarrow> int \<Rightarrow> int \<Rightarrow> mp_call list" where
  "MP_SRecv buf nbytes src tag =
     [MP_ARecv buf nbytes src tag 1, MP_Send token 4 src tag, MP_Wait 1]"

section \<open>Synchronous shift\<close>

definition sshift_nbmax :: nat where "sshift_nbmax = 1000000"

text \<open>
  The blocks of the loop, each as the bytes already done and its size, and the calls of one
  block; the tag grows by 2 from block to block.
\<close>

function sshift_blocks :: "nat \<Rightarrow> nat \<Rightarrow> nat \<Rightarrow> (nat \<times> nat) list" where
  "sshift_blocks nbmax nbytes nb =
     (if 0 < nbmax \<and> nb < nbytes
      then (nb, if nbytes - nb < nbmax then nbytes - nb else nbmax) # sshift_blocks nbmax nbytes (nb + nbmax)
      else [])"
  by pat_completeness auto
termination by (relation "measure (\<lambda>(nbmax, nbytes, nb). nbytes - nb)") auto

declare sshift_blocks.simps [simp del]

definition sshift_block :: "int \<Rightarrow> int \<Rightarrow> int \<Rightarrow> int \<Rightarrow> nat \<times> nat \<Rightarrow> int \<Rightarrow> mp_call list" where
  "sshift_block buf_out dest buf_in src blk tag = (case blk of (nb, nsize) \<Rightarrow>
     [MP_ARecv (buf_in + int nb) (int nsize) src (tag + 1) 1,
      MP_ARecv token 4 dest tag 2,
      MP_Send token 4 src tag,
      MP_Wait 2,
      MP_Send (buf_out + int nb) (int nsize) dest (tag + 1),
      MP_Wait 1])"

definition MP_SShift :: "int \<Rightarrow> int \<Rightarrow> int \<Rightarrow> int \<Rightarrow> nat \<Rightarrow> mp_call list" where
  "MP_SShift buf_out dest buf_in src nbytes =
     concat (map (\<lambda>(b, blk). sshift_block buf_out dest buf_in src blk (11000 + 2 * int b))
       (enumerate 0 (sshift_blocks sshift_nbmax nbytes 0)))"

lemma sshift_blocks_from:
  assumes "0 < m"
  shows "sshift_blocks m n (b * m) = map (\<lambda>b. (b * m, min (n - b * m) m)) [b..<(n + m - 1) div m]"
proof (induction "n - b * m" arbitrary: b rule: less_induct)
  case less
  have lt: "b < (n + m - 1) div m \<longleftrightarrow> b * m < n"
  proof -
    have "Suc b \<le> (n + m - 1) div m \<longleftrightarrow> Suc b * m \<le> n + m - 1"
      using assms by (simp add: less_eq_div_iff_mult_less_eq)
    then show ?thesis using assms by (auto simp: Suc_le_eq)
  qed
  show ?case
  proof (cases "b * m < n")
    case True
    then have "sshift_blocks m n (b * m + m) = map (\<lambda>b. (b * m, min (n - b * m) m)) [Suc b..<(n + m - 1) div m]"
      using less [of "Suc b"] assms by (simp add: add.commute)
    with True lt assms show ?thesis
      by (subst sshift_blocks.simps) (simp add: upt_conv_Cons min_def)
  next
    case False
    with lt show ?thesis by (subst sshift_blocks.simps) simp
  qed
qed

lemma sshift_blocks_all:
  "0 < m \<Longrightarrow> sshift_blocks m n 0 = map (\<lambda>b. (b * m, min (n - b * m) m)) [0..<(n + m - 1) div m]"
  using sshift_blocks_from [of m n 0] by simp

subsection \<open>All processes of a shift\<close>

text \<open>
  Every process \<open>p\<close> shifts to \<open>dst p\<close> and from \<open>src p\<close>.  \<open>cnt p\<close> is the number of calls that \<open>p\<close> has
  completed; the tags tie a message to its block, so a receive of block \<open>b\<close> is complete when its
  sender has made the send of block \<open>b\<close>.  Without \<open>eager\<close> a send waits for its receive to be posted.
\<close>

record 'a shift_st =
  cnt :: "nat \<Rightarrow> nat"
  inb :: "nat \<Rightarrow> 'a list"

inductive sshift_step ::
  "bool \<Rightarrow> (nat \<Rightarrow> nat) \<Rightarrow> (nat \<Rightarrow> nat) \<Rightarrow> nat \<Rightarrow> (nat \<times> nat) list \<Rightarrow> (nat \<Rightarrow> 'a list) \<Rightarrow>
   'a shift_st \<Rightarrow> 'a shift_st \<Rightarrow> bool"
  for eager dst src np blks outb where
  sh_post_data: "p < np \<Longrightarrow> b < length blks \<Longrightarrow> cnt y p = 6 * b \<Longrightarrow>
     sshift_step eager dst src np blks outb y (y\<lparr>cnt := (cnt y)(p := 6 * b + 1)\<rparr>)"
| sh_post_token: "p < np \<Longrightarrow> b < length blks \<Longrightarrow> cnt y p = 6 * b + 1 \<Longrightarrow>
     sshift_step eager dst src np blks outb y (y\<lparr>cnt := (cnt y)(p := 6 * b + 2)\<rparr>)"
| sh_send_token: "p < np \<Longrightarrow> b < length blks \<Longrightarrow> cnt y p = 6 * b + 2 \<Longrightarrow>
     eager \<or> 6 * b + 2 \<le> cnt y (src p) \<Longrightarrow>
     sshift_step eager dst src np blks outb y (y\<lparr>cnt := (cnt y)(p := 6 * b + 3)\<rparr>)"
| sh_wait_token: "p < np \<Longrightarrow> b < length blks \<Longrightarrow> cnt y p = 6 * b + 3 \<Longrightarrow>
     6 * b + 3 \<le> cnt y (dst p) \<Longrightarrow>
     sshift_step eager dst src np blks outb y (y\<lparr>cnt := (cnt y)(p := 6 * b + 4)\<rparr>)"
| sh_send_data: "p < np \<Longrightarrow> b < length blks \<Longrightarrow> cnt y p = 6 * b + 4 \<Longrightarrow>
     eager \<or> 6 * b + 1 \<le> cnt y (dst p) \<Longrightarrow> blks ! b = (nb, nsize) \<Longrightarrow>
     sshift_step eager dst src np blks outb y
       (y\<lparr>cnt := (cnt y)(p := 6 * b + 5),
         inb := (inb y)(dst p := store (inb y (dst p)) nb (take nsize (drop nb (outb p))))\<rparr>)"
| sh_wait_data: "p < np \<Longrightarrow> b < length blks \<Longrightarrow> cnt y p = 6 * b + 5 \<Longrightarrow>
     6 * b + 5 \<le> cnt y (src p) \<Longrightarrow>
     sshift_step eager dst src np blks outb y (y\<lparr>cnt := (cnt y)(p := 6 * b + 6)\<rparr>)"

inductive sshift_run ::
  "bool \<Rightarrow> (nat \<Rightarrow> nat) \<Rightarrow> (nat \<Rightarrow> nat) \<Rightarrow> nat \<Rightarrow> (nat \<times> nat) list \<Rightarrow> (nat \<Rightarrow> 'a list) \<Rightarrow>
   (nat \<Rightarrow> 'a list) \<Rightarrow> 'a shift_st \<Rightarrow> bool"
  for eager dst src np blks outb in0 where
  sh_start: "sshift_run eager dst src np blks outb in0 \<lparr>cnt = (\<lambda>_. 0), inb = in0\<rparr>"
| sh_more: "sshift_run eager dst src np blks outb in0 y \<Longrightarrow> sshift_step eager dst src np blks outb y z \<Longrightarrow>
     sshift_run eager dst src np blks outb in0 z"

text \<open>The processes form rings: \<open>src\<close> and \<open>dst\<close> are inverse on them.\<close>

definition rings :: "(nat \<Rightarrow> nat) \<Rightarrow> (nat \<Rightarrow> nat) \<Rightarrow> nat \<Rightarrow> bool" where
  "rings dst src np \<longleftrightarrow> (\<forall>p < np. dst p < np \<and> src p < np \<and> src (dst p) = p \<and> dst (src p) = p)"

definition blocks_sent :: "nat \<Rightarrow> nat" where
  "blocks_sent c = (c + 1) div 6"

definition counts_ok :: "(nat \<Rightarrow> nat) \<Rightarrow> (nat \<Rightarrow> nat) \<Rightarrow> nat \<Rightarrow> nat \<Rightarrow> (nat \<Rightarrow> nat) \<Rightarrow> bool" where
  "counts_ok dst src np nblk c \<longleftrightarrow> (\<forall>p < np. c p \<le> 6 * nblk
     \<and> (\<forall>b. 6 * b + 4 \<le> c p \<longrightarrow> 6 * b + 3 \<le> c (dst p))
     \<and> (\<forall>b. 6 * b + 6 \<le> c p \<longrightarrow> 6 * b + 5 \<le> c (src p)))"

definition data_ok ::
  "(nat \<Rightarrow> nat) \<Rightarrow> nat \<Rightarrow> nat \<Rightarrow> nat \<Rightarrow> (nat \<Rightarrow> 'a list) \<Rightarrow> (nat \<Rightarrow> 'a list) \<Rightarrow> 'a shift_st \<Rightarrow> bool"
where
  "data_ok src np m n outb in0 y \<longleftrightarrow> (\<forall>q < np. length (inb y q) = length (in0 q)
     \<and> (\<forall>i < length (in0 q). inb y q ! i =
          (if i < n \<and> i div m < blocks_sent (cnt y (src q)) then outb (src q) ! i else in0 q ! i)))"

lemma counts_step:
  assumes ok: "counts_ok dst src np nblk c" and p: "c p = 6 * b + k" "k < 6" "b < nblk"
    and token: "k = 3 \<Longrightarrow> 6 * b + 3 \<le> c (dst p)" and data: "k = 5 \<Longrightarrow> 6 * b + 5 \<le> c (src p)"
    and j: "j = Suc (c p)"
  shows "counts_ok dst src np nblk (c(p := j))"
proof -
  let ?c = "c(p := Suc (c p))"
  have mono: "c q \<le> ?c q" for q by simp
  have "?c q \<le> 6 * nblk \<and> (6 * b' + 4 \<le> ?c q \<longrightarrow> 6 * b' + 3 \<le> ?c (dst q))
     \<and> (6 * b' + 6 \<le> ?c q \<longrightarrow> 6 * b' + 5 \<le> ?c (src q))" if q: "q < np" for q b'
  proof -
    have old: "c q \<le> 6 * nblk" "6 * b' + 4 \<le> c q \<longrightarrow> 6 * b' + 3 \<le> c (dst q)"
      "6 * b' + 6 \<le> c q \<longrightarrow> 6 * b' + 5 \<le> c (src q)" using ok q by (simp_all add: counts_ok_def)
    show ?thesis
    proof (cases "q = p")
      case False
      with old mono [of "dst q"] mono [of "src q"] show ?thesis by auto
    next
      case True
      have "6 * b' + 3 \<le> c (dst p)" if "6 * b' + 4 \<le> Suc (c p)"
      proof (cases "6 * b' + 4 \<le> c p")
        case False
        with that p have "b' = b" "k = 3" by presburger+
        with token show ?thesis by simp
      qed (use old True in simp)
      moreover have "6 * b' + 5 \<le> c (src p)" if "6 * b' + 6 \<le> Suc (c p)"
      proof (cases "6 * b' + 6 \<le> c p")
        case False
        with that p have "b' = b" "k = 5" by presburger+
        with data show ?thesis by simp
      qed (use old True in simp)
      moreover have "Suc (c p) \<le> 6 * nblk" using p by simp
      ultimately show ?thesis using True mono [of "dst p"] mono [of "src p"] by auto
    qed
  qed
  then show ?thesis unfolding counts_ok_def j by blast
qed

lemma data_keep:
  assumes "data_ok src np m n outb in0 y" and "cnt y p = 6 * b + k" and "k < 6" and "k \<noteq> 4"
    and j: "j = Suc (6 * b + k)"
  shows "data_ok src np m n outb in0 (y\<lparr>cnt := (cnt y)(p := j)\<rparr>)"
proof -
  have "blocks_sent (Suc (6 * b + k)) = blocks_sent (6 * b + k)"
  proof -
    have "(6 * b + (k + 1)) div 6 = b + (k + 1) div 6" "(6 * b + (k + 2)) div 6 = b + (k + 2) div 6" by simp_all
    moreover have "(k + 2) div 6 = (k + 1) div 6"
    proof (cases "k = 5")
      case False
      with assms(3,4) have "k \<le> 3" by linarith
      then show ?thesis by simp
    qed simp
    ultimately show ?thesis by (simp add: blocks_sent_def)
  qed
  then have "blocks_sent (((cnt y)(p := Suc (6 * b + k))) q) = blocks_sent (cnt y q)" for q
    using assms(2) by simp
  with assms(1) show ?thesis by (simp add: data_ok_def j)
qed

lemma data_block:
  assumes ok: "data_ok src np m n outb in0 y" and r: "rings dst src np" and p: "p < np"
    and c: "cnt y p = 6 * b + 4" and b: "b * m < n" and m: "0 < m"
    and len: "n \<le> length (outb p)" "n \<le> length (in0 (dst p))"
  shows "data_ok src np m n outb in0
     (y\<lparr>cnt := (cnt y)(p := 6 * b + 5),
        inb := (inb y)(dst p := store (inb y (dst p)) (b * m) (take (min (n - b * m) m) (drop (b * m) (outb p))))\<rparr>)"
proof -
  let ?blk = "take (min (n - b * m) m) (drop (b * m) (outb p))"
  have lb: "length ?blk = min (n - b * m) m" using len(1) by auto
  have sd: "src (dst p) = p" "dst p < np" using r p by (simp_all add: rings_def)
  have inj: "q = dst p" if "q < np" "src q = p" for q
    using r that unfolding rings_def by metis
  have old: "length (inb y (dst p)) = length (in0 (dst p))"
    "\<And>i. i < length (in0 (dst p)) \<Longrightarrow> inb y (dst p) ! i
       = (if i < n \<and> i div m < b then outb p ! i else in0 (dst p) ! i)"
    using ok sd c by (simp_all add: data_ok_def blocks_sent_def)
  have fits: "b * m + length ?blk \<le> length (inb y (dst p))" using lb old(1) len(2) b by auto
  have new: "store (inb y (dst p)) (b * m) ?blk ! i
      = (if i < n \<and> i div m < Suc b then outb p ! i else in0 (dst p) ! i)" if i: "i < length (in0 (dst p))" for i
  proof -
    have blk: "b * m \<le> i \<and> i < b * m + length ?blk \<longleftrightarrow> i < n \<and> i div m = b"
    proof -
      have "b * m \<le> i \<and> i < b * m + m \<longleftrightarrow> i div m = b"
        by (rule div_block [OF m])
      then show ?thesis unfolding lb using b by auto
    qed
    have "store (inb y (dst p)) (b * m) ?blk ! i = (if i < n \<and> i div m = b then ?blk ! (i - b * m)
        else inb y (dst p) ! i)"
      using nth_store [OF fits, of i] i old(1) blk by simp
    moreover have "?blk ! (i - b * m) = outb p ! i" if "i < n \<and> i div m = b"
    proof -
      have "b * m \<le> i" "i - b * m < min (n - b * m) m" using that blk lb by linarith+
      moreover have "b * m \<le> length (outb p)" using b len(1) by linarith
      ultimately show ?thesis by (simp only: nth_take nth_drop le_add_diff_inverse)
    qed
    ultimately show ?thesis using old(2) [OF i] by (auto simp: less_Suc_eq)
  qed
  have other: "src q \<noteq> p" if "q < np" "q \<noteq> dst p" for q using inj that by blast
  show ?thesis
    unfolding data_ok_def
  proof (intro allI impI)
    fix q assume q: "q < np"
    show "length (inb (y\<lparr>cnt := (cnt y)(p := 6 * b + 5), inb := (inb y)(dst p := store (inb y (dst p)) (b * m) ?blk)\<rparr>) q)
          = length (in0 q) \<and> (\<forall>i < length (in0 q).
        inb (y\<lparr>cnt := (cnt y)(p := 6 * b + 5), inb := (inb y)(dst p := store (inb y (dst p)) (b * m) ?blk)\<rparr>) q ! i
        = (if i < n \<and> i div m < blocks_sent (cnt (y\<lparr>cnt := (cnt y)(p := 6 * b + 5),
             inb := (inb y)(dst p := store (inb y (dst p)) (b * m) ?blk)\<rparr>) (src q)) then outb (src q) ! i else in0 q ! i))"
    proof (cases "q = dst p")
      case True
      with new old(1) fits sd show ?thesis by (simp add: length_store blocks_sent_def)
    next
      case False
      with other [OF q False] ok q show ?thesis by (simp add: data_ok_def)
    qed
  qed
qed

lemma sshift_inv:
  assumes run: "sshift_run eager dst src np (sshift_blocks m n 0) outb in0 y"
    and r: "rings dst src np" and m: "0 < m"
    and len: "\<forall>p < np. n \<le> length (outb p) \<and> n \<le> length (in0 p)"
  shows "counts_ok dst src np ((n + m - 1) div m) (cnt y) \<and> data_ok src np m n outb in0 y"
  using run
proof induction
  case sh_start
  show ?case by (simp add: counts_ok_def data_ok_def blocks_sent_def)
next
  case (sh_more y z)
  let ?nblk = "(n + m - 1) div m"
  have blks: "length (sshift_blocks m n 0) = ?nblk"
    "b < ?nblk \<Longrightarrow> sshift_blocks m n 0 ! b = (b * m, min (n - b * m) m)" for b
    using m by (simp_all add: sshift_blocks_all)
  have C: "counts_ok dst src np ?nblk (cnt y)" and D: "data_ok src np m n outb in0 y"
    using sh_more.IH by simp_all
  from sh_more.hyps(2) show ?case
  proof cases
    case (sh_post_data p b)
    then show ?thesis using counts_step [OF C, of p b 0 "6 * b + 1"] data_keep [OF D, of p b 0 "6 * b + 1"] blks
      by (simp add: fun_upd_def)
  next
    case (sh_post_token p b)
    then show ?thesis using counts_step [OF C, of p b 1 "6 * b + 2"] data_keep [OF D, of p b 1 "6 * b + 2"] blks
      by (simp add: fun_upd_def)
  next
    case (sh_send_token p b)
    then show ?thesis using counts_step [OF C, of p b 2 "6 * b + 3"] data_keep [OF D, of p b 2 "6 * b + 3"] blks
      by (simp add: fun_upd_def)
  next
    case (sh_wait_token p b)
    then show ?thesis using counts_step [OF C, of p b 3 "6 * b + 4"] data_keep [OF D, of p b 3 "6 * b + 4"] blks
      by (simp add: fun_upd_def)
  next
    case (sh_send_data p b nb nsize)
    have "b < ?nblk" using sh_send_data blks by simp
    with sh_send_data(6) blks(2) have "(nb, nsize) = (b * m, min (n - b * m) m)" by metis
    then have e: "nb = b * m" "nsize = min (n - b * m) m" by (simp_all only: prod.inject)
    moreover have "b < ?nblk" by fact
    moreover from this have "b * m < n"
    proof -
      have "Suc b * m \<le> n + m - 1" using \<open>b < ?nblk\<close> m by (simp add: Suc_le_eq [symmetric] less_eq_div_iff_mult_less_eq)
      then show ?thesis using m by simp
    qed
    moreover have "dst p < np" using r sh_send_data by (simp add: rings_def)
    ultimately show ?thesis
      using counts_step [OF C, of p b 4 "6 * b + 5"] data_block [OF D r, of p b] sh_send_data(1-5) m len
      by (simp add: fun_upd_def)
  next
    case (sh_wait_data p b)
    then show ?thesis using counts_step [OF C, of p b 5 "6 * b + 6"] data_keep [OF D, of p b 5 "6 * b + 6"] blks
      by (simp add: fun_upd_def)
  qed
qed

text \<open>A process that is furthest behind can always go on.\<close>

lemma sshift_slowest_moves:
  assumes p: "p < np" "cnt y p < 6 * length blks"
    and d: "cnt y p \<le> cnt y (dst p)" "cnt y p \<le> cnt y (src p)"
  shows "\<exists>z. sshift_step eager dst src np blks outb y z"
proof -
  obtain b k where bk: "cnt y p = 6 * b + k" "k < 6"
    by (metis mod_less_divisor mult_div_mod_eq zero_less_numeral)
  then have b: "b < length blks" using p(2) by linarith
  obtain nb nsize where blk: "blks ! b = (nb, nsize)" by fastforce
  from bk(2) consider "k = 0" | "k = 1" | "k = 2" | "k = 3" | "k = 4" | "k = 5" by linarith
  then show ?thesis
  proof cases
    case 1 show ?thesis by (rule exI, rule sh_post_data [OF p(1) b]) (use bk 1 in auto)
  next
    case 2 show ?thesis by (rule exI, rule sh_post_token [OF p(1) b]) (use bk 2 in auto)
  next
    case 3 show ?thesis by (rule exI, rule sh_send_token [OF p(1) b]) (use bk d 3 in auto)
  next
    case 4 show ?thesis by (rule exI, rule sh_wait_token [OF p(1) b]) (use bk d 4 in auto)
  next
    case 5 show ?thesis by (rule exI, rule sh_send_data [OF p(1) b _ _ blk]) (use bk d 5 in auto)
  next
    case 6 show ?thesis by (rule exI, rule sh_wait_data [OF p(1) b]) (use bk d 6 in auto)
  qed
qed

lemma sshift_progress:
  assumes C: "counts_ok dst src np (length blks) (cnt y)" and r: "rings dst src np"
  shows "(\<forall>p < np. cnt y p = 6 * length blks) \<or> (\<exists>z. sshift_step eager dst src np blks outb y z)"
proof (cases "\<forall>p < np. cnt y p = 6 * length blks")
  case False
  have le: "p < np \<Longrightarrow> cnt y p \<le> 6 * length blks" for p using C by (simp add: counts_ok_def)
  from False obtain p0 where "p0 < np" "cnt y p0 < 6 * length blks" using le by (metis le_neq_implies_less)
  then have "\<exists>p. (p < np \<and> cnt y p < 6 * length blks)
      \<and> (\<forall>q. q < np \<and> cnt y q < 6 * length blks \<longrightarrow> cnt y p \<le> cnt y q)"
    by (intro ex_has_least_nat [of _ p0]) simp
  then obtain p where p: "p < np" "cnt y p < 6 * length blks"
    and least: "q < np \<Longrightarrow> cnt y q < 6 * length blks \<Longrightarrow> cnt y p \<le> cnt y q" for q by blast
  then have min: "q < np \<Longrightarrow> cnt y p \<le> cnt y q" for q by (cases "cnt y q < 6 * length blks") auto
  have "dst p < np" "src p < np" using r p(1) by (simp_all add: rings_def)
  with sshift_slowest_moves [OF p] min show ?thesis by blast
qed simp

lemma sshift_preposted:
  assumes C: "counts_ok dst src np nblk c" and r: "rings dst src np"
    and p: "p < np" "c p = 6 * b + 4"
  shows "6 * b + 2 \<le> c (dst p) \<and> c (dst p) < 6 * b + 6"
proof -
  have d: "dst p < np" "src (dst p) = p" using r p(1) by (simp_all add: rings_def)
  have C: "q < np \<Longrightarrow> 6 * b + 4 \<le> c q \<Longrightarrow> 6 * b + 3 \<le> c (dst q)"
    "q < np \<Longrightarrow> 6 * b + 6 \<le> c q \<Longrightarrow> 6 * b + 5 \<le> c (src q)" for q b
    using C by (simp_all add: counts_ok_def)
  have "c (dst p) < 6 * b + 6"
  proof (rule ccontr)
    assume "\<not> c (dst p) < 6 * b + 6"
    with C(2) [of "dst p" b] d have "6 * b + 5 \<le> c p" by simp
    with p(2) show False by simp
  qed
  with C(1) [OF p(1), of b] p(2) show ?thesis by simp
qed

lemma sshift_done:
  assumes C: "counts_ok dst src np ((n + m - 1) div m) (cnt y)" and D: "data_ok src np m n outb in0 y"
    and m: "0 < m" and len: "n \<le> length (outb (src p))" "n \<le> length (in0 p)"
    and p: "p < np" "cnt y p = 6 * ((n + m - 1) div m)"
  shows "inb y p = take n (outb (src p)) @ drop n (in0 p)"
proof -
  let ?nblk = "(n + m - 1) div m"
  have D: "length (inb y p) = length (in0 p)"
    "i < length (in0 p) \<Longrightarrow> inb y p ! i =
       (if i < n \<and> i div m < blocks_sent (cnt y (src p)) then outb (src p) ! i else in0 p ! i)" for i
    using D p(1) by (simp_all add: data_ok_def)
  have "i div m < blocks_sent (cnt y (src p))" if "i < n" for i
  proof -
    have "Suc (i div m) \<le> ?nblk"
      using that m div_times_less_eq_dividend [of i m]
      by (simp only: less_eq_div_iff_mult_less_eq mult_Suc)
    then obtain b where b: "?nblk = Suc b" "i div m \<le> b" by (cases ?nblk) auto
    then have "6 * b + 5 \<le> cnt y (src p)" using C p by (simp add: counts_ok_def)
    then have "(6 * b + 6) div 6 \<le> blocks_sent (cnt y (src p))"
      unfolding blocks_sent_def by (intro div_le_mono) simp
    with b show ?thesis by simp
  qed
  with D show ?thesis using len by (intro nth_equalityI) (auto simp: nth_append min_def)
qed

text \<open>
  C7.  \<open>MP_SShift\<close> is right: when all processes of a ring shift, in any interleaving, with buffering
  sends or with sends that wait for their receive,
  (1) some process can go on until all have finished,
  (2) whenever a block is sent, its receive is posted and the receiver has not moved on to the
  next block, as the handshake promises, and
  (3) a process that has finished holds the data of its source, and nothing else is changed.
\<close>

theorem sshift_delivers:
  assumes run: "sshift_run eager dst src np (sshift_blocks m n 0) outb in0 y"
    and r: "rings dst src np" and m: "0 < m"
    and len: "\<forall>p < np. n \<le> length (outb p) \<and> n \<le> length (in0 p)"
  shows "((\<forall>p < np. cnt y p = 6 * length (sshift_blocks m n 0))
            \<or> (\<exists>z. sshift_step eager dst src np (sshift_blocks m n 0) outb y z))
       \<and> (\<forall>p < np. \<forall>b. cnt y p = 6 * b + 4 \<longrightarrow> 6 * b + 2 \<le> cnt y (dst p) \<and> cnt y (dst p) < 6 * b + 6)
       \<and> (\<forall>p < np. cnt y p = 6 * length (sshift_blocks m n 0) \<longrightarrow>
            inb y p = take n (outb (src p)) @ drop n (in0 p))"
proof (intro conjI allI impI)
  have blks: "length (sshift_blocks m n 0) = (n + m - 1) div m" using m by (simp add: sshift_blocks_all)
  have C: "counts_ok dst src np ((n + m - 1) div m) (cnt y)" and D: "data_ok src np m n outb in0 y"
    using sshift_inv [OF assms] by simp_all
  show "(\<forall>p < np. cnt y p = 6 * length (sshift_blocks m n 0))
      \<or> (\<exists>z. sshift_step eager dst src np (sshift_blocks m n 0) outb y z)"
    using C unfolding blks [symmetric] by (rule sshift_progress [OF _ r])
  fix p assume p: "p < np"
  show "6 * b + 2 \<le> cnt y (dst p)" "cnt y (dst p) < 6 * b + 6" if "cnt y p = 6 * b + 4" for b
    using sshift_preposted [OF C r p that] by simp_all
  have "src p < np" using r p by (simp add: rings_def)
  then show "inb y p = take n (outb (src p)) @ drop n (in0 p)"
    if "cnt y p = 6 * length (sshift_blocks m n 0)"
    using sshift_done [OF C D m _ _ p] that len p unfolding blks by blast
qed

theorem sshift_delivers_witness:
  "\<exists>z. sshift_step False (\<lambda>p. 1 - p) (\<lambda>p. 1 - p) 2 (sshift_blocks 2 3 0) (\<lambda>p. [p, p, p])
     \<lparr>cnt = (\<lambda>_. 0), inb = (\<lambda>_. [9, 9, 9, 9])\<rparr> z"
proof -
  let ?y = "\<lparr>cnt = (\<lambda>_. 0), inb = (\<lambda>_. [9 :: nat, 9, 9, 9])\<rparr>" and ?out = "\<lambda>p :: nat. [p, p, p]"
  have r: "rings (\<lambda>p. 1 - p) (\<lambda>p. 1 - p) 2" by (auto simp: rings_def)
  have "(\<forall>p < 2. cnt ?y p = 6 * length (sshift_blocks 2 3 0))
      \<or> (\<exists>z. sshift_step False (\<lambda>p. 1 - p) (\<lambda>p. 1 - p) 2 (sshift_blocks 2 3 0) ?out ?y z)"
    by (rule sshift_delivers [OF sh_start r, THEN conjunct1]) simp_all
  moreover have "length (sshift_blocks 2 3 0) = 2" by (simp add: sshift_blocks_all)
  moreover have "(0 :: nat) < 2" by simp
  ultimately show ?thesis by fastforce
qed

theorem typed_counts_witness:
  "MP_dSend 0 (7 + 2 ^ 29) 1 5 = MP_Send 0 56 1 5"
  using typed_counts [of 7 0 1 5 4] by simp

subsection \<open>The two processes of a synchronous send\<close>

text \<open>
  \<open>s\<close> and \<open>r\<close> count the calls that \<open>MP_SSend\<close> and \<open>MP_SRecv\<close> have completed.
\<close>

inductive ssend_step :: "bool \<Rightarrow> nat \<times> nat \<Rightarrow> nat \<times> nat \<Rightarrow> bool" for eager where
  s_token: "2 \<le> r \<Longrightarrow> ssend_step eager (0, r) (1, r)"
| s_data: "eager \<or> 1 \<le> r \<Longrightarrow> ssend_step eager (1, r) (2, r)"
| r_post: "ssend_step eager (s, 0) (s, 1)"
| r_token: "ssend_step eager (s, 1) (s, 2)"
| r_wait: "s = 2 \<Longrightarrow> ssend_step eager (s, 2) (s, 3)"

text \<open>
  The receive of a synchronous send is posted before the data leaves, so the data needs no
  buffer, and the two sides always finish together.
\<close>

theorem ssend_preposted:
  assumes "(ssend_step eager)\<^sup>*\<^sup>* (0, 0) (s, r)"
  shows "(1 \<le> s \<longrightarrow> 2 \<le> r) \<and> (r = 3 \<longrightarrow> s = 2) \<and> s \<le> 2 \<and> r \<le> 3
    \<and> ((s, r) = (2, 3) \<or> (\<exists>z. ssend_step eager (s, r) z))"
proof -
  have inv: "(1 \<le> s \<longrightarrow> 2 \<le> r) \<and> (r = 3 \<longrightarrow> s = 2) \<and> s \<le> 2 \<and> r \<le> 3"
    using assms
    by (induction rule: rtranclp_induct2) (auto elim!: ssend_step.cases)
  then consider "r = 0" | "r = 1" | "r = 2" "s = 0" | "r = 2" "s = 1" | "r = 2" "s = 2" | "r = 3" "s = 2"
    by linarith
  then have "(s, r) = (2, 3) \<or> (\<exists>z. ssend_step eager (s, r) z)"
    using s_token [of r eager] s_data [of eager r] r_post [of eager s] r_token [of eager s] r_wait [of s eager]
    by cases fastforce+
  with inv show ?thesis by blast
qed

theorem ssend_preposted_witness:
  "\<exists>z. ssend_step False (0, 2) z"
proof -
  have "(ssend_step False)\<^sup>*\<^sup>* (0, 0) (0, 1)" using r_post by blast
  then have "(ssend_step False)\<^sup>*\<^sup>* (0, 0) (0, 2)" using r_token by (rule rtranclp.rtrancl_into_rtrancl)
  from ssend_preposted [OF this] show ?thesis by simp
qed

end
