(* ===== verification/Status.thy ===== *)
theory Status
  imports Prelude
begin

text \<open>
  How the processes of MP_Lite tell each other about their state, \<open>MP_Lite/mpcore.c\<close>: the file
  \<open>.mplite.status\<close>, whose first 80 characters hold the status of the job and whose next lines of
  80 characters belong to one process each, the error routines, the watchdog \<open>stall_check\<close>, and
  \<open>MP_Set\<close>.  The file is a list of characters, or \<open>None\<close> when it cannot be opened.
\<close>

section \<open>Formatted output\<close>

definition blanks :: "nat \<Rightarrow> string" where
  "blanks n = replicate n (CHR '' '')"

text \<open>The formats \<open>%4d\<close>, \<open>%-10s\<close> and \<open>%-60s\<close>: a width is a minimum, nothing is cut off.\<close>

definition pad_left :: "nat \<Rightarrow> string \<Rightarrow> string" where
  "pad_left w s = blanks (w - length s) @ s"

definition pad_right :: "nat \<Rightarrow> string \<Rightarrow> string" where
  "pad_right w s = s @ blanks (w - length s)"

section \<open>The file\<close>

text \<open>\<open>fseek\<close> and \<open>fprintf\<close> in mode \<open>r+\<close>: overwrite, and grow the file at its end.\<close>

definition write_at :: "nat \<Rightarrow> string \<Rightarrow> string \<Rightarrow> string" where
  "write_at pos xs f =
     take pos f @ replicate (pos - length f) (CHR 0x00) @ xs @ drop (pos + length xs) f"

definition newline :: string where "newline = [CHR 0x0A]"

definition status_header :: string where
  "status_header = ''Status: Running     '' @ newline @ '' Node   Status     Messages                               '' @ newline"

definition node_line :: "nat \<Rightarrow> string" where
  "node_line node = '' '' @ pad_left 4 (show_nat node) @ blanks 74 @ newline"

definition status_text :: "nat \<Rightarrow> string \<Rightarrow> string \<Rightarrow> string" where
  "status_text myproc status message =
     '' '' @ pad_left 4 (show_nat myproc) @ ''  '' @ pad_right 10 status @ '' '' @ pad_right 60 message"

text \<open>The result says whether the process exits.\<close>

definition set_status :: "nat \<Rightarrow> int \<Rightarrow> string \<Rightarrow> string \<Rightarrow> string option \<Rightarrow> string option \<times> bool" where
  "set_status myproc abort status message file = (case file of
     None \<Rightarrow> (None, False)
   | Some f \<Rightarrow>
       let f1 = (if abort < 0 then write_at 0 ''Status: ABORT    '' f else f);
           f2 = write_at (80 * (myproc + 1)) (blanks 79) f1;
           f3 = write_at (80 * (myproc + 1)) (status_text myproc status message) f2
       in (Some f3, abort < 0))"

definition initial_status_file :: "nat \<Rightarrow> string" where
  "initial_status_file nprocs = status_header @ concat (map node_line [0..<nprocs])"

text \<open>
  Process 0 creates the file (if it can), the others wait for it; then each logs \<open>starting\<close>.
\<close>

definition initialize_status_file :: "nat \<Rightarrow> nat \<Rightarrow> bool \<Rightarrow> string option \<Rightarrow> string option \<times> bool" where
  "initialize_status_file nprocs myproc can_write file =
     (let f = (if myproc = 0 \<and> can_write then Some (initial_status_file nprocs) else file)
      in set_status myproc 0 ''starting'' [] f)"

text \<open>\<open>fscanf\<close> with \<open>%*s %s\<close>: the second word.\<close>

definition second_word :: "string \<Rightarrow> string" where
  "second_word f = takeWhile (\<lambda>c. \<not> is_space c)
     (dropWhile is_space (dropWhile (\<lambda>c. \<not> is_space c) (dropWhile is_space f)))"

definition check_status :: "nat \<Rightarrow> string option \<Rightarrow> string option \<times> bool" where
  "check_status myproc file = (case file of
     None \<Rightarrow> (None, False)
   | Some f \<Rightarrow>
       if second_word f = ''ABORT''
       then (fst (set_status myproc 0 ''aborting'' ''An ABORT signal was set by another process'' file), True)
       else (file, False))"

text \<open>
  \<open>errorx\<close> logs and ends through \<open>set_status\<close>.  \<open>errorxs\<close> exits in any case; when \<open>set_status\<close> has
  returned it writes to the log if the log is not open.
\<close>

definition errorx :: "nat \<Rightarrow> string \<Rightarrow> string option \<Rightarrow> string option \<times> bool" where
  "errorx myproc msg file = set_status myproc (- 1) ''ERROR'' msg file"

definition errorxs :: "nat \<Rightarrow> bool \<Rightarrow> string \<Rightarrow> string option \<Rightarrow> (string option \<times> bool) outcome" where
  "errorxs myproc mylog_open msg file =
     (case set_status myproc (- 1) ''ERROR'' msg file of
        (f, True) \<Rightarrow> Inr (f, True)
      | (f, False) \<Rightarrow> if \<not> mylog_open then Inl NullDeref else Inr (f, True))"

section \<open>Lines of the file\<close>

definition line_of :: "nat \<Rightarrow> string \<Rightarrow> string" where
  "line_of node f = take 80 (drop (80 * (node + 1)) f)"

definition file_ok :: "nat \<Rightarrow> string \<Rightarrow> bool" where
  "file_ok nprocs f \<longleftrightarrow> length f = 80 * (nprocs + 1)"

lemma length_write_at: "pos + length xs \<le> length f \<Longrightarrow> length (write_at pos xs f) = length f"
  by (simp add: write_at_def)

lemma write_at_store: "pos \<le> length f \<Longrightarrow> write_at pos xs f = store f pos xs"
  by (simp add: write_at_def store_def)

lemma write_at_outside:
  assumes "pos + length xs \<le> length f" and "a + n \<le> pos \<or> pos + length xs \<le> a"
  shows "take n (drop a (write_at pos xs f)) = take n (drop a f)"
proof (rule nth_equalityI)
  show "length (take n (drop a (write_at pos xs f))) = length (take n (drop a f))"
    using assms(1) by (simp add: length_write_at)
  fix i assume "i < length (take n (drop a (write_at pos xs f)))"
  then have "i < n \<and> i < length f - a" using assms(1) by (simp add: length_write_at)
  then have i: "i < n" "a + i < length f" by linarith+
  then have "store f pos xs ! (a + i) = f ! (a + i)"
    using assms nth_store [OF assms(1) i(2)] by auto
  with i assms(1) show "take n (drop a (write_at pos xs f)) ! i = take n (drop a f) ! i"
    by (simp add: write_at_store length_store)
qed

lemma write_at_inside:
  "pos + length xs \<le> length f \<Longrightarrow> take (length xs) (drop pos (write_at pos xs f)) = xs"
  by (simp add: write_at_def)

lemma write_abort: "17 \<le> length f \<Longrightarrow> take 17 (write_at 0 ''Status: ABORT    '' f) = ''Status: ABORT    ''"
  by (simp add: write_at_def)

type_synonym status_op = "nat \<times> int \<times> string \<times> string"

text \<open>A call that fits: a process of the job, and texts within the widths of the format.\<close>

fun op_ok :: "nat \<Rightarrow> status_op \<Rightarrow> bool" where
  "op_ok nprocs (node, abort, status, message) \<longleftrightarrow>
     node < nprocs \<and> nprocs \<le> 10000 \<and> length status \<le> 10 \<and> length message \<le> 60"

fun apply_op :: "status_op \<Rightarrow> string option \<Rightarrow> string option" where
  "apply_op (node, abort, status, message) file = fst (set_status node abort status message file)"

lemma length_status_text:
  "op_ok nprocs (node, abort, status, message) \<Longrightarrow> length (status_text node status message) = 78"
  using show_nat_length [of 4 node]
  by (simp add: status_text_def pad_left_def pad_right_def blanks_def)

lemma set_status_fits:
  assumes f: "file_ok nprocs f" and ok: "op_ok nprocs (node, abort, status, message)"
  shows "\<exists>f'. apply_op (node, abort, status, message) (Some f) = Some f' \<and> file_ok nprocs f'
     \<and> take 78 (line_of node f') = status_text node status message
     \<and> (\<forall>other. other \<noteq> node \<longrightarrow> line_of other f' = line_of other f)
     \<and> take 17 f' = (if abort < 0 then ''Status: ABORT    '' else take 17 f)"
proof -
  let ?f1 = "if abort < 0 then write_at 0 ''Status: ABORT    '' f else f"
  let ?f2 = "write_at (80 * (node + 1)) (blanks 79) ?f1"
  let ?t = "status_text node status message"
  let ?f3 = "write_at (80 * (node + 1)) ?t ?f2"
  have fits: "80 * (node + 1) + 80 \<le> length f" using f ok by (simp add: file_ok_def)
  have b: "length (blanks 79) = 79" by (simp add: blanks_def)
  note t = length_status_text [OF ok]
  have l1: "length ?f1 = length f" using fits by (simp add: length_write_at)
  have l2: "length ?f2 = length f" using fits l1 b by (subst length_write_at) simp_all
  have l3: "length ?f3 = length f" using fits l2 t by (subst length_write_at) simp_all
  have out: "take n (drop a ?f3) = take n (drop a ?f1)"
    if "a + n \<le> 80 * (node + 1) \<or> 80 * (node + 1) + 79 \<le> a" for a n
  proof -
    have "take n (drop a ?f3) = take n (drop a ?f2)" using that fits l2 t by (intro write_at_outside) auto
    also have "\<dots> = take n (drop a ?f1)" using that fits l1 b by (intro write_at_outside) auto
    finally show ?thesis .
  qed
  have "take 17 ?f3 = take 17 ?f1" using out [of 0 17] by simp
  also have "\<dots> = (if abort < 0 then ''Status: ABORT    '' else take 17 f)"
    using write_abort [of f] fits by simp
  finally have head: "take 17 ?f3 = (if abort < 0 then ''Status: ABORT    '' else take 17 f)" .
  have own: "take 78 (line_of node ?f3) = ?t"
    using write_at_inside [of "80 * (node + 1)" ?t ?f2] fits l2 t by (simp add: line_of_def)
  have "line_of other ?f3 = line_of other f" if "other \<noteq> node" for other
  proof -
    have "80 * (other + 1) + 80 \<le> 80 * (node + 1) \<or> 80 * (node + 1) + 79 \<le> 80 * (other + 1)"
      using that by (cases "other < node") simp_all
    from out [OF this] have "line_of other ?f3 = take 80 (drop (80 * (other + 1)) ?f1)"
      by (simp add: line_of_def)
    also have "\<dots> = line_of other f"
      using write_at_outside [of 0 "''Status: ABORT    ''" f "80 * (other + 1)" 80] fits by (simp add: line_of_def)
    finally show ?thesis .
  qed
  with own head l3 f show ?thesis
    by (intro exI [of _ ?f3]) (simp add: set_status_def Let_def file_ok_def)
qed

lemma length_header: "length status_header = 80"
  by (simp add: status_header_def newline_def)

lemma initial_ok: "nprocs \<le> 10000 \<Longrightarrow> file_ok nprocs (initial_status_file nprocs)"
proof -
  assume n: "nprocs \<le> 10000"
  have "length (node_line i) = 80" if "i < nprocs" for i
    using show_nat_length [of 4 i] that n by (simp add: node_line_def pad_left_def blanks_def newline_def)
  then have "length (concat (map node_line [0..<m])) = 80 * m" if "m \<le> nprocs" for m
    using that by (induction m) simp_all
  then show ?thesis by (simp add: file_ok_def initial_status_file_def length_header)
qed

lemma second_word_cases:
  "take 17 f = ''Status: ABORT    '' \<Longrightarrow> second_word f = ''ABORT''"
  "take 17 f = ''Status: Running  '' \<Longrightarrow> second_word f = ''Running''"
proof -
  have split: "f = take 17 f @ drop 17 f" by simp
  show "second_word f = ''ABORT''" if "take 17 f = ''Status: ABORT    ''"
    by (subst split, subst that) (simp add: second_word_def)
  show "second_word f = ''Running''" if "take 17 f = ''Status: Running  ''"
    by (subst split, subst that) (simp add: second_word_def)
qed

lemma run_status:
  assumes "file_ok nprocs f" and "\<forall>op \<in> set ops. op_ok nprocs op"
  shows "\<exists>f'. fold apply_op ops (Some f) = Some f' \<and> file_ok nprocs f'
     \<and> take 17 f' = (if \<exists>op \<in> set ops. fst (snd op) < 0 then ''Status: ABORT    '' else take 17 f)"
  using assms
proof (induction ops arbitrary: f)
  case (Cons op ops)
  obtain node abort status message where op: "op = (node, abort, status, message)" by (cases op) auto
  with Cons.prems have "op_ok nprocs (node, abort, status, message)" by simp
  from set_status_fits [OF Cons.prems(1) this] obtain f1 where
    f1: "apply_op op (Some f) = Some f1" "file_ok nprocs f1"
      "take 17 f1 = (if abort < 0 then ''Status: ABORT    '' else take 17 f)" unfolding op by blast
  from Cons.IH [OF f1(2)] Cons.prems(2) obtain f' where
    "fold apply_op ops (Some f1) = Some f'" "file_ok nprocs f'"
    "take 17 f' = (if \<exists>op \<in> set ops. fst (snd op) < 0 then ''Status: ABORT    '' else take 17 f1)" by auto
  with f1 op show ?case by auto
qed simp

text \<open>
  An abort reaches everybody: after any sequence of status changes by the processes,
  \<open>check_status\<close> makes every process exit if one of them was an abort, and none if there was no
  abort; and a process overwrites no line but its own, as long as the texts keep to their widths.
\<close>

theorem abort_is_seen:
  assumes "nprocs \<le> 10000" and ops: "\<forall>op \<in> set ops. op_ok nprocs op"
  shows "snd (check_status me (fold apply_op ops (Some (initial_status_file nprocs))))
           \<longleftrightarrow> (\<exists>op \<in> set ops. fst (snd op) < 0)"
proof -
  have "take 17 (initial_status_file nprocs) = ''Status: Running  ''"
    by (simp add: initial_status_file_def status_header_def)
  with run_status [OF initial_ok [OF assms(1)] ops] obtain f' where
    "fold apply_op ops (Some (initial_status_file nprocs)) = Some f'"
    "take 17 f' = (if \<exists>op \<in> set ops. fst (snd op) < 0 then ''Status: ABORT    '' else ''Status: Running  '')"
    by auto
  then show ?thesis
    using second_word_cases [of f'] by (simp add: check_status_def split: if_splits)
qed

theorem abort_is_seen_witness:
  "snd (check_status 2 (fold apply_op [(0, 0, ''starting'', []), (1, - 1, ''ERROR'', ''lost'')]
     (Some (initial_status_file 3))))"
  using abort_is_seen [of 3 "[(0, 0, ''starting'', []), (1, - 1, ''ERROR'', ''lost'')]" 2] by simp

text \<open>
  A process writes its own line only: its status appears there, the lines of the others stay,
  for texts within their widths.
\<close>

theorem status_own_line:
  assumes "file_ok nprocs f" and "op_ok nprocs (node, abort, status, message)"
  shows "\<exists>f'. set_status node abort status message (Some f) = (Some f', abort < 0)
     \<and> take 78 (line_of node f') = status_text node status message
     \<and> (\<forall>other. other \<noteq> node \<longrightarrow> line_of other f' = line_of other f)"
  using set_status_fits [OF assms] by (auto simp: set_status_def Let_def)

theorem status_own_line_witness:
  "\<exists>f'. set_status 1 0 ''starting'' [] (Some (initial_status_file 3)) = (Some f', False)
     \<and> line_of 2 f' = line_of 2 (initial_status_file 3)"
  using status_own_line [OF initial_ok, of 3 1 0 "''starting''" "[]"] by auto

text \<open>
  Without the status file an error is not fatal: \<open>errorx\<close> returns to its caller, which goes on
  as if nothing had happened, although a comment says that it exits; and \<open>errorxs\<close>, whose test of
  the log is inverted, writes through a null pointer when there is no log.
\<close>

theorem errorx_returns_without_file:
  "errorx myproc msg None = (None, False)
   \<and> errorxs myproc True msg None = Inr (None, True) \<and> errorxs myproc False msg None = Inl NullDeref"
  by (simp add: errorx_def errorxs_def set_status_def)

section \<open>The watchdog\<close>

text \<open>
  \<open>stall_check\<close> is called again and again while a message is awaited.  Times are in microseconds;
  \<open>t0\<close> is the caller's variable, the other two are static.  The three arguments are what the
  clock shows when it is read.
\<close>

record stall =
  t0 :: int
  t_old :: int
  write_once :: bool

datatype stall_res = Waits | Warns | Bails

definition PANIC_TIME :: int where "PANIC_TIME = 20000000"
definition BAIL_TIME :: int where "BAIL_TIME = 120000000"

definition stall_check :: "int \<Rightarrow> int \<Rightarrow> int \<Rightarrow> stall \<Rightarrow> stall_res \<times> stall" where
  "stall_check now1 now2 now3 s =
     (let s1 = (if t0 s = 0 then s\<lparr>write_once := True, t0 := now1, t_old := 0\<rparr> else s);
          t = now2 - t0 s1;
          (s2, t') = (if t_old s1 - t > 60000000 then (s1\<lparr>t0 := now3\<rparr>, 0) else (s1, t));
          s3 = s2\<lparr>t_old := t'\<rparr>
      in if t' > BAIL_TIME then (Bails, s3)
         else if t' > PANIC_TIME \<and> write_once s3 then (Warns, s3\<lparr>write_once := False\<rparr>)
         else (Waits, s3))"

fun stall_checks :: "int list \<Rightarrow> stall \<Rightarrow> stall_res list" where
  "stall_checks [] s = []"
| "stall_checks (c # cs) s = (let (r, s') = stall_check c c c s in r # stall_checks cs s')"

lemma stall_later:
  assumes "0 < c" and "t0 s = c" and "t_old s \<le> c1 - c" and "sorted (c1 # cs)"
  shows "stall_checks (c1 # cs) s
    = (if c1 - c > BAIL_TIME then Bails else if c1 - c > PANIC_TIME \<and> write_once s then Warns else Waits)
      # stall_checks cs (s\<lparr>t_old := c1 - c, write_once :=
          (write_once s \<and> (c1 - c > BAIL_TIME \<or> c1 - c \<le> PANIC_TIME))\<rparr>)"
  using assms by (cases s) (auto simp: stall_check_def Let_def)

lemma stall_run:
  "0 < c \<Longrightarrow> t0 s = c \<Longrightarrow> sorted cs \<Longrightarrow> (\<forall>c1 \<in> set cs. t_old s \<le> c1 - c) \<Longrightarrow>
     length (stall_checks cs s) = length cs
   \<and> (\<forall>i < length cs. stall_checks cs s ! i = Bails \<longleftrightarrow> cs ! i - c > BAIL_TIME)
   \<and> count_list (stall_checks cs s) Warns \<le> (if write_once s then 1 else 0)"
proof (induction cs arbitrary: s)
  case (Cons c1 cs)
  let ?s = "s\<lparr>t_old := c1 - c, write_once :=
          (write_once s \<and> (c1 - c > BAIL_TIME \<or> c1 - c \<le> PANIC_TIME))\<rparr>"
  have IH: "length (stall_checks cs ?s) = length cs"
    "\<forall>i < length cs. stall_checks cs ?s ! i = Bails \<longleftrightarrow> cs ! i - c > BAIL_TIME"
    "count_list (stall_checks cs ?s) Warns \<le> (if write_once ?s then 1 else 0)"
    using Cons.IH [of ?s] Cons.prems by auto
  have "stall_checks (c1 # cs) s
    = (if c1 - c > BAIL_TIME then Bails else if c1 - c > PANIC_TIME \<and> write_once s then Warns else Waits)
      # stall_checks cs ?s"
    using Cons.prems by (intro stall_later) auto
  with IH show ?case by (auto simp: nth_Cons' split: if_splits)
qed simp

text \<open>
  The watchdog: when a wait begins at time \<open>c\<close>, exactly the checks made more than 120 seconds
  later abort the job, and at most one warning is given, whatever the times of the checks.  In
  particular the time of a job that was rolled out counts: the reset that the comment describes
  happens only when the clock runs backwards.
\<close>

theorem stall_bails:
  assumes "0 < c" and "sorted (c # cs)" and "t0 s = 0"
  shows "(\<forall>i < length (c # cs). stall_checks (c # cs) s ! i = Bails \<longleftrightarrow> (c # cs) ! i - c > BAIL_TIME)
    \<and> count_list (stall_checks (c # cs) s) Warns \<le> 1"
proof -
  let ?s = "s\<lparr>write_once := True, t0 := c, t_old := 0\<rparr>"
  have "stall_checks (c # cs) s = Waits # stall_checks cs ?s"
    using assms by (cases s) (simp add: stall_check_def BAIL_TIME_def PANIC_TIME_def)
  moreover have "\<forall>c1 \<in> set cs. t_old ?s \<le> c1 - c" "sorted cs" using assms(2) by auto
  ultimately show ?thesis
    using stall_run [of c ?s cs] assms(1)
    by (auto simp: nth_Cons' BAIL_TIME_def)
qed

theorem stall_bails_witness:
  "stall_checks [5000000, 6000000, 206000000] \<lparr>t0 = 0, t_old = 0, write_once = False\<rparr> ! 2 = Bails"
  using stall_bails [of 5000000 "[6000000, 206000000]" "\<lparr>t0 = 0, t_old = 0, write_once = False\<rparr>"]
  by (auto simp: BAIL_TIME_def dest!: spec [of _ 2])

section \<open>Options of the library\<close>

record mp_globals =
  myproc :: int
  nprocs :: int
  debug_level :: int
  last_tag :: int
  last_src :: int
  last_size :: int

definition MP_Nprocs :: "mp_globals \<Rightarrow> int" where "MP_Nprocs g = nprocs g"
definition MP_Myproc :: "mp_globals \<Rightarrow> int" where "MP_Myproc g = myproc g"
definition MP_Get_Last_Tag :: "mp_globals \<Rightarrow> int" where "MP_Get_Last_Tag g = last_tag g"
definition MP_Get_Last_Source :: "mp_globals \<Rightarrow> int" where "MP_Get_Last_Source g = last_src g"
definition MP_Get_Last_Size :: "mp_globals \<Rightarrow> int" where "MP_Get_Last_Size g = last_size g"

text \<open>\<open>MP_Set\<close> answers with the warning that it logs, if any.\<close>

definition MP_Set :: "string \<Rightarrow> int \<Rightarrow> mp_globals \<Rightarrow> mp_globals \<times> string option" where
  "MP_Set var val g =
     (if var = ''debug'' \<or> var = ''DEBUG'' \<or> var = ''Debug''
      then (if val \<ge> 0 \<and> val \<le> 3 then (g\<lparr>debug_level := val\<rparr>, None)
            else (g, Some ''MP_Set(debug, #) - value out of the range 0-3''))
      else (g, Some ''MP_Set(???,value) - Unknown parameter.''))"

definition MP_Set_Debug :: "int \<Rightarrow> mp_globals \<Rightarrow> mp_globals" where
  "MP_Set_Debug val g = g\<lparr>debug_level := val\<rparr>"

text \<open>
  \<open>MP_Set\<close> keeps the debug level in its range, \<open>MP_Set_Debug\<close> does not.
\<close>

theorem MP_Set_keeps_level:
  assumes "0 \<le> debug_level g \<and> debug_level g \<le> 3"
  shows "0 \<le> debug_level (fst (MP_Set var val g)) \<and> debug_level (fst (MP_Set var val g)) \<le> 3
    \<and> debug_level (MP_Set_Debug 99 g) = 99"
  using assms by (simp add: MP_Set_def MP_Set_Debug_def)

theorem MP_Set_keeps_level_witness:
  "debug_level (fst (MP_Set ''debug'' 7 \<lparr>myproc = 0, nprocs = 2, debug_level = 1, last_tag = 0,
     last_src = 0, last_size = 0\<rparr>)) \<le> 3"
  using MP_Set_keeps_level [of "\<lparr>myproc = 0, nprocs = 2, debug_level = 1, last_tag = 0,
     last_src = 0, last_size = 0\<rparr>" "''debug''" 7] by simp

end
