(* ===== verification/Utils.thy ===== *)
theory Utils
  imports Prelude
begin

text \<open>
  \<open>MP_Lite/utils.c\<close>, shared by the network modules of MP_Lite: how a message is split over the
  network cards, how it is pushed into send buffers, the message headers, and how the sockets
  between the processes are made.
\<close>

section \<open>Messages\<close>

definition MAX_NICS :: nat where "MAX_NICS = 4"
definition MIN_SPLIT :: int where "MIN_SPLIT = 1500"

text \<open>\<open>sizeof(struct MP_msg_header)\<close>: three \<open>int\<close>s, padding, a pointer.\<close>

definition HDRSIZE :: int where "HDRSIZE = 24"

text \<open>A place in memory: in the user's memory, or in the send buffer of a card.\<close>

datatype place = User int | Sendbuf nat int

fun place_add :: "place \<Rightarrow> int \<Rightarrow> place" where
  "place_add (User a) n = User (a + n)"
| "place_add (Sendbuf i a) n = Sendbuf i (a + n)"

record msg_entry =
  m_nbytes :: int
  m_src :: int
  m_tag :: int
  m_dest_ptr :: int
  m_buf :: int
  m_ptr :: "place list"
  m_nleft :: int
  m_nbl :: "int list"
  m_nhdr :: int
  m_send_flag :: int

text \<open>The two lists have an entry for each of the \<open>MAX_NICS\<close> cards, of which \<open>nics\<close> are used.\<close>

definition set_message :: "nat \<Rightarrow> int \<Rightarrow> int \<Rightarrow> int \<Rightarrow> msg_entry \<Rightarrow> msg_entry" where
  "set_message nics nbytes src tag msg =
     (let m1 = msg\<lparr>m_src := src, m_tag := tag, m_nbytes := nbytes, m_nbl := (m_nbl msg)[0 := nbytes],
                m_nleft := nbytes + HDRSIZE, m_ptr := (m_ptr msg)[0 := User (m_buf msg)],
                m_nhdr := HDRSIZE\<rparr>
      in if nbytes > MIN_SPLIT \<and> nics > 1
         then let part = c_div (c_div nbytes 8) (int nics) * 8;
                  nbl1 = fold (\<lambda>i l. l[i := part]) [0..<nics - 1] (m_nbl m1);
                  nb = (\<Sum>i \<leftarrow> [0..<nics - 1]. nbl1 ! i);
                  nbl2 = nbl1[nics - 1 := nbytes - nb]
              in m1\<lparr>m_nbl := nbl2,
                    m_ptr := fold (\<lambda>i p. p[i := place_add (p ! (i - 1)) (nbl2 ! (i - 1))]) [1..<nics] (m_ptr m1)\<rparr>
         else m1)"

definition set_os_message :: "nat \<Rightarrow> int \<Rightarrow> int \<Rightarrow> int \<Rightarrow> int \<Rightarrow> msg_entry \<Rightarrow> msg_entry" where
  "set_os_message nics dest_ptr nbytes src tag msg =
     (set_message nics nbytes src tag msg)\<lparr>m_dest_ptr := dest_ptr\<rparr>"

record msg_header =
  h_nbytes :: int
  h_src :: int
  h_tag :: int
  h_dest_ptr :: int

definition create_os_msg_header :: "int \<Rightarrow> int \<Rightarrow> int \<Rightarrow> int \<Rightarrow> msg_header" where
  "create_os_msg_header dest_ptr nbytes src tag =
     \<lparr>h_nbytes = nbytes, h_src = src, h_tag = tag, h_dest_ptr = dest_ptr\<rparr>"

definition create_msg_header :: "int \<Rightarrow> int \<Rightarrow> int \<Rightarrow> msg_header" where
  "create_msg_header nbytes src tag =
     \<lparr>h_nbytes = nbytes, h_src = src, h_tag = tag, h_dest_ptr = 0\<rparr>"

section \<open>Splitting a message\<close>

definition msg_shape :: "msg_entry \<Rightarrow> bool" where
  "msg_shape msg \<longleftrightarrow> length (m_nbl msg) = MAX_NICS \<and> length (m_ptr msg) = MAX_NICS"

lemma fold_const: "m \<le> length l \<Longrightarrow>
    fold (\<lambda>i l. l[i := x]) [0..<m] l = replicate m x @ drop m l"
proof (induction m)
  case (Suc m)
  then have "fold (\<lambda>i l. l[i := x]) [0..<m] l = replicate m x @ drop m l" by simp
  moreover have "drop m l = l ! m # drop (Suc m) l" using Suc.prems by (simp add: Cons_nth_drop_Suc)
  ultimately show ?case by (simp add: replicate_append_same list_update_append)
qed simp

lemma fold_update_length [simp]: "length (fold (\<lambda>i l. l[i := g i l]) is l) = length l"
  by (induction "is" arbitrary: l) simp_all

lemma fold_ptr:
  assumes "m \<le> length p"
  shows "let q = fold (\<lambda>i p. p[i := place_add (p ! (i - 1)) (nbl ! (i - 1))]) [1..<m] p in
     length q = length p \<and> q ! 0 = p ! 0
     \<and> (\<forall>i. 0 < i \<and> i < m \<longrightarrow> q ! i = place_add (q ! (i - 1)) (nbl ! (i - 1)))"
  using assms
proof (induction m)
  case (Suc m)
  let ?q = "fold (\<lambda>i p. p[i := place_add (p ! (i - 1)) (nbl ! (i - 1))]) [1..<m] p"
  show ?case
  proof (cases "m = 0")
    case False
    then have "[1..<Suc m] = [1..<m] @ [m]" by simp
    then have step: "fold (\<lambda>i p. p[i := place_add (p ! (i - 1)) (nbl ! (i - 1))]) [1..<Suc m] p
        = ?q[m := place_add (?q ! (m - 1)) (nbl ! (m - 1))]" by simp
    have IH: "length ?q = length p" "?q ! 0 = p ! 0"
      "\<And>i. 0 < i \<Longrightarrow> i < m \<Longrightarrow> ?q ! i = place_add (?q ! (i - 1)) (nbl ! (i - 1))"
      using Suc by (simp_all add: Let_def)
    let ?x = "place_add (?q ! (m - 1)) (nbl ! (m - 1))"
    have nth: "?q[m := ?x] ! i = place_add (?q[m := ?x] ! (i - 1)) (nbl ! (i - 1))"
      if "0 < i \<and> i < Suc m" for i
    proof (cases "i = m")
      case True
      with that IH(1) Suc.prems show ?thesis by simp
    next
      case neq: False
      with that have i: "0 < i" "i < m" "i - 1 \<noteq> m" by auto
      with neq IH(3) [OF i(1,2)] show ?thesis by simp
    qed
    show ?thesis
      unfolding step Let_def
    proof (intro conjI allI impI)
      show "length (?q[m := ?x]) = length p" using IH(1) by simp
      show "?q[m := ?x] ! 0 = p ! 0" using IH(2) False by simp
    qed (rule nth)
  qed (simp add: Let_def)
qed (simp add: Let_def)

lemma split_arith:
  fixes n k :: int
  assumes "0 \<le> n" and "0 < k"
  defines "p \<equiv> n div 8 div k * 8"
  shows "p \<le> n - (k - 1) * p" and "n - (k - 1) * p < p + 8 * k"
proof -
  obtain q s r where qsr: "q = n div 8 div k" "s = n div 8 mod k" "r = n mod 8" by blast
  have "n div 8 = k * q + s" "n = 8 * (n div 8) + r" by (simp_all add: qsr)
  then have e: "n = 8 * (k * q + s) + r" by simp
  have b: "0 \<le> s" "s < k" "0 \<le> r" "r < 8" using assms by (simp_all add: qsr)
  have "n - (k - 1) * p = p + (8 * s + r)" unfolding p_def qsr(1) [symmetric] using e by (simp add: algebra_simps)
  with b show "p \<le> n - (k - 1) * p" and "n - (k - 1) * p < p + 8 * k" by linarith+
qed

lemma split_positive:
  fixes n k :: int
  assumes "1500 < n" and "0 < k" and "k \<le> 4"
  shows "0 < n div 8 div k"
proof -
  have "187 \<le> n div 8" using assms(1) by simp
  then have "k \<le> n div 8" using assms(3) by simp
  then have "k div k \<le> n div 8 div k" using assms(2) by (intro zdiv_mono1) simp_all
  with assms(2) show ?thesis by simp
qed

lemma set_message_split_step:
  assumes m: "m = set_message nics nbytes src tag msg"
    and shape: "msg_shape msg" and nics: "1 < nics" "nics \<le> MAX_NICS" and n: "nbytes > MIN_SPLIT"
  shows "(\<Sum>i \<leftarrow> [0..<nics]. m_nbl m ! i) = nbytes
    \<and> m_ptr m ! 0 = User (m_buf msg)
    \<and> (\<forall>i. 0 < i \<and> i < nics \<longrightarrow> m_ptr m ! i = place_add (m_ptr m ! (i - 1)) (m_nbl m ! (i - 1)))
    \<and> (\<forall>i < nics - 1. 8 dvd m_nbl m ! i \<and> 0 < m_nbl m ! i
          \<and> m_nbl m ! i \<le> m_nbl m ! (nics - 1) \<and> m_nbl m ! (nics - 1) < m_nbl m ! i + 8 * int nics)"
proof -
  let ?p = "nbytes div 8 div int nics * 8" and ?l0 = "(m_nbl msg)[0 := nbytes]"
  let ?l1 = "fold (\<lambda>i l. l[i := ?p]) [0..<nics - 1] ?l0"
  have len: "length ?l0 = 4" "length (m_ptr msg) = 4" using shape by (simp_all add: msg_shape_def MAX_NICS_def)
  have l1: "?l1 = replicate (nics - 1) ?p @ drop (nics - 1) ?l0"
    using nics len by (intro fold_const) (simp add: MAX_NICS_def)
  have nth1: "i < nics - 1 \<Longrightarrow> ?l1 ! i = ?p" for i unfolding l1 by (simp add: nth_append)
  have "(\<Sum>i \<leftarrow> [0..<nics - 1]. ?l1 ! i) = (\<Sum>i \<leftarrow> [0..<nics - 1]. ?p)"
    using nth1 by (intro arg_cong [of _ _ sum_list] map_cong) simp_all
  then have nb: "(\<Sum>i \<leftarrow> [0..<nics - 1]. ?l1 ! i) = (int nics - 1) * ?p"
    using nics by (simp add: sum_list_triv of_nat_diff)
  have nonneg: "c_div (c_div nbytes 8) (int nics) * 8 = ?p" using n by (simp add: MIN_SPLIT_def pos_imp_zdiv_nonneg_iff)
  let ?l2 = "?l1[nics - 1 := nbytes - (int nics - 1) * ?p]"
  have m_nbl: "m_nbl m = ?l2"
    using n nics unfolding m set_message_def by (simp add: Let_def nonneg nb [simplified])
  have m_ptr: "m_ptr m = fold (\<lambda>i p. p[i := place_add (p ! (i - 1)) (?l2 ! (i - 1))]) [1..<nics]
      ((m_ptr msg)[0 := User (m_buf msg)])"
    using n nics unfolding m set_message_def by (simp add: Let_def nonneg nb [simplified])
  have len1: "length ?l1 = 4" using len nics by (simp add: l1 MAX_NICS_def)
  have at: "i < nics - 1 \<Longrightarrow> m_nbl m ! i = ?p" "m_nbl m ! (nics - 1) = nbytes - (int nics - 1) * ?p" for i
    using nth1 len1 nics by (simp_all add: m_nbl MAX_NICS_def)
  have "[0..<nics] = [0..<nics - 1] @ [nics - 1]" using nics by (metis Suc_diff_1 le0 less_trans upt_Suc_append zero_less_one)
  then have "(\<Sum>i \<leftarrow> [0..<nics]. m_nbl m ! i) = (\<Sum>i \<leftarrow> [0..<nics - 1]. m_nbl m ! i) + m_nbl m ! (nics - 1)"
    by simp
  also have "(\<Sum>i \<leftarrow> [0..<nics - 1]. m_nbl m ! i) = (\<Sum>i \<leftarrow> [0..<nics - 1]. ?p)"
    using at by (intro arg_cong [of _ _ sum_list] map_cong) simp_all
  finally have sum: "(\<Sum>i \<leftarrow> [0..<nics]. m_nbl m ! i) = nbytes"
    using nics at(2) by (simp add: sum_list_triv of_nat_diff)
  have ptr: "m_ptr m ! 0 = User (m_buf msg)"
    "\<forall>i. 0 < i \<and> i < nics \<longrightarrow> m_ptr m ! i = place_add (m_ptr m ! (i - 1)) (m_nbl m ! (i - 1))"
    using fold_ptr [of nics "(m_ptr msg)[0 := User (m_buf msg)]" ?l2] len nics
    unfolding m_ptr m_nbl by (simp_all add: Let_def MAX_NICS_def)
  have "0 < ?p" using split_positive [of nbytes "int nics"] n nics by (simp add: MIN_SPLIT_def MAX_NICS_def)
  with sum ptr at split_arith [of nbytes "int nics"] n nics show ?thesis
    by (auto simp: MIN_SPLIT_def)
qed

text \<open>
  A long message is split over the cards completely: the parts are consecutive, start at the
  user's buffer and add up to the message, the first ones are equal multiples of 8 bytes, and
  the last one is less than \<open>8 * nics\<close> bytes longer.
\<close>

theorem set_message_splits:
  assumes "msg_shape msg" and "1 < nics" and "nics \<le> MAX_NICS" and "nbytes > MIN_SPLIT"
  shows "let m = set_message nics nbytes src tag msg in
    (\<Sum>i \<leftarrow> [0..<nics]. m_nbl m ! i) = nbytes
    \<and> m_ptr m ! 0 = User (m_buf msg)
    \<and> (\<forall>i. 0 < i \<and> i < nics \<longrightarrow> m_ptr m ! i = place_add (m_ptr m ! (i - 1)) (m_nbl m ! (i - 1)))
    \<and> (\<forall>i < nics - 1. 8 dvd m_nbl m ! i \<and> 0 < m_nbl m ! i
          \<and> m_nbl m ! i \<le> m_nbl m ! (nics - 1) \<and> m_nbl m ! (nics - 1) < m_nbl m ! i + 8 * int nics)"
  unfolding Let_def by (rule set_message_split_step [OF refl assms])

definition fresh_msg :: msg_entry where
  "fresh_msg = \<lparr>m_nbytes = 0, m_src = 0, m_tag = 0, m_dest_ptr = 0, m_buf = 4096,
     m_ptr = replicate 4 (User 0), m_nleft = 0, m_nbl = replicate 4 0, m_nhdr = 0, m_send_flag = 0\<rparr>"

theorem set_message_splits_witness:
  "(\<Sum>i \<leftarrow> [0..<3]. m_nbl (set_message 3 2000 1 7 fresh_msg) ! i) = 2000"
  using set_message_splits [of fresh_msg 3 2000 1 7]
  by (simp add: Let_def fresh_msg_def msg_shape_def MAX_NICS_def MIN_SPLIT_def)

text \<open>
  A message that is reset to a shorter one keeps stale parts: when a long receive is matched by
  a message of at most 1500 bytes, the first card gets the whole message but the other cards keep
  the parts of the long one, so the parts no longer add up to the message.
\<close>

theorem set_message_stale:
  assumes "msg_shape msg" and "1 < nics" and "nics \<le> MAX_NICS" and "long > MIN_SPLIT"
    and "0 \<le> short" and "short \<le> MIN_SPLIT" and "0 < i" and "i < nics"
  shows "let m = set_message nics short src' tag' (set_message nics long src tag msg) in
    m_nbl m ! 0 = short \<and> 0 < m_nbl m ! i"
proof -
  let ?m = "set_message nics long src tag msg"
  note split = set_message_split_step [OF refl assms(1-4), of src tag]
  then have "0 < m_nbl ?m ! 0 \<and> m_nbl ?m ! 0 \<le> m_nbl ?m ! (nics - 1)" using assms(2) by simp
  moreover have "i < nics - 1 \<Longrightarrow> 0 < m_nbl ?m ! i" using split by blast
  ultimately have pos: "0 < m_nbl ?m ! i" using assms(8) by (cases "i = nics - 1") auto
  have "length (m_nbl ?m) = 4"
    using assms(1) by (simp add: set_message_def Let_def msg_shape_def MAX_NICS_def fold_update_length)
  with pos assms show ?thesis
    by (simp add: Let_def) (simp add: set_message_def [of nics short])
qed

theorem set_message_stale_witness:
  "0 < m_nbl (set_message 2 100 1 7 (set_message 2 2000 1 7 fresh_msg)) ! 1"
  using set_message_stale [of fresh_msg 2 2000 100 1 1 7 1 7]
  by (simp add: Let_def fresh_msg_def msg_shape_def MAX_NICS_def MIN_SPLIT_def)

section \<open>Send buffers\<close>

text \<open>
  The user's memory and the send buffers.  \<open>push_to_buffer\<close> copies what each card still has to
  send; a buffer has exactly the length of its part.
\<close>

record 'a send_mem =
  user :: "int \<Rightarrow> 'a"
  sendbuf :: "nat \<Rightarrow> int \<Rightarrow> 'a"

fun read_place :: "'a send_mem \<Rightarrow> place \<Rightarrow> int \<Rightarrow> 'a" where
  "read_place m (User a) k = user m (a + k)"
| "read_place m (Sendbuf i a) k = sendbuf m i (a + k)"

definition push_card :: "nat \<Rightarrow> msg_entry \<times> 'a send_mem \<Rightarrow> msg_entry \<times> 'a send_mem" where
  "push_card i st = (case st of (msg, mem) \<Rightarrow>
     if m_nbl msg ! i > 0
     then (msg\<lparr>m_ptr := (m_ptr msg)[i := Sendbuf i 0]\<rparr>,
           mem\<lparr>sendbuf := (sendbuf mem)(i := (\<lambda>k. read_place mem (m_ptr msg ! i) k))\<rparr>)
     else (msg, mem))"

definition push_to_buffer :: "nat \<Rightarrow> msg_entry \<times> 'a send_mem \<Rightarrow> msg_entry \<times> 'a send_mem" where
  "push_to_buffer nics st =
     (case fold push_card [0..<nics] st of (msg, mem) \<Rightarrow> (msg\<lparr>m_send_flag := 3\<rparr>, mem))"

definition user_places :: "msg_entry \<Rightarrow> bool" where
  "user_places msg \<longleftrightarrow> (\<forall>i < length (m_ptr msg). \<exists>a. m_ptr msg ! i = User a)"

lemma push_cards:
  assumes "user_places msg" and "n \<le> length (m_ptr msg)"
  shows "case fold push_card [0..<n] (msg, mem) of (msg', mem') \<Rightarrow>
     m_nbl msg' = m_nbl msg \<and> length (m_ptr msg') = length (m_ptr msg) \<and> user mem' = user mem
     \<and> (\<forall>i < length (m_ptr msg). if i < n \<and> 0 < m_nbl msg ! i
          then m_ptr msg' ! i = Sendbuf i 0 \<and> (\<forall>k. sendbuf mem' i k = read_place mem (m_ptr msg ! i) k)
          else m_ptr msg' ! i = m_ptr msg ! i)"
  using assms(2)
proof (induction n)
  case (Suc n)
  obtain msg1 mem1 where f: "fold push_card [0..<n] (msg, mem) = (msg1, mem1)" by fastforce
  with Suc have IH: "m_nbl msg1 = m_nbl msg" "length (m_ptr msg1) = length (m_ptr msg)" "user mem1 = user mem"
    "\<And>i. i < length (m_ptr msg) \<Longrightarrow> if i < n \<and> 0 < m_nbl msg ! i
          then m_ptr msg1 ! i = Sendbuf i 0 \<and> (\<forall>k. sendbuf mem1 i k = read_place mem (m_ptr msg ! i) k)
          else m_ptr msg1 ! i = m_ptr msg ! i" by simp_all
  obtain a where a: "m_ptr msg ! n = User a" using assms(1) Suc.prems unfolding user_places_def by (meson Suc_le_lessD)
  have "m_ptr msg1 ! n = User a" using IH(4) [of n] Suc.prems a by simp
  have st: "fold push_card [0..<Suc n] (msg, mem) = push_card n (msg1, mem1)" by (simp add: f)
  show ?case
  proof (cases "0 < m_nbl msg ! n")
    case True
    have p: "push_card n (msg1, mem1) = (msg1\<lparr>m_ptr := (m_ptr msg1)[n := Sendbuf n 0]\<rparr>,
        mem1\<lparr>sendbuf := (sendbuf mem1)(n := (\<lambda>k. read_place mem1 (m_ptr msg1 ! n) k))\<rparr>)"
      using True IH(1) by (simp add: push_card_def)
    show ?thesis
      unfolding st p using IH(1-3) IH(4) a \<open>m_ptr msg1 ! n = User a\<close> True Suc.prems
      by (auto simp: nth_list_update less_Suc_eq)
  next
    case False
    have p: "push_card n (msg1, mem1) = (msg1, mem1)" using False IH(1) by (simp add: push_card_def)
    show ?thesis unfolding st p using IH(1-3) IH(4) False by (auto simp: less_Suc_eq)
  qed
qed simp

text \<open>
  A buffered send is safe: after \<open>push_to_buffer\<close> every card still sends the same bytes as
  before, also when the user changes the memory of the message afterwards.
\<close>

theorem push_to_buffer_safe:
  assumes "user_places msg" and "nics \<le> length (m_ptr msg)"
    and "push_to_buffer nics (msg, mem) = (msg', mem')"
    and "i < nics" and "0 < m_nbl msg ! i"
  shows "read_place (mem'\<lparr>user := later\<rparr>) (m_ptr msg' ! i) k = read_place mem (m_ptr msg ! i) k
     \<and> m_send_flag msg' = 3"
proof -
  obtain msg1 mem1 where f: "fold push_card [0..<nics] (msg, mem) = (msg1, mem1)" by fastforce
  with assms(3) have m: "msg' = msg1\<lparr>m_send_flag := 3\<rparr>" "mem' = mem1" by (auto simp: push_to_buffer_def)
  from push_cards [OF assms(1,2), of mem] f assms(2,4,5)
  have "m_ptr msg1 ! i = Sendbuf i 0" "sendbuf mem1 i k = read_place mem (m_ptr msg ! i) k" by auto
  with m show ?thesis by simp
qed

theorem push_to_buffer_safe_witness:
  "\<exists>msg' mem'. push_to_buffer 1 (fresh_msg\<lparr>m_nbl := [8, 0, 0, 0]\<rparr>, \<lparr>user = (\<lambda>a. a), sendbuf = (\<lambda>_ _. 0)\<rparr>)
      = (msg', mem') \<and> read_place (mem'\<lparr>user := (\<lambda>_. 0)\<rparr>) (m_ptr msg' ! 0) 5 = 5"
proof -
  let ?msg = "fresh_msg\<lparr>m_nbl := [8, 0, 0, 0]\<rparr>" and ?mem = "\<lparr>user = (\<lambda>a. a), sendbuf = (\<lambda>_ _. 0 :: int)\<rparr>"
  obtain msg' mem' where p: "push_to_buffer 1 (?msg, ?mem) = (msg', mem')" by fastforce
  have u: "user_places ?msg" by (auto simp: user_places_def fresh_msg_def)
  have l: "1 \<le> length (m_ptr ?msg)" by (simp add: fresh_msg_def)
  from push_to_buffer_safe [OF u l p, of 0 "\<lambda>_. 0" 5] p show ?thesis by (simp add: fresh_msg_def)
qed

section \<open>Sockets\<close>

text \<open>
  \<open>create_socket\<close> tries to set the buffer sizes.  \<open>accepts j b\<close> says whether the system takes the
  size \<open>b\<close> at the \<open>j\<close>-th attempt; the result is the size that was set last.  While growing, the
  loop doubles \<open>buffer_size\<close>, not \<open>bsize\<close>.  \<open>None\<close> is a loop without end.
\<close>

partial_function (option) grow_buffers ::
  "(nat \<Rightarrow> int \<Rightarrow> bool) \<Rightarrow> int \<Rightarrow> nat \<Rightarrow> int \<Rightarrow> int \<Rightarrow> (int \<times> int) option" where
  "grow_buffers accepts orig j bsize buffer_size =
     (if bsize < orig
      then if accepts j bsize then Some (bsize, buffer_size)
           else grow_buffers accepts orig (j + 1) bsize (buffer_size * 2)
      else Some (bsize, buffer_size))"

function shrink_buffers :: "(nat \<Rightarrow> int \<Rightarrow> bool) \<Rightarrow> int \<Rightarrow> nat \<Rightarrow> int \<Rightarrow> int" where
  "shrink_buffers accepts orig j bsize =
     (if bsize > orig \<and> bsize > 0
      then if accepts j bsize then bsize else shrink_buffers accepts orig (j + 1) (c_div bsize 2)
      else bsize)"
  by pat_completeness auto
termination by (relation "measure (\<lambda>(accepts, orig, j, bsize). nat bsize)") auto

declare shrink_buffers.simps [simp del]

definition create_socket ::
  "(nat \<Rightarrow> int \<Rightarrow> bool) \<Rightarrow> int \<Rightarrow> int \<Rightarrow> int \<Rightarrow> (int \<times> int) option" where
  "create_socket accepts orig bsize buffer_size =
     (if bsize < orig then grow_buffers accepts orig 0 bsize buffer_size
      else if bsize > orig then Some (shrink_buffers accepts orig 0 bsize, buffer_size)
      else Some (bsize, buffer_size))"

lemma grow_buffers_answer:
  assumes "grow_buffers accepts orig j bsize sz = Some r"
  shows "bsize < orig \<longrightarrow> (\<exists>i \<ge> j. accepts i bsize)"
proof (rule grow_buffers.raw_induct [where P = "\<lambda>accepts orig j bsize sz r. bsize < orig \<longrightarrow> (\<exists>i \<ge> j. accepts i bsize)",
      OF _ assms])
  fix grow :: "(nat \<Rightarrow> int \<Rightarrow> bool) \<Rightarrow> int \<Rightarrow> nat \<Rightarrow> int \<Rightarrow> int \<Rightarrow> (int \<times> int) option"
    and accepts :: "nat \<Rightarrow> int \<Rightarrow> bool" and orig bsize sz :: int and j and r
  assume IH: "\<And>accepts orig j bsize sz r. grow accepts orig j bsize sz = Some r \<Longrightarrow>
        bsize < orig \<longrightarrow> (\<exists>i \<ge> j. accepts i bsize)"
    and eq: "(if bsize < orig
      then if accepts j bsize then Some (bsize, sz) else grow accepts orig (j + 1) bsize (sz * 2)
      else Some (bsize, sz)) = Some r"
  show "bsize < orig \<longrightarrow> (\<exists>i \<ge> j. accepts i bsize)"
  proof
    assume lt: "bsize < orig"
    show "\<exists>i \<ge> j. accepts i bsize"
    proof (cases "accepts j bsize")
      case False
      with eq lt have "grow accepts orig (j + 1) bsize (sz * 2) = Some r" by simp
      with IH lt obtain i where "j + 1 \<le> i" "accepts i bsize" by blast
      then show ?thesis by (intro exI [of _ i]) simp
    qed auto
  qed
qed

lemma shrink_result:
  "0 < orig \<Longrightarrow> 0 < b \<Longrightarrow> shrink_buffers accepts orig j b \<le> b
     \<and> (shrink_buffers accepts orig j b \<le> orig \<or> (\<exists>i. accepts i (shrink_buffers accepts orig j b)))"
proof (induction accepts orig j b rule: shrink_buffers.induct)
  case (1 accepts orig j b)
  show ?case
  proof (cases "b > orig \<and> \<not> accepts j b")
    case True
    with 1(2) have half: "0 < b div 2" "b div 2 \<le> b" by linarith+
    have eq: "shrink_buffers accepts orig j b = shrink_buffers accepts orig (j + 1) (b div 2)"
      using True 1(3) by (subst shrink_buffers.simps) simp
    from 1(1) True 1(2,3) half have "shrink_buffers accepts orig (j + 1) (b div 2) \<le> b div 2
      \<and> (shrink_buffers accepts orig (j + 1) (b div 2) \<le> orig
         \<or> (\<exists>i. accepts i (shrink_buffers accepts orig (j + 1) (b div 2))))" by simp
    with half(2) show ?thesis unfolding eq by (meson order_trans)
  next
    case False
    then have "shrink_buffers accepts orig j b = b" by (subst shrink_buffers.simps) auto
    with False show ?thesis by auto
  qed
qed

text \<open>
  A buffer size that is too small for the system hangs \<open>create_socket\<close>: when the system refuses
  the wanted size, which is below its default, the loop asks for the same size for ever.  A size
  above the default is halved until the system accepts it or the default is reached.
\<close>

theorem create_socket_sizes:
  assumes "0 < orig"
  shows "(bsize < orig \<and> (\<forall>j. \<not> accepts j bsize) \<longrightarrow> create_socket accepts orig bsize sz = None)
    \<and> (bsize \<ge> orig \<longrightarrow> (\<exists>b. create_socket accepts orig bsize sz = Some (b, sz)
         \<and> b \<le> bsize \<and> (b \<le> orig \<or> (\<exists>j. accepts j b))))"
proof -
  have "grow_buffers accepts orig 0 bsize sz = None" if "bsize < orig" "\<forall>j. \<not> accepts j bsize"
    using grow_buffers_answer [of accepts orig 0 bsize sz] that
    by (cases "grow_buffers accepts orig 0 bsize sz") auto
  moreover have "shrink_buffers accepts orig 0 bsize \<le> bsize
      \<and> (shrink_buffers accepts orig 0 bsize \<le> orig \<or> (\<exists>i. accepts i (shrink_buffers accepts orig 0 bsize)))"
    if "bsize > orig" using shrink_result [OF assms] assms that by simp
  ultimately show ?thesis by (auto simp: create_socket_def)
qed

theorem create_socket_sizes_witness:
  "create_socket (\<lambda>_ b. b = 4096) 131072 1000 32768 = None
   \<and> (\<exists>b. create_socket (\<lambda>_ b. b \<le> 200000) 131072 1000000 32768 = Some (b, 32768)
        \<and> (b \<le> 131072 \<or> b \<le> 200000))"
  using create_socket_sizes [of 131072 1000 "\<lambda>_ b. b = 4096" 32768]
    create_socket_sizes [of 131072 1000000 "\<lambda>_ b. b \<le> 200000" 32768]
  by auto

section \<open>Connecting\<close>

datatype answer = Accepted | Refused | Failed int

text \<open>
  The loop of \<open>connect_to\<close>: \<open>answers\<close> are the results of the attempts in turn.  The result is
  whether the connection is there, the number of attempts as counted by the loop, and the
  budget of the next call, a static variable.
\<close>

fun connect_tries :: "(nat \<Rightarrow> answer) \<Rightarrow> nat \<Rightarrow> nat \<Rightarrow> (bool \<times> int) outcome" where
  "connect_tries answers tries 0 = Inr (False, int tries + 1)"
| "connect_tries answers tries (Suc left) = (case answers tries of
     Accepted \<Rightarrow> Inr (True, int tries + 1)
   | Refused \<Rightarrow> connect_tries answers (tries + 1) left
   | Failed e \<Rightarrow> Inl (ErrorX ''utils.c MP_Init() connect_to()''))"

definition next_max_tries :: "int \<Rightarrow> int \<Rightarrow> int" where
  "next_max_tries max_tries tries = (if max_tries - tries > 5 then max_tries - tries else 5)"

text \<open>
  \<open>connect_to\<close> sends the own number and reads the other's; it does not compare.  \<open>None\<close> is the
  return value -1.
\<close>

definition connect_to :: "(nat \<Rightarrow> answer) \<Rightarrow> int \<Rightarrow> (int option \<times> int) outcome" where
  "connect_to answers max_tries =
     obind (connect_tries answers 0 (nat max_tries)) (\<lambda>(connected, tries).
       Inr (if connected then Some 0 else None, next_max_tries max_tries tries))"

definition accept_a_connection_from :: "int \<Rightarrow> int \<Rightarrow> int \<Rightarrow> int outcome" where
  "accept_a_connection_from node myproc iproc =
     (if iproc \<noteq> node then Inl (ErrorX ''MP_Init() ack came back wrong'') else Inr myproc)"

lemma connect_tries_result:
  "connect_tries answers tries left = Inr (ok, n) \<Longrightarrow>
     (ok \<longrightarrow> (\<exists>j. tries \<le> j \<and> j < tries + left \<and> answers j = Accepted \<and> n = int j + 1
        \<and> (\<forall>i. tries \<le> i \<and> i < j \<longrightarrow> answers i = Refused)))
   \<and> (\<not> ok \<longrightarrow> n = int (tries + left) + 1 \<and> (\<forall>i. tries \<le> i \<and> i < tries + left \<longrightarrow> answers i = Refused))"
proof (induction answers tries left rule: connect_tries.induct)
  case (2 answers tries left)
  show ?case
  proof (cases "answers tries")
    case Refused
    with 2(2) have "connect_tries answers (tries + 1) left = Inr (ok, n)" by simp
    from 2(1) [OF Refused this] Refused show ?thesis
      by (auto simp: le_Suc_eq Suc_le_eq) (metis le_neq_implies_less not_less_eq order.strict_iff_not)+
  qed (use 2(2) in auto)
qed auto

text \<open>
  The processes find each other or give up: \<open>connect_to\<close> connects at the first attempt that is
  accepted, after refusals only, within its budget; when every attempt is refused it gives up
  after exactly \<open>max_tries\<close> of them, and the next call has at least 5 attempts and at most as many
  as this one, or 5.
\<close>

theorem connect_to_budget:
  assumes "0 \<le> max_tries" and "connect_to answers max_tries = Inr (sock, next)"
  shows "(sock = None \<longleftrightarrow> (\<forall>i < nat max_tries. answers i = Refused))
    \<and> (sock \<noteq> None \<longrightarrow> (\<exists>j < nat max_tries. answers j = Accepted \<and> (\<forall>i < j. answers i = Refused)))
    \<and> 5 \<le> next \<and> next \<le> max 5 (max_tries - 1)"
proof -
  from assms(2) obtain ok n where c: "connect_tries answers 0 (nat max_tries) = Inr (ok, n)"
    and s: "sock = (if ok then Some 0 else None)" "next = next_max_tries max_tries n"
    by (auto simp: connect_to_def obind_Inr_iff)
  note r = connect_tries_result [OF c]
  have "1 \<le> n" using r by (cases ok) auto
  then have "5 \<le> next \<and> next \<le> max 5 (max_tries - 1)"
    by (auto simp: s next_max_tries_def)
  moreover have "(sock = None \<longleftrightarrow> (\<forall>i < nat max_tries. answers i = Refused))
    \<and> (sock \<noteq> None \<longrightarrow> (\<exists>j < nat max_tries. answers j = Accepted \<and> (\<forall>i < j. answers i = Refused)))"
    using r s(1) by (cases ok) auto
  ultimately show ?thesis by blast
qed

theorem connect_to_budget_witness:
  "\<exists>next. connect_to (\<lambda>j. if j < 2 then Refused else Accepted) 20 = Inr (Some 0, next) \<and> 5 \<le> next"
proof -
  have "connect_to (\<lambda>j. if j < 2 then Refused else Accepted) 20 = Inr (Some 0, 17)"
    by (simp add: connect_to_def eval_nat_numeral next_max_tries_def)
  with connect_to_budget [OF _ this] show ?thesis by simp
qed

end
