(* ===== verification/Shm.thy ===== *)
theory Shm
  imports Fifo
begin

text \<open>
  Messages through shared memory, \<open>MP_Lite/shm.c\<close>: the barrier \<open>smp_sync\<close> as a step relation of the
  processes of a node, the receive \<open>smp_recv\<close> with its queue of headers, and the send
  \<open>smp_send\<close> with its allocator (the variant \<open>GC == 2\<close> that the file selects), which hands the
  offset of the new entry to the ring of \<open>Fifo\<close>.
\<close>

section \<open>The pool\<close>

definition smp_q_size :: "int \<Rightarrow> int" where
  "smp_q_size nsmp = c_div 4000 nsmp * 4096"

definition smp_sync_size :: "int \<Rightarrow> int" where
  "smp_sync_size nsmp = (nsmp * 4 + 4095) div 4096 * 4096"

definition smp_pool_size :: "nat \<Rightarrow> int" where
  "smp_pool_size nsmp = int nsmp * smp_q_size (int nsmp) + smp_sync_size (int nsmp) + int (sizeofFifo nsmp)"

section \<open>The barrier\<close>

text \<open>
  \<open>rnd p\<close> counts the barriers that \<open>p\<close> has entered; \<open>sync_byte\<close> is this number modulo 10.  \<open>pos p\<close>
  is the process that \<open>p\<close> is looking at, \<open>None\<close> outside of the routine.
\<close>

record sync_st =
  sync_array :: "nat \<Rightarrow> nat"
  rnd :: "nat \<Rightarrow> nat"
  pos :: "nat \<Rightarrow> nat option"

inductive sync_step :: "nat \<Rightarrow> sync_st \<Rightarrow> sync_st \<Rightarrow> bool" for nsmp where
  sync_enter: "p < nsmp \<Longrightarrow> pos y p = None \<Longrightarrow> b = (rnd y p + 1) mod 10 \<Longrightarrow>
     sync_step nsmp y (y\<lparr>rnd := (rnd y)(p := rnd y p + 1), sync_array := (sync_array y)(p := b),
       pos := (pos y)(p := Some 0)\<rparr>)"
| sync_pass: "p < nsmp \<Longrightarrow> pos y p = Some i \<Longrightarrow> i < nsmp \<Longrightarrow> b = rnd y p mod 10 \<Longrightarrow>
     sync_array y i = b \<or> sync_array y i = (b + 1) mod 10 \<Longrightarrow>
     sync_step nsmp y (y\<lparr>pos := (pos y)(p := Some (i + 1))\<rparr>)"
| sync_leave: "p < nsmp \<Longrightarrow> pos y p = Some nsmp \<Longrightarrow>
     sync_step nsmp y (y\<lparr>pos := (pos y)(p := None)\<rparr>)"

inductive sync_reach :: "nat \<Rightarrow> sync_st \<Rightarrow> bool" for nsmp where
  sync_start: "sync_reach nsmp \<lparr>sync_array = (\<lambda>_. 0), rnd = (\<lambda>_. 0), pos = (\<lambda>_. None)\<rparr>"
| sync_more: "sync_reach nsmp y \<Longrightarrow> sync_step nsmp y z \<Longrightarrow> sync_reach nsmp z"

definition behind :: "sync_st \<Rightarrow> nat \<Rightarrow> nat \<Rightarrow> bool" where
  "behind y p q \<longleftrightarrow> (case pos y p of None \<Rightarrow> rnd y p \<le> rnd y q
     | Some i \<Rightarrow> rnd y p \<le> rnd y q + 1 \<and> (q < i \<longrightarrow> rnd y p \<le> rnd y q))"

definition sync_inv :: "nat \<Rightarrow> sync_st \<Rightarrow> bool" where
  "sync_inv nsmp y \<longleftrightarrow> (\<forall>p < nsmp. sync_array y p = rnd y p mod 10
     \<and> (\<forall>i. pos y p = Some i \<longrightarrow> i \<le> nsmp) \<and> (\<forall>q < nsmp. behind y p q))"

lemma within_one:
  assumes "a \<le> b + 1" and "b \<le> a + (1 :: nat)" and "b mod 10 = a mod 10 \<or> b mod 10 = (a mod 10 + 1) mod 10"
  shows "a \<le> b"
proof (rule ccontr)
  assume "\<not> a \<le> b"
  with assms(1) have a: "a = b + 1" by simp
  obtain m where m: "b mod 10 = m" "m < 10" by simp
  have next10: "(x + 1) mod 10 = (if x = 9 then 0 else x + 1)" if "x < 10" for x :: nat
    using that by simp
  have "(b + 1) mod 10 = (m + 1) mod 10" using m(1) by (metis mod_add_left_eq)
  then have c: "(b + 1) mod 10 = (if m = 9 then 0 else m + 1)" using next10 [OF m(2)] by simp
  then have "((b + 1) mod 10 + 1) mod 10 = (if m = 9 then 1 else if m = 8 then 0 else m + 2)"
    using m(2) by simp
  with m c assms(3) show False unfolding a by (simp split: if_splits)
qed

lemma behind_le: "behind y p q \<Longrightarrow> rnd y p \<le> rnd y q + 1"
  by (auto simp: behind_def split: option.splits)

lemma sync_step_inv:
  assumes "sync_step nsmp y z" and inv: "sync_inv nsmp y"
  shows "sync_inv nsmp z"
  using assms(1)
proof cases
  case (sync_enter p b)
  with inv show ?thesis
    by (auto simp: sync_inv_def behind_def split: option.splits) (metis le_SucI)+
next
  case (sync_pass p i b)
  have all: "behind y p q" "sync_array y p = rnd y p mod 10" if "p < nsmp" "q < nsmp" for p q
    using inv that by (simp_all add: sync_inv_def)
  have "rnd y p \<le> rnd y i"
  proof (rule within_one)
    show "rnd y p \<le> rnd y i + 1" "rnd y i \<le> rnd y p + 1"
      using all sync_pass by (blast intro: behind_le)+
    show "rnd y i mod 10 = rnd y p mod 10 \<or> rnd y i mod 10 = (rnd y p mod 10 + 1) mod 10"
      using all(2) [OF sync_pass(4) sync_pass(4)] sync_pass(5,6) by simp
  qed
  with inv sync_pass show ?thesis
    by (auto simp: sync_inv_def behind_def less_Suc_eq split: option.splits)
next
  case (sync_leave p)
  with inv show ?thesis
    by (auto simp: sync_inv_def behind_def split: option.splits)
qed

text \<open>
  C33.  \<open>smp_sync\<close> is a barrier: in every interleaving, when a process is outside of the routine after
  its \<open>k\<close>-th call, every process has entered its \<open>k\<close>-th call, although the flags count modulo 10
  only and fast processes may already be in the next call; and when all processes are inside,
  one of them can go on.
\<close>

theorem smp_sync_is_barrier:
  assumes "sync_reach nsmp y"
  shows "(\<forall>p < nsmp. \<forall>q < nsmp. pos y p = None \<longrightarrow> rnd y p \<le> rnd y q)
    \<and> (0 < nsmp \<and> (\<forall>p < nsmp. pos y p \<noteq> None) \<longrightarrow> (\<exists>z. sync_step nsmp y z))"
proof -
  have inv: "sync_inv nsmp y" using assms
  proof induction
    case sync_start
    show ?case by (simp add: sync_inv_def behind_def)
  next
    case (sync_more y z)
    from sync_step_inv [OF sync_more.hyps(2) sync_more.IH] show ?case .
  qed
  have "\<exists>z. sync_step nsmp y z" if nz: "0 < nsmp" and ins: "\<forall>p < nsmp. pos y p \<noteq> None"
  proof -
    have "\<exists>p. p < nsmp \<and> (\<forall>q. q < nsmp \<longrightarrow> rnd y p \<le> rnd y q)"
      using nz by (intro ex_has_least_nat [of "\<lambda>p. p < nsmp" 0]) simp
    then obtain p where p: "p < nsmp" "\<forall>q < nsmp. rnd y p \<le> rnd y q" by blast
    then obtain i where i: "pos y p = Some i" using ins by blast
    show ?thesis
    proof (cases "i < nsmp")
      case True
      have "rnd y i \<le> rnd y p + 1" using inv p(1) True unfolding sync_inv_def by (blast intro: behind_le)
      with p(2) True have "rnd y i = rnd y p \<or> rnd y i = rnd y p + 1" by force
      then have "sync_array y i = rnd y p mod 10 \<or> sync_array y i = (rnd y p mod 10 + 1) mod 10"
        using inv True by (auto simp: sync_inv_def mod_Suc_eq)
      with sync_pass [OF p(1) i True refl] show ?thesis by blast
    next
      case False
      with inv p(1) i have "i = nsmp" by (auto simp: sync_inv_def)
      with sync_leave [OF p(1)] i show ?thesis by blast
    qed
  qed
  moreover have "\<forall>p < nsmp. \<forall>q < nsmp. pos y p = None \<longrightarrow> rnd y p \<le> rnd y q"
    using inv by (auto simp: sync_inv_def behind_def)
  ultimately show ?thesis by blast
qed

theorem smp_sync_is_barrier_witness:
  "\<exists>y z. sync_reach 2 y \<and> rnd y 0 = 1 \<and> rnd y 1 = 1 \<and> sync_step 2 y z"
proof -
  let ?y0 = "\<lparr>sync_array = (\<lambda>_. 0), rnd = (\<lambda>_. 0), pos = (\<lambda>_. None)\<rparr>"
  obtain y1 where y1: "sync_step 2 ?y0 y1" "pos y1 = (\<lambda>_. None)(0 := Some 0)" "rnd y1 = (\<lambda>_. 0)(0 := 1)"
    using sync_enter [of 0 2 ?y0 1] by auto
  obtain y2 where y2: "sync_step 2 y1 y2" "pos y2 = (pos y1)(1 := Some 0)" "rnd y2 = (rnd y1)(1 := 1)"
    using sync_enter [of 1 2 y1 1] y1(2,3) by auto
  have r: "sync_reach 2 y2" using sync_more [OF sync_more [OF sync_start y1(1)] y2(1)] .
  have "\<forall>p < 2. pos y2 p \<noteq> None" using y1(2) y2(2) by (auto simp: less_Suc_eq numeral_2_eq_2)
  with smp_sync_is_barrier [OF r] obtain z where "sync_step 2 y2 z" by auto
  with r y1(3) y2(3) show ?thesis by (intro exI [of _ y2] exI [of _ z]) simp
qed

section \<open>Receiving\<close>

text \<open>An entry as the receiver sees it, at its offset in the pool.\<close>

record pool_msg =
  p_src :: int
  p_nbytes :: int
  p_tag :: int
  p_offset :: offset

definition MSG_Q_SIZE :: nat where "MSG_Q_SIZE = 20"

text \<open>
  The queue of headers: a ring of \<open>MSG_Q_SIZE\<close> slots linked by \<open>q_next\<close>, the first a dummy.
  \<open>n_buffered\<close> is a static variable of \<open>smp_recv\<close>.
\<close>

record smp_q =
  q_hdr :: "nat \<Rightarrow> pool_msg"
  q_next :: "nat \<Rightarrow> nat"
  head_q :: nat
  tail_q :: nat
  n_buffered :: nat

definition init_smp_q :: "(nat \<Rightarrow> pool_msg) \<Rightarrow> smp_q" where
  "init_smp_q h = \<lparr>q_hdr = h, q_next = (\<lambda>i. if i < MSG_Q_SIZE - 1 then i + 1 else 0),
     head_q = 0, tail_q = 0, n_buffered = 0\<rparr>"

record recv_msg =
  r_src :: int
  r_nbytes :: int
  r_tag :: int

definition hdr_matches :: "recv_msg \<Rightarrow> pool_msg \<Rightarrow> bool" where
  "hdr_matches msg h \<longleftrightarrow> p_nbytes h \<le> r_nbytes msg \<and> p_src h = r_src msg \<and> (r_tag msg < 0 \<or> p_tag h = r_tag msg)"

definition entry_matches :: "recv_msg \<Rightarrow> pool_msg \<Rightarrow> bool" where
  "entry_matches msg e \<longleftrightarrow> p_nbytes e \<le> r_nbytes msg \<and> (r_tag msg < 0 \<or> p_tag e = r_tag msg)"

text \<open>
  The search of the queue.  The variables \<open>prev_hdr\<close> and \<open>hdr\<close> of the source are \<open>None\<close> as long as
  they have not been assigned; the search ends with the match, or with the last \<open>hdr\<close>.
\<close>

fun search_q :: "recv_msg \<Rightarrow> nat \<Rightarrow> smp_q \<Rightarrow> (nat \<times> nat) option \<Rightarrow> (pool_msg \<times> smp_q) + (nat \<times> nat) option" where
  "search_q msg 0 q v = Inr v"
| "search_q msg (Suc k) q v =
     (let (prev, hdr) = (case v of None \<Rightarrow> (head_q q, q_next q (head_q q)) | Some w \<Rightarrow> w)
      in if hdr_matches msg (q_hdr q hdr)
         then let q1 = q\<lparr>n_buffered := n_buffered q - 1\<rparr> in
              Inl (q_hdr q hdr,
                if hdr = tail_q q then q1\<lparr>tail_q := prev\<rparr>
                else let n1 = (q_next q)(prev := q_next q hdr); n2 = n1(hdr := n1 (tail_q q))
                     in q1\<lparr>q_next := n2(tail_q q := hdr)\<rparr>)
         else search_q msg k q (Some (hdr, q_next q hdr)))"

text \<open>
  The loop over the ring of the sender: the entry that is returned is the one whose data is
  copied, once its flag is set, and whose flag becomes -1.  A header that does not match is queued at \<open>hdr\<close>.  The
  list holds the entries that the ring will deliver; \<open>None\<close> is a receive that still waits.
\<close>

fun recv_ring :: "recv_msg \<Rightarrow> pool_msg list \<Rightarrow> smp_q \<Rightarrow> (nat \<times> nat) option \<Rightarrow>
    ((pool_msg \<times> smp_q \<times> pool_msg list) outcome) option" where
  "recv_ring msg [] q v = None"
| "recv_ring msg (e # es) q v =
     (if entry_matches msg e then Some (Inr (e, q, es))
      else if n_buffered q = MSG_Q_SIZE then Some (Inl Exit)
      else case v of
        None \<Rightarrow> Some (Inl UninitRead)
      | Some (prev, hdr) \<Rightarrow>
          recv_ring msg es (q\<lparr>tail_q := hdr, q_hdr := (q_hdr q)(hdr := e), n_buffered := n_buffered q + 1\<rparr>) v)"

definition smp_recv :: "recv_msg \<Rightarrow> pool_msg list \<Rightarrow> smp_q \<Rightarrow>
    ((pool_msg \<times> smp_q \<times> pool_msg list) outcome) option" where
  "smp_recv msg es q = (case search_q msg (n_buffered q) q None of
     Inl (m, q') \<Rightarrow> Some (Inr (m, q', es))
   | Inr v \<Rightarrow> recv_ring msg es q v)"

fun smp_recvs :: "recv_msg list \<Rightarrow> pool_msg list \<Rightarrow> smp_q \<Rightarrow>
    ((pool_msg list \<times> smp_q \<times> pool_msg list) outcome) option" where
  "smp_recvs [] es q = Some (Inr ([], q, es))"
| "smp_recvs (msg # msgs) es q = (case smp_recv msg es q of
     None \<Rightarrow> None
   | Some (Inl h) \<Rightarrow> Some (Inl h)
   | Some (Inr (m, q', es')) \<Rightarrow> map_option (map_sum id (\<lambda>(ms, r). (m # ms, r))) (smp_recvs msgs es' q'))"

lemma smp_recv_empty_q:
  assumes "n_buffered q = 0"
  shows "smp_recv msg es q = (case es of [] \<Rightarrow> None
     | e # es' \<Rightarrow> if entry_matches msg e then Some (Inr (e, q, es')) else Some (Inl UninitRead))"
  using assms by (cases es) (simp_all add: smp_recv_def MSG_Q_SIZE_def)

text \<open>
  Messages must be received in the order they were sent: from the start, receives whose posted
  sizes and tags fit the messages of the sender in turn all succeed, in order, and the first
  message that does not fit the receive is not queued but stored through a pointer that has
  never been set; so the queue of headers, meant for messages out of order, is never used.
\<close>

theorem smp_recvs_in_order:
  assumes "list_all2 entry_matches msgs es"
  shows "smp_recvs msgs (es @ rest) (init_smp_q h) = Some (Inr (es, init_smp_q h, rest))
     \<and> (\<not> entry_matches msg e \<longrightarrow>
          smp_recvs (msgs @ [msg]) (es @ e # rest) (init_smp_q h) = Some (Inl UninitRead))"
  using assms
proof (induction rule: list_all2_induct)
  case Nil
  show ?case by (simp add: smp_recv_empty_q init_smp_q_def)
next
  case (Cons m ms e' es')
  then show ?case by (simp add: smp_recv_empty_q init_smp_q_def)
qed

theorem smp_recvs_in_order_witness:
  "smp_recvs [\<lparr>r_src = 1, r_nbytes = 100, r_tag = - 1\<rparr>, \<lparr>r_src = 1, r_nbytes = 8, r_tag = 3\<rparr>]
     [\<lparr>p_src = 1, p_nbytes = 64, p_tag = 9, p_offset = 64\<rparr>, \<lparr>p_src = 1, p_nbytes = 16, p_tag = 3, p_offset = 192\<rparr>]
     (init_smp_q (\<lambda>_. \<lparr>p_src = 0, p_nbytes = 0, p_tag = 0, p_offset = 0\<rparr>)) = Some (Inl UninitRead)"
  using smp_recvs_in_order [of "[\<lparr>r_src = 1, r_nbytes = 100, r_tag = - 1\<rparr>]"
      "[\<lparr>p_src = 1, p_nbytes = 64, p_tag = 9, p_offset = 64\<rparr>]" "[]"
      "\<lambda>_. \<lparr>p_src = 0, p_nbytes = 0, p_tag = 0, p_offset = 0\<rparr>"
      "\<lparr>r_src = 1, r_nbytes = 8, r_tag = 3\<rparr>" "\<lparr>p_src = 1, p_nbytes = 16, p_tag = 3, p_offset = 192\<rparr>"]
  by (simp add: entry_matches_def)

section \<open>Sending\<close>

text \<open>
  The entries of one process, by their address in its part of the pool; \<open>nil_entry\<close> is at 0.
  \<open>sizeof(Pool_entry)\<close> is 64.
\<close>

record pool_entry =
  e_next :: int
  e_prev :: int
  e_src :: int
  e_nbytes :: int
  e_tag :: int
  e_flag :: int

record smp_pool =
  ent :: "int \<Rightarrow> pool_entry"
  current :: int

definition sizeof_Pool_entry :: int where "sizeof_Pool_entry = 64"
definition nil_entry :: int where "nil_entry = 0"

definition set_next :: "int \<Rightarrow> int \<Rightarrow> (int \<Rightarrow> pool_entry) \<Rightarrow> int \<Rightarrow> pool_entry" where
  "set_next a b e = e(a := (e a)\<lparr>e_next := b\<rparr>)"

definition set_prev :: "int \<Rightarrow> int \<Rightarrow> (int \<Rightarrow> pool_entry) \<Rightarrow> int \<Rightarrow> pool_entry" where
  "set_prev a b e = e(a := (e a)\<lparr>e_prev := b\<rparr>)"

text \<open>The two loops that collect received entries around the current one.\<close>

partial_function (option) collect_current ::
  "(int \<Rightarrow> pool_entry) \<Rightarrow> int \<Rightarrow> int \<Rightarrow> int \<Rightarrow> ((int \<Rightarrow> pool_entry) \<times> int \<times> int) option" where
  "collect_current e cur prev nxt =
     (if e_flag (e cur) = - 1
      then let e1 = set_next prev nxt e; e2 = set_prev nxt prev e1
           in collect_current e2 prev (e_prev (e2 prev)) nxt
      else Some (e, cur, prev))"

partial_function (option) collect_next ::
  "(int \<Rightarrow> pool_entry) \<Rightarrow> int \<Rightarrow> int \<Rightarrow> ((int \<Rightarrow> pool_entry) \<times> int) option" where
  "collect_next e cur nxt =
     (if e_flag (e nxt) = - 1
      then let e1 = set_next cur (e_next (e nxt)) e;
               e2 = set_prev (e_next (e1 nxt)) cur e1
           in collect_next e2 cur (e_next (e2 nxt))
      else Some (e, nxt))"

text \<open>
  The comparison with \<open>sizeof\<close> is one of 64-bit unsigned numbers: a negative distance is huge.
\<close>

definition room_for :: "int \<Rightarrow> int \<Rightarrow> bool" where
  "room_for gap nbytes \<longleftrightarrow> gap mod 2 ^ 64 > (sizeof_Pool_entry + nbytes) mod 2 ^ 64"

text \<open>
  The search for a place.  The variables \<open>next\<close> and \<open>prev\<close> are not set anew when \<open>current\<close> moves on.
\<close>

partial_function (option) find_place ::
  "int \<Rightarrow> int \<Rightarrow> int \<Rightarrow> (int \<Rightarrow> pool_entry) \<Rightarrow> int \<Rightarrow> int \<Rightarrow> int \<Rightarrow>
     (((int \<Rightarrow> pool_entry) \<times> int \<times> int) outcome) option" where
  "find_place qsz nbytes begin e cur prev nxt =
     (case collect_current e cur prev nxt of None \<Rightarrow> None
      | Some (e1, cur1, prev1) \<Rightarrow>
        (case collect_next e1 cur1 nxt of None \<Rightarrow> None
         | Some (e2, nxt2) \<Rightarrow>
           let fits = (if nxt2 = nil_entry
                 then room_for (nil_entry + qsz - 1 - (cur1 + sizeof_Pool_entry) - e_nbytes (e2 cur1)) nbytes
                 else room_for (nxt2 - 1 - (cur1 + sizeof_Pool_entry) - e_nbytes (e2 cur1)) nbytes);
               cur2 = (if nxt2 = nil_entry then nil_entry else nxt2)
           in if fits then Some (Inr (e2, cur1, nxt2))
              else if cur2 = begin then Some (Inl Exit)
              else find_place qsz nbytes begin e2 cur2 prev1 nxt2))"

text \<open>
  \<open>smp_send\<close>: the new entry is linked behind the place, filled (\<open>flag\<close> 0), its data copied, its
  offset written to the ring of the destination, and \<open>flag\<close> set to 1.  \<open>base\<close> is the start of this
  process's part of the pool; the data of the messages is the memory \<open>data\<close>.
\<close>

record 'a shm_st =
  spool :: smp_pool
  data :: "int \<Rightarrow> 'a"
  out_ring :: fifo

definition link_entry :: "int \<Rightarrow> int \<Rightarrow> int \<Rightarrow> (int \<Rightarrow> pool_entry) \<Rightarrow> int \<Rightarrow> pool_entry" where
  "link_entry cur new nxt e = set_prev nxt new (set_next new nxt (set_prev new cur (set_next cur new e)))"

definition smp_send ::
  "nat \<Rightarrow> (nat \<Rightarrow> nat) \<Rightarrow> int \<Rightarrow> int \<Rightarrow> int \<Rightarrow> int \<Rightarrow> int \<Rightarrow> (int \<Rightarrow> 'a) \<Rightarrow> 'a shm_st \<Rightarrow>
     ((int \<times> 'a shm_st) outcome) option"
where
  "smp_send nsmp env base qsz src tag nbytes buf st =
     (let p = spool st; e0 = ent p; cur = current p in
      map_option (map_sum id (\<lambda>(e, place, nxt).
        let new = place + sizeof_Pool_entry + e_nbytes (e place);
            e1 = link_entry place new nxt e;
            e2 = e1(new := (e1 new)\<lparr>e_flag := 0, e_nbytes := nbytes, e_src := src, e_tag := tag\<rparr>);
            d = (\<lambda>a. if new + sizeof_Pool_entry \<le> a \<and> a < new + sizeof_Pool_entry + nbytes
                     then buf (a - (new + sizeof_Pool_entry)) else data st a);
            f = FIFOwrite nsmp env (word_of_int (base + new)) (out_ring st);
            e3 = e2(new := (e2 new)\<lparr>e_flag := 1\<rparr>)
        in (new, \<lparr>spool = \<lparr>ent = e3, current = new\<rparr>, data = d, out_ring = f\<rparr>)))
      (find_place qsz nbytes cur e0 cur (e_prev (e0 cur)) (e_next (e0 cur))))"

subsection \<open>A pool that has not wrapped around\<close>

text \<open>
  \<open>bump\<close> says that the addresses are the entries in order, each directly behind the one before,
  none of them received, with the current one last.
\<close>

fun chain :: "(int \<Rightarrow> pool_entry) \<Rightarrow> int \<Rightarrow> int list \<Rightarrow> bool" where
  "chain e a [] \<longleftrightarrow> e_next (e a) = nil_entry"
| "chain e a (b # bs) \<longleftrightarrow> e_next (e a) = b \<and> b = a + sizeof_Pool_entry + e_nbytes (e a)
     \<and> e_flag (e b) = 1 \<and> 0 \<le> e_nbytes (e b) \<and> chain e b bs"

definition bump :: "int \<Rightarrow> int list \<Rightarrow> smp_pool \<Rightarrow> bool" where
  "bump qsz as p \<longleftrightarrow> chain (ent p) nil_entry as \<and> e_flag (ent p nil_entry) = 0
     \<and> e_nbytes (ent p nil_entry) = 0 \<and> current p = last (nil_entry # as)
     \<and> current p + sizeof_Pool_entry + e_nbytes (ent p (current p)) \<le> qsz - 1"

lemma find_place_here:
  assumes "e_flag (e cur) \<noteq> - 1" and "e_next (e cur) = nil_entry" and "e_flag (e nil_entry) \<noteq> - 1"
    and "room_for (qsz - 1 - (cur + sizeof_Pool_entry) - e_nbytes (e cur)) nbytes"
  shows "find_place qsz nbytes begin e cur prev nil_entry = Some (Inr (e, cur, nil_entry))"
  using assms
  by (subst find_place.simps) (simp add: collect_current.simps collect_next.simps nil_entry_def)

lemma find_place_wrap:
  assumes "e_flag (e cur) \<noteq> - 1" and "e_flag (e nil_entry) = 0" and "e_nbytes (e nil_entry) = 0"
    and "cur \<noteq> nil_entry"
    and "\<not> room_for (qsz - 1 - (cur + sizeof_Pool_entry) - e_nbytes (e cur)) nbytes"
    and "room_for (qsz - 1 - sizeof_Pool_entry) nbytes"
  shows "find_place qsz nbytes cur e cur prev nil_entry = Some (Inr (e, nil_entry, nil_entry))"
proof -
  have "find_place qsz nbytes cur e nil_entry prev nil_entry = Some (Inr (e, nil_entry, nil_entry))"
    using assms by (subst find_place.simps) (simp add: collect_current.simps collect_next.simps nil_entry_def)
  then show ?thesis
    using assms by (subst find_place.simps) (simp add: collect_current.simps collect_next.simps nil_entry_def)
qed

lemma chain_increasing:
  "chain e a as \<Longrightarrow> 0 \<le> e_nbytes (e a) \<Longrightarrow> (\<forall>b \<in> set as. a < b) \<and> a \<le> last (a # as)"
proof (induction "as" arbitrary: a)
  case (Cons b bs)
  then have "a < b" "(\<forall>c \<in> set bs. b < c) \<and> b \<le> last (b # bs)"
    by (auto simp: sizeof_Pool_entry_def)
  then show ?case by auto
qed simp

lemma chain_last:
  "chain e a as \<Longrightarrow> e_next (e (last (a # as))) = nil_entry \<and> (as \<noteq> [] \<longrightarrow> e_flag (e (last (a # as))) = 1)
     \<and> (0 \<le> e_nbytes (e a) \<longrightarrow> 0 \<le> e_nbytes (e (last (a # as))))"
  by (induction "as" arbitrary: a) auto

lemma chain_snoc:
  assumes "chain e a as" and "0 \<le> e_nbytes (e a)"
    and new: "new = last (a # as) + sizeof_Pool_entry + e_nbytes (e (last (a # as)))"
    and above: "last (a # as) < new"
    and nexts: "\<And>x. x \<noteq> last (a # as) \<Longrightarrow> x \<noteq> new \<Longrightarrow> e_next (e' x) = e_next (e x)"
    and same: "\<And>x. x \<noteq> new \<Longrightarrow> e_nbytes (e' x) = e_nbytes (e x) \<and> e_flag (e' x) = e_flag (e x)"
    and at_last: "e_next (e' (last (a # as))) = new"
    and at_new: "e_next (e' new) = nil_entry" "e_flag (e' new) = 1" "0 \<le> e_nbytes (e' new)"
  shows "chain e' a (as @ [new])"
  using assms(1-4) nexts at_last
proof (induction "as" arbitrary: a)
  case Nil
  with same [of a] at_new show ?case by simp
next
  case (Cons b bs)
  have b: "e_next (e a) = b" "b = a + sizeof_Pool_entry + e_nbytes (e a)" "e_flag (e b) = 1"
      "0 \<le> e_nbytes (e b)" "chain e b bs" using Cons.prems(1) unfolding chain.simps by blast+
  have ab: "a < b" using b(2) Cons.prems(2) by (simp add: sizeof_Pool_entry_def)
  have "b \<le> last (b # bs)" using chain_increasing [OF b(5,4)] by simp
  then have ne: "a \<noteq> last (a # b # bs)" "a \<noteq> new" "b \<noteq> new" using ab Cons.prems(4) by auto
  have "chain e' b (bs @ [new])"
    using Cons.IH [OF b(5,4)] Cons.prems(3-6) by simp
  moreover have "e_next (e' a) = b" using Cons.prems(5) [OF ne(1,2)] b(1) by simp
  ultimately show ?case
    using b(2-4) same [OF ne(2)] same [OF ne(3)] unfolding append_Cons chain.simps by metis
qed

lemma room_for_small:
  "0 \<le> gap \<Longrightarrow> gap < 2 ^ 63 \<Longrightarrow> 0 \<le> nbytes \<Longrightarrow> nbytes < 2 ^ 31 \<Longrightarrow>
     room_for gap nbytes \<longleftrightarrow> sizeof_Pool_entry + nbytes < gap"
  by (simp add: room_for_def sizeof_Pool_entry_def)

lemma bump_current:
  assumes "bump qsz as p"
  shows "e_flag (ent p (current p)) \<noteq> - 1" and "e_next (ent p (current p)) = nil_entry"
    and "0 \<le> e_nbytes (ent p (current p))" and "0 \<le> current p"
  using assms chain_last [of "ent p" nil_entry "as"] chain_increasing [of "ent p" nil_entry "as"]
  by (cases "as = []"; auto simp: bump_def nil_entry_def)+

text \<open>
  As long as the pool lasts, sending is right: a new message is put directly behind the last
  one, inside the pool, with its data in place, no earlier byte is changed, and the pool keeps
  its shape.
\<close>

theorem smp_send_appends:
  assumes bump: "bump qsz as (spool st)" and n: "0 \<le> nbytes" "nbytes < 2 ^ 31" and q: "qsz < 2 ^ 63"
    and fits: "current (spool st) + sizeof_Pool_entry + e_nbytes (ent (spool st) (current (spool st)))
                 + sizeof_Pool_entry + nbytes < qsz - 1"
  shows "\<exists>new st'. smp_send nsmp env base qsz src tag nbytes buf st = Some (Inr (new, st'))
     \<and> bump qsz (as @ [new]) (spool st')
     \<and> new + sizeof_Pool_entry + nbytes \<le> qsz
     \<and> (\<forall>k. 0 \<le> k \<and> k < nbytes \<longrightarrow> data st' (new + sizeof_Pool_entry + k) = buf k)
     \<and> (\<forall>a < new. data st' a = data st a)
     \<and> out_ring st' = FIFOwrite nsmp env (word_of_int (base + new)) (out_ring st)"
proof -
  let ?p = "spool st" and ?e = "ent (spool st)" and ?c = "current (spool st)"
  let ?new = "?c + sizeof_Pool_entry + e_nbytes (?e ?c)"
  note cur = bump_current [OF bump]
  have nil: "e_flag (?e nil_entry) = 0" "chain ?e nil_entry as" "e_nbytes (?e nil_entry) = 0"
    "?c = last (nil_entry # as)" using bump by (simp_all add: bump_def)
  have "room_for (qsz - 1 - (?c + sizeof_Pool_entry) - e_nbytes (?e ?c)) nbytes"
    using fits n q cur(3,4) by (subst room_for_small) (simp_all add: sizeof_Pool_entry_def)
  with cur nil have place: "find_place qsz nbytes ?c ?e ?c (e_prev (?e ?c)) (e_next (?e ?c))
      = Some (Inr (?e, ?c, nil_entry))"
    using find_place_here [of ?e ?c qsz nbytes ?c "e_prev (?e ?c)"] by simp
  let ?e1 = "link_entry ?c ?new nil_entry ?e"
  let ?e2 = "?e1(?new := (?e1 ?new)\<lparr>e_flag := 0, e_nbytes := nbytes, e_src := src, e_tag := tag\<rparr>)"
  let ?e3 = "?e2(?new := (?e2 ?new)\<lparr>e_flag := 1\<rparr>)"
  have pos: "?c < ?new" "nil_entry \<noteq> ?new" using cur(3,4) by (auto simp: sizeof_Pool_entry_def nil_entry_def)
  have ch: "chain ?e3 nil_entry (as @ [?new])"
  proof (rule chain_snoc [of ?e])
    show "?new = last (nil_entry # as) + sizeof_Pool_entry + e_nbytes (?e (last (nil_entry # as)))"
      "last (nil_entry # as) < ?new" using pos nil(4) by simp_all
    show "e_next (?e3 (last (nil_entry # as))) = ?new"
      using pos unfolding nil(4) [symmetric] by (simp add: link_entry_def set_next_def set_prev_def)
    show "e_next (?e3 x) = e_next (?e x)" if "x \<noteq> last (nil_entry # as)" "x \<noteq> ?new" for x
      using that unfolding nil(4) [symmetric] by (simp add: link_entry_def set_next_def set_prev_def)
    show "e_nbytes (?e3 x) = e_nbytes (?e x) \<and> e_flag (?e3 x) = e_flag (?e x)" if "x \<noteq> ?new" for x
      using that by (simp add: link_entry_def set_next_def set_prev_def)
    show "e_next (?e3 ?new) = nil_entry" using pos by (simp add: link_entry_def set_next_def set_prev_def)
  qed (use nil n pos in simp_all)
  have nil3: "e_flag (?e3 nil_entry) = 0" "e_nbytes (?e3 nil_entry) = 0"
    using pos nil by (simp_all add: link_entry_def set_next_def set_prev_def)
  have b: "bump qsz (as @ [?new]) \<lparr>ent = ?e3, current = ?new\<rparr>"
    using ch nil3 fits by (simp add: bump_def)
  have "smp_send nsmp env base qsz src tag nbytes buf st = Some (Inr (?new, \<lparr>spool = \<lparr>ent = ?e3, current = ?new\<rparr>,
      data = (\<lambda>a. if ?new + sizeof_Pool_entry \<le> a \<and> a < ?new + sizeof_Pool_entry + nbytes
                     then buf (a - (?new + sizeof_Pool_entry)) else data st a),
      out_ring = FIFOwrite nsmp env (word_of_int (base + ?new)) (out_ring st)\<rparr>))"
    unfolding smp_send_def Let_def place by simp
  with b fits show ?thesis by (auto simp: sizeof_Pool_entry_def)
qed

text \<open>The pool after \<open>init_smp\<close>: only the nil entry.\<close>

definition init_smp_pool :: smp_pool where
  "init_smp_pool = \<lparr>ent = (\<lambda>_. \<lparr>e_next = 0, e_prev = 0, e_src = 0, e_nbytes = 0, e_tag = 0, e_flag = 0\<rparr>),
     current = nil_entry\<rparr>"

definition init_shm :: "int shm_st" where
  "init_shm = \<lparr>spool = init_smp_pool, data = (\<lambda>_. 0), out_ring = empty_fifo\<rparr>"

lemma init_bump: "64 < qsz \<Longrightarrow> bump qsz [] init_smp_pool"
  by (simp add: bump_def init_smp_pool_def nil_entry_def sizeof_Pool_entry_def)

theorem smp_send_appends_witness:
  "\<exists>new st'. smp_send 2 (\<lambda>_. 0) 0 8192000 0 7 100 (\<lambda>k. k) init_shm = Some (Inr (new, st'))
     \<and> data st' (new + 64 + 5) = 5"
proof -
  have b: "bump 8192000 [] (spool init_shm)" by (simp add: init_shm_def init_bump)
  obtain new st' where "smp_send 2 (\<lambda>_. 0) 0 8192000 0 7 100 (\<lambda>k. k) init_shm = Some (Inr (new, st'))"
    and "\<forall>k. 0 \<le> k \<and> k < 100 \<longrightarrow> data st' (new + sizeof_Pool_entry + k) = k"
    using smp_send_appends [OF b, of 100 2 "\<lambda>_. 0" 0 0 7 "\<lambda>k. k"]
    by (auto simp: init_shm_def init_smp_pool_def sizeof_Pool_entry_def nil_entry_def)
  moreover from this(2) have "data st' (new + sizeof_Pool_entry + 5) = 5" by simp
  ultimately show ?thesis by (auto simp: sizeof_Pool_entry_def)
qed

text \<open>
  When the pool is full it starts again at the beginning without looking: if the new message
  does not fit behind the last one, it is put in the place of the first message, although that
  one has not been received, and its data overwrites it.
\<close>

theorem smp_send_overwrites:
  assumes bump: "bump qsz (b # bs) (spool st)" and n: "0 < nbytes" "nbytes < 2 ^ 31"
    and q: "qsz < 2 ^ 63" and empty_fits: "2 * sizeof_Pool_entry + nbytes < qsz - 1"
    and full: "\<not> current (spool st) + sizeof_Pool_entry + e_nbytes (ent (spool st) (current (spool st)))
                 + sizeof_Pool_entry + nbytes < qsz - 1"
  shows "\<exists>st'. smp_send nsmp env base qsz src tag nbytes buf st = Some (Inr (b, st'))
     \<and> e_flag (ent (spool st) b) = 1
     \<and> data st' (b + sizeof_Pool_entry) = buf 0"
proof -
  let ?e = "ent (spool st)" and ?c = "current (spool st)"
  note cur = bump_current [OF bump]
  have nil: "e_flag (?e nil_entry) = 0" "chain ?e nil_entry (b # bs)" "e_nbytes (?e nil_entry) = 0"
    "?c = last (b # bs)" "?c + sizeof_Pool_entry + e_nbytes (?e ?c) \<le> qsz - 1"
    using bump unfolding bump_def by (blast, blast, blast, metis last_ConsR list.distinct(1), blast)
  have "b = nil_entry + sizeof_Pool_entry + e_nbytes (?e nil_entry)" "e_flag (?e b) = 1"
    "chain ?e b bs" "0 \<le> e_nbytes (?e b)" using nil(2) unfolding chain.simps by blast+
  note ch = this(3,4) and b = this(1) [unfolded nil(3) add_0_right] this(2)
  have "b \<le> ?c" using chain_increasing [OF ch] nil(4) by simp
  with b(1) have "?c \<noteq> nil_entry" by (simp add: sizeof_Pool_entry_def nil_entry_def)
  moreover have "\<not> room_for (qsz - 1 - (?c + sizeof_Pool_entry) - e_nbytes (?e ?c)) nbytes"
    using full n q nil(5) cur(3,4) by (subst room_for_small) (simp_all add: sizeof_Pool_entry_def)
  moreover have "room_for (qsz - 1 - sizeof_Pool_entry) nbytes"
    using empty_fits n q by (subst room_for_small) (simp_all add: sizeof_Pool_entry_def)
  ultimately have place: "find_place qsz nbytes ?c ?e ?c (e_prev (?e ?c)) (e_next (?e ?c))
      = Some (Inr (?e, nil_entry, nil_entry))"
    unfolding cur(2) by (rule find_place_wrap [OF cur(1) nil(1,3)])
  show ?thesis
    unfolding smp_send_def Let_def place using nil(3) b n by simp
qed

definition one_message :: smp_pool where
  "one_message = \<lparr>ent = (\<lambda>a. if a = 64
       then \<lparr>e_next = 0, e_prev = 0, e_src = 0, e_nbytes = 8000, e_tag = 1, e_flag = 1\<rparr>
       else \<lparr>e_next = 64, e_prev = 64, e_src = 0, e_nbytes = 0, e_tag = 0, e_flag = 0\<rparr>),
     current = 64\<rparr>"

theorem smp_send_overwrites_witness:
  "\<exists>st'. smp_send 2 (\<lambda>_. 0) 0 8192 0 7 100 (\<lambda>k. k + 1)
        \<lparr>spool = one_message, data = (\<lambda>_. 0), out_ring = empty_fifo\<rparr> = Some (Inr (64, st'))
     \<and> data st' 128 = 1"
proof -
  let ?st = "\<lparr>spool = one_message, data = (\<lambda>_. 0 :: int), out_ring = empty_fifo\<rparr>"
  have b: "bump 8192 [64] (spool ?st)"
    by (simp add: bump_def one_message_def nil_entry_def sizeof_Pool_entry_def)
  show ?thesis
    using smp_send_overwrites [OF b, of 100 2 "\<lambda>_. 0" 0 0 7 "\<lambda>k. k + 1"]
    by (auto simp: one_message_def sizeof_Pool_entry_def)
qed

text \<open>
  The shared memory is laid out without overlap: the parts of the processes, the array of the
  barrier and the rings follow one another inside the segment, and for up to 4000 processes
  its size fits into an \<open>int\<close>.
\<close>

theorem smp_layout:
  assumes "2 \<le> nsmp" and "nsmp \<le> 1000"
  shows "(\<forall>r < nsmp. 0 < smp_q_size (int nsmp)
            \<and> (int r + 1) * smp_q_size (int nsmp) \<le> int nsmp * smp_q_size (int nsmp))
    \<and> 4 * int nsmp \<le> smp_sync_size (int nsmp)
    \<and> int nsmp * smp_q_size (int nsmp) + smp_sync_size (int nsmp) + int (sizeofFifo nsmp) = smp_pool_size nsmp
    \<and> is_c_int (smp_pool_size nsmp)"
proof -
  let ?n = "int nsmp"
  have n: "2 \<le> ?n" "?n \<le> 1000" using assms by simp_all
  have q: "smp_q_size ?n = 4000 div ?n * 4096" using n by (simp add: smp_q_size_def)
  have "?n div ?n \<le> 4000 div ?n" using n by (intro zdiv_mono1) simp_all
  then have qpos: "1 \<le> 4000 div ?n" using n by simp
  have "4000 div ?n * ?n + 4000 mod ?n = 4000" by (rule div_mult_mod_eq)
  moreover have "0 \<le> 4000 mod ?n" using n by simp
  ultimately have qn: "?n * (4000 div ?n) \<le> 4000" by (simp only: mult.commute)
  have s: "smp_sync_size ?n = (?n * 4 + 4095) div 4096 * 4096" by (simp add: smp_sync_size_def)
  have sync: "4 * ?n \<le> smp_sync_size ?n" "0 \<le> smp_sync_size ?n" "smp_sync_size ?n \<le> ?n * 4 + 4095"
  proof -
    have "(?n * 4 + 4095) div 4096 * 4096 + (?n * 4 + 4095) mod 4096 = ?n * 4 + 4095" by (rule div_mult_mod_eq)
    moreover have "0 \<le> (?n * 4 + 4095) mod 4096" "(?n * 4 + 4095) mod 4096 < 4096" by simp_all
    ultimately show "4 * ?n \<le> smp_sync_size ?n" "0 \<le> smp_sync_size ?n" "smp_sync_size ?n \<le> ?n * 4 + 4095"
      using n unfolding s by linarith+
  qed
  have "nsmp * nsmp \<le> 1000 * 1000" using assms(2) by (intro mult_le_mono) simp_all
  then have "nsmp * nsmp * sizeof_Fifo + 4095 \<le> 328004095"
    by (simp add: sizeof_Fifo_def FIFO_MAX_def)
  then have "sizeofFifo nsmp \<le> 328004095"
    unfolding sizeofFifo_def using div_times_less_eq_dividend order_trans by blast
  then have fifo: "int (sizeofFifo nsmp) \<le> 328004095" by simp
  have "smp_pool_size nsmp \<le> 4000 * 4096 + (1000 * 4 + 4095) + 328004095"
    using fifo sync(3) n qn unfolding smp_pool_size_def q by (simp add: algebra_simps)
  moreover have "0 \<le> smp_pool_size nsmp" using sync(2) qpos n unfolding smp_pool_size_def q by simp
  ultimately have int: "is_c_int (smp_pool_size nsmp)" by (simp add: is_c_int_def INT_MIN_def INT_MAX_def)
  have "0 < smp_q_size ?n \<and> (int r + 1) * smp_q_size ?n \<le> ?n * smp_q_size ?n" if "r < nsmp" for r
    using that qpos unfolding q by (intro conjI mult_right_mono) simp_all
  with sync(1) int show ?thesis by (simp add: smp_pool_size_def)
qed

theorem smp_layout_witness: "is_c_int (smp_pool_size 4) \<and> 16 \<le> smp_sync_size 4"
  using smp_layout [of 4] by simp

end
