(* ===== verification/Sending.thy ===== *)
theory Sending
  imports Utils
begin

text \<open>
  The asynchronous messages of \<open>MP_Lite/tcp.c\<close>, first part: the message headers of \<open>msg_list\<close>,
  their allocation, and the send queue of one destination with the routines that write it to the
  socket.  One network card is used (\<open>nics\<close> is 1), so \<open>nbl[0]\<close> and \<open>ptr[0]\<close> are one number
  each: \<open>ptr[0]\<close> stands \<open>nbytes - nbl[0]\<close> bytes behind \<open>buf\<close>.  A linked list of headers is the
  list of their indices in \<open>msg_list\<close>.
\<close>

section \<open>Message headers\<close>

definition HDR :: nat where "HDR = nat HDRSIZE"

lemma HDR_eq [simp]: "HDR = 24"
  by (simp add: HDR_def HDRSIZE_def)

definition MAX_MSGS :: nat where "MAX_MSGS = 10000"

text \<open>\<open>e_buf\<close> is the memory at \<open>buf\<close>; \<open>None\<close> is the null pointer that marks a free header.\<close>

record entry =
  e_nbytes :: nat
  e_src :: nat
  e_tag :: int
  e_nleft :: int
  e_nbl :: nat
  e_nhdr :: nat
  e_send_flag :: nat
  e_recv_flag :: nat
  e_stats :: nat
  e_buf :: "8 word list option"

definition msg_null :: entry where
  "msg_null = \<lparr>e_nbytes = 0, e_src = 0, e_tag = -1, e_nleft = 0, e_nbl = 0, e_nhdr = 0,
     e_send_flag = 0, e_recv_flag = 0, e_stats = 0, e_buf = None\<rparr>"

text \<open>\<open>set_message\<close> for one card.\<close>

definition set_entry :: "nat \<Rightarrow> nat \<Rightarrow> int \<Rightarrow> entry \<Rightarrow> entry" where
  "set_entry nbytes src tag e =
     e\<lparr>e_src := src, e_tag := tag, e_nbytes := nbytes, e_nbl := nbytes,
       e_nleft := int (nbytes + HDR), e_nhdr := HDR\<rparr>"

text \<open>
  \<open>create_msg_entry\<close> looks for the next free header in a circle, starting behind the one that was
  found last.
\<close>

definition next_free :: "(nat \<Rightarrow> entry) \<Rightarrow> nat \<Rightarrow> nat outcome" where
  "next_free es mid =
     (case find (\<lambda>k. e_buf (es ((mid + k) mod MAX_MSGS)) = None) [1..<MAX_MSGS + 1] of
        None \<Rightarrow> Inl (ErrorX ''You have more than MAX_MSGS outstanding message headers'')
      | Some k \<Rightarrow> Inr ((mid + k) mod MAX_MSGS))"

definition create_msg_entry ::
  "8 word list \<Rightarrow> nat \<Rightarrow> nat \<Rightarrow> bool \<Rightarrow> int \<Rightarrow> (nat \<Rightarrow> entry) \<Rightarrow> nat \<Rightarrow> (nat \<times> (nat \<Rightarrow> entry)) outcome"
where
  "create_msg_entry buf nbytes src sending tag es mid =
     obind (next_free es mid) (\<lambda>i.
       let e = set_entry nbytes src tag (msg_null\<lparr>e_buf := Some buf\<rparr>)
       in Inr (i, es(i := (if sending then e\<lparr>e_send_flag := 1\<rparr> else e\<lparr>e_recv_flag := 1\<rparr>))))"

text \<open>
  \<open>update_msg_progress\<close>, for a transfer of \<open>n\<close> bytes (an error has stopped the program before).
\<close>

definition update_msg_progress :: "nat \<Rightarrow> entry \<Rightarrow> entry" where
  "update_msg_progress n e =
     (let e1 = e\<lparr>e_nleft := e_nleft e - int n, e_stats := e_stats e + 1\<rparr>
      in if 0 < e_nhdr e then e1\<lparr>e_nhdr := e_nhdr e - n\<rparr> else e1\<lparr>e_nbl := e_nbl e - n\<rparr>)"

lemma next_free_Inr: "next_free es mid = Inr i \<Longrightarrow> i < MAX_MSGS \<and> e_buf (es i) = None"
  by (auto simp: next_free_def find_Some_iff MAX_MSGS_def split: option.splits)

lemma next_free_next:
  assumes "e_buf (es ((mid + 1) mod MAX_MSGS)) = None"
  shows "next_free es mid = Inr ((mid + 1) mod MAX_MSGS)"
proof -
  have "1 < MAX_MSGS + 1" by (simp add: MAX_MSGS_def)
  then have "[1..<MAX_MSGS + 1] = 1 # [Suc 1..<MAX_MSGS + 1]" by (rule upt_conv_Cons)
  with assms show ?thesis by (simp only: next_free_def find.simps simp_thms if_True option.case)
qed

lemma create_Inr:
  assumes "create_msg_entry buf nbytes src sending tag es mid = Inr (i, es')"
  shows "e_buf (es i) = None" "es' = es(i := es' i)" "e_buf (es' i) = Some buf"
    "e_nbytes (es' i) = nbytes" "e_src (es' i) = src" "e_tag (es' i) = tag"
    "e_nleft (es' i) = int nbytes + 24" "e_nbl (es' i) = nbytes" "e_nhdr (es' i) = 24"
    "e_send_flag (es' i) = (if sending then 1 else 0)" "i < MAX_MSGS"
    "e_recv_flag (es' i) = (if sending then 0 else 1)"
  using assms next_free_Inr [of es mid i]
  by (auto simp: create_msg_entry_def obind_Inr_iff set_entry_def msg_null_def Let_def)

section \<open>What goes over a connection\<close>

text \<open>
  The bytes of a header are kept apart from bytes of data: \<open>HB h k\<close> is byte \<open>k\<close> of the header
  \<open>h\<close>, so that reading one in the place of the other can be seen.
\<close>

record header =
  hd_nbytes :: nat
  hd_src :: nat
  hd_tag :: int

datatype witem = HB header nat | DB "8 word"

definition frame :: "header \<Rightarrow> 8 word list \<Rightarrow> witem list" where
  "frame h data = map (HB h) [0..<HDR] @ map DB data"

text \<open>The header is the beginning of the entry itself.\<close>

definition header_of :: "entry \<Rightarrow> header" where
  "header_of e = \<lparr>hd_nbytes = e_nbytes e, hd_src = e_src e, hd_tag = e_tag e\<rparr>"

text \<open>What is left to write of the header, at \<open>phdr\<close>, and of the data, at \<open>ptr[0]\<close>.\<close>

definition hdr_left :: "entry \<Rightarrow> witem list" where
  "hdr_left e = drop (HDR - e_nhdr e) (map (HB (header_of e)) [0..<HDR])"

definition data_left :: "entry \<Rightarrow> witem list" where
  "data_left e = map DB (take (e_nbl e) (drop (e_nbytes e - e_nbl e) (the (e_buf e))))"

section \<open>The send queue of one destination\<close>

text \<open>
  \<open>x_as\<close> holds the answers of the system to the coming writes: how many bytes it takes, that it
  would block, or an error.  When they are used up, the socket takes nothing.
\<close>

datatype sys = Moved nat | Blocked | Failed

record sender =
  x_list :: "nat \<Rightarrow> entry"
  x_mid :: nat
  x_q :: "nat list"
  x_active :: bool
  x_wire :: "witem list"
  x_as :: "sys list"

text \<open>One \<open>write\<close> of the bytes \<open>bs\<close> and the \<open>update_msg_progress\<close> after it.\<close>

definition write_part :: "nat \<Rightarrow> witem list \<Rightarrow> sender \<Rightarrow> (nat \<times> sender) outcome" where
  "write_part i bs s =
     (let moved = (\<lambda>n as. Inr (n, s\<lparr>x_wire := x_wire s @ take n bs, x_as := as,
                       x_list := (x_list s)(i := update_msg_progress n (x_list s i))\<rparr>))
      in case x_as s of
           [] \<Rightarrow> moved 0 []
         | Moved k # as \<Rightarrow> moved (min k (length bs)) as
         | Blocked # as \<Rightarrow> moved 0 as
         | Failed # as \<Rightarrow> Inl (ErrorX ''send() - write() failed''))"

definition mtu_one_nic :: nat where "mtu_one_nic = 1000000"

text \<open>\<open>write_msg\<close>; its \<open>n\<close> is not set if there is neither header nor data to write.\<close>

definition tcp_write_msg :: "nat \<Rightarrow> sender \<Rightarrow> (nat \<times> sender) outcome" where
  "tcp_write_msg i s =
     obind (if e_nhdr (x_list s i) \<noteq> 0
            then obind (write_part i (hdr_left (x_list s i)) s) (\<lambda>(n, s). Inr (Some n, s))
            else Inr (None, s)) (\<lambda>(n, s).
       let e = x_list s i in
       if e_nhdr e = 0 \<and> 0 < e_nbl e
       then write_part i (take (min (e_nbl e) mtu_one_nic) (data_left e)) s
       else case n of None \<Rightarrow> Inl UninitRead | Some n \<Rightarrow> Inr (n, s))"

lemma write_part_answers:
  "write_part i bs s = Inr (n, s') \<Longrightarrow>
     length (x_as s') \<le> length (x_as s) \<and> (0 < n \<longrightarrow> length (x_as s') < length (x_as s))
     \<and> x_q s' = x_q s"
  by (auto simp: write_part_def Let_def split: list.splits sys.splits)

lemma tcp_write_msg_answers:
  "tcp_write_msg i s = Inr (n, s') \<Longrightarrow>
     length (x_as s') \<le> length (x_as s) \<and> (0 < n \<longrightarrow> length (x_as s') < length (x_as s))
     \<and> x_q s' = x_q s"
  by (auto simp: tcp_write_msg_def Let_def obind_Inr_iff split: if_splits option.splits prod.splits
      dest!: write_part_answers)

text \<open>The loop of \<open>do_send\<close>: a write that takes nothing is tried again once, after a nap.\<close>

function send_loop :: "nat \<Rightarrow> bool \<Rightarrow> sender \<Rightarrow> sender outcome" where
  "send_loop i cat_nap s =
     (if e_nleft (x_list s i) \<le> 0 then Inr s
      else case tcp_write_msg i s of
             Inl e \<Rightarrow> Inl e
           | Inr (m, s') \<Rightarrow>
               if m = 0 \<and> cat_nap then send_loop i False s'
               else if m = 0 then Inr s'
               else send_loop i True s')"
  by pat_completeness auto
termination
  by (relation "measures [\<lambda>(i, nap, s). length (x_as s), \<lambda>(i, nap, s). if nap then 1 else 0]")
     (auto dest!: tcp_write_msg_answers)

declare send_loop.simps [simp del]

text \<open>What a step of the loop keeps, the loop keeps.\<close>

lemma send_loop_rule:
  assumes "send_loop i nap s = Inr s'" and "P s"
    and "\<And>s m s'. P s \<Longrightarrow> 0 < e_nleft (x_list s i) \<Longrightarrow> tcp_write_msg i s = Inr (m, s') \<Longrightarrow> P s'"
  shows "P s'"
  using assms
proof (induction i nap s rule: send_loop.induct)
  case (1 i nap s)
  show ?case
  proof (cases "e_nleft (x_list s i) \<le> 0")
    case True
    with "1.prems" show ?thesis by (simp add: send_loop.simps)
  next
    case False
    with "1.prems"(1) obtain m s1 where w: "tcp_write_msg i s = Inr (m, s1)"
      by (subst (asm) send_loop.simps) (auto split: sum.splits)
    have P: "P s1" by (rule "1.prems"(3) [OF "1.prems"(2) _ w]) (use False in simp)
    from "1.prems"(1) False w
    consider "m = 0" "nap" "send_loop i False s1 = Inr s'" | "s' = s1"
      | "0 < m" "send_loop i True s1 = Inr s'"
      by (subst (asm) send_loop.simps) (auto split: if_splits)
    then show ?thesis using "1.IH" [OF False w refl] P "1.prems"(3) by cases auto
  qed
qed

lemma send_loop_q: "send_loop i nap s = Inr s' \<Longrightarrow> x_q s' = x_q s"
  by (rule send_loop_rule [where P = "\<lambda>t. x_q t = x_q s"]) (auto dest: tcp_write_msg_answers)

text \<open>
  \<open>do_send\<close>: a finished message leaves the queue; if nobody will wait for it, its header becomes
  free; then the next message is sent.
\<close>

definition release_sent :: "entry \<Rightarrow> entry" where
  "release_sent e = (if e_send_flag e = 3 \<or> e_send_flag e = 4 then e\<lparr>e_buf := None\<rparr> else e)"

function do_send :: "sender \<Rightarrow> sender outcome" where
  "do_send s = (case x_q s of
     [] \<Rightarrow> Inl NullDeref
   | i # rest \<Rightarrow> (case send_loop i True s of
       Inl e \<Rightarrow> Inl e
     | Inr s1 \<Rightarrow>
         if 0 < e_nleft (x_list s1 i) then Inr (s1\<lparr>x_active := True\<rparr>)
         else let s2 = s1\<lparr>x_q := rest, x_list := (x_list s1)(i := release_sent (x_list s1 i))\<rparr>
              in if rest = [] then Inr (s2\<lparr>x_active := False\<rparr>) else do_send s2))"
  by pat_completeness auto
termination by (relation "measure (\<lambda>s. length (x_q s))") auto

declare do_send.simps [simp del]

text \<open>\<open>post\<close> to the send queue and \<open>tcp_asend\<close>.\<close>

definition tcp_asend :: "nat \<Rightarrow> sender \<Rightarrow> sender outcome" where
  "tcp_asend i s =
     (let s1 = s\<lparr>x_q := x_q s @ [i]\<rparr> in if x_active s1 then Inr s1 else do_send s1)"

definition MP_ASend :: "nat \<Rightarrow> 8 word list \<Rightarrow> int \<Rightarrow> sender \<Rightarrow> (nat \<times> sender) outcome" where
  "MP_ASend myproc buf tag s =
     obind (create_msg_entry buf (length buf) myproc True tag (x_list s) (x_mid s)) (\<lambda>(i, es).
       map_sum id (Pair i) (tcp_asend i (s\<lparr>x_list := es, x_mid := i\<rparr>)))"

text \<open>
  \<open>MP_Wait\<close> for a send: what is left goes to a send buffer, and the header of a finished send
  becomes free.  Since \<open>MP_Wait\<close> sets the user's handle to -1, a send is waited for once.
\<close>

definition MP_Wait_send :: "nat \<Rightarrow> sender \<Rightarrow> sender outcome" where
  "MP_Wait_send i s =
     (let e = x_list s i in
      if e_buf e = None then Inl (ErrorX ''MP_Wait() has NULL msg'')
      else if e_nleft e = 0 then Inr (s\<lparr>x_list := (x_list s)(i := e\<lparr>e_buf := None\<rparr>)\<rparr>)
      else if e_send_flag e = 1 then Inr (s\<lparr>x_list := (x_list s)(i := e\<lparr>e_send_flag := 3\<rparr>)\<rparr>)
      else Inr s)"

text \<open>The part of \<open>sigio_handler\<close> that serves this destination.\<close>

definition sigio_send :: "sender \<Rightarrow> sender outcome" where
  "sigio_send s = (if x_active s then do_send s else Inr s)"

section \<open>What is sent arrives on the connection in order\<close>

definition entry_ok :: "entry \<Rightarrow> bool" where
  "entry_ok e \<longleftrightarrow> (case e_buf e of None \<Rightarrow> False | Some d \<Rightarrow> length d = e_nbytes e)
     \<and> e_nhdr e \<le> HDR \<and> (0 < e_nhdr e \<longrightarrow> e_nbl e = e_nbytes e) \<and> e_nbl e \<le> e_nbytes e
     \<and> e_nleft e = int (e_nhdr e + e_nbl e)"

lemma entry_ok_nleft: "entry_ok e \<Longrightarrow> 0 \<le> e_nleft e"
  by (simp add: entry_ok_def)

definition to_write :: "entry \<Rightarrow> witem list" where
  "to_write e = hdr_left e @ data_left e"

lemma length_hdr_left: "e_nhdr e \<le> HDR \<Longrightarrow> length (hdr_left e) = e_nhdr e"
  by (simp add: hdr_left_def)

lemma length_data_left: "entry_ok e \<Longrightarrow> length (data_left e) = e_nbl e"
  by (auto simp: data_left_def entry_ok_def split: option.splits)

lemma progress_ok:
  assumes "entry_ok e" and "n \<le> (if 0 < e_nhdr e then e_nhdr e else e_nbl e)"
  shows "entry_ok (update_msg_progress n e)"
  using assms by (auto simp: entry_ok_def update_msg_progress_def Let_def split: option.splits)

lemma progress_to_write:
  assumes ok: "entry_ok e" and n: "n \<le> (if 0 < e_nhdr e then e_nhdr e else e_nbl e)"
  shows "to_write (update_msg_progress n e) = drop n (to_write e)"
proof (cases "0 < e_nhdr e")
  case True
  with n have "hdr_left (update_msg_progress n e) = drop n (hdr_left e)"
    using ok by (simp add: hdr_left_def update_msg_progress_def header_of_def Let_def entry_ok_def add.commute)
  moreover have "data_left (update_msg_progress n e) = data_left e"
    using True by (simp add: data_left_def update_msg_progress_def Let_def)
  ultimately show ?thesis using True n ok by (simp add: to_write_def length_hdr_left entry_ok_def)
next
  case False
  then have h: "hdr_left (update_msg_progress n e) = []" "hdr_left e = []"
    by (simp_all add: hdr_left_def update_msg_progress_def Let_def)
  have "e_nbytes e - (e_nbl e - n) = n + (e_nbytes e - e_nbl e)"
    using False n ok by (simp add: entry_ok_def)
  then have "data_left (update_msg_progress n e) = drop n (data_left e)"
    using False by (simp add: data_left_def update_msg_progress_def Let_def drop_map drop_take)
  with h show ?thesis by (simp add: to_write_def)
qed

text \<open>
  The invariant: what is on the wire, followed by what is left of the queued messages, is what
  was given to \<open>MP_ASend\<close>; an unfinished message is in the queue.
\<close>

definition send_core :: "(header \<times> 8 word list) list \<Rightarrow> sender \<Rightarrow> bool" where
  "send_core sent s \<longleftrightarrow>
     x_wire s @ concat (map (\<lambda>i. to_write (x_list s i)) (x_q s)) = concat (map (\<lambda>(h, d). frame h d) sent)
     \<and> distinct (x_q s) \<and> (\<forall>i \<in> set (x_q s). entry_ok (x_list s i))
     \<and> (\<forall>i. e_buf (x_list s i) \<noteq> None \<longrightarrow> i \<in> set (x_q s) \<or> e_nleft (x_list s i) = 0)"

definition send_inv :: "(header \<times> 8 word list) list \<Rightarrow> sender \<Rightarrow> bool" where
  "send_inv sent s \<longleftrightarrow> send_core sent s \<and> x_active s = (x_q s \<noteq> [])
     \<and> (\<forall>i \<in> set (x_q s). 0 < e_nleft (x_list s i))"

lemma write_part_core:
  assumes w: "write_part i bs s = Inr (n, s')" and core: "send_core sent s" and q: "x_q s = i # rest"
    and bs: "take (length bs) (to_write (x_list s i)) = bs"
      "length bs \<le> (if 0 < e_nhdr (x_list s i) then e_nhdr (x_list s i) else e_nbl (x_list s i))"
  shows "send_core sent s' \<and> x_q s' = i # rest \<and> (\<forall>j \<in> set rest. x_list s' j = x_list s j)"
proof -
  let ?e = "x_list s i"
  from w obtain as where n: "n \<le> length bs"
      and s': "s' = s\<lparr>x_wire := x_wire s @ take n bs, x_as := as,
                  x_list := (x_list s)(i := update_msg_progress n ?e)\<rparr>"
    by (auto simp: write_part_def Let_def split: list.splits sys.splits)
  have ok: "entry_ok ?e" and d: "i \<notin> set rest" using core q by (auto simp: send_core_def)
  have le: "n \<le> (if 0 < e_nhdr ?e then e_nhdr ?e else e_nbl ?e)" using n bs(2) by linarith
  have "take n bs = take n (to_write ?e)" using n bs(1) by (metis min.absorb1 take_take)
  then have front: "to_write ?e = take n bs @ to_write (update_msg_progress n ?e)"
    by (simp add: progress_to_write [OF ok le])
  have others: "map (\<lambda>j. to_write (x_list s' j)) rest = map (\<lambda>j. to_write (x_list s j)) rest"
    using d s' by (auto intro!: map_cong)
  have wire: "x_wire s' @ concat (map (\<lambda>j. to_write (x_list s' j)) (x_q s'))
      = x_wire s @ concat (map (\<lambda>j. to_write (x_list s j)) (x_q s))"
  proof -
    have "x_list s' i = update_msg_progress n ?e" "x_q s' = i # rest" "x_wire s' = x_wire s @ take n bs"
      by (simp_all add: s' q)
    with others show ?thesis by (simp only: q list.map concat.simps append_assoc front)
  qed
  have "e_buf (update_msg_progress n ?e) = e_buf ?e" "x_q s' = i # rest"
    "\<forall>j \<in> set rest. x_list s' j = x_list s j"
    using d by (auto simp: update_msg_progress_def Let_def s' q)
  then show ?thesis
    using core progress_ok [OF ok le] wire unfolding send_core_def by (auto simp: q s')
qed

lemma tcp_write_msg_core:
  assumes w: "tcp_write_msg i s = Inr (n, s')" and core: "send_core sent s" and q: "x_q s = i # rest"
  shows "send_core sent s' \<and> x_q s' = i # rest \<and> (\<forall>j \<in> set rest. x_list s' j = x_list s j)"
proof -
  let ?keep = "\<lambda>t. send_core sent t \<and> x_q t = i # rest \<and> (\<forall>j \<in> set rest. x_list t j = x_list s j)"
  from w obtain n1 s1 where one: "e_nhdr (x_list s i) \<noteq> 0 \<Longrightarrow> write_part i (hdr_left (x_list s i)) s = Inr (n1, s1)"
      "e_nhdr (x_list s i) = 0 \<Longrightarrow> s1 = s"
      and two: "s' = s1 \<or> (e_nhdr (x_list s1 i) = 0
        \<and> write_part i (take (min (e_nbl (x_list s1 i)) mtu_one_nic) (data_left (x_list s1 i))) s1 = Inr (n, s'))"
    by (auto simp: tcp_write_msg_def Let_def obind_Inr_iff split: if_splits option.splits prod.splits)
  have ok: "entry_ok (x_list s i)" using core q by (simp add: send_core_def)
  have s1: "?keep s1"
  proof (cases "e_nhdr (x_list s i) = 0")
    case False
    from write_part_core [OF one(1) core q] False ok show ?thesis
      by (simp add: to_write_def length_hdr_left entry_ok_def)
  qed (use one(2) core q in simp)
  then have ok1: "entry_ok (x_list s1 i)" by (simp add: send_core_def)
  from two show ?thesis
  proof
    assume t: "e_nhdr (x_list s1 i) = 0
        \<and> write_part i (take (min (e_nbl (x_list s1 i)) mtu_one_nic) (data_left (x_list s1 i))) s1 = Inr (n, s')"
    have l: "length (data_left (x_list s1 i)) = e_nbl (x_list s1 i)" by (rule length_data_left [OF ok1])
    have h: "hdr_left (x_list s1 i) = []" using t by (simp add: hdr_left_def)
    from write_part_core [OF conjunct2 [OF t], of sent rest] s1 t l h show ?thesis
      by (simp add: to_write_def)
  qed (use s1 in simp)
qed

lemma send_loop_core:
  assumes "send_loop i nap s = Inr s'" and "send_core sent s" and "x_q s = i # rest"
  shows "send_core sent s' \<and> x_q s' = i # rest \<and> (\<forall>j \<in> set rest. x_list s' j = x_list s j)"
  by (rule send_loop_rule [OF assms(1)]) (use assms(2,3) tcp_write_msg_core in \<open>auto 0 3\<close>)

lemma core_detach:
  assumes core: "send_core sent s" and q: "x_q s = i # rest" and l: "e_nleft (x_list s i) = 0"
    and s': "s' = s\<lparr>x_q := rest, x_list := (x_list s)(i := release_sent (x_list s i))\<rparr>"
  shows "send_core sent s'"
proof -
  have "i \<notin> set rest" and ok: "entry_ok (x_list s i)" using core q by (simp_all add: send_core_def)
  then have others: "map (\<lambda>j. to_write (x_list s' j)) rest = map (\<lambda>j. to_write (x_list s j)) rest"
    by (auto simp: s')
  have "e_nhdr (x_list s i) = 0" "e_nbl (x_list s i) = 0" using ok l by (simp_all add: entry_ok_def)
  then have "to_write (x_list s i) = []" by (simp add: to_write_def hdr_left_def data_left_def)
  moreover have "x_wire s' = x_wire s" "x_q s' = rest" by (simp_all add: s')
  ultimately have "x_wire s' @ concat (map (\<lambda>j. to_write (x_list s' j)) (x_q s'))
      = x_wire s @ concat (map (\<lambda>j. to_write (x_list s j)) (x_q s))"
    using others by (simp only: q list.map concat.simps append_Nil)
  moreover have "e_nleft (x_list s' i) = 0" using l by (simp add: s' release_sent_def)
  ultimately show ?thesis
    using core \<open>i \<notin> set rest\<close> unfolding send_core_def by (auto simp: q s')
qed

lemma do_send_inv:
  assumes "do_send s = Inr s'" and "send_core sent s" and "\<forall>i \<in> set (x_q s). 0 < e_nleft (x_list s i)"
  shows "send_inv sent s'"
  using assms
proof (induction s rule: do_send.induct)
  case (1 s)
  from "1.prems"(1) obtain i rest s1 where q: "x_q s = i # rest" and l: "send_loop i True s = Inr s1"
    by (subst (asm) do_send.simps) (auto split: list.splits sum.splits)
  have c1: "send_core sent s1" "x_q s1 = i # rest" "\<forall>j \<in> set rest. x_list s1 j = x_list s j"
    using send_loop_core [OF l "1.prems"(2) q] by simp_all
  show ?case
  proof (cases "0 < e_nleft (x_list s1 i)")
    case True
    with "1.prems"(1) q l have "s' = s1\<lparr>x_active := True\<rparr>" by (subst (asm) do_send.simps) simp
    with True c1 "1.prems"(3) q show ?thesis by (auto simp: send_inv_def send_core_def)
  next
    case False
    let ?s2 = "s1\<lparr>x_q := rest, x_list := (x_list s1)(i := release_sent (x_list s1 i))\<rparr>"
    have "0 \<le> e_nleft (x_list s1 i)" using c1(1,2) by (simp add: send_core_def entry_ok_nleft)
    with False have c2: "send_core sent ?s2" by (intro core_detach [OF c1(1,2) _ refl]) simp
    have "i \<notin> set rest" using c1(1,2) by (simp add: send_core_def)
    then have left: "\<forall>j \<in> set (x_q ?s2). 0 < e_nleft (x_list ?s2 j)" using c1(3) "1.prems"(3) q by auto
    show ?thesis
    proof (cases "rest = []")
      case True
      with False "1.prems"(1) q l have "s' = ?s2\<lparr>x_active := False\<rparr>" by (subst (asm) do_send.simps) simp
      with True c2 show ?thesis by (simp add: send_inv_def send_core_def)
    next
      case rest: False
      with False "1.prems"(1) q l have "do_send ?s2 = Inr s'" by (subst (asm) do_send.simps) simp
      from "1.IH" [OF q l False refl rest this c2 left] show ?thesis .
    qed
  qed
qed

subsection \<open>Sequences of operations\<close>

text \<open>
  What happens to a sender: a message is sent, a send is waited for, the signal handler runs, and
  the system gives its answers to the next writes.
\<close>

datatype sending = Op_ASend "8 word list" int | Op_Wait nat | Op_sigio | Op_system "sys list"

fun send_op :: "nat \<Rightarrow> sending \<Rightarrow> sender \<Rightarrow> sender outcome" where
  "send_op me (Op_ASend buf tag) s = map_sum id snd (MP_ASend me buf tag s)"
| "send_op me (Op_Wait i) s = MP_Wait_send i s"
| "send_op me Op_sigio s = sigio_send s"
| "send_op me (Op_system as) s = Inr (s\<lparr>x_as := as\<rparr>)"

fun send_run :: "nat \<Rightarrow> sending list \<Rightarrow> sender \<Rightarrow> sender outcome" where
  "send_run me [] s = Inr s"
| "send_run me (op # ops) s = obind (send_op me op s) (send_run me ops)"

fun sent_by :: "nat \<Rightarrow> sending \<Rightarrow> (header \<times> 8 word list) list" where
  "sent_by me (Op_ASend buf tag) =
     [(\<lparr>hd_nbytes = length buf, hd_src = me, hd_tag = tag\<rparr>, buf)]"
| "sent_by me _ = []"

definition init_sender :: sender where
  "init_sender = \<lparr>x_list = (\<lambda>_. msg_null), x_mid = 0, x_q = [], x_active = False, x_wire = [], x_as = []\<rparr>"

lemma asend_core:
  assumes inv: "send_inv sent s"
    and c: "create_msg_entry buf (length buf) me True tag (x_list s) (x_mid s) = Inr (i, es)"
  shows "send_core (sent @ [(\<lparr>hd_nbytes = length buf, hd_src = me, hd_tag = tag\<rparr>, buf)])
      (s\<lparr>x_list := es, x_mid := i, x_q := x_q s @ [i]\<rparr>)"
    and "\<forall>j \<in> set (x_q s @ [i]). 0 < e_nleft (es j)"
proof -
  note new = create_Inr [OF c]
  have fresh: "i \<notin> set (x_q s)"
  proof
    assume "i \<in> set (x_q s)"
    then have "entry_ok (x_list s i)" using inv by (simp add: send_inv_def send_core_def)
    with new(1) show False by (simp add: entry_ok_def)
  qed
  have same: "es j = x_list s j" if "j \<noteq> i" for j using new(2) that by (metis fun_upd_other)
  have ok: "entry_ok (es i)" using new by (simp add: entry_ok_def)
  have tw: "to_write (es i) = frame \<lparr>hd_nbytes = length buf, hd_src = me, hd_tag = tag\<rparr> buf"
    using new by (simp add: to_write_def hdr_left_def data_left_def frame_def header_of_def)
  have others: "map (\<lambda>j. to_write (es j)) (x_q s) = map (\<lambda>j. to_write (x_list s j)) (x_q s)"
    by (rule map_cong [OF refl]) (metis fresh same)
  have "x_wire s @ concat (map (\<lambda>j. to_write (x_list s j)) (x_q s)) = concat (map (\<lambda>(h, d). frame h d) sent)"
    using inv by (simp add: send_inv_def send_core_def)
  then have "x_wire s @ concat (map (\<lambda>j. to_write (es j)) (x_q s @ [i]))
      = concat (map (\<lambda>(h, d). frame h d) (sent @ [(\<lparr>hd_nbytes = length buf, hd_src = me, hd_tag = tag\<rparr>, buf)]))"
    by (simp add: others tw flip: append_assoc)
  moreover have "entry_ok (es j)" if "j \<in> set (x_q s @ [i])" for j
    using that ok same [of j] inv by (cases "j = i") (auto simp: send_inv_def send_core_def)
  moreover have "j \<in> set (x_q s @ [i]) \<or> e_nleft (es j) = 0" if "e_buf (es j) \<noteq> None" for j
    using that same [of j] inv by (cases "j = i") (auto simp: send_inv_def send_core_def)
  ultimately show "send_core (sent @ [(\<lparr>hd_nbytes = length buf, hd_src = me, hd_tag = tag\<rparr>, buf)])
      (s\<lparr>x_list := es, x_mid := i, x_q := x_q s @ [i]\<rparr>)"
    using fresh inv by (auto simp: send_core_def send_inv_def)
  show "\<forall>j \<in> set (x_q s @ [i]). 0 < e_nleft (es j)"
  proof
    fix j assume "j \<in> set (x_q s @ [i])"
    then show "0 < e_nleft (es j)"
      using same [of j] inv new(7) by (cases "j = i") (auto simp: send_inv_def)
  qed
qed

lemma send_inv_cong:
  assumes inv: "send_inv sent s"
    and "x_q s' = x_q s" "x_wire s' = x_wire s" "x_active s' = x_active s"
    and same: "\<And>j. j \<in> set (x_q s) \<Longrightarrow> to_write (x_list s' j) = to_write (x_list s j)
        \<and> entry_ok (x_list s' j) = entry_ok (x_list s j) \<and> e_nleft (x_list s' j) = e_nleft (x_list s j)"
    and buf: "\<And>j. e_buf (x_list s' j) \<noteq> None \<Longrightarrow>
        e_buf (x_list s j) \<noteq> None \<and> e_nleft (x_list s' j) = e_nleft (x_list s j)"
  shows "send_inv sent s'"
proof -
  have "concat (map (\<lambda>j. to_write (x_list s' j)) (x_q s)) = concat (map (\<lambda>j. to_write (x_list s j)) (x_q s))"
    using same by (simp cong: map_cong)
  moreover have "j \<in> set (x_q s) \<or> e_nleft (x_list s' j) = 0" if "e_buf (x_list s' j) \<noteq> None" for j
    using buf [OF that] inv unfolding send_inv_def send_core_def by metis
  ultimately show ?thesis using inv same assms(2-4) by (simp add: send_inv_def send_core_def)
qed

lemma send_flag_irrelevant [simp]:
  "to_write (e\<lparr>e_send_flag := f\<rparr>) = to_write e" "entry_ok (e\<lparr>e_send_flag := f\<rparr>) = entry_ok e"
  by (auto simp: to_write_def hdr_left_def data_left_def header_of_def entry_ok_def split: option.split)

lemma wait_inv:
  assumes inv: "send_inv sent s" and w: "MP_Wait_send i s = Inr s'"
  shows "send_inv sent s'"
proof -
  let ?e = "x_list s i"
  from w consider "s' = s\<lparr>x_list := (x_list s)(i := ?e\<lparr>e_buf := None\<rparr>)\<rparr>" "e_nleft ?e = 0"
    | "s' = s\<lparr>x_list := (x_list s)(i := ?e\<lparr>e_send_flag := 3\<rparr>)\<rparr>" | "s' = s"
    by (auto simp: MP_Wait_send_def Let_def split: if_splits)
  then show ?thesis
  proof cases
    case 1
    then have "i \<notin> set (x_q s)" using inv by (auto simp: send_inv_def)
    with 1 show ?thesis by (intro send_inv_cong [OF inv]) (auto split: if_splits)
  next
    case 2
    have "to_write (x_list s' j) = to_write (x_list s j)" "entry_ok (x_list s' j) = entry_ok (x_list s j)"
        "e_buf (x_list s' j) = e_buf (x_list s j)" "e_nleft (x_list s' j) = e_nleft (x_list s j)" for j
      by (simp_all add: 2)
    then show ?thesis by (intro send_inv_cong [OF inv]) (simp_all add: 2)
  qed (use inv in simp)
qed

lemma send_op_inv:
  assumes inv: "send_inv sent s" and op: "send_op me op s = Inr s'"
  shows "send_inv (sent @ sent_by me op) s'"
proof (cases op)
  case (Op_ASend buf tag)
  with op obtain i es where c: "create_msg_entry buf (length buf) me True tag (x_list s) (x_mid s) = Inr (i, es)"
      and t: "tcp_asend i (s\<lparr>x_list := es, x_mid := i\<rparr>) = Inr s'"
    by (auto simp: MP_ASend_def obind_Inr_iff map_sum_Inr_iff)
  note core = asend_core [OF inv c]
  show ?thesis
  proof (cases "x_active s")
    case True
    with t have "s' = s\<lparr>x_list := es, x_mid := i, x_q := x_q s @ [i]\<rparr>" by (simp add: tcp_asend_def)
    with core True Op_ASend show ?thesis by (simp add: send_inv_def)
  next
    case False
    with t have "do_send (s\<lparr>x_list := es, x_mid := i, x_q := x_q s @ [i]\<rparr>) = Inr s'"
      by (simp add: tcp_asend_def)
    from do_send_inv [OF this core(1)] core(2) Op_ASend show ?thesis by simp
  qed
next
  case (Op_Wait i)
  with wait_inv [OF inv] op show ?thesis by simp
next
  case Op_sigio
  with op inv do_send_inv [of s s' sent] show ?thesis
    by (auto simp: sigio_send_def send_inv_def split: if_splits)
next
  case (Op_system as)
  with op have "s' = s\<lparr>x_as := as\<rparr>" by simp
  then have "send_inv sent s'" by (intro send_inv_cong [OF inv]) simp_all
  with Op_system show ?thesis by simp
qed

lemma send_run_inv:
  "send_run me ops s = Inr s' \<Longrightarrow> send_inv sent s \<Longrightarrow> send_inv (sent @ concat (map (sent_by me) ops)) s'"
proof (induction ops arbitrary: s sent)
  case (Cons op ops)
  then obtain s1 where "send_op me op s = Inr s1" "send_run me ops s1 = Inr s'"
    by (auto simp: obind_Inr_iff)
  with Cons.IH [OF _ send_op_inv [OF Cons.prems(2)]] show ?case by fastforce
qed simp

lemma init_sender_inv: "send_inv [] init_sender"
  by (simp add: send_inv_def send_core_def init_sender_def msg_null_def)

subsection \<open>A message leaves when the system takes bytes\<close>

definition takes :: "sys list \<Rightarrow> bool" where
  "takes as \<longleftrightarrow> (\<forall>a \<in> set as. \<exists>k. a = Moved (Suc k))"

lemma write_part_takes:
  assumes "takes (x_as s)" and "bs \<noteq> []" and "x_as s \<noteq> []" and "int (length bs) \<le> e_nleft (x_list s i)"
  shows "\<exists>n s'. write_part i bs s = Inr (n, s') \<and> 0 < n \<and> x_as s' = tl (x_as s)
     \<and> e_nleft (x_list s' i) + int n = e_nleft (x_list s i)"
  using assms by (cases "x_as s") (auto simp: write_part_def takes_def update_msg_progress_def Let_def)

lemma tcp_write_msg_takes:
  assumes core: "send_core sent s" and q: "x_q s = i # rest" and as: "takes (x_as s)"
    and l: "0 < e_nleft (x_list s i)" "e_nleft (x_list s i) \<le> int (length (x_as s))"
  shows "\<exists>n s'. tcp_write_msg i s = Inr (n, s') \<and> 0 < n \<and> takes (x_as s')
     \<and> e_nleft (x_list s' i) + int (length (x_as s)) \<le> e_nleft (x_list s i) + int (length (x_as s'))"
proof -
  have ok: "entry_ok (x_list s i)" using core q by (simp add: send_core_def)
  have data: "\<exists>n s'. write_part i (take (min (e_nbl (x_list t i)) mtu_one_nic) (data_left (x_list t i))) t = Inr (n, s')
        \<and> 0 < n \<and> takes (x_as s')
        \<and> e_nleft (x_list s' i) + int (length (x_as t)) \<le> e_nleft (x_list t i) + int (length (x_as s'))"
    if t: "entry_ok (x_list t i)" "e_nhdr (x_list t i) = 0" "0 < e_nbl (x_list t i)" "takes (x_as t)"
      "e_nleft (x_list t i) \<le> int (length (x_as t))" for t
  proof -
    let ?bs = "take (min (e_nbl (x_list t i)) mtu_one_nic) (data_left (x_list t i))"
    have "?bs \<noteq> []" "int (length ?bs) \<le> e_nleft (x_list t i)"
      using t(1,3) length_data_left [OF t(1)] by (auto simp: mtu_one_nic_def entry_ok_def)
    moreover have "x_as t \<noteq> []" using t by (auto simp: entry_ok_def)
    ultimately obtain n s' where "write_part i ?bs t = Inr (n, s')" "0 < n" "x_as s' = tl (x_as t)"
        "e_nleft (x_list s' i) + int n = e_nleft (x_list t i)"
      using write_part_takes [OF t(4)] by blast
    with t(4) \<open>x_as t \<noteq> []\<close> show ?thesis by (cases "x_as t") (auto simp: takes_def)
  qed
  show ?thesis
  proof (cases "e_nhdr (x_list s i) = 0")
    case True
    with ok l have "0 < e_nbl (x_list s i)" by (simp add: entry_ok_def)
    with data [OF ok True this as l(2)] True show ?thesis by (simp add: tcp_write_msg_def Let_def)
  next
    case False
    have h: "length (hdr_left (x_list s i)) = e_nhdr (x_list s i)"
      using ok by (simp add: length_hdr_left entry_ok_def)
    have ne: "hdr_left (x_list s i) \<noteq> []" "int (length (hdr_left (x_list s i))) \<le> e_nleft (x_list s i)"
      "x_as s \<noteq> []"
      using h False ok l by (auto simp: entry_ok_def)
    from write_part_takes [OF as ne(1,3,2)]
    obtain n s1 where w: "write_part i (hdr_left (x_list s i)) s = Inr (n, s1)" "0 < n"
        "x_as s1 = tl (x_as s)" "e_nleft (x_list s1 i) + int n = e_nleft (x_list s i)" by blast
    have s1: "takes (x_as s1)" "length (x_as s) = Suc (length (x_as s1))"
      using as w(3) ne(3) by (cases "x_as s"; simp add: takes_def)+
    have "send_core sent s1 \<and> x_q s1 = i # rest"
      using write_part_core [OF w(1) core q] h False ok by (simp add: to_write_def entry_ok_def)
    then have ok1: "entry_ok (x_list s1 i)" by (simp add: send_core_def)
    show ?thesis
    proof (cases "e_nhdr (x_list s1 i) = 0 \<and> 0 < e_nbl (x_list s1 i)")
      case True
      have "e_nleft (x_list s1 i) \<le> int (length (x_as s1))" using w(2,4) s1(2) l(2) by linarith
      with data [OF ok1 conjunct1 [OF True] conjunct2 [OF True] s1(1)] obtain n' s2 where
        "write_part i (take (min (e_nbl (x_list s1 i)) mtu_one_nic) (data_left (x_list s1 i))) s1 = Inr (n', s2)"
        "0 < n'" "takes (x_as s2)"
        "e_nleft (x_list s2 i) + int (length (x_as s1)) \<le> e_nleft (x_list s1 i) + int (length (x_as s2))" by blast
      with True False w s1 show ?thesis by (simp add: tcp_write_msg_def Let_def)
    next
      case no_data: False
      have "tcp_write_msg i s = Inr (n, s1)" using w(1) False no_data by (auto simp: tcp_write_msg_def Let_def)
      with w s1 show ?thesis by auto
    qed
  qed
qed

lemma send_loop_takes:
  assumes "send_core sent s" and "x_q s = i # rest" and "takes (x_as s)"
    and "e_nleft (x_list s i) \<le> int (length (x_as s))"
  shows "\<exists>s'. send_loop i nap s = Inr s' \<and> e_nleft (x_list s' i) = 0 \<and> takes (x_as s')
     \<and> int (length (x_as s)) \<le> e_nleft (x_list s i) + int (length (x_as s'))"
  using assms
proof (induction i nap s rule: send_loop.induct)
  case (1 i nap s)
  show ?case
  proof (cases "e_nleft (x_list s i) \<le> 0")
    case True
    moreover have "0 \<le> e_nleft (x_list s i)" using "1.prems"(1,2) by (simp add: send_core_def entry_ok_nleft)
    ultimately show ?thesis using "1.prems"(3) by (simp add: send_loop.simps)
  next
    case False
    then obtain n s1 where w: "tcp_write_msg i s = Inr (n, s1)" "0 < n" "takes (x_as s1)"
        "e_nleft (x_list s1 i) + int (length (x_as s)) \<le> e_nleft (x_list s i) + int (length (x_as s1))"
      using tcp_write_msg_takes [OF "1.prems"(1-3) _ "1.prems"(4)] by auto
    have c: "send_core sent s1" "x_q s1 = i # rest"
      using tcp_write_msg_core [OF w(1) "1.prems"(1,2)] by simp_all
    have "e_nleft (x_list s1 i) \<le> int (length (x_as s1))" using w(4) "1.prems"(4) by linarith
    with "1.IH"(2) [OF False w(1) refl _ _ c w(3)] w(2) obtain s' where
      "send_loop i True s1 = Inr s'" "e_nleft (x_list s' i) = 0" "takes (x_as s')"
      "int (length (x_as s1)) \<le> e_nleft (x_list s1 i) + int (length (x_as s'))" by auto
    moreover from this(1) False w(1,2) have "send_loop i nap s = Inr s'"
      by (subst send_loop.simps) simp
    ultimately show ?thesis using w(4) by (intro exI [of _ s'] conjI) linarith+
  qed
qed

definition bytes_left :: "sender \<Rightarrow> int" where
  "bytes_left s = sum_list (map (\<lambda>i. e_nleft (x_list s i)) (x_q s))"

lemma do_send_drains:
  assumes "send_core sent s" and "x_q s \<noteq> []" and "takes (x_as s)" and "bytes_left s \<le> int (length (x_as s))"
  shows "\<exists>s'. do_send s = Inr s' \<and> x_q s' = []"
  using assms
proof (induction s rule: do_send.induct)
  case (1 s)
  from "1.prems"(2) obtain i rest where q: "x_q s = i # rest" by (cases "x_q s") auto
  have "0 \<le> sum_list (map (\<lambda>j. e_nleft (x_list s j)) rest)"
    using "1.prems"(1) q by (intro sum_list_nonneg) (auto simp: send_core_def entry_ok_nleft)
  with "1.prems"(4) q have "e_nleft (x_list s i) \<le> int (length (x_as s))" by (simp add: bytes_left_def)
  with send_loop_takes [OF "1.prems"(1) q "1.prems"(3)] obtain s1 where
    l: "send_loop i True s = Inr s1" and e: "e_nleft (x_list s1 i) = 0" "takes (x_as s1)"
      "int (length (x_as s)) \<le> e_nleft (x_list s i) + int (length (x_as s1))" by blast
  have c1: "send_core sent s1" "x_q s1 = i # rest" "\<forall>j \<in> set rest. x_list s1 j = x_list s j"
    using send_loop_core [OF l "1.prems"(1) q] by simp_all
  let ?s2 = "s1\<lparr>x_q := rest, x_list := (x_list s1)(i := release_sent (x_list s1 i))\<rparr>"
  have c2: "send_core sent ?s2" by (rule core_detach [OF c1(1,2) e(1) refl])
  have "i \<notin> set rest" using c1(1,2) by (simp add: send_core_def)
  then have others: "map (\<lambda>j. e_nleft (x_list ?s2 j)) rest = map (\<lambda>j. e_nleft (x_list s j)) rest"
    using c1(3) by auto
  have "x_q ?s2 = rest" by simp
  then have "bytes_left ?s2 + e_nleft (x_list s i) = bytes_left s"
    by (simp only: bytes_left_def q others list.map sum_list.Cons add.commute)
  with "1.prems"(4) e(3) have b: "bytes_left ?s2 \<le> int (length (x_as ?s2))" by simp
  show ?case
  proof (cases "rest = []")
    case True
    with q l e(1) show ?thesis by (subst do_send.simps) simp
  next
    case False
    with "1.IH" [OF q l _ refl False c2] e b obtain s' where "do_send ?s2 = Inr s'" "x_q s' = []" by auto
    moreover from this(1) False q l e(1) have "do_send s = Inr s'" by (subst do_send.simps) simp
    ultimately show ?thesis by blast
  qed
qed

text \<open>
  C8.  Messages leave in the order they were sent: after any sequence of sends, waits and signals, and
  however the system cuts the writes, what is on the connection, followed by what is left of the
  queued messages, is the concatenation of all messages with their headers; the signal handler
  serves the connection exactly if something is queued; and once the system takes bytes again,
  one signal empties the queue.
\<close>

theorem sends_in_order:
  assumes "send_run me ops init_sender = Inr s"
  shows "x_wire s @ concat (map (\<lambda>i. to_write (x_list s i)) (x_q s))
      = concat (map (\<lambda>(h, d). frame h d) (concat (map (sent_by me) ops)))
    \<and> x_active s = (x_q s \<noteq> [])
    \<and> (takes as \<and> bytes_left s \<le> int (length as) \<longrightarrow>
        (\<exists>s'. sigio_send (s\<lparr>x_as := as\<rparr>) = Inr s'
           \<and> x_wire s' = concat (map (\<lambda>(h, d). frame h d) (concat (map (sent_by me) ops)))))"
proof -
  let ?sent = "concat (map (sent_by me) ops)"
  have inv: "send_inv ?sent s" using send_run_inv [OF assms init_sender_inv] by simp
  have "\<exists>s'. sigio_send (s\<lparr>x_as := as\<rparr>) = Inr s' \<and> x_wire s' = concat (map (\<lambda>(h, d). frame h d) ?sent)"
    if as: "takes as" "bytes_left s \<le> int (length as)"
  proof -
    let ?s = "s\<lparr>x_as := as\<rparr>"
    have inv': "send_inv ?sent ?s" by (intro send_inv_cong [OF inv]) simp_all
    have "\<exists>s'. sigio_send ?s = Inr s' \<and> x_q s' = []"
    proof (cases "x_q s = []")
      case False
      have "bytes_left ?s \<le> int (length (x_as ?s))" using as(2) by (simp add: bytes_left_def)
      with do_send_drains [of ?sent ?s] inv' as False show ?thesis
        by (simp add: send_inv_def sigio_send_def)
    qed (use inv in \<open>simp add: sigio_send_def send_inv_def\<close>)
    then obtain s' where s': "sigio_send ?s = Inr s'" "x_q s' = []" by blast
    then have "send_inv ?sent s'"
      using send_op_inv [OF inv', of me Op_sigio s'] by simp
    with s' show ?thesis by (simp add: send_inv_def send_core_def)
  qed
  with inv show ?thesis by (simp add: send_inv_def send_core_def)
qed

theorem sends_in_order_witness:
  "\<exists>s s'. send_run 0 [Op_system [Moved 10, Blocked, Blocked], Op_ASend [1, 2, 3] 7, Op_Wait 1] init_sender
        = Inr s \<and> length (x_wire s) = 10
     \<and> sigio_send (s\<lparr>x_as := replicate 17 (Moved 1)\<rparr>) = Inr s'
     \<and> x_wire s' = frame \<lparr>hd_nbytes = 3, hd_src = 0, hd_tag = 7\<rparr> [1, 2, 3]"
proof -
  let ?ops = "[Op_system [Moved 10, Blocked, Blocked], Op_ASend [1, 2, 3] 7, Op_Wait 1]"
  have "map_sum id (\<lambda>s. (length (x_wire s), bytes_left s)) (send_run 0 ?ops init_sender) = Inr (10, 17)"
    by (simp add: MP_ASend_def create_msg_entry_def next_free_next init_sender_def msg_null_def MAX_MSGS_def
        set_entry_def tcp_asend_def do_send.simps send_loop.simps tcp_write_msg_def write_part_def
        update_msg_progress_def MP_Wait_send_def bytes_left_def hdr_left_def data_left_def)
  then obtain s where s: "send_run 0 ?ops init_sender = Inr s" "length (x_wire s) = 10" "bytes_left s = 17"
    by (auto simp: map_sum_Inr_iff)
  have "takes (replicate 17 (Moved 1))" by (simp add: takes_def)
  with sends_in_order [OF s(1), of "replicate 17 (Moved 1)"] s show ?thesis
    by (simp add: numeral_3_eq_3 del: send_run.simps)
qed

end
