(* ===== verification/Receiving.thy ===== *)
theory Receiving
  imports Sending
begin

text \<open>
  The asynchronous messages of \<open>MP_Lite/tcp.c\<close>, second part: what arrives from one source.  A
  receive waits in \<open>recv_q\<close> of its source; a message that no receive asks for is read into a
  buffer of its own and kept in \<open>msg_q\<close>.  As in the theory \<open>Sending\<close> there is one network card.
\<close>

section \<open>The state of one source\<close>

text \<open>
  \<open>y_wire\<close> is what the peer has sent and this process has not read; \<open>y_as\<close> are the answers of the
  system to the coming reads; \<open>y_hdr\<close> is what has been read into \<open>hdr[src]\<close>.
\<close>

record receiver =
  y_list :: "nat \<Rightarrow> entry"
  y_mid :: nat
  y_rq :: "nat list"
  y_mq :: "nat list"
  y_active :: bool
  y_hdr :: "witem list"
  y_wire :: "witem list"
  y_as :: "sys list"

definition parse_header :: "witem list \<Rightarrow> header option" where
  "parse_header xs = (case xs of
     HB h k # _ \<Rightarrow> if xs = map (HB h) [0..<HDR] then Some h else None
   | _ \<Rightarrow> None)"

definition data_bytes :: "witem list \<Rightarrow> 8 word list option" where
  "data_bytes xs = those (map (\<lambda>x. case x of DB b \<Rightarrow> Some b | HB h k \<Rightarrow> None) xs)"

text \<open>
  One \<open>read\<close> of at most \<open>req\<close> bytes: the bytes read, and what is left of wire and answers.
\<close>

definition sys_read :: "nat \<Rightarrow> receiver \<Rightarrow> (witem list \<times> receiver) outcome" where
  "sys_read req s =
     (let moved = (\<lambda>n as. Inr (take n (y_wire s), s\<lparr>y_wire := drop n (y_wire s), y_as := as\<rparr>))
      in case y_as s of
           [] \<Rightarrow> moved 0 []
         | Moved k # as \<Rightarrow> moved (min k req) as
         | Blocked # as \<Rightarrow> moved 0 as
         | Failed # as \<Rightarrow> Inl (ErrorX ''recv() - read() failed''))"

definition upd_entry :: "nat \<Rightarrow> (entry \<Rightarrow> entry) \<Rightarrow> receiver \<Rightarrow> receiver" where
  "upd_entry i f s = s\<lparr>y_list := (y_list s)(i := f (y_list s i))\<rparr>"

text \<open>
  Reading the header, at \<open>phdr\<close>, and the data, at \<open>ptr[0]\<close>.  Taking bytes of the one kind for the
  other is the end of the model: what follows in the program is arbitrary.
\<close>

definition read_hdr :: "nat \<Rightarrow> receiver \<Rightarrow> (nat \<times> receiver) outcome" where
  "read_hdr i s =
     obind (sys_read (e_nhdr (y_list s i)) s) (\<lambda>(xs, s).
       Inr (length xs, upd_entry i (update_msg_progress (length xs))
         (s\<lparr>y_hdr := take (HDR - e_nhdr (y_list s i)) (y_hdr s) @ xs\<rparr>)))"

definition put_data :: "8 word list \<Rightarrow> entry \<Rightarrow> entry" where
  "put_data bs e = e\<lparr>e_buf := Some (store (the (e_buf e)) (e_nbytes e - e_nbl e) bs)\<rparr>"

definition read_data :: "nat \<Rightarrow> receiver \<Rightarrow> (nat \<times> receiver) outcome" where
  "read_data i s =
     obind (sys_read (e_nbl (y_list s i)) s) (\<lambda>(xs, s).
       case data_bytes xs of
         None \<Rightarrow> Inl Garbled
       | Some bs \<Rightarrow> Inr (length xs, upd_entry i (update_msg_progress (length xs) \<circ> put_data bs) s))"

section \<open>Matching\<close>

definition fits :: "nat \<Rightarrow> int \<Rightarrow> entry \<Rightarrow> bool" where
  "fits nbytes tag e \<longleftrightarrow> nbytes \<le> e_nbytes e \<and> (e_tag e < 0 \<or> tag = e_tag e)"

definition got_header :: "entry \<Rightarrow> entry" where
  "got_header e = e\<lparr>e_nhdr := 0, e_nleft := e_nleft e - int HDR\<rparr>"

text \<open>
  \<open>check_header\<close>: the header belongs to the message that is being read for, or to another one in
  \<open>recv_q\<close>, which moves to the front, or to none, and a buffered message is made for it.  The
  result is the message that the data that follows belongs to.
\<close>

definition check_header :: "nat \<Rightarrow> receiver \<Rightarrow> (nat \<times> receiver) outcome" where
  "check_header i s = (case parse_header (y_hdr s) of
     None \<Rightarrow> Inl Garbled
   | Some h \<Rightarrow>
       if fits (hd_nbytes h) (hd_tag h) (y_list s i)
       then Inr (i, upd_entry i (got_header \<circ> set_entry (hd_nbytes h) (hd_src h) (hd_tag h)) s)
       else
         let s1 = upd_entry i (\<lambda>e. e\<lparr>e_nhdr := HDR, e_nleft := int (e_nbytes e + HDR)\<rparr>) s in
         case find (\<lambda>p. fits (hd_nbytes h) (hd_tag h) (y_list s1 p)) (y_rq s1) of
           Some p \<Rightarrow> Inr (p, upd_entry p got_header
             (s1\<lparr>y_rq := (if p \<noteq> hd (y_rq s1) then p # remove1 p (y_rq s1) else y_rq s1)\<rparr>))
         | None \<Rightarrow>
             obind (create_msg_entry (replicate (hd_nbytes h) 0) (hd_nbytes h) (hd_src h) False (hd_tag h)
                      (y_list s1) (y_mid s1)) (\<lambda>(j, es).
               Inr (j, upd_entry j got_header
                 (s1\<lparr>y_list := es, y_mid := j, y_rq := j # y_rq s1, y_mq := y_mq s1 @ [j]\<rparr>))))"

text \<open>\<open>read_msg\<close>; \<open>n\<close> is not set if there is neither header nor data to read.\<close>

definition tcp_read_msg :: "nat \<Rightarrow> receiver \<Rightarrow> (nat \<times> receiver) outcome" where
  "tcp_read_msg i s =
     obind (if e_nhdr (y_list s i) \<noteq> 0
            then obind (read_hdr i s) (\<lambda>(n, s).
                 obind (if e_nhdr (y_list s i) = 0 then check_header i s else Inr (i, s)) (\<lambda>(j, s).
                   Inr (Some n, j, s)))
            else Inr (None, i, s)) (\<lambda>(n, j, s).
       if e_nhdr (y_list s j) = 0 \<and> 0 < e_nbl (y_list s j) then read_data j s
       else case n of None \<Rightarrow> Inl UninitRead | Some n \<Rightarrow> Inr (n, s))"

text \<open>The elements behind \<open>i\<close>, which \<open>next\<close> leads to.\<close>

definition next_of :: "nat \<Rightarrow> nat list \<Rightarrow> nat list" where
  "next_of i q = tl (dropWhile (\<lambda>x. x \<noteq> i) q)"

text \<open>
  \<open>recv_from_q\<close>: the first buffered message that fits is given to the receive \<open>i\<close>.  If it is not
  complete, the receive takes its place in \<open>recv_q\<close>.
\<close>

definition recv_from_q :: "nat \<Rightarrow> receiver \<Rightarrow> receiver" where
  "recv_from_q i s =
     (case find (\<lambda>p. e_nhdr (y_list s p) = 0
                   \<and> fits (e_nbytes (y_list s p)) (e_tag (y_list s p)) (y_list s i)) (y_mq s) of
        None \<Rightarrow> s
      | Some p \<Rightarrow>
          let ep = y_list s p;
              s1 = upd_entry i (set_entry (e_nbytes ep) (e_src ep) (e_tag ep)) s;
              s2 = (if e_nleft ep = 0
                    then upd_entry i (\<lambda>e. (put_data (take (e_nbytes e) (the (e_buf ep))) e)
                           \<lparr>e_nleft := 0, e_nhdr := 0\<rparr>) s1
                    else upd_entry i (\<lambda>e. let n = e_nbl e - e_nbl ep in
                           (put_data (take n (the (e_buf ep))) e)\<lparr>e_nhdr := 0, e_nleft := e_nleft ep,
                              e_stats := e_stats ep, e_nbl := e_nbl e - n\<rparr>)
                         (s1\<lparr>y_rq := i # next_of p (y_rq s1)\<rparr>))
          in upd_entry p (\<lambda>e. e\<lparr>e_buf := None\<rparr>) (s2\<lparr>y_mq := remove1 p (y_mq s2)\<rparr>))"

section \<open>Receiving\<close>

lemma sys_read_answers:
  "sys_read req s = Inr (xs, s') \<Longrightarrow>
     length (y_as s') \<le> length (y_as s) \<and> (xs \<noteq> [] \<longrightarrow> length (y_as s') < length (y_as s))"
  by (auto simp: sys_read_def Let_def split: list.splits sys.splits)

lemma read_hdr_answers:
  "read_hdr i s = Inr (n, s') \<Longrightarrow>
     length (y_as s') \<le> length (y_as s) \<and> (0 < n \<longrightarrow> length (y_as s') < length (y_as s))"
  by (auto simp: read_hdr_def upd_entry_def obind_Inr_iff dest!: sys_read_answers)

lemma read_data_answers:
  "read_data i s = Inr (n, s') \<Longrightarrow>
     length (y_as s') \<le> length (y_as s) \<and> (0 < n \<longrightarrow> length (y_as s') < length (y_as s))"
  by (auto simp: read_data_def upd_entry_def obind_Inr_iff split: option.splits dest!: sys_read_answers)

lemma check_header_answers: "check_header i s = Inr (j, s') \<Longrightarrow> y_as s' = y_as s"
  by (auto simp: check_header_def upd_entry_def Let_def obind_Inr_iff split: option.splits if_splits)

lemma tcp_read_msg_answers:
  assumes "tcp_read_msg i s = Inr (n, s')"
  shows "length (y_as s') \<le> length (y_as s) \<and> (0 < n \<longrightarrow> length (y_as s') < length (y_as s))"
  using assms
  by (auto simp: tcp_read_msg_def Let_def obind_Inr_iff split: if_splits option.splits prod.splits
      dest!: read_hdr_answers read_data_answers check_header_answers)

text \<open>
  The loop of \<open>do_recv\<close>.  It goes on with the message it began with, also when \<open>check_header\<close> has
  put another one in front of the queue.
\<close>

function recv_loop :: "nat \<Rightarrow> receiver \<Rightarrow> receiver outcome" where
  "recv_loop i s =
     (if e_nleft (y_list s i) \<le> 0 then Inr s
      else case tcp_read_msg i s of
             Inl e \<Rightarrow> Inl e
           | Inr (m, s') \<Rightarrow> if m = 0 then Inr s' else recv_loop i s')"
  by pat_completeness auto
termination
  by (relation "measure (\<lambda>(i, s). length (y_as s))") (auto dest!: tcp_read_msg_answers)

declare recv_loop.simps [simp del]

text \<open>\<open>do_recv\<close> calls itself for the next message; \<open>None\<close> is a recursion without end.\<close>

partial_function (option) do_recv :: "receiver \<Rightarrow> receiver outcome option" where
  "do_recv s = (case y_rq s of
     [] \<Rightarrow> Some (Inl NullDeref)
   | i # rest \<Rightarrow>
       (let s1 = (if e_nhdr (y_list s i) \<noteq> 0 \<and> e_recv_flag (y_list s i) \<noteq> 2 then recv_from_q i s else s)
        in case recv_loop i s1 of
          Inl e \<Rightarrow> Some (Inl e)
        | Inr s2 \<Rightarrow>
            if 0 < e_nleft (y_list s2 i) then Some (Inr (s2\<lparr>y_active := True\<rparr>))
            else let s3 = (if e_nleft (y_list s2 i) = 0 then s2\<lparr>y_rq := next_of i (y_rq s2)\<rparr> else s2)
                 in if y_rq s3 = [] then Some (Inr (s3\<lparr>y_active := False\<rparr>)) else do_recv s3))"

text \<open>\<open>tcp_arecv\<close> and \<open>MP_ARecv\<close> for a known source.\<close>

definition tcp_arecv :: "nat \<Rightarrow> receiver \<Rightarrow> receiver outcome option" where
  "tcp_arecv i s =
     (let s1 = recv_from_q i s in
      if e_nhdr (y_list s1 i) \<noteq> 0
      then let s2 = s1\<lparr>y_rq := y_rq s1 @ [i]\<rparr> in if y_active s2 then Some (Inr s2) else do_recv s2
      else Some (Inr s1))"

definition MP_ARecv :: "nat \<Rightarrow> 8 word list \<Rightarrow> nat \<Rightarrow> int \<Rightarrow> receiver \<Rightarrow> (nat \<times> receiver) outcome option" where
  "MP_ARecv src buf nbytes tag s =
     (case create_msg_entry buf nbytes src False tag (y_list s) (y_mid s) of
        Inl e \<Rightarrow> Some (Inl e)
      | Inr (i, es) \<Rightarrow>
          map_option (map_sum id (Pair i)) (tcp_arecv i (s\<lparr>y_list := es, y_mid := i\<rparr>)))"

text \<open>
  \<open>MP_Wait\<close> for a receive: it spins until the message is complete (\<open>None\<close>); the header becomes
  free, and the user learns source, tag and size.
\<close>

definition MP_Wait_recv :: "nat \<Rightarrow> receiver \<Rightarrow> ((nat \<times> int \<times> nat) \<times> receiver) outcome option" where
  "MP_Wait_recv i s =
     (let e = y_list s i in
      if e_buf e = None then Some (Inl (ErrorX ''MP_Wait() has NULL msg''))
      else if e_nleft e \<noteq> 0 then None
      else Some (Inr ((e_src e, e_tag e, e_nbytes e), upd_entry i (\<lambda>e. e\<lparr>e_buf := None\<rparr>) s)))"

definition MP_Test_recv :: "nat \<Rightarrow> receiver \<Rightarrow> (bool \<times> receiver) outcome option" where
  "MP_Test_recv i s =
     (if e_buf (y_list s i) = None then Some (Inl (ErrorX ''MP_Test() has NULL msg''))
      else if e_nleft (y_list s i) \<noteq> 0 then Some (Inr (False, s))
      else map_option (map_sum id (\<lambda>(r, s). (True, s))) (MP_Wait_recv i s))"

text \<open>The part of \<open>sigio_handler\<close> that serves this source.\<close>

definition sigio_recv :: "receiver \<Rightarrow> receiver outcome option" where
  "sigio_recv s = (if y_active s then do_recv s else Some (Inr s))"

end
