(* ===== verification/InOrder.thy ===== *)
theory InOrder
  imports Receiving
begin

text \<open>
  Receives that are posted in the order of the messages: however the system cuts the reads, and
  whenever the signal handler runs, every receive gets its own message.
\<close>

section \<open>The bytes of a connection\<close>

definition byte_stream :: "(header \<times> 8 word list) list \<Rightarrow> nat \<Rightarrow> witem list" where
  "byte_stream ms k = concat (map (\<lambda>(h, d). frame h d) (drop k ms))"

lemma stream_end [simp]: "length ms \<le> k \<Longrightarrow> byte_stream ms k = []"
  by (simp add: byte_stream_def)

lemma stream_next:
  "k < length ms \<Longrightarrow> ms ! k = (h, d) \<Longrightarrow>
     byte_stream ms k = map (HB h) [0..<24] @ map DB d @ byte_stream ms (Suc k)"
  by (simp add: byte_stream_def frame_def Cons_nth_drop_Suc [symmetric] del: upt.simps)

definition sized :: "(header \<times> 8 word list) list \<Rightarrow> bool" where
  "sized ms \<longleftrightarrow> (\<forall>(h, d) \<in> set ms. hd_nbytes h = length d)"

lemma data_bytes_DB [simp]: "data_bytes (map DB bs) = Some bs"
  by (induction bs) (simp_all add: data_bytes_def)

lemma parse_header_HB [simp]: "parse_header (map (HB h) [0..<24]) = Some h"
proof -
  have "map (HB h) [0..<24] = HB h 0 # map (HB h) [1..<24]" by (simp add: upt_conv_Cons)
  then show ?thesis by (simp add: parse_header_def del: upt.simps)
qed

section \<open>The message that is being received\<close>

text \<open>Its header is incomplete, or complete and followed by a part of the data.\<close>

definition hdr_phase ::
  "(header \<times> 8 word list) list \<Rightarrow> nat \<Rightarrow> nat \<times> int \<Rightarrow> nat \<Rightarrow> receiver \<Rightarrow> bool" where
  "hdr_phase ms k r i s \<longleftrightarrow> (let e = y_list s i in
     0 < e_nhdr e \<and> e_nhdr e \<le> 24 \<and> (e_nbytes e, e_tag e) = r \<and> e_nbl e = e_nbytes e
     \<and> e_nleft e = int (e_nhdr e + e_nbl e)
     \<and> (\<exists>b. e_buf e = Some b \<and> e_nbytes e \<le> length b)
     \<and> y_wire s = drop (24 - e_nhdr e) (byte_stream ms k)
     \<and> take (24 - e_nhdr e) (y_hdr s) = take (24 - e_nhdr e) (byte_stream ms k)
     \<and> 24 - e_nhdr e \<le> length (y_hdr s))"

definition data_phase :: "(header \<times> 8 word list) list \<Rightarrow> nat \<Rightarrow> nat \<Rightarrow> receiver \<Rightarrow> bool" where
  "data_phase ms k i s \<longleftrightarrow> (\<exists>h d b. let e = y_list s i; got = length d - e_nbl e in
     k < length ms \<and> ms ! k = (h, d) \<and> e_nhdr e = 0 \<and> e_nbl e \<le> length d
     \<and> e_nbytes e = length d \<and> e_tag e = hd_tag h \<and> e_src e = hd_src h \<and> e_nleft e = int (e_nbl e)
     \<and> e_buf e = Some b \<and> length d \<le> length b \<and> take got b = take got d
     \<and> y_wire s = drop got (map DB d) @ byte_stream ms (Suc k))"

text \<open>What a step does not touch.\<close>

definition elsewhere :: "nat \<Rightarrow> receiver \<Rightarrow> receiver \<Rightarrow> bool" where
  "elsewhere i s s' \<longleftrightarrow> (\<forall>j. j \<noteq> i \<longrightarrow> y_list s' j = y_list s j) \<and> y_mid s' = y_mid s \<and> y_rq s' = y_rq s
     \<and> y_mq s' = y_mq s \<and> y_active s' = y_active s"

lemma elsewhere_refl [simp]: "elsewhere i s s"
  by (simp add: elsewhere_def)

lemma elsewhere_trans: "elsewhere i s t \<Longrightarrow> elsewhere i t u \<Longrightarrow> elsewhere i s u"
  by (simp add: elsewhere_def)

definition stops_with_error :: "'a outcome \<Rightarrow> bool" where
  "stops_with_error r \<longleftrightarrow> (\<exists>m. r = Inl (ErrorX m))"

lemma sys_read_cases:
  obtains n as where "n \<le> req" "sys_read req s = Inr (take n (y_wire s), s\<lparr>y_wire := drop n (y_wire s), y_as := as\<rparr>)"
  | "stops_with_error (sys_read req s)"
proof (cases "y_as s")
  case Nil
  with that(1) [of 0 "[]"] show ?thesis by (simp add: sys_read_def)
next
  case (Cons a as)
  show ?thesis
  proof (cases a)
    case (Moved k)
    with Cons that(1) [of "min k req" as] show ?thesis by (simp add: sys_read_def)
  next
    case Blocked
    with Cons that(1) [of 0 as] show ?thesis by (simp add: sys_read_def)
  next
    case Failed
    with Cons that(2) show ?thesis by (simp add: sys_read_def stops_with_error_def)
  qed
qed

lemma read_hdr_phase:
  assumes p: "hdr_phase ms k r i s" and s: "sized ms"
    and fit: "\<And>h d. k < length ms \<Longrightarrow> ms ! k = (h, d) \<Longrightarrow> hd_nbytes h \<le> fst r \<and> (snd r < 0 \<or> hd_tag h = snd r)"
  shows "stops_with_error (read_hdr i s) \<or>
     (\<exists>n s'. read_hdr i s = Inr (n, s') \<and> elsewhere i s s'
        \<and> (if e_nhdr (y_list s' i) = 0
           then \<exists>s''. check_header i s' = Inr (i, s'') \<and> elsewhere i s s'' \<and> data_phase ms k i s''
           else hdr_phase ms k r i s'))"
proof -
  let ?e = "y_list s i" and ?st = "byte_stream ms k"
  let ?g = "24 - e_nhdr ?e"
  obtain b where e: "0 < e_nhdr ?e" "e_nhdr ?e \<le> 24" "(e_nbytes ?e, e_tag ?e) = r" "e_nbl ?e = e_nbytes ?e"
      "e_nleft ?e = int (e_nhdr ?e + e_nbl ?e)" "e_buf ?e = Some b" "e_nbytes ?e \<le> length b"
      and w: "y_wire s = drop ?g ?st" "take ?g (y_hdr s) = take ?g ?st" "?g \<le> length (y_hdr s)"
    using p by (auto simp: hdr_phase_def Let_def)
  show ?thesis
  proof (rule sys_read_cases [of "e_nhdr ?e" s])
    assume "stops_with_error (sys_read (e_nhdr ?e) s)"
    then show ?thesis by (auto simp: read_hdr_def stops_with_error_def)
  next
    fix n as
    assume n: "n \<le> e_nhdr ?e"
      and rd: "sys_read (e_nhdr ?e) s = Inr (take n (y_wire s), s\<lparr>y_wire := drop n (y_wire s), y_as := as\<rparr>)"
    define xs where "xs = take n (y_wire s)"
    define s' where "s' = upd_entry i (update_msg_progress (length xs))
        (s\<lparr>y_wire := drop (length xs) (y_wire s), y_as := as, y_hdr := take ?g (y_hdr s) @ xs\<rparr>)"
    have "drop (length xs) (y_wire s) = drop n (y_wire s)" by (simp add: xs_def min_def)
    then have r: "read_hdr i s = Inr (length xs, s')"
      using rd by (simp add: read_hdr_def xs_def s'_def)
    have l: "length xs \<le> e_nhdr ?e" using n by (simp add: xs_def)
    let ?e' = "y_list s' i"
    have e': "e_nhdr ?e' = e_nhdr ?e - length xs" "e_nbytes ?e' = e_nbytes ?e" "e_tag ?e' = e_tag ?e"
      "e_nbl ?e' = e_nbl ?e" "e_nleft ?e' = e_nleft ?e - int (length xs)" "e_buf ?e' = e_buf ?e"
      using e(1) by (simp_all add: s'_def upd_entry_def update_msg_progress_def Let_def)
    have g': "24 - e_nhdr ?e' = ?g + length xs" if "length xs \<le> e_nhdr ?e" using e' e(2) that by simp
    have wire': "y_wire s' = drop (?g + length xs) ?st"
      by (simp add: s'_def upd_entry_def w(1) add.commute)
    have hdr': "y_hdr s' = take (?g + length xs) ?st"
    proof -
      have "take (length xs) (drop ?g ?st) = xs" by (simp add: xs_def w(1) min_def)
      then show ?thesis by (simp add: s'_def upd_entry_def w(2) take_add)
    qed
    have el: "elsewhere i s s'" by (simp add: elsewhere_def s'_def upd_entry_def)
    show ?thesis
    proof (cases "e_nhdr ?e' = 0")
      case False
      have "?g + length xs \<le> length ?st \<or> xs = []" using l by (auto simp: xs_def w(1))
      then have "?g + length xs \<le> length (y_hdr s')" using w(3)
        by (auto simp: s'_def upd_entry_def)
      then have "hdr_phase ms k (e_nbytes ?e, e_tag ?e) i s'"
        unfolding hdr_phase_def Let_def
        using False e e' wire' hdr' g' [OF l] l by simp
      with r el False e(3) show ?thesis by auto
    next
      case True
      then have lx: "length xs = e_nhdr ?e" using e' l by simp
      have "k < length ms"
      proof (rule ccontr)
        assume "\<not> k < length ms"
        then have "xs = []" by (simp add: xs_def w(1))
        with lx e(1) show False by simp
      qed
      moreover obtain h d where hd: "ms ! k = (h, d)" by fastforce
      ultimately have st: "?st = map (HB h) [0..<24] @ map DB d @ byte_stream ms (Suc k)"
        and f: "hd_nbytes h \<le> e_nbytes ?e \<and> (e_tag ?e < 0 \<or> hd_tag h = e_tag ?e)"
        using stream_next fit e(3) by auto
      have nb: "hd_nbytes h = length d" using s \<open>k < length ms\<close> hd by (auto simp: sized_def dest!: nth_mem)
      have g24: "?g + length xs = 24" using lx e(2) by simp
      have ph: "parse_header (y_hdr s') = Some h" using hdr' st g24 by (simp del: upt.simps)
      define s'' where "s'' = upd_entry i (got_header \<circ> set_entry (hd_nbytes h) (hd_src h) (hd_tag h)) s'"
      have c: "check_header i s' = Inr (i, s'')"
        using ph f e' by (simp add: check_header_def fits_def s''_def)
      have "elsewhere i s s''" using el by (simp add: elsewhere_def s''_def upd_entry_def)
      moreover have "data_phase ms k i s''"
        unfolding data_phase_def Let_def
        by (rule exI [of _ h], rule exI [of _ d], rule exI [of _ b])
          (use \<open>k < length ms\<close> hd nb f e e' wire' g24 st in
            \<open>simp add: s''_def upd_entry_def got_header_def set_entry_def del: upt.simps\<close>)
      ultimately show ?thesis using r el True c by auto
    qed
  qed
qed

lemma read_data_phase:
  assumes p: "data_phase ms k i s"
  shows "stops_with_error (read_data i s) \<or>
     (\<exists>n s'. read_data i s = Inr (n, s') \<and> elsewhere i s s' \<and> data_phase ms k i s')"
proof -
  let ?e = "y_list s i"
  obtain h d b where m: "k < length ms" "ms ! k = (h, d)" and e: "e_nhdr ?e = 0" "e_nbl ?e \<le> length d"
      "e_nbytes ?e = length d" "e_tag ?e = hd_tag h" "e_src ?e = hd_src h" "e_nleft ?e = int (e_nbl ?e)"
      "e_buf ?e = Some b" "length d \<le> length b" "take (length d - e_nbl ?e) b = take (length d - e_nbl ?e) d"
      and w: "y_wire s = drop (length d - e_nbl ?e) (map DB d) @ byte_stream ms (Suc k)"
    using p by (auto simp: data_phase_def Let_def)
  let ?g = "length d - e_nbl ?e"
  show ?thesis
  proof (rule sys_read_cases [of "e_nbl ?e" s])
    assume "stops_with_error (sys_read (e_nbl ?e) s)"
    then show ?thesis by (auto simp: read_data_def stops_with_error_def)
  next
    fix n as
    assume n: "n \<le> e_nbl ?e"
      and rd: "sys_read (e_nbl ?e) s = Inr (take n (y_wire s), s\<lparr>y_wire := drop n (y_wire s), y_as := as\<rparr>)"
    define bs where "bs = take n (drop ?g d)"
    have x: "take n (y_wire s) = map DB bs" "length bs = n" "drop n (y_wire s) = drop (?g + n) (map DB d) @ byte_stream ms (Suc k)"
      using n e(2) by (simp_all add: w bs_def drop_map take_map add.commute)
    define s' where "s' = upd_entry i (update_msg_progress n \<circ> put_data bs) (s\<lparr>y_wire := drop n (y_wire s), y_as := as\<rparr>)"
    have r: "read_data i s = Inr (n, s')" using rd x by (simp add: read_data_def s'_def)
    let ?b' = "store b ?g bs"
    have "?g + length bs \<le> length b" using x(2) n e(2,8) by simp
    then have lb: "length ?b' = length b" by (rule length_store)
    obtain t where "store b ?g bs = take ?g b @ bs @ t" "length (take ?g b) = ?g"
      using e(8) by (simp add: store_def)
    then have "take (?g + n) ?b' = take ?g b @ bs"
      using x(2) by (metis append.assoc append_eq_conv_conj length_append)
    also have "\<dots> = take (?g + n) d" using e(9) by (simp add: bs_def take_add)
    finally have tk: "take (?g + n) ?b' = take (?g + n) d" .
    have e': "y_list s' i = ?e\<lparr>e_buf := Some ?b', e_nleft := e_nleft ?e - int n, e_stats := e_stats ?e + 1, e_nbl := e_nbl ?e - n\<rparr>"
      using e by (simp add: s'_def upd_entry_def update_msg_progress_def put_data_def Let_def)
    have g': "length d - (e_nbl ?e - n) = ?g + n" using n e(2) by simp
    have "data_phase ms k i s'"
      unfolding data_phase_def Let_def
      by (rule exI [of _ h], rule exI [of _ d], rule exI [of _ ?b'])
        (use m e e' g' tk lb n x(3) in \<open>simp add: s'_def upd_entry_def\<close>)
    moreover have "elsewhere i s s'" by (simp add: elsewhere_def s'_def upd_entry_def)
    ultimately show ?thesis using r by blast
  qed
qed

definition phase ::
  "(header \<times> 8 word list) list \<Rightarrow> nat \<Rightarrow> nat \<times> int \<Rightarrow> nat \<Rightarrow> receiver \<Rightarrow> bool" where
  "phase ms k r i s \<longleftrightarrow> hdr_phase ms k r i s \<or> data_phase ms k i s"

lemma phase_cong:
  "y_list s' i = y_list s i \<Longrightarrow> y_wire s' = y_wire s \<Longrightarrow> y_hdr s' = y_hdr s \<Longrightarrow>
     phase ms k r i s' = phase ms k r i s"
  by (simp add: phase_def hdr_phase_def data_phase_def)

text \<open>The receive \<open>j\<close> has what it should have; the receive \<open>r\<close> has nothing yet.\<close>

definition done_ok :: "(header \<times> 8 word list) list \<Rightarrow> nat \<Rightarrow> entry \<Rightarrow> bool" where
  "done_ok ms j e \<longleftrightarrow> j < length ms \<and> e_nleft e = 0
     \<and> (\<exists>h d b. ms ! j = (h, d) \<and> e_nbytes e = length d \<and> e_tag e = hd_tag h \<and> e_src e = hd_src h
          \<and> e_buf e = Some b \<and> take (length d) b = d)"

definition fresh :: "nat \<times> int \<Rightarrow> entry \<Rightarrow> bool" where
  "fresh r e \<longleftrightarrow> e_nhdr e = 24 \<and> (e_nbytes e, e_tag e) = r \<and> e_nbl e = e_nbytes e
     \<and> e_nleft e = int (24 + e_nbytes e) \<and> (\<exists>b. e_buf e = Some b \<and> e_nbytes e \<le> length b)"

lemma fresh_phase: "fresh r (y_list s i) \<Longrightarrow> y_wire s = byte_stream ms k \<Longrightarrow> phase ms k r i s"
  by (simp add: phase_def hdr_phase_def fresh_def Let_def)

lemma phase_nleft:
  assumes "phase ms k r i s"
  shows "0 \<le> e_nleft (y_list s i)"
    and "e_nleft (y_list s i) \<le> 0 \<Longrightarrow> done_ok ms k (y_list s i) \<and> y_wire s = byte_stream ms (Suc k)"
  using assms by (auto simp: phase_def hdr_phase_def data_phase_def done_ok_def Let_def)

text \<open>The \<open>j\<close>-th receive of \<open>rs\<close>, a size and a tag, takes the \<open>j\<close>-th message.\<close>

definition fitting :: "(header \<times> 8 word list) list \<Rightarrow> (nat \<times> int) list \<Rightarrow> bool" where
  "fitting ms rs \<longleftrightarrow> sized ms \<and> (\<forall>j < length ms. j < length rs \<longrightarrow>
     (let h = fst (ms ! j) in
      hd_nbytes h \<le> fst (rs ! j) \<and> (snd (rs ! j) < 0 \<or> hd_tag h = snd (rs ! j))))"

lemma fittingD:
  assumes "fitting ms rs" and "k < length rs" and "k < length ms" and "ms ! k = (h, d)"
  shows "hd_nbytes h \<le> fst (rs ! k) \<and> (snd (rs ! k) < 0 \<or> hd_tag h = snd (rs ! k))"
  using assms by (auto simp: fitting_def Let_def)

lemma tcp_read_msg_phase:
  assumes f: "fitting ms rs" and p: "phase ms k (rs ! k) i s" and k: "k < length rs" and l: "0 < e_nleft (y_list s i)"
  shows "stops_with_error (tcp_read_msg i s) \<or>
     (\<exists>n s'. tcp_read_msg i s = Inr (n, s') \<and> elsewhere i s s' \<and> phase ms k (rs ! k) i s')"
proof (cases "e_nhdr (y_list s i) = 0")
  case True
  then have d: "data_phase ms k i s" using p by (auto simp: phase_def hdr_phase_def Let_def)
  with True l have "0 < e_nbl (y_list s i)" by (auto simp: data_phase_def Let_def)
  with True have "tcp_read_msg i s = read_data i s" by (simp add: tcp_read_msg_def)
  with read_data_phase [OF d] show ?thesis by (auto simp: phase_def)
next
  case False
  then have h: "hdr_phase ms k (rs ! k) i s" using p by (auto simp: phase_def data_phase_def Let_def)
  have sz: "sized ms" using f by (simp add: fitting_def)
  have fit: "hd_nbytes h \<le> fst (rs ! k) \<and> (snd (rs ! k) < 0 \<or> hd_tag h = snd (rs ! k))"
    if "k < length ms" "ms ! k = (h, d)" for h d
    by (rule fittingD [OF f k that])
  have "stops_with_error (read_hdr i s) \<or>
     (\<exists>n s'. read_hdr i s = Inr (n, s') \<and> elsewhere i s s'
        \<and> (if e_nhdr (y_list s' i) = 0
           then \<exists>s''. check_header i s' = Inr (i, s'') \<and> elsewhere i s s'' \<and> data_phase ms k i s''
           else hdr_phase ms k (rs ! k) i s'))"
    by (rule read_hdr_phase [OF h sz fit])
  then consider "stops_with_error (read_hdr i s)"
    | n s' where "read_hdr i s = Inr (n, s')" "elsewhere i s s'" "e_nhdr (y_list s' i) \<noteq> 0"
        "hdr_phase ms k (rs ! k) i s'"
    | n s' s'' where "read_hdr i s = Inr (n, s')" "e_nhdr (y_list s' i) = 0"
        "check_header i s' = Inr (i, s'')" "elsewhere i s s''" "data_phase ms k i s''"
    by metis
  then show ?thesis
  proof cases
    case 1
    then show ?thesis using False by (auto simp: tcp_read_msg_def stops_with_error_def)
  next
    case (2 n s')
    then have "tcp_read_msg i s = Inr (n, s')" using False by (simp add: tcp_read_msg_def)
    with 2 show ?thesis by (auto simp: phase_def)
  next
    case (3 n s' s'')
    have z: "e_nhdr (y_list s'' i) = 0" using 3(5) by (auto simp: data_phase_def Let_def)
    show ?thesis
    proof (cases "0 < e_nbl (y_list s'' i)")
      case True
      with 3 False z have "tcp_read_msg i s = read_data i s''" by (simp add: tcp_read_msg_def)
      with read_data_phase [OF 3(5)] 3(4) show ?thesis by (auto simp: phase_def intro: elsewhere_trans)
    next
      case no_data: False
      with 3 False z have "tcp_read_msg i s = Inr (n, s'')" by (simp add: tcp_read_msg_def)
      with 3 show ?thesis by (auto simp: phase_def)
    qed
  qed
qed

lemma recv_loop_phase:
  assumes f: "fitting ms rs" and "phase ms k (rs ! k) i s" and k: "k < length rs"
  shows "stops_with_error (recv_loop i s) \<or>
     (\<exists>s'. recv_loop i s = Inr s' \<and> elsewhere i s s' \<and> phase ms k (rs ! k) i s')"
  using assms(2)
proof (induction i s rule: recv_loop.induct)
  case (1 i s)
  show ?case
  proof (cases "e_nleft (y_list s i) \<le> 0")
    case True
    with "1.prems" show ?thesis by (simp add: recv_loop.simps)
  next
    case False
    with tcp_read_msg_phase [OF f "1.prems" k]
    consider "stops_with_error (tcp_read_msg i s)"
      | n s' where "tcp_read_msg i s = Inr (n, s')" "elsewhere i s s'" "phase ms k (rs ! k) i s'" by force
    then show ?thesis
    proof cases
      case 1
      with False show ?thesis by (auto simp: recv_loop.simps stops_with_error_def)
    next
      case (2 n s')
      show ?thesis
      proof (cases "n = 0")
        case True
        with 2 False show ?thesis by (auto simp: recv_loop.simps)
      next
        case pos: False
        then have "recv_loop i s = recv_loop i s'" using 2(1) False by (simp add: recv_loop.simps [of i s])
        with "1.IH" [OF False 2(1) refl pos 2(3)] 2(2) show ?thesis by (auto intro: elsewhere_trans)
      qed
    qed
  qed
qed

text \<open>The receives behind the current one, from the \<open>k\<close>-th on; \<open>H\<close> numbers the receives.\<close>

fun pending ::
  "(nat \<times> int) list \<Rightarrow> (nat \<rightharpoonup> nat) \<Rightarrow> (nat \<Rightarrow> entry) \<Rightarrow> nat \<Rightarrow> nat list \<Rightarrow> bool" where
  "pending rs H es k [] = True"
| "pending rs H es k (i # q) \<longleftrightarrow> H i = Some k \<and> fresh (rs ! k) (es i) \<and> pending rs H es (Suc k) q"

definition all_received ::
  "(header \<times> 8 word list) list \<Rightarrow> (nat \<rightharpoonup> nat) \<Rightarrow> (nat \<Rightarrow> entry) \<Rightarrow> nat \<Rightarrow> bool" where
  "all_received ms H es k \<longleftrightarrow> (\<forall>i j. H i = Some j \<longrightarrow> j < k \<longrightarrow> done_ok ms j (es i))"

text \<open>\<open>c\<close> receives have been posted, those in the queue are the last of them.\<close>

definition in_order ::
  "(header \<times> 8 word list) list \<Rightarrow> (nat \<times> int) list \<Rightarrow> (nat \<rightharpoonup> nat) \<Rightarrow> nat \<Rightarrow> receiver \<Rightarrow> bool" where
  "in_order ms rs H c s \<longleftrightarrow> length (y_rq s) \<le> c \<and> distinct (y_rq s) \<and> y_mq s = []
     \<and> y_active s = (y_rq s \<noteq> []) \<and> inj_on H (dom H)
     \<and> (\<forall>i j. H i = Some j \<longrightarrow> j < c \<and> e_buf (y_list s i) \<noteq> None)
     \<and> all_received ms H (y_list s) (c - length (y_rq s))
     \<and> (case y_rq s of
          [] \<Rightarrow> y_wire s = byte_stream ms c
        | i # q \<Rightarrow> (let k = c - length (y_rq s) in
            H i = Some k \<and> phase ms k (rs ! k) i s \<and> 0 < e_nleft (y_list s i)
            \<and> pending rs H (y_list s) (Suc k) q))"

lemma pending_cong:
  "(\<And>j. j \<in> set q \<Longrightarrow> es' j = es j \<and> H' j = H j) \<Longrightarrow> pending rs H' es' k q = pending rs H es k q"
  by (induction q arbitrary: k) auto

lemma pending_append:
  "pending rs H es k (q @ [i]) \<longleftrightarrow>
     pending rs H es k q \<and> H i = Some (k + length q) \<and> fresh (rs ! (k + length q)) (es i)"
  by (induction q arbitrary: k) auto

lemma pending_numbers: "pending rs H es k q \<Longrightarrow> j \<in> set q \<Longrightarrow> \<exists>n. H j = Some n \<and> k \<le> n"
proof (induction q arbitrary: k)
  case (Cons i q)
  show ?case
  proof (cases "j = i")
    case False
    with Cons.prems Cons.IH [of "Suc k"] show ?thesis by (auto dest: Suc_leD)
  qed (use Cons.prems in auto)
qed simp

lemma pending_nleft: "pending rs H es k q \<Longrightarrow> j \<in> set q \<Longrightarrow> 0 < e_nleft (es j)"
  by (induction q arbitrary: k) (auto simp: fresh_def)

lemma pending_covers: "pending rs H es k q \<Longrightarrow> k \<le> j \<Longrightarrow> j < k + length q \<Longrightarrow> \<exists>i \<in> set q. H i = Some j"
proof (induction q arbitrary: k)
  case (Cons i q)
  then show ?case by (cases "j = k") (auto dest!: Cons.IH)
qed simp

lemma next_of_hd [simp]: "next_of i (i # q) = q"
  by (simp add: next_of_def)

lemma recv_from_q_none: "y_mq s = [] \<Longrightarrow> recv_from_q i s = s"
  by (simp add: recv_from_q_def)

text \<open>From the current receive on, \<open>do_recv\<close> keeps the order.\<close>

lemma do_recv_step:
  assumes f: "fitting ms rs" and q: "y_rq s = i # q" "y_mq s = []"
    and p: "phase ms k (rs ! k) i s" and k: "k < length rs"
  obtains r where "do_recv s = Some r" "stops_with_error r"
  | s' where "do_recv s = Some (Inr (s'\<lparr>y_active := True\<rparr>))" "elsewhere i s s'"
      "phase ms k (rs ! k) i s'" "0 < e_nleft (y_list s' i)"
  | s' where "do_recv s = (if q = [] then Some (Inr (s'\<lparr>y_rq := q, y_active := False\<rparr>))
                           else do_recv (s'\<lparr>y_rq := q\<rparr>))" "elsewhere i s s'"
      "done_ok ms k (y_list s' i)" "y_wire s' = byte_stream ms (Suc k)"
proof -
  from recv_loop_phase [OF f p k] consider r where "recv_loop i s = r" "stops_with_error r"
    | s' where "recv_loop i s = Inr s'" "elsewhere i s s'" "phase ms k (rs ! k) i s'" by blast
  then show ?thesis
  proof cases
    case (1 r)
    then have "do_recv s = Some (Inl (projl r))"
      using q by (subst do_recv.simps) (auto simp: recv_from_q_none stops_with_error_def)
    with that(1) 1 show ?thesis by (auto simp: stops_with_error_def)
  next
    case (2 s')
    have rq: "y_rq s' = i # q" using 2(2) q by (simp add: elsewhere_def)
    show ?thesis
    proof (cases "0 < e_nleft (y_list s' i)")
      case True
      then have "do_recv s = Some (Inr (s'\<lparr>y_active := True\<rparr>))"
        using q 2(1) by (subst do_recv.simps) (simp add: recv_from_q_none)
      with that(2) 2 True show ?thesis by blast
    next
      case False
      then have "e_nleft (y_list s' i) = 0" using phase_nleft(1) [OF 2(3)] by simp
      then have "do_recv s = (if q = [] then Some (Inr (s'\<lparr>y_rq := q, y_active := False\<rparr>))
                           else do_recv (s'\<lparr>y_rq := q\<rparr>))"
        using q 2(1) rq by (subst do_recv.simps) (simp add: recv_from_q_none)
      with that(3) 2(2) phase_nleft(2) [OF 2(3)] False show ?thesis by auto
    qed
  qed
qed

lemma finished_Suc:
  assumes "all_received ms H (y_list s) k" and "elsewhere i s s'" and "done_ok ms k (y_list s' i)"
    and "H i = Some k" and "inj_on H (dom H)"
  shows "all_received ms H (y_list s') (Suc k)"
  unfolding all_received_def
proof (intro allI impI)
  fix i' j assume j: "H i' = Some j" "j < Suc k"
  show "done_ok ms j (y_list s' i')"
  proof (cases "j = k")
    case True
    with j(1) assms(4,5) have "i' = i" by (metis domI inj_onD)
    with True assms(3) show ?thesis by simp
  next
    case False
    with j(1) assms(4) have "i' \<noteq> i" by auto
    with False j assms(1,2) show ?thesis by (simp add: all_received_def elsewhere_def)
  qed
qed

lemma elsewhere_buf:
  assumes "\<forall>i j. H i = Some j \<longrightarrow> j < c \<and> e_buf (y_list s i) \<noteq> None" and "elsewhere i s s'"
    and "e_buf (y_list s' i) \<noteq> None"
  shows "\<forall>i j. H i = Some j \<longrightarrow> j < c \<and> e_buf (y_list s' i) \<noteq> None"
  using assms unfolding elsewhere_def by metis

lemma phase_buf: "phase ms k r i s \<Longrightarrow> e_buf (y_list s i) \<noteq> None"
  by (auto simp: phase_def hdr_phase_def data_phase_def Let_def)

lemma done_buf: "done_ok ms k e \<Longrightarrow> e_buf e \<noteq> None"
  by (auto simp: done_ok_def)

lemma do_recv_in_order:
  assumes f: "fitting ms rs"
    and "y_rq s = i # q" and "distinct (i # q)" and "y_mq s = []" and "H i = Some k"
    and "phase ms k (rs ! k) i s" and "pending rs H (y_list s) (Suc k) q"
    and "all_received ms H (y_list s) k" and inj: "inj_on H (dom H)"
    and "\<forall>i j. H i = Some j \<longrightarrow> j < Suc k + length q \<and> e_buf (y_list s i) \<noteq> None"
    and "Suc k + length q \<le> length rs"
  shows "\<exists>r. do_recv s = Some r \<and> (stops_with_error r
     \<or> (\<exists>s'. r = Inr s' \<and> in_order ms rs H (Suc k + length q) s'))"
  using assms(2-)
proof (induction q arbitrary: s i k)
  case Nil
  have k: "k < length rs" using Nil.prems(10) by simp
  show ?case
  proof (rule do_recv_step [OF f Nil.prems(1,3,5) k])
    fix s' assume r: "do_recv s = Some (Inr (s'\<lparr>y_active := True\<rparr>))" and e: "elsewhere i s s'"
      and p: "phase ms k (rs ! k) i s'" "0 < e_nleft (y_list s' i)"
    have "all_received ms H (y_list s') k"
      using Nil.prems(4,7) e unfolding all_received_def elsewhere_def by (metis less_irrefl option.inject)
    with r e p elsewhere_buf [OF Nil.prems(9) e phase_buf [OF p(1)]] Nil.prems show ?thesis
      by (auto simp: in_order_def elsewhere_def phase_cong [of "s'\<lparr>y_active := True\<rparr>" i s'])
  next
    fix s' assume r: "do_recv s = (if [] = [] then Some (Inr (s'\<lparr>y_rq := [], y_active := False\<rparr>))
                           else do_recv (s'\<lparr>y_rq := []\<rparr>))" and e: "elsewhere i s s'"
      and p: "done_ok ms k (y_list s' i)" "y_wire s' = byte_stream ms (Suc k)"
    with finished_Suc [OF Nil.prems(7) e p(1) Nil.prems(4) inj]
      elsewhere_buf [OF Nil.prems(9) e done_buf [OF p(1)]] Nil.prems show ?thesis
      by (auto simp: in_order_def elsewhere_def)
  qed blast
next
  case (Cons i' q)
  have k: "k < length rs" using Cons.prems(10) by simp
  show ?case
  proof (rule do_recv_step [OF f Cons.prems(1,3,5) k])
    fix s' assume r: "do_recv s = Some (Inr (s'\<lparr>y_active := True\<rparr>))" and e: "elsewhere i s s'"
      and p: "phase ms k (rs ! k) i s'" "0 < e_nleft (y_list s' i)"
    have "all_received ms H (y_list s') k"
      using Cons.prems(4,7) e unfolding all_received_def elsewhere_def by (metis less_irrefl option.inject)
    moreover have "pending rs H (y_list s') (Suc k) (i' # q)"
      using Cons.prems(2,6) e by (subst pending_cong [where es = "y_list s" and H = H]) (auto simp: elsewhere_def)
    ultimately show ?thesis
      using r e p elsewhere_buf [OF Cons.prems(9) e phase_buf [OF p(1)]] Cons.prems
      by (auto simp: in_order_def elsewhere_def phase_cong [of "s'\<lparr>y_active := True\<rparr>" i s'])
  next
    fix s' assume r: "do_recv s = (if i' # q = [] then Some (Inr (s'\<lparr>y_rq := i' # q, y_active := False\<rparr>))
                           else do_recv (s'\<lparr>y_rq := i' # q\<rparr>))" and e: "elsewhere i s s'"
      and p: "done_ok ms k (y_list s' i)" "y_wire s' = byte_stream ms (Suc k)"
    let ?t = "s'\<lparr>y_rq := i' # q\<rparr>"
    have pend: "pending rs H (y_list s') (Suc k) (i' # q)"
      using Cons.prems(2,6) e by (subst pending_cong [where es = "y_list s" and H = H]) (auto simp: elsewhere_def)
    have "phase ms (Suc k) (rs ! Suc k) i' ?t" using pend p(2) by (auto intro: fresh_phase)
    moreover have "y_mq ?t = []" using e Cons.prems(3) by (simp add: elsewhere_def)
    ultimately have "\<exists>r. do_recv ?t = Some r \<and> (stops_with_error r
        \<or> (\<exists>s'. r = Inr s' \<and> in_order ms rs H (Suc (Suc k) + length q) s'))"
      using Cons.IH [of ?t i' "Suc k"] pend finished_Suc [OF Cons.prems(7) e p(1) Cons.prems(4) inj]
        elsewhere_buf [OF Cons.prems(9) e done_buf [OF p(1)]] Cons.prems(2,8,10) by simp
    with r show ?thesis by simp
  qed blast
qed

section \<open>Sequences of operations\<close>

text \<open>
  What happens to a receiver: a receive is posted, a receive is tested, the signal handler runs,
  and the system gives its answers to the next reads.  \<open>H\<close> gives the user's handles their
  numbers, in the order in which the receives were posted.
\<close>

datatype receiving = R_ARecv "8 word list" nat int | R_Test nat | R_sigio | R_system "sys list"

fun recv_op ::
  "nat \<Rightarrow> receiving \<Rightarrow> receiver \<times> (nat \<rightharpoonup> nat) \<times> nat
   \<Rightarrow> (receiver \<times> (nat \<rightharpoonup> nat) \<times> nat) outcome option" where
  "recv_op src (R_ARecv buf n tag) (s, H, c) =
     map_option (map_sum id (\<lambda>(i, s'). (s', H(i \<mapsto> c), Suc c))) (MP_ARecv src buf n tag s)"
| "recv_op src (R_Test i) (s, H, c) =
     map_option (map_sum id (\<lambda>(done, s'). (s', if done then H(i := None) else H, c))) (MP_Test_recv i s)"
| "recv_op src R_sigio (s, H, c) = map_option (map_sum id (\<lambda>s'. (s', H, c))) (sigio_recv s)"
| "recv_op src (R_system as) (s, H, c) = Some (Inr (s\<lparr>y_as := as\<rparr>, H, c))"

fun recv_run ::
  "nat \<Rightarrow> receiving list \<Rightarrow> receiver \<times> (nat \<rightharpoonup> nat) \<times> nat
   \<Rightarrow> (receiver \<times> (nat \<rightharpoonup> nat) \<times> nat) outcome option" where
  "recv_run src [] st = Some (Inr st)"
| "recv_run src (op # ops) st = (case recv_op src op st of
     None \<Rightarrow> None
   | Some (Inl e) \<Rightarrow> Some (Inl e)
   | Some (Inr st') \<Rightarrow> recv_run src ops st')"

fun posted_by :: "receiving \<Rightarrow> (nat \<times> int) list" where
  "posted_by (R_ARecv buf n tag) = [(n, tag)]"
| "posted_by _ = []"

fun enough_room :: "receiving \<Rightarrow> bool" where
  "enough_room (R_ARecv buf n tag) \<longleftrightarrow> n \<le> length buf"
| "enough_room _ \<longleftrightarrow> True"

definition init_receiver :: "witem list \<Rightarrow> receiver" where
  "init_receiver w = \<lparr>y_list = (\<lambda>_. msg_null), y_mid = 0, y_rq = [], y_mq = [], y_active = False,
     y_hdr = [], y_wire = w, y_as = []\<rparr>"

lemma in_order_init: "in_order ms rs Map.empty 0 (init_receiver (byte_stream ms 0))"
  by (simp add: in_order_def init_receiver_def all_received_def)

text \<open>A step that leaves the queue and its entries alone keeps the order.\<close>

lemma in_order_cong:
  assumes inv: "in_order ms rs H c s"
    and "y_rq s' = y_rq s" "y_mq s' = y_mq s" "y_active s' = y_active s" "y_wire s' = y_wire s"
      "y_hdr s' = y_hdr s"
    and H': "\<And>i j. H' i = Some j \<Longrightarrow> H i = Some j \<and> y_list s' i = y_list s i"
    and q: "\<And>i. i \<in> set (y_rq s) \<Longrightarrow> H' i = H i \<and> y_list s' i = y_list s i"
  shows "in_order ms rs H' c s'"
proof -
  have "inj_on H' (dom H')"
    using inv H' unfolding in_order_def inj_on_def by (metis domD domI)
  moreover have "all_received ms H' (y_list s') k" if "all_received ms H (y_list s) k" for k
    using that H' unfolding all_received_def by metis
  moreover have "\<forall>i j. H' i = Some j \<longrightarrow> j < c \<and> e_buf (y_list s' i) \<noteq> None"
    using inv H' unfolding in_order_def by metis
  moreover have "pending rs H' (y_list s') k (tl (y_rq s)) = pending rs H (y_list s) k (tl (y_rq s))" for k
    using q by (intro pending_cong) (cases "y_rq s"; simp)
  moreover have "phase ms k r i s' = phase ms k r i s" if "i \<in> set (y_rq s)" for k r i
    using q [OF that] assms(5,6) by (intro phase_cong) simp_all
  ultimately show ?thesis
    using inv q assms(2-6) unfolding in_order_def by (cases "y_rq s") (auto simp: Let_def)
qed

lemma arecv_in_order:
  assumes f: "fitting ms rs" and inv: "in_order ms rs H c s" and c: "c < length rs" "rs ! c = (n, tag)"
    and n: "n \<le> length buf"
  shows "\<exists>r. MP_ARecv src buf n tag s = Some r \<and> (stops_with_error r
     \<or> (\<exists>i s'. r = Inr (i, s') \<and> in_order ms rs (H(i \<mapsto> c)) (Suc c) s'))"
proof (cases "create_msg_entry buf n src False tag (y_list s) (y_mid s)")
  case (Inl e)
  then show ?thesis
    by (auto simp: MP_ARecv_def stops_with_error_def create_msg_entry_def next_free_def obind_def
        split: sum.splits option.splits)
next
  case (Inr p)
  then obtain i es where cr: "create_msg_entry buf n src False tag (y_list s) (y_mid s) = Inr (i, es)"
    by (cases p) auto
  note new = create_Inr [OF cr]
  let ?H = "H(i \<mapsto> c)"
  let ?s = "s\<lparr>y_list := es, y_mid := i, y_rq := y_rq s @ [i]\<rparr>"
  have I: "length (y_rq s) \<le> c" "distinct (y_rq s)" "y_mq s = []" "y_active s = (y_rq s \<noteq> [])"
      "inj_on H (dom H)" "\<forall>i j. H i = Some j \<longrightarrow> j < c \<and> e_buf (y_list s i) \<noteq> None"
      "all_received ms H (y_list s) (c - length (y_rq s))"
    using inv by (simp_all add: in_order_def)
  have Hi: "H i = None" using I(6) new(1) by (cases "H i") force+
  have same: "es j = y_list s j" if "j \<noteq> i" for j using new(2) that by (metis fun_upd_other)
  have inQ: "\<exists>n. H j = Some n" if "j \<in> set (y_rq s)" for j
    using inv that by (cases "y_rq s") (auto simp: in_order_def Let_def dest: pending_numbers)
  then have fresh_i: "i \<notin> set (y_rq s)" using Hi by force
  have fr: "fresh (rs ! c) (es i)" using new c(2) n by (simp add: fresh_def)
  have inj: "inj_on ?H (dom ?H)"
  proof -
    have "H y \<noteq> Some c" for y using I(6) by blast
    then show ?thesis using I(5) Hi unfolding inj_on_def by (auto split: if_splits)
  qed
  have buf': "\<forall>j m. ?H j = Some m \<longrightarrow> m < Suc c \<and> e_buf (es j) \<noteq> None"
  proof (intro allI impI)
    fix j m assume "?H j = Some m"
    then show "m < Suc c \<and> e_buf (es j) \<noteq> None"
      using I(6) same [of j] new(3) by (cases "j = i") (auto simp: less_Suc_eq)
  qed
  have fin: "all_received ms ?H es (c - length (y_rq s))"
    unfolding all_received_def
  proof (intro allI impI)
    fix j m assume j: "?H j = Some m" "m < c - length (y_rq s)"
    then have "j \<noteq> i" by auto
    with j I(7) same [of j] show "done_ok ms m (es j)" by (simp add: all_received_def)
  qed
  have t: "tcp_arecv i (s\<lparr>y_list := es, y_mid := i\<rparr>) = (if y_active s then Some (Inr ?s) else do_recv ?s)"
    using new(9) I(3) by (simp add: tcp_arecv_def recv_from_q_none)
  show ?thesis
  proof (cases "y_rq s")
    case Nil
    have "y_wire s = byte_stream ms c" using inv Nil by (simp add: in_order_def)
    then have "phase ms c (rs ! c) i ?s" using fr by (intro fresh_phase) simp_all
    then have "\<exists>r. do_recv ?s = Some r \<and> (stops_with_error r
        \<or> (\<exists>s'. r = Inr s' \<and> in_order ms rs ?H (Suc c) s'))"
      using do_recv_in_order [OF f, of ?s i "[]" ?H c] Nil I fin inj buf' c(1) by simp
    then show ?thesis using cr t Nil I(4)
      by (auto simp: MP_ARecv_def stops_with_error_def)
  next
    case (Cons i0 q)
    let ?k = "c - length (y_rq s)"
    have h: "H i0 = Some ?k" "phase ms ?k (rs ! ?k) i0 s" "0 < e_nleft (y_list s i0)"
        "pending rs H (y_list s) (Suc ?k) q"
      using inv Cons by (simp_all add: in_order_def Let_def)
    have k: "Suc ?k + length q = c" using I(1) Cons by simp
    have "i0 \<noteq> i" using fresh_i Cons by auto
    have "pending rs ?H es (Suc ?k) q"
      using h(4) fresh_i Cons same by (subst pending_cong [where es = "y_list s" and H = H]) auto
    then have "pending rs ?H es (Suc ?k) (q @ [i])" using k fr by (simp add: pending_append)
    moreover have "phase ms ?k (rs ! ?k) i0 ?s"
      using h(2) same [OF \<open>i0 \<noteq> i\<close>] phase_cong [of ?s i0 s] by simp
    moreover have "Suc c - length (y_rq ?s) = ?k" by simp
    ultimately have "in_order ms rs ?H (Suc c) ?s"
      using I Cons h \<open>i0 \<noteq> i\<close> same [OF \<open>i0 \<noteq> i\<close>] fresh_i inj buf' fin
      unfolding in_order_def by (simp add: Let_def)
    then show ?thesis using cr t Cons I(4) by (auto simp: MP_ARecv_def)
  qed
qed

lemma test_in_order:
  assumes inv: "in_order ms rs H c s"
  shows "\<exists>r. MP_Test_recv i s = Some r \<and> (stops_with_error r
     \<or> (\<exists>b s'. r = Inr (b, s') \<and> in_order ms rs (if b then H(i := None) else H) c s'))"
proof -
  let ?e = "y_list s i"
  consider "e_buf ?e = None" | "e_buf ?e \<noteq> None" "e_nleft ?e \<noteq> 0" | "e_buf ?e \<noteq> None" "e_nleft ?e = 0"
    by blast
  then show ?thesis
  proof cases
    case 1
    then show ?thesis by (simp add: MP_Test_recv_def stops_with_error_def)
  next
    case 2
    with inv show ?thesis by (auto simp: MP_Test_recv_def)
  next
    case 3
    have "i \<notin> set (y_rq s)"
    proof
      assume "i \<in> set (y_rq s)"
      then obtain i0 q where q: "y_rq s = i0 # q" by (cases "y_rq s") auto
      then have "0 < e_nleft (y_list s i0)" "pending rs H (y_list s) (Suc (c - length (y_rq s))) q"
        using inv by (simp_all add: in_order_def Let_def)
      with \<open>i \<in> set (y_rq s)\<close> q 3 pending_nleft [of rs H "y_list s" _ q i] show False by auto
    qed
    then have "in_order ms rs (H(i := None)) c (upd_entry i (\<lambda>e. e\<lparr>e_buf := None\<rparr>) s)"
      by (intro in_order_cong [OF inv]) (auto simp: upd_entry_def split: if_splits)
    moreover have "MP_Test_recv i s = Some (Inr (True, upd_entry i (\<lambda>e. e\<lparr>e_buf := None\<rparr>) s))"
      using 3 by (simp add: MP_Test_recv_def MP_Wait_recv_def Let_def)
    ultimately show ?thesis by auto
  qed
qed

lemma sigio_in_order:
  assumes f: "fitting ms rs" and inv: "in_order ms rs H c s" and c: "c \<le> length rs"
  shows "\<exists>r. sigio_recv s = Some r \<and> (stops_with_error r \<or> (\<exists>s'. r = Inr s' \<and> in_order ms rs H c s'))"
proof (cases "y_rq s")
  case Nil
  with inv show ?thesis by (auto simp: sigio_recv_def in_order_def)
next
  case (Cons i q)
  let ?k = "c - length (y_rq s)"
  have I: "length (y_rq s) \<le> c" "distinct (y_rq s)" "y_mq s = []" "y_active s"
      "inj_on H (dom H)" "\<forall>i j. H i = Some j \<longrightarrow> j < c \<and> e_buf (y_list s i) \<noteq> None"
      "all_received ms H (y_list s) ?k" "H i = Some ?k" "phase ms ?k (rs ! ?k) i s"
      "pending rs H (y_list s) (Suc ?k) q"
    using inv Cons by (simp_all add: in_order_def Let_def)
  have k: "Suc ?k + length q = c" using I(1) Cons by simp
  then have "\<exists>r. do_recv s = Some r \<and> (stops_with_error r
        \<or> (\<exists>s'. r = Inr s' \<and> in_order ms rs H (Suc ?k + length q) s'))"
    by (intro do_recv_in_order [OF f, where i = i]) (use I Cons c in simp_all)
  with k I(4) show ?thesis by (simp add: sigio_recv_def)
qed

lemma recv_run_in_order:
  assumes f: "fitting ms rs" and room: "list_all enough_room ops"
    and rs: "drop c rs = concat (map posted_by ops)" and inv: "in_order ms rs H c s" and c: "c \<le> length rs"
  shows "\<exists>r. recv_run src ops (s, H, c) = Some r \<and> (stops_with_error r
     \<or> (\<exists>s' H'. r = Inr (s', H', length rs) \<and> in_order ms rs H' (length rs) s'))"
  using room rs inv c
proof (induction ops arbitrary: s H c)
  case Nil
  then show ?case by simp
next
  case (Cons op ops)
  have "\<exists>r. recv_op src op (s, H, c) = Some r \<and> (stops_with_error r
      \<or> (\<exists>s' H' c'. r = Inr (s', H', c') \<and> in_order ms rs H' c' s' \<and> c' \<le> length rs
            \<and> drop c' rs = concat (map posted_by ops)))"
  proof (cases op)
    case (R_ARecv buf n tag)
    with Cons.prems have d: "drop c rs = (n, tag) # concat (map posted_by ops)" by simp
    then have c: "c < length rs" "rs ! c = (n, tag)" "drop (Suc c) rs = concat (map posted_by ops)"
      by (metis drop_eq_Nil list.distinct(1) not_le, metis nth_via_drop, metis drop_Suc tl_drop list.sel(3))
    from arecv_in_order [OF f Cons.prems(3) c(1,2), of buf src] R_ARecv Cons.prems(1) c
    show ?thesis by (auto simp: stops_with_error_def)
  next
    case (R_Test i)
    with test_in_order [OF Cons.prems(3), of i] Cons.prems show ?thesis
      by (fastforce simp: stops_with_error_def)
  next
    case R_sigio
    with sigio_in_order [OF f Cons.prems(3,4)] Cons.prems show ?thesis
      by (auto simp: stops_with_error_def)
  next
    case (R_system as)
    have "in_order ms rs H c (s\<lparr>y_as := as\<rparr>)" by (rule in_order_cong [OF Cons.prems(3)]) simp_all
    with R_system Cons.prems show ?thesis by simp
  qed
  then show ?case
  proof (elim exE conjE disjE)
    fix r assume "recv_op src op (s, H, c) = Some r" "stops_with_error r"
    then show ?thesis by (auto simp: stops_with_error_def)
  next
    fix r s' H' c' assume "recv_op src op (s, H, c) = Some r" "r = Inr (s', H', c')"
      and "in_order ms rs H' c' s'" "c' \<le> length rs" "drop c' rs = concat (map posted_by ops)"
    then show ?thesis using Cons.IH [of c' H' s'] Cons.prems(1) by simp
  qed
qed

lemma receives_complete:
  assumes "fitting ms (concat (map posted_by ops))" and "list_all enough_room ops"
  shows "\<exists>r. recv_run src ops (init_receiver (byte_stream ms 0), Map.empty, 0) = Some r
     \<and> (stops_with_error r
        \<or> (\<exists>s H c. r = Inr (s, H, c)
             \<and> (\<forall>i j. H i = Some j \<and> e_nleft (y_list s i) = 0 \<longrightarrow> done_ok ms j (y_list s i))))"
proof -
  let ?rs = "concat (map posted_by ops)"
  obtain r where r: "recv_run src ops (init_receiver (byte_stream ms 0), Map.empty, 0) = Some r"
      and "stops_with_error r \<or> (\<exists>s' H'. r = Inr (s', H', length ?rs) \<and> in_order ms ?rs H' (length ?rs) s')"
    using recv_run_in_order [OF assms(1,2), of 0 Map.empty "init_receiver (byte_stream ms 0)" src]
      in_order_init by auto
  moreover have "done_ok ms j (y_list s i)"
    if inv: "in_order ms ?rs H c s" and H: "H i = Some j" "e_nleft (y_list s i) = 0" for s H c i j
  proof (rule ccontr)
    assume "\<not> done_ok ms j (y_list s i)"
    with inv H have j: "c - length (y_rq s) \<le> j" "j < c" and inj: "inj_on H (dom H)"
      and le: "length (y_rq s) \<le> c"
      by (auto simp: in_order_def all_received_def not_less [symmetric])
    then obtain i0 q where q: "y_rq s = i0 # q" by (cases "y_rq s") auto
    let ?k = "c - length (y_rq s)"
    have h: "H i0 = Some ?k" "0 < e_nleft (y_list s i0)" "pending ?rs H (y_list s) (Suc ?k) q"
      using inv q by (simp_all add: in_order_def Let_def)
    have "\<exists>i' \<in> set (i0 # q). H i' = Some j \<and> 0 < e_nleft (y_list s i')"
    proof (cases "j = ?k")
      case False
      then have "Suc ?k \<le> j" "j < Suc ?k + length q" using j le q by simp_all
      from pending_covers [OF h(3) this] pending_nleft [OF h(3)] show ?thesis by auto
    qed (use h in simp)
    then obtain i' where "H i' = Some j" "0 < e_nleft (y_list s i')" by blast
    moreover from this(1) H(1) inj have "i' = i" by (metis domI inj_onD)
    ultimately show False using H(2) by simp
  qed
  ultimately show ?thesis by (metis r)
qed

text \<open>
  Receives that are posted in the order of the messages are right: whatever the system's answers
  and wherever the signal handler and the tests come, the program returns (or stops with a
  message about an error of the system or too many receives), and when a receive is complete, its
  buffer begins with the data of its message, and source, tag and size are those of the message.
\<close>

theorem receives_in_order:
  assumes "fitting ms (concat (map posted_by ops))" and "list_all enough_room ops"
  shows "\<exists>r. recv_run src ops (init_receiver (byte_stream ms 0), Map.empty, 0) = Some r
     \<and> (stops_with_error r
        \<or> (\<exists>s H c. r = Inr (s, H, c)
             \<and> (\<forall>i j. H i = Some j \<and> e_nleft (y_list s i) = 0 \<longrightarrow> done_ok ms j (y_list s i))))"
  using assms by (rule receives_complete)

definition demo_ms :: "(header \<times> 8 word list) list" where
  "demo_ms = [(\<lparr>hd_nbytes = 3, hd_src = 1, hd_tag = 7\<rparr>, [1, 2, 3])]"

definition demo_recv :: "receiving list" where
  "demo_recv = [R_system [Moved 10, Moved 20], R_ARecv [0, 0, 0, 9] 4 7, R_system [Moved 9], R_sigio]"

lemma demo_recv_run:
  "\<exists>s c. recv_run 1 demo_recv (init_receiver (byte_stream demo_ms 0), Map.empty, 0) = Some (Inr (s, [1 \<mapsto> 0], c))
     \<and> e_nleft (y_list s 1) = 0"
  by (simp add: demo_recv_def demo_ms_def byte_stream_def frame_def init_receiver_def MP_ARecv_def
      create_msg_entry_def next_free_next msg_null_def MAX_MSGS_def set_entry_def tcp_arecv_def
      recv_from_q_def do_recv.simps recv_loop.simps tcp_read_msg_def read_hdr_def sys_read_def upd_entry_def
      update_msg_progress_def sigio_recv_def check_header_def fits_def got_header_def read_data_def
      put_data_def store_def data_bytes_def next_of_def)

lemma demo_fitting: "fitting demo_ms (concat (map posted_by demo_recv))" "list_all enough_room demo_recv"
  by (simp_all add: fitting_def sized_def demo_ms_def demo_recv_def)

theorem receives_in_order_witness:
  "\<exists>s c. recv_run 1 demo_recv (init_receiver (byte_stream demo_ms 0), Map.empty, 0) = Some (Inr (s, [1 \<mapsto> 0], c))
     \<and> done_ok demo_ms 0 (y_list s 1)"
proof -
  obtain s c where s: "recv_run 1 demo_recv (init_receiver (byte_stream demo_ms 0), Map.empty, 0)
        = Some (Inr (s, [1 \<mapsto> 0], c))" "e_nleft (y_list s 1) = 0"
    using demo_recv_run by blast
  with receives_in_order [OF demo_fitting, of 1] show ?thesis
    by (auto simp: stops_with_error_def)
qed

section \<open>From the sender to the receiver\<close>

lemma sized_sent: "sized (concat (map (sent_by me) ops))"
proof -
  have "hd_nbytes h = length d" if "(h, d) \<in> set (sent_by me op)" for op h d
    using that by (cases op) auto
  then show ?thesis by (auto simp: sized_def)
qed

text \<open>
  C9.  A whole connection: what one process gives to \<open>MP_ASend\<close> is what the receives of the other
  process hold when they are complete, if they are posted in the order of the sends with
  sizes and tags that take the messages; however the system cuts the transfers on both sides.
\<close>

theorem tcp_messages_delivered:
  assumes "send_run me sops init_sender = Inr x" and "x_q x = []"
    and "\<forall>j < length (concat (map (sent_by me) sops)). j < length (concat (map posted_by rops)) \<longrightarrow>
       (let h = fst (concat (map (sent_by me) sops) ! j); r = concat (map posted_by rops) ! j in
        hd_nbytes h \<le> fst r \<and> (snd r < 0 \<or> hd_tag h = snd r))"
    and "list_all enough_room rops"
  shows "\<exists>r. recv_run src rops (init_receiver (x_wire x), Map.empty, 0) = Some r
     \<and> (stops_with_error r
        \<or> (\<exists>s H c. r = Inr (s, H, c)
             \<and> (\<forall>i j. H i = Some j \<and> e_nleft (y_list s i) = 0 \<longrightarrow>
                  done_ok (concat (map (sent_by me) sops)) j (y_list s i))))"
proof -
  let ?ms = "concat (map (sent_by me) sops)"
  have "send_inv ?ms x" using send_run_inv [OF assms(1) init_sender_inv] by simp
  with assms(2) have "x_wire x = byte_stream ?ms 0" by (simp add: send_inv_def send_core_def byte_stream_def)
  moreover have "fitting ?ms (concat (map posted_by rops))"
    using assms(3) sized_sent unfolding fitting_def Let_def by blast
  ultimately show ?thesis using receives_complete [OF _ assms(4)] by simp
qed

theorem tcp_messages_delivered_witness:
  "\<exists>x s c. send_run 1 [Op_system [Moved 30, Moved 30], Op_ASend [1, 2, 3] 7] init_sender = Inr x
     \<and> recv_run 1 demo_recv (init_receiver (x_wire x), Map.empty, 0) = Some (Inr (s, [1 \<mapsto> 0], c))
     \<and> e_nbytes (y_list s 1) = 3 \<and> take 3 (the (e_buf (y_list s 1))) = [1, 2, 3]"
proof -
  let ?sops = "[Op_system [Moved 30, Moved 30], Op_ASend [1, 2, 3] 7]"
  have "map_sum id x_q (send_run 1 ?sops init_sender) = Inr []"
    by (simp add: MP_ASend_def create_msg_entry_def next_free_next init_sender_def msg_null_def MAX_MSGS_def
        set_entry_def tcp_asend_def do_send.simps send_loop.simps tcp_write_msg_def write_part_def
        update_msg_progress_def hdr_left_def data_left_def mtu_one_nic_def)
  then obtain x where x: "send_run 1 ?sops init_sender = Inr x" "x_q x = []" by auto
  have ms: "concat (map (sent_by 1) ?sops) = demo_ms" by (simp add: demo_ms_def)
  have "x_wire x = byte_stream demo_ms 0"
    using send_run_inv [OF x(1) init_sender_inv, unfolded append_Nil ms] x(2)
    by (simp add: send_inv_def send_core_def byte_stream_def)
  then obtain s c where s: "recv_run 1 demo_recv (init_receiver (x_wire x), Map.empty, 0)
        = Some (Inr (s, [1 \<mapsto> 0], c))" "e_nleft (y_list s 1) = 0"
    using demo_recv_run by auto
  have fit: "\<forall>j < length demo_ms. j < length (concat (map posted_by demo_recv)) \<longrightarrow>
      (let h = fst (demo_ms ! j); r = concat (map posted_by demo_recv) ! j in
       hd_nbytes h \<le> fst r \<and> (snd r < 0 \<or> hd_tag h = snd r))"
    by (simp add: demo_ms_def demo_recv_def)
  have "done_ok demo_ms 0 (y_list s 1)"
    using tcp_messages_delivered [OF x _ demo_fitting(2), of 1, unfolded ms, OF fit] s
    by (auto simp: stops_with_error_def)
  then have "e_nbytes (y_list s 1) = 3" "take 3 (the (e_buf (y_list s 1))) = [1, 2, 3]"
    by (auto simp: done_ok_def demo_ms_def numeral_3_eq_3)
  with x(1) s(1) show ?thesis by blast
qed

end
