(* ===== verification/Matching.thy ===== *)
theory Matching
  imports InOrder
begin

text \<open>
  Messages that arrive before, or in another order than, their receives: what the matching of
  \<open>MP_Lite/tcp.c\<close> does with them, and three situations in which it loses the position in the
  stream of bytes.
\<close>

section \<open>Reads that return everything\<close>

definition whole :: "nat \<Rightarrow> receiver \<Rightarrow> bool" where
  "whole n s \<longleftrightarrow> n \<le> length (y_as s) \<and> (\<forall>a \<in> set (y_as s). \<exists>k. a = Moved k \<and> length (y_wire s) \<le> k)"

lemma sys_read_whole:
  assumes "whole (Suc n) s"
  shows "\<exists>as. sys_read req s = Inr (take req (y_wire s), s\<lparr>y_wire := drop req (y_wire s), y_as := as\<rparr>)
     \<and> whole n (s\<lparr>y_wire := drop req (y_wire s), y_as := as\<rparr>)"
proof -
  obtain a as where as: "y_as s = a # as" using assms by (cases "y_as s") (auto simp: whole_def)
  with assms obtain k where k: "a = Moved k" "length (y_wire s) \<le> k" by (auto simp: whole_def)
  then have "take (min k req) (y_wire s) = take req (y_wire s)" "drop (min k req) (y_wire s) = drop req (y_wire s)"
    by (simp_all add: min_def)
  with as k have "sys_read req s = Inr (take req (y_wire s), s\<lparr>y_wire := drop req (y_wire s), y_as := as\<rparr>)"
    by (simp add: sys_read_def)
  moreover have "whole n (s\<lparr>y_wire := drop req (y_wire s), y_as := as\<rparr>)"
    using assms as by (fastforce simp: whole_def)
  ultimately show ?thesis by blast
qed

text \<open>A message that has been posted and for which nothing has been read.\<close>

abbreviation waiting :: "entry \<Rightarrow> bool" where
  "waiting e \<equiv> fresh (e_nbytes e, e_tag e) e"

lemma waiting_reset:
  "waiting e \<Longrightarrow> (update_msg_progress 24 e)\<lparr>e_nhdr := 24, e_nleft := int (e_nbytes e + 24)\<rparr>
     = e\<lparr>e_stats := e_stats e + 1\<rparr>"
  by (simp add: fresh_def update_msg_progress_def Let_def)

lemma read_hdr_whole:
  assumes "whole (Suc n) s" and "e_nhdr (y_list s i) = 24" and "length xs = 24" and "y_wire s = xs @ w"
  shows "\<exists>as. read_hdr i s = Inr (24, upd_entry i (update_msg_progress 24) (s\<lparr>y_wire := w, y_as := as, y_hdr := xs\<rparr>))
     \<and> whole n (s\<lparr>y_wire := w, y_as := as, y_hdr := xs\<rparr>)"
proof -
  from sys_read_whole [OF assms(1), of 24] assms(3,4)
  obtain as where "sys_read 24 s = Inr (xs, s\<lparr>y_wire := w, y_as := as\<rparr>)" "whole n (s\<lparr>y_wire := w, y_as := as\<rparr>)"
    by auto
  with assms(2,3) show ?thesis by (auto simp: read_hdr_def whole_def)
qed

lemma parse_data: "parse_header (DB b # xs) = None"
  by (simp add: parse_header_def)

text \<open>Data in the place of a header ends the model.\<close>

lemma header_from_data:
  assumes "y_as s = Moved a # as" "24 \<le> a" and "waiting (y_list s i)" and "24 \<le> length (y_wire s)"
    and "y_wire s = map DB d @ w" and "d \<noteq> []"
  shows "tcp_read_msg i s = Inl Garbled"
proof -
  let ?xs = "take 24 (y_wire s)"
  have r: "read_hdr i s = Inr (24, upd_entry i (update_msg_progress 24)
      (s\<lparr>y_wire := drop 24 (y_wire s), y_as := as, y_hdr := ?xs\<rparr>))"
    using assms(1-4) by (simp add: read_hdr_def sys_read_def fresh_def min_def)
  obtain b d' where d: "d = b # d'" using assms(6) by (cases d) auto
  then have "?xs = DB b # take 23 (map DB d' @ w)" using assms(5) by (simp add: take_Cons')
  then have "parse_header ?xs = None" by (simp add: parse_data)
  with r assms(3) show ?thesis
    by (simp add: tcp_read_msg_def check_header_def upd_entry_def update_msg_progress_def fresh_def Let_def)
qed

text \<open>
  A message that nobody waits for gets a buffer of its own, in front of \<open>recv_q\<close> and behind
  \<open>msg_q\<close>.
\<close>

definition unasked :: "header \<Rightarrow> nat \<Rightarrow> receiver \<Rightarrow> bool" where
  "unasked h i s \<longleftrightarrow> (\<forall>p \<in> insert i (set (y_rq s)). \<not> fits (hd_nbytes h) (hd_tag h) (y_list s p))
     \<and> e_buf (y_list s ((y_mid s + 1) mod MAX_MSGS)) = None"

definition buffered :: "header \<Rightarrow> 8 word list \<Rightarrow> entry" where
  "buffered h b = \<lparr>e_nbytes = hd_nbytes h, e_src = hd_src h, e_tag = hd_tag h, e_nleft = int (hd_nbytes h),
     e_nbl = hd_nbytes h, e_nhdr = 0, e_send_flag = 0, e_recv_flag = 1, e_stats = 0, e_buf = Some b\<rparr>"

lemma unexpected_header:
  assumes wi: "waiting (y_list s i)" and no: "unasked h i s"
    and s1: "s1 = upd_entry i (update_msg_progress 24) (s\<lparr>y_wire := w, y_as := as, y_hdr := map (HB h) [0..<24]\<rparr>)"
    and j: "j = (y_mid s + 1) mod MAX_MSGS"
  shows "\<exists>s3. check_header i s1 = Inr (j, s3) \<and> j \<noteq> i \<and> y_wire s3 = w \<and> y_as s3 = as
     \<and> y_rq s3 = j # y_rq s \<and> y_mq s3 = y_mq s @ [j] \<and> y_mid s3 = j
     \<and> y_list s3 = (y_list s)(i := (y_list s i)\<lparr>e_stats := e_stats (y_list s i) + 1\<rparr>,
                             j := buffered h (replicate (hd_nbytes h) 0))"
proof -
  let ?e = "y_list s i"
  have e: "e_nhdr ?e = 24" "e_buf ?e \<noteq> None" using wi by (auto simp: fresh_def)
  have ij: "j \<noteq> i" using no e(2) j by (auto simp: unasked_def)
  define s2 where "s2 = upd_entry i (\<lambda>e. e\<lparr>e_nhdr := HDR, e_nleft := int (e_nbytes e + HDR)\<rparr>) s1"
  have s2i: "y_list s2 = (y_list s)(i := ?e\<lparr>e_stats := e_stats ?e + 1\<rparr>)"
    using waiting_reset [OF wi] by (simp add: s2_def s1 upd_entry_def update_msg_progress_def Let_def e(1))
  have s2: "y_rq s2 = y_rq s" "y_mq s2 = y_mq s" "y_mid s2 = y_mid s" "y_wire s2 = w" "y_as s2 = as"
    by (simp_all add: s2_def s1 upd_entry_def)
  have "fits (hd_nbytes h) (hd_tag h) (y_list s2 p) = fits (hd_nbytes h) (hd_tag h) (y_list s p)" for p
    by (simp add: s2i fits_def)
  then have none: "find (\<lambda>p. fits (hd_nbytes h) (hd_tag h) (y_list s2 p)) (y_rq s2) = None"
    using no by (simp add: find_None_iff s2(1) unasked_def)
  have no1: "\<not> fits (hd_nbytes h) (hd_tag h) (y_list s1 i)"
    using no by (simp add: s1 upd_entry_def fits_def update_msg_progress_def Let_def unasked_def)
  have fr: "e_buf (y_list s2 ((y_mid s2 + 1) mod MAX_MSGS)) = None"
    using no ij by (simp add: s2i s2(3) unasked_def j)
  define ej where "ej = (set_entry (hd_nbytes h) (hd_src h) (hd_tag h)
      (msg_null\<lparr>e_buf := Some (replicate (hd_nbytes h) 0)\<rparr>))\<lparr>e_recv_flag := 1\<rparr>"
  have cr: "create_msg_entry (replicate (hd_nbytes h) 0) (hd_nbytes h) (hd_src h) False (hd_tag h) (y_list s2) (y_mid s2)
      = Inr (j, (y_list s2)(j := ej))"
    using next_free_next [of "y_list s2" "y_mid s2"] fr by (simp add: create_msg_entry_def ej_def s2(3) Let_def j)
  define s3 where "s3 = upd_entry j got_header (s2\<lparr>y_list := (y_list s2)(j := ej), y_mid := j,
      y_rq := j # y_rq s2, y_mq := y_mq s2 @ [j]\<rparr>)"
  have hd: "y_hdr s1 = map (HB h) [0..<24]" by (simp add: s1 upd_entry_def)
  have "check_header i s1 = Inr (j, s3)"
    unfolding check_header_def hd parse_header_HB option.case Let_def s2_def [symmetric]
    using no1 none cr by (simp add: s3_def s2(1,2))
  moreover have "got_header ej = buffered h (replicate (hd_nbytes h) 0)"
    by (simp add: ej_def got_header_def set_entry_def msg_null_def buffered_def)
  ultimately show ?thesis using ij by (simp add: s3_def upd_entry_def s2 s2i)
qed

text \<open>One call of \<open>read_msg\<close> reads the header and a part of the data: \<open>k\<close> bytes are there.\<close>

lemma unexpected_message:
  assumes wi: "waiting (y_list s i)" and no: "unasked h i s" and w: "y_wire s = frame h d @ w"
    and sz: "hd_nbytes h = length d" "d \<noteq> []"
    and as: "y_as s = Moved a # Moved k # as" "24 \<le> a" "0 < k"
    and j: "j = (y_mid s + 1) mod MAX_MSGS"
  shows "\<exists>m s'. tcp_read_msg i s = Inr (m, s') \<and> 0 < m \<and> j \<noteq> i
     \<and> y_wire s' = map DB (drop k d) @ w \<and> y_as s' = as
     \<and> y_rq s' = j # y_rq s \<and> y_mq s' = y_mq s @ [j] \<and> y_mid s' = j
     \<and> y_list s' i = (y_list s i)\<lparr>e_stats := e_stats (y_list s i) + 1\<rparr>
     \<and> (\<forall>l. l \<noteq> i \<and> l \<noteq> j \<longrightarrow> y_list s' l = y_list s l)
     \<and> e_nbytes (y_list s' j) = length d \<and> e_tag (y_list s' j) = hd_tag h \<and> e_src (y_list s' j) = hd_src h
     \<and> e_nhdr (y_list s' j) = 0 \<and> e_nbl (y_list s' j) = length d - k
     \<and> e_nleft (y_list s' j) = int (length d - k)
     \<and> e_buf (y_list s' j) = Some (take k d @ replicate (length d - k) 0)"
proof -
  let ?xs = "map (HB h) [0..<24]" and ?m = "min k (length d)"
  have e: "e_nhdr (y_list s i) = 24" using wi by (simp add: fresh_def)
  define s1 where "s1 = upd_entry i (update_msg_progress 24)
      (s\<lparr>y_wire := map DB d @ w, y_as := Moved k # as, y_hdr := ?xs\<rparr>)"
  have r: "read_hdr i s = Inr (24, s1)"
    using w as e by (simp add: read_hdr_def sys_read_def frame_def s1_def min_def del: upt.simps)
  from unexpected_header [OF wi no s1_def j] obtain s3 where c: "check_header i s1 = Inr (j, s3)" "j \<noteq> i"
    and s3: "y_wire s3 = map DB d @ w" "y_as s3 = Moved k # as" "y_rq s3 = j # y_rq s" "y_mq s3 = y_mq s @ [j]"
      "y_mid s3 = j" "y_list s3 = (y_list s)(i := (y_list s i)\<lparr>e_stats := e_stats (y_list s i) + 1\<rparr>,
                             j := buffered h (replicate (hd_nbytes h) 0))" by blast
  have ej: "y_list s3 j = buffered h (replicate (length d) 0)" using s3(6) sz(1) by simp
  define s4 where "s4 = upd_entry j (update_msg_progress ?m \<circ> put_data (take ?m d))
      (s3\<lparr>y_wire := map DB (drop ?m d) @ w, y_as := as\<rparr>)"
  have t: "take ?m (map DB d @ w) = map DB (take ?m d)" "drop ?m (map DB d @ w) = map DB (drop ?m d) @ w"
    by (simp_all add: take_map drop_map)
  have "sys_read (length d) s3 = Inr (map DB (take ?m d), s3\<lparr>y_wire := map DB (drop ?m d) @ w, y_as := as\<rparr>)"
    using s3(1,2) t by (simp add: sys_read_def)
  then have "read_data j s3 = Inr (?m, s4)" using ej sz(1) by (simp add: read_data_def buffered_def s4_def)
  then have "tcp_read_msg i s = Inr (?m, s4)"
    using r c e ej sz by (simp add: tcp_read_msg_def buffered_def) (simp add: s1_def upd_entry_def update_msg_progress_def Let_def)
  moreover have "y_list s4 j = (buffered h (take k d @ replicate (length d - k) 0))
      \<lparr>e_nleft := int (length d - k), e_nbl := length d - k, e_stats := 1\<rparr>"
    using ej sz(1) as(3) by (auto simp: s4_def upd_entry_def buffered_def put_data_def update_msg_progress_def
        store_def min_def Let_def)
  moreover have "y_list s4 l = y_list s3 l" if "l \<noteq> j" for l
    using that by (simp add: s4_def upd_entry_def)
  moreover have "y_wire s4 = map DB (drop k d) @ w" "y_as s4 = as" "y_rq s4 = j # y_rq s" "y_mq s4 = y_mq s @ [j]"
      "y_mid s4 = j"
    using s3 by (simp_all add: s4_def upd_entry_def min_def)
  ultimately show ?thesis
    using sz as(3) c(2) s3(6) by (intro exI [of _ ?m] exI [of _ s4]) (simp add: buffered_def)
qed

section \<open>Where it is kept\<close>

text \<open>
  A message that came before its receive and is complete: the receive copies it, and does not
  read.
\<close>

definition first_buffered :: "nat \<Rightarrow> nat \<Rightarrow> receiver \<Rightarrow> bool" where
  "first_buffered p i s \<longleftrightarrow> find (\<lambda>p. e_nhdr (y_list s p) = 0
     \<and> fits (e_nbytes (y_list s p)) (e_tag (y_list s p)) (y_list s i)) (y_mq s) = Some p"

lemma recv_from_q_complete:
  assumes "first_buffered p i s" and "p \<noteq> i" and "e_nleft (y_list s p) = 0" and "e_buf (y_list s p) = Some d"
    and "e_nbytes (y_list s p) = length d" and "e_buf (y_list s i) = Some b" and "length d \<le> length b"
  shows "y_list (recv_from_q i s) = (y_list s)(
      i := (y_list s i)\<lparr>e_nbytes := length d, e_src := e_src (y_list s p), e_tag := e_tag (y_list s p),
             e_nleft := 0, e_nhdr := 0, e_nbl := length d, e_buf := Some (d @ drop (length d) b)\<rparr>,
      p := (y_list s p)\<lparr>e_buf := None\<rparr>)
    \<and> y_mq (recv_from_q i s) = remove1 p (y_mq s) \<and> y_rq (recv_from_q i s) = y_rq s
    \<and> y_wire (recv_from_q i s) = y_wire s"
  using assms
  by (simp add: first_buffered_def recv_from_q_def upd_entry_def set_entry_def put_data_def store_def Let_def fun_eq_iff)

theorem buffered_message_delivered:
  assumes "first_buffered p i s" and "p \<noteq> i" and "e_nleft (y_list s p) = 0" and "e_buf (y_list s p) = Some d"
    and "e_nbytes (y_list s p) = length d" and "e_buf (y_list s i) = Some b" and "length d \<le> length b"
  shows "\<exists>s'. tcp_arecv i s = Some (Inr s') \<and> e_nleft (y_list s' i) = 0
     \<and> e_buf (y_list s' i) = Some (d @ drop (length d) b) \<and> e_nbytes (y_list s' i) = length d
     \<and> e_tag (y_list s' i) = e_tag (y_list s p) \<and> e_src (y_list s' i) = e_src (y_list s p)
     \<and> e_buf (y_list s' p) = None \<and> y_mq s' = remove1 p (y_mq s) \<and> y_rq s' = y_rq s \<and> y_wire s' = y_wire s"
  using recv_from_q_complete [OF assms] assms(2) by (simp add: tcp_arecv_def)

definition with_buffered :: receiver where
  "with_buffered = (init_receiver [])
     \<lparr>y_mq := [1, 2], y_list := (\<lambda>_. msg_null)(1 := (buffered \<lparr>hd_nbytes = 3, hd_src = 1, hd_tag = 6\<rparr> [1, 2, 3])\<lparr>e_nleft := 0, e_nbl := 0\<rparr>,
        2 := (buffered \<lparr>hd_nbytes = 2, hd_src = 1, hd_tag = 7\<rparr> [4, 5])\<lparr>e_nleft := 0, e_nbl := 0\<rparr>,
        3 := (set_entry 4 1 7 msg_null)\<lparr>e_buf := Some [0, 0, 0, 0]\<rparr>)\<rparr>"

theorem buffered_message_delivered_witness:
  "\<exists>s'. tcp_arecv 3 with_buffered = Some (Inr s') \<and> e_buf (y_list s' 3) = Some [4, 5, 0, 0] \<and> y_mq s' = [1]"
  using buffered_message_delivered [of 2 3 with_buffered "[4, 5]" "[0, 0, 0, 0]"]
  by (auto simp: first_buffered_def with_buffered_def fits_def buffered_def msg_null_def set_entry_def init_receiver_def)

section \<open>Where the position is lost\<close>

text \<open>The first read of a receive that is posted to an idle receiver.\<close>

lemma arecv_idle:
  assumes "y_rq s = []" and "y_mq s = []" and "\<not> y_active s"
    and free: "e_buf (y_list s ((y_mid s + 1) mod MAX_MSGS)) = None" and "n \<le> length buf"
  shows "\<exists>i s0. MP_ARecv src buf n tag s = map_option (map_sum id (Pair i)) (do_recv s0)
     \<and> i = (y_mid s + 1) mod MAX_MSGS \<and> y_rq s0 = [i] \<and> y_mq s0 = [] \<and> y_mid s0 = i
     \<and> y_wire s0 = y_wire s \<and> y_as s0 = y_as s
     \<and> waiting (y_list s0 i) \<and> e_nbytes (y_list s0 i) = n \<and> e_tag (y_list s0 i) = tag
     \<and> e_recv_flag (y_list s0 i) = 1 \<and> (\<forall>l. l \<noteq> i \<longrightarrow> y_list s0 l = y_list s l)"
proof -
  let ?i = "(y_mid s + 1) mod MAX_MSGS"
  obtain es where cr: "create_msg_entry buf n src False tag (y_list s) (y_mid s) = Inr (?i, es)"
    using next_free_next [of "y_list s" "y_mid s"] free by (simp add: create_msg_entry_def Let_def)
  note new = create_Inr [OF cr]
  let ?s0 = "s\<lparr>y_list := es, y_mid := ?i, y_rq := [?i]\<rparr>"
  have "waiting (es ?i)" using new assms(5) by (simp add: fresh_def)
  moreover have "\<forall>l. l \<noteq> ?i \<longrightarrow> es l = y_list s l" using new(2) by (metis fun_upd_other)
  moreover have "MP_ARecv src buf n tag s = map_option (map_sum id (Pair ?i)) (do_recv ?s0)"
    using cr new(9) assms(1-3) by (simp add: MP_ARecv_def tcp_arecv_def recv_from_q_none)
  ultimately show ?thesis using assms(1,2) new by (intro exI [of _ ?i] exI [of _ ?s0]) simp
qed

lemma do_recv_garbled:
  assumes "y_rq s = i # q" and "y_mq s = []" and "recv_loop i s = Inl e"
  shows "do_recv s = Some (Inl e)"
  using assms by (subst do_recv.simps) (simp add: recv_from_q_none)

lemma recv_loop_go:
  "0 < e_nleft (y_list s i) \<Longrightarrow> tcp_read_msg i s = Inr (m, s') \<Longrightarrow> 0 < m \<Longrightarrow> recv_loop i s = recv_loop i s'"
  "0 < e_nleft (y_list s i) \<Longrightarrow> tcp_read_msg i s = Inl e \<Longrightarrow> recv_loop i s = Inl e"
  by (simp_all add: recv_loop.simps [of i s])

lemma waiting_nleft: "waiting e \<Longrightarrow> 0 < e_nleft e"
  by (simp add: fresh_def)

lemma whole_two:
  assumes "whole (Suc (Suc n)) s"
  shows "\<exists>a k as. y_as s = Moved a # Moved k # as \<and> length (y_wire s) \<le> a \<and> length (y_wire s) \<le> k
     \<and> (\<forall>s' :: receiver. y_as s' = as \<and> length (y_wire s') \<le> length (y_wire s) \<longrightarrow> whole n s')"
proof -
  from assms obtain x y as where as: "y_as s = x # y # as"
    by (auto simp: whole_def Suc_le_length_iff)
  with assms have "\<forall>s' :: receiver. y_as s' = as \<and> length (y_wire s') \<le> length (y_wire s) \<longrightarrow> whole n s'"
    by (fastforce simp: whole_def)
  with as assms show ?thesis by (auto simp: whole_def)
qed

lemma recv_after_unexpected:
  assumes idle: "y_rq s = []" "y_mq s = []" "\<not> y_active s" "\<forall>i. e_buf (y_list s i) = None"
    and n: "n \<le> length buf" and w: "y_wire s = frame h d @ w"
    and sz: "hd_nbytes h = length d" "d \<noteq> []" and tags: "0 \<le> tag" "tag \<noteq> hd_tag h"
    and as: "y_as s = Moved a # Moved k # as" "24 \<le> a" "0 < k"
    and go: "\<And>i j s1. i \<noteq> j \<Longrightarrow> y_wire s1 = map DB (drop k d) @ w \<Longrightarrow> y_as s1 = as \<Longrightarrow> y_rq s1 = [j, i] \<Longrightarrow>
       waiting (y_list s1 i) \<Longrightarrow> e_tag (y_list s1 i) = tag \<Longrightarrow> e_nbytes (y_list s1 j) = length d \<Longrightarrow>
       e_tag (y_list s1 j) = hd_tag h \<Longrightarrow> e_nbl (y_list s1 j) = length d - k \<Longrightarrow> recv_loop i s1 = Inl e"
  shows "MP_ARecv src buf n tag s = Some (Inl e)"
proof -
  obtain i s0 where a: "MP_ARecv src buf n tag s = map_option (map_sum id (Pair i)) (do_recv s0)"
    and s0: "i = (y_mid s + 1) mod MAX_MSGS" "y_rq s0 = [i]" "y_mq s0 = []" "y_mid s0 = i" "y_wire s0 = y_wire s"
      "y_as s0 = y_as s" "waiting (y_list s0 i)" "e_nbytes (y_list s0 i) = n" "e_tag (y_list s0 i) = tag"
      "\<forall>l. l \<noteq> i \<longrightarrow> y_list s0 l = y_list s l"
    using arecv_idle [OF idle(1-3) _ n, of src tag] idle(4) by (metis (no_types, lifting))
  define j where "j = (y_mid s0 + 1) mod MAX_MSGS"
  have "i < MAX_MSGS" by (simp add: s0(1) MAX_MSGS_def)
  then have ji: "j \<noteq> i" by (auto simp: j_def s0(4) MAX_MSGS_def mod_if split: if_splits)
  have u: "unasked h i s0" using tags s0 idle(4) ji by (simp add: unasked_def fits_def j_def)
  have w0: "y_wire s0 = frame h d @ w" and a0: "y_as s0 = Moved a # Moved k # as" using w as(1) s0(5,6) by simp_all
  obtain m s1 where
    r1: "tcp_read_msg i s0 = Inr (m, s1)" "0 < m"
    and s1: "y_wire s1 = map DB (drop k d) @ w" "y_as s1 = as" "y_rq s1 = [j, i]"
      "y_list s1 i = (y_list s0 i)\<lparr>e_stats := e_stats (y_list s0 i) + 1\<rparr>"
      "e_nbytes (y_list s1 j) = length d" "e_tag (y_list s1 j) = hd_tag h" "e_nbl (y_list s1 j) = length d - k"
    using unexpected_message [OF s0(7) u w0 sz a0 as(2,3) j_def] by (auto simp: s0(2))
  have "waiting (y_list s1 i)" using s0(7) s1(4) by (simp add: fresh_def)
  from go [OF ji [symmetric] s1(1-3) this _ s1(5-7)] s0(9) s1(4) have "recv_loop i s1 = Inl e" by simp
  with recv_loop_go(1) [OF waiting_nleft [OF s0(7)] r1] have "recv_loop i s0 = Inl e" by simp
  then show ?thesis using do_recv_garbled [OF s0(2,3)] a by simp
qed

text \<open>
  A second unexpected message with the same tag finds the first one, which is complete and still
  at the front of \<open>recv_q\<close>: it passes for its receive, and nothing is read.
\<close>

lemma second_unexpected:
  assumes wh: "whole (Suc n) s" and wi: "waiting (y_list s i)" and w: "y_wire s = frame h d @ w"
    and no: "\<not> fits (hd_nbytes h) (hd_tag h) (y_list s i)"
    and q: "y_rq s = j # q" "fits (hd_nbytes h) (hd_tag h) (y_list s j)" "j \<noteq> i"
    and j: "e_nbl (y_list s j) = 0"
  shows "\<exists>s'. tcp_read_msg i s = Inr (24, s') \<and> y_wire s' = map DB d @ w \<and> whole n s'
     \<and> y_list s' i = (y_list s i)\<lparr>e_stats := e_stats (y_list s i) + 1\<rparr>
     \<and> y_list s' j = got_header (y_list s j) \<and> y_rq s' = y_rq s"
proof -
  let ?xs = "map (HB h) [0..<24]" and ?e = "y_list s i"
  have e: "e_nhdr ?e = 24" using wi by (simp add: fresh_def)
  have w': "y_wire s = ?xs @ map DB d @ w" using w by (simp add: frame_def del: upt.simps)
  from read_hdr_whole [OF wh e _ w'] obtain as where
    r: "read_hdr i s = Inr (24, upd_entry i (update_msg_progress 24) (s\<lparr>y_wire := map DB d @ w, y_as := as, y_hdr := ?xs\<rparr>))"
    and wh1: "whole n (s\<lparr>y_wire := map DB d @ w, y_as := as, y_hdr := ?xs\<rparr>)" by auto
  define s1 where "s1 = upd_entry i (update_msg_progress 24) (s\<lparr>y_wire := map DB d @ w, y_as := as, y_hdr := ?xs\<rparr>)"
  define s2 where "s2 = upd_entry i (\<lambda>e. e\<lparr>e_nhdr := HDR, e_nleft := int (e_nbytes e + HDR)\<rparr>) s1"
  have s2i: "y_list s2 = (y_list s)(i := ?e\<lparr>e_stats := e_stats ?e + 1\<rparr>)"
    using waiting_reset [OF wi] by (simp add: s2_def s1_def upd_entry_def update_msg_progress_def Let_def e)
  have s2: "y_rq s2 = j # q" "y_wire s2 = map DB d @ w" "y_as s2 = as"
    by (simp_all add: s2_def s1_def upd_entry_def q(1))
  define s3 where "s3 = upd_entry j got_header s2"
  have hd: "y_hdr s1 = ?xs" by (simp add: s1_def upd_entry_def)
  have no1: "\<not> fits (hd_nbytes h) (hd_tag h) (y_list s1 i)"
    using no by (simp add: s1_def upd_entry_def fits_def update_msg_progress_def Let_def)
  have upd: "s2\<lparr>y_rq := j # q\<rparr> = s2" using s2(1) by simp
  have "check_header i s1 = Inr (j, upd_entry j got_header (s2\<lparr>y_rq := j # q\<rparr>))"
    unfolding check_header_def hd parse_header_HB option.case Let_def s2_def [symmetric]
    using no1 q s2(1) by (simp add: s2i)
  then have c: "check_header i s1 = Inr (j, s3)" by (simp only: upd s3_def)
  have s3j: "e_nbl (y_list s3 j) = 0" "e_nhdr (y_list s3 j) = 0"
    using j q(3) by (simp_all add: s3_def upd_entry_def got_header_def s2i)
  have "tcp_read_msg i s = Inr (24, s3)"
    using r c e s3j by (simp add: tcp_read_msg_def s1_def [symmetric]) (simp add: s1_def upd_entry_def update_msg_progress_def Let_def)
  moreover have "y_wire s3 = map DB d @ w" "y_rq s3 = y_rq s" "whole n s3"
      "y_list s3 i = ?e\<lparr>e_stats := e_stats ?e + 1\<rparr>" "y_list s3 j = got_header (y_list s j)"
    using s2 wh1 q by (simp_all add: s3_def upd_entry_def whole_def s2i)
  ultimately show ?thesis by blast
qed

text \<open>
  C10.  Two messages with the same tag that arrive before a receive with another tag are lost together
  with everything behind them: the second is taken for a message that has already been received,
  its data is not read, and is then read as the next header.
\<close>

theorem same_tag_garbled:
  assumes idle: "y_rq s = []" "y_mq s = []" "\<not> y_active s" "\<forall>i. e_buf (y_list s i) = None"
    and n: "n \<le> length buf" and wh: "whole 4 s"
    and w: "y_wire s = frame h1 d1 @ frame h2 d2 @ w"
    and sz: "hd_nbytes h1 = length d1" "hd_nbytes h2 = length d2" "0 < length d2" "length d2 \<le> length d1"
    and tags: "hd_tag h1 = hd_tag h2" "0 \<le> tag" "tag \<noteq> hd_tag h1" and more: "24 \<le> length d2 + length w"
  shows "MP_ARecv src buf n tag s = Some (Inl Garbled)"
proof -
  obtain a k as where as: "y_as s = Moved a # Moved k # as" "length (y_wire s) \<le> a" "length (y_wire s) \<le> k"
    and wh2: "\<And>s' :: receiver. y_as s' = as \<Longrightarrow> length (y_wire s') \<le> length (y_wire s) \<Longrightarrow> whole 2 s'"
    using whole_two [of 2 s] wh by auto
  have k: "length d1 \<le> k" "24 \<le> a" "0 < k" using as(2,3) w by (auto simp: frame_def)
  have d1: "d1 \<noteq> []" using sz by auto
  show ?thesis
  proof (rule recv_after_unexpected [OF idle n _ sz(1) d1 tags(2,3) as(1) k(2,3)])
    show "y_wire s = frame h1 d1 @ (frame h2 d2 @ w)" using w by simp
    fix i j :: nat and s1 :: receiver
    assume s1: "i \<noteq> j" "y_wire s1 = map DB (drop k d1) @ frame h2 d2 @ w" "y_as s1 = as" "y_rq s1 = [j, i]"
      "waiting (y_list s1 i)" "e_tag (y_list s1 i) = tag" "e_nbytes (y_list s1 j) = length d1"
      "e_tag (y_list s1 j) = hd_tag h1" "e_nbl (y_list s1 j) = length d1 - k"
    have w1: "y_wire s1 = frame h2 d2 @ w" using s1(2) k(1) by simp
    have wh1: "whole (Suc 1) s1" using wh2 [OF s1(3)] w1 w by (simp add: numeral_2_eq_2)
    have "\<not> fits (hd_nbytes h2) (hd_tag h2) (y_list s1 i)" using tags s1(6) by (simp add: fits_def)
    moreover have "fits (hd_nbytes h2) (hd_tag h2) (y_list s1 j)" using s1(7,8) sz tags by (simp add: fits_def)
    ultimately obtain s2 where r2: "tcp_read_msg i s1 = Inr (24, s2)" and s2: "y_wire s2 = map DB d2 @ w" "whole 1 s2"
        "y_list s2 i = (y_list s1 i)\<lparr>e_stats := e_stats (y_list s1 i) + 1\<rparr>"
      using second_unexpected [OF wh1 s1(5) w1 _ s1(4)] s1(1,9) k(1) by auto
    have wi2: "waiting (y_list s2 i)" using s1(5) s2(3) by (simp add: fresh_def)
    obtain b bs where b: "y_as s2 = Moved b # bs" "length (y_wire s2) \<le> b"
      using s2(2) by (auto simp: whole_def Suc_le_length_iff)
    have "tcp_read_msg i s2 = Inl Garbled"
      by (rule header_from_data [OF b(1) _ wi2 _ s2(1)]) (use more sz(3) s2(1) b(2) in auto)
    then show "recv_loop i s1 = Inl Garbled"
      using recv_loop_go(1) [OF waiting_nleft [OF s1(5)] r2] recv_loop_go(2) [OF waiting_nleft [OF wi2]] by simp
  qed
qed

definition demo_wire :: "witem list" where
  "demo_wire = frame \<lparr>hd_nbytes = 2, hd_src = 1, hd_tag = 7\<rparr> [1, 2] @
     frame \<lparr>hd_nbytes = 1, hd_src = 1, hd_tag = 7\<rparr> [3] @ frame \<lparr>hd_nbytes = 1, hd_src = 1, hd_tag = 8\<rparr> [4]"

lemma demo_wire_length: "length demo_wire = 76"
  by (simp add: demo_wire_def frame_def)

theorem same_tag_garbled_witness:
  "MP_ARecv 1 [0] 1 8 ((init_receiver demo_wire)\<lparr>y_as := replicate 4 (Moved 100)\<rparr>) = Some (Inl Garbled)"
  by (rule same_tag_garbled [where ?h1.0 = "\<lparr>hd_nbytes = 2, hd_src = 1, hd_tag = 7\<rparr>" and ?d1.0 = "[1, 2]"
        and ?h2.0 = "\<lparr>hd_nbytes = 1, hd_src = 1, hd_tag = 7\<rparr>" and ?d2.0 = "[3]"
        and w = "frame \<lparr>hd_nbytes = 1, hd_src = 1, hd_tag = 8\<rparr> [4]"])
    (simp_all add: init_receiver_def msg_null_def whole_def demo_wire_length demo_wire_def [symmetric],
     simp_all add: demo_wire_def frame_def)

text \<open>
  The loop of \<open>do_recv\<close> goes on with the receive it began with.  If only a part of the data of an
  unexpected message has arrived and more is there at the next read, this is read as a header.
\<close>

theorem partial_unexpected_garbled:
  assumes "y_rq s = []" "y_mq s = []" "\<not> y_active s" "\<forall>i. e_buf (y_list s i) = None"
    and "n \<le> length buf" and "y_wire s = frame h d @ w" and "hd_nbytes h = length d"
    and "0 \<le> tag" "tag \<noteq> hd_tag h"
    and "y_as s = Moved a # Moved k # Moved b # as" "24 \<le> a" "0 < k" "k < length d" "24 \<le> b"
    and "24 \<le> length d - k + length w"
  shows "MP_ARecv src buf n tag s = Some (Inl Garbled)"
proof (rule recv_after_unexpected [OF assms(1-7) _ assms(8-12)])
  show "d \<noteq> []" using assms(13) by auto
  fix i j :: nat and s1 :: receiver
  assume s1: "y_wire s1 = map DB (drop k d) @ w" "y_as s1 = Moved b # as" "waiting (y_list s1 i)"
  have "tcp_read_msg i s1 = Inl Garbled"
    by (rule header_from_data [OF s1(2) assms(14) s1(3) _ s1(1)]) (use s1(1) assms(13,15) in auto)
  then show "recv_loop i s1 = Inl Garbled" by (rule recv_loop_go(2) [OF waiting_nleft [OF s1(3)]])
qed

theorem partial_unexpected_garbled_witness:
  "MP_ARecv 1 [0] 1 8 ((init_receiver demo_wire)\<lparr>y_as := [Moved 24, Moved 1, Moved 100]\<rparr>) = Some (Inl Garbled)"
  by (rule partial_unexpected_garbled [where h = "\<lparr>hd_nbytes = 2, hd_src = 1, hd_tag = 7\<rparr>" and d = "[1, 2]"
        and w = "frame \<lparr>hd_nbytes = 1, hd_src = 1, hd_tag = 7\<rparr> [3] @ frame \<lparr>hd_nbytes = 1, hd_src = 1, hd_tag = 8\<rparr> [4]"
        and a = 24 and k = 1 and b = 100 and as = "[]"])
    (simp_all add: init_receiver_def msg_null_def demo_wire_def frame_def)

text \<open>
  A short message for a receive that is not the first: the size of the receive stays what was
  posted, and its data and the beginning of the next header are read as its data.
\<close>

lemma data_bytes_stop: "data_bytes (map DB d @ HB h k # xs) = None"
  by (induction d) (simp_all add: data_bytes_def)

lemma check_header_other:
  assumes "y_hdr s1 = map (HB h) [0..<24]" and "\<not> fits (hd_nbytes h) (hd_tag h) (y_list s1 i)"
    and "y_rq s1 = [i, p]" "p \<noteq> i" and "fits (hd_nbytes h) (hd_tag h) (y_list s1 p)"
  shows "\<exists>s'. check_header i s1 = Inr (p, s') \<and> y_list s' p = got_header (y_list s1 p)
     \<and> y_wire s' = y_wire s1 \<and> y_as s' = y_as s1"
proof -
  have "\<not> fits (hd_nbytes h) (hd_tag h) ((y_list s1 i)\<lparr>e_nhdr := HDR, e_nleft := int (e_nbytes (y_list s1 i) + HDR)\<rparr>)"
    using assms(2) by (simp add: fits_def)
  then show ?thesis
    unfolding check_header_def assms(1) parse_header_HB option.case Let_def using assms(2-5)
    by (simp add: upd_entry_def)
qed

theorem short_message_swallows_header:
  assumes q: "y_rq s = [i, p]" "y_mq s = []" "y_active s" "i \<noteq> p"
    and posted: "waiting (y_list s i)" "waiting (y_list s p)"
    and tags: "0 \<le> e_tag (y_list s i)" "hd_tag h \<noteq> e_tag (y_list s i)"
      "e_tag (y_list s p) = hd_tag h" "hd_nbytes h = length d" "length d < e_nbytes (y_list s p)"
    and w: "y_wire s = frame h d @ frame h' d' @ w"
    and as: "y_as s = Moved a # Moved k # as" "24 \<le> a" "length d < k"
  shows "sigio_recv s = Some (Inl Garbled)"
proof -
  let ?xs = "map (HB h) [0..<24]" and ?np = "e_nbytes (y_list s p)"
  have e: "e_nhdr (y_list s i) = 24" "e_nhdr (y_list s p) = 24" "e_nbl (y_list s p) = ?np"
    using posted by (simp_all add: fresh_def)
  define s1 where "s1 = upd_entry i (update_msg_progress 24)
      (s\<lparr>y_wire := map DB d @ frame h' d' @ w, y_as := Moved k # as, y_hdr := ?xs\<rparr>)"
  have r: "read_hdr i s = Inr (24, s1)"
    using w as(1,2) e(1) by (simp add: read_hdr_def sys_read_def frame_def [of h] s1_def min_def del: upt.simps)
  have "e_tag (y_list s1 i) = e_tag (y_list s i)" "y_list s1 p = y_list s p"
    using q(4) by (simp_all add: s1_def upd_entry_def update_msg_progress_def Let_def)
  then have "\<not> fits (hd_nbytes h) (hd_tag h) (y_list s1 i)" "fits (hd_nbytes h) (hd_tag h) (y_list s1 p)"
    using tags by (auto simp: fits_def)
  then obtain s2 where c: "check_header i s1 = Inr (p, s2)" and s2: "y_list s2 p = got_header (y_list s1 p)"
      "y_wire s2 = map DB d @ frame h' d' @ w" "y_as s2 = Moved k # as"
    using check_header_other [of s1 h i p] q(1,4) by (auto simp: s1_def upd_entry_def)
  have s2p: "e_nhdr (y_list s2 p) = 0" "e_nbl (y_list s2 p) = ?np"
    using s2(1) e q(4) by (simp_all add: got_header_def s1_def upd_entry_def)
  define m where "m = min k ?np - Suc (length d)"
  have m: "min k ?np = length d + Suc m" using as(3) tags(5) by (simp add: m_def)
  have "take (min k ?np) (y_wire s2) = map DB d @ HB h' 0 # take m (tl (frame h' d' @ w))"
    unfolding s2(2) m by (simp add: frame_def upt_conv_Cons)
  then have "data_bytes (take (min k ?np) (y_wire s2)) = None"
    by (simp add: data_bytes_stop)
  then have "read_data p s2 = Inl Garbled" using s2(3) s2p by (simp add: read_data_def sys_read_def)
  then have "tcp_read_msg i s = Inl Garbled" using r c e(1) s2p tags(5)
    by (simp add: tcp_read_msg_def) (simp add: s1_def upd_entry_def update_msg_progress_def Let_def)
  then have "recv_loop i s = Inl Garbled" by (rule recv_loop_go(2) [OF waiting_nleft [OF posted(1)]])
  then show ?thesis using do_recv_garbled [OF q(1,2)] q(3) by (simp add: sigio_recv_def)
qed

text \<open>Two receives of two bytes wait, for the tags 9 and 7; a message of one byte comes for the second.\<close>

definition two_posted :: receiver where
  "two_posted = (init_receiver (frame \<lparr>hd_nbytes = 1, hd_src = 1, hd_tag = 7\<rparr> [5] @ demo_wire))
     \<lparr>y_as := [Moved 24, Moved 2], y_rq := [1, 2], y_active := True,
      y_list := (\<lambda>_. msg_null)(1 := (set_entry 2 1 9 msg_null)\<lparr>e_buf := Some [0, 0]\<rparr>,
                              2 := (set_entry 2 1 7 msg_null)\<lparr>e_buf := Some [0, 0]\<rparr>)\<rparr>"

theorem short_message_swallows_header_witness:
  "sigio_recv two_posted = Some (Inl Garbled)"
  by (rule short_message_swallows_header [where i = 1 and p = 2 and a = 24 and k = 2 and as = "[]"
        and h = "\<lparr>hd_nbytes = 1, hd_src = 1, hd_tag = 7\<rparr>" and d = "[5]"
        and h' = "\<lparr>hd_nbytes = 2, hd_src = 1, hd_tag = 7\<rparr>" and d' = "[1, 2]"
        and w = "frame \<lparr>hd_nbytes = 1, hd_src = 1, hd_tag = 7\<rparr> [3] @ frame \<lparr>hd_nbytes = 1, hd_src = 1, hd_tag = 8\<rparr> [4]"])
    (simp_all add: two_posted_def init_receiver_def msg_null_def set_entry_def fresh_def demo_wire_def)

end
