(* ===== verification/Ring.thy ===== *)
theory Ring
  imports Prelude
begin

text \<open>
  Rings of a fixed size with a head and a tail index that advance modulo the size, the idiom of
  the queues in \<open>MP_Lite/tcp.c\<close>: the list of what is stored, adding, taking, and the overflow that
  makes a full ring look empty.
\<close>

definition ring_len :: "nat \<Rightarrow> nat \<Rightarrow> nat \<Rightarrow> nat" where
  "ring_len n h t = (if h \<le> t then t - h else t + n - h)"

definition ring_list :: "nat \<Rightarrow> (nat \<Rightarrow> 'a) \<Rightarrow> nat \<Rightarrow> nat \<Rightarrow> 'a list" where
  "ring_list n q h t = map (\<lambda>i. q ((h + i) mod n)) [0..<ring_len n h t]"

lemma length_ring_list [simp]: "length (ring_list n q h t) = ring_len n h t"
  by (simp add: ring_list_def)

lemma ring_len_less: "h < n \<Longrightarrow> t < n \<Longrightarrow> ring_len n h t < n"
  by (auto simp: ring_len_def)

lemma ring_empty [simp]: "ring_list n q h h = []"
  by (simp add: ring_list_def ring_len_def)

lemma ring_empty_iff: "h < n \<Longrightarrow> t < n \<Longrightarrow> ring_list n q h t = [] \<longleftrightarrow> h = t"
  by (auto simp: ring_list_def ring_len_def)

lemma ring_tail: "h < n \<Longrightarrow> t < n \<Longrightarrow> (h + ring_len n h t) mod n = t"
  by (simp add: ring_len_def mod_if)

lemma ring_put:
  assumes "h < n" and "t < n" and "Suc (ring_len n h t) < n"
  shows "ring_list n (q(t := x)) h ((t + 1) mod n) = ring_list n q h t @ [x]"
proof -
  have "(h + i) mod n \<noteq> t" if "i < ring_len n h t" for i
    using that assms by (auto simp: ring_len_def mod_if split: if_splits)
  then have "map (\<lambda>i. (q(t := x)) ((h + i) mod n)) [0..<ring_len n h t] = ring_list n q h t"
    by (simp add: ring_list_def)
  moreover have "ring_len n h ((t + 1) mod n) = Suc (ring_len n h t)"
    using assms by (auto simp: ring_len_def mod_if split: if_splits)
  ultimately show ?thesis
    unfolding ring_list_def [of n "q(t := x)"] using ring_tail [OF assms(1,2)] by simp
qed

lemma ring_wrap: "h < n \<Longrightarrow> t < n \<Longrightarrow> Suc (ring_len n h t) = n \<Longrightarrow> (t + 1) mod n = h"
  by (auto simp: ring_len_def mod_if split: if_splits)

lemma ring_get:
  assumes "h < n" and "t < n" and "h \<noteq> t"
  shows "ring_list n q h t = q h # ring_list n q ((h + 1) mod n) t"
proof -
  have "ring_len n h t = Suc (ring_len n ((h + 1) mod n) t)"
    using assms by (auto simp: ring_len_def mod_if split: if_splits)
  moreover have "(h + Suc i) mod n = ((h + 1) mod n + i) mod n" for i
    by (simp add: mod_simps)
  ultimately show ?thesis
    using assms(1) unfolding ring_list_def by (simp add: map_upt_Suc del: upt_Suc)
qed

end
