(* ===== verification/Locks.thy ===== *)
theory Locks
  imports Ring Fifo
begin

text \<open>
  The locks of a window in MP_Lite's one-sided communication, \<open>do_lock\<close> and \<open>try_lock\<close> of
  \<open>MP_Lite/tcp.c\<close>: the process that owns the memory keeps who holds its window, and a ring of the
  requests that have to wait.
\<close>

section \<open>The state of a window\<close>

text \<open>
  The part of \<open>MP_Window\<close> that the locks use.  \<open>locked\<close> is 0 if nobody holds the window, 1 if it is
  shared, 2 if it is held exclusively; \<open>lr_flag\<close> is the address that a grant is written to.
\<close>

definition LOCK_Q_SIZE :: nat where "LOCK_Q_SIZE = 1000"

record lock_req =
  lr_src :: nat
  lr_type :: int
  lr_flag :: int

record win =
  win_locked :: int
  win_count :: int
  win_q :: "nat \<Rightarrow> lock_req"
  win_head :: nat
  win_tail :: nat

section \<open>The operations\<close>

text \<open>
  A request for an unlock (0), a shared lock (1) or an exclusive one: whether it is granted, and
  the new state.
\<close>

definition try_lock :: "int \<Rightarrow> win \<Rightarrow> (bool \<times> win) outcome" where
  "try_lock type w =
     (if type = 0 then
        let w1 = w\<lparr>win_count := win_count w - 1\<rparr> in
        if win_count w1 < 0 then Inl (ErrorX ''try_lock() - ERROR: count is negative'')
        else Inr (True, if win_count w1 = 0 then w1\<lparr>win_locked := 0\<rparr> else w1)
      else if type = 1 then
        if win_locked w = 0 \<or> win_locked w = 1
        then Inr (True, w\<lparr>win_locked := type, win_count := win_count w + 1\<rparr>)
        else Inr (False, w)
      else
        if win_locked w \<noteq> 0 then Inr (False, w)
        else Inr (True, w\<lparr>win_locked := type, win_count := win_count w + 1\<rparr>))"

definition lock_enqueue :: "lock_req \<Rightarrow> win \<Rightarrow> win" where
  "lock_enqueue r w =
     w\<lparr>win_q := (win_q w)(win_tail w := r), win_tail := (win_tail w + 1) mod LOCK_Q_SIZE\<rparr>"

text \<open>
  The loop over the waiting requests when the window has become free.  The grants are pairs of
  the flag that is set and the process that owns it, in the order of the calls of
  \<open>signal_safe_put\<close>.  The first argument bounds the number of rounds.
\<close>

fun grant_queued :: "nat \<Rightarrow> win \<Rightarrow> ((int \<times> nat) list \<times> win) outcome option" where
  "grant_queued 0 w = None"
| "grant_queued (Suc n) w =
     (if win_head w = win_tail w then Some (Inr ([], w))
      else let r = win_q w (win_head w) in
        case try_lock (lr_type r) w of
          Inl e \<Rightarrow> Some (Inl e)
        | Inr (granted, w') \<Rightarrow>
            if granted
            then map_option (map_sum id (\<lambda>(gs, w''). ((lr_flag r, lr_src r) # gs, w'')))
                   (grant_queued n (w'\<lparr>win_head := (win_head w' + 1) mod LOCK_Q_SIZE\<rparr>))
            else Some (Inr ([], w')))"

definition do_lock :: "nat \<Rightarrow> int \<Rightarrow> int \<Rightarrow> win \<Rightarrow> ((int \<times> nat) list \<times> win) outcome option" where
  "do_lock src type flag w = (case try_lock type w of
     Inl e \<Rightarrow> Some (Inl e)
   | Inr (granted, w1) \<Rightarrow>
       if type \<noteq> 0 \<and> granted then Some (Inr ([(flag, src)], w1))
       else if type \<noteq> 0 then
         Some (Inr ([], lock_enqueue \<lparr>lr_src = src, lr_type = type, lr_flag = flag\<rparr> w1))
       else if win_locked w1 = 0
         then map_option (map_sum id (\<lambda>(gs, w2). ((flag, src) # gs, w2))) (grant_queued LOCK_Q_SIZE w1)
         else Some (Inr ([(flag, src)], w1)))"

section \<open>The ring of requests\<close>

definition win_ok :: "win \<Rightarrow> bool" where
  "win_ok w \<longleftrightarrow> win_head w < LOCK_Q_SIZE \<and> win_tail w < LOCK_Q_SIZE"

definition queued :: "win \<Rightarrow> lock_req list" where
  "queued w = ring_list LOCK_Q_SIZE (win_q w) (win_head w) (win_tail w)"

definition lock_dequeue :: "win \<Rightarrow> (lock_req \<times> win) option" where
  "lock_dequeue w =
     (if win_head w = win_tail w then None
      else Some (win_q w (win_head w), w\<lparr>win_head := (win_head w + 1) mod LOCK_Q_SIZE\<rparr>))"

definition lock_room :: "win \<Rightarrow> bool" where
  "lock_room w \<longleftrightarrow> (win_tail w + 1) mod LOCK_Q_SIZE \<noteq> win_head w"

lemma size_pos [simp]: "0 < LOCK_Q_SIZE"
  by (simp add: LOCK_Q_SIZE_def)

lemma win_ok_updates [simp]:
  "win_ok (w\<lparr>win_locked := x\<rparr>) = win_ok w" "win_ok (w\<lparr>win_count := c\<rparr>) = win_ok w"
  "queued (w\<lparr>win_locked := x\<rparr>) = queued w" "queued (w\<lparr>win_count := c\<rparr>) = queued w"
  by (simp_all add: win_ok_def queued_def)

lemma win_ok_enqueue [simp]: "win_ok w \<Longrightarrow> win_ok (lock_enqueue r w)"
  by (simp add: win_ok_def lock_enqueue_def)

lemma queued_less: "win_ok w \<Longrightarrow> length (queued w) < LOCK_Q_SIZE"
  by (simp add: win_ok_def queued_def ring_len_less)

lemma queued_enqueue:
  "win_ok w \<Longrightarrow> Suc (length (queued w)) < LOCK_Q_SIZE \<Longrightarrow> queued (lock_enqueue r w) = queued w @ [r]"
  by (simp add: win_ok_def queued_def lock_enqueue_def ring_put del: One_nat_def add_Suc_right)

lemma queued_first:
  "win_ok w \<Longrightarrow> win_head w \<noteq> win_tail w \<Longrightarrow>
     queued w = win_q w (win_head w) # queued (w\<lparr>win_head := (win_head w + 1) mod LOCK_Q_SIZE\<rparr>)"
  unfolding win_ok_def queued_def by (simp add: ring_get del: One_nat_def add_Suc_right)

lemma queued_empty_iff: "win_ok w \<Longrightarrow> queued w = [] \<longleftrightarrow> win_head w = win_tail w"
  by (simp add: win_ok_def queued_def ring_empty_iff)

lemma lock_room_iff: "win_ok w \<Longrightarrow> lock_room w \<longleftrightarrow> Suc (length (queued w)) < LOCK_Q_SIZE"
proof -
  assume ok: "win_ok w"
  have "(win_tail w + 1) mod LOCK_Q_SIZE = win_head w" if "\<not> Suc (length (queued w)) < LOCK_Q_SIZE"
    using that queued_less [OF ok] ok
    by (intro ring_wrap) (auto simp: win_ok_def queued_def)
  moreover have "(win_tail w + 1) mod LOCK_Q_SIZE \<noteq> win_head w" if "Suc (length (queued w)) < LOCK_Q_SIZE"
  proof
    let ?r = "\<lparr>lr_src = 0, lr_type = 0, lr_flag = 0\<rparr>"
    assume "(win_tail w + 1) mod LOCK_Q_SIZE = win_head w"
    then have "queued (lock_enqueue ?r w) = []" by (simp add: queued_def lock_enqueue_def)
    with queued_enqueue [OF ok that, of ?r] show False by simp
  qed
  ultimately show ?thesis by (auto simp: lock_room_def)
qed

interpretation lock_ring: bounded_queue lock_enqueue lock_dequeue lock_room queued win_ok "LOCK_Q_SIZE - 1"
proof unfold_locales
  fix w :: win and r rs
  assume ok: "win_ok w" and q: "queued w = r # rs"
  then have "win_head w \<noteq> win_tail w" using queued_empty_iff [OF ok] by simp
  with queued_first [OF ok this] q ok
  show "\<exists>w'. lock_dequeue w = Some (r, w') \<and> win_ok w' \<and> queued w' = rs"
    by (auto simp: lock_dequeue_def win_ok_def)
next
  show "win_ok w \<Longrightarrow> length (queued w) \<le> LOCK_Q_SIZE - 1" for w
    using queued_less [of w] by simp
  show "win_ok w \<Longrightarrow> lock_room w \<longleftrightarrow> length (queued w) < LOCK_Q_SIZE - 1" for w
    using lock_room_iff [of w] by auto
qed (auto simp: lock_room_iff queued_enqueue lock_dequeue_def queued_empty_iff)

section \<open>The lock as it is meant\<close>

text \<open>
  A lock for readers and writers with a list of waiting requests: mode, number of holders, and
  who waits.  When the lock becomes free, requests are admitted from the front as long as the mode
  admits them.
\<close>

record rw_lock =
  rw_mode :: int
  rw_holders :: int
  rw_waiting :: "lock_req list"

definition rw_admits :: "int \<Rightarrow> int \<Rightarrow> bool" where
  "rw_admits mode type \<longleftrightarrow> mode = 0 \<or> mode = 1 \<and> type = 1"

definition rw_enter :: "int \<Rightarrow> rw_lock \<Rightarrow> rw_lock" where
  "rw_enter type l = l\<lparr>rw_mode := type, rw_holders := rw_holders l + 1\<rparr>"

definition grant_of :: "lock_req \<Rightarrow> int \<times> nat" where
  "grant_of r = (lr_flag r, lr_src r)"

fun rw_admit :: "lock_req list \<Rightarrow> rw_lock \<Rightarrow> (int \<times> nat) list \<times> rw_lock" where
  "rw_admit [] l = ([], l\<lparr>rw_waiting := []\<rparr>)"
| "rw_admit (r # rs) l =
     (if rw_admits (rw_mode l) (lr_type r)
      then let (gs, l') = rw_admit rs (rw_enter (lr_type r) l) in (grant_of r # gs, l')
      else ([], l\<lparr>rw_waiting := r # rs\<rparr>))"

definition rw_request :: "nat \<Rightarrow> int \<Rightarrow> int \<Rightarrow> rw_lock \<Rightarrow> ((int \<times> nat) list \<times> rw_lock) outcome" where
  "rw_request src type flag l =
     (if type \<noteq> 0 then
        if rw_admits (rw_mode l) type then Inr ([(flag, src)], rw_enter type l)
        else Inr ([], l\<lparr>rw_waiting := rw_waiting l @ [\<lparr>lr_src = src, lr_type = type, lr_flag = flag\<rparr>]\<rparr>)
      else if rw_holders l \<le> 0 then Inl (ErrorX ''try_lock() - ERROR: count is negative'')
      else if rw_holders l = 1 then
        let (gs, l') = rw_admit (rw_waiting l) (l\<lparr>rw_mode := 0, rw_holders := 0\<rparr>) in Inr ((flag, src) # gs, l')
      else Inr ([(flag, src)], l\<lparr>rw_holders := rw_holders l - 1\<rparr>))"

definition rw_of :: "win \<Rightarrow> rw_lock" where
  "rw_of w = \<lparr>rw_mode = win_locked w, rw_holders = win_count w, rw_waiting = queued w\<rparr>"

definition real_locks :: "win \<Rightarrow> bool" where
  "real_locks w \<longleftrightarrow> (\<forall>r \<in> set (queued w). lr_type r \<in> {1, 2}) \<and> win_locked w \<in> {0, 1, 2}
     \<and> (win_locked w = 0 \<longrightarrow> win_count w = 0)"

lemma rw_admit_waiting: "rw_admit rs (l\<lparr>rw_waiting := x\<rparr>) = rw_admit rs l"
proof (induction rs arbitrary: l)
  case (Cons r rs)
  have "rw_enter t (l\<lparr>rw_waiting := x\<rparr>) = (rw_enter t l)\<lparr>rw_waiting := x\<rparr>" for t
    by (simp add: rw_enter_def)
  with Cons show ?case by simp
qed simp

lemma try_lock_admits:
  "type \<in> {1, 2} \<Longrightarrow> win_locked w \<in> {0, 1, 2} \<Longrightarrow>
     try_lock type w = (if rw_admits (win_locked w) type
       then Inr (True, w\<lparr>win_locked := type, win_count := win_count w + 1\<rparr>) else Inr (False, w))"
  by (auto simp: try_lock_def rw_admits_def)

lemma grant_queued_admits:
  assumes "win_ok w" and "real_locks w" and "length (queued w) < n"
  shows "\<exists>w'. grant_queued n w = Some (Inr (fst (rw_admit (queued w) (rw_of w)), w'))
     \<and> win_ok w' \<and> rw_of w' = snd (rw_admit (queued w) (rw_of w))"
  using assms
proof (induction n arbitrary: w)
  case (Suc n)
  show ?case
  proof (cases "win_head w = win_tail w")
    case True
    then have "queued w = []" using queued_empty_iff [OF Suc.prems(1)] by simp
    with True Suc.prems(1) show ?thesis by (auto simp: rw_of_def)
  next
    case False
    define r where "r = win_q w (win_head w)"
    note q = queued_first [OF Suc.prems(1) False, folded r_def]
    have ty: "lr_type r \<in> {1, 2}" "win_locked w \<in> {0, 1, 2}"
      using Suc.prems(2) q by (auto simp: real_locks_def)
    show ?thesis
    proof (cases "rw_admits (win_locked w) (lr_type r)")
      case adm: True
      define w1 where "w1 = w\<lparr>win_locked := lr_type r, win_count := win_count w + 1,
          win_head := (win_head w + 1) mod LOCK_Q_SIZE\<rparr>"
      have w1: "w\<lparr>win_locked := lr_type r, win_count := win_count w + 1,
          win_head := Suc (win_head w) mod LOCK_Q_SIZE\<rparr> = w1" by (simp add: w1_def)
      have q1: "queued w = r # queued w1" using q by (simp add: w1_def queued_def)
      have "win_ok w1" using Suc.prems(1) by (simp add: w1_def win_ok_def)
      moreover have "real_locks w1" using Suc.prems(2) ty(1) q1 by (auto simp: real_locks_def w1_def)
      moreover have "length (queued w1) < n" using Suc.prems(3) q1 by simp
      ultimately obtain w' where w': "grant_queued n w1 = Some (Inr (fst (rw_admit (queued w1) (rw_of w1)), w'))"
          "win_ok w'" "rw_of w' = snd (rw_admit (queued w1) (rw_of w1))"
        using Suc.IH by blast
      have "rw_admit (queued w1) (rw_enter (lr_type r) (rw_of w)) = rw_admit (queued w1) (rw_of w1)"
        using rw_admit_waiting [of "queued w1" "queued w" "rw_of w1"]
        by (simp add: rw_of_def rw_enter_def w1_def)
      with w' False adm ty q1 show ?thesis
        by (simp add: try_lock_admits r_def [symmetric] w1 rw_of_def [of w] grant_of_def split: prod.split)
    next
      case nadm: False
      with False ty Suc.prems(1) q show ?thesis
        by (simp add: try_lock_admits r_def [symmetric] rw_of_def)
    qed
  qed
qed simp

lemma do_lock_implements:
  assumes ok: "win_ok w" and real: "real_locks w" and room: "type = 0 \<or> lock_room w" and type: "type \<in> {0, 1, 2}"
  shows "\<exists>r. do_lock src type flag w = Some r
     \<and> map_sum id (\<lambda>(gs, w'). (gs, rw_of w')) r = rw_request src type flag (rw_of w)
     \<and> (\<forall>gs w'. r = Inr (gs, w') \<longrightarrow> win_ok w')"
proof (cases "type = 0")
  case False
  then have t: "type \<in> {1, 2}" "win_locked w \<in> {0, 1, 2}" using type real by (auto simp: real_locks_def)
  show ?thesis
    using False try_lock_admits [OF t] ok room lock_ring.contents_put [OF ok]
    by (auto simp: do_lock_def rw_request_def rw_of_def rw_enter_def lock_enqueue_def
        win_ok_def queued_def)
next
  case True
  let ?w1 = "w\<lparr>win_count := 0, win_locked := 0\<rparr>"
  have "win_ok ?w1" "real_locks ?w1" "length (queued ?w1) < LOCK_Q_SIZE"
    using ok real queued_less [OF ok] by (simp_all add: real_locks_def)
  from grant_queued_admits [OF this] obtain w' where
    w': "grant_queued LOCK_Q_SIZE ?w1 = Some (Inr (fst (rw_admit (queued w) (rw_of ?w1)), w'))"
      "win_ok w'" "rw_of w' = snd (rw_admit (queued w) (rw_of ?w1))" by auto
  have "rw_of ?w1 = (rw_of w)\<lparr>rw_mode := 0, rw_holders := 0\<rparr>" by (simp add: rw_of_def)
  with w' True ok real show ?thesis
    by (cases "win_count w = 1")
      (auto simp: real_locks_def do_lock_def rw_request_def try_lock_def Let_def rw_of_def split: prod.split)
qed

text \<open>
  C13.  The server of a window implements the lock for readers and writers, as long as the ring has
  room: every request is answered, with the same grants in the same order.
\<close>

theorem do_lock_refines:
  assumes "win_ok w" and "real_locks w" and "type = 0 \<or> lock_room w" and "type \<in> {0, 1, 2}"
  shows "\<exists>r. do_lock src type flag w = Some r
     \<and> map_sum id (\<lambda>(gs, w'). (gs, rw_of w')) r = rw_request src type flag (rw_of w)
     \<and> (\<forall>gs w'. r = Inr (gs, w') \<longrightarrow> win_ok w')"
  using assms by (rule do_lock_implements)

text \<open>\<open>MP_Win_create\<close> starts with a free window.\<close>

definition free_win :: win where
  "free_win = \<lparr>win_locked = 0, win_count = 0, win_q = (\<lambda>_. \<lparr>lr_src = 0, lr_type = 0, lr_flag = 0\<rparr>),
     win_head = 0, win_tail = 0\<rparr>"

lemma free_win_ok [simp]: "win_ok free_win" "queued free_win = []" "lock_room free_win"
  by (simp_all add: free_win_def win_ok_def queued_def lock_room_def LOCK_Q_SIZE_def)

theorem do_lock_refines_witness:
  "\<exists>w'. do_lock 3 2 64 free_win = Some (Inr ([(64, 3)], w'))
     \<and> rw_of w' = \<lparr>rw_mode = 2, rw_holders = 1, rw_waiting = []\<rparr> \<and> win_ok w'"
proof -
  have "real_locks free_win" by (simp add: real_locks_def) (simp add: free_win_def)
  moreover have "rw_of free_win = \<lparr>rw_mode = 0, rw_holders = 0, rw_waiting = []\<rparr>"
    by (simp add: rw_of_def) (simp add: free_win_def)
  ultimately show ?thesis
    using do_lock_refines [of free_win 2 3 64] by (auto simp: rw_request_def rw_admits_def rw_enter_def)
qed

section \<open>What the requests do not get\<close>

text \<open>
  Requests are meant to be granted in the order received, independent of their type.  A shared
  request overtakes everybody who waits while the window is shared.
\<close>

theorem shared_overtakes:
  assumes "win_locked w = 1"
  shows "do_lock src 1 flag w = Some (Inr ([(flag, src)], w\<lparr>win_count := win_count w + 1\<rparr>))"
proof -
  have "w\<lparr>win_locked := 1\<rparr> = w" using assms by simp
  with assms show ?thesis by (simp add: do_lock_def try_lock_def)
qed

theorem shared_overtakes_witness:
  "do_lock 5 1 80 (free_win\<lparr>win_locked := 1, win_count := 1, win_tail := 1,
       win_q := (\<lambda>_. \<lparr>lr_src = 4, lr_type = 2, lr_flag = 72\<rparr>)\<rparr>)
   = Some (Inr ([(80, 5)], free_win\<lparr>win_locked := 1, win_count := 2, win_tail := 1,
       win_q := (\<lambda>_. \<lparr>lr_src = 4, lr_type = 2, lr_flag = 72\<rparr>)\<rparr>))"
  by (simp add: shared_overtakes)

text \<open>
  The request that fills the ring makes it look empty: all \<open>LOCK_Q_SIZE\<close> waiting requests are lost,
  after a message to the terminal.
\<close>

theorem full_ring_loses_requests:
  assumes ok: "win_ok w" and locked: "win_locked w = 2" and type: "type \<in> {1, 2}"
    and full: "Suc (length (queued w)) = LOCK_Q_SIZE"
  shows "\<exists>w'. do_lock src type flag w = Some (Inr ([], w')) \<and> queued w' = [] \<and> win_locked w' = 2"
proof -
  have "(win_tail w + 1) mod LOCK_Q_SIZE = win_head w"
    using lock_room_iff [OF ok] full by (simp add: lock_room_def)
  then have "queued (lock_enqueue r w) = []" for r by (simp add: queued_def lock_enqueue_def)
  then show ?thesis using locked type by (auto simp: do_lock_def try_lock_def lock_enqueue_def)
qed

theorem full_ring_loses_requests_witness:
  "\<exists>w'. do_lock 1001 2 8 (free_win\<lparr>win_locked := 2, win_count := 1, win_tail := 999\<rparr>)
     = Some (Inr ([], w')) \<and> queued w' = [] \<and> win_locked w' = 2"
  by (rule full_ring_loses_requests)
    (simp_all add: free_win_def win_ok_def queued_def ring_len_def LOCK_Q_SIZE_def)

end
