(* ===== verification/LockUsers.thy ===== *)
theory LockUsers
  imports Locks
begin

text \<open>
  Processes that lock and unlock a window, \<open>MP_Win_lock\<close> and \<open>MP_Win_unlock\<close> of
  \<open>MP_Lite/tcp.c\<close>, together with the process that serves the requests, in all interleavings.
\<close>

section \<open>The system\<close>

text \<open>
  Where a process is: before a call, in \<open>MP_Win_lock\<close> waiting until the flag at an address of its
  stack is set, after it, or in \<open>MP_Win_unlock\<close> waiting in the same way.  \<open>ls_req\<close> is a request on
  its way to the server, \<open>ls_put\<close> are the replies of the server that have not arrived.
\<close>

datatype client = Idle | Asking int int | Holding int | Leaving int int

record lock_sys =
  ls_win :: win
  ls_proc :: "nat \<Rightarrow> client"
  ls_req :: "nat \<Rightarrow> (int \<times> int) option"
  ls_put :: "(int \<times> nat) list"

definition init_locks :: lock_sys where
  "init_locks = \<lparr>ls_win = free_win, ls_proc = (\<lambda>_. Idle), ls_req = (\<lambda>_. None), ls_put = []\<rparr>"

text \<open>What the users do: send a request and wait.\<close>

inductive user_step :: "nat \<Rightarrow> lock_sys \<Rightarrow> lock_sys \<Rightarrow> bool" for N where
  ask: "p < N \<Longrightarrow> ls_proc s p = Idle \<Longrightarrow> type \<in> {1, 2} \<Longrightarrow>
    user_step N s (s\<lparr>ls_proc := (ls_proc s)(p := Asking type a), ls_req := (ls_req s)(p \<mapsto> (type, a))\<rparr>)"
| leave: "p < N \<Longrightarrow> ls_proc s p = Holding type \<Longrightarrow>
    user_step N s (s\<lparr>ls_proc := (ls_proc s)(p := Leaving type a), ls_req := (ls_req s)(p \<mapsto> (0, a))\<rparr>)"

text \<open>What happens by itself: a request is served, a reply arrives and ends the waiting.\<close>

inductive system_step :: "lock_sys \<Rightarrow> lock_sys \<Rightarrow> bool" where
  serve: "ls_req s p = Some (type, a) \<Longrightarrow> do_lock p type a (ls_win s) = Some (Inr (gs, w)) \<Longrightarrow>
    system_step s (s\<lparr>ls_win := w, ls_req := (ls_req s)(p := None), ls_put := ls_put s @ gs\<rparr>)"
| granted: "ls_put s = xs @ (a, p) # ys \<Longrightarrow> ls_proc s p = Asking type a \<Longrightarrow>
    system_step s (s\<lparr>ls_proc := (ls_proc s)(p := Holding type), ls_put := xs @ ys\<rparr>)"
| left: "ls_put s = xs @ (a, p) # ys \<Longrightarrow> ls_proc s p = Leaving type a \<Longrightarrow>
    system_step s (s\<lparr>ls_proc := (ls_proc s)(p := Idle), ls_put := xs @ ys\<rparr>)"

definition lock_step :: "nat \<Rightarrow> lock_sys \<Rightarrow> lock_sys \<Rightarrow> bool" where
  "lock_step N s s' \<longleftrightarrow> user_step N s s' \<or> system_step s s'"

lemma distinct_if_once: "(\<And>x. length (filter (\<lambda>y. y = x) xs) \<le> 1) \<Longrightarrow> distinct xs"
proof (induction xs)
  case (Cons x xs)
  have "length (filter (\<lambda>y. y = z) xs) \<le> 1" for z using Cons.prems [of z] by (simp split: if_splits)
  moreover have "x \<notin> set xs" using Cons.prems [of x] by (auto simp: filter_empty_conv)
  ultimately show ?case using Cons.IH by simp
qed simp

section \<open>Where a request is\<close>

definition pending_of :: "lock_sys \<Rightarrow> nat \<Rightarrow> (int \<times> int) option \<times> lock_req list \<times> (int \<times> nat) list" where
  "pending_of s p = (ls_req s p, filter (\<lambda>r. lr_src r = p) (queued (ls_win s)), filter (\<lambda>g. snd g = p) (ls_put s))"

definition placed :: "lock_sys \<Rightarrow> nat \<Rightarrow> bool" where
  "placed s p \<longleftrightarrow> (case ls_proc s p of
     Idle \<Rightarrow> pending_of s p = (None, [], [])
   | Asking t a \<Rightarrow> t \<in> {1, 2} \<and> pending_of s p \<in> {(Some (t, a), [], []),
        (None, [\<lparr>lr_src = p, lr_type = t, lr_flag = a\<rparr>], []), (None, [], [(a, p)])}
   | Holding t \<Rightarrow> t \<in> {1, 2} \<and> pending_of s p = (None, [], [])
   | Leaving t a \<Rightarrow> t \<in> {1, 2} \<and> pending_of s p \<in> {(Some (0, a), [], []), (None, [], [(a, p)])})"

text \<open>What a process holds in the eyes of the server.\<close>

definition owns :: "lock_sys \<Rightarrow> nat \<Rightarrow> int option" where
  "owns s p = (case ls_proc s p of
     Idle \<Rightarrow> None
   | Asking t a \<Rightarrow> if filter (\<lambda>g. snd g = p) (ls_put s) \<noteq> [] then Some t else None
   | Holding t \<Rightarrow> Some t
   | Leaving t a \<Rightarrow> if ls_req s p \<noteq> None then Some t else None)"

definition lock_inv :: "nat \<Rightarrow> lock_sys \<Rightarrow> bool" where
  "lock_inv N s \<longleftrightarrow> win_ok (ls_win s) \<and> real_locks (ls_win s)
     \<and> (\<forall>p. placed s p) \<and> (\<forall>p \<ge> N. ls_proc s p = Idle)
     \<and> win_count (ls_win s) = int (card (dom (owns s)))
     \<and> (\<forall>p \<in> dom (owns s). owns s p = Some (win_locked (ls_win s)))
     \<and> (win_locked (ls_win s) = 2 \<longrightarrow> win_count (ls_win s) = 1)
     \<and> (win_locked (ls_win s) \<noteq> 0 \<longrightarrow> 0 < win_count (ls_win s))
     \<and> (win_locked (ls_win s) = 0 \<longrightarrow> queued (ls_win s) = [])"

lemma owns_less: "lock_inv N s \<Longrightarrow> owns s p \<noteq> None \<Longrightarrow> p < N"
  by (force simp: lock_inv_def owns_def not_less [symmetric])

lemma finite_owners: "lock_inv N s \<Longrightarrow> finite (dom (owns s))"
  by (rule finite_subset [of _ "{..<N}"]) (use owns_less in auto)

lemma queued_waits:
  assumes "lock_inv N s" and "r \<in> set (queued (ls_win s))"
  shows "\<exists>t a. ls_proc s (lr_src r) = Asking t a \<and> r = \<lparr>lr_src = lr_src r, lr_type = t, lr_flag = a\<rparr>
     \<and> pending_of s (lr_src r) = (None, [r], []) \<and> lr_src r < N \<and> owns s (lr_src r) = None"
proof -
  let ?p = "lr_src r"
  have pl: "placed s ?p" and N: "\<forall>p \<ge> N. ls_proc s p = Idle" using assms(1) by (auto simp: lock_inv_def)
  have r: "r \<in> set (filter (\<lambda>r. lr_src r = ?p) (queued (ls_win s)))" using assms(2) by simp
  then have ne: "filter (\<lambda>r. lr_src r = ?p) (queued (ls_win s)) \<noteq> []"
    by (auto simp: filter_empty_conv)
  obtain t a where "ls_proc s ?p = Asking t a" "pending_of s ?p = (None, [\<lparr>lr_src = ?p, lr_type = t, lr_flag = a\<rparr>], [])"
    using pl ne by (auto simp: placed_def pending_of_def split: client.splits)
  moreover from this r have "r = \<lparr>lr_src = ?p, lr_type = t, lr_flag = a\<rparr>" by (auto simp: pending_of_def)
  ultimately show ?thesis using N by (force simp: owns_def pending_of_def not_less [symmetric])
qed

lemma queued_distinct:
  assumes "lock_inv N s"
  shows "distinct (map lr_src (queued (ls_win s)))"
proof -
  have "length (filter (\<lambda>x. x = p) (map lr_src (queued (ls_win s)))) \<le> 1" for p
  proof -
    have "placed s p" using assms by (simp add: lock_inv_def)
    then have "length (filter (\<lambda>r. lr_src r = p) (queued (ls_win s))) \<le> 1"
      by (auto simp: placed_def pending_of_def split: client.splits)
    then show ?thesis by (simp add: filter_map o_def)
  qed
  then show ?thesis by (rule distinct_if_once)
qed

section \<open>The invariant\<close>

lemma owns_cong:
  "ls_proc s' q = ls_proc s q \<Longrightarrow> ls_req s' q = ls_req s q \<Longrightarrow>
     filter (\<lambda>g. snd g = q) (ls_put s') = filter (\<lambda>g. snd g = q) (ls_put s) \<Longrightarrow> owns s' q = owns s q"
  by (simp add: owns_def split: client.split)

lemma placed_cong: "ls_proc s' q = ls_proc s q \<Longrightarrow> pending_of s' q = pending_of s q \<Longrightarrow> placed s' q = placed s q"
  by (simp add: placed_def split: client.split)

text \<open>A step that does not touch the window and gives nobody anything.\<close>

lemma same_owners_inv:
  assumes "lock_inv N s" and "ls_win s' = ls_win s" and "\<And>q. owns s' q = owns s q"
    and "\<And>q. placed s' q" and "\<And>q. N \<le> q \<Longrightarrow> ls_proc s' q = Idle"
  shows "lock_inv N s'"
proof -
  have eq: "owns s' = owns s" by (rule ext) (rule assms(3))
  show ?thesis using assms(1,4,5) unfolding lock_inv_def assms(2) eq by blast
qed

lemma user_step_inv:
  assumes "user_step N s s'" and inv: "lock_inv N s"
  shows "lock_inv N s'"
  using assms(1)
proof cases
  case (ask p t a)
  have "placed s p" using inv by (simp add: lock_inv_def)
  with ask have p: "pending_of s p = (None, [], [])" by (simp add: placed_def)
  show ?thesis
  proof (rule same_owners_inv [OF inv])
    show "owns s' q = owns s q" for q
      using ask p by (cases "q = p") (auto simp: owns_def pending_of_def split: client.split)
    show "placed s' q" for q
    proof (cases "q = p")
      case True
      with ask p show ?thesis by (simp add: placed_def pending_of_def)
    next
      case False
      with ask have "placed s' q = placed s q" by (intro placed_cong) (simp_all add: pending_of_def)
      with inv show ?thesis by (simp add: lock_inv_def)
    qed
  qed (use ask inv in \<open>auto simp: lock_inv_def\<close>)
next
  case (leave p t a)
  have "placed s p" using inv by (simp add: lock_inv_def)
  with leave have p: "pending_of s p = (None, [], [])" "t \<in> {1, 2}" by (simp_all add: placed_def)
  show ?thesis
  proof (rule same_owners_inv [OF inv])
    show "owns s' q = owns s q" for q
      using leave p by (cases "q = p") (auto simp: owns_def pending_of_def split: client.split)
    show "placed s' q" for q
    proof (cases "q = p")
      case True
      with leave p show ?thesis by (simp add: placed_def pending_of_def)
    next
      case False
      with leave have "placed s' q = placed s q" by (intro placed_cong) (simp_all add: pending_of_def)
      with inv show ?thesis by (simp add: lock_inv_def)
    qed
  qed (use leave inv in \<open>auto simp: lock_inv_def\<close>)
qed

text \<open>A reply reaches a process that waits for it.\<close>

lemma arrival:
  assumes inv: "lock_inv N s" and put: "ls_put s = xs @ (a, p) # ys"
  shows "\<exists>t. t \<in> {1, 2} \<and> (ls_proc s p = Asking t a \<or> ls_proc s p = Leaving t a)
     \<and> ls_req s p = None \<and> filter (\<lambda>r. lr_src r = p) (queued (ls_win s)) = []
     \<and> filter (\<lambda>g. snd g = p) (xs @ ys) = [] \<and> p < N"
proof -
  have pl: "placed s p" and N: "\<forall>p \<ge> N. ls_proc s p = Idle" using inv by (auto simp: lock_inv_def)
  have f: "filter (\<lambda>g. snd g = p) (ls_put s) = filter (\<lambda>g. snd g = p) xs @ (a, p) # filter (\<lambda>g. snd g = p) ys"
    by (simp add: put)
  have one: "us @ x # vs = [y] \<Longrightarrow> us = [] \<and> x = y \<and> vs = []" for us vs and x y :: "int \<times> nat"
    by (cases us) auto
  from pl N show ?thesis
    unfolding placed_def pending_of_def f
    by (cases "ls_proc s p") (auto dest!: one simp: not_less [symmetric])
qed

lemma arrival_inv:
  assumes inv: "lock_inv N s" and put: "ls_put s = xs @ (a, p) # ys"
    and c: "ls_proc s p = Asking t a \<and> c = Holding t \<or> ls_proc s p = Leaving t a \<and> c = Idle"
  shows "lock_inv N (s\<lparr>ls_proc := (ls_proc s)(p := c), ls_put := xs @ ys\<rparr>)"
proof (rule same_owners_inv [OF inv])
  let ?s = "s\<lparr>ls_proc := (ls_proc s)(p := c), ls_put := xs @ ys\<rparr>"
  from arrival [OF inv put] c have t: "t \<in> {1, 2}" and p: "p < N" "ls_req s p = None"
    "filter (\<lambda>r. lr_src r = p) (queued (ls_win s)) = []" "filter (\<lambda>g. snd g = p) (xs @ ys) = []" by auto
  show "owns ?s q = owns s q" for q
  proof (cases "q = p")
    case True
    with c p put show ?thesis by (auto simp: owns_def)
  qed (rule owns_cong, simp_all add: put)
  show "placed ?s q" for q
  proof (cases "q = p")
    case True
    with c p t show ?thesis by (auto simp: placed_def pending_of_def)
  next
    case False
    then have "placed ?s q = placed s q" by (intro placed_cong) (simp_all add: pending_of_def put)
    with inv show ?thesis by (simp add: lock_inv_def)
  qed
qed (use arrival [OF inv put] inv in \<open>auto simp: lock_inv_def\<close>)

section \<open>Serving a request\<close>

text \<open>What the server keeps of the lock, in terms of the abstract lock.\<close>

definition lock_part :: "rw_lock \<Rightarrow> (nat \<rightharpoonup> int) \<Rightarrow> bool" where
  "lock_part l own \<longleftrightarrow> (\<forall>r \<in> set (rw_waiting l). lr_type r \<in> {1, 2}) \<and> rw_mode l \<in> {0, 1, 2}
     \<and> rw_holders l = int (card (dom own)) \<and> finite (dom own)
     \<and> (\<forall>p \<in> dom own. own p = Some (rw_mode l))
     \<and> (rw_mode l = 2 \<longrightarrow> rw_holders l = 1) \<and> (rw_mode l \<noteq> 0 \<longrightarrow> 0 < rw_holders l)
     \<and> (rw_mode l = 0 \<longrightarrow> rw_waiting l = [] \<and> rw_holders l = 0)"

lemma lock_inv_parts:
  "lock_inv N s \<longleftrightarrow> win_ok (ls_win s) \<and> lock_part (rw_of (ls_win s)) (owns s)
     \<and> (\<forall>p. placed s p) \<and> (\<forall>p \<ge> N. ls_proc s p = Idle)" (is "?l \<longleftrightarrow> ?r")
proof
  assume ?l
  with finite_owners [OF this] show ?r
    unfolding lock_inv_def lock_part_def real_locks_def rw_of_def rw_lock.simps by blast
next
  assume ?r
  then show ?l unfolding lock_inv_def lock_part_def real_locks_def rw_of_def rw_lock.simps by blast
qed

lemma part_enter:
  assumes "lock_part l own" and "rw_admits (rw_mode l) type" and "type \<in> {1, 2}" and "own p = None"
  shows "lock_part (rw_enter type l) (own(p \<mapsto> type))"
proof -
  have c: "card (insert p (dom own)) = Suc (card (dom own))" "finite (insert p (dom own))"
    using assms(1,4) by (auto simp: lock_part_def domIff)
  have w: "rw_mode l = 0 \<Longrightarrow> dom own = {}" using assms(1) by (auto simp: lock_part_def)
  show ?thesis
    using assms(1-3) c w unfolding lock_part_def rw_enter_def rw_admits_def by (cases "rw_mode l = 0") auto
qed

lemma part_wait:
  assumes "lock_part l own" and "\<not> rw_admits (rw_mode l) (lr_type r)" and "lr_type r \<in> {1, 2}"
  shows "lock_part (l\<lparr>rw_waiting := rw_waiting l @ [r]\<rparr>) own"
  using assms unfolding lock_part_def rw_admits_def by auto

lemma part_leave:
  assumes "lock_part l own" and "p \<in> dom own" and "rw_holders l \<noteq> 1"
  shows "lock_part (l\<lparr>rw_holders := rw_holders l - 1\<rparr>) (own(p := None)) \<and> 0 < rw_holders l"
proof -
  have c: "0 < card (dom own)" using assms by (auto simp: lock_part_def card_gt_0_iff)
  then have "int (card (dom own - {p})) = int (card (dom own)) - 1"
    using assms(2) by (simp add: card_Diff_singleton_if)
  with assms c show ?thesis unfolding lock_part_def by auto
qed

lemma rw_admit_prefix:
  assumes "\<forall>r \<in> set rs. lr_type r \<in> {1, 2}" and "rw_mode l = 0" and "rw_holders l = 0"
  shows "\<exists>gs rest m. rs = gs @ rest
     \<and> rw_admit rs l = (map grant_of gs, \<lparr>rw_mode = m, rw_holders = int (length gs), rw_waiting = rest\<rparr>)
     \<and> (\<forall>r \<in> set gs. lr_type r = m) \<and> m \<in> {0, 1, 2} \<and> (m = 2 \<longrightarrow> length gs = 1)
     \<and> (m \<noteq> 0 \<longrightarrow> gs \<noteq> []) \<and> (m = 0 \<longrightarrow> rs = [])"
proof (cases rs)
  case Nil
  with assms show ?thesis by (cases l) auto
next
  case (Cons r rs')
  have shared: "rw_admit us k = (map grant_of (takeWhile (\<lambda>r. lr_type r = 1) us),
      \<lparr>rw_mode = 1, rw_holders = rw_holders k + int (length (takeWhile (\<lambda>r. lr_type r = 1) us)),
       rw_waiting = dropWhile (\<lambda>r. lr_type r = 1) us\<rparr>)" if "rw_mode k = 1" for us and k :: rw_lock
    using that by (induction us arbitrary: k) (simp_all add: rw_admits_def rw_enter_def)
  show ?thesis
  proof (cases "lr_type r = 1")
    case True
    then show ?thesis
      using Cons assms shared [of "rw_enter 1 l" rs']
      by (intro exI [of _ "r # takeWhile (\<lambda>r. lr_type r = 1) rs'"] exI [of _ "dropWhile (\<lambda>r. lr_type r = 1) rs'"]
          exI [of _ 1]) (auto simp: rw_admits_def rw_enter_def dest: set_takeWhileD)
  next
    case False
    then have t: "lr_type r = 2" using Cons assms by simp
    have "rw_admit rs' (rw_enter 2 l) = ([], \<lparr>rw_mode = 2, rw_holders = 1, rw_waiting = rs'\<rparr>)"
      using assms by (cases rs') (simp_all add: rw_admits_def rw_enter_def)
    with t Cons assms show ?thesis
      by (intro exI [of _ "[r]"] exI [of _ rs'] exI [of _ 2]) (simp add: rw_admits_def)
  qed
qed

lemma request_from:
  assumes inv: "lock_inv N s" and req: "ls_req s p = Some (type, a)"
  shows "pending_of s p = (Some (type, a), [], []) \<and> p < N
     \<and> (ls_proc s p = Asking type a \<and> type \<in> {1, 2} \<and> owns s p = None
        \<or> (\<exists>t. ls_proc s p = Leaving t a \<and> type = 0 \<and> owns s p = Some t))"
proof -
  have pl: "placed s p" and N: "\<forall>p \<ge> N. ls_proc s p = Idle" using inv by (auto simp: lock_inv_def)
  show ?thesis
    using pl N req unfolding placed_def pending_of_def
    by (cases "ls_proc s p") (auto simp: owns_def not_less [symmetric])
qed

text \<open>There is room for a request as long as there are not more processes than places.\<close>

lemma ring_has_room:
  assumes inv: "lock_inv N s" and N: "N \<le> LOCK_Q_SIZE" and req: "ls_req s p = Some (type, a)" and type: "type \<noteq> 0"
  shows "lock_room (ls_win s)"
proof (cases "win_locked (ls_win s) = 0")
  case True
  then have "queued (ls_win s) = []" using inv by (simp add: lock_inv_def)
  then show ?thesis using inv by (simp add: lock_inv_def lock_room_iff LOCK_Q_SIZE_def)
next
  case False
  then have "0 < card (dom (owns s))" using inv by (auto simp: lock_inv_def)
  then obtain q where q: "q \<in> dom (owns s)" by (metis card.empty equals0I less_irrefl)
  from request_from [OF inv req] type have p: "p < N" "owns s p = None" "pending_of s p = (Some (type, a), [], [])"
    by auto
  then have pq: "p \<noteq> q" "q < N" using q owns_less [OF inv] by auto
  have "lr_src ` set (queued (ls_win s)) \<subseteq> {..<N} - {p, q}"
  proof
    fix x assume "x \<in> lr_src ` set (queued (ls_win s))"
    then obtain r where "r \<in> set (queued (ls_win s))" "x = lr_src r" by blast
    with queued_waits [OF inv this(1)] p(3) q show "x \<in> {..<N} - {p, q}" by auto
  qed
  then have "card (lr_src ` set (queued (ls_win s))) \<le> card ({..<N} - {p, q})" by (rule card_mono [rotated]) simp
  also have "\<dots> = N - 2" using p(1) pq by (simp add: card_Diff_subset)
  finally have "length (queued (ls_win s)) \<le> N - 2"
    using distinct_card [OF queued_distinct [OF inv]] by simp
  then have "Suc (length (queued (ls_win s))) < LOCK_Q_SIZE" using N p(1) pq by linarith
  then show ?thesis using inv by (simp add: lock_inv_def lock_room_iff)
qed

abbreviation served :: "lock_sys \<Rightarrow> nat \<Rightarrow> win \<Rightarrow> (int \<times> nat) list \<Rightarrow> lock_sys" where
  "served s p w gs \<equiv> s\<lparr>ls_win := w, ls_req := (ls_req s)(p := None), ls_put := ls_put s @ gs\<rparr>"

lemma grants_of_src: "filter (\<lambda>g. snd g = q) (map grant_of rs) = map grant_of (filter (\<lambda>r. lr_src r = q) rs)"
  by (induction rs) (simp_all add: grant_of_def)

text \<open>The replies of a served request: for the sender, and for a part of those who wait.\<close>

lemma served_placed:
  assumes inv: "lock_inv N s" and req: "ls_req s p = Some (type, a)"
    and q: "queued (ls_win s) = gs @ rest" "queued w = rest @ (if mine then [] else [\<lparr>lr_src = p, lr_type = type, lr_flag = a\<rparr>])"
    and type: "type = 0 \<Longrightarrow> mine"
  shows "placed (served s p w ((if mine then [(a, p)] else []) @ map grant_of gs)) x"
proof -
  let ?s = "served s p w ((if mine then [(a, p)] else []) @ map grant_of gs)"
  have pl: "placed s x" using inv by (simp add: lock_inv_def)
  note p = request_from [OF inv req]
  show ?thesis
  proof (cases "x = p")
    case True
    with p q have "filter (\<lambda>r. lr_src r = p) gs = []" "filter (\<lambda>r. lr_src r = p) rest = []"
      by (auto simp: pending_of_def)
    then have "pending_of ?s p = (None, if mine then [] else [\<lparr>lr_src = p, lr_type = type, lr_flag = a\<rparr>],
        if mine then [(a, p)] else [])"
      using p q(2) by (simp add: pending_of_def grants_of_src)
    with True p type pl show ?thesis by (auto simp: placed_def)
  next
    case False
    have f: "filter (\<lambda>r. lr_src r = x) (queued w) = filter (\<lambda>r. lr_src r = x) rest"
        "filter (\<lambda>g. snd g = x) (ls_put ?s) = filter (\<lambda>g. snd g = x) (ls_put s) @ map grant_of (filter (\<lambda>r. lr_src r = x) gs)"
      using False q(2) by (simp_all add: grants_of_src)
    show ?thesis
    proof (cases "filter (\<lambda>r. lr_src r = x) gs")
      case Nil
      with f False q(1) have "pending_of ?s x = pending_of s x" by (simp add: pending_of_def)
      then have "placed ?s x = placed s x" by (intro placed_cong) simp_all
      with pl show ?thesis by simp
    next
      case (Cons r rs)
      then have r: "r \<in> set (queued (ls_win s))" "lr_src r = x" using q(1) by (auto dest: filter_eq_ConsD)
      from queued_waits [OF inv r(1)] r(2) obtain t b where
        t: "ls_proc s x = Asking t b" "r = \<lparr>lr_src = x, lr_type = t, lr_flag = b\<rparr>" "pending_of s x = (None, [r], [])"
        by auto
      with Cons q(1) have "rs = []" "filter (\<lambda>r. lr_src r = x) rest = []" by (auto simp: pending_of_def)
      with t f Cons False have "pending_of ?s x = (None, [], [(b, x)])" by (simp add: pending_of_def grant_of_def)
      with t(1) pl show ?thesis by (simp add: placed_def)
    qed
  qed
qed

lemma served_owns:
  assumes inv: "lock_inv N s" and req: "ls_req s p = Some (type, a)"
    and q: "queued (ls_win s) = gs @ rest" and m: "\<forall>r \<in> set gs. lr_type r = m"
  shows "owns (served s p w ((if mine then [(a, p)] else []) @ map grant_of gs)) =
    (\<lambda>x. if x = p then (if mine \<and> type \<noteq> 0 then Some type else None)
         else if x \<in> lr_src ` set gs then Some m else owns s x)" (is "owns ?s = ?own")
proof
  fix x
  note p = request_from [OF inv req]
  show "owns ?s x = ?own x"
  proof (cases "x = p")
    case True
    from p q have "filter (\<lambda>r. lr_src r = p) gs = []" "filter (\<lambda>g. snd g = p) (ls_put s) = []"
      by (auto simp: pending_of_def)
    then have "filter (\<lambda>g. snd g = p) (ls_put ?s) = (if mine then [(a, p)] else [])"
      by (simp add: grants_of_src)
    with True p show ?thesis by (auto simp: owns_def)
  next
    case False
    have f: "filter (\<lambda>g. snd g = x) (ls_put ?s) = filter (\<lambda>g. snd g = x) (ls_put s) @ map grant_of (filter (\<lambda>r. lr_src r = x) gs)"
      using False by (simp add: grants_of_src)
    show ?thesis
    proof (cases "x \<in> lr_src ` set gs")
      case True
      then obtain r where r: "r \<in> set gs" "lr_src r = x" by blast
      with queued_waits [OF inv, of r] q obtain t b where
        "ls_proc s x = Asking t b" "r = \<lparr>lr_src = x, lr_type = t, lr_flag = b\<rparr>" by auto
      moreover have "filter (\<lambda>r. lr_src r = x) gs \<noteq> []" using r by (auto simp: filter_empty_conv)
      ultimately show ?thesis using False True f m r by (auto simp: owns_def)
    next
      case notin: False
      then have "filter (\<lambda>r. lr_src r = x) gs = []" by (auto simp: filter_empty_conv)
      with f False have "owns ?s x = owns s x" by (intro owns_cong) simp_all
      with False notin show ?thesis by simp
    qed
  qed
qed

lemma part_admit:
  assumes "lock_part l own" and "own p \<noteq> None" and "rw_holders l = 1" and "rw_waiting l = gs @ rest"
    and "distinct (map lr_src gs)" and "p \<notin> lr_src ` set gs"
    and "m \<in> {0, 1, 2}" "m = 2 \<longrightarrow> length gs = 1" "m \<noteq> 0 \<longrightarrow> gs \<noteq> []" "m = 0 \<longrightarrow> gs @ rest = []"
  shows "lock_part \<lparr>rw_mode = m, rw_holders = int (length gs), rw_waiting = rest\<rparr>
    (\<lambda>x. if x = p then None else if x \<in> lr_src ` set gs then Some m else own x)" (is "lock_part _ ?own")
proof -
  have "card (dom own) = 1" using assms(1,3) by (simp add: lock_part_def)
  then have "dom own = {p}" using assms(2) by (metis card_1_singletonE domI option.exhaust singletonD)
  then have "own x = None" if "x \<noteq> p" for x using that by (metis domIff singletonD)
  then have d: "dom ?own = lr_src ` set gs" using assms(6) by (auto split: if_splits)
  have c: "card (lr_src ` set gs) = length gs" using distinct_card [OF assms(5)] by simp
  show ?thesis
    using assms unfolding lock_part_def d c by auto
qed

lemma serve_inv:
  assumes inv: "lock_inv N s" and N: "N \<le> LOCK_Q_SIZE" and req: "ls_req s p = Some (type, a)"
  shows "\<exists>gs w. do_lock p type a (ls_win s) = Some (Inr (gs, w)) \<and> lock_inv N (served s p w gs)"
proof -
  let ?l = "rw_of (ls_win s)"
  note p = request_from [OF inv req]
  have lp: "win_ok (ls_win s)" "lock_part ?l (owns s)" "real_locks (ls_win s)" "\<forall>p \<ge> N. ls_proc s p = Idle"
    using inv lock_inv_parts [of N s] by (auto simp: lock_inv_def)
  have "type = 0 \<or> lock_room (ls_win s)" "type \<in> {0, 1, 2}" using ring_has_room [OF inv N req] p by auto
  from do_lock_implements [OF lp(1,3) this, of p a] obtain r where
    r: "do_lock p type a (ls_win s) = Some r" "map_sum id (\<lambda>(gs, w). (gs, rw_of w)) r = rw_request p type a ?l"
      "\<forall>gs w. r = Inr (gs, w) \<longrightarrow> win_ok w" by blast
  have goal: ?thesis if R: "rw_request p type a ?l = Inr ((if mine then [(a, p)] else []) @ map grant_of gs, l')"
    and part: "lock_part l' (\<lambda>x. if x = p then (if mine \<and> type \<noteq> 0 then Some type else None)
         else if x \<in> lr_src ` set gs then Some m else owns s x)"
    and q: "queued (ls_win s) = gs @ rest" "\<forall>r \<in> set gs. lr_type r = m"
      "rw_waiting l' = rest @ (if mine then [] else [\<lparr>lr_src = p, lr_type = type, lr_flag = a\<rparr>])"
    and mine: "type = 0 \<Longrightarrow> mine" for mine gs rest l' m
  proof -
    from R r(2) obtain w where w: "r = Inr ((if mine then [(a, p)] else []) @ map grant_of gs, w)" "rw_of w = l'"
      by (cases r) auto
    have "queued w = rest @ (if mine then [] else [\<lparr>lr_src = p, lr_type = type, lr_flag = a\<rparr>])"
      using q(3) w(2) by (auto simp: rw_of_def)
    note pl = served_placed [OF inv req q(1) this mine]
    have "lock_inv N (served s p w ((if mine then [(a, p)] else []) @ map grant_of gs))"
      unfolding lock_inv_parts served_owns [OF inv req q(1,2)]
      using r(3) w part pl lp(4) by (cases mine) auto
    with r(1) w(1) show ?thesis by blast
  qed
  show ?thesis
  proof (cases "type = 0")
    case False
    then have ask: "type \<in> {1, 2}" "owns s p = None" using p by auto
    show ?thesis
    proof (cases "rw_admits (rw_mode ?l) type")
      case True
      have "(\<lambda>x. if x = p then Some type else if x \<in> lr_src ` set ([] :: lock_req list) then Some 1 else owns s x)
          = (owns s)(p \<mapsto> type)" by (simp add: fun_eq_iff)
      with part_enter [OF lp(2) True ask] False True show ?thesis
        by (intro goal [where mine = True and gs = "[]" and rest = "queued (ls_win s)" and m = 1 and l' = "rw_enter type ?l"])
          (auto simp: rw_request_def rw_enter_def rw_of_def)
    next
      case nadm: False
      have "(\<lambda>x. if x = p then None else if x \<in> lr_src ` set ([] :: lock_req list) then Some 1 else owns s x)
          = owns s" using ask by (auto simp: fun_eq_iff)
      with part_wait [OF lp(2), of "\<lparr>lr_src = p, lr_type = type, lr_flag = a\<rparr>"] ask False nadm show ?thesis
        by (intro goal [where mine = False and gs = "[]" and rest = "queued (ls_win s)" and m = 1])
          (auto simp: rw_request_def rw_of_def)
    qed
  next
    case True
    then have own: "p \<in> dom (owns s)" using p by auto
    show ?thesis
    proof (cases "rw_holders ?l = 1")
      case False
      have "(\<lambda>x. if x = p then None else if x \<in> lr_src ` set ([] :: lock_req list) then Some 1 else owns s x)
          = (owns s)(p := None)" by (auto simp: fun_eq_iff)
      with part_leave [OF lp(2) own False] True False show ?thesis
        by (intro goal [where mine = True and gs = "[]" and rest = "queued (ls_win s)" and m = 1])
          (auto simp: rw_request_def rw_of_def)
    next
      case one: True
      let ?free = "?l\<lparr>rw_mode := 0, rw_holders := 0\<rparr>"
      have ty: "\<forall>r \<in> set (queued (ls_win s)). lr_type r \<in> {1, 2}" using lp(3) by (simp add: real_locks_def)
      have l0: "rw_mode ?free = 0" "rw_holders ?free = 0" by simp_all
      obtain gs rest m where g: "queued (ls_win s) = gs @ rest"
          "rw_admit (queued (ls_win s)) ?free
             = (map grant_of gs, \<lparr>rw_mode = m, rw_holders = int (length gs), rw_waiting = rest\<rparr>)"
          "\<forall>r \<in> set gs. lr_type r = m" "m \<in> {0, 1, 2}" "m = 2 \<longrightarrow> length gs = 1"
          "m \<noteq> 0 \<longrightarrow> gs \<noteq> []" "m = 0 \<longrightarrow> queued (ls_win s) = []"
        using rw_admit_prefix [OF ty l0] by (elim exE conjE)
      have m0: "m = 0 \<longrightarrow> gs @ rest = []" using g(1,7) by simp
      have d: "distinct (map lr_src gs)" using queued_distinct [OF inv] g(1) by simp
      have "filter (\<lambda>r. lr_src r = p) gs = []" using p g(1) by (auto simp: pending_of_def)
      then have np: "p \<notin> lr_src ` set gs" by (auto simp: filter_empty_conv)
      have wt: "rw_waiting ?l = gs @ rest" using g(1) by (simp add: rw_of_def)
      have "owns s p \<noteq> None" using own by auto
      from part_admit [OF lp(2) this one wt d np g(4-6) m0] True one g(1-3) wt show ?thesis
        by (intro goal [where mine = True and gs = gs and rest = rest and m = m
            and l' = "\<lparr>rw_mode = m, rw_holders = int (length gs), rw_waiting = rest\<rparr>"]) (simp_all add: rw_request_def)
    qed
  qed
qed

lemma lock_step_inv:
  assumes "lock_step N s s'" and inv: "lock_inv N s" and N: "N \<le> LOCK_Q_SIZE"
  shows "lock_inv N s'"
  using assms(1) unfolding lock_step_def
proof
  assume "user_step N s s'"
  then show ?thesis using inv by (rule user_step_inv)
next
  assume "system_step s s'"
  then show ?thesis
  proof cases
    case (serve p type a gs w)
    with serve_inv [OF inv N serve(2)] show ?thesis by auto
  next
    case (granted xs a p ys type)
    then show ?thesis using arrival_inv [OF inv granted(2)] by simp
  next
    case (left xs a p ys type)
    then show ?thesis using arrival_inv [OF inv left(2)] by simp
  qed
qed

lemma init_locks_inv: "lock_inv N init_locks"
proof -
  have "owns init_locks = Map.empty" by (rule ext) (simp add: owns_def init_locks_def)
  then show ?thesis
    by (simp add: lock_inv_def real_locks_def placed_def pending_of_def init_locks_def) (simp add: free_win_def)
qed

lemma reachable_inv:
  assumes "(lock_step N)\<^sup>*\<^sup>* init_locks s" and "N \<le> LOCK_Q_SIZE"
  shows "lock_inv N s"
  using assms(1) by induction (use init_locks_inv lock_step_inv assms(2) in blast)+

section \<open>What the locks guarantee\<close>


text \<open>A process inside \<open>MP_Win_lock\<close> or \<open>MP_Win_unlock\<close>.\<close>

definition waits :: "client \<Rightarrow> bool" where
  "waits c \<longleftrightarrow> (case c of Asking t a \<Rightarrow> True | Leaving t a \<Rightarrow> True | _ \<Rightarrow> False)"


theorem replies_arrive:
  assumes "(lock_step N)\<^sup>*\<^sup>* init_locks s" and "N \<le> LOCK_Q_SIZE"
  shows "(\<forall>p type a. ls_req s p = Some (type, a) \<longrightarrow> (\<exists>gs w. do_lock p type a (ls_win s) = Some (Inr (gs, w))))
     \<and> (\<forall>(a, p) \<in> set (ls_put s). \<exists>type. ls_proc s p = Asking type a \<or> ls_proc s p = Leaving type a)"
proof -
  have inv: "lock_inv N s" by (rule reachable_inv [OF assms])
  have "\<exists>type. ls_proc s p = Asking type a \<or> ls_proc s p = Leaving type a" if "(a, p) \<in> set (ls_put s)" for a p
    using arrival [OF inv] split_list [OF that] by blast
  with serve_inv [OF inv assms(2)] show ?thesis by blast
qed

text \<open>Process 0 holds the window exclusively, process 1 has asked for it.\<close>

definition one_holds :: lock_sys where
  "one_holds = \<lparr>ls_win = free_win\<lparr>win_locked := 2, win_count := 1\<rparr>, ls_proc = (\<lambda>_. Idle)(0 := Holding 2, 1 := Asking 2 72),
     ls_req = [1 \<mapsto> (2, 72)], ls_put = []\<rparr>"

lemma one_holds_reachable: "(lock_step 2)\<^sup>*\<^sup>* init_locks one_holds"
proof -
  let ?w = "free_win\<lparr>win_locked := 2, win_count := 1\<rparr>"
  define s1 where "s1 = init_locks\<lparr>ls_proc := (\<lambda>_. Idle)(0 := Asking 2 64), ls_req := [0 \<mapsto> (2, 64)]\<rparr>"
  define s2 where "s2 = s1\<lparr>ls_win := ?w, ls_req := Map.empty, ls_put := [(64, 0)]\<rparr>"
  define s3 where "s3 = s2\<lparr>ls_proc := (\<lambda>_. Idle)(0 := Holding 2), ls_put := []\<rparr>"
  have "user_step 2 init_locks s1"
    using ask [of 0 2 init_locks 2 64] by (simp add: s1_def init_locks_def)
  moreover have "system_step s1 s2"
  proof -
    have "do_lock 0 2 64 free_win = Some (Inr ([(64, 0)], ?w))"
      by (simp add: do_lock_def try_lock_def free_win_def)
    then show ?thesis
      using serve [of s1 0 2 64 "[(64, 0)]" ?w] by (simp add: s1_def s2_def init_locks_def)
  qed
  moreover have "system_step s2 s3"
    using granted [of s2 "[]" 64 0 "[]" 2] by (simp add: s1_def s2_def s3_def)
  moreover have "user_step 2 s3 one_holds"
    using ask [of 1 2 s3 2 72] by (simp add: s1_def s2_def s3_def one_holds_def init_locks_def)
  ultimately have "lock_step 2 init_locks s1" "lock_step 2 s1 s2" "lock_step 2 s2 s3" "lock_step 2 s3 one_holds"
    by (simp_all add: lock_step_def)
  then show ?thesis by (meson converse_rtranclp_into_rtranclp r_into_rtranclp)
qed



theorem replies_arrive_witness:
  "ls_req one_holds 1 = Some (2, 72) \<and> (\<exists>gs w. do_lock 1 2 72 (ls_win one_holds) = Some (Inr (gs, w)))"
proof -
  have "ls_req one_holds 1 = Some (2, 72)" by (simp add: one_holds_def)
  with replies_arrive [OF one_holds_reachable] show ?thesis by (simp add: LOCK_Q_SIZE_def)
qed

end
