(* ===== verification/TokenRing.thy ===== *)
theory TokenRing
  imports Prelude
begin

text \<open>
  The barrier \<open>tcp_sync\<close> of \<open>MP_Lite/tcp.c\<close>: a token goes twice around the ring of processes,
  over sockets of its own.  A \<open>send\<close> and a \<open>recv\<close> of the four bytes of the token are one step;
  the loops around them repeat calls that a signal interrupted.
\<close>

section \<open>The processes\<close>

datatype ring_act = Snd | Rcv

text \<open>The calls of one \<open>tcp_sync\<close> of process \<open>me\<close>.\<close>

definition tcp_sync_script :: "nat \<Rightarrow> ring_act list" where
  "tcp_sync_script me = (if me = 0 then [Snd] else []) @ [Rcv, Snd, Rcv] @ (if me \<noteq> 0 then [Snd] else [])"

text \<open>
  How many barriers a process has left; what it has still to do in the one it is in; and how many
  tokens are on the way from a process to the next one.
\<close>

record token_ring =
  tk_calls :: "nat \<Rightarrow> nat"
  tk_todo :: "nat \<Rightarrow> ring_act list option"
  tk_chan :: "nat \<Rightarrow> nat"

definition ring_prev :: "nat \<Rightarrow> nat \<Rightarrow> nat" where
  "ring_prev N p = (p + N - 1) mod N"

inductive ring_move :: "nat \<Rightarrow> token_ring \<Rightarrow> token_ring \<Rightarrow> bool" for N where
  send: "p < N \<Longrightarrow> tk_todo s p = Some (Snd # acts) \<Longrightarrow>
    ring_move N s (s\<lparr>tk_todo := (tk_todo s)(p \<mapsto> acts), tk_chan := (tk_chan s)(p := tk_chan s p + 1)\<rparr>)"
| recv: "p < N \<Longrightarrow> tk_todo s p = Some (Rcv # acts) \<Longrightarrow> 0 < tk_chan s (ring_prev N p) \<Longrightarrow>
    ring_move N s (s\<lparr>tk_todo := (tk_todo s)(p \<mapsto> acts),
      tk_chan := (tk_chan s)(ring_prev N p := tk_chan s (ring_prev N p) - 1)\<rparr>)"
| return: "p < N \<Longrightarrow> tk_todo s p = Some [] \<Longrightarrow>
    ring_move N s (s\<lparr>tk_todo := (tk_todo s)(p := None), tk_calls := (tk_calls s)(p := tk_calls s p + 1)\<rparr>)"

inductive ring_step :: "nat \<Rightarrow> token_ring \<Rightarrow> token_ring \<Rightarrow> bool" for N where
  call: "p < N \<Longrightarrow> tk_todo s p = None \<Longrightarrow>
    ring_step N s (s\<lparr>tk_todo := (tk_todo s)(p \<mapsto> tcp_sync_script p)\<rparr>)"
| move: "ring_move N s s' \<Longrightarrow> ring_step N s s'"

definition init_ring :: token_ring where
  "init_ring = \<lparr>tk_calls = (\<lambda>_. 0), tk_todo = (\<lambda>_. None), tk_chan = (\<lambda>_. 0)\<rparr>"

section \<open>Counting tokens\<close>

definition tokens_left :: "ring_act \<Rightarrow> token_ring \<Rightarrow> nat \<Rightarrow> nat" where
  "tokens_left a s p = (case tk_todo s p of None \<Rightarrow> 2 | Some acts \<Rightarrow> count_list acts a)"

text \<open>How many tokens a process has sent or received altogether.\<close>

definition tk_sent_by :: "token_ring \<Rightarrow> nat \<Rightarrow> nat" where
  "tk_sent_by s p = 2 * tk_calls s p + (2 - tokens_left Snd s p)"

definition got_by :: "token_ring \<Rightarrow> nat \<Rightarrow> nat" where
  "got_by s p = 2 * tk_calls s p + (2 - tokens_left Rcv s p)"

definition script_rest :: "nat \<Rightarrow> ring_act list \<Rightarrow> bool" where
  "script_rest p acts \<longleftrightarrow> acts \<in> (if p = 0 then {[Snd, Rcv, Snd, Rcv], [Rcv, Snd, Rcv], [Snd, Rcv], [Rcv], []}
     else {[Rcv, Snd, Rcv, Snd], [Snd, Rcv, Snd], [Rcv, Snd], [Snd], []})"

definition ring_inv :: "nat \<Rightarrow> token_ring \<Rightarrow> bool" where
  "ring_inv N s \<longleftrightarrow> (\<forall>p acts. tk_todo s p = Some acts \<longrightarrow> script_rest p acts)
     \<and> (\<forall>p < N. tk_chan s (ring_prev N p) + got_by s p = tk_sent_by s (ring_prev N p))"

lemma ring_prev_inj: "p < N \<Longrightarrow> q < N \<Longrightarrow> ring_prev N p = ring_prev N q \<Longrightarrow> p = q"
  by (auto simp: ring_prev_def mod_if split: if_splits)

lemma ring_prev_less: "p < N \<Longrightarrow> ring_prev N p < N"
  by (simp add: ring_prev_def)

lemma ring_prev_simps [simp]: "0 < N \<Longrightarrow> ring_prev N 0 = N - 1" "Suc p < N \<Longrightarrow> ring_prev N (Suc p) = p"
  by (simp_all add: ring_prev_def mod_if)

lemma script_rest_tl: "script_rest p (a # acts) \<Longrightarrow> script_rest p acts"
  by (auto simp: script_rest_def split: if_splits)

lemma script_counts:
  "script_rest p acts \<Longrightarrow> count_list acts Snd \<le> 2 \<and> count_list acts Rcv \<le> 2"
  by (auto simp: script_rest_def split: if_splits)

text \<open>One step of process \<open>p\<close> changes only its own counts.\<close>

lemma ring_move_counts:
  assumes "ring_move N s s'" and "ring_inv N s"
  shows "\<exists>p < N. (\<forall>q. q \<noteq> p \<longrightarrow> tk_todo s' q = tk_todo s q \<and> tk_sent_by s' q = tk_sent_by s q \<and> got_by s' q = got_by s q)
     \<and> ((tk_chan s' = (tk_chan s)(p := tk_chan s p + 1) \<and> tk_sent_by s' p = tk_sent_by s p + 1 \<and> got_by s' p = got_by s p)
        \<or> (0 < tk_chan s (ring_prev N p) \<and> tk_chan s' = (tk_chan s)(ring_prev N p := tk_chan s (ring_prev N p) - 1)
             \<and> tk_sent_by s' p = tk_sent_by s p \<and> got_by s' p = got_by s p + 1)
        \<or> (tk_chan s' = tk_chan s \<and> tk_sent_by s' p = tk_sent_by s p \<and> got_by s' p = got_by s p))
     \<and> (\<forall>acts. tk_todo s' p = Some acts \<longrightarrow> script_rest p acts)"
  using assms(1)
proof cases
  case (send p acts)
  then have sr: "script_rest p (Snd # acts)" using assms(2) by (simp add: ring_inv_def)
  from script_counts [OF this] send script_rest_tl [OF sr] show ?thesis
    by (intro exI [of _ p]) (auto simp: tk_sent_by_def got_by_def tokens_left_def)
next
  case (recv p acts)
  then have sr: "script_rest p (Rcv # acts)" using assms(2) by (simp add: ring_inv_def)
  from script_counts [OF this] recv script_rest_tl [OF sr] show ?thesis
    by (intro exI [of _ p]) (auto simp: tk_sent_by_def got_by_def tokens_left_def)
next
  case (return p)
  then show ?thesis by (intro exI [of _ p]) (auto simp: tk_sent_by_def got_by_def tokens_left_def)
qed

lemma ring_step_inv:
  assumes "ring_step N s s'" and inv: "ring_inv N s"
  shows "ring_inv N s'"
  using assms(1)
proof cases
  case (call p)
  then have "tk_sent_by s' q = tk_sent_by s q" "got_by s' q = got_by s q" for q
    by (auto simp: tk_sent_by_def got_by_def tokens_left_def tcp_sync_script_def)
  moreover have "script_rest p (tcp_sync_script p)" by (simp add: script_rest_def tcp_sync_script_def)
  ultimately show ?thesis using call inv by (auto simp: ring_inv_def)
next
  case move
  from ring_move_counts [OF this inv] obtain p where p: "p < N"
    "\<forall>q. q \<noteq> p \<longrightarrow> tk_todo s' q = tk_todo s q \<and> tk_sent_by s' q = tk_sent_by s q \<and> got_by s' q = got_by s q"
    "(tk_chan s' = (tk_chan s)(p := tk_chan s p + 1) \<and> tk_sent_by s' p = tk_sent_by s p + 1 \<and> got_by s' p = got_by s p)
        \<or> (0 < tk_chan s (ring_prev N p) \<and> tk_chan s' = (tk_chan s)(ring_prev N p := tk_chan s (ring_prev N p) - 1)
             \<and> tk_sent_by s' p = tk_sent_by s p \<and> got_by s' p = got_by s p + 1)
        \<or> (tk_chan s' = tk_chan s \<and> tk_sent_by s' p = tk_sent_by s p \<and> got_by s' p = got_by s p)"
    "\<forall>acts. tk_todo s' p = Some acts \<longrightarrow> script_rest p acts" by blast
  have "tk_chan s' (ring_prev N q) + got_by s' q = tk_sent_by s' (ring_prev N q)" if q: "q < N" for q
  proof -
    have i: "tk_chan s (ring_prev N q) + got_by s q = tk_sent_by s (ring_prev N q)" using inv q by (simp add: ring_inv_def)
    show ?thesis
      using p(3)
    proof (elim disjE conjE)
      assume "tk_chan s' = (tk_chan s)(p := tk_chan s p + 1)" "tk_sent_by s' p = tk_sent_by s p + 1" "got_by s' p = got_by s p"
      with i p(2) show ?thesis by (cases "ring_prev N q = p"; cases "q = p") auto
    next
      assume "0 < tk_chan s (ring_prev N p)" "tk_sent_by s' p = tk_sent_by s p" "got_by s' p = got_by s p + 1"
        "tk_chan s' = (tk_chan s)(ring_prev N p := tk_chan s (ring_prev N p) - 1)"
      with i p(2) ring_prev_inj [OF q p(1)] show ?thesis
        by (cases "q = p"; cases "ring_prev N q = p") auto
    next
      assume "tk_chan s' = tk_chan s" "tk_sent_by s' p = tk_sent_by s p" "got_by s' p = got_by s p"
      with i p(2) show ?thesis by (cases "q = p"; cases "ring_prev N q = p") auto
    qed
  qed
  moreover have "script_rest q acts" if "tk_todo s' q = Some acts" for q acts
    using that p(2,4) inv by (cases "q = p") (auto simp: ring_inv_def)
  ultimately show ?thesis by (simp add: ring_inv_def)
qed

lemma ring_reachable:
  "(ring_step N)\<^sup>*\<^sup>* init_ring s \<Longrightarrow> ring_inv N s"
proof (induction rule: rtranclp_induct)
  case base
  show ?case by (simp add: ring_inv_def init_ring_def tk_sent_by_def got_by_def tokens_left_def)
qed (rule ring_step_inv)

section \<open>The barrier\<close>

text \<open>A process has called the barrier number \<open>k\<close>, counted from 0; it has left it.\<close>

definition entered :: "token_ring \<Rightarrow> nat \<Rightarrow> nat \<Rightarrow> bool" where
  "entered s k p \<longleftrightarrow> k < tk_calls s p \<or> k = tk_calls s p \<and> tk_todo s p \<noteq> None"

definition passed :: "token_ring \<Rightarrow> nat \<Rightarrow> nat \<Rightarrow> bool" where
  "passed s k p \<longleftrightarrow> k < tk_calls s p"

lemma got_entered: "ring_inv N s \<Longrightarrow> 2 * k < got_by s p \<Longrightarrow> entered s k p"
  by (cases "tk_todo s p") (auto simp: entered_def got_by_def tokens_left_def)

lemma passed_got: "passed s k p \<Longrightarrow> 2 * k + 2 \<le> got_by s p"
  by (auto simp: passed_def got_by_def)

lemma todo_script: "ring_inv N s \<Longrightarrow> tk_todo s p = Some acts \<Longrightarrow> script_rest p acts"
  by (simp add: ring_inv_def)

lemma forwards:
  assumes "ring_inv N s" and "p \<noteq> 0"
  shows "tk_sent_by s p \<le> got_by s p \<and> got_by s p \<le> tk_sent_by s p + 1"
  using assms todo_script [OF assms(1), of p] by (cases "tk_todo s p")
    (auto simp: script_rest_def tk_sent_by_def got_by_def tokens_left_def)

lemma starts:
  assumes "ring_inv N s"
  shows "got_by s 0 \<le> tk_sent_by s 0 \<and> tk_sent_by s 0 \<le> got_by s 0 + 1"
  using todo_script [OF assms, of 0] by (cases "tk_todo s 0")
    (auto simp: script_rest_def tk_sent_by_def got_by_def tokens_left_def)

lemma got_le_sent:
  "ring_inv N s \<Longrightarrow> p < N \<Longrightarrow> got_by s p \<le> tk_sent_by s (ring_prev N p)"
  unfolding ring_inv_def by (metis le_add2)

lemma ring_decreases:
  assumes "ring_inv N s" and "q < N" and "p \<le> q" and "p \<noteq> 0"
  shows "got_by s q \<le> got_by s p"
  using assms(3,2)
proof (induction q rule: dec_induct)
  case (step n)
  have "got_by s (Suc n) \<le> tk_sent_by s n" using got_le_sent [OF assms(1) step.prems] step.prems by simp
  also have "\<dots> \<le> got_by s n" using forwards [OF assms(1), of n] step.hyps assms(4) by simp
  finally show ?case using step by simp
qed simp

lemma got_first: "ring_inv N s \<Longrightarrow> q < N \<Longrightarrow> q \<noteq> 0 \<Longrightarrow> got_by s q \<le> tk_sent_by s 0"
  using ring_decreases [of N s q 1] got_le_sent [of N s 1] by (cases "1 < N") auto

lemma ring_barrier:
  assumes inv: "ring_inv N s" and p: "p < N" "2 * k + 2 \<le> got_by s p" and q: "q < N" and N: "1 < N"
  shows "2 * k + 1 \<le> got_by s q"
proof -
  have "2 * k + 2 \<le> tk_sent_by s 0"
  proof (cases "p = 0")
    case True
    with p(2) starts [OF inv] show ?thesis by simp
  qed (use got_first [OF inv p(1)] p(2) in simp)
  then have zero: "2 * k + 1 \<le> got_by s 0" using starts [OF inv] by linarith
  then have "2 * k + 1 \<le> tk_sent_by s (N - 1)" using got_le_sent [OF inv, of 0] N by simp
  also have "\<dots> \<le> got_by s (N - 1)" using forwards [OF inv, of "N - 1"] N by simp
  finally have last: "2 * k + 1 \<le> got_by s (N - 1)" .
  show ?thesis
  proof (cases "q = 0")
    case False
    with ring_decreases [OF inv, of "N - 1" q] q N have "got_by s (N - 1) \<le> got_by s q" by simp
    with last show ?thesis by simp
  qed (use zero in simp)
qed

text \<open>
  C19.  No process leaves a barrier before every process has called it, however often the barrier is
  used and however the steps interleave.
\<close>

theorem tcp_sync_is_barrier:
  assumes "(ring_step N)\<^sup>*\<^sup>* init_ring s" and "1 < N" and "p < N" and "q < N" and "passed s k p"
  shows "entered s k q"
proof -
  have inv: "ring_inv N s" by (rule ring_reachable [OF assms(1)])
  have "2 * k + 1 \<le> got_by s q" by (rule ring_barrier [OF inv assms(3) passed_got [OF assms(5)] assms(4,2)])
  then show ?thesis by (intro got_entered [OF inv]) simp
qed

section \<open>Progress\<close>

text \<open>A process that cannot move waits for a token that has not been sent.\<close>

lemma stuck_waits:
  assumes inv: "ring_inv N s" and stuck: "\<And>s'. \<not> ring_move N s s'" and p: "p < N" "tk_todo s p \<noteq> None"
  shows "tk_chan s (ring_prev N p) = 0 \<and> (if p = 0 then tk_sent_by s p = got_by s p + 1 else tk_sent_by s p = got_by s p)"
proof -
  obtain acts where a: "tk_todo s p = Some acts" using p(2) by auto
  have "\<not> (\<exists>as. acts = Snd # as)" "acts \<noteq> []" using stuck send [OF p(1)] return [OF p(1)] a by blast+
  then obtain as where as: "acts = Rcv # as" by (cases acts) (auto, metis ring_act.exhaust)
  then have "tk_chan s (ring_prev N p) = 0" using stuck recv [OF p(1)] a by blast
  moreover have "script_rest p (Rcv # as)" using todo_script [OF inv a] as by simp
  ultimately show ?thesis using a as
    by (auto simp: script_rest_def tk_sent_by_def got_by_def tokens_left_def split: if_splits)
qed

lemma idle_counts: "tk_todo s p = None \<Longrightarrow> tk_sent_by s p = 2 * tk_calls s p \<and> got_by s p = 2 * tk_calls s p"
  by (simp add: tk_sent_by_def got_by_def tokens_left_def)

lemma inside_counts:
  assumes "ring_inv N s" and "tk_todo s p \<noteq> None"
  shows "2 * tk_calls s p \<le> got_by s p \<and> got_by s p \<le> 2 * tk_calls s p + 2"
  using assms by (auto simp: got_by_def)

text \<open>Behind a process all that are stuck have sent what it has sent.\<close>

lemma stuck_chain:
  assumes inv: "ring_inv N s" and stuck: "\<And>s'. \<not> ring_move N s s'" and "q \<le> r" and "r < N"
    and "\<forall>x. q < x \<and> x \<le> r \<longrightarrow> tk_todo s x \<noteq> None"
  shows "tk_sent_by s r = tk_sent_by s q"
  using assms(3-)
proof (induction r rule: dec_induct)
  case (step n)
  have "tk_todo s (Suc n) \<noteq> None" using step by simp
  from stuck_waits [OF inv stuck step.prems(1) this] have "tk_chan s n = 0" "tk_sent_by s (Suc n) = got_by s (Suc n)"
    using step.prems(1) by simp_all
  moreover have "tk_chan s n + got_by s (Suc n) = tk_sent_by s n"
    using inv step.prems(1) unfolding ring_inv_def by (metis ring_prev_simps(2))
  ultimately show ?case using step by simp
qed simp

lemma late_process:
  assumes inv: "ring_inv N s" and N: "1 < N" and stuck: "\<And>s'. \<not> ring_move N s s'"
    and p: "p < N" "tk_todo s p \<noteq> None"
  shows "\<exists>q < N. tk_todo s q = None \<and> tk_calls s q = tk_calls s p"
proof -
  have up: "got_by s p \<le> tk_sent_by s 0" using got_first [OF inv p(1)] starts [OF inv] by (cases "p = 0") auto
  have low: "tk_sent_by s (N - 1) \<le> got_by s p"
  proof (cases "p = 0")
    case True
    with stuck_waits [OF inv stuck p] inv N show ?thesis by (force simp: ring_inv_def)
  next
    case False
    with ring_decreases [OF inv, of "N - 1" p] p(1) forwards [OF inv, of "N - 1"] N show ?thesis by linarith
  qed
  have c: "got_by s p = 2 * tk_calls s p \<or> got_by s p = 2 * tk_calls s p + 1"
  proof -
    obtain acts where a: "tk_todo s p = Some acts" using p(2) by auto
    with stuck return [OF p(1)] have "acts \<noteq> []" by blast
    moreover have "\<not> (\<exists>as. acts = Snd # as)" using stuck send [OF p(1)] a by blast
    ultimately show ?thesis using a todo_script [OF inv a]
      by (auto simp: script_rest_def got_by_def tokens_left_def split: if_splits)
  qed
  show ?thesis
  proof (cases "tk_todo s 0")
    case None
    have "got_by s 0 \<le> tk_sent_by s (N - 1)" using got_le_sent [OF inv, of 0] N by simp
    with up low c idle_counts [OF None] have "tk_calls s 0 = tk_calls s p" by presburger
    with None N show ?thesis by (intro exI [of _ 0]) simp
  next
    case Some
    then have z: "tk_todo s 0 \<noteq> None" by simp
    from stuck_waits [OF inv stuck _ z] N have b: "tk_chan s (N - 1) = 0" "tk_sent_by s 0 = got_by s 0 + 1" by auto
    have e: "got_by s 0 = tk_sent_by s (N - 1)" using inv N b(1) by (force simp: ring_inv_def)
    define P where "P = {q. q < N \<and> tk_todo s q = None}"
    have "P \<noteq> {}"
    proof
      assume "P = {}"
      then have "tk_sent_by s (N - 1) = tk_sent_by s 0"
        using N by (intro stuck_chain [OF inv stuck]) (auto simp: P_def)
      with b e show False by simp
    qed
    moreover have fin: "finite P" by (simp add: P_def)
    ultimately have "Max P \<in> P" by (rule Max_in [rotated])
    then obtain m where mP: "m = Max P" and m: "m < N" "tk_todo s m = None" by (auto simp: P_def)
    have "tk_todo s x \<noteq> None" if "m < x" "x \<le> N - 1" for x
    proof
      assume "tk_todo s x = None"
      then have "x \<in> P" using that(2) N by (simp add: P_def)
      with Max_ge [OF fin this] that(1) mP show False by simp
    qed
    then have "tk_sent_by s (N - 1) = tk_sent_by s m"
      using m N by (intro stuck_chain [OF inv stuck]) auto
    with idle_counts [OF m(2)] have "tk_sent_by s (N - 1) = 2 * tk_calls s m" by simp
    with up low b(2) e have "2 * tk_calls s m \<le> got_by s p" "got_by s p \<le> 2 * tk_calls s m + 1" by simp_all
    with c have "tk_calls s m = tk_calls s p" by arith
    with m show ?thesis by blast
  qed
qed

text \<open>
  The barrier does not block for ever: if no process inside can move, each of them waits for a
  process that has not called this barrier yet.
\<close>

theorem tcp_sync_waits_for_late:
  assumes "(ring_step N)\<^sup>*\<^sup>* init_ring s" and "1 < N" and "p < N" and "tk_todo s p \<noteq> None"
  shows "(\<exists>s'. ring_move N s s') \<or> (\<exists>q < N. \<not> entered s (tk_calls s p) q)"
proof (cases "\<exists>s'. ring_move N s s'")
  case False
  then have "\<And>s'. \<not> ring_move N s s'" by blast
  from late_process [OF ring_reachable [OF assms(1)] assms(2) this assms(3,4)]
  show ?thesis by (auto simp: entered_def)
qed simp

text \<open>The next step of process \<open>p\<close>, if it can take one.\<close>

definition ring_next :: "nat \<Rightarrow> nat \<Rightarrow> token_ring \<Rightarrow> token_ring option" where
  "ring_next N p s = (if N \<le> p then None else case tk_todo s p of
     None \<Rightarrow> Some (s\<lparr>tk_todo := (tk_todo s)(p \<mapsto> tcp_sync_script p)\<rparr>)
   | Some [] \<Rightarrow> Some (s\<lparr>tk_todo := (tk_todo s)(p := None), tk_calls := (tk_calls s)(p := tk_calls s p + 1)\<rparr>)
   | Some (Snd # acts) \<Rightarrow>
       Some (s\<lparr>tk_todo := (tk_todo s)(p \<mapsto> acts), tk_chan := (tk_chan s)(p := tk_chan s p + 1)\<rparr>)
   | Some (Rcv # acts) \<Rightarrow> if tk_chan s (ring_prev N p) = 0 then None
       else Some (s\<lparr>tk_todo := (tk_todo s)(p \<mapsto> acts),
              tk_chan := (tk_chan s)(ring_prev N p := tk_chan s (ring_prev N p) - 1)\<rparr>))"

lemma ring_next_step: "ring_next N p s = Some s' \<Longrightarrow> ring_step N s s'"
  unfolding ring_next_def
  by (auto split: if_splits option.splits list.splits ring_act.splits
      intro: call move [OF send, simplified] move [OF recv, simplified] move [OF return, simplified])

fun ring_run :: "nat \<Rightarrow> nat list \<Rightarrow> token_ring \<Rightarrow> token_ring option" where
  "ring_run N [] s = Some s"
| "ring_run N (p # ps) s = Option.bind (ring_next N p s) (ring_run N ps)"

lemma ring_run_reachable: "ring_run N ps s = Some s' \<Longrightarrow> (ring_step N)\<^sup>*\<^sup>* s s'"
  by (induction ps arbitrary: s)
    (auto simp: Option.bind_eq_Some_conv dest!: ring_next_step intro: converse_rtranclp_into_rtranclp)

lemma prev_of_two: "ring_prev 2 0 = 1" "ring_prev 2 (Suc 0) = 0"
  by (simp_all add: ring_prev_def)

text \<open>Two processes: process 1 has left the first barrier, process 0 has not.\<close>

lemma one_left:
  "\<exists>s. (ring_step 2)\<^sup>*\<^sup>* init_ring s \<and> passed s 0 1 \<and> tk_todo s 0 \<noteq> None \<and> tk_calls s 0 = 0"
proof -
  have "\<exists>s. ring_run 2 [0, 0, 1, 1, 1, 0, 0, 1, 1, 1] init_ring = Some s
      \<and> passed s 0 1 \<and> tk_todo s 0 \<noteq> None \<and> tk_calls s 0 = 0"
    by (simp add: ring_next_def init_ring_def tcp_sync_script_def prev_of_two passed_def)
  then show ?thesis using ring_run_reachable by blast
qed

theorem tcp_sync_is_barrier_witness:
  "\<exists>s. (ring_step 2)\<^sup>*\<^sup>* init_ring s \<and> passed s 0 1 \<and> entered s 0 0"
proof -
  obtain s where s: "(ring_step 2)\<^sup>*\<^sup>* init_ring s" "passed s 0 1" using one_left by blast
  with tcp_sync_is_barrier [OF s(1), of 1 0 0] show ?thesis by auto
qed

theorem tcp_sync_waits_for_late_witness:
  "\<exists>s. (ring_step 2)\<^sup>*\<^sup>* init_ring s \<and> ((\<exists>s'. ring_move 2 s s') \<or> (\<exists>q < 2. \<not> entered s 0 q))"
proof -
  obtain s where s: "(ring_step 2)\<^sup>*\<^sup>* init_ring s" "tk_todo s 0 \<noteq> None" "tk_calls s 0 = 0" using one_left by blast
  with tcp_sync_waits_for_late [OF s(1), of 0] show ?thesis by auto
qed

end
