(* ===== verification/Fence.thy ===== *)
theory Fence
  imports Prelude
begin

text \<open>
  The one-sided synchronisation \<open>MP_Win_fence\<close> of \<open>MP_Lite/tcp.c\<close>: every process puts a flag into
  the memory of every other one and waits for theirs.  The puts, like those of \<open>MP_APut\<close>, go
  through one ordered channel for each pair of processes.
\<close>

section \<open>The system\<close>

text \<open>
  A process is outside, or it has still to put its flag to a list of processes, or to see the flags
  of a list of processes.  \<open>fn_flag j i f\<close> is \<open>procs[i][f]\<close> in the memory of \<open>j\<close>; \<open>fn_mem\<close> is the
  memory of the windows.  A put of data carries, for the statements below, how many fences its
  sender had left.
\<close>

datatype fence_pc = Outside | Putting "nat list" | Watching "nat list"

datatype os_put = Put_data nat nat int | Put_flag nat

record fence =
  fn_pc :: "nat \<Rightarrow> fence_pc"
  fn_calls :: "nat \<Rightarrow> nat"
  fn_index :: "nat \<Rightarrow> nat"
  fn_flag :: "nat \<Rightarrow> nat \<Rightarrow> nat \<Rightarrow> int"
  fn_mem :: "nat \<Rightarrow> nat \<Rightarrow> int"
  fn_chan :: "nat \<Rightarrow> nat \<Rightarrow> os_put list"

definition other_procs :: "nat \<Rightarrow> nat \<Rightarrow> nat list" where
  "other_procs N p = filter (\<lambda>i. i \<noteq> p) [0..<N]"

definition set_pc :: "nat \<Rightarrow> fence_pc \<Rightarrow> fence \<Rightarrow> fence" where
  "set_pc p c s = s\<lparr>fn_pc := (fn_pc s)(p := c)\<rparr>"

definition set_flag :: "nat \<Rightarrow> nat \<Rightarrow> nat \<Rightarrow> int \<Rightarrow> fence \<Rightarrow> fence" where
  "set_flag j i f v s = s\<lparr>fn_flag := (fn_flag s)(j := (fn_flag s j)(i := (fn_flag s j i)(f := v)))\<rparr>"

definition set_chan :: "nat \<Rightarrow> nat \<Rightarrow> os_put list \<Rightarrow> fence \<Rightarrow> fence" where
  "set_chan i j ms s = s\<lparr>fn_chan := (fn_chan s)(i := (fn_chan s i)(j := ms))\<rparr>"

text \<open>The steps inside a fence, and the arrival of puts.\<close>

inductive fence_move :: "nat \<Rightarrow> fence \<Rightarrow> fence \<Rightarrow> bool" for N where
  put_flag: "p < N \<Longrightarrow> fn_pc s p = Putting (i # is) \<Longrightarrow>
    fence_move N s (set_pc p (Putting is) (set_chan p i (fn_chan s p i @ [Put_flag (fn_index s p)]) s))"
| all_put: "p < N \<Longrightarrow> fn_pc s p = Putting [] \<Longrightarrow> fence_move N s (set_pc p (Watching (other_procs N p)) s)"
| seen: "p < N \<Longrightarrow> fn_pc s p = Watching (i # is) \<Longrightarrow> fn_flag s p i (fn_index s p) = int i \<Longrightarrow>
    fence_move N s (set_pc p (Watching is) (set_flag p i (fn_index s p) (-1) s))"
| flip: "p < N \<Longrightarrow> fn_pc s p = Watching [] \<Longrightarrow>
    fence_move N s (set_pc p Outside (s\<lparr>fn_index := (fn_index s)(p := 1 - fn_index s p),
      fn_calls := (fn_calls s)(p := fn_calls s p + 1)\<rparr>))"
| arrive_flag: "i < N \<Longrightarrow> j < N \<Longrightarrow> fn_chan s i j = Put_flag f # ms \<Longrightarrow>
    fence_move N s (set_flag j i f (int i) (set_chan i j ms s))"
| arrive_data: "i < N \<Longrightarrow> j < N \<Longrightarrow> fn_chan s i j = Put_data e a v # ms \<Longrightarrow>
    fence_move N s (set_chan i j ms (s\<lparr>fn_mem := (fn_mem s)(j := (fn_mem s j)(a := v))\<rparr>))"

text \<open>A process outside may put data and may call the fence.\<close>

inductive fence_step :: "nat \<Rightarrow> fence \<Rightarrow> fence \<Rightarrow> bool" for N where
  put: "p < N \<Longrightarrow> j < N \<Longrightarrow> p \<noteq> j \<Longrightarrow> fn_pc s p = Outside \<Longrightarrow>
    fence_step N s (set_chan p j (fn_chan s p j @ [Put_data (fn_calls s p) a v]) s)"
| call: "p < N \<Longrightarrow> fn_pc s p = Outside \<Longrightarrow> fence_step N s (set_pc p (Putting (other_procs N p)) s)"
| move: "fence_move N s s' \<Longrightarrow> fence_step N s s'"

definition init_fence :: fence where
  "init_fence = \<lparr>fn_pc = (\<lambda>_. Outside), fn_calls = (\<lambda>_. 0), fn_index = (\<lambda>_. 0),
     fn_flag = (\<lambda>_ _ _. -1), fn_mem = (\<lambda>_ _. 0), fn_chan = (\<lambda>_ _. [])\<rparr>"

section \<open>What a pair of processes has exchanged\<close>

text \<open>How many flags \<open>i\<close> has put to \<open>j\<close>, and how many flags of \<open>i\<close> the process \<open>j\<close> has seen.\<close>

definition flags_put :: "fence \<Rightarrow> nat \<Rightarrow> nat \<Rightarrow> nat" where
  "flags_put s i j = fn_calls s i + (case fn_pc s i of
     Outside \<Rightarrow> 0 | Putting is \<Rightarrow> if j \<in> set is then 0 else 1 | Watching is \<Rightarrow> 1)"

definition flags_seen :: "fence \<Rightarrow> nat \<Rightarrow> nat \<Rightarrow> nat" where
  "flags_seen s j i = fn_calls s j + (case fn_pc s j of
     Watching is \<Rightarrow> if i \<in> set is then 0 else 1 | _ \<Rightarrow> 0)"

text \<open>
  The puts on the way, after \<open>d\<close> flags have arrived and \<open>n\<close> have been put: the flags come with
  alternating index, and data between the flags of the fences around it.
\<close>

fun flags_ok :: "nat \<Rightarrow> nat \<Rightarrow> os_put list \<Rightarrow> bool" where
  "flags_ok d n [] \<longleftrightarrow> d = n"
| "flags_ok d n (Put_flag f # ms) \<longleftrightarrow> f = d mod 2 \<and> flags_ok (Suc d) n ms"
| "flags_ok d n (Put_data e a v # ms) \<longleftrightarrow> e = d \<and> flags_ok d n ms"

lemma flags_ok_le: "flags_ok d n ms \<Longrightarrow> d \<le> n"
  by (induction d n ms rule: flags_ok.induct) auto

lemma flags_ok_flag: "flags_ok d n ms \<Longrightarrow> flags_ok d (Suc n) (ms @ [Put_flag (n mod 2)])"
  by (induction d n ms rule: flags_ok.induct) auto

lemma flags_ok_data: "flags_ok d n ms \<Longrightarrow> flags_ok d n (ms @ [Put_data n a v])"
  by (induction d n ms rule: flags_ok.induct) auto

lemma flags_ok_epoch: "flags_ok d n ms \<Longrightarrow> Put_data e a v \<in> set ms \<Longrightarrow> d \<le> e"
  by (induction d n ms rule: flags_ok.induct) (auto dest: flags_ok_le)

definition pair_ok :: "nat \<Rightarrow> nat \<Rightarrow> os_put list \<Rightarrow> (nat \<Rightarrow> int) \<Rightarrow> nat \<Rightarrow> bool" where
  "pair_ok c n ms fl i \<longleftrightarrow> (\<exists>d \<ge> c. flags_ok d n ms
     \<and> (\<forall>f < 2. fl f = (if \<exists>m. c \<le> m \<and> m < d \<and> m mod 2 = f then int i else -1)))"

lemma pair_ok_le: "pair_ok c n ms fl i \<Longrightarrow> c \<le> n"
  by (auto simp: pair_ok_def dest: flags_ok_le)

lemma pair_ok_put_flag: "pair_ok c n ms fl i \<Longrightarrow> pair_ok c (Suc n) (ms @ [Put_flag (n mod 2)]) fl i"
  unfolding pair_ok_def using flags_ok_flag by blast

lemma pair_ok_put_data: "pair_ok c n ms fl i \<Longrightarrow> pair_ok c n (ms @ [Put_data n a v]) fl i"
  unfolding pair_ok_def using flags_ok_data by blast

lemma pair_ok_data: "pair_ok c n (Put_data e a v # ms) fl i \<Longrightarrow> pair_ok c n ms fl i"
  unfolding pair_ok_def by auto

lemma pair_ok_flag:
  assumes "pair_ok c n (Put_flag f # ms) fl i"
  shows "pair_ok c n ms (fl(f := int i)) i"
proof -
  from assms obtain d where d: "c \<le> d" "f = d mod 2" "flags_ok (Suc d) n ms"
    "\<forall>f < 2. fl f = (if \<exists>m. c \<le> m \<and> m < d \<and> m mod 2 = f then int i else -1)" by (auto simp: pair_ok_def)
  have "(fl(f := int i)) g = (if \<exists>m. c \<le> m \<and> m < Suc d \<and> m mod 2 = g then int i else -1)" if "g < 2" for g
    using that d by (auto simp: less_Suc_eq)
  with d show ?thesis unfolding pair_ok_def by (intro exI [of _ "Suc d"]) simp
qed

text \<open>A flag that is seen is the one of this fence, since the next but one has not been put.\<close>

lemma pair_ok_seen:
  assumes ok: "pair_ok c n ms fl i" and "fl (c mod 2) = int i" and n: "n \<le> c + 2"
  shows "pair_ok (Suc c) n ms (fl(c mod 2 := -1)) i"
proof -
  from ok obtain d where d: "c \<le> d" "flags_ok d n ms"
    "\<forall>f < 2. fl f = (if \<exists>m. c \<le> m \<and> m < d \<and> m mod 2 = f then int i else -1)" by (auto simp: pair_ok_def)
  have "\<exists>m. c \<le> m \<and> m < d \<and> m mod 2 = c mod 2" using d(3) assms(2) by (auto split: if_splits)
  then have cd: "c < d" by auto
  have dn: "d \<le> c + 2" using flags_ok_le [OF d(2)] n by simp
  have "(fl(c mod 2 := -1)) g = (if \<exists>m. Suc c \<le> m \<and> m < d \<and> m mod 2 = g then int i else -1)" if g: "g < 2" for g
  proof (cases "g = c mod 2")
    case True
    have "m = Suc c" if "Suc c \<le> m" "m < d" for m using that dn by linarith
    moreover have "Suc c mod 2 \<noteq> c mod 2" by presburger
    ultimately show ?thesis using True by auto
  next
    case False
    then have "(\<exists>m. c \<le> m \<and> m < d \<and> m mod 2 = g) \<longleftrightarrow> (\<exists>m. Suc c \<le> m \<and> m < d \<and> m mod 2 = g)"
      by (metis Suc_leD le_neq_implies_less less_eq_Suc_le)
    with False d(3) g show ?thesis by simp
  qed
  with cd d(2) show ?thesis unfolding pair_ok_def by (intro exI [of _ d]) simp
qed

section \<open>The invariant\<close>

definition todo_ok :: "nat \<Rightarrow> nat \<Rightarrow> fence_pc \<Rightarrow> bool" where
  "todo_ok N p c \<longleftrightarrow> (case c of Outside \<Rightarrow> True
     | Putting is \<Rightarrow> distinct is \<and> set is \<subseteq> {..<N} - {p}
     | Watching is \<Rightarrow> distinct is \<and> set is \<subseteq> {..<N} - {p})"

definition fence_inv :: "nat \<Rightarrow> fence \<Rightarrow> bool" where
  "fence_inv N s \<longleftrightarrow> (\<forall>p < N. todo_ok N p (fn_pc s p) \<and> fn_index s p = fn_calls s p mod 2)
     \<and> (\<forall>i < N. \<forall>j < N. i \<noteq> j \<longrightarrow>
          pair_ok (flags_seen s j i) (flags_put s i j) (fn_chan s i j) (fn_flag s j i) i)"

lemma fence_updates [simp]:
  "fn_pc (set_pc p c s) = (fn_pc s)(p := c)" "fn_calls (set_pc p c s) = fn_calls s" "fn_index (set_pc p c s) = fn_index s"
  "fn_flag (set_pc p c s) = fn_flag s" "fn_chan (set_pc p c s) = fn_chan s"
  "fn_pc (set_flag j i f v s) = fn_pc s" "fn_calls (set_flag j i f v s) = fn_calls s"
  "fn_index (set_flag j i f v s) = fn_index s" "fn_chan (set_flag j i f v s) = fn_chan s"
  "fn_flag (set_flag j i f v s) = (fn_flag s)(j := (fn_flag s j)(i := (fn_flag s j i)(f := v)))"
  "fn_pc (set_chan i j ms s) = fn_pc s" "fn_calls (set_chan i j ms s) = fn_calls s"
  "fn_index (set_chan i j ms s) = fn_index s" "fn_flag (set_chan i j ms s) = fn_flag s"
  "fn_chan (set_chan i j ms s) = (fn_chan s)(i := (fn_chan s i)(j := ms))"
  by (simp_all add: set_pc_def set_flag_def set_chan_def)

lemma set_other_procs [simp]: "set (other_procs N p) = {..<N} - {p}" "distinct (other_procs N p)"
  by (auto simp: other_procs_def)

lemma fence_bound:
  assumes "fence_inv N s" and "i < N" and "p < N" and "i \<noteq> p"
  shows "flags_put s i p \<le> flags_seen s p i + 2"
proof -
  have "pair_ok (flags_seen s i p) (flags_put s p i) (fn_chan s p i) (fn_flag s i p) p"
    using assms by (simp add: fence_inv_def)
  from pair_ok_le [OF this] have "flags_seen s i p \<le> flags_put s p i" .
  moreover have "flags_put s p i \<le> fn_calls s p + 1" "fn_calls s i \<le> flags_seen s i p"
    "flags_put s i p \<le> fn_calls s i + 1" "fn_calls s p \<le> flags_seen s p i"
    by (auto simp: flags_put_def flags_seen_def split: fence_pc.split)
  ultimately show ?thesis by linarith
qed

lemma fence_procs: "fence_inv N s \<Longrightarrow> p < N \<Longrightarrow> todo_ok N p (fn_pc s p) \<and> fn_index s p = fn_calls s p mod 2"
  by (simp add: fence_inv_def)

text \<open>Every step concerns at most one ordered pair of processes.\<close>

definition same_pair :: "fence \<Rightarrow> fence \<Rightarrow> nat \<Rightarrow> nat \<Rightarrow> bool" where
  "same_pair s s' i j \<longleftrightarrow> flags_seen s' j i = flags_seen s j i \<and> flags_put s' i j = flags_put s i j
     \<and> fn_chan s' i j = fn_chan s i j \<and> fn_flag s' j i = fn_flag s j i"

abbreviation pair_inv :: "fence \<Rightarrow> nat \<Rightarrow> nat \<Rightarrow> bool" where
  "pair_inv s i j \<equiv> pair_ok (flags_seen s j i) (flags_put s i j) (fn_chan s i j) (fn_flag s j i) i"

lemma fence_one:
  assumes "fence_inv N s" and "\<And>p. p < N \<Longrightarrow> todo_ok N p (fn_pc s' p) \<and> fn_index s' p = fn_calls s' p mod 2"
    and "\<And>a b. a \<noteq> b \<Longrightarrow> a < N \<Longrightarrow> b < N \<Longrightarrow> \<not> (a = i \<and> b = j) \<Longrightarrow> same_pair s s' a b"
    and "i \<noteq> j \<Longrightarrow> i < N \<Longrightarrow> j < N \<Longrightarrow> pair_inv s i j \<Longrightarrow> pair_inv s' i j"
  shows "fence_inv N s'"
proof -
  have "pair_inv s' a b" if "a < N" "b < N" "a \<noteq> b" for a b
  proof (cases "a = i \<and> b = j")
    case True
    with assms(1,4) that show ?thesis by (simp add: fence_inv_def)
  next
    case False
    with assms(3) [of a b] assms(1) that show ?thesis by (simp add: fence_inv_def same_pair_def)
  qed
  with assms(2) show ?thesis by (simp add: fence_inv_def)
qed

lemma fence_none:
  assumes "fence_inv N s" and "\<And>p. p < N \<Longrightarrow> todo_ok N p (fn_pc s' p) \<and> fn_index s' p = fn_calls s' p mod 2"
    and "\<And>a b. a \<noteq> b \<Longrightarrow> a < N \<Longrightarrow> b < N \<Longrightarrow> same_pair s s' a b"
  shows "fence_inv N s'"
  by (rule fence_one [OF assms(1,2), where i = 0 and j = 0]) (use assms(3) in auto)

lemma put_flag_inv:
  assumes inv: "fence_inv N s" and p: "p < N" "fn_pc s p = Putting (i # is)"
  shows "fence_inv N (set_pc p (Putting is) (set_chan p i (fn_chan s p i @ [Put_flag (fn_index s p)]) s))"
    (is "fence_inv N ?s")
proof -
  note P = fence_procs [OF inv]
  from P [OF p(1)] p have todo: "distinct (i # is)" "set (i # is) \<subseteq> {..<N} - {p}" "fn_index s p = fn_calls s p mod 2"
    by (simp_all add: todo_ok_def)
  have "flags_put ?s p i = Suc (flags_put s p i)" "fn_calls s p = flags_put s p i" "flags_seen ?s i p = flags_seen s i p"
    using p todo by (simp_all add: flags_put_def flags_seen_def)
  then have "pair_inv s p i \<Longrightarrow> pair_inv ?s p i" using pair_ok_put_flag todo(3) by simp
  moreover have "same_pair s ?s a b" if "\<not> (a = p \<and> b = i)" for a b
    using that p by (auto simp: same_pair_def flags_put_def flags_seen_def)
  ultimately show ?thesis
    by (intro fence_one [OF inv, of ?s p i]) (use P todo in \<open>auto simp: todo_ok_def\<close>)
qed

lemma seen_inv:
  assumes inv: "fence_inv N s" and p: "p < N" "fn_pc s p = Watching (i # is)"
    and f: "fn_flag s p i (fn_index s p) = int i"
  shows "fence_inv N (set_pc p (Watching is) (set_flag p i (fn_index s p) (-1) s))" (is "fence_inv N ?s")
proof -
  note P = fence_procs [OF inv]
  from P [OF p(1)] p have todo: "distinct (i # is)" "set (i # is) \<subseteq> {..<N} - {p}" "fn_index s p = fn_calls s p mod 2"
    by (simp_all add: todo_ok_def)
  have "flags_seen ?s p i = Suc (flags_seen s p i)" "fn_calls s p = flags_seen s p i" "flags_put ?s i p = flags_put s i p"
    using p todo by (simp_all add: flags_put_def flags_seen_def)
  then have "pair_inv s i p \<Longrightarrow> pair_inv ?s i p"
    using pair_ok_seen [of "flags_seen s p i"] fence_bound [OF inv, of i p] p(1) f todo by simp
  moreover have "same_pair s ?s a b" if "\<not> (a = i \<and> b = p)" for a b
    using that p by (auto simp: same_pair_def flags_put_def flags_seen_def)
  ultimately show ?thesis
    by (intro fence_one [OF inv, of ?s i p]) (use P todo in \<open>auto simp: todo_ok_def\<close>)
qed

lemma arrive_inv:
  assumes inv: "fence_inv N s" and same: "fn_pc s' = fn_pc s" "fn_calls s' = fn_calls s" "fn_index s' = fn_index s"
    and one: "\<And>a b. \<not> (a = i \<and> b = j) \<Longrightarrow> fn_chan s' a b = fn_chan s a b \<and> fn_flag s' b a = fn_flag s b a"
    and ok: "\<And>c n. pair_ok c n (fn_chan s i j) (fn_flag s j i) i \<Longrightarrow> pair_ok c n (fn_chan s' i j) (fn_flag s' j i) i"
  shows "fence_inv N s'"
proof (rule fence_one [OF inv, of _ i j])
  have c: "flags_seen s' b a = flags_seen s b a" "flags_put s' a b = flags_put s a b" for a b
    using same by (simp_all add: flags_seen_def flags_put_def)
  show "same_pair s s' a b" if "\<not> (a = i \<and> b = j)" for a b using that one c by (simp add: same_pair_def)
  show "pair_inv s i j \<Longrightarrow> pair_inv s' i j" using ok c by simp
qed (use fence_procs [OF inv] same in auto)

lemma fence_move_inv:
  assumes "fence_move N s s'" and inv: "fence_inv N s"
  shows "fence_inv N s'"
  using assms(1)
proof cases
  case (put_flag p i "is")
  then show ?thesis using put_flag_inv [OF inv] by simp
next
  case (all_put p)
  show ?thesis
    by (rule fence_none [OF inv])
      (use all_put fence_procs [OF inv] in \<open>auto simp: todo_ok_def same_pair_def flags_seen_def flags_put_def\<close>)
next
  case (seen p i "is")
  then show ?thesis using seen_inv [OF inv] by simp
next
  case (flip p)
  have "fn_index s p = fn_calls s p mod 2" using fence_procs [OF inv flip(2)] by simp
  then have "1 - fn_index s p = Suc (fn_calls s p) mod 2" by presburger
  then show ?thesis
    by (intro fence_none [OF inv])
      (use flip fence_procs [OF inv] in \<open>auto simp: todo_ok_def same_pair_def flags_seen_def flags_put_def\<close>)
next
  case (arrive_flag i j f ms)
  then show ?thesis by (intro arrive_inv [OF inv, where i = i and j = j]) (auto simp: pair_ok_flag)
next
  case (arrive_data i j e x v ms)
  then show ?thesis by (intro arrive_inv [OF inv, where i = i and j = j]) (auto dest: pair_ok_data)
qed

lemma fence_step_inv:
  assumes "fence_step N s s'" and inv: "fence_inv N s"
  shows "fence_inv N s'"
  using assms(1)
proof cases
  case (put p j x v)
  have "pair_inv s p j \<Longrightarrow> pair_inv s' p j"
    using put pair_ok_put_data [of _ "flags_put s p j"] by (simp add: flags_put_def flags_seen_def)
  then show ?thesis
    by (intro fence_one [OF inv, of _ p j])
      (use put fence_procs [OF inv] in \<open>auto simp: same_pair_def flags_seen_def flags_put_def\<close>)
next
  case (call p)
  show ?thesis
    by (rule fence_none [OF inv])
      (use call fence_procs [OF inv] in \<open>auto simp: todo_ok_def same_pair_def flags_seen_def flags_put_def\<close>)
next
  case move
  then show ?thesis using inv by (rule fence_move_inv)
qed

lemma fence_reachable: "(fence_step N)\<^sup>*\<^sup>* init_fence s \<Longrightarrow> fence_inv N s"
proof (induction rule: rtranclp_induct)
  case base
  show ?case
    by (auto simp: fence_inv_def init_fence_def todo_ok_def flags_seen_def flags_put_def pair_ok_def)
qed (rule fence_step_inv)

section \<open>The fence\<close>

definition fence_called :: "fence \<Rightarrow> nat \<Rightarrow> nat \<Rightarrow> bool" where
  "fence_called s k p \<longleftrightarrow> k < fn_calls s p \<or> k = fn_calls s p \<and> fn_pc s p \<noteq> Outside"

lemma fence_pair: "fence_inv N s \<Longrightarrow> i < N \<Longrightarrow> j < N \<Longrightarrow> i \<noteq> j \<Longrightarrow> pair_inv s i j"
  by (simp add: fence_inv_def)

lemma calls_seen: "fn_calls s p \<le> flags_seen s p q"
  by (simp add: flags_seen_def)

lemma put_called: "k < flags_put s q p \<Longrightarrow> fence_called s k q"
  by (auto simp: fence_called_def flags_put_def split: fence_pc.splits if_splits)

lemma fence_waits:
  assumes "fence_inv N s" and "p < N" and "q < N" and "k < fn_calls s p"
  shows "fence_called s k q"
proof (cases "q = p")
  case False
  from pair_ok_le [OF fence_pair [OF assms(1,3,2) this]] calls_seen [of s p q] assms(4)
  have "k < flags_put s q p" by linarith
  then show ?thesis by (rule put_called)
qed (use assms in \<open>simp add: fence_called_def\<close>)

text \<open>
  C17.  A process leaves its fence number \<open>k\<close> only after every process has called it; and then every put
  that a process made to it before its own fence number \<open>k\<close> has arrived.
\<close>

theorem fence_is_barrier:
  assumes "(fence_step N)\<^sup>*\<^sup>* init_fence s" and "p < N" and "q < N" and "k < fn_calls s p"
  shows "fence_called s k q \<and> (\<forall>e a v. Put_data e a v \<in> set (fn_chan s q p) \<longrightarrow> p \<noteq> q \<longrightarrow> k < e)"
proof -
  have inv: "fence_inv N s" by (rule fence_reachable [OF assms(1)])
  have "k < e" if d: "Put_data e a v \<in> set (fn_chan s q p)" "p \<noteq> q" for e a v
  proof -
    from fence_pair [OF inv assms(3,2)] d(2) obtain c where
      "flags_seen s p q \<le> c" "flags_ok c (flags_put s q p) (fn_chan s q p)" by (auto simp: pair_ok_def)
    with flags_ok_epoch [OF this(2) d(1)] calls_seen [of s p q] assms(4) show ?thesis by linarith
  qed
  with fence_waits [OF inv assms(2-4)] show ?thesis by blast
qed

section \<open>Progress\<close>

lemma stuck_channels:
  assumes stuck: "\<And>s'. \<not> fence_move N s s'" and "i < N" "j < N"
  shows "fn_chan s i j = []"
proof (cases "fn_chan s i j")
  case (Cons m ms)
  with stuck arrive_flag [OF assms(2,3)] arrive_data [OF assms(2,3)] show ?thesis
    by (cases m) blast+
qed

lemma stuck_not_putting:
  assumes stuck: "\<And>s'. \<not> fence_move N s s'" and p: "p < N"
  shows "fn_pc s p \<noteq> Putting js"
proof (cases js)
  case Nil
  with stuck all_put [OF p] show ?thesis by blast
next
  case (Cons i ks)
  with stuck put_flag [OF p] show ?thesis by blast
qed

lemma stuck_fence:
  assumes inv: "fence_inv N s" and stuck: "\<And>s'. \<not> fence_move N s s'" and p: "p < N" "fn_pc s p \<noteq> Outside"
  shows "\<exists>i < N. i \<noteq> p \<and> flags_put s i p = fn_calls s p"
proof -
  obtain "is" where w: "fn_pc s p = Watching is" 
    using p(2) stuck_not_putting [OF stuck p(1)] by (cases "fn_pc s p") auto
  with stuck flip [OF p(1)] obtain i js where "is": "is = i # js" by (cases "is") auto
  have t: "todo_ok N p (fn_pc s p)" "fn_index s p = fn_calls s p mod 2" using fence_procs [OF inv p(1)] by simp_all
  with w "is" have i: "i < N" "i \<noteq> p" by (auto simp: todo_ok_def)
  have nf: "fn_flag s p i (fn_calls s p mod 2) \<noteq> int i"
    using stuck seen [OF p(1), of s i js] w "is" t(2) by auto
  have c: "flags_seen s p i = fn_calls s p" using w "is" by (simp add: flags_seen_def)
  from fence_pair [OF inv i(1) p(1) i(2)] obtain d where d: "fn_calls s p \<le> d" "flags_ok d (flags_put s i p) (fn_chan s i p)"
      "\<forall>f < 2. fn_flag s p i f = (if \<exists>m. fn_calls s p \<le> m \<and> m < d \<and> m mod 2 = f then int i else -1)"
    unfolding pair_ok_def c by blast
  have "d = flags_put s i p" using d(2) stuck_channels [OF stuck i(1) p(1)] by simp
  moreover have "\<not> fn_calls s p < d"
  proof
    assume "fn_calls s p < d"
    then have "\<exists>m. fn_calls s p \<le> m \<and> m < d \<and> m mod 2 = fn_calls s p mod 2" by blast
    moreover have "fn_calls s p mod 2 < 2" by simp
    ultimately show False using d(3) nf by metis
  qed
  ultimately show ?thesis using d(1) i by (intro exI [of _ i]) simp
qed

lemma fence_late:
  assumes inv: "fence_inv N s" and stuck: "\<And>s'. \<not> fence_move N s s'"
  shows "p < N \<Longrightarrow> fn_pc s p \<noteq> Outside \<Longrightarrow> \<exists>q < N. fn_pc s q = Outside \<and> fn_calls s q \<le> fn_calls s p"
proof (induction "fn_calls s p" arbitrary: p rule: less_induct)
  case less
  from stuck_fence [OF inv stuck less.prems] obtain i where i: "i < N" "flags_put s i p = fn_calls s p" by blast
  show ?case
  proof (cases "fn_pc s i = Outside")
    case True
    with i show ?thesis by (auto simp: flags_put_def)
  next
    case False
    with i(2) stuck_not_putting [OF stuck i(1)] have "fn_calls s i < fn_calls s p" by (auto simp: flags_put_def split: fence_pc.splits)
    with less.hyps [OF this i(1) False] show ?thesis by auto
  qed
qed

text \<open>
  C18.  The fence does not block for ever: if nothing can move, a process inside waits for one that has
  not called this fence.
\<close>

theorem fence_waits_for_late:
  assumes "(fence_step N)\<^sup>*\<^sup>* init_fence s" and "p < N" and "fn_pc s p \<noteq> Outside"
  shows "(\<exists>s'. fence_move N s s') \<or> (\<exists>q < N. \<not> fence_called s (fn_calls s p) q)"
proof (cases "\<exists>s'. fence_move N s s'")
  case False
  then have "\<And>s'. \<not> fence_move N s s'" by blast
  from fence_late [OF fence_reachable [OF assms(1)] this assms(2,3)]
  show ?thesis by (auto simp: fence_called_def)
qed simp

text \<open>Schedules, for examples.\<close>

datatype fence_event = Ev_put nat nat nat int | Ev_call nat | Ev_go nat | Ev_arrive nat nat

definition fence_next :: "nat \<Rightarrow> fence_event \<Rightarrow> fence \<Rightarrow> fence option" where
  "fence_next N e s = (case e of
     Ev_put p j a v \<Rightarrow> if p < N \<and> j < N \<and> p \<noteq> j \<and> fn_pc s p = Outside
       then Some (set_chan p j (fn_chan s p j @ [Put_data (fn_calls s p) a v]) s) else None
   | Ev_call p \<Rightarrow> if p < N \<and> fn_pc s p = Outside then Some (set_pc p (Putting (other_procs N p)) s) else None
   | Ev_go p \<Rightarrow> if N \<le> p then None else (case fn_pc s p of
       Putting (i # js) \<Rightarrow>
         Some (set_pc p (Putting js) (set_chan p i (fn_chan s p i @ [Put_flag (fn_index s p)]) s))
     | Putting [] \<Rightarrow> Some (set_pc p (Watching (other_procs N p)) s)
     | Watching (i # js) \<Rightarrow> if fn_flag s p i (fn_index s p) = int i
         then Some (set_pc p (Watching js) (set_flag p i (fn_index s p) (-1) s)) else None
     | Watching [] \<Rightarrow> Some (set_pc p Outside (s\<lparr>fn_index := (fn_index s)(p := 1 - fn_index s p),
         fn_calls := (fn_calls s)(p := fn_calls s p + 1)\<rparr>))
     | Outside \<Rightarrow> None)
   | Ev_arrive i j \<Rightarrow> if N \<le> i \<or> N \<le> j then None else (case fn_chan s i j of
       [] \<Rightarrow> None
     | Put_flag f # ms \<Rightarrow> Some (set_flag j i f (int i) (set_chan i j ms s))
     | Put_data e a v # ms \<Rightarrow> Some (set_chan i j ms (s\<lparr>fn_mem := (fn_mem s)(j := (fn_mem s j)(a := v))\<rparr>))))"

lemma fence_next_step: "fence_next N e s = Some s' \<Longrightarrow> fence_step N s s'"
  unfolding fence_next_def
  by (auto split: if_splits fence_event.splits fence_pc.splits list.splits os_put.splits
      intro: put call fence_move.intros [THEN move, simplified])

fun fence_run :: "nat \<Rightarrow> fence_event list \<Rightarrow> fence \<Rightarrow> fence option" where
  "fence_run N [] s = Some s"
| "fence_run N (e # es) s = Option.bind (fence_next N e s) (fence_run N es)"

lemma fence_run_reachable: "fence_run N es s = Some s' \<Longrightarrow> (fence_step N)\<^sup>*\<^sup>* s s'"
  by (induction es arbitrary: s)
    (auto simp: Option.bind_eq_Some_conv dest!: fence_next_step intro: converse_rtranclp_into_rtranclp)

text \<open>Process 1 puts data and calls the fence; process 0 leaves it, and process 1 has not.\<close>

lemma one_fenced:
  "\<exists>s. (fence_step 2)\<^sup>*\<^sup>* init_fence s \<and> fn_calls s 0 = 1 \<and> fn_pc s 1 \<noteq> Outside \<and> fn_calls s 1 = 0 \<and> fn_mem s 0 4 = 9"
proof -
  have "\<exists>s. fence_run 2 [Ev_put 1 0 4 9, Ev_call 0, Ev_call 1, Ev_go 0, Ev_go 0, Ev_go 1, Ev_arrive 1 0, Ev_arrive 1 0,
         Ev_go 0, Ev_go 0] init_fence = Some s
      \<and> fn_calls s 0 = 1 \<and> fn_pc s 1 \<noteq> Outside \<and> fn_calls s 1 = 0 \<and> fn_mem s 0 4 = 9"
    by (simp add: fence_next_def init_fence_def other_procs_def numeral_2_eq_2) (simp add: set_pc_def set_flag_def set_chan_def)
  then show ?thesis using fence_run_reachable by blast
qed

theorem fence_is_barrier_witness:
  "\<exists>s. (fence_step 2)\<^sup>*\<^sup>* init_fence s \<and> fn_calls s 0 = 1 \<and> fence_called s 0 1"
proof -
  obtain s where s: "(fence_step 2)\<^sup>*\<^sup>* init_fence s" "fn_calls s 0 = 1" using one_fenced by blast
  with fence_is_barrier [OF s(1), of 0 1 0] show ?thesis by auto
qed

theorem fence_waits_for_late_witness:
  "\<exists>s. (fence_step 2)\<^sup>*\<^sup>* init_fence s \<and> fn_pc s 1 \<noteq> Outside
     \<and> ((\<exists>s'. fence_move 2 s s') \<or> (\<exists>q < 2. \<not> fence_called s 0 q))"
proof -
  obtain s where s: "(fence_step 2)\<^sup>*\<^sup>* init_fence s" "fn_pc s 1 \<noteq> Outside" "fn_calls s 1 = 0" using one_fenced by blast
  with fence_waits_for_late [OF s(1), of 1] show ?thesis by auto
qed

end
