(* ===== verification/LinkedQ.thy ===== *)
theory LinkedQ
  imports Prelude
begin

text \<open>
  The linked queues of MP_Lite's one-sided operations, \<open>MP_Lite/tcp.c\<close>: the message identifiers
  that belong to a window.  The nodes are in an explicit heap, because the queue keeps a pointer
  to its last node, and what happens depends on where it points.
\<close>

section \<open>The heap and the queue\<close>

text \<open>
  A node that has not been allocated, or has been freed, is \<open>None\<close> in \<open>lq_cell\<close>; using one is
  undefined.  \<open>lq_fresh\<close> is the next address that \<open>malloc\<close> returns, which does not fail and does
  not use an address again.
\<close>

record 'a lq_node =
  nd_val :: 'a
  nd_next :: "nat option"

record 'a linked_q =
  lq_cell :: "nat \<rightharpoonup> 'a lq_node"
  lq_head :: "nat option"
  lq_tail :: "nat option"
  lq_fresh :: nat

definition lq_append :: "'a \<Rightarrow> 'a linked_q \<Rightarrow> 'a linked_q outcome" where
  "lq_append x q =
     (let new = lq_fresh q;
          cells = (lq_cell q)(new \<mapsto> \<lparr>nd_val = x, nd_next = None\<rparr>);
          q1 = q\<lparr>lq_fresh := Suc new\<rparr>
      in case lq_head q of
           None \<Rightarrow> Inr (q1\<lparr>lq_cell := cells, lq_head := Some new, lq_tail := Some new\<rparr>)
         | Some h \<Rightarrow> (case lq_tail q of
             None \<Rightarrow> Inl NullDeref
           | Some t \<Rightarrow> (case lq_cell q t of
               None \<Rightarrow> Inl OutOfBounds
             | Some c \<Rightarrow> Inr (q1\<lparr>lq_cell := cells(t \<mapsto> c\<lparr>nd_next := Some new\<rparr>), lq_tail := Some new\<rparr>))))"

text \<open>
  The loop that looks for a node from \<open>cur\<close> on, with the node before it; \<open>None\<close> is a loop without
  end, which a cycle would cause.
\<close>

partial_function (option) lq_find ::
  "('a \<Rightarrow> bool) \<Rightarrow> ('a linked_q) \<Rightarrow> nat option \<Rightarrow> nat option \<Rightarrow> (nat option \<times> nat) option outcome option" where
  "lq_find P q prev cur = (case cur of
     None \<Rightarrow> Some (Inr None)
   | Some a \<Rightarrow> (case lq_cell q a of
       None \<Rightarrow> Some (Inl OutOfBounds)
     | Some c \<Rightarrow> if P (nd_val c) then Some (Inr (Some (prev, a))) else lq_find P q (Some a) (nd_next c)))"

definition lq_unlink :: "nat option \<Rightarrow> nat \<Rightarrow> 'a linked_q \<Rightarrow> 'a linked_q" where
  "lq_unlink prev a q =
     (let nx = nd_next (the (lq_cell q a));
          q1 = (case prev of
            None \<Rightarrow> q\<lparr>lq_head := nx\<rparr>
          | Some p \<Rightarrow> q\<lparr>lq_cell := (lq_cell q)(p \<mapsto> (the (lq_cell q p))\<lparr>nd_next := nx\<rparr>)\<rparr>)
      in q1\<lparr>lq_cell := (lq_cell q1)(a := None)\<rparr>)"

section \<open>The operations of \<open>tcp.c\<close>\<close>

definition add_msgid :: "nat \<Rightarrow> nat linked_q \<Rightarrow> nat linked_q outcome" where
  "add_msgid mid q = lq_append mid q"

definition rem_msgid :: "nat \<Rightarrow> nat linked_q \<Rightarrow> nat linked_q outcome option" where
  "rem_msgid mid q = (case lq_find (\<lambda>m. m = mid) q None (lq_head q) of
     None \<Rightarrow> None
   | Some (Inl e) \<Rightarrow> Some (Inl e)
   | Some (Inr None) \<Rightarrow> Some (Inl (ErrorX ''Error in rem_msgid(): Coulnd't find mid''))
   | Some (Inr (Some (prev, a))) \<Rightarrow> Some (Inr (lq_unlink prev a q)))"

text \<open>\<open>None\<close> stands for \<open>-1\<close>.\<close>

definition show_head_msgid :: "nat linked_q \<Rightarrow> nat option outcome" where
  "show_head_msgid q = (case lq_head q of
     None \<Rightarrow> Inr None
   | Some a \<Rightarrow> (case lq_cell q a of None \<Rightarrow> Inl OutOfBounds | Some c \<Rightarrow> Inr (Some (nd_val c))))"

definition pop_head_msgid :: "nat linked_q \<Rightarrow> (nat option \<times> nat linked_q) outcome" where
  "pop_head_msgid q = (case lq_head q of
     None \<Rightarrow> Inr (None, q)
   | Some a \<Rightarrow> (case lq_cell q a of
       None \<Rightarrow> Inl OutOfBounds
     | Some c \<Rightarrow> Inr (Some (nd_val c), q\<lparr>lq_head := nd_next c, lq_cell := (lq_cell q)(a := None)\<rparr>)))"

text \<open>
  The first loop of \<open>MP_Win_fence\<close>, \<open>MP_Win_complete\<close> and \<open>MP_Win_unlock\<close>: wait for the first
  message of the window until there is none.  \<open>MP_Wait\<close> removes the message it has waited for.  The
  result lists the messages in the order of the waits.
\<close>

partial_function (option) wait_all :: "nat linked_q \<Rightarrow> (nat list \<times> nat linked_q) outcome option" where
  "wait_all q = (case show_head_msgid q of
     Inl e \<Rightarrow> Some (Inl e)
   | Inr None \<Rightarrow> Some (Inr ([], q))
   | Inr (Some mid) \<Rightarrow> (case rem_msgid mid q of
       None \<Rightarrow> None
     | Some (Inl e) \<Rightarrow> Some (Inl e)
     | Some (Inr q') \<Rightarrow>
         Option.bind (wait_all q') (\<lambda>r. Some (map_sum id (\<lambda>(ms, q''). (mid # ms, q'')) r))))"

definition empty_q :: "'a linked_q" where
  "empty_q = \<lparr>lq_cell = Map.empty, lq_head = None, lq_tail = None, lq_fresh = 1\<rparr>"

section \<open>Lists in the heap\<close>

fun lq_chain :: "(nat \<rightharpoonup> 'a lq_node) \<Rightarrow> nat option \<Rightarrow> (nat \<times> 'a) list \<Rightarrow> bool" where
  "lq_chain h p [] \<longleftrightarrow> p = None"
| "lq_chain h p ((a, x) # xs) \<longleftrightarrow> p = Some a \<and> (\<exists>nx. h a = Some \<lparr>nd_val = x, nd_next = nx\<rparr> \<and> lq_chain h nx xs)"

lemma lq_chain_upd [simp]: "a \<notin> fst ` set xs \<Longrightarrow> lq_chain (h(a := v)) p xs = lq_chain h p xs"
  by (induction h p xs rule: lq_chain.induct) auto

lemma lq_chain_alloc: "lq_chain h p xs \<Longrightarrow> fst ` set xs \<subseteq> dom h"
  by (induction h p xs rule: lq_chain.induct) auto

text \<open>The last node of a chain gets a successor.\<close>

lemma lq_chain_link:
  assumes "lq_chain h p (ys @ [(t, y)])" and "distinct (map fst (ys @ [(t, y)]))"
    and "new \<notin> fst ` set (ys @ [(t, y)])"
  shows "lq_chain (h(new \<mapsto> \<lparr>nd_val = x, nd_next = None\<rparr>, t \<mapsto> \<lparr>nd_val = y, nd_next = Some new\<rparr>)) p (ys @ [(t, y), (new, x)])"
  using assms by (induction ys arbitrary: p) auto

text \<open>A node is taken out.\<close>

lemma lq_chain_unlink:
  assumes "lq_chain h p (ys @ [(b, y), (a, x)] @ zs)" and "distinct (map fst (ys @ [(b, y), (a, x)] @ zs))"
  shows "lq_chain (h(b \<mapsto> (the (h b))\<lparr>nd_next := nd_next (the (h a))\<rparr>, a := None)) p (ys @ [(b, y)] @ zs)"
  using assms by (induction ys arbitrary: p) auto

lemma lq_chain_last: "lq_chain h p (ys @ [(t, y)]) \<Longrightarrow> h t = Some \<lparr>nd_val = y, nd_next = None\<rparr> \<and> p \<noteq> None"
  by (induction ys arbitrary: p) auto

definition queue_of :: "'a linked_q \<Rightarrow> (nat \<times> 'a) list \<Rightarrow> bool" where
  "queue_of q xs \<longleftrightarrow> lq_chain (lq_cell q) (lq_head q) xs \<and> distinct (map fst xs)
     \<and> (\<forall>a \<in> dom (lq_cell q). a < lq_fresh q)"

definition tail_ok :: "'a linked_q \<Rightarrow> (nat \<times> 'a) list \<Rightarrow> bool" where
  "tail_ok q xs \<longleftrightarrow> xs = [] \<or> lq_tail q = Some (fst (last xs))"

lemma empty_queue [simp]: "queue_of empty_q []" "tail_ok q []"
  by (simp_all add: queue_of_def tail_ok_def empty_q_def)

lemma append_queue:
  assumes "queue_of q xs" and "tail_ok q xs"
  shows "\<exists>q'. lq_append x q = Inr q' \<and> queue_of q' (xs @ [(lq_fresh q, x)]) \<and> tail_ok q' (xs @ [(lq_fresh q, x)])"
proof (cases xs rule: rev_cases)
  case Nil
  with assms show ?thesis by (auto simp: queue_of_def tail_ok_def lq_append_def Let_def less_Suc_eq)
next
  case (snoc ys z)
  obtain t y where z: "z = (t, y)" by force
  have c: "lq_chain (lq_cell q) (lq_head q) (ys @ [(t, y)])" "distinct (map fst (ys @ [(t, y)]))"
    "\<forall>a \<in> dom (lq_cell q). a < lq_fresh q" using assms(1) snoc z by (auto simp: queue_of_def)
  have fr: "lq_fresh q \<notin> fst ` set (ys @ [(t, y)])" using lq_chain_alloc [OF c(1)] c(3) by blast
  have t: "lq_tail q = Some t" using assms(2) snoc z by (simp add: tail_ok_def)
  have last: "lq_cell q t = Some \<lparr>nd_val = y, nd_next = None\<rparr>" "lq_head q \<noteq> None"
    using lq_chain_last [OF c(1)] by simp_all
  let ?cells = "(lq_cell q)(lq_fresh q \<mapsto> \<lparr>nd_val = x, nd_next = None\<rparr>, t \<mapsto> \<lparr>nd_val = y, nd_next = Some (lq_fresh q)\<rparr>)"
  have "lq_append x q = Inr (q\<lparr>lq_fresh := Suc (lq_fresh q), lq_cell := ?cells, lq_tail := Some (lq_fresh q)\<rparr>)"
    using last t by (auto simp: lq_append_def Let_def)
  moreover have "lq_chain ?cells (lq_head q) (xs @ [(lq_fresh q, x)])"
    using lq_chain_link [OF c(1,2) fr] snoc z by simp
  moreover have "distinct (map fst (xs @ [(lq_fresh q, x)]))" using c(2) fr snoc z by auto
  moreover have "t < lq_fresh q" using c(3) last by blast
  ultimately show ?thesis using c(3) by (auto simp: queue_of_def tail_ok_def less_Suc_eq)
qed

text \<open>The loop finds the first node that fits.\<close>

lemma find_queue:
  assumes "lq_chain (lq_cell q) p (ys @ zs)" and "\<forall>y \<in> snd ` set ys. \<not> P y"
  shows "zs = [] \<Longrightarrow> lq_find P q prev p = Some (Inr None)"
    and "zs = (a, x) # ws \<Longrightarrow> P x \<Longrightarrow>
      lq_find P q prev p = Some (Inr (Some (if ys = [] then prev else Some (fst (last ys)), a)))"
  using assms
  by (induction ys arbitrary: p prev) (auto simp: lq_find.simps [of P q])

lemma unlink_queue:
  assumes "queue_of q (ys @ (a, x) # zs)"
  shows "queue_of (lq_unlink (if ys = [] then None else Some (fst (last ys))) a q) (ys @ zs)"
proof (cases ys rule: rev_cases)
  case Nil
  with assms show ?thesis by (auto simp: queue_of_def lq_unlink_def Let_def)
next
  case (snoc us u)
  obtain b y where u: "u = (b, y)" by force
  have c: "lq_chain (lq_cell q) (lq_head q) (us @ [(b, y), (a, x)] @ zs)" "distinct (map fst (us @ [(b, y), (a, x)] @ zs))"
    "\<forall>a \<in> dom (lq_cell q). a < lq_fresh q" using assms snoc u by (auto simp: queue_of_def)
  have "b \<in> dom (lq_cell q)" using lq_chain_alloc [OF c(1)] by auto
  with lq_chain_unlink [OF c(1,2)] c snoc u show ?thesis
    by (auto simp: queue_of_def lq_unlink_def Let_def)
qed

lemma unlink_tail [simp]: "lq_tail (lq_unlink prev a q) = lq_tail q"
  by (simp add: lq_unlink_def Let_def split: option.split)

section \<open>Message identifiers of a window\<close>

lemma rem_queue:
  assumes "queue_of q (ys @ (a, mid) # zs)" and "mid \<notin> snd ` set ys"
  shows "\<exists>q'. rem_msgid mid q = Some (Inr q') \<and> queue_of q' (ys @ zs) \<and> lq_tail q' = lq_tail q
     \<and> lq_cell q' a = None"
proof -
  have "lq_chain (lq_cell q) (lq_head q) (ys @ (a, mid) # zs)" using assms(1) by (simp add: queue_of_def)
  moreover have "\<forall>y \<in> snd ` set ys. \<not> y = mid" using assms(2) by blast
  ultimately have "lq_find (\<lambda>m. m = mid) q None (lq_head q) = Some (Inr (Some (if ys = [] then None else Some (fst (last ys)), a)))"
    by (rule find_queue(2)) simp_all
  then have "rem_msgid mid q = Some (Inr (lq_unlink (if ys = [] then None else Some (fst (last ys))) a q))"
    by (simp only: rem_msgid_def option.case sum.case prod.case)
  moreover have "lq_cell (lq_unlink p a q) a = None" for p by (simp add: lq_unlink_def Let_def)
  ultimately show ?thesis using unlink_queue [OF assms(1)] unlink_tail by blast
qed

lemma rem_not_there:
  assumes "queue_of q xs" and "mid \<notin> snd ` set xs"
  shows "rem_msgid mid q = Some (Inl (ErrorX ''Error in rem_msgid(): Coulnd't find mid''))"
proof -
  have "lq_chain (lq_cell q) (lq_head q) (xs @ [])" using assms(1) by (simp add: queue_of_def)
  from find_queue(1) [OF this, of "\<lambda>m. m = mid"] assms(2)
  have "lq_find (\<lambda>m. m = mid) q None (lq_head q) = Some (Inr None)" by auto
  then show ?thesis by (simp add: rem_msgid_def)
qed

lemma show_queue:
  "queue_of q xs \<Longrightarrow> show_head_msgid q = Inr (if xs = [] then None else Some (snd (hd xs)))"
  by (cases xs) (auto simp: queue_of_def show_head_msgid_def)

lemma wait_all_queue: "queue_of q xs \<Longrightarrow> \<exists>q'. wait_all q = Some (Inr (map snd xs, q')) \<and> queue_of q' []"
proof (induction xs arbitrary: q)
  case Nil
  then show ?case using show_queue [OF Nil] by (simp add: wait_all.simps)
next
  case (Cons x xs)
  obtain a m where x: "x = (a, m)" by force
  with rem_queue [of q "[]" a m xs] Cons.prems obtain q' where q': "rem_msgid m q = Some (Inr q')" "queue_of q' xs"
    by auto
  from Cons.IH [OF q'(2)] obtain q'' where "wait_all q' = Some (Inr (map snd xs, q''))" "queue_of q'' []" by blast
  with q'(1) x show_queue [OF Cons.prems] show ?case by (simp add: wait_all.simps [of q])
qed

text \<open>The waits of a fence or an unlock come in the order of the operations, and leave none.\<close>

theorem wait_all_in_order:
  assumes "queue_of q xs"
  shows "\<exists>q'. wait_all q = Some (Inr (map snd xs, q')) \<and> queue_of q' []"
  using assms by (rule wait_all_queue)

text \<open>
  What a user does with the operations of a window: issue one, wait for one.  The list of what is
  outstanding is what it should be, as long as the last of several is never the first to be
  waited for.
\<close>

datatype mq_op = Issue nat | Wait_for nat

fun mq_run :: "mq_op list \<Rightarrow> nat linked_q \<Rightarrow> nat linked_q outcome option" where
  "mq_run [] q = Some (Inr q)"
| "mq_run (Issue m # ops) q = (case add_msgid m q of Inl e \<Rightarrow> Some (Inl e) | Inr q' \<Rightarrow> mq_run ops q')"
| "mq_run (Wait_for m # ops) q = (case rem_msgid m q of
     None \<Rightarrow> None | Some (Inl e) \<Rightarrow> Some (Inl e) | Some (Inr q') \<Rightarrow> mq_run ops q')"

fun outstanding :: "mq_op list \<Rightarrow> nat list \<Rightarrow> nat list option" where
  "outstanding [] ms = Some ms"
| "outstanding (Issue m # ops) ms = (if m \<in> set ms then None else outstanding ops (ms @ [m]))"
| "outstanding (Wait_for m # ops) ms =
     (if m \<in> set ms \<and> (length ms = 1 \<or> m \<noteq> last ms) then outstanding ops (remove1 m ms) else None)"

lemma mq_run_queue:
  assumes "queue_of q xs" and "tail_ok q xs" and "distinct (map snd xs)"
    and "outstanding ops (map snd xs) = Some ms"
  shows "\<exists>q' xs'. mq_run ops q = Some (Inr q') \<and> queue_of q' xs' \<and> map snd xs' = ms"
  using assms
proof (induction ops arbitrary: q xs)
  case Nil
  then show ?case by auto
next
  case (Cons op ops)
  show ?case
  proof (cases op)
    case (Issue m)
    from append_queue [OF Cons.prems(1,2), of m] obtain q' where q': "add_msgid m q = Inr q'"
      "queue_of q' (xs @ [(lq_fresh q, m)])" "tail_ok q' (xs @ [(lq_fresh q, m)])" by (auto simp: add_msgid_def)
    with Issue Cons.prems show ?thesis
      using Cons.IH [OF q'(2,3)] by (simp split: if_splits)
  next
    case (Wait_for m)
    then have m: "m \<in> snd ` set xs" "length xs = 1 \<or> m \<noteq> last (map snd xs)"
      and o: "outstanding ops (remove1 m (map snd xs)) = Some ms" using Cons.prems by (auto split: if_splits)
    then obtain a where "(a, m) \<in> set xs" by force
    then obtain ys zs where xs: "xs = ys @ (a, m) # zs" by (metis split_list)
    have d: "m \<notin> snd ` set ys" using Cons.prems(3) xs by auto
    from rem_queue [of q ys a m zs] Cons.prems(1) xs d obtain q' where
      q': "rem_msgid m q = Some (Inr q')" "queue_of q' (ys @ zs)" "lq_tail q' = lq_tail q" by auto
    have "tail_ok q' (ys @ zs)" using Cons.prems(2) q'(3) m(2) xs by (cases zs) (auto simp: tail_ok_def)
    moreover have "remove1 m (map snd xs) = map snd (ys @ zs)" using d xs by (simp add: remove1_append)
    ultimately show ?thesis
      using Cons.IH [OF q'(2)] q'(1) Wait_for o Cons.prems(3) xs by (simp add: ac_simps)
  qed
qed

theorem msgids_outstanding:
  assumes "outstanding ops [] = Some ms"
  shows "\<exists>q xs. mq_run ops empty_q = Some (Inr q) \<and> queue_of q xs \<and> map snd xs = ms"
  using mq_run_queue [of empty_q "[]" ops ms] assms by simp

text \<open>
  C31.  Waiting for the last of several operations first leaves the tail pointer at a node that has been
  freed: the next operation on the window writes to it.
\<close>

theorem waiting_for_last_dangles:
  assumes "queue_of q (ys @ [(a, mid)])" and "tail_ok q (ys @ [(a, mid)])" and "ys \<noteq> []" and "mid \<notin> snd ` set ys"
  shows "\<exists>q'. rem_msgid mid q = Some (Inr q') \<and> queue_of q' ys \<and> add_msgid m q' = Inl OutOfBounds"
proof -
  from rem_queue [of q ys a mid "[]"] assms(1,4) obtain q' where
    q': "rem_msgid mid q = Some (Inr q')" "queue_of q' ys" "lq_tail q' = lq_tail q" "lq_cell q' a = None" by auto
  have "lq_tail q' = Some a" using assms(2) q'(3) by (simp add: tail_ok_def)
  moreover have "lq_head q' \<noteq> None" using q'(2) assms(3) by (cases ys) (auto simp: queue_of_def)
  ultimately have "add_msgid m q' = Inl OutOfBounds"
    using q'(4) by (auto simp: add_msgid_def lq_append_def Let_def)
  with q' show ?thesis by blast
qed

definition two_msgs :: "nat linked_q" where
  "two_msgs = \<lparr>lq_cell = [1 \<mapsto> \<lparr>nd_val = 5, nd_next = Some 2\<rparr>, 2 \<mapsto> \<lparr>nd_val = 6, nd_next = None\<rparr>],
     lq_head = Some 1, lq_tail = Some 2, lq_fresh = 3\<rparr>"

lemma two_msgs_queue: "queue_of two_msgs [(1, 5), (2, 6)]" "tail_ok two_msgs [(1, 5), (2, 6)]"
  by (auto simp: queue_of_def tail_ok_def two_msgs_def)

lemma issue_two: "mq_run [Issue 5, Issue 6] empty_q = Some (Inr two_msgs)"
  by (simp add: add_msgid_def lq_append_def empty_q_def two_msgs_def fun_upd_twist numeral_2_eq_2)

theorem wait_all_in_order_witness: "\<exists>q'. wait_all two_msgs = Some (Inr ([5, 6], q')) \<and> queue_of q' []"
  using wait_all_in_order [OF two_msgs_queue(1)] by simp

theorem msgids_outstanding_witness:
  "\<exists>q xs. mq_run [Issue 5, Issue 6, Wait_for 5, Issue 7, Wait_for 6] empty_q = Some (Inr q)
     \<and> queue_of q xs \<and> map snd xs = [7]"
  using msgids_outstanding [of "[Issue 5, Issue 6, Wait_for 5, Issue 7, Wait_for 6]"] by simp

theorem waiting_for_last_dangles_witness:
  "\<exists>q'. rem_msgid 6 two_msgs = Some (Inr q') \<and> queue_of q' [(1, 5)] \<and> add_msgid 7 q' = Inl OutOfBounds"
  using waiting_for_last_dangles [of two_msgs "[(1, 5)]" 2 6 7] two_msgs_queue by simp

end
