(* ===== verification/OneSided.thy ===== *)
theory OneSided
  imports Messages Ring
begin

text \<open>
  The one-sided operations of \<open>MP_Lite/tcp.c\<close>: the addresses inside a window, the messages that
  carry them out, the accumulation that reads its operands in pieces, and the requests whose data
  is read into variables that all sources share.
\<close>

section \<open>Windows\<close>

record win_elt =
  we_base :: int
  we_size :: int
  we_disp :: int

definition win_check :: "int \<Rightarrow> int \<Rightarrow> int \<Rightarrow> unit outcome" where
  "win_check offset nbytes win_size =
     (if offset < 0 then Inl (ErrorX ''ERROR - Get/Put using offset < 0'')
      else if offset + nbytes > win_size then Inl (ErrorX ''ERROR - Get/Put using (offest + number bytes) > window size'')
      else Inr ())"

text \<open>
  \<open>MP_Win_create\<close> takes the first free entry of \<open>windows\<close> behind the one it found last; \<open>used\<close>
  says which are not \<open>NULL\<close>.  Every process gives what it contributes, and all get the same list.
\<close>

definition MAX_WINS :: nat where "MAX_WINS = 10000"

definition win_slot :: "(nat \<Rightarrow> bool) \<Rightarrow> nat \<Rightarrow> nat outcome" where
  "win_slot used current = (case find (\<lambda>k. \<not> used ((current + k) mod MAX_WINS)) [1..<MAX_WINS + 1] of
     None \<Rightarrow> Inl (ErrorX ''You have more than MAX_WINS windows in use'')
   | Some k \<Rightarrow> Inr ((current + k) mod MAX_WINS))"

definition MP_Win_create ::
  "win_elt list \<Rightarrow> (nat \<rightharpoonup> win_elt list) \<Rightarrow> nat \<Rightarrow> (nat \<times> (nat \<rightharpoonup> win_elt list)) outcome" where
  "MP_Win_create contributed windows current =
     obind (win_slot (\<lambda>i. windows i \<noteq> None) current) (\<lambda>wid. Inr (wid, windows(wid \<mapsto> contributed)))"

definition MP_Win_free :: "nat \<Rightarrow> (nat \<rightharpoonup> win_elt list) \<Rightarrow> (nat \<rightharpoonup> win_elt list) outcome" where
  "MP_Win_free wid windows = (if windows wid = None then Inl NullDeref else Inr (windows(wid := None)))"

lemma win_create_fresh:
  assumes "MP_Win_create es windows current = Inr (wid, windows')"
  shows "windows wid = None \<and> wid < MAX_WINS \<and> windows' = windows(wid \<mapsto> es) \<and> MP_Win_free wid windows' = Inr windows"
  using assms
  by (auto simp: MP_Win_create_def win_slot_def MP_Win_free_def find_Some_iff obind_Inr_iff MAX_WINS_def
      split: option.splits)

lemma win_create_finds:
  assumes "i < MAX_WINS" and "windows i = None"
  shows "\<exists>wid windows'. MP_Win_create es windows current = Inr (wid, windows')"
proof -
  define c where "c = current mod MAX_WINS"
  let ?k = "(if c < i then i - c else i + MAX_WINS - c)"
  have c: "c < MAX_WINS" by (simp add: c_def MAX_WINS_def)
  have "(current + ?k) mod MAX_WINS = (c + ?k) mod MAX_WINS" by (simp add: c_def mod_simps)
  also have "\<dots> = i" using assms(1) c by auto
  finally have "windows ((current + ?k) mod MAX_WINS) = None" using assms(2) by simp
  moreover have "?k \<in> set [1..<MAX_WINS + 1]" using c assms(1) by auto
  ultimately have "find (\<lambda>k. \<not> (windows ((current + k) mod MAX_WINS) \<noteq> None)) [1..<MAX_WINS + 1] \<noteq> None"
    unfolding find_None_iff by blast
  then obtain k where "find (\<lambda>k. \<not> (windows ((current + k) mod MAX_WINS) \<noteq> None)) [1..<MAX_WINS + 1] = Some k" by blast
  then show ?thesis by (simp only: MP_Win_create_def win_slot_def option.case obind_simps) blast
qed

text \<open>
  What an operation does: nothing, a copy or an accumulation in the own memory, or a message with
  target address, number of bytes and tag.  A get sends the address and the size it wants, and
  keeps where the reply goes.
\<close>

datatype os_action =
    Os_nothing
  | Os_copy int int int      \<comment> \<open>to, from, bytes\<close>
  | Os_accum int int nat int \<comment> \<open>target, operand, operation, bytes\<close>
  | Os_send nat int int int  \<comment> \<open>tag, target address, local address, bytes\<close>
  | Os_get int int int       \<comment> \<open>local address, remote address, bytes\<close>

text \<open>\<open>win->node[dest]\<close> is read before \<open>dest\<close> is checked.\<close>

definition win_node :: "int \<Rightarrow> (nat \<Rightarrow> win_elt) \<Rightarrow> int \<Rightarrow> win_elt outcome" where
  "win_node nprocs elts dest = (if 0 \<le> dest \<and> dest < nprocs then Inr (elts (nat dest)) else Inl OutOfBounds)"

definition MP_APut :: "int \<Rightarrow> int \<Rightarrow> (nat \<Rightarrow> win_elt) \<Rightarrow> int \<Rightarrow> int \<Rightarrow> int \<Rightarrow> int \<Rightarrow> os_action outcome" where
  "MP_APut myproc nprocs elts buf nelts dest off =
     obind (win_node nprocs elts dest) (\<lambda>e.
       let nbytes = nelts * we_disp e in
       if nbytes = 0 then Inr Os_nothing
       else obind (win_check (off * we_disp e) nbytes (we_size e)) (\<lambda>_.
         obind (range_check nprocs nbytes dest) (\<lambda>_.
           let ptr = we_base e + off * we_disp e in
           Inr (if dest = myproc then Os_copy ptr buf nbytes else Os_send 0 ptr buf nbytes))))"

definition MP_AGet :: "int \<Rightarrow> int \<Rightarrow> (nat \<Rightarrow> win_elt) \<Rightarrow> int \<Rightarrow> int \<Rightarrow> int \<Rightarrow> int \<Rightarrow> os_action outcome" where
  "MP_AGet myproc nprocs elts buf nelts src off =
     obind (win_node nprocs elts src) (\<lambda>e.
       let nbytes = nelts * we_disp e in
       if nbytes = 0 then Inr Os_nothing
       else obind (win_check off nbytes (we_size e)) (\<lambda>_.
         obind (range_check nprocs nbytes src) (\<lambda>_.
           let ptr = we_base e + off * we_disp e in
           Inr (if src = myproc then Os_copy buf ptr nbytes else Os_get buf ptr nbytes))))"

definition MP_AAccumulate ::
  "int \<Rightarrow> int \<Rightarrow> (nat \<Rightarrow> win_elt) \<Rightarrow> int \<Rightarrow> int \<Rightarrow> int \<Rightarrow> int \<Rightarrow> nat \<Rightarrow> os_action outcome" where
  "MP_AAccumulate myproc nprocs elts buf nelts dest off op_type =
     obind (win_node nprocs elts dest) (\<lambda>e.
       let nbytes = nelts * we_disp e in
       if nbytes = 0 then Inr Os_nothing
       else obind (win_check off nbytes (we_size e)) (\<lambda>_.
         obind (range_check nprocs nbytes dest) (\<lambda>_.
           let ptr = we_base e + off * we_disp e in
           Inr (if dest = myproc then Os_accum ptr buf op_type nbytes
                else Os_send (op_type + 3) ptr buf nbytes))))"

text \<open>
  The synchronous versions wait for the message id that the call above stores: it stores none
  when there is nothing to do.
\<close>

definition wait_for_id :: "os_action outcome \<Rightarrow> os_action outcome" where
  "wait_for_id r = obind r (\<lambda>a. if a = Os_nothing then Inl UninitRead else Inr a)"

definition MP_Put :: "int \<Rightarrow> int \<Rightarrow> (nat \<Rightarrow> win_elt) \<Rightarrow> int \<Rightarrow> int \<Rightarrow> int \<Rightarrow> int \<Rightarrow> os_action outcome" where
  "MP_Put myproc nprocs elts buf nelts dest off = wait_for_id (MP_APut myproc nprocs elts buf nelts dest off)"

definition MP_Get :: "int \<Rightarrow> int \<Rightarrow> (nat \<Rightarrow> win_elt) \<Rightarrow> int \<Rightarrow> int \<Rightarrow> int \<Rightarrow> int \<Rightarrow> os_action outcome" where
  "MP_Get myproc nprocs elts buf nelts src off = wait_for_id (MP_AGet myproc nprocs elts buf nelts src off)"

definition MP_Accumulate ::
  "int \<Rightarrow> int \<Rightarrow> (nat \<Rightarrow> win_elt) \<Rightarrow> int \<Rightarrow> int \<Rightarrow> int \<Rightarrow> int \<Rightarrow> nat \<Rightarrow> os_action outcome" where
  "MP_Accumulate myproc nprocs elts buf nelts dest off op_type =
     wait_for_id (MP_AAccumulate myproc nprocs elts buf nelts dest off op_type)"

definition in_window :: "win_elt \<Rightarrow> int \<Rightarrow> int \<Rightarrow> bool" where
  "in_window e ptr nbytes \<longleftrightarrow> we_base e \<le> ptr \<and> ptr + nbytes \<le> we_base e + we_size e"

text \<open>A put that is not refused writes inside the window of its target.\<close>

theorem put_inside_window:
  assumes "MP_APut myproc nprocs elts buf nelts dest off = Inr a" and "a \<noteq> Os_nothing"
  shows "0 \<le> dest \<and> dest < nprocs \<and> (\<exists>ptr. in_window (elts (nat dest)) ptr (nelts * we_disp (elts (nat dest)))
     \<and> a = (if dest = myproc then Os_copy ptr buf (nelts * we_disp (elts (nat dest)))
            else Os_send 0 ptr buf (nelts * we_disp (elts (nat dest)))))"
  using assms
  by (auto simp: MP_APut_def win_node_def win_check_def range_check_def in_window_def Let_def obind_Inr_iff
      split: if_splits)

text \<open>
  The check of a get and of an accumulation takes the offset as bytes: with elements of several
  bytes the access may lie behind the window.
\<close>

theorem get_leaves_window:
  assumes "1 < we_disp (elts (nat src))" and "0 \<le> src" "src < nprocs" "src \<noteq> myproc"
    and "0 < nelts" and "off = we_size (elts (nat src)) - nelts * we_disp (elts (nat src))" and "0 < off"
  shows "\<exists>ptr. MP_AGet myproc nprocs elts buf nelts src off = Inr (Os_get buf ptr (nelts * we_disp (elts (nat src))))
     \<and> \<not> in_window (elts (nat src)) ptr (nelts * we_disp (elts (nat src)))"
proof -
  let ?e = "elts (nat src)"
  have "off < off * we_disp ?e" using assms(1,7) by simp
  moreover have size: "we_size ?e = off + nelts * we_disp ?e" using assms(6) by simp
  ultimately have "\<not> in_window ?e (we_base ?e + off * we_disp ?e) (nelts * we_disp ?e)" by (simp add: in_window_def)
  with assms(1-5,7) size show ?thesis
    by (simp add: MP_AGet_def win_node_def win_check_def range_check_def Let_def)
qed

definition demo_win :: "nat \<Rightarrow> win_elt" where
  "demo_win = (\<lambda>_. \<lparr>we_base = 1000, we_size = 80, we_disp = 8\<rparr>)"

theorem put_inside_window_witness:
  "MP_APut 0 2 demo_win 500 2 1 8 = Inr (Os_send 0 1064 500 16) \<and> in_window (demo_win 1) 1064 16"
proof -
  have "MP_APut 0 2 demo_win 500 2 1 8 = Inr (Os_send 0 1064 500 16)"
    by (simp add: MP_APut_def win_node_def win_check_def range_check_def demo_win_def)
  with put_inside_window [OF this] show ?thesis by (simp add: demo_win_def)
qed

theorem get_leaves_window_witness:
  "\<exists>ptr. MP_AGet 0 2 demo_win 500 2 1 64 = Inr (Os_get 500 ptr 16) \<and> \<not> in_window (demo_win 1) ptr 16"
  using get_leaves_window [of demo_win 1 2 0 2 64 500] by (simp add: demo_win_def)

lemma put_of_nothing: "0 \<le> dest \<Longrightarrow> dest < nprocs \<Longrightarrow> MP_Put myproc nprocs elts buf 0 dest off = Inl UninitRead"
  by (simp add: MP_Put_def MP_APut_def win_node_def wait_for_id_def)

section \<open>The messages\<close>

datatype os_handler = H_put | H_get_request | H_get_reply | H_accumulate nat | H_lock | H_active_target | H_invalid

definition service_os_socket :: "int \<Rightarrow> os_handler" where
  "service_os_socket tag =
     (if tag = 0 then H_put
      else if tag = 1 then H_get_request
      else if tag = 2 then H_get_reply
      else if tag > 2 \<and> tag < 15 then H_accumulate (nat (tag - 3))
      else if tag = 15 then H_lock
      else if tag = 16 then H_active_target
      else H_invalid)"

lemma accumulate_dispatch: "op_type < 12 \<Longrightarrow> service_os_socket (int (op_type + 3)) = H_accumulate op_type"
  by (simp add: service_os_socket_def)

section \<open>Accumulation\<close>

text \<open>
  The types of the operands are \<open>double\<close>, \<open>int\<close> and \<open>float\<close> by the operation modulo 3; \<open>add\<close> and
  \<open>lt\<close> are the addition and comparison of that type.
\<close>

definition acc_bytes :: "nat \<Rightarrow> nat" where
  "acc_bytes op = (if op mod 3 = 1 then 4 else if op mod 3 = 2 then 4 else 8)"

definition accum_elem :: "('a \<Rightarrow> 'a \<Rightarrow> 'a) \<Rightarrow> ('a \<Rightarrow> 'a \<Rightarrow> bool) \<Rightarrow> nat \<Rightarrow> 'a \<Rightarrow> 'a \<Rightarrow> 'a" where
  "accum_elem add lt op l w =
     (if op = 0 \<or> op = 1 \<or> op = 2 then add l w
      else if op = 3 \<or> op = 4 \<or> op = 5 then (if lt l w then w else l)
      else if op = 6 \<or> op = 7 \<or> op = 8 then (if lt w l then w else l)
      else w)"

text \<open>The operands are lists from the two addresses on.\<close>

definition do_accum_op ::
  "('a \<Rightarrow> 'a \<Rightarrow> 'a) \<Rightarrow> ('a \<Rightarrow> 'a \<Rightarrow> bool) \<Rightarrow> 'a list \<Rightarrow> 'a list \<Rightarrow> nat \<Rightarrow> nat \<Rightarrow> 'a list outcome" where
  "do_accum_op add lt local new op nbytes =
     (if nbytes mod acc_bytes op \<noteq> 0
      then Inl (ErrorX ''do_accum_op() - ERROR: nbytes is not divisible by datatype size'')
      else if 11 < op then Inl (ErrorX ''MP_Accumulate() - ERROR: Unsupported op type'')
      else let n = nbytes div acc_bytes op in
        if length local < n \<or> length new < n then Inl OutOfBounds
        else Inr (map2 (accum_elem add lt op) (take n local) (take n new) @ drop n local))"

text \<open>
  \<open>recv_accum_operation\<close> after the header: each call of \<open>read\<close> asks for the rest of one element,
  into a variable that is static; when the element is complete it is combined with the target,
  which moves on.  \<open>ac_local\<close> is the memory from the target of the message on, \<open>ac_done\<close> how many
  elements \<open>dest_ptr\<close> has moved.
\<close>

record 'a accum =
  ac_local :: "'a list"
  ac_done :: nat
  ac_nbl :: nat
  ac_nleft :: nat
  ac_buf :: "8 word list"

definition accum_start :: "nat \<Rightarrow> nat \<Rightarrow> 8 word list \<Rightarrow> 'a list \<Rightarrow> 'a accum" where
  "accum_start op nbytes buf local =
     \<lparr>ac_local = local, ac_done = 0, ac_nbl = acc_bytes op, ac_nleft = nbytes, ac_buf = buf\<rparr>"

definition accum_read ::
  "('a \<Rightarrow> 'a \<Rightarrow> 'a) \<Rightarrow> ('a \<Rightarrow> 'a \<Rightarrow> bool) \<Rightarrow> (8 word list \<Rightarrow> 'a) \<Rightarrow> nat \<Rightarrow> 8 word list \<Rightarrow> 'a accum \<Rightarrow> 'a accum outcome"
where
  "accum_read add lt decode op bs s =
     (let s1 = s\<lparr>ac_buf := store (ac_buf s) (acc_bytes op - ac_nbl s) bs,
                ac_nbl := ac_nbl s - length bs, ac_nleft := ac_nleft s - length bs\<rparr>
      in if ac_nbl s1 \<noteq> 0 then Inr s1
         else obind (do_accum_op add lt (drop (ac_done s1) (ac_local s1)) [decode (ac_buf s1)] op (acc_bytes op)) (\<lambda>xs.
           let s2 = s1\<lparr>ac_local := take (ac_done s1) (ac_local s1) @ xs\<rparr> in
           Inr (if 0 < ac_nleft s2 then s2\<lparr>ac_nbl := acc_bytes op, ac_done := ac_done s2 + 1\<rparr> else s2)))"

text \<open>
  The loop over the reads: \<open>ks\<close> says how many bytes are there at each.  It stops when a read gets
  nothing, or when the message is complete.
\<close>

fun accum_loop ::
  "('a \<Rightarrow> 'a \<Rightarrow> 'a) \<Rightarrow> ('a \<Rightarrow> 'a \<Rightarrow> bool) \<Rightarrow> (8 word list \<Rightarrow> 'a) \<Rightarrow> nat \<Rightarrow> nat list \<Rightarrow> 8 word list \<Rightarrow> 'a accum
   \<Rightarrow> ('a accum \<times> 8 word list \<times> nat list) outcome"
where
  "accum_loop add lt decode op [] wire s = Inr (s, wire, [])"
| "accum_loop add lt decode op (k # ks) wire s =
     (if ac_nleft s = 0 then Inr (s, wire, k # ks)
      else let n = min k (ac_nbl s) in
        if n = 0 then Inr (s, wire, ks)
        else obind (accum_read add lt decode op (take n wire) s) (\<lambda>s'. accum_loop add lt decode op ks (drop n wire) s'))"

text \<open>The calls of the handler, each with its reads.\<close>

fun accum_calls ::
  "('a \<Rightarrow> 'a \<Rightarrow> 'a) \<Rightarrow> ('a \<Rightarrow> 'a \<Rightarrow> bool) \<Rightarrow> (8 word list \<Rightarrow> 'a) \<Rightarrow> nat \<Rightarrow> nat list list \<Rightarrow> 8 word list \<Rightarrow> 'a accum
   \<Rightarrow> ('a accum \<times> 8 word list) outcome"
where
  "accum_calls add lt decode op [] wire s = Inr (s, wire)"
| "accum_calls add lt decode op (ks # kss) wire s =
     obind (accum_loop add lt decode op ks wire s) (\<lambda>(s', wire', _). accum_calls add lt decode op kss wire' s')"

text \<open>After \<open>d\<close> elements, and after \<open>r\<close> bytes of the next one.\<close>

definition accum_upto :: "('a \<Rightarrow> 'a \<Rightarrow> 'a) \<Rightarrow> (8 word list \<Rightarrow> 'a) \<Rightarrow> 'a list \<Rightarrow> 8 word list list \<Rightarrow> nat \<Rightarrow> 'a list" where
  "accum_upto f decode local es d = map2 f (take d local) (map decode (take d es)) @ drop d local"

definition accum_at ::
  "('a \<Rightarrow> 'a \<Rightarrow> 'a) \<Rightarrow> (8 word list \<Rightarrow> 'a) \<Rightarrow> nat \<Rightarrow> 'a list \<Rightarrow> 8 word list list \<Rightarrow> 8 word list \<Rightarrow> nat \<Rightarrow> nat
   \<Rightarrow> 'a accum \<Rightarrow> 8 word list \<Rightarrow> bool"
where
  "accum_at f decode B local es w2 d r s wire \<longleftrightarrow> d < length es \<and> r < B \<and> ac_done s = d \<and> ac_nbl s = B - r
     \<and> ac_nleft s = B * (length es - d) - r \<and> length (ac_buf s) = B \<and> take r (ac_buf s) = take r (es ! d)
     \<and> wire = drop r (es ! d) @ concat (drop (Suc d) es) @ w2 \<and> ac_local s = accum_upto f decode local es d"

definition accum_end ::
  "('a \<Rightarrow> 'a \<Rightarrow> 'a) \<Rightarrow> (8 word list \<Rightarrow> 'a) \<Rightarrow> 'a list \<Rightarrow> 8 word list list \<Rightarrow> 8 word list \<Rightarrow> 'a accum \<Rightarrow> 8 word list \<Rightarrow> bool"
where
  "accum_end f decode local es w2 s wire \<longleftrightarrow> ac_nleft s = 0 \<and> wire = w2
     \<and> ac_local s = accum_upto f decode local es (length es)"

definition accum_inv ::
  "('a \<Rightarrow> 'a \<Rightarrow> 'a) \<Rightarrow> (8 word list \<Rightarrow> 'a) \<Rightarrow> nat \<Rightarrow> 'a list \<Rightarrow> 8 word list list \<Rightarrow> 8 word list \<Rightarrow> 'a accum \<Rightarrow> 8 word list \<Rightarrow> bool"
where
  "accum_inv f decode B local es w2 s wire \<longleftrightarrow>
     (\<exists>d r. accum_at f decode B local es w2 d r s wire) \<or> accum_end f decode local es w2 s wire"

lemma acc_bytes_pos [simp]: "0 < acc_bytes op"
  by (simp add: acc_bytes_def)

lemma accum_at_left: "accum_at f decode B local es w2 d r s wire \<Longrightarrow> 0 < ac_nleft s"
proof -
  assume at: "accum_at f decode B local es w2 d r s wire"
  then have "B * 1 \<le> B * (length es - d)" by (intro mult_le_mono2) (auto simp: accum_at_def)
  moreover have "r < B" "ac_nleft s = B * (length es - d) - r" using at by (simp_all add: accum_at_def)
  ultimately show ?thesis by linarith
qed

lemma accum_upto_Suc:
  assumes "d < length es" and "length es \<le> length local"
  shows "take d (accum_upto f decode local es d) @ f (local ! d) (decode (es ! d)) # drop (Suc d) local
     = accum_upto f decode local es (Suc d)"
    and "drop d (accum_upto f decode local es d) = drop d local"
  using assms by (simp_all add: accum_upto_def take_Suc_conv_app_nth zip_append)

lemma accum_one:
  "op \<le> 11 \<Longrightarrow> d < length local \<Longrightarrow>
     do_accum_op add lt (drop d local) [x] op (acc_bytes op)
     = Inr (accum_elem add lt op (local ! d) x # drop (Suc d) local)"
  by (simp add: do_accum_op_def Cons_nth_drop_Suc [symmetric])

lemma accum_read_at:
  assumes at: "accum_at (accum_elem add lt op) decode (acc_bytes op) local es w2 d r s wire"
    and op: "op \<le> 11" and len: "length es \<le> length local" and es: "\<forall>e \<in> set es. length e = acc_bytes op"
    and n: "0 < n" "n \<le> acc_bytes op - r"
  shows "\<exists>s'. accum_read add lt decode op (take n wire) s = Inr s'
     \<and> accum_inv (accum_elem add lt op) decode (acc_bytes op) local es w2 s' (drop n wire)"
proof -
  let ?B = "acc_bytes op" and ?f = "accum_elem add lt op"
  have a: "d < length es" "r < ?B" "ac_done s = d" "ac_nbl s = ?B - r" "ac_nleft s = ?B * (length es - d) - r"
    "length (ac_buf s) = ?B" "take r (ac_buf s) = take r (es ! d)" "ac_local s = accum_upto ?f decode local es d"
    and wire: "wire = drop r (es ! d) @ concat (drop (Suc d) es) @ w2" using at by (simp_all add: accum_at_def)
  have e: "length (es ! d) = ?B" using es a by simp
  have bs: "take n wire = take n (drop r (es ! d))" "drop n wire = drop (r + n) (es ! d) @ concat (drop (Suc d) es) @ w2"
    using wire n e by (simp_all add: add.commute)
  have lbs: "length (take n wire) = n" using bs(1) n e a by simp
  have buf: "take (r + n) (store (ac_buf s) r (take n wire)) = take (r + n) (es ! d)"
    "length (store (ac_buf s) r (take n wire)) = ?B"
    using a n e lbs bs(1) by (simp_all add: store_def take_add)
  show ?thesis
  proof (cases "n < ?B - r")
    case True
    then have "r + n < ?B" by simp
    define s' where "s' = s\<lparr>ac_buf := store (ac_buf s) r (take n wire), ac_nbl := ?B - r - n, ac_nleft := ac_nleft s - n\<rparr>"
    have "accum_read add lt decode op (take n wire) s = Inr s'"
      using a \<open>r + n < ?B\<close> lbs by (simp add: accum_read_def s'_def Let_def)
    moreover have "accum_at ?f decode ?B local es w2 d (r + n) s' (drop n wire)"
      using a True buf bs(2) unfolding accum_at_def by (simp add: s'_def)
    ultimately show ?thesis unfolding accum_inv_def by blast
  next
    case False
    then have nn: "n = ?B - r" using n by simp
    define s1 where "s1 = s\<lparr>ac_buf := store (ac_buf s) r (take n wire), ac_nbl := 0, ac_nleft := ac_nleft s - n\<rparr>"
    have b: "ac_buf s1 = es ! d" using buf nn a e by (simp add: s1_def)
    define s2 where "s2 = s1\<lparr>ac_local := accum_upto ?f decode local es (Suc d)\<rparr>"
    have "do_accum_op add lt (drop d (ac_local s)) [decode (es ! d)] op ?B
        = Inr (?f (local ! d) (decode (es ! d)) # drop (Suc d) local)"
      using a len accum_upto_Suc(2) [of d es local ?f decode] accum_one [OF op, of d local] by simp
    then have rd: "accum_read add lt decode op (take n wire) s
        = Inr (if 0 < ac_nleft s2 then s2\<lparr>ac_nbl := ?B, ac_done := d + 1\<rparr> else s2)"
      using a nn lbs b accum_upto_Suc(1) [of d es local ?f decode] len
      by (simp add: accum_read_def s1_def s2_def Let_def)
    have left: "ac_nleft s2 = ?B * (length es - Suc d)"
      using a nn by (simp add: s1_def s2_def Suc_diff_Suc [symmetric] algebra_simps)
    show ?thesis
    proof (cases "Suc d < length es")
      case True
      then have "accum_at ?f decode ?B local es w2 (Suc d) 0 (s2\<lparr>ac_nbl := ?B, ac_done := d + 1\<rparr>) (drop n wire)"
        using left buf(2) bs(2) nn e unfolding accum_at_def
        by (simp add: s1_def s2_def Cons_nth_drop_Suc [symmetric])
      moreover have "0 < ac_nleft s2" using True left by simp
      ultimately show ?thesis using rd unfolding accum_inv_def by auto
    next
      case False
      then have l: "length es = Suc d" using a(1) by simp
      then have "accum_end ?f decode local es w2 s2 (drop n wire)"
        using left bs(2) nn e unfolding accum_end_def by (simp add: s2_def)
      moreover have "ac_nleft s2 = 0" using False left by simp
      ultimately show ?thesis using rd unfolding accum_inv_def by simp
    qed
  qed
qed

lemma accum_loop_inv:
  assumes "accum_inv (accum_elem add lt op) decode (acc_bytes op) local es w2 s wire"
    and op: "op \<le> 11" and len: "length es \<le> length local" and es: "\<forall>e \<in> set es. length e = acc_bytes op"
  shows "\<exists>s' wire' ks'. accum_loop add lt decode op ks wire s = Inr (s', wire', ks')
     \<and> accum_inv (accum_elem add lt op) decode (acc_bytes op) local es w2 s' wire'"
  using assms(1)
proof (induction ks arbitrary: s wire)
  case (Cons k ks)
  show ?case
  proof (cases "ac_nleft s = 0 \<or> min k (ac_nbl s) = 0")
    case True
    with Cons.prems show ?thesis by auto
  next
    case False
    then obtain d r where at: "accum_at (accum_elem add lt op) decode (acc_bytes op) local es w2 d r s wire"
      using Cons.prems by (auto simp: accum_inv_def accum_end_def)
    have "0 < min k (ac_nbl s)" "min k (ac_nbl s) \<le> acc_bytes op - r" using False at by (auto simp: accum_at_def)
    from accum_read_at [OF at op len es this] Cons.IH False show ?thesis by (auto simp: Let_def)
  qed
qed auto

lemma accum_calls_inv:
  assumes "accum_inv (accum_elem add lt op) decode (acc_bytes op) local es w2 s wire"
    and op: "op \<le> 11" and len: "length es \<le> length local" and es: "\<forall>e \<in> set es. length e = acc_bytes op"
  shows "\<exists>s' wire'. accum_calls add lt decode op kss wire s = Inr (s', wire')
     \<and> accum_inv (accum_elem add lt op) decode (acc_bytes op) local es w2 s' wire'"
  using assms(1)
proof (induction kss arbitrary: s wire)
  case (Cons ks kss)
  from accum_loop_inv [OF Cons.prems op len es, of ks] Cons.IH show ?case by auto
qed auto


text \<open>Two integers are added, in three reads of one call and a second call.\<close>

definition le_bytes :: "8 word list \<Rightarrow> int" where
  "le_bytes bs = foldr (\<lambda>b v. uint b + 256 * v) bs 0"


section \<open>Requests that are read in parts\<close>

text \<open>
  \<open>recv_lock_request\<close> reads the request of a source into \<open>lock_hdr\<close>, one static variable of 16
  bytes for all sources; the entry of the source counts what it has still to read.  A complete
  request goes to \<open>do_lock\<close>: the result says for which source, and what.
\<close>

definition sizeof_lock_hdr :: nat where "sizeof_lock_hdr = 16"

record lock_reader =
  lk_hdr :: "8 word list"
  lk_left :: "nat \<Rightarrow> nat"

definition recv_lock_part :: "nat \<Rightarrow> 8 word list \<Rightarrow> lock_reader \<Rightarrow> lock_reader \<times> (nat \<times> 8 word list) option" where
  "recv_lock_part src bs s =
     (let todo = (if lk_left s src = 0 then sizeof_lock_hdr else lk_left s src);
          s1 = s\<lparr>lk_hdr := store (lk_hdr s) (sizeof_lock_hdr - todo) bs,
                 lk_left := (lk_left s)(src := todo - length bs)\<rparr>
      in (s1, if lk_left s1 src = 0 then Some (src, lk_hdr s1) else None))"

fun recv_lock_parts :: "(nat \<times> 8 word list) list \<Rightarrow> lock_reader \<Rightarrow> lock_reader \<times> (nat \<times> 8 word list) list" where
  "recv_lock_parts [] s = (s, [])"
| "recv_lock_parts ((src, bs) # ps) s =
     (let (s1, r) = recv_lock_part src bs s; (s2, rs) = recv_lock_parts ps s1
      in (s2, case r of None \<Rightarrow> rs | Some x \<Rightarrow> x # rs))"

text \<open>The parts of one request without another in between give the request.\<close>

theorem lock_request_in_parts:
  assumes "length (lk_hdr s) = sizeof_lock_hdr" and "lk_left s src = 0" and "0 < length a" and "0 < length b"
    and "length a + length b = sizeof_lock_hdr"
  shows "snd (recv_lock_parts [(src, a), (src, b)] s) = [(src, a @ b)]"
proof -
  have "sizeof_lock_hdr - length a = length b" "sizeof_lock_hdr - length b = length a" "\<not> sizeof_lock_hdr \<le> length a"
    using assms(4,5) by (simp_all add: assms(5) [symmetric])
  with assms(1-4) show ?thesis by (simp add: recv_lock_part_def store_def Let_def)
qed

text \<open>
  A request of another source that arrives between the two parts overwrites the first part: the
  window, type and flag of one process are taken for those of the other.
\<close>

theorem lock_requests_mix:
  assumes "length (lk_hdr s) = sizeof_lock_hdr" and "lk_left s src = 0" and "lk_left s other = 0" and "src \<noteq> other"
    and "0 < length a" and "0 < length b" and "length a + length b = sizeof_lock_hdr" and "length c = sizeof_lock_hdr"
  shows "snd (recv_lock_parts [(src, a), (other, c), (src, b)] s) = [(other, c), (src, take (length a) c @ b)]"
proof -
  have "sizeof_lock_hdr - length a = length b" "sizeof_lock_hdr - length b = length a" "\<not> sizeof_lock_hdr \<le> length a"
    using assms(6,7) by (simp_all add: assms(7) [symmetric])
  with assms(1-6,8) show ?thesis by (simp add: recv_lock_part_def store_def Let_def)
qed

definition no_requests :: lock_reader where
  "no_requests = \<lparr>lk_hdr = replicate 16 0, lk_left = (\<lambda>_. 0)\<rparr>"

theorem lock_request_in_parts_witness:
  "snd (recv_lock_parts [(3, replicate 4 1), (3, replicate 12 2)] no_requests) = [(3, replicate 4 1 @ replicate 12 2)]"
  by (rule lock_request_in_parts) (simp_all add: no_requests_def sizeof_lock_hdr_def)

theorem lock_requests_mix_witness:
  "snd (recv_lock_parts [(3, replicate 4 1), (5, replicate 16 9), (3, replicate 12 2)] no_requests)
   = [(5, replicate 16 9), (3, replicate 4 9 @ replicate 12 2)]"
  using lock_requests_mix [of no_requests 3 5 "replicate 4 1" "replicate 12 2" "replicate 16 9"]
  by (simp add: no_requests_def sizeof_lock_hdr_def)

end
