(* ===== verification/RbTree.thy ===== *)
theory RbTree
  imports Prelude "HOL-Library.Tree" "HOL-Library.Monad_Syntax"
begin

text \<open>
  The red-black tree of \<open>MP_Lite/ib.c\<close> in which the Infiniband driver keeps the memory regions it
  has registered: the nodes in an explicit heap, the rotations, insertion and deletion with their
  repairs, and the operations \<open>persist_mr_add\<close>, \<open>persist_mr_get\<close>, \<open>persist_mr_edit\<close>,
  \<open>persist_mr_del\<close> and \<open>persist_mr_delrand\<close>.  What they guarantee is in \<open>RbShape\<close>, \<open>RbInsert\<close>,
  \<open>RbDelete\<close> and \<open>RbStore\<close>.
\<close>

section \<open>The nodes\<close>

text \<open>
  One function for each field of \<open>struct rndzv_mr_tree_node_t\<close>, the root pointer and the set of
  nodes that are allocated.  The sentinel \<open>nilnode\<close> has the address 0 and is always allocated; its
  own pointer fields are null in the source, and no operation follows them.
\<close>

datatype rb_node_color = RED | BLACK

record 'm rb =
  rb_alive :: "nat set"
  rb_color :: "nat \<Rightarrow> rb_node_color"
  rb_addr :: "nat \<Rightarrow> int"
  rb_hndl :: "nat \<Rightarrow> int"
  rb_prop :: "nat \<Rightarrow> 'm"
  rb_p :: "nat \<Rightarrow> nat"
  rb_left :: "nat \<Rightarrow> nat"
  rb_right :: "nat \<Rightarrow> nat"
  rb_root :: nat

definition nilnode :: nat where "nilnode = 0"

text \<open>
  Reading and writing a field through a pointer; the access of a node that is not allocated is
  \<open>None\<close>, and so is a loop that does not end.
\<close>

definition rd :: "('m rb \<Rightarrow> nat \<Rightarrow> 'a) \<Rightarrow> 'm rb \<Rightarrow> nat \<Rightarrow> 'a option" where
  "rd f h a = (if a \<in> rb_alive h then Some (f h a) else None)"

definition wr :: "(((nat \<Rightarrow> 'a) \<Rightarrow> nat \<Rightarrow> 'a) \<Rightarrow> 'm rb \<Rightarrow> 'm rb) \<Rightarrow> nat \<Rightarrow> 'a \<Rightarrow> 'm rb \<Rightarrow> 'm rb option" where
  "wr upd a v h = (if a \<in> rb_alive h then Some (upd (\<lambda>f. f(a := v)) h) else None)"

section \<open>Searching\<close>

partial_function (option) tree_search :: "'m rb \<Rightarrow> nat \<Rightarrow> int \<Rightarrow> nat option" where
  [code]: "tree_search h node addr =
     (if node = nilnode then Some node
      else do {
        a \<leftarrow> rd rb_addr h node;
        if a = addr then Some node
        else if addr < a then do { l \<leftarrow> rd rb_left h node; tree_search h l addr }
        else do { r \<leftarrow> rd rb_right h node; tree_search h r addr } })"

partial_function (option) tree_minimum :: "'m rb \<Rightarrow> nat \<Rightarrow> nat option" where
  [code]: "tree_minimum h node = do {
     l \<leftarrow> rd rb_left h node;
     if l \<noteq> nilnode then tree_minimum h l else Some node }"

partial_function (option) tree_maximum :: "'m rb \<Rightarrow> nat \<Rightarrow> nat option" where
  [code]: "tree_maximum h node = do {
     r \<leftarrow> rd rb_right h node;
     if r \<noteq> nilnode then tree_maximum h r else Some node }"

text \<open>The loops that climb to the first ancestor of which the node is not in the right, or left, subtree.\<close>

partial_function (option) climb_right :: "'m rb \<Rightarrow> nat \<Rightarrow> nat \<Rightarrow> nat option" where
  [code]: "climb_right h node par =
     (if par = nilnode then Some par
      else do {
        r \<leftarrow> rd rb_right h par;
        if node = r then do { pp \<leftarrow> rd rb_p h par; climb_right h par pp } else Some par })"

partial_function (option) climb_left :: "'m rb \<Rightarrow> nat \<Rightarrow> nat \<Rightarrow> nat option" where
  [code]: "climb_left h node par =
     (if par = nilnode then Some par
      else do {
        l \<leftarrow> rd rb_left h par;
        if node = l then do { pp \<leftarrow> rd rb_p h par; climb_left h par pp } else Some par })"

definition tree_successor :: "'m rb \<Rightarrow> nat \<Rightarrow> nat option" where
  "tree_successor h node = do {
     r \<leftarrow> rd rb_right h node;
     if r \<noteq> nilnode then tree_minimum h r
     else do { par \<leftarrow> rd rb_p h node; climb_right h node par } }"

definition tree_predecessor :: "'m rb \<Rightarrow> nat \<Rightarrow> nat option" where
  "tree_predecessor h node = do {
     l \<leftarrow> rd rb_left h node;
     if l \<noteq> nilnode then tree_maximum h l
     else do { par \<leftarrow> rd rb_p h node; climb_left h node par } }"

section \<open>Inserting without repair\<close>

partial_function (option) tree_place :: "'m rb \<Rightarrow> nat \<Rightarrow> nat \<Rightarrow> nat \<Rightarrow> nat option" where
  [code]: "tree_place h newnode cur par =
     (if cur = nilnode then Some par
      else do {
        k \<leftarrow> rd rb_addr h newnode;
        a \<leftarrow> rd rb_addr h cur;
        next \<leftarrow> (if k < a then rd rb_left h cur else rd rb_right h cur);
        tree_place h newnode next cur })"

definition tree_insert :: "nat \<Rightarrow> 'm rb \<Rightarrow> 'm rb option" where
  "tree_insert newnode h = do {
     par \<leftarrow> tree_place h newnode (rb_root h) nilnode;
     h1 \<leftarrow> wr rb_p_update newnode par h;
     if par = nilnode then Some (h1\<lparr>rb_root := newnode\<rparr>)
     else do {
       k \<leftarrow> rd rb_addr h1 newnode;
       a \<leftarrow> rd rb_addr h1 par;
       if k < a then wr rb_left_update par newnode h1 else wr rb_right_update par newnode h1 } }"

section \<open>Rotations\<close>

definition left_rotate :: "nat \<Rightarrow> 'm rb \<Rightarrow> 'm rb option" where
  "left_rotate node h = do {
     rchild \<leftarrow> rd rb_right h node;
     rl \<leftarrow> rd rb_left h rchild;
     h1 \<leftarrow> wr rb_right_update node rl h;
     h2 \<leftarrow> (if rl \<noteq> nilnode then wr rb_p_update rl node h1 else Some h1);
     np \<leftarrow> rd rb_p h2 node;
     h3 \<leftarrow> wr rb_p_update rchild np h2;
     h4 \<leftarrow> (if np = nilnode then Some (h3\<lparr>rb_root := rchild\<rparr>)
           else do {
             npl \<leftarrow> rd rb_left h3 np;
             if node = npl then wr rb_left_update np rchild h3 else wr rb_right_update np rchild h3 });
     h5 \<leftarrow> wr rb_left_update rchild node h4;
     wr rb_p_update node rchild h5 }"

definition right_rotate :: "nat \<Rightarrow> 'm rb \<Rightarrow> 'm rb option" where
  "right_rotate node h = do {
     lchild \<leftarrow> rd rb_left h node;
     lr \<leftarrow> rd rb_right h lchild;
     h1 \<leftarrow> wr rb_left_update node lr h;
     h2 \<leftarrow> (if lr \<noteq> nilnode then wr rb_p_update lr node h1 else Some h1);
     np \<leftarrow> rd rb_p h2 node;
     h3 \<leftarrow> wr rb_p_update lchild np h2;
     h4 \<leftarrow> (if np = nilnode then Some (h3\<lparr>rb_root := lchild\<rparr>)
           else do {
             npr \<leftarrow> rd rb_right h3 np;
             if node = npr then wr rb_right_update np lchild h3 else wr rb_left_update np lchild h3 });
     h5 \<leftarrow> wr rb_right_update lchild node h4;
     wr rb_p_update node lchild h5 }"

section \<open>Insertion\<close>

text \<open>
  The body of the loop: the parent is the left child of the grandparent, or its right child.  The
  new position of \<open>node\<close> is returned with the heap.
\<close>

definition insert_left :: "nat \<Rightarrow> 'm rb \<Rightarrow> (nat \<times> 'm rb) option" where
  "insert_left node h = do {
     p \<leftarrow> rd rb_p h node;
     pp \<leftarrow> rd rb_p h p;
     uncle \<leftarrow> rd rb_right h pp;
     c \<leftarrow> rd rb_color h uncle;
     if c = RED then do {
       h1 \<leftarrow> wr rb_color_update p BLACK h;
       h2 \<leftarrow> wr rb_color_update uncle BLACK h1;
       h3 \<leftarrow> wr rb_color_update pp RED h2;
       Some (pp, h3) }
     else do {
       pr \<leftarrow> rd rb_right h p;
       (n, h1) \<leftarrow> (if node = pr then do { h' \<leftarrow> left_rotate p h; Some (p, h') } else Some (node, h));
       q \<leftarrow> rd rb_p h1 n;
       h2 \<leftarrow> wr rb_color_update q BLACK h1;
       qq \<leftarrow> rd rb_p h2 q;
       h3 \<leftarrow> wr rb_color_update qq RED h2;
       h4 \<leftarrow> right_rotate qq h3;
       Some (n, h4) } }"

definition insert_right :: "nat \<Rightarrow> 'm rb \<Rightarrow> (nat \<times> 'm rb) option" where
  "insert_right node h = do {
     p \<leftarrow> rd rb_p h node;
     pp \<leftarrow> rd rb_p h p;
     uncle \<leftarrow> rd rb_left h pp;
     c \<leftarrow> rd rb_color h uncle;
     if c = RED then do {
       h1 \<leftarrow> wr rb_color_update p BLACK h;
       h2 \<leftarrow> wr rb_color_update uncle BLACK h1;
       h3 \<leftarrow> wr rb_color_update pp RED h2;
       Some (pp, h3) }
     else do {
       pl \<leftarrow> rd rb_left h p;
       (n, h1) \<leftarrow> (if node = pl then do { h' \<leftarrow> right_rotate p h; Some (p, h') } else Some (node, h));
       q \<leftarrow> rd rb_p h1 n;
       h2 \<leftarrow> wr rb_color_update q BLACK h1;
       qq \<leftarrow> rd rb_p h2 q;
       h3 \<leftarrow> wr rb_color_update qq RED h2;
       h4 \<leftarrow> left_rotate qq h3;
       Some (n, h4) } }"

partial_function (option) insert_fixup :: "nat \<Rightarrow> 'm rb \<Rightarrow> 'm rb option" where
  [code]: "insert_fixup node h =
     (if node = rb_root h then Some h
      else do {
        p \<leftarrow> rd rb_p h node;
        c \<leftarrow> rd rb_color h p;
        if c \<noteq> RED then Some h
        else do {
          pp \<leftarrow> rd rb_p h p;
          ppl \<leftarrow> rd rb_left h pp;
          x \<leftarrow> (if p = ppl then insert_left node h else insert_right node h);
          insert_fixup (fst x) (snd x) } })"

definition rb_insert :: "nat \<Rightarrow> 'm rb \<Rightarrow> 'm rb option" where
  "rb_insert node h = do {
     h1 \<leftarrow> tree_insert node h;
     h2 \<leftarrow> wr rb_color_update node RED h1;
     h3 \<leftarrow> insert_fixup node h2;
     wr rb_color_update (rb_root h3) BLACK h3 }"

section \<open>Deletion\<close>

text \<open>
  The body of the loop of \<open>rb_delete_fixup\<close>, for a node that is a left child: a red sibling is
  replaced by a black one, which is then recoloured or turned.  \<open>sibling\<close> is read again after a
  rotation, as in the source.
\<close>

definition black_sibling_left :: "nat \<Rightarrow> 'm rb \<Rightarrow> (nat \<times> 'm rb) option" where
  "black_sibling_left node h = do {
     p \<leftarrow> rd rb_p h node;
     s \<leftarrow> rd rb_right h p;
     c \<leftarrow> rd rb_color h s;
     if c = RED then do {
       h1 \<leftarrow> wr rb_color_update s BLACK h;
       h2 \<leftarrow> wr rb_color_update p RED h1;
       h3 \<leftarrow> left_rotate p h2;
       q \<leftarrow> rd rb_p h3 node;
       t \<leftarrow> rd rb_right h3 q;
       Some (t, h3) }
     else Some (s, h) }"

definition turn_sibling_left :: "nat \<Rightarrow> nat \<Rightarrow> 'm rb \<Rightarrow> (nat \<times> 'm rb) option" where
  "turn_sibling_left node s h = do {
     sl \<leftarrow> rd rb_left h s;
     h1 \<leftarrow> wr rb_color_update sl BLACK h;
     h2 \<leftarrow> wr rb_color_update s RED h1;
     h3 \<leftarrow> right_rotate s h2;
     p \<leftarrow> rd rb_p h3 node;
     t \<leftarrow> rd rb_right h3 p;
     Some (t, h3) }"

definition turn_parent_left :: "nat \<Rightarrow> nat \<Rightarrow> 'm rb \<Rightarrow> (nat \<times> 'm rb) option" where
  "turn_parent_left node s h = do {
     p \<leftarrow> rd rb_p h node;
     c \<leftarrow> rd rb_color h p;
     h1 \<leftarrow> wr rb_color_update s c h;
     h2 \<leftarrow> wr rb_color_update p BLACK h1;
     r \<leftarrow> rd rb_right h2 s;
     h3 \<leftarrow> wr rb_color_update r BLACK h2;
     h4 \<leftarrow> left_rotate p h3;
     Some (rb_root h4, h4) }"

definition delete_left :: "nat \<Rightarrow> 'm rb \<Rightarrow> (nat \<times> 'm rb) option" where
  "delete_left node h = do {
     (s, h1) \<leftarrow> black_sibling_left node h;
     sl \<leftarrow> rd rb_left h1 s;
     cl \<leftarrow> rd rb_color h1 sl;
     sr \<leftarrow> rd rb_right h1 s;
     cr \<leftarrow> rd rb_color h1 sr;
     if cl = BLACK \<and> cr = BLACK then do {
       h2 \<leftarrow> wr rb_color_update s RED h1;
       p \<leftarrow> rd rb_p h2 node;
       Some (p, h2) }
     else do {
       (t, h2) \<leftarrow> (if cr = BLACK then turn_sibling_left node s h1 else Some (s, h1));
       turn_parent_left node t h2 } }"

text \<open>The same for a right child.\<close>

definition black_sibling_right :: "nat \<Rightarrow> 'm rb \<Rightarrow> (nat \<times> 'm rb) option" where
  "black_sibling_right node h = do {
     p \<leftarrow> rd rb_p h node;
     s \<leftarrow> rd rb_left h p;
     c \<leftarrow> rd rb_color h s;
     if c = RED then do {
       h1 \<leftarrow> wr rb_color_update s BLACK h;
       h2 \<leftarrow> wr rb_color_update p RED h1;
       h3 \<leftarrow> right_rotate p h2;
       q \<leftarrow> rd rb_p h3 node;
       t \<leftarrow> rd rb_left h3 q;
       Some (t, h3) }
     else Some (s, h) }"

definition turn_sibling_right :: "nat \<Rightarrow> nat \<Rightarrow> 'm rb \<Rightarrow> (nat \<times> 'm rb) option" where
  "turn_sibling_right node s h = do {
     sr \<leftarrow> rd rb_right h s;
     h1 \<leftarrow> wr rb_color_update sr BLACK h;
     h2 \<leftarrow> wr rb_color_update s RED h1;
     h3 \<leftarrow> left_rotate s h2;
     p \<leftarrow> rd rb_p h3 node;
     t \<leftarrow> rd rb_left h3 p;
     Some (t, h3) }"

definition turn_parent_right :: "nat \<Rightarrow> nat \<Rightarrow> 'm rb \<Rightarrow> (nat \<times> 'm rb) option" where
  "turn_parent_right node s h = do {
     p \<leftarrow> rd rb_p h node;
     c \<leftarrow> rd rb_color h p;
     h1 \<leftarrow> wr rb_color_update s c h;
     h2 \<leftarrow> wr rb_color_update p BLACK h1;
     l \<leftarrow> rd rb_left h2 s;
     h3 \<leftarrow> wr rb_color_update l BLACK h2;
     h4 \<leftarrow> right_rotate p h3;
     Some (rb_root h4, h4) }"

definition delete_right :: "nat \<Rightarrow> 'm rb \<Rightarrow> (nat \<times> 'm rb) option" where
  "delete_right node h = do {
     (s, h1) \<leftarrow> black_sibling_right node h;
     sr \<leftarrow> rd rb_right h1 s;
     cr \<leftarrow> rd rb_color h1 sr;
     sl \<leftarrow> rd rb_left h1 s;
     cl \<leftarrow> rd rb_color h1 sl;
     if cr = BLACK \<and> cl = BLACK then do {
       h2 \<leftarrow> wr rb_color_update s RED h1;
       p \<leftarrow> rd rb_p h2 node;
       Some (p, h2) }
     else do {
       (t, h2) \<leftarrow> (if cl = BLACK then turn_sibling_right node s h1 else Some (s, h1));
       turn_parent_right node t h2 } }"

partial_function (option) delete_fixup_loop :: "nat \<Rightarrow> 'm rb \<Rightarrow> (nat \<times> 'm rb) option" where
  [code]: "delete_fixup_loop node h =
     (if node = rb_root h then Some (node, h)
      else do {
        c \<leftarrow> rd rb_color h node;
        if c \<noteq> BLACK then Some (node, h)
        else do {
          p \<leftarrow> rd rb_p h node;
          pl \<leftarrow> rd rb_left h p;
          x \<leftarrow> (if node = pl then delete_left node h else delete_right node h);
          delete_fixup_loop (fst x) (snd x) } })"

definition rb_delete_fixup :: "nat \<Rightarrow> 'm rb \<Rightarrow> 'm rb option" where
  "rb_delete_fixup node h = do {
     x \<leftarrow> delete_fixup_loop node h;
     wr rb_color_update (fst x) BLACK (snd x) }"

text \<open>
  \<open>rb_delete\<close> returns the node that was taken out of the tree.  Where that is not the node it was
  called for, the key is copied into that node; the two \<open>memcpy\<close> calls after it copy the handle and
  the properties the other way.
\<close>

definition splice_of :: "nat \<Rightarrow> 'm rb \<Rightarrow> nat option" where
  "splice_of delnode h = do {
     l \<leftarrow> rd rb_left h delnode;
     r \<leftarrow> rd rb_right h delnode;
     if l = nilnode \<or> r = nilnode then Some delnode else tree_successor h delnode }"

definition splice_out :: "nat \<Rightarrow> 'm rb \<Rightarrow> (nat \<times> 'm rb) option" where
  "splice_out splicenode h = do {
     sl \<leftarrow> rd rb_left h splicenode;
     tmp \<leftarrow> (if sl \<noteq> nilnode then Some sl else rd rb_right h splicenode);
     sp \<leftarrow> rd rb_p h splicenode;
     h1 \<leftarrow> wr rb_p_update tmp sp h;
     sp1 \<leftarrow> rd rb_p h1 splicenode;
     h2 \<leftarrow> (if sp1 = nilnode then Some (h1\<lparr>rb_root := tmp\<rparr>)
           else do {
             spl \<leftarrow> rd rb_left h1 sp1;
             if splicenode = spl then wr rb_left_update sp1 tmp h1 else wr rb_right_update sp1 tmp h1 });
     Some (tmp, h2) }"

definition rb_delete :: "nat \<Rightarrow> 'm rb \<Rightarrow> (nat \<times> 'm rb) option" where
  "rb_delete delnode h = do {
     splicenode \<leftarrow> splice_of delnode h;
     (tmp, h1) \<leftarrow> splice_out splicenode h;
     h2 \<leftarrow> (if splicenode \<noteq> delnode then do {
             a \<leftarrow> rd rb_addr h1 splicenode;
             k1 \<leftarrow> wr rb_addr_update delnode a h1;
             x \<leftarrow> rd rb_hndl k1 delnode;
             k2 \<leftarrow> wr rb_hndl_update splicenode x k1;
             y \<leftarrow> rd rb_prop k2 delnode;
             wr rb_prop_update splicenode y k2 }
           else Some h1);
     c \<leftarrow> rd rb_color h2 splicenode;
     h3 \<leftarrow> (if c = BLACK then rb_delete_fixup tmp h2 else Some h2);
     Some (splicenode, h3) }"

section \<open>The memory regions\<close>

text \<open>\<open>new\<close> is the address that \<open>malloc\<close> returns; \<open>free\<close> takes the node out of the allocated ones.\<close>

definition persist_mr_add :: "nat \<Rightarrow> int \<Rightarrow> int \<Rightarrow> 'm \<Rightarrow> 'm rb \<Rightarrow> 'm rb option" where
  "persist_mr_add new addr hndl prop h = do {
     h1 \<leftarrow> wr rb_addr_update new addr (h\<lparr>rb_alive := insert new (rb_alive h)\<rparr>);
     h2 \<leftarrow> wr rb_hndl_update new hndl h1;
     h3 \<leftarrow> wr rb_prop_update new prop h2;
     h4 \<leftarrow> wr rb_p_update new nilnode h3;
     h5 \<leftarrow> wr rb_left_update new nilnode h4;
     h6 \<leftarrow> wr rb_right_update new nilnode h5;
     rb_insert new h6 }"

definition persist_mr_get :: "int \<Rightarrow> 'm rb \<Rightarrow> (int \<times> 'm) option option" where
  "persist_mr_get addr h = do {
     node \<leftarrow> tree_search h (rb_root h) addr;
     if node = nilnode then Some None
     else do {
       hndl \<leftarrow> rd rb_hndl h node;
       prop \<leftarrow> rd rb_prop h node;
       Some (Some (hndl, prop)) } }"

text \<open>An address that is not there ends the program: \<open>Inl\<close>.\<close>

definition persist_mr_edit :: "int \<Rightarrow> int \<Rightarrow> 'm \<Rightarrow> 'm rb \<Rightarrow> 'm rb outcome option" where
  "persist_mr_edit addr hndl prop h = do {
     node \<leftarrow> tree_search h (rb_root h) addr;
     if node = nilnode then Some (Inl Exit)
     else do {
       h1 \<leftarrow> wr rb_hndl_update node hndl h;
       h2 \<leftarrow> wr rb_prop_update node prop h1;
       Some (Inr h2) } }"

definition free_node :: "nat \<Rightarrow> 'm rb \<Rightarrow> 'm rb" where
  "free_node node h = h\<lparr>rb_alive := rb_alive h - {node}\<rparr>"

definition persist_mr_del :: "int \<Rightarrow> 'm rb \<Rightarrow> ((int \<times> 'm) \<times> 'm rb) outcome option" where
  "persist_mr_del addr h = do {
     node \<leftarrow> tree_search h (rb_root h) addr;
     if node = nilnode then Some (Inl Exit)
     else do {
       hndl \<leftarrow> rd rb_hndl h node;
       prop \<leftarrow> rd rb_prop h node;
       (spliced, h1) \<leftarrow> rb_delete node h;
       Some (Inr ((hndl, prop), free_node spliced h1)) } }"

definition persist_mr_delrand :: "'m rb \<Rightarrow> ((int \<times> int \<times> 'm) option \<times> 'm rb) option" where
  "persist_mr_delrand h =
     (if rb_root h = nilnode then Some (None, h)
      else do {
        node \<leftarrow> tree_minimum h (rb_root h);
        addr \<leftarrow> rd rb_addr h node;
        hndl \<leftarrow> rd rb_hndl h node;
        prop \<leftarrow> rd rb_prop h node;
        (spliced, h1) \<leftarrow> rb_delete node h;
        Some (Some (addr, hndl, prop), free_node spliced h1) })"

definition empty_rb :: "'m \<Rightarrow> 'm rb" where
  "empty_rb prop = \<lparr>rb_alive = {nilnode}, rb_color = (\<lambda>_. BLACK), rb_addr = (\<lambda>_. 0), rb_hndl = (\<lambda>_. 0),
     rb_prop = (\<lambda>_. prop), rb_p = (\<lambda>_. nilnode), rb_left = (\<lambda>_. nilnode), rb_right = (\<lambda>_. nilnode),
     rb_root = nilnode\<rparr>"

end
