(* ===== verification/RbShape.thy ===== *)
theory RbShape
  imports RbTree
begin

text \<open>
  How the heap of \<open>RbTree\<close> stands for a tree: the tree of addresses that the pointers span, the
  same with a hole for the part that an operation works on, and the effect of the rotations.
\<close>

section \<open>Trees in the heap\<close>

text \<open>
  \<open>is_tree S P L R q p t\<close>: the pointer \<open>p\<close> and the fields \<open>P\<close>, \<open>L\<close>, \<open>R\<close> (parent, left, right) span the
  tree \<open>t\<close> of allocated nodes, and the parent of its root is \<open>q\<close>.
\<close>

fun is_tree :: "nat set \<Rightarrow> (nat \<Rightarrow> nat) \<Rightarrow> (nat \<Rightarrow> nat) \<Rightarrow> (nat \<Rightarrow> nat) \<Rightarrow> nat \<Rightarrow> nat \<Rightarrow> nat tree \<Rightarrow> bool" where
  "is_tree S P L R q p Leaf \<longleftrightarrow> p = nilnode"
| "is_tree S P L R q p (Node l a r) \<longleftrightarrow> p = a \<and> a \<in> S \<and> a \<noteq> nilnode \<and> P a = q
     \<and> is_tree S P L R a (L a) l \<and> is_tree S P L R a (R a) r"

text \<open>A tree with a hole, from the hole upwards: it is the left, or the right, child of a node.\<close>

datatype hole_frame = InL nat "nat tree" | InR "nat tree" nat

fun plug :: "hole_frame list \<Rightarrow> nat tree \<Rightarrow> nat tree" where
  "plug [] t = t"
| "plug (InL a r # c) t = plug c (Node t a r)"
| "plug (InR l a # c) t = plug c (Node l a t)"

text \<open>The hole has the parent \<open>q\<close> and is filled by the pointer \<open>p\<close>.\<close>

fun is_ctx :: "nat set \<Rightarrow> (nat \<Rightarrow> nat) \<Rightarrow> (nat \<Rightarrow> nat) \<Rightarrow> (nat \<Rightarrow> nat) \<Rightarrow> nat \<Rightarrow> nat \<Rightarrow> nat \<Rightarrow> hole_frame list \<Rightarrow> bool" where
  "is_ctx S P L R root q p [] \<longleftrightarrow> q = nilnode \<and> p = root"
| "is_ctx S P L R root q p (InL a r # c) \<longleftrightarrow> q = a \<and> a \<in> S \<and> a \<noteq> nilnode \<and> L a = p
     \<and> is_tree S P L R a (R a) r \<and> is_ctx S P L R root (P a) a c"
| "is_ctx S P L R root q p (InR l a # c) \<longleftrightarrow> q = a \<and> a \<in> S \<and> a \<noteq> nilnode \<and> R a = p
     \<and> is_tree S P L R a (L a) l \<and> is_ctx S P L R root (P a) a c"

fun ctx_set :: "hole_frame list \<Rightarrow> nat set" where
  "ctx_set [] = {}"
| "ctx_set (InL a r # c) = insert a (set_tree r \<union> ctx_set c)"
| "ctx_set (InR l a # c) = insert a (set_tree l \<union> ctx_set c)"

fun ctx_before :: "hole_frame list \<Rightarrow> nat list" where
  "ctx_before [] = []"
| "ctx_before (InL a r # c) = ctx_before c"
| "ctx_before (InR l a # c) = ctx_before c @ inorder l @ [a]"

fun ctx_after :: "hole_frame list \<Rightarrow> nat list" where
  "ctx_after [] = []"
| "ctx_after (InL a r # c) = a # inorder r @ ctx_after c"
| "ctx_after (InR l a # c) = ctx_after c"

lemma inorder_plug [simp]: "inorder (plug c t) = ctx_before c @ inorder t @ ctx_after c"
  by (induction c t rule: plug.induct) auto

lemma ctx_set_lists: "ctx_set c = set (ctx_before c) \<union> set (ctx_after c)"
  by (induction c rule: ctx_set.induct) auto

lemma set_tree_plug [simp]: "set_tree (plug c t) = set_tree t \<union> ctx_set c"
  by (induction c t rule: plug.induct) auto

lemma is_tree_plug:
  "is_tree S P L R nilnode root (plug c t) \<longleftrightarrow> (\<exists>q p. is_ctx S P L R root q p c \<and> is_tree S P L R q p t)"
proof (induction c t rule: plug.induct)
  case (1 t) then show ?case by auto
next
  case (2 a r c t) then show ?case by auto
next
  case (3 l a c t) then show ?case by auto
qed

text \<open>The fields of other nodes do not matter.\<close>

lemma is_tree_frame [simp]:
  "a \<notin> set_tree t \<Longrightarrow> is_tree S (P(a := v)) L R q p t = is_tree S P L R q p t"
  "a \<notin> set_tree t \<Longrightarrow> is_tree S P (L(a := v)) R q p t = is_tree S P L R q p t"
  "a \<notin> set_tree t \<Longrightarrow> is_tree S P L (R(a := v)) q p t = is_tree S P L R q p t"
  by (induction t arbitrary: q p) auto

lemma is_ctx_frame [simp]:
  "a \<notin> ctx_set c \<Longrightarrow> is_ctx S (P(a := v)) L R root q p c = is_ctx S P L R root q p c"
  "a \<notin> ctx_set c \<Longrightarrow> is_ctx S P (L(a := v)) R root q p c = is_ctx S P L R root q p c"
  "a \<notin> ctx_set c \<Longrightarrow> is_ctx S P L (R(a := v)) root q p c = is_ctx S P L R root q p c"
  by (induction S P L R root q p c rule: is_ctx.induct) auto

lemma is_tree_alive: "is_tree S P L R q p t \<Longrightarrow> set_tree t \<subseteq> S \<and> nilnode \<notin> set_tree t"
  by (induction t arbitrary: q p) (simp_all, blast)

lemma is_ctx_alive: "is_ctx S P L R root q p c \<Longrightarrow> ctx_set c \<subseteq> S \<and> nilnode \<notin> ctx_set c"
  by (induction S P L R root q p c rule: is_ctx.induct) (auto dest: is_tree_alive)

lemma is_tree_more_alive: "S \<subseteq> S' \<Longrightarrow> is_tree S P L R q p t \<Longrightarrow> is_tree S' P L R q p t"
  by (induction t arbitrary: q p) auto

lemma is_tree_fewer_alive: "a \<notin> set_tree t \<Longrightarrow> is_tree S P L R q p t \<Longrightarrow> is_tree (S - {a}) P L R q p t"
  by (induction t arbitrary: q p) auto

text \<open>A subtree gets another parent.\<close>

lemma is_tree_reparent:
  "is_tree S P L R q p t \<Longrightarrow> t \<noteq> Leaf \<Longrightarrow> distinct (inorder t) \<Longrightarrow> is_tree S (P(p := q')) L R q' p t"
  by (cases t) auto

lemma is_tree_root: "is_tree S P L R q p t \<Longrightarrow> t = Leaf \<longleftrightarrow> p = nilnode"
  by (cases t) auto

lemma is_tree_root_in: "is_tree S P L R q p t \<Longrightarrow> p \<noteq> nilnode \<Longrightarrow> p \<in> set_tree t"
  by (cases t) auto

section \<open>The representation\<close>

text \<open>The heap holds the tree \<open>t\<close>; \<open>same_data\<close>: nothing but pointers and colours has changed.\<close>

definition holds :: "'m rb \<Rightarrow> nat tree \<Rightarrow> bool" where
  "holds h t \<longleftrightarrow> nilnode \<in> rb_alive h \<and> rb_color h nilnode = BLACK \<and> distinct (inorder t)
     \<and> is_tree (rb_alive h) (rb_p h) (rb_left h) (rb_right h) nilnode (rb_root h) t"

definition same_data :: "'m rb \<Rightarrow> 'm rb \<Rightarrow> bool" where
  "same_data h h' \<longleftrightarrow> rb_alive h' = rb_alive h \<and> rb_addr h' = rb_addr h \<and> rb_hndl h' = rb_hndl h
     \<and> rb_prop h' = rb_prop h"

lemma same_data_refl [simp]: "same_data h h" by (simp add: same_data_def)

lemma same_data_trans: "same_data h1 h2 \<Longrightarrow> same_data h2 h3 \<Longrightarrow> same_data h1 h3"
  by (simp add: same_data_def)

definition focus :: "'m rb \<Rightarrow> nat \<Rightarrow> nat \<Rightarrow> hole_frame list \<Rightarrow> nat tree \<Rightarrow> bool" where
  "focus h q p c t \<longleftrightarrow> is_ctx (rb_alive h) (rb_p h) (rb_left h) (rb_right h) (rb_root h) q p c
     \<and> is_tree (rb_alive h) (rb_p h) (rb_left h) (rb_right h) q p t"

lemma holds_focus:
  "holds h (plug c t) \<longleftrightarrow> nilnode \<in> rb_alive h \<and> rb_color h nilnode = BLACK
     \<and> distinct (ctx_before c @ inorder t @ ctx_after c) \<and> (\<exists>q p. focus h q p c t)"
  by (auto simp: holds_def focus_def is_tree_plug)

text \<open>Access to nodes that are allocated.\<close>

lemma rd_alive [simp]: "a \<in> rb_alive h \<Longrightarrow> rd f h a = Some (f h a)"
  by (simp add: rd_def)

lemma wr_alive [simp]:
  "a \<in> rb_alive h \<Longrightarrow> wr rb_color_update a k h = Some (h\<lparr>rb_color := (rb_color h)(a := k)\<rparr>)"
  "a \<in> rb_alive h \<Longrightarrow> wr rb_addr_update a i h = Some (h\<lparr>rb_addr := (rb_addr h)(a := i)\<rparr>)"
  "a \<in> rb_alive h \<Longrightarrow> wr rb_hndl_update a i h = Some (h\<lparr>rb_hndl := (rb_hndl h)(a := i)\<rparr>)"
  "a \<in> rb_alive h \<Longrightarrow> wr rb_prop_update a m h = Some (h\<lparr>rb_prop := (rb_prop h)(a := m)\<rparr>)"
  "a \<in> rb_alive h \<Longrightarrow> wr rb_p_update a q h = Some (h\<lparr>rb_p := (rb_p h)(a := q)\<rparr>)"
  "a \<in> rb_alive h \<Longrightarrow> wr rb_left_update a q h = Some (h\<lparr>rb_left := (rb_left h)(a := q)\<rparr>)"
  "a \<in> rb_alive h \<Longrightarrow> wr rb_right_update a q h = Some (h\<lparr>rb_right := (rb_right h)(a := q)\<rparr>)"
  by (simp_all add: wr_def)

section \<open>Mirror images\<close>

text \<open>The second half of each loop is the first with left and right exchanged.\<close>

definition flip :: "'m rb \<Rightarrow> 'm rb" where
  "flip h = h\<lparr>rb_left := rb_right h, rb_right := rb_left h\<rparr>"

lemma flip_simps [simp]:
  "rb_alive (flip h) = rb_alive h" "rb_color (flip h) = rb_color h" "rb_addr (flip h) = rb_addr h"
  "rb_hndl (flip h) = rb_hndl h" "rb_prop (flip h) = rb_prop h" "rb_p (flip h) = rb_p h"
  "rb_left (flip h) = rb_right h" "rb_right (flip h) = rb_left h" "rb_root (flip h) = rb_root h"
  "flip (flip h) = h"
  by (simp_all add: flip_def)

lemma rd_flip [simp]:
  "rd rb_color (flip h) a = rd rb_color h a" "rd rb_p (flip h) a = rd rb_p h a"
  "rd rb_left (flip h) a = rd rb_right h a" "rd rb_right (flip h) a = rd rb_left h a"
  by (simp_all add: rd_def)

lemma wr_flip [simp]:
  "wr rb_color_update a v (flip h) = map_option flip (wr rb_color_update a v h)"
  "wr rb_p_update a w (flip h) = map_option flip (wr rb_p_update a w h)"
  "wr rb_left_update a w (flip h) = map_option flip (wr rb_right_update a w h)"
  "wr rb_right_update a w (flip h) = map_option flip (wr rb_left_update a w h)"
  by (simp_all add: wr_def flip_def)

lemma root_flip [simp]: "(flip h)\<lparr>rb_root := r\<rparr> = flip (h\<lparr>rb_root := r\<rparr>)"
  by (simp add: flip_def)

fun flip_ctx :: "hole_frame list \<Rightarrow> hole_frame list" where
  "flip_ctx [] = []"
| "flip_ctx (InL a r # c) = InR (mirror r) a # flip_ctx c"
| "flip_ctx (InR l a # c) = InL a (mirror l) # flip_ctx c"

lemma is_tree_mirror [simp]: "is_tree S P R L q p (mirror t) = is_tree S P L R q p t"
  by (induction t arbitrary: q p) auto

lemma flip_plug: "mirror (plug c t) = plug (flip_ctx c) (mirror t)"
  by (induction c t rule: plug.induct) auto

lemma holds_flip [simp]: "holds (flip h) (mirror t) = holds h t"
  by (simp add: holds_def inorder_mirror)

lemma same_data_flip [simp]: "same_data (flip h) (flip h') = same_data h h'"
  by (simp add: same_data_def)

lemma map_bind: "Option.bind (map_option f x) g = Option.bind x (\<lambda>y. g (f y))"
  by (cases x) simp_all

lemma bind_map: "map_option f (Option.bind x g) = Option.bind x (\<lambda>y. map_option f (g y))"
  by (cases x) simp_all

lemma right_rotate_flip: "right_rotate node (flip h) = map_option flip (left_rotate node h)"
  by (simp add: left_rotate_def right_rotate_def map_bind bind_map if_distrib [of "map_option flip"]
      if_distrib [of "\<lambda>x. Option.bind x g" for g] cong: if_cong option.case_cong)


lemma left_rotate_flip: "left_rotate node (flip h) = map_option flip (right_rotate node h)"
  using right_rotate_flip [of node "flip h"] by (simp add: option.map_comp comp_def option.map_ident)

section \<open>Rotations\<close>

text \<open>What the parent \<open>q\<close> of \<open>x\<close>, or the root pointer, points to becomes \<open>y\<close>.\<close>

definition repoint :: "nat \<Rightarrow> nat \<Rightarrow> nat \<Rightarrow> 'm rb \<Rightarrow> 'm rb" where
  "repoint q x y h =
     (if q = nilnode then h\<lparr>rb_root := y\<rparr>
      else if x = rb_left h q then h\<lparr>rb_left := (rb_left h)(q := y)\<rparr>
      else h\<lparr>rb_right := (rb_right h)(q := y)\<rparr>)"

lemma repoint_fields [simp]:
  "rb_alive (repoint q x y h) = rb_alive h" "rb_color (repoint q x y h) = rb_color h"
  "rb_addr (repoint q x y h) = rb_addr h" "rb_hndl (repoint q x y h) = rb_hndl h"
  "rb_prop (repoint q x y h) = rb_prop h" "rb_p (repoint q x y h) = rb_p h"
  "a \<noteq> q \<Longrightarrow> rb_left (repoint q x y h) a = rb_left h a"
  "a \<noteq> q \<Longrightarrow> rb_right (repoint q x y h) a = rb_right h a"
  by (simp_all add: repoint_def)

lemma repoint_tree:
  "q \<notin> set_tree t \<Longrightarrow> is_tree S P (rb_left (repoint q x y h)) (rb_right (repoint q x y h)) q' p t
     = is_tree S P (rb_left h) (rb_right h) q' p t"
  by (simp add: repoint_def)

lemma hole_parent: "is_ctx S P L R root q x c \<Longrightarrow> q = nilnode \<or> q \<in> ctx_set c \<and> q \<in> S"
  by (cases c rule: ctx_set.cases) auto

lemma repoint_ctx:
  assumes "is_ctx S P (rb_left h) (rb_right h) (rb_root h) q x c" and "x \<notin> ctx_set c" and "x \<noteq> nilnode"
    and "distinct (ctx_before c @ ctx_after c)"
  shows "is_ctx S P (rb_left (repoint q x y h)) (rb_right (repoint q x y h)) (rb_root (repoint q x y h)) q y c"
proof (cases c rule: ctx_set.cases)
  case 1
  with assms show ?thesis by (simp add: repoint_def)
next
  case (2 a r c')
  with assms show ?thesis by (auto simp: repoint_def ctx_set_lists)
next
  case (3 l a c')
  then have "rb_left h a \<noteq> x" using assms by (auto dest: is_tree_root_in)
  with 3 assms show ?thesis by (auto simp: repoint_def ctx_set_lists)
qed

text \<open>The rotation as one update, where all the nodes it uses are allocated.\<close>

lemma left_rotate_eq:
  assumes f: "rb_right h x = y" "rb_p h x = q" "rb_left h y = b"
    and n: "x \<noteq> y" "x \<noteq> b" "x \<noteq> q" "y \<noteq> q"
    and al: "x \<in> rb_alive h" "y \<in> rb_alive h" "b \<in> rb_alive h" "q \<noteq> nilnode \<Longrightarrow> q \<in> rb_alive h"
    and h1: "h1 = h\<lparr>rb_right := (rb_right h)(x := b), rb_p := (if b \<noteq> nilnode then (rb_p h)(b := x) else rb_p h)\<rparr>"
    and h2: "h2 = repoint q x y h1"
  shows "left_rotate x h = Some (h2\<lparr>rb_left := (rb_left h2)(y := x), rb_p := (rb_p h2)(y := q, x := y)\<rparr>)"
proof (cases "q = nilnode")
  case True
  then show ?thesis using n by (simp add: left_rotate_def repoint_def h2 h1 f al)
next
  case False
  then show ?thesis using n eq_commute [of x "rb_left h q"]
    by (cases "rb_left h q = x") (simp_all add: left_rotate_def repoint_def h2 h1 f al)
qed

lemma left_rotate_focus:
  assumes f: "focus h q x c (Node A x (Node B y C))"
    and d: "distinct (ctx_before c @ inorder (Node A x (Node B y C)) @ ctx_after c)"
    and nil: "nilnode \<in> rb_alive h"
  shows "\<exists>h'. left_rotate x h = Some h' \<and> focus h' q y c (Node (Node A x B) y C) \<and> same_data h h'
     \<and> rb_color h' = rb_color h \<and> rb_p h' nilnode = rb_p h nilnode"
proof -
  let ?S = "rb_alive h" and ?P = "rb_p h" and ?L = "rb_left h" and ?R = "rb_right h"
  let ?b = "?L y"
  have t: "?R x = y" "y \<in> ?S" "y \<noteq> nilnode" "?P y = x" "x \<in> ?S" "x \<noteq> nilnode" "?P x = q"
    "is_tree ?S ?P ?L ?R x (?L x) A" "is_tree ?S ?P ?L ?R y ?b B" "is_tree ?S ?P ?L ?R y (?R y) C"
    and c: "is_ctx ?S ?P ?L ?R (rb_root h) q x c"
    using f by (auto simp: focus_def)
  have n: "x \<noteq> y" "x \<notin> set_tree A" "x \<notin> set_tree B" "x \<notin> set_tree C" "y \<notin> set_tree A"
    "y \<notin> set_tree B" "y \<notin> set_tree C" "x \<notin> ctx_set c" "y \<notin> ctx_set c" "distinct (inorder B)"
    "distinct (ctx_before c @ ctx_after c)"
    and disj: "set_tree A \<inter> ctx_set c = {}" "set_tree B \<inter> ctx_set c = {}" "set_tree C \<inter> ctx_set c = {}"
    "set_tree A \<inter> set_tree B = {}" "set_tree B \<inter> set_tree C = {}"
    using d by (auto simp: ctx_set_lists)
  have b: "?b \<in> ?S" "?b = nilnode \<or> ?b \<in> set_tree B" "?b = nilnode \<longleftrightarrow> B = Leaf"
    using is_tree_root [OF t(9)] is_tree_root_in [OF t(9)] is_tree_alive [OF t(9)] nil by auto
  have q: "q = nilnode \<or> q \<in> ctx_set c \<and> q \<in> ?S" by (rule hole_parent [OF c])
  have qn: "q \<notin> set_tree A" "q \<notin> set_tree B" "q \<notin> set_tree C" "q \<noteq> x" "q \<noteq> y"
    using q disj n t is_tree_alive [OF t(8)] is_tree_alive [OF t(9)] is_tree_alive [OF t(10)] by auto
  have bn: "?b \<notin> set_tree A" "?b \<notin> set_tree C" "?b \<notin> ctx_set c" "?b \<noteq> x" "?b \<noteq> y"
    using b(2) disj n t is_tree_alive [OF t(8)] is_tree_alive [OF t(10)] is_ctx_alive [OF c] by auto
  let ?P1 = "if ?b \<noteq> nilnode then ?P(?b := x) else ?P"
  define h1 where "h1 = h\<lparr>rb_right := ?R(x := ?b), rb_p := ?P1\<rparr>"
  define h2 where "h2 = repoint q x y h1"
  let ?h = "h2\<lparr>rb_left := (rb_left h2)(y := x), rb_p := (rb_p h2)(y := q, x := y)\<rparr>"
  have rot: "left_rotate x h = Some ?h"
    using q qn bn n(1) t b(1) by (intro left_rotate_eq [OF _ _ _ _ _ _ _ _ _ _ _ h1_def h2_def]) auto
  have B: "is_tree ?S ?P1 ?L ?R x ?b B" using t(9) b(3) n(10) by (auto intro: is_tree_reparent)
  have "is_ctx ?S (rb_p h1) (rb_left h1) (rb_right h1) (rb_root h1) q x c" using c n bn by (simp add: h1_def)
  from repoint_ctx [OF this n(8) t(6) n(11), of y]
  have C: "is_ctx ?S ?P1 (rb_left h2) (rb_right h2) (rb_root h2) q y c" by (simp add: h1_def h2_def)
  have "focus ?h q y c (Node (Node A x B) y C)"
    using t n B C b qn bn by (simp add: focus_def h2_def h1_def repoint_tree)
  moreover have "same_data h ?h" "rb_color ?h = rb_color h" "rb_p ?h nilnode = rb_p h nilnode"
    using t by (simp_all add: same_data_def h2_def h1_def)
  ultimately show ?thesis using rot by blast
qed

section \<open>Reading and rotating in a tree that is held\<close>

text \<open>The root of a tree, and the parent of a hole, as pointers.\<close>

fun rt :: "nat tree \<Rightarrow> nat" where
  "rt Leaf = nilnode"
| "rt (Node l a r) = a"

fun up :: "hole_frame list \<Rightarrow> nat" where
  "up [] = nilnode"
| "up (InL a r # c) = a"
| "up (InR l a # c) = a"

lemma is_tree_rt: "is_tree S P L R q p t \<Longrightarrow> p = rt t"
  by (cases t) auto

lemma is_ctx_up: "is_ctx S P L R root q p c \<Longrightarrow> q = up c"
  by (cases c rule: up.cases) auto

lemma holds_distinct: "holds h t \<Longrightarrow> distinct (inorder t)"
  by (simp add: holds_def)

lemma holds_nil: "holds h t \<Longrightarrow> nilnode \<in> rb_alive h \<and> rb_color h nilnode = BLACK"
  by (simp add: holds_def)

lemma holds_root: "holds h t \<Longrightarrow> rb_root h = rt t"
  by (auto simp: holds_def dest: is_tree_rt)

lemma holds_node:
  assumes "holds h (plug c (Node l a r))"
  shows "a \<in> rb_alive h" "a \<noteq> nilnode" "rb_p h a = up c" "rb_left h a = rt l" "rb_right h a = rt r"
proof -
  obtain q p where "focus h q p c (Node l a r)" using assms holds_focus by blast
  then show "a \<in> rb_alive h" "a \<noteq> nilnode" "rb_p h a = up c" "rb_left h a = rt l" "rb_right h a = rt r"
    by (auto simp: focus_def dest: is_tree_rt is_ctx_up)
qed

lemma holds_in: "holds h t \<Longrightarrow> a \<in> set_tree t \<Longrightarrow> a \<in> rb_alive h \<and> a \<noteq> nilnode"
  by (auto simp: holds_def dest: is_tree_alive)

lemma rt_alive: "holds h (plug c t) \<Longrightarrow> rt t \<in> rb_alive h"
  by (cases t) (auto dest: holds_nil holds_node)

lemma up_alive: "holds h (plug c t) \<Longrightarrow> up c \<in> rb_alive h"
  using holds_nil holds_in [of h "plug c t" "up c"] by (cases c rule: up.cases) auto

lemma holds_color [simp]:
  "a \<noteq> nilnode \<Longrightarrow> holds (h\<lparr>rb_color := (rb_color h)(a := v)\<rparr>) t = holds h t"
  by (simp add: holds_def)

definition rotated :: "'m rb \<Rightarrow> 'm rb \<Rightarrow> bool" where
  "rotated h h' \<longleftrightarrow> same_data h h' \<and> rb_color h' = rb_color h \<and> rb_p h' nilnode = rb_p h nilnode"

lemma holds_left_rotate:
  assumes "holds h (plug c (Node A x (Node B y C)))"
  shows "\<exists>h'. left_rotate x h = Some h' \<and> holds h' (plug c (Node (Node A x B) y C)) \<and> rotated h h'"
proof -
  from assms obtain q p where f: "focus h q p c (Node A x (Node B y C))"
    and d: "distinct (ctx_before c @ inorder (Node A x (Node B y C)) @ ctx_after c)"
    and n: "nilnode \<in> rb_alive h" "rb_color h nilnode = BLACK" using holds_focus by blast
  have p: "p = x" using f by (simp add: focus_def)
  from left_rotate_focus [OF f [unfolded p] d n(1)] obtain h' where "left_rotate x h = Some h'"
      "focus h' q y c (Node (Node A x B) y C)" "same_data h h'" "rb_color h' = rb_color h"
      "rb_p h' nilnode = rb_p h nilnode" by blast
  with d n show ?thesis unfolding holds_focus rotated_def
    by (intro exI [of _ h'] conjI) (auto simp: same_data_def)
qed

lemma holds_right_rotate:
  assumes "holds h (plug c (Node (Node A x B) y C))"
  shows "\<exists>h'. right_rotate y h = Some h' \<and> holds h' (plug c (Node A x (Node B y C))) \<and> rotated h h'"
proof -
  from assms have "holds (flip h) (plug (flip_ctx c) (Node (mirror C) y (Node (mirror B) x (mirror A))))"
    using holds_flip [of h "plug c (Node (Node A x B) y C)"] by (simp add: flip_plug)
  from holds_left_rotate [OF this] obtain h' where h': "left_rotate y (flip h) = Some h'"
      "holds h' (mirror (plug c (Node A x (Node B y C))))" "rotated (flip h) h'" by (auto simp: flip_plug)
  then have "right_rotate y h = Some (flip h')" using right_rotate_flip [of y "flip h"] by simp
  with h' show ?thesis using holds_flip [of "flip h'" "plug c (Node A x (Node B y C))"]
    by (auto simp: rotated_def same_data_def)
qed

end
