(* ===== verification/RbInsert.thy ===== *)
theory RbInsert
  imports RbShape
begin

text \<open>
  Insertion into the tree of \<open>RbTree\<close>: the colour and height invariants of a red-black tree, for
  whole trees and for a tree with a hole, and the repair after an insertion.
\<close>

section \<open>Red-black trees\<close>

fun bh :: "(nat \<Rightarrow> rb_node_color) \<Rightarrow> nat tree \<Rightarrow> nat" where
  "bh col Leaf = 0"
| "bh col (Node l a r) = bh col l + (if col a = BLACK then 1 else 0)"

fun tcol :: "(nat \<Rightarrow> rb_node_color) \<Rightarrow> nat tree \<Rightarrow> rb_node_color" where
  "tcol col Leaf = BLACK"
| "tcol col (Node l a r) = col a"

fun rb_ok :: "(nat \<Rightarrow> rb_node_color) \<Rightarrow> nat tree \<Rightarrow> bool" where
  "rb_ok col Leaf \<longleftrightarrow> True"
| "rb_ok col (Node l a r) \<longleftrightarrow> rb_ok col l \<and> rb_ok col r \<and> bh col l = bh col r
     \<and> (col a = RED \<longrightarrow> tcol col l = BLACK \<and> tcol col r = BLACK)"

text \<open>A context into which a tree of black height \<open>n\<close> and root colour \<open>k\<close> fits.\<close>

fun ctx_ok :: "(nat \<Rightarrow> rb_node_color) \<Rightarrow> hole_frame list \<Rightarrow> nat \<Rightarrow> rb_node_color \<Rightarrow> bool" where
  "ctx_ok col [] n k \<longleftrightarrow> k = BLACK"
| "ctx_ok col (InL a r # c) n k \<longleftrightarrow> rb_ok col r \<and> bh col r = n
     \<and> (col a = RED \<longrightarrow> k = BLACK \<and> tcol col r = BLACK) \<and> ctx_ok col c (n + (if col a = BLACK then 1 else 0)) (col a)"
| "ctx_ok col (InR l a # c) n k \<longleftrightarrow> rb_ok col l \<and> bh col l = n
     \<and> (col a = RED \<longrightarrow> k = BLACK \<and> tcol col l = BLACK) \<and> ctx_ok col c (n + (if col a = BLACK then 1 else 0)) (col a)"

definition rb_tree :: "(nat \<Rightarrow> rb_node_color) \<Rightarrow> nat tree \<Rightarrow> bool" where
  "rb_tree col t \<longleftrightarrow> rb_ok col t \<and> tcol col t = BLACK"

lemma rb_tree_plug: "rb_tree col (plug c t) \<longleftrightarrow> rb_ok col t \<and> ctx_ok col c (bh col t) (tcol col t)"
  by (induction c t rule: plug.induct) (auto simp: rb_tree_def)

lemma not_black [simp]: "k \<noteq> BLACK \<longleftrightarrow> k = RED" "k \<noteq> RED \<longleftrightarrow> k = BLACK"
  by (cases k; simp)+

lemma bh_frame [simp]: "a \<notin> set_tree t \<Longrightarrow> bh (col(a := v)) t = bh col t"
  by (induction t) auto

lemma tcol_frame [simp]: "a \<notin> set_tree t \<Longrightarrow> tcol (col(a := v)) t = tcol col t"
  by (cases t) auto

lemma rb_ok_frame [simp]: "a \<notin> set_tree t \<Longrightarrow> rb_ok (col(a := v)) t = rb_ok col t"
  by (induction t) auto

lemma ctx_color_frame [simp]: "a \<notin> ctx_set c \<Longrightarrow> ctx_ok (col(a := v)) c n k = ctx_ok col c n k"
  by (induction col c n k rule: ctx_ok.induct) auto

lemma ctx_ok_weaken: "ctx_ok col c n k \<Longrightarrow> ctx_ok col c n BLACK"
  by (cases c rule: up.cases) auto

lemma red_has_parent: "ctx_ok col c n RED \<Longrightarrow> c \<noteq> []"
  by auto

lemma tcol_rt: "col nilnode = BLACK \<Longrightarrow> col (rt t) = tcol col t"
  by (cases t) auto


section \<open>The repair after an insertion\<close>

text \<open>
  The loop moves a red node \<open>x\<close> upwards; all that may be wrong is that its parent is red, or that it
  is the root.
\<close>

definition red_at :: "(nat \<Rightarrow> rb_node_color) \<Rightarrow> hole_frame list \<Rightarrow> nat tree \<Rightarrow> bool" where
  "red_at col c t \<longleftrightarrow> rb_ok col t \<and> tcol col t = RED \<and> ctx_ok col c (bh col t) BLACK"

text \<open>The colours of the two ways to go on: recolouring, and turning the grandparent down.\<close>

lemma recolour_ok:
  assumes "distinct (inorder (Node l g r))" and "set_tree (Node l g r) \<inter> ctx_set c = {}"
    and "ctx_ok col c (bh col l + 1) BLACK" and "bh col l = bh col r" and "l \<noteq> Leaf" and "r \<noteq> Leaf"
    and "rb_ok (col(rt l := BLACK)) l" and "rb_ok col r" and "tcol col l = RED" and "tcol col r = RED"
  shows "red_at (col(rt l := BLACK, rt r := BLACK, g := RED)) c (Node l g r)"
proof -
  obtain a p b where l: "l = Node a p b" using assms(5) by (cases l) auto
  obtain d u e where r: "r = Node d u e" using assms(6) by (cases r) auto
  have "p \<noteq> u" "p \<noteq> g" "u \<noteq> g" "p \<notin> set_tree r" "u \<notin> set_tree l" "g \<notin> set_tree l" "g \<notin> set_tree r"
    "p \<notin> set_tree a" "p \<notin> set_tree b" "u \<notin> set_tree d" "u \<notin> set_tree e"
    "p \<notin> ctx_set c" "u \<notin> ctx_set c" "g \<notin> ctx_set c"
    using assms(1,2) by (auto simp: l r)
  with assms show ?thesis by (auto simp: red_at_def l r fun_upd_twist)
qed

lemma turn_ok:
  assumes "distinct (inorder (Node (Node (Node A n B) q C) g U))"
    and "set_tree (Node (Node (Node A n B) q C) g U) \<inter> ctx_set c = {}"
    and "rb_ok col (Node A n B)" and "col n = RED" and "rb_ok col C" and "rb_ok col U"
    and "bh col C = bh col A" and "bh col U = bh col A" and "tcol col C = BLACK" and "tcol col U = BLACK"
    and "ctx_ok col c (bh col A + 1) k"
  shows "red_at (col(q := BLACK, g := RED)) (InL q (Node C g U) # c) (Node A n B)"
  using assms by (auto simp: red_at_def intro: ctx_ok_weaken)

lemma turn_holds:
  assumes h: "holds h (plug c (Node (Node (Node A n B) q C) g U))"
  shows "\<exists>h'. do {
       q \<leftarrow> rd rb_p h n;
       h2 \<leftarrow> wr rb_color_update q BLACK h;
       qq \<leftarrow> rd rb_p h2 q;
       h3 \<leftarrow> wr rb_color_update qq RED h2;
       h4 \<leftarrow> right_rotate qq h3;
       Some (n, h4) } = Some (n, h') \<and> holds h' (plug (InL q (Node C g U) # c) (Node A n B)) \<and> same_data h h'
     \<and> rb_color h' = (rb_color h)(q := BLACK, g := RED)"
proof -
  note g = holds_node [OF h]
  have "holds h (plug (InL g U # c) (Node (Node A n B) q C))" using h by simp
  note q = holds_node [OF this]
  have "holds h (plug (InL q C # InL g U # c) (Node A n B))" using h by simp
  note n = holds_node [OF this]
  let ?h = "h\<lparr>rb_color := (rb_color h)(q := BLACK, g := RED)\<rparr>"
  have "holds ?h (plug c (Node (Node (Node A n B) q C) g U))" using h q g by (simp add: holds_def)
  from holds_right_rotate [OF this] obtain h' where "right_rotate g ?h = Some h'"
      "holds h' (plug c (Node (Node A n B) q (Node C g U)))" "rotated ?h h'" by blast
  with g q n show ?thesis by (auto simp: rotated_def same_data_def comp_def)
qed

text \<open>
  One round of the loop: the order of the nodes and their data stay, and the red node is closer to
  the root.
\<close>

definition insert_moves :: "'m rb \<Rightarrow> hole_frame list \<Rightarrow> nat tree \<Rightarrow> nat \<Rightarrow> 'm rb \<Rightarrow> bool" where
  "insert_moves h c t n h' \<longleftrightarrow> (\<exists>c' l r. holds h' (plug c' (Node l n r)) \<and> red_at (rb_color h') c' (Node l n r)
     \<and> length c' < length c \<and> inorder (plug c' (Node l n r)) = inorder (plug c t) \<and> same_data h h')"

lemma insert_movesI:
  assumes "holds h' (plug c' (Node l n r))" and "red_at (rb_color h') c' (Node l n r)" and "length c' < length c"
    and "inorder (plug c' (Node l n r)) = inorder (plug c t)" and "same_data h h'"
  shows "insert_moves h c t n h'"
  using assms unfolding insert_moves_def by blast

lemma insert_left_moves:
  assumes h: "holds h (plug (F # InL g U # c) (Node l x r))" and F: "F = InL p S \<or> F = InR S p"
    and red: "red_at (rb_color h) (F # InL g U # c) (Node l x r)" and p: "rb_color h p = RED"
  shows "\<exists>n h'. insert_left x h = Some (n, h') \<and> insert_moves h (F # InL g U # c) (Node l x r) n h'"
proof -
  let ?col = "rb_color h"
  define T where "T = (case F of InL _ _ \<Rightarrow> Node (Node l x r) p S | InR _ _ \<Rightarrow> Node S p (Node l x r))"
  have hT: "holds h (plug c (Node T g U))" using h F by (auto simp: T_def)
  have rtT: "rt T = p" "T \<noteq> Leaf" "tcol ?col T = RED" using F p by (auto simp: T_def)
  note g = holds_node [OF hT]
  have px: "rb_p h x = p" "x \<in> rb_alive h" "x \<noteq> nilnode" using holds_node [OF h] F by auto
  have pn: "rb_p h p = g" "p \<in> rb_alive h" "p \<noteq> nilnode"
    "rb_right h p = (case F of InL _ _ \<Rightarrow> rt S | InR _ _ \<Rightarrow> x)"
    using F holds_node [of h "InL g U # c" "Node l x r" p S] holds_node [of h "InL g U # c" S p "Node l x r"] h by auto
  have u: "rt U \<in> rb_alive h" "?col (rt U) = tcol ?col U"
    using rt_alive [of h "InR T g # c" U] hT holds_nil [OF h] by (auto simp: tcol_rt)
  have d: "distinct (inorder (plug c (Node T g U)))" by (rule holds_distinct [OF hT])
  have dd: "distinct (inorder (Node T g U))" "set_tree (Node T g U) \<inter> ctx_set c = {}"
    using d by (auto simp: ctx_set_lists)
  have x: "x \<in> set_tree T" "x \<noteq> rt S" "set_tree S \<subseteq> set_tree T" "p \<in> set_tree T"
    using F dd px by (cases S; auto simp: T_def)+
  have gb: "?col g = BLACK" using red F p by (auto simp: red_at_def)
  have ok: "rb_ok ?col (Node l x r)" "?col x = RED" "rb_ok ?col S" "bh ?col S = bh ?col l" "tcol ?col S = BLACK"
      "rb_ok ?col U" "bh ?col U = bh ?col l" "ctx_ok ?col c (bh ?col l + 1) BLACK"
      "tcol ?col l = BLACK" "tcol ?col r = BLACK" "bh ?col r = bh ?col l"
    using red F gb p by (auto simp: red_at_def)
  show ?thesis
  proof (cases "tcol ?col U = RED")
    case True
    then obtain d u e where U: "U = Node d u e" by (cases U) auto
    let ?h = "h\<lparr>rb_color := ?col(p := BLACK, u := BLACK, g := RED)\<rparr>"
    have un: "u \<noteq> nilnode" using holds_node [of h "InR T g # c" d u e] hT U by simp
    have "insert_left x h = Some (g, ?h)" using px pn g u True U by (simp add: insert_left_def)
    moreover have "holds ?h (plug c (Node T g U))" using hT g pn un by (simp add: holds_def)
    moreover have "rb_ok (?col(p := BLACK)) T"
      using ok F dd by (auto simp: T_def)
    then have "red_at (rb_color ?h) c (Node T g U)"
      using recolour_ok [OF dd, of ?col] ok True rtT F U p by (auto simp: T_def)
    ultimately show ?thesis
      using F by (intro exI conjI) (assumption, rule insert_movesI, assumption+, auto simp: T_def same_data_def)
  next
    case False
    have un: "?col (rt U) = BLACK" "tcol ?col U = BLACK" using False u by auto
    from F show ?thesis
    proof
      assume F: "F = InL p S"
      have "holds h (plug c (Node (Node (Node l x r) p S) g U))" using h F by simp
      from turn_holds [OF this] obtain h' where h': "holds h' (plug (InL p (Node S g U) # c) (Node l x r))"
          "same_data h h'" "rb_color h' = ?col(p := BLACK, g := RED)" and i: "insert_left x h = Some (x, h')"
        using px pn g u un F x by (auto simp: insert_left_def)
      have "red_at (rb_color h') (InL p (Node S g U) # c) (Node l x r)"
        using turn_ok [of l x r p S g U c ?col BLACK] dd ok un F unfolding h'(3) by (simp add: T_def)
      with h' i F show ?thesis by (intro exI conjI) (assumption, rule insert_movesI, assumption+, auto)
    next
      assume F: "F = InR S p"
      have "holds h (plug (InL g U # c) (Node S p (Node l x r)))" using h F by simp
      from holds_left_rotate [OF this] obtain h1 where h1: "left_rotate p h = Some h1"
          "holds h1 (plug c (Node (Node (Node S p l) x r) g U))" "rotated h h1" by auto
      from turn_holds [OF h1(2)] obtain h' where h': "holds h' (plug (InL x (Node r g U) # c) (Node S p l))"
          "same_data h1 h'" "rb_color h' = ?col(x := BLACK, g := RED)" and i: "insert_left x h = Some (p, h')"
        using px pn g u un F h1 by (auto simp: insert_left_def rotated_def)
      have "red_at (rb_color h') (InL x (Node r g U) # c) (Node S p l)"
        unfolding h'(3) by (rule turn_ok [of S p l x r g U c ?col BLACK]) (use dd ok un p F in \<open>auto simp: T_def\<close>)
      moreover have "same_data h h'" using h' h1 by (auto simp: rotated_def intro: same_data_trans)
      ultimately show ?thesis using h' i F by (intro exI conjI) (assumption, rule insert_movesI, assumption+, auto)
    qed
  qed
qed

lemma insert_right_flip: "insert_right node (flip h) = map_option (map_prod id flip) (insert_left node h)"
  by (simp add: insert_left_def insert_right_def map_bind bind_map case_prod_unfold left_rotate_flip right_rotate_flip
      if_distrib [of "\<lambda>x. Option.bind x g" for g] if_distrib [of "map_option f" for f] cong: if_cong option.case_cong)

text \<open>The other half, for a parent that is a right child.\<close>

lemma tcol_mirror [simp]: "tcol col (mirror t) = tcol col t"
  by (cases t) auto

lemma rb_ok_mirror: "rb_ok col t \<Longrightarrow> rb_ok col (mirror t) \<and> bh col (mirror t) = bh col t"
  by (induction t) auto

lemma ctx_ok_flip: "ctx_ok col c n k \<Longrightarrow> ctx_ok col (flip_ctx c) n k"
  by (induction col c n k rule: ctx_ok.induct) (auto simp: rb_ok_mirror)

lemma red_at_flip: "red_at col c t \<Longrightarrow> red_at col (flip_ctx c) (mirror t)"
  by (auto simp: red_at_def rb_ok_mirror ctx_ok_flip)

lemma length_flip_ctx [simp]: "length (flip_ctx c) = length c"
  by (induction c rule: flip_ctx.induct) auto

lemma flip_flip_ctx [simp]: "flip_ctx (flip_ctx c) = c"
  by (induction c rule: flip_ctx.induct) auto

lemma holds_flip_plug: "holds h (plug c t) \<Longrightarrow> holds (flip h) (plug (flip_ctx c) (mirror t))"
  using holds_flip [of h "plug c t"] by (simp add: flip_plug)

lemma inorder_flip_plug: "inorder (plug (flip_ctx c) (mirror t)) = rev (inorder (plug c t))"
  by (metis flip_plug inorder_mirror)

lemma insert_moves_flip:
  assumes "insert_moves (flip h) (flip_ctx c) (mirror t) n h'"
  shows "insert_moves h c t n (flip h')"
proof -
  from assms obtain c' l r where m: "holds h' (plug c' (Node l n r))" "red_at (rb_color h') c' (Node l n r)"
      "length c' < length (flip_ctx c)" "inorder (plug c' (Node l n r)) = inorder (plug (flip_ctx c) (mirror t))"
      "same_data (flip h) h'" unfolding insert_moves_def by blast
  have "rev (inorder (plug c' (Node l n r))) = inorder (plug c t)"
    unfolding m(4) inorder_flip_plug by simp
  with m holds_flip_plug [OF m(1)] red_at_flip [OF m(2)] inorder_flip_plug [of c' "Node l n r"] same_data_flip [of "flip h" h']
  show ?thesis by (intro insert_movesI [of _ "flip_ctx c'" "mirror r" n "mirror l"]) simp_all
qed

lemma insert_right_moves:
  assumes h: "holds h (plug (F # InR U g # c) (Node l x r))" and F: "F = InL p S \<or> F = InR S p"
    and red: "red_at (rb_color h) (F # InR U g # c) (Node l x r)" and p: "rb_color h p = RED"
  shows "\<exists>n h'. insert_right x h = Some (n, h') \<and> insert_moves h (F # InR U g # c) (Node l x r) n h'"
proof -
  let ?F = "case F of InL p S \<Rightarrow> InR (mirror S) p | InR S p \<Rightarrow> InL p (mirror S)"
  have c: "flip_ctx (F # InR U g # c) = ?F # InL g (mirror U) # flip_ctx c" using F by auto
  have "holds (flip h) (plug (?F # InL g (mirror U) # flip_ctx c) (Node (mirror r) x (mirror l)))"
    using holds_flip_plug [OF h] unfolding c by simp
  moreover have "red_at (rb_color (flip h)) (?F # InL g (mirror U) # flip_ctx c) (Node (mirror r) x (mirror l))"
    using red_at_flip [OF red] unfolding c by simp
  moreover have "?F = InL p (mirror S) \<or> ?F = InR (mirror S) p" using F by auto
  ultimately obtain n h' where n: "insert_left x (flip h) = Some (n, h')"
      and m: "insert_moves (flip h) (?F # InL g (mirror U) # flip_ctx c) (Node (mirror r) x (mirror l)) n h'"
    using insert_left_moves p by (metis flip_simps(2))
  have "insert_right x h = Some (n, flip h')" using insert_right_flip [of x "flip h"] n by simp
  moreover have "insert_moves h (F # InR U g # c) (Node l x r) n (flip h')"
    using m unfolding c [symmetric] by (intro insert_moves_flip) simp
  ultimately show ?thesis by blast
qed

text \<open>The loop ends, or goes one round.\<close>

lemma rt_plug: "c \<noteq> [] \<Longrightarrow> rt (plug c t) \<in> ctx_set c"
proof (induction c t rule: plug.induct)
  case (2 a r c t) then show ?case by (cases c) auto
next
  case (3 l a c t) then show ?case by (cases c) auto
qed simp

lemma plug_Node: "plug c (Node l x r) \<noteq> Leaf"
  by (metis append_is_Nil_conv inorder.simps(1) inorder.simps(2) inorder_plug list.distinct(1))

lemma holds_not_root:
  assumes "holds h (plug c t)" and "c \<noteq> []" and "rt t \<noteq> nilnode"
  shows "rt t \<noteq> rb_root h"
proof -
  have "rt t \<in> set_tree t" using assms(3) by (cases t) auto
  moreover have "set_tree t \<inter> ctx_set c = {}" using holds_distinct [OF assms(1)] by (auto simp: ctx_set_lists)
  ultimately show ?thesis using holds_root [OF assms(1)] rt_plug [OF assms(2), of t] by auto
qed

lemma insert_fixup_exit:
  assumes h: "holds h (plug c (Node l x r))" and red: "red_at (rb_color h) c (Node l x r)"
    and exit: "c = [] \<or> rb_color h (up c) = BLACK"
  shows "insert_fixup x h = Some h" "rb_tree ((rb_color h)(rb_root h := BLACK)) (plug c (Node l x r))"
proof -
  let ?col = "rb_color h"
  have root: "c = [] \<Longrightarrow> rb_root h = x" using holds_root [OF h] by simp
  show "insert_fixup x h = Some h"
    using exit root holds_node [OF h] up_alive [OF h] by (subst insert_fixup.simps) auto
  show "rb_tree (?col(rb_root h := BLACK)) (plug c (Node l x r))"
  proof (cases "c = []")
    case True
    then show ?thesis using red root holds_distinct [OF h] by (auto simp: rb_tree_def red_at_def)
  next
    case False
    then have "ctx_ok ?col c (bh ?col (Node l x r)) RED"
      using exit red by (cases c rule: up.cases) (auto simp: red_at_def)
    then have t: "rb_tree ?col (plug c (Node l x r))" using red by (simp add: rb_tree_plug red_at_def)
    moreover have "?col (rb_root h) = tcol ?col (plug c (Node l x r))"
      using holds_root [OF h] holds_nil [OF h] by (simp add: tcol_rt)
    ultimately have "?col(rb_root h := BLACK) = ?col" by (simp add: rb_tree_def fun_upd_idem)
    with t show ?thesis by simp
  qed
qed

lemma insert_fixup_round:
  assumes h: "holds h (plug c (Node l x r))" and red: "red_at (rb_color h) c (Node l x r)"
    and more: "c \<noteq> []" "rb_color h (up c) = RED"
  shows "\<exists>n h'. insert_fixup x h = insert_fixup n h' \<and> insert_moves h c (Node l x r) n h'"
proof -
  let ?col = "rb_color h"
  obtain F c1 where c: "c = F # c1" using more by (cases c) auto
  obtain p S where F: "F = InL p S \<or> F = InR S p" by (cases F) auto
  let ?T = "plug [F] (Node l x r)"
  have p: "?col p = RED" "ctx_ok ?col c1 (bh ?col ?T) RED" using more red F by (auto simp: c red_at_def)
  then obtain G c2 where c1: "c1 = G # c2" by (cases c1) auto
  obtain g U where G: "G = InL g U \<or> G = InR U g" by (cases G) auto
  obtain A B where T: "?T = Node A p B" using F by auto
  have hT: "holds h (plug (G # c2) (Node A p B))" using h F T by (auto simp: c c1)
  have rp: "rb_p h p = g" "p \<in> rb_alive h" "p \<noteq> nilnode" using holds_node [OF hT] G by auto
  have rg: "g \<in> rb_alive h" "rb_left h g = (case G of InL _ _ \<Rightarrow> p | InR _ _ \<Rightarrow> rt U)"
    using G holds_node [of h c2 "Node A p B" g U] holds_node [of h c2 U g "Node A p B"] hT by auto
  have "rt U \<noteq> p" using holds_distinct [OF hT] rp G by (cases U) auto
  then have turn: "(p = rb_left h g) = (\<exists>a t. G = InL a t)" using rg G by auto
  have x: "x \<in> rb_alive h" "rb_p h x = p" "x \<noteq> nilnode" using holds_node [OF h] F by (auto simp: c)
  have "x \<noteq> rb_root h" using holds_not_root [OF h more(1)] x by simp
  then have step: "insert_fixup x h = Option.bind (if \<exists>a t. G = InL a t then insert_left x h else insert_right x h)
      (\<lambda>y. insert_fixup (fst y) (snd y))"
    using x p rp rg turn by (subst insert_fixup.simps) simp
  from G show ?thesis
  proof
    assume "G = InL g U"
    with insert_left_moves [of h F g U c2 l x r p S] h red F p step show ?thesis by (fastforce simp: c c1)
  next
    assume "G = InR U g"
    with insert_right_moves [of h F U g c2 l x r p S] h red F p step show ?thesis by (fastforce simp: c c1)
  qed
qed

lemma insert_fixup_ok:
  assumes "holds h (plug c (Node l x r))" and "red_at (rb_color h) c (Node l x r)"
  shows "\<exists>h' t. insert_fixup x h = Some h' \<and> holds h' t \<and> rb_tree ((rb_color h')(rb_root h' := BLACK)) t
     \<and> inorder t = inorder (plug c (Node l x r)) \<and> same_data h h'"
  using assms
proof (induction "length c" arbitrary: h c l x r rule: less_induct)
  case less
  show ?case
  proof (cases "c = [] \<or> rb_color h (up c) = BLACK")
    case True
    with insert_fixup_exit [OF less.prems] less.prems show ?thesis by (metis same_data_refl)
  next
    case False
    with insert_fixup_round [OF less.prems] obtain n h' where n: "insert_fixup x h = insert_fixup n h'"
      and "insert_moves h c (Node l x r) n h'" by auto
    then obtain c' l' r' where m: "holds h' (plug c' (Node l' n r'))" "red_at (rb_color h') c' (Node l' n r')"
        "length c' < length c" "inorder (plug c' (Node l' n r')) = inorder (plug c (Node l x r))" "same_data h h'"
      unfolding insert_moves_def by blast
    from less.hyps [OF m(3,1,2)] n m(4,5) show ?thesis by (metis same_data_trans)
  qed
qed

end
