(* ===== verification/RbStore.thy ===== *)
theory RbStore
  imports RbInsert
begin

text \<open>
  The tree of \<open>RbTree\<close> as a finite map from addresses to handles and properties: searching,
  adding and changing an entry.
\<close>

section \<open>The map in the heap\<close>

definition entries :: "'m rb \<Rightarrow> nat list \<Rightarrow> (int \<times> int \<times> 'm) list" where
  "entries h as = map (\<lambda>a. (rb_addr h a, rb_hndl h a, rb_prop h a)) as"

definition keys_sorted :: "'m rb \<Rightarrow> nat list \<Rightarrow> bool" where
  "keys_sorted h as \<longleftrightarrow> sorted_wrt (\<lambda>a b. rb_addr h a < rb_addr h b) as"

text \<open>No other nodes are allocated.\<close>

definition stores :: "'m rb \<Rightarrow> (int \<rightharpoonup> int \<times> 'm) \<Rightarrow> bool" where
  "stores h m \<longleftrightarrow> (\<exists>t. holds h t \<and> rb_tree (rb_color h) t \<and> keys_sorted h (inorder t)
     \<and> rb_alive h = insert nilnode (set_tree t) \<and> m = map_of (entries h (inorder t)))"

lemma entries_simps [simp]:
  "entries h [] = []" "entries h (a # as) = (rb_addr h a, rb_hndl h a, rb_prop h a) # entries h as"
  "entries h (as @ bs) = entries h as @ entries h bs"
  by (simp_all add: entries_def)

lemma keys_sorted_simps [simp]:
  "keys_sorted h []" "keys_sorted h (a # as) \<longleftrightarrow> (\<forall>b \<in> set as. rb_addr h a < rb_addr h b) \<and> keys_sorted h as"
  "keys_sorted h (as @ bs) \<longleftrightarrow> keys_sorted h as \<and> keys_sorted h bs \<and> (\<forall>a \<in> set as. \<forall>b \<in> set bs. rb_addr h a < rb_addr h b)"
  by (auto simp: keys_sorted_def sorted_wrt_append)

lemma dom_entries [simp]: "dom (map_of (entries h as)) = rb_addr h ` set as"
  by (simp add: dom_map_of_conv_image_fst entries_def image_image)

lemma entries_None: "map_of (entries h as) k = None \<longleftrightarrow> k \<notin> rb_addr h ` set as"
  by (simp add: map_of_eq_None_iff entries_def image_image)

lemma same_data_entries: "same_data h h' \<Longrightarrow> entries h' = entries h \<and> keys_sorted h' = keys_sorted h"
  by (auto simp: same_data_def entries_def keys_sorted_def fun_eq_iff)

lemma entries_cong:
  "(\<And>a. a \<in> set as \<Longrightarrow> rb_addr h' a = rb_addr h a \<and> rb_hndl h' a = rb_hndl h a \<and> rb_prop h' a = rb_prop h a)
     \<Longrightarrow> entries h' as = entries h as \<and> keys_sorted h' as = keys_sorted h as"
  by (induction as) auto

lemma map_of_mid: "k \<notin> fst ` set xs \<Longrightarrow> map_of (xs @ (k, v) # ys) = (map_of (xs @ ys))(k \<mapsto> v)"
  by (induction xs) auto

lemma fst_entries [simp]: "fst ` set (entries h as) = rb_addr h ` set as"
  by (simp add: entries_def image_image)

lemma empty_stores: "stores (empty_rb m) Map.empty"
  unfolding stores_def by (rule exI [of _ Leaf]) (auto simp: holds_def empty_rb_def rb_tree_def)

section \<open>Searching\<close>

fun node_of :: "'m rb \<Rightarrow> nat tree \<Rightarrow> int \<Rightarrow> nat" where
  "node_of h Leaf k = nilnode"
| "node_of h (Node l a r) k = (if rb_addr h a = k then a else if k < rb_addr h a then node_of h l k else node_of h r k)"

lemma tree_search_node:
  "is_tree (rb_alive h) P (rb_left h) (rb_right h) q p t \<Longrightarrow> tree_search h p k = Some (node_of h t k)"
proof (induction t arbitrary: q p)
  case Leaf
  then show ?case by (subst tree_search.simps) simp
next
  case (Node l a r)
  then show ?case by (subst tree_search.simps) auto
qed

lemma node_of_found:
  "keys_sorted h (inorder t) \<Longrightarrow> a \<in> set_tree t \<Longrightarrow> node_of h t (rb_addr h a) = a"
  by (induction t) fastforce+

lemma node_of_missing: "k \<notin> rb_addr h ` set_tree t \<Longrightarrow> node_of h t k = nilnode"
  by (induction t) auto

lemma entries_at:
  "keys_sorted h as \<Longrightarrow> a \<in> set as \<Longrightarrow> map_of (entries h as) (rb_addr h a) = Some (rb_hndl h a, rb_prop h a)"
  by (induction as) (auto simp: order.strict_iff_order)

lemma search_stores:
  assumes h: "holds h t" and o: "keys_sorted h (inorder t)"
  obtains (found) a where "a \<in> set_tree t" "rb_addr h a = k" "tree_search h (rb_root h) k = Some a"
      "map_of (entries h (inorder t)) k = Some (rb_hndl h a, rb_prop h a)" "a \<in> rb_alive h" "a \<noteq> nilnode"
  | (missing) "tree_search h (rb_root h) k = Some nilnode" "map_of (entries h (inorder t)) k = None"
proof (cases "k \<in> rb_addr h ` set_tree t")
  case True
  then obtain a where a: "a \<in> set_tree t" "rb_addr h a = k" by auto
  have "tree_search h (rb_root h) k = Some a"
    using tree_search_node [of h "rb_p h" nilnode "rb_root h" t k] h node_of_found [OF o a(1)] a by (simp add: holds_def)
  then show ?thesis using found [OF a] entries_at [OF o, of a] a holds_in [OF h a(1)] by simp
next
  case False
  have "tree_search h (rb_root h) k = Some nilnode"
    using tree_search_node [of h "rb_p h" nilnode "rb_root h" t k] h node_of_missing [OF False] by (simp add: holds_def)
  moreover have "map_of (entries h (inorder t)) k = None"
    using False by (simp add: entries_None)
  ultimately show ?thesis by (rule missing)
qed

lemma get_stores: "stores h m \<Longrightarrow> persist_mr_get k h = Some (m k)"
  unfolding stores_def by clarify (erule (1) search_stores [where k = k]; simp add: persist_mr_get_def)

lemma edit_stores:
  assumes "stores h m" and "k \<in> dom m"
  shows "\<exists>h'. persist_mr_edit k x y h = Some (Inr h') \<and> stores h' (m(k \<mapsto> (x, y)))"
proof -
  from assms obtain t where t: "holds h t" "rb_tree (rb_color h) t" "keys_sorted h (inorder t)" "m = map_of (entries h (inorder t))"
    and al: "rb_alive h = insert nilnode (set_tree t)"
    unfolding stores_def by blast
  show ?thesis
  proof (rule search_stores [OF t(1,3), of k])
    fix a assume a: "a \<in> set_tree t" "rb_addr h a = k" "tree_search h (rb_root h) k = Some a" "a \<in> rb_alive h" "a \<noteq> nilnode"
    let ?h = "h\<lparr>rb_hndl := (rb_hndl h)(a := x), rb_prop := (rb_prop h)(a := y)\<rparr>"
    have e: "persist_mr_edit k x y h = Some (Inr ?h)" using a by (simp add: persist_mr_edit_def)
    have o: "keys_sorted ?h (inorder t)" using t by (simp add: keys_sorted_def)
    have "map_of (entries ?h (inorder t)) = m(k \<mapsto> (x, y))"
    proof
      fix j
      show "map_of (entries ?h (inorder t)) j = (m(k \<mapsto> (x, y))) j"
      proof (cases "j \<in> rb_addr h ` set_tree t")
        case True
        then obtain b where b: "b \<in> set_tree t" "j = rb_addr h b" by auto
        have "rb_addr h b = k \<longleftrightarrow> b = a" using node_of_found [OF t(3)] a b by metis
        then show ?thesis using entries_at [OF o, of b] entries_at [OF t(3), of b] b t(4) by auto
      next
        case False
        then have "map_of (entries ?h (inorder t)) j = None" "m j = None" "j \<noteq> k" using a t(4) by (auto simp: entries_None)
        then show ?thesis by simp
      qed
    qed
    moreover have "holds ?h t" using t by (simp add: holds_def)
    ultimately show ?thesis using e o t(2) al unfolding stores_def by (intro exI [of _ ?h] conjI e exI [of _ t]) simp_all
  next
    assume "map_of (entries h (inorder t)) k = None"
    then have "k \<notin> dom m" using t(4) by (metis domIff)
    with assms(2) show ?thesis by simp
  qed
qed

section \<open>Adding\<close>

text \<open>The loop finds the leaf between the smaller and the larger keys.\<close>

lemma tree_place_leaf:
  assumes "is_tree (rb_alive h) P (rb_left h) (rb_right h) (up c) p t" and "new \<in> rb_alive h" and "rb_addr h new = k"
    and "keys_sorted h (inorder t)" and "k \<notin> rb_addr h ` set_tree t"
    and "\<forall>a \<in> set (ctx_before c). rb_addr h a < k" and "\<forall>a \<in> set (ctx_after c). k < rb_addr h a"
  shows "\<exists>c'. tree_place h new p (up c) = Some (up c') \<and> plug c' Leaf = plug c t
     \<and> (\<forall>a \<in> set (ctx_before c'). rb_addr h a < k) \<and> (\<forall>a \<in> set (ctx_after c'). k < rb_addr h a)"
  using assms
proof (induction t arbitrary: c p)
  case Leaf
  then show ?case by (subst tree_place.simps) auto
next
  case (Node l a r)
  show ?case
  proof (cases "k < rb_addr h a")
    case True
    have "\<exists>c'. tree_place h new (rb_left h a) (up (InL a r # c)) = Some (up c') \<and> plug c' Leaf = plug (InL a r # c) l
       \<and> (\<forall>a \<in> set (ctx_before c'). rb_addr h a < k) \<and> (\<forall>a \<in> set (ctx_after c'). k < rb_addr h a)"
      using Node.prems True by (intro Node.IH(1)) (auto intro: less_trans)
    with Node.prems True show ?thesis by (subst tree_place.simps) simp
  next
    case False
    have "\<exists>c'. tree_place h new (rb_right h a) (up (InR l a # c)) = Some (up c') \<and> plug c' Leaf = plug (InR l a # c) r
       \<and> (\<forall>a \<in> set (ctx_before c'). rb_addr h a < k) \<and> (\<forall>a \<in> set (ctx_after c'). k < rb_addr h a)"
      using Node.prems False by (intro Node.IH(2)) (auto intro: less_trans)
    with Node.prems False show ?thesis by (subst tree_place.simps) simp
  qed
qed

lemma tree_insert_leaf:
  assumes h: "holds h (plug c Leaf)" and place: "tree_place h new (rb_root h) nilnode = Some (up c)"
    and new: "new \<in> rb_alive h" "new \<noteq> nilnode" "new \<notin> ctx_set c" "rb_left h new = nilnode" "rb_right h new = nilnode"
    and k: "\<forall>a \<in> set (ctx_before c). rb_addr h a < rb_addr h new" "\<forall>a \<in> set (ctx_after c). rb_addr h new < rb_addr h a"
  shows "\<exists>h'. tree_insert new h = Some h' \<and> holds h' (plug c (Node Leaf new Leaf)) \<and> same_data h h' \<and> rb_color h' = rb_color h"
proof -
  obtain q p where f: "focus h q p c Leaf" and n: "nilnode \<in> rb_alive h" "rb_color h nilnode = BLACK"
    and d: "distinct (ctx_before c @ ctx_after c)" using h holds_focus [of h c Leaf] by auto
  show ?thesis
  proof (cases c rule: up.cases)
    case 1
    let ?h = "h\<lparr>rb_p := (rb_p h)(new := nilnode), rb_root := new\<rparr>"
    have "tree_insert new h = Some ?h" using place new 1 by (simp add: tree_insert_def)
    moreover have "holds ?h (plug c (Node Leaf new Leaf))" using new n 1 by (simp add: holds_def)
    ultimately show ?thesis by (auto simp: same_data_def)
  next
    case (2 a r c')
    let ?h = "h\<lparr>rb_p := (rb_p h)(new := a), rb_left := (rb_left h)(a := new)\<rparr>"
    have "tree_insert new h = Some ?h" using place new 2 f k by (auto simp: tree_insert_def focus_def)
    moreover have "holds ?h (plug c (Node Leaf new Leaf))"
      unfolding holds_focus using new n d f 2 by (auto simp: focus_def ctx_set_lists)
    ultimately show ?thesis by (auto simp: same_data_def)
  next
    case (3 l a c')
    let ?h = "h\<lparr>rb_p := (rb_p h)(new := a), rb_right := (rb_right h)(a := new)\<rparr>"
    have "tree_insert new h = Some ?h" using place new 3 f k by (auto simp: tree_insert_def focus_def)
    moreover have "holds ?h (plug c (Node Leaf new Leaf))"
      unfolding holds_focus using new n d f 3 by (auto simp: focus_def ctx_set_lists)
    ultimately show ?thesis by (auto simp: same_data_def)
  qed
qed

lemma rb_insert_ok:
  assumes h: "holds h t" "rb_tree (rb_color h) t" "keys_sorted h (inorder t)"
    and new: "new \<in> rb_alive h" "new \<noteq> nilnode" "new \<notin> set_tree t" "rb_left h new = nilnode" "rb_right h new = nilnode"
    and k: "rb_addr h new \<notin> rb_addr h ` set_tree t"
  shows "\<exists>h' t'. rb_insert new h = Some h' \<and> holds h' t' \<and> rb_tree (rb_color h') t' \<and> same_data h h'
     \<and> (\<exists>as bs. inorder t = as @ bs \<and> inorder t' = as @ new # bs \<and> keys_sorted h (as @ new # bs))"
proof -
  let ?k = "rb_addr h new"
  have "\<exists>c. tree_place h new (rb_root h) nilnode = Some (up c) \<and> plug c Leaf = t
     \<and> (\<forall>a \<in> set (ctx_before c). rb_addr h a < ?k) \<and> (\<forall>a \<in> set (ctx_after c). ?k < rb_addr h a)"
    using tree_place_leaf [of h "rb_p h" "[]" "rb_root h" t new ?k] h new k by (auto simp: holds_def)
  then obtain c where c: "tree_place h new (rb_root h) nilnode = Some (up c)" "plug c Leaf = t"
    "\<forall>a \<in> set (ctx_before c). rb_addr h a < ?k" "\<forall>a \<in> set (ctx_after c). ?k < rb_addr h a" by blast
  have nc: "new \<notin> ctx_set c" using new(3) c(2) by auto
  from tree_insert_leaf [OF _ c(1) new(1,2) nc new(4,5) c(3,4)] h(1) c(2) obtain h1 where h1: "tree_insert new h = Some h1"
      "holds h1 (plug c (Node Leaf new Leaf))" "same_data h h1" "rb_color h1 = rb_color h" by auto
  let ?h2 = "h1\<lparr>rb_color := (rb_color h1)(new := RED)\<rparr>"
  have h2: "holds ?h2 (plug c (Node Leaf new Leaf))" "same_data h ?h2"
    using h1(2) holds_color [OF new(2)] h1(3) by (blast, simp add: same_data_def)
  have "ctx_ok (rb_color h) c 0 BLACK" using h(2) c(2) rb_tree_plug [of "rb_color h" c Leaf] by simp
  then have red: "red_at (rb_color ?h2) c (Node Leaf new Leaf)" using nc h1(4) by (simp add: red_at_def)
  from insert_fixup_ok [OF h2(1) red] obtain h3 t' where h3: "insert_fixup new ?h2 = Some h3" "holds h3 t'"
      "rb_tree ((rb_color h3)(rb_root h3 := BLACK)) t'" "inorder t' = ctx_before c @ new # ctx_after c" "same_data ?h2 h3" by auto
  have "t' \<noteq> Leaf" using h3(4) by auto
  then have r: "rb_root h3 \<in> rb_alive h3" "rb_root h3 \<noteq> nilnode"
    using holds_root [OF h3(2)] holds_in [OF h3(2), of "rt t'"] by (cases t'; auto)+
  let ?h4 = "h3\<lparr>rb_color := (rb_color h3)(rb_root h3 := BLACK)\<rparr>"
  have "rb_insert new h = Some ?h4" using h1 h3 r new by (simp add: rb_insert_def same_data_def)
  moreover have "holds ?h4 t'" using h3 r by simp
  moreover have "same_data h ?h4" using h2 h3 by (simp add: same_data_def)
  moreover have "inorder t = ctx_before c @ ctx_after c" using c(2) by (metis inorder.simps(1) inorder_plug append_Nil)
  moreover have "keys_sorted h (ctx_before c @ new # ctx_after c)"
    using h(3) c(3,4) \<open>inorder t = ctx_before c @ ctx_after c\<close> by auto
  ultimately show ?thesis using h3(3,4) by (intro exI [of _ ?h4] exI [of _ t']) auto
qed

lemma add_stores:
  assumes "stores h m" and "k \<notin> dom m" and new: "new \<notin> rb_alive h"
  shows "\<exists>h'. persist_mr_add new k x y h = Some h' \<and> stores h' (m(k \<mapsto> (x, y)))"
proof -
  from assms obtain t where t: "holds h t" "rb_tree (rb_color h) t" "keys_sorted h (inorder t)" "m = map_of (entries h (inorder t))"
    and al: "rb_alive h = insert nilnode (set_tree t)"
    unfolding stores_def by blast
  have nt: "new \<noteq> nilnode" "new \<notin> set_tree t" using holds_nil [OF t(1)] holds_in [OF t(1)] new by auto
  let ?h = "h\<lparr>rb_alive := insert new (rb_alive h), rb_addr := (rb_addr h)(new := k), rb_hndl := (rb_hndl h)(new := x),
    rb_prop := (rb_prop h)(new := y), rb_p := (rb_p h)(new := nilnode), rb_left := (rb_left h)(new := nilnode),
    rb_right := (rb_right h)(new := nilnode)\<rparr>"
  have add: "persist_mr_add new k x y h = rb_insert new ?h" by (simp add: persist_mr_add_def)
  have h: "holds ?h t" using t(1) nt by (auto simp: holds_def intro: is_tree_more_alive [OF subset_insertI])
  have "a \<noteq> new" if "a \<in> set_tree t" for a using nt that by auto
  then have o: "keys_sorted ?h (inorder t)" "entries ?h (inorder t) = entries h (inorder t)"
    using entries_cong [of "inorder t" ?h h] t(3) by auto
  have k: "rb_addr ?h new \<notin> rb_addr ?h ` set_tree t" using assms(2) t(4) nt dom_entries [of h "inorder t"] by auto
  from rb_insert_ok [OF h _ o(1) _ nt(1,2) _ _ k] t(2) obtain h' t' "as" bs where h': "rb_insert new ?h = Some h'"
    "holds h' t'" "rb_tree (rb_color h') t'" "same_data ?h h'" "inorder t = as @ bs" "inorder t' = as @ new # bs"
    "keys_sorted ?h (as @ new # bs)" by auto
  have "k \<notin> rb_addr ?h ` set as" using h'(7) by auto
  then have "map_of (entries ?h (as @ new # bs)) = (map_of (entries ?h (as @ bs)))(k \<mapsto> (x, y))"
    using map_of_mid [of k "entries ?h as" "(x, y)" "entries ?h bs"] by (simp del: map_of_append)
  then have "map_of (entries h' (inorder t')) = m(k \<mapsto> (x, y))"
    using same_data_entries [OF h'(4)] o(2) t(4) unfolding h'(5,6) by metis
  moreover have "set_tree t' = set (as @ new # bs)" "set_tree t = set (as @ bs)"
    using h'(5,6) by (metis set_inorder)+
  then have "rb_alive h' = insert nilnode (set_tree t')" using al h'(4) by (simp add: same_data_def insert_commute)
  ultimately show ?thesis using add h' same_data_entries [OF h'(4)] unfolding stores_def
    by (intro exI [of _ h'] conjI exI [of _ t']) auto
qed

end
