(* ===== verification/RbDelete.thy ===== *)
theory RbDelete
  imports RbInsert
begin

text \<open>
  Deletion from the tree of \<open>RbTree\<close>: taking out a node with at most one child, and the repair
  after a black node has been taken out.
\<close>

section \<open>A subtree that is one black node short\<close>

text \<open>
  The subtree \<open>t\<close> fits once its root is painted black, or it lacks one black node.  The parent
  pointer of its root is right even where the root is the sentinel.
\<close>

definition short_at :: "'m rb \<Rightarrow> hole_frame list \<Rightarrow> nat tree \<Rightarrow> bool" where
  "short_at h c t \<longleftrightarrow> holds h (plug c t) \<and> rb_p h (rt t) = up c \<and> rb_ok ((rb_color h)(rt t := BLACK)) t
     \<and> ctx_ok (rb_color h) c (bh (rb_color h) t + 1) BLACK"

text \<open>The same with the colours around a black \<open>t\<close> and its sibling spelled out.\<close>

definition short_left :: "'m rb \<Rightarrow> hole_frame list \<Rightarrow> nat tree \<Rightarrow> nat \<Rightarrow> nat tree \<Rightarrow> bool" where
  "short_left h c t p S \<longleftrightarrow> holds h (plug c (Node t p S)) \<and> rb_p h (rt t) = p \<and> tcol (rb_color h) t = BLACK
     \<and> rb_ok (rb_color h) t \<and> rb_ok (rb_color h) S \<and> bh (rb_color h) S = bh (rb_color h) t + 1
     \<and> (rb_color h p = RED \<longrightarrow> tcol (rb_color h) S = BLACK)
     \<and> ctx_ok (rb_color h) c (bh (rb_color h) S + (if rb_color h p = BLACK then 1 else 0)) (rb_color h p)"

lemma black_paint: "holds h (plug c t) \<Longrightarrow> tcol (rb_color h) t = BLACK \<Longrightarrow> (rb_color h)(rt t := BLACK) = rb_color h"
  by (metis holds_nil tcol_rt fun_upd_triv)

lemma short_leftI:
  "short_at h (InL p S # c) t \<Longrightarrow> tcol (rb_color h) t = BLACK \<Longrightarrow> short_left h c t p S"
  using black_paint [of h "InL p S # c" t] by (auto simp: short_at_def short_left_def)

lemma short_left_distinct:
  assumes "short_left h c t p S"
  shows "distinct (inorder (Node t p S))" "set_tree (Node t p S) \<inter> ctx_set c = {}"
  using assms holds_distinct [of h "plug c (Node t p S)"] by (auto simp: short_left_def ctx_set_lists)

text \<open>The nodes that a round reads.\<close>

lemma short_left_reads:
  assumes "short_left h c t p S"
  shows "rb_p h (rt t) = p" "rt t \<in> rb_alive h" "p \<in> rb_alive h" "p \<noteq> nilnode" "rb_right h p = rt S" "rb_left h p = rt t"
    "rb_p h p = up c" "\<exists>sl s sr. S = Node sl s sr"
proof -
  have h: "holds h (plug c (Node t p S))" "rb_p h (rt t) = p" "bh (rb_color h) S = bh (rb_color h) t + 1"
    using assms by (auto simp: short_left_def)
  show "rb_p h (rt t) = p" by (rule h)
  show "rt t \<in> rb_alive h" using rt_alive [of h "InL p S # c" t] h by simp
  show "p \<in> rb_alive h" "p \<noteq> nilnode" "rb_right h p = rt S" "rb_left h p = rt t" "rb_p h p = up c"
    using holds_node [OF h(1)] by auto
  show "\<exists>sl s sr. S = Node sl s sr" using h(3) by (cases S) auto
qed

lemma sibling_reads:
  assumes "short_left h c t p (Node sl s sr)"
  shows "s \<in> rb_alive h" "s \<noteq> nilnode" "rb_left h s = rt sl" "rb_right h s = rt sr" "rb_p h s = p"
    "rt sl \<in> rb_alive h" "rt sr \<in> rb_alive h" "rb_color h (rt sl) = tcol (rb_color h) sl"
    "rb_color h (rt sr) = tcol (rb_color h) sr"
proof -
  have h: "holds h (plug (InR t p # c) (Node sl s sr))" using assms by (simp add: short_left_def)
  show "s \<in> rb_alive h" "s \<noteq> nilnode" "rb_left h s = rt sl" "rb_right h s = rt sr" "rb_p h s = p"
    using holds_node [OF h] by auto
  show "rt sl \<in> rb_alive h" "rt sr \<in> rb_alive h"
    using rt_alive [of h "InL s sr # InR t p # c" sl] rt_alive [of h "InR sl s # InR t p # c" sr] h by simp_all
  show "rb_color h (rt sl) = tcol (rb_color h) sl" "rb_color h (rt sr) = tcol (rb_color h) sr"
    using holds_nil [OF h] by (simp_all add: tcol_rt)
qed

section \<open>One round of the repair\<close>

definition delete_moves :: "'m rb \<Rightarrow> hole_frame list \<Rightarrow> nat tree \<Rightarrow> nat \<Rightarrow> 'm rb \<Rightarrow> bool" where
  "delete_moves h c t n h' \<longleftrightarrow> (\<exists>c' t'. n = rt t' \<and> short_at h' c' t'
     \<and> (length c' < length c \<or> tcol (rb_color h') t' = RED)
     \<and> inorder (plug c' t') = inorder (plug c t) \<and> same_data h h')"

text \<open>A red sibling is rotated away.\<close>

lemma black_sibling_left_ok:
  assumes sh: "short_left h c t p S"
  shows "\<exists>h' c' sl s sr. black_sibling_left (rt t) h = Some (s, h') \<and> short_left h' c' t p (Node sl s sr)
     \<and> rb_color h' s = BLACK \<and> (c' = c \<or> rb_color h' p = RED)
     \<and> inorder (plug c' (Node t p (Node sl s sr))) = inorder (plug c (Node t p S)) \<and> same_data h h'"
proof -
  note r = short_left_reads [OF sh]
  obtain sl s sr where S: "S = Node sl s sr" using r(8) by blast
  note q = sibling_reads [OF sh [unfolded S]]
  show ?thesis
  proof (cases "rb_color h s = RED")
    case False
    then have "black_sibling_left (rt t) h = Some (s, h)" using r q S by (simp add: black_sibling_left_def)
    with sh False S show ?thesis by (intro exI conjI) (assumption+, simp_all)
  next
    case True
    let ?col = "(rb_color h)(s := BLACK, p := RED)"
    let ?h = "h\<lparr>rb_color := ?col\<rparr>"
    have "holds ?h (plug c (Node t p (Node sl s sr)))" using sh q r S by (simp add: short_left_def holds_def)
    from holds_left_rotate [OF this] obtain h' where h': "left_rotate p ?h = Some h'"
        "holds h' (plug c (Node (Node t p sl) s sr))" "rotated ?h h'" by blast
    have red: "rb_color h p = BLACK" "tcol (rb_color h) sl = BLACK" "tcol (rb_color h) sr = BLACK"
      "bh (rb_color h) sl = bh (rb_color h) t + 1" "rb_ok (rb_color h) sl" "rb_ok (rb_color h) sr" "rb_ok (rb_color h) t"
      "bh (rb_color h) sr = bh (rb_color h) t + 1" "tcol (rb_color h) t = BLACK"
      "ctx_ok (rb_color h) c (bh (rb_color h) t + 2) BLACK"
      using sh True unfolding S by (auto simp: short_left_def intro: ctx_ok_weaken)
    have "holds h' (plug (InL s sr # c) (Node t p sl))" using h'(2) by simp
    note p' = holds_node [OF this]
    have pt: "rb_p h' (rt t) = p"
    proof (cases t)
      case Leaf
      then show ?thesis using h'(3) r(1) by (simp add: rotated_def)
    next
      case (Node a b d)
      then show ?thesis using h'(2) holds_node [of h' "InL p sl # InL s sr # c" a b d] by simp
    qed
    obtain ul u ur where sl: "sl = Node ul u ur" using red(4) by (cases sl) auto
    have col: "rb_color h' = ?col" using h'(3) by (simp add: rotated_def)
    have n: "p \<noteq> s" "s \<notin> set_tree t" "p \<notin> set_tree t" "s \<notin> set_tree sl" "p \<notin> set_tree sl" "s \<notin> set_tree sr" "p \<notin> set_tree sr"
      "p \<notin> ctx_set c" "s \<notin> ctx_set c"
      using short_left_distinct [OF sh] S by auto
    have "short_left h' (InL s sr # c) t p sl" using h'(2) red pt n by (simp add: short_left_def col)
    moreover have "black_sibling_left (rt t) h = Some (u, h')"
      using r q S True h'(1,3) pt p' sl by (simp add: black_sibling_left_def rotated_def same_data_def)
    moreover have "same_data h h'" using h'(3) by (simp add: rotated_def same_data_def)
    moreover have "rb_color h' u = BLACK" using red(2) sl n by (simp add: col)
    ultimately show ?thesis using S sl col
      by (intro exI [of _ h'] exI [of _ "InL s sr # c"] exI [of _ ul] exI [of _ u] exI [of _ ur]) simp
  qed
qed

text \<open>The sibling is turned so that its right child is red.\<close>

lemma turn_sibling_left_ok:
  assumes sh: "short_left h c t p (Node (Node ul u ur) s sr)"
    and s: "rb_color h s = BLACK" "rb_color h u = RED" "tcol (rb_color h) sr = BLACK"
  shows "\<exists>h'. turn_sibling_left (rt t) s h = Some (u, h') \<and> short_left h' c t p (Node ul u (Node ur s sr))
     \<and> rb_color h' u = BLACK \<and> rb_color h' s = RED \<and> same_data h h'"
proof -
  note r = short_left_reads [OF sh] and q = sibling_reads [OF sh]
  let ?col = "(rb_color h)(u := BLACK, s := RED)"
  let ?h = "h\<lparr>rb_color := ?col\<rparr>"
  have "holds h (plug (InL s sr # InR t p # c) (Node ul u ur))" using sh by (simp add: short_left_def)
  note u = holds_node [OF this]
  have "holds ?h (plug (InR t p # c) (Node (Node ul u ur) s sr))" using sh q u by (simp add: short_left_def holds_def)
  from holds_right_rotate [OF this] obtain h' where h': "right_rotate s ?h = Some h'"
      "holds h' (plug c (Node t p (Node ul u (Node ur s sr))))" "rotated ?h h'" by auto
  have n: "u \<noteq> s" "p \<noteq> s" "p \<noteq> u" "s \<notin> set_tree t" "u \<notin> set_tree t" "s \<notin> set_tree ul" "u \<notin> set_tree ul" "s \<notin> set_tree ur"
    "u \<notin> set_tree ur" "s \<notin> set_tree sr" "u \<notin> set_tree sr" "u \<notin> ctx_set c" "s \<notin> ctx_set c"
    using short_left_distinct [OF sh] by auto
  have pt: "rb_p h' (rt t) = p"
  proof (cases t)
    case Leaf
    then show ?thesis using h'(3) r(1) by (simp add: rotated_def)
  next
    case (Node a b d)
    then show ?thesis using h'(2) holds_node [of h' "InL p (Node ul u (Node ur s sr)) # c" a b d] by simp
  qed
  have col: "rb_color h' = ?col" using h'(3) by (simp add: rotated_def)
  have "short_left h' c t p (Node ul u (Node ur s sr))"
    using sh h'(2) s n pt by (auto simp: short_left_def col)
  moreover have "turn_sibling_left (rt t) s h = Some (u, h')"
    using r q u h'(1,3) pt holds_node [OF h'(2)] by (simp add: turn_sibling_left_def rotated_def same_data_def)
  ultimately show ?thesis using h'(3) n by (simp add: col rotated_def same_data_def)
qed

text \<open>With a red right child of the sibling, turning the parent ends the repair.\<close>

lemma turn_parent_left_ok:
  assumes sh: "short_left h c t p (Node sl s sr)" and s: "rb_color h s = BLACK" "tcol (rb_color h) sr = RED"
  shows "\<exists>h'. turn_parent_left (rt t) s h = Some (rb_root h', h') \<and> short_at h' [] (plug c (Node (Node t p sl) s sr))
     \<and> same_data h h'"
proof -
  note r = short_left_reads [OF sh] and q = sibling_reads [OF sh]
  obtain a v b where sr: "sr = Node a v b" using s(2) by (cases sr) auto
  let ?col = "(rb_color h)(s := rb_color h p, p := BLACK, v := BLACK)"
  let ?h = "h\<lparr>rb_color := ?col\<rparr>"
  have n: "p \<noteq> s" "v \<noteq> s" "v \<noteq> p" "s \<notin> set_tree t" "v \<notin> set_tree t" "p \<notin> set_tree t" "s \<notin> set_tree sl" "v \<notin> set_tree sl"
    "p \<notin> set_tree sl" "s \<notin> set_tree a" "v \<notin> set_tree a" "p \<notin> set_tree a" "s \<notin> set_tree b" "v \<notin> set_tree b" "p \<notin> set_tree b"
    "p \<notin> ctx_set c" "s \<notin> ctx_set c" "v \<notin> ctx_set c"
    using short_left_distinct [OF sh] by (auto simp: sr)
  have v: "v \<noteq> nilnode" using holds_node [of h "InR sl s # InR t p # c" a v b] sh by (simp add: short_left_def sr)
  have "holds ?h (plug c (Node t p (Node sl s sr)))" using sh r q v by (simp add: short_left_def holds_def)
  from holds_left_rotate [OF this] obtain h' where h': "left_rotate p ?h = Some h'"
      "holds h' (plug c (Node (Node t p sl) s sr))" "rotated ?h h'" by auto
  have col: "rb_color h' = ?col" using h'(3) by (simp add: rotated_def)
  have "rb_tree ?col (plug c (Node (Node t p sl) s sr))"
    using sh s n by (cases "rb_color h p") (auto simp: rb_tree_plug short_left_def sr)
  then have "short_at h' [] (plug c (Node (Node t p sl) s sr))"
    using h'(2) black_paint [of h' "[]" "plug c (Node (Node t p sl) s sr)"] holds_root [OF h'(2)] plug_Node [of c "Node t p sl" s sr]
      holds_node [of h' "[]"]
    by (cases "plug c (Node (Node t p sl) s sr)") (auto simp: short_at_def rb_tree_def col)
  moreover have "turn_parent_left (rt t) s h = Some (rb_root h', h')"
    using r q n h'(1) by (simp add: turn_parent_left_def sr fun_upd_twist)
  moreover have "same_data h h'" using h'(3) by (simp add: rotated_def same_data_def)
  ultimately show ?thesis by blast
qed

text \<open>The whole round: recolouring moves up, or the repair is over.\<close>

lemma delete_movesI:
  assumes "short_at h' c' t'" and "length c' < length c \<or> tcol (rb_color h') t' = RED"
    and "inorder (plug c' t') = inorder (plug c t)" and "same_data h h'"
  shows "delete_moves h c t (rt t') h'"
  using assms unfolding delete_moves_def by blast

lemma recolour_sibling:
  assumes sh: "short_left h c t p (Node sl s sr)"
    and s: "rb_color h s = BLACK" "tcol (rb_color h) sl = BLACK" "tcol (rb_color h) sr = BLACK"
  shows "short_at (h\<lparr>rb_color := (rb_color h)(s := RED)\<rparr>) c (Node t p (Node sl s sr))"
proof -
  note q = sibling_reads [OF sh] and r = short_left_reads [OF sh]
  have n: "p \<noteq> s" "s \<notin> set_tree t" "p \<notin> set_tree t" "s \<notin> set_tree sl" "p \<notin> set_tree sl" "s \<notin> set_tree sr" "p \<notin> set_tree sr"
    "s \<notin> ctx_set c"
    using short_left_distinct [OF sh] by auto
  show ?thesis
    using sh s n q r by (auto simp: short_left_def short_at_def holds_def fun_upd_twist intro: ctx_ok_weaken)
qed

lemma delete_left_moves:
  assumes sh: "short_left h c t p S"
  shows "\<exists>n h'. delete_left (rt t) h = Some (n, h') \<and> delete_moves h (InL p S # c) t n h'"
proof -
  from black_sibling_left_ok [OF sh] obtain h1 c1 sl s sr where b: "black_sibling_left (rt t) h = Some (s, h1)"
    and sh1: "short_left h1 c1 t p (Node sl s sr)" and s: "rb_color h1 s = BLACK" and c1: "c1 = c \<or> rb_color h1 p = RED"
    and i1: "inorder (plug c1 (Node t p (Node sl s sr))) = inorder (plug c (Node t p S))" and d1: "same_data h h1" by blast
  note r = short_left_reads [OF sh1] and q = sibling_reads [OF sh1]
  have "p \<noteq> s" using short_left_distinct [OF sh1] by auto
  consider (both) "tcol (rb_color h1) sl = BLACK" "tcol (rb_color h1) sr = BLACK" | (right) "tcol (rb_color h1) sr = RED"
    | (left) "tcol (rb_color h1) sl = RED" "tcol (rb_color h1) sr = BLACK" by (meson not_black)
  then show ?thesis
  proof cases
    case both
    let ?h = "h1\<lparr>rb_color := (rb_color h1)(s := RED)\<rparr>"
    have "delete_left (rt t) h = Some (p, ?h)" using b r q both by (simp add: delete_left_def)
    moreover have "delete_moves h (InL p S # c) t (rt (Node t p (Node sl s sr))) ?h"
      using recolour_sibling [OF sh1 s both] c1 i1 d1 \<open>p \<noteq> s\<close>
      by (intro delete_movesI) (auto simp: same_data_def)
    ultimately show ?thesis by auto
  next
    case right
    from turn_parent_left_ok [OF sh1 s right] obtain h2 where h2: "turn_parent_left (rt t) s h1 = Some (rb_root h2, h2)"
      "short_at h2 [] (plug c1 (Node (Node t p sl) s sr))" "same_data h1 h2" by blast
    have "delete_left (rt t) h = Some (rb_root h2, h2)" using b r q right h2(1) by (simp add: delete_left_def)
    moreover have "rb_root h2 = rt (plug c1 (Node (Node t p sl) s sr))"
      using h2(2) holds_root [of h2] by (simp add: short_at_def)
    moreover have "delete_moves h (InL p S # c) t (rt (plug c1 (Node (Node t p sl) s sr))) h2"
      using h2 i1 same_data_trans [OF d1 h2(3)] by (intro delete_movesI) auto
    ultimately show ?thesis by auto
  next
    case left
    obtain ul u ur where sl: "sl = Node ul u ur" using left(1) by (cases sl) auto
    have ru: "rb_color h1 u = RED" using left(1) sl by simp
    from turn_sibling_left_ok [OF sh1 [unfolded sl] s ru left(2)] obtain h2 where h2: "turn_sibling_left (rt t) s h1 = Some (u, h2)"
      "short_left h2 c1 t p (Node ul u (Node ur s sr))" "rb_color h2 u = BLACK" "rb_color h2 s = RED" "same_data h1 h2" by blast
    from turn_parent_left_ok [OF h2(2,3)] h2(4) obtain h3 where h3: "turn_parent_left (rt t) u h2 = Some (rb_root h3, h3)"
      "short_at h3 [] (plug c1 (Node (Node t p ul) u (Node ur s sr)))" "same_data h2 h3" by auto
    have "delete_left (rt t) h = Some (rb_root h3, h3)" using b r q left ru sl h2(1) h3(1) by (simp add: delete_left_def)
    moreover have "rb_root h3 = rt (plug c1 (Node (Node t p ul) u (Node ur s sr)))"
      using h3(2) holds_root [of h3] by (simp add: short_at_def)
    moreover have "delete_moves h (InL p S # c) t (rt (plug c1 (Node (Node t p ul) u (Node ur s sr)))) h3"
      using h3 i1 sl same_data_trans [OF d1 same_data_trans [OF h2(5) h3(3)]] by (intro delete_movesI) auto
    ultimately show ?thesis by auto
  qed
qed

text \<open>The other half.\<close>

lemma delete_right_flip: "delete_right node (flip h) = map_option (map_prod id flip) (delete_left node h)"
  by (simp add: delete_left_def delete_right_def black_sibling_left_def black_sibling_right_def turn_sibling_left_def
      turn_sibling_right_def turn_parent_left_def turn_parent_right_def map_bind bind_map case_prod_unfold
      left_rotate_flip right_rotate_flip
      if_distrib [of "\<lambda>x. Option.bind x g" for g] if_distrib [of "map_option f" for f] cong: if_cong option.case_cong)

lemma rt_mirror [simp]: "rt (mirror t) = rt t"
  by (cases t) auto

lemma up_flip [simp]: "up (flip_ctx c) = up c"
  by (cases c rule: up.cases) auto

lemma short_at_flip: "short_at h c t \<Longrightarrow> short_at (flip h) (flip_ctx c) (mirror t)"
proof -
  assume s: "short_at h c t"
  have "bh (rb_color h) (mirror t) = bh (rb_color h) t"
  proof (cases t)
    case (Node l a r)
    have d: "distinct (inorder (Node l a r))" using s holds_distinct [of h "plug c t"] Node by (auto simp: short_at_def)
    then show ?thesis using s rb_ok_mirror [of "rb_color h" l] rb_ok_mirror [of "rb_color h" r]
      unfolding Node by (auto simp: short_at_def)
  qed simp
  with s holds_flip_plug [of h c t] show ?thesis by (auto simp: short_at_def ctx_ok_flip rb_ok_mirror)
qed

lemma delete_moves_flip:
  assumes "delete_moves (flip h) (flip_ctx c) (mirror t) n h'"
  shows "delete_moves h c t n (flip h')"
proof -
  from assms obtain c' t' where m: "n = rt t'" "short_at h' c' t'" "length c' < length (flip_ctx c) \<or> tcol (rb_color h') t' = RED"
    "inorder (plug c' t') = inorder (plug (flip_ctx c) (mirror t))" "same_data (flip h) h'" unfolding delete_moves_def by blast
  have "inorder (plug (flip_ctx c') (mirror t')) = inorder (plug c t)"
    unfolding inorder_flip_plug m(4) by simp
  with m short_at_flip [OF m(2)] same_data_flip [of "flip h" h'] show ?thesis
    using delete_movesI [of "flip h'" "flip_ctx c'" "mirror t'" c t h] by simp
qed

lemma delete_right_moves:
  assumes "short_at h (InR S p # c) t" and "tcol (rb_color h) t = BLACK"
  shows "\<exists>n h'. delete_right (rt t) h = Some (n, h') \<and> delete_moves h (InR S p # c) t n h'"
proof -
  have "short_left (flip h) (flip_ctx c) (mirror t) p (mirror S)"
    using short_at_flip [OF assms(1)] assms(2) by (intro short_leftI) simp_all
  from delete_left_moves [OF this] obtain n h' where n: "delete_left (rt t) (flip h) = Some (n, h')"
    and m: "delete_moves (flip h) (flip_ctx (InR S p # c)) (mirror t) n h'" by auto
  have "delete_right (rt t) h = Some (n, flip h')" using delete_right_flip [of "rt t" "flip h"] n by simp
  with delete_moves_flip [OF m] show ?thesis by blast
qed

text \<open>The loop ends with a red-black tree once its node has been painted.\<close>

lemma rt_not_root: "holds h (plug c t) \<Longrightarrow> c \<noteq> [] \<Longrightarrow> rt t \<noteq> rb_root h"
  using holds_not_root [of h c t] holds_root [of h "plug c t"] rt_plug [of c t] holds_in [of h "plug c t" "rt (plug c t)"]
  by (cases "rt t = nilnode") auto

lemma delete_loop_round:
  assumes sh: "short_at h c t" and c: "c \<noteq> []" and t: "tcol (rb_color h) t = BLACK"
  shows "\<exists>n h'. delete_fixup_loop (rt t) h = delete_fixup_loop n h' \<and> delete_moves h c t n h'"
proof -
  have h: "holds h (plug c t)" "rb_p h (rt t) = up c" using sh by (auto simp: short_at_def)
  have r: "rt t \<noteq> rb_root h" "rt t \<in> rb_alive h" "rb_color h (rt t) = BLACK"
    using rt_not_root [OF h(1) c] rt_alive [OF h(1)] holds_nil [OF h(1)] t by (auto simp: tcol_rt)
  obtain F c1 where c1: "c = F # c1" using c by (cases c) auto
  obtain p S where F: "F = InL p S \<or> F = InR S p" by (cases F) auto
  have p: "up c = p" "p \<in> rb_alive h" "p \<noteq> nilnode" "rb_left h p = (case F of InL _ _ \<Rightarrow> rt t | InR _ _ \<Rightarrow> rt S)"
    using F c1 h(1) holds_node [of h c1 t p S] holds_node [of h c1 S p t] by auto
  have "S \<noteq> Leaf" using sh F c1 by (auto simp: short_at_def)
  then have "rt S \<noteq> rt t" if "F = InR S p"
    using holds_distinct [OF h(1)] c1 that holds_in [OF h(1), of "rt S"] by (cases S; cases t) auto
  then have turn: "(rt t = rb_left h p) = (\<exists>a u. F = InL a u)" using p(4) F by auto
  have step: "delete_fixup_loop (rt t) h = Option.bind (if \<exists>a u. F = InL a u then delete_left (rt t) h else delete_right (rt t) h)
      (\<lambda>y. delete_fixup_loop (fst y) (snd y))"
    using r p h(2) turn by (subst delete_fixup_loop.simps) simp
  from F show ?thesis
  proof
    assume F: "F = InL p S"
    with delete_left_moves [OF short_leftI [of h p S c1 t]] sh t step show ?thesis by (fastforce simp: c1)
  next
    assume F: "F = InR S p"
    with delete_right_moves [of h S p c1 t] sh t step show ?thesis by (fastforce simp: c1)
  qed
qed

lemma delete_loop_exit:
  assumes sh: "short_at h c t" and e: "c = [] \<or> tcol (rb_color h) t = RED"
  shows "delete_fixup_loop (rt t) h = Some (rt t, h)" "rb_tree ((rb_color h)(rt t := BLACK)) (plug c t)"
proof -
  have h: "holds h (plug c t)" using sh by (simp add: short_at_def)
  have "c = [] \<Longrightarrow> rt t = rb_root h" using holds_root [OF h] by simp
  then show "delete_fixup_loop (rt t) h = Some (rt t, h)"
    using e rt_alive [OF h] holds_nil [OF h] by (subst delete_fixup_loop.simps) (auto simp: tcol_rt)
  let ?col = "(rb_color h)(rt t := BLACK)"
  have ok: "rb_ok ?col t" "tcol ?col t = BLACK" using sh by (auto simp: short_at_def, cases t, auto)
  show "rb_tree ?col (plug c t)"
  proof (cases "c = []")
    case True
    with ok show ?thesis by (simp add: rb_tree_def)
  next
    case False
    then obtain l a r where t: "t = Node l a r" "rb_color h a = RED" using e by (cases t) auto
    have "a \<notin> set_tree l" "a \<notin> ctx_set c" using holds_distinct [OF h] t by (auto simp: ctx_set_lists)
    with ok sh t show ?thesis by (simp add: rb_tree_plug short_at_def)
  qed
qed

lemma rb_delete_fixup_ok:
  assumes "short_at h c t"
  shows "\<exists>h' t'. rb_delete_fixup (rt t) h = Some h' \<and> holds h' t' \<and> rb_tree (rb_color h') t'
     \<and> inorder t' = inorder (plug c t) \<and> same_data h h'"
  using assms
proof (induction "length c" arbitrary: h c t rule: less_induct)
  case less
  have exit: "\<exists>h' t'. rb_delete_fixup (rt t) h = Some h' \<and> holds h' t' \<and> rb_tree (rb_color h') t'
     \<and> inorder t' = inorder (plug c t) \<and> same_data h h'"
    if sh: "short_at h c t" and e: "c = [] \<or> tcol (rb_color h) t = RED" for h :: "'a rb" and c t
  proof -
    have h: "holds h (plug c t)" using sh by (simp add: short_at_def)
    let ?h = "h\<lparr>rb_color := (rb_color h)(rt t := BLACK)\<rparr>"
    have "rb_delete_fixup (rt t) h = Some ?h"
      using delete_loop_exit [OF sh e] rt_alive [OF h] by (simp add: rb_delete_fixup_def)
    moreover have "holds ?h (plug c t)" using h by (auto simp: holds_def)
    ultimately show ?thesis using delete_loop_exit [OF sh e] by (auto simp: same_data_def)
  qed
  show ?case
  proof (cases "c = [] \<or> tcol (rb_color h) t = RED")
    case True
    then show ?thesis by (rule exit [OF less.prems])
  next
    case False
    with delete_loop_round [OF less.prems] obtain n h' where n: "delete_fixup_loop (rt t) h = delete_fixup_loop n h'"
      and "delete_moves h c t n h'" by auto
    then obtain c' t' where m: "n = rt t'" "short_at h' c' t'" "length c' < length c \<or> tcol (rb_color h') t' = RED"
      "inorder (plug c' t') = inorder (plug c t)" "same_data h h'" unfolding delete_moves_def by blast
    from m(3) less.hyps [OF _ m(2)] exit [OF m(2)] obtain h2 t2 where h2: "rb_delete_fixup (rt t') h' = Some h2" "holds h2 t2"
      "rb_tree (rb_color h2) t2" "inorder t2 = inorder (plug c' t')" "same_data h' h2" by blast
    have "rb_delete_fixup (rt t) h = Some h2" using n m(1) h2(1) by (simp add: rb_delete_fixup_def)
    with h2 m(4) same_data_trans [OF m(5) h2(5)] show ?thesis by (intro exI [of _ h2] exI [of _ t2]) simp
  qed
qed

end
