(* ===== verification/RbErase.thy ===== *)
theory RbErase
  imports RbStore RbDelete
begin

text \<open>
  Deletion as an operation on the finite map that the tree of \<open>RbTree\<close> holds.
\<close>

section \<open>Taking a node out\<close>

lemma rb_ok_painted: "rb_ok col t \<Longrightarrow> distinct (inorder t) \<Longrightarrow> rb_ok (col(rt t := BLACK)) t"
  by (cases t) auto

text \<open>What replaces a node that has at most one child.\<close>

definition only_child :: "nat tree \<Rightarrow> nat tree \<Rightarrow> nat tree" where
  "only_child l r = (if l = Leaf then r else l)"

lemma splice_out_ok:
  assumes h: "holds h (plug c (Node l y r))" and one: "l = Leaf \<or> r = Leaf"
  shows "\<exists>h'. splice_out y h = Some (rt (only_child l r), h') \<and> holds h' (plug c (only_child l r))
     \<and> rb_p h' (rt (only_child l r)) = up c \<and> same_data h h' \<and> rb_color h' = rb_color h"
proof -
  let ?x = "only_child l r" and ?S = "rb_alive h"
  note y = holds_node [OF h]
  obtain p where f: "focus h (up c) p c (Node l y r)" and n: "nilnode \<in> ?S" "rb_color h nilnode = BLACK"
    and d: "distinct (ctx_before c @ inorder (Node l y r) @ ctx_after c)"
    using h holds_focus by (metis focus_def is_ctx_up)
  have c: "is_ctx ?S (rb_p h) (rb_left h) (rb_right h) (rb_root h) (up c) y c"
    and x: "is_tree ?S (rb_p h) (rb_left h) (rb_right h) y (rt ?x) ?x" "distinct (inorder ?x)"
    using f one y(4,5) d by (auto simp: focus_def only_child_def)
  have q: "up c = nilnode \<or> up c \<in> ctx_set c \<and> up c \<in> ?S" by (rule hole_parent [OF c])
  have sub: "y \<notin> set_tree ?x" "set_tree ?x \<inter> ctx_set c = {}" "y \<notin> ctx_set c" "distinct (ctx_before c @ ctx_after c)"
    using d by (auto simp: only_child_def ctx_set_lists)
  have rx: "rt ?x \<noteq> y" "rt ?x \<notin> ctx_set c" "rt ?x \<in> ?S" "up c \<notin> set_tree ?x" "up c \<noteq> y"
    using x(1) sub y q is_ctx_alive [OF c] is_tree_alive [OF x(1)] n by (cases ?x; auto)+
  let ?P = "(rb_p h)(rt ?x := up c)"
  define h1 where "h1 = h\<lparr>rb_p := ?P\<rparr>"
  define h2 where "h2 = repoint (up c) y (rt ?x) h1"
  have "splice_out y h = Some (rt ?x, h2)"
    using y rx q n one by (auto simp: splice_out_def h2_def h1_def repoint_def only_child_def)
  moreover have "is_tree ?S ?P (rb_left h) (rb_right h) (up c) (rt ?x) ?x"
    using x by (cases ?x) auto
  then have "is_tree ?S (rb_p h2) (rb_left h2) (rb_right h2) (up c) (rt ?x) ?x"
    unfolding h2_def using rx by (simp add: repoint_tree h1_def)
  moreover have "is_ctx ?S (rb_p h1) (rb_left h1) (rb_right h1) (rb_root h1) (up c) y c" using c rx by (simp add: h1_def)
  from repoint_ctx [OF this sub(3) y(2) sub(4), of "rt ?x"]
  have "is_ctx ?S (rb_p h2) (rb_left h2) (rb_right h2) (rb_root h2) (up c) (rt ?x) c" by (simp add: h2_def)
  ultimately have "holds h2 (plug c ?x)" unfolding holds_focus
    using n d by (auto simp: focus_def h2_def h1_def only_child_def split: if_splits)
  with \<open>splice_out y h = Some (rt ?x, h2)\<close> show ?thesis by (simp add: h2_def h1_def same_data_def)
qed

text \<open>After that the tree is a red-black tree, or one black node short.\<close>

lemma splice_colors:
  assumes t: "rb_tree col (plug c (Node l y r))" and one: "l = Leaf \<or> r = Leaf"
  shows "col y = RED \<Longrightarrow> rb_tree col (plug c (only_child l r))"
    and "col y = BLACK \<Longrightarrow> rb_ok col (only_child l r) \<and> ctx_ok col c (bh col (only_child l r) + 1) BLACK"
proof -
  let ?x = "only_child l r"
  have ok: "rb_ok col (Node l y r)" "ctx_ok col c (bh col (Node l y r)) (col y)" using t by (auto simp: rb_tree_plug)
  have b: "bh col ?x = bh col l" "rb_ok col ?x" using ok one by (auto simp: only_child_def)
  show "rb_tree col (plug c ?x)" if "col y = RED"
  proof -
    have "tcol col ?x = BLACK" using ok(1) that by (simp add: only_child_def)
    moreover have "ctx_ok col c (bh col ?x) BLACK" using ok(2) that b(1) by (auto intro: ctx_ok_weaken)
    ultimately show ?thesis using b by (simp add: rb_tree_plug)
  qed
  show "rb_ok col ?x \<and> ctx_ok col c (bh col ?x + 1) BLACK" if "col y = BLACK"
    using ok b that by simp
qed

lemma short_at_data: "short_at (h\<lparr>rb_addr := f, rb_hndl := g, rb_prop := k\<rparr>) c t = short_at h c t"
  by (simp add: short_at_def holds_def)

lemma ctx_append:
  "plug (c @ d) t = plug d (plug c t)" "ctx_before (c @ d) = ctx_before d @ ctx_before c"
  "ctx_after (c @ d) = ctx_after c @ ctx_after d"
  by (induction c t rule: plug.induct) auto

lemma tree_minimum_node:
  "is_tree (rb_alive h) P (rb_left h) (rb_right h) q p t \<Longrightarrow> t \<noteq> Leaf \<Longrightarrow>
     \<exists>c y r. tree_minimum h p = Some y \<and> t = plug c (Node Leaf y r) \<and> ctx_before c = []"
proof (induction t arbitrary: q p)
  case (Node l a r)
  show ?case
  proof (cases "l = Leaf")
    case True
    with Node.prems have "tree_minimum h p = Some a" by (subst tree_minimum.simps) auto
    with True show ?thesis by (intro exI [of _ "[]"] exI [of _ a] exI [of _ r]) simp
  next
    case False
    have l: "is_tree (rb_alive h) P (rb_left h) (rb_right h) a (rb_left h a) l" using Node.prems by simp
    from Node.IH(1) [OF l False] obtain c y r' where m: "tree_minimum h (rb_left h a) = Some y" "l = plug c (Node Leaf y r')"
      "ctx_before c = []" by blast
    have "rb_left h a \<noteq> nilnode" using l False is_tree_root by blast
    then have "tree_minimum h p = Some y" using Node.prems m(1) by (subst tree_minimum.simps) simp
    moreover have "Node l a r = plug (c @ [InL a r]) (Node Leaf y r')" "ctx_before (c @ [InL a r]) = []"
      using m(2,3) by (simp_all add: ctx_append)
    ultimately show ?thesis by blast
  qed
qed simp

section \<open>\<open>rb_delete\<close>\<close>

text \<open>The end of \<open>rb_delete\<close>: the repair, where a black node was taken out.\<close>

lemma delete_end:
  assumes h: "holds h (plug c x)" "rb_p h (rt x) = up c" and t: "rb_tree (rb_color h) (plug c (Node l y r))"
    and one: "l = Leaf \<or> r = Leaf" and x: "x = only_child l r"
  shows "\<exists>h' t'. (if rb_color h y = BLACK then rb_delete_fixup (rt x) h else Some h) = Some h' \<and> holds h' t'
     \<and> rb_tree (rb_color h') t' \<and> inorder t' = inorder (plug c x) \<and> same_data h h'"
proof (cases "rb_color h y = BLACK")
  case True
  have "distinct (inorder x)" using holds_distinct [OF h(1)] by simp
  then have "short_at h c x"
    using splice_colors(2) [OF t one True] h rb_ok_painted x by (simp add: short_at_def)
  from rb_delete_fixup_ok [OF this] True show ?thesis by simp
next
  case False
  then show ?thesis using splice_colors(1) [OF t one] h x by auto
qed

text \<open>A node with at most one child is taken out itself.\<close>

lemma rb_delete_one:
  assumes h: "holds h (plug c (Node l y r))" and t: "rb_tree (rb_color h) (plug c (Node l y r))" and one: "l = Leaf \<or> r = Leaf"
  shows "\<exists>h' t'. rb_delete y h = Some (y, h') \<and> holds h' t' \<and> rb_tree (rb_color h') t'
     \<and> inorder t' = ctx_before c @ inorder l @ inorder r @ ctx_after c \<and> same_data h h'"
proof -
  note y = holds_node [OF h]
  have "rt l = nilnode \<or> rt r = nilnode" using one by auto
  then have s: "splice_of y h = Some y" using y by (simp add: splice_of_def)
  from splice_out_ok [OF h one] obtain h1 where h1: "splice_out y h = Some (rt (only_child l r), h1)"
    "holds h1 (plug c (only_child l r))" "rb_p h1 (rt (only_child l r)) = up c" "same_data h h1" "rb_color h1 = rb_color h" by blast
  have t1: "rb_tree (rb_color h1) (plug c (Node l y r))" using t h1(5) by simp
  from delete_end [OF h1(2,3) t1 one refl] obtain h2 t2 where h2:
    "(if rb_color h1 y = BLACK then rb_delete_fixup (rt (only_child l r)) h1 else Some h1) = Some h2"
    "holds h2 t2" "rb_tree (rb_color h2) t2" "inorder t2 = inorder (plug c (only_child l r))" "same_data h1 h2" by blast
  have "y \<in> rb_alive h1" using y h1(4) by (simp add: same_data_def)
  then have "rb_delete y h = Some (y, h2)" using s h1(1) h2(1) by (simp add: rb_delete_def split: if_splits)
  moreover have "inorder (plug c (only_child l r)) = ctx_before c @ inorder l @ inorder r @ ctx_after c"
    using one by (auto simp: only_child_def)
  ultimately show ?thesis using h2 same_data_trans [OF h1(4) h2(5)] by auto
qed

text \<open>
  Otherwise its successor is taken out, and the node gets the address of its successor; it keeps
  its own handle and properties.
\<close>

definition key_moved :: "'m rb \<Rightarrow> nat \<Rightarrow> nat \<Rightarrow> 'm rb \<Rightarrow> bool" where
  "key_moved h d y h' \<longleftrightarrow> rb_alive h' = rb_alive h \<and> rb_addr h' = (rb_addr h)(d := rb_addr h y)
     \<and> rb_hndl h' = (rb_hndl h)(y := rb_hndl h d) \<and> rb_prop h' = (rb_prop h)(y := rb_prop h d)"

lemma rb_delete_two:
  assumes h: "holds h (plug c (Node l d r))" and t: "rb_tree (rb_color h) (plug c (Node l d r))"
    and two: "l \<noteq> Leaf" "r \<noteq> Leaf"
  shows "\<exists>h' t' y bs. rb_delete d h = Some (y, h') \<and> holds h' t' \<and> rb_tree (rb_color h') t' \<and> inorder r = y # bs
     \<and> inorder t' = ctx_before c @ inorder l @ d # bs @ ctx_after c \<and> key_moved h d y h'"
proof -
  note d = holds_node [OF h]
  have r: "is_tree (rb_alive h) (rb_p h) (rb_left h) (rb_right h) d (rb_right h d) r"
    using h holds_focus [of h c "Node l d r"] by (auto simp: focus_def)
  from tree_minimum_node [OF r two(2)] obtain c2 y r2 where y: "tree_minimum h (rb_right h d) = Some y"
    "r = plug c2 (Node Leaf y r2)" "ctx_before c2 = []" by blast
  let ?c = "c2 @ InR l d # c"
  have hy: "holds h (plug ?c (Node Leaf y r2))" "rb_tree (rb_color h) (plug ?c (Node Leaf y r2))"
    using h t y(2) by (simp_all add: ctx_append)
  have "rt l \<noteq> nilnode" "rt r \<noteq> nilnode"
    using two holds_in [OF h, of "rt l"] holds_in [OF h, of "rt r"] by (cases l; cases r; simp)+
  then have s: "splice_of d h = Some y" using d y(1) by (simp add: splice_of_def tree_successor_def)
  have yd: "y \<noteq> d" using holds_distinct [OF h] y(2) by auto
  from splice_out_ok [OF hy(1)] obtain h1 where h1: "splice_out y h = Some (rt r2, h1)"
    "holds h1 (plug ?c r2)" "rb_p h1 (rt r2) = up ?c" "same_data h h1" "rb_color h1 = rb_color h"
    by (auto simp: only_child_def)
  have al: "y \<in> rb_alive h1" "d \<in> rb_alive h1" using d holds_node [OF hy(1)] h1(4) by (simp_all add: same_data_def)
  let ?h = "h1\<lparr>rb_addr := (rb_addr h1)(d := rb_addr h1 y), rb_hndl := (rb_hndl h1)(y := rb_hndl h1 d),
    rb_prop := (rb_prop h1)(y := rb_prop h1 d)\<rparr>"
  have "holds ?h (plug ?c r2)" using h1(2) by (simp add: holds_def)
  from delete_end [of ?h ?c r2 Leaf y r2, OF this] h1(3,5) hy(2) obtain h2 t2 where
    h2: "(if rb_color ?h y = BLACK then rb_delete_fixup (rt r2) ?h else Some ?h) = Some h2"
      "holds h2 t2" "rb_tree (rb_color h2) t2" "inorder t2 = inorder (plug ?c r2)" "same_data ?h h2"
    by (auto simp: only_child_def)
  have "rb_delete d h = Some (y, h2)" using s h1(1) h2(1) al yd by (simp add: rb_delete_def split: if_splits)
  moreover have "inorder r = y # inorder r2 @ ctx_after c2" using y(2,3) by simp
  moreover have "inorder t2 = ctx_before c @ inorder l @ d # (inorder r2 @ ctx_after c2) @ ctx_after c"
    using h2(4) y(3) by (simp add: ctx_append)
  moreover have "key_moved h d y h2" using h2(5) h1(4) by (simp add: key_moved_def same_data_def)
  ultimately show ?thesis using h2(2,3) by blast
qed

section \<open>The map after a deletion\<close>

lemma map_of_without:
  assumes "keys_sorted h (as @ y # bs)"
  shows "map_of (entries h (as @ bs)) = (map_of (entries h (as @ y # bs)))(rb_addr h y := None)"
    (is "?a = ?b(?k := None)")
proof -
  have "?k \<notin> fst ` set (entries h as)" "?k \<notin> rb_addr h ` set (as @ bs)" using assms by auto
  then have "?b = ?a(?k \<mapsto> (rb_hndl h y, rb_prop h y))" "?a ?k = None"
    using map_of_mid [of ?k "entries h as" "(rb_hndl h y, rb_prop h y)" "entries h bs"] entries_None [of h "as @ bs" ?k]
    by (simp_all del: map_of_append)
  then show ?thesis by (simp add: fun_upd_idem)
qed

lemma free_holds: "holds h t \<Longrightarrow> y \<notin> set_tree t \<Longrightarrow> y \<noteq> nilnode \<Longrightarrow> holds (free_node y h) t"
  by (simp add: holds_def free_node_def is_tree_fewer_alive)

lemma free_stores:
  assumes "holds h t" and "rb_tree (rb_color h) t" and "keys_sorted h (inorder t)" and "y \<notin> set_tree t" and "y \<noteq> nilnode"
    and "rb_alive h = insert nilnode (insert y (set_tree t))"
  shows "stores (free_node y h) (map_of (entries h (inorder t)))"
proof -
  have "rb_alive (free_node y h) = insert nilnode (set_tree t)" using assms(4-6) by (auto simp: free_node_def)
  moreover have "entries (free_node y h) = entries h" "keys_sorted (free_node y h) = keys_sorted h" "rb_color (free_node y h) = rb_color h"
    by (simp_all add: free_node_def entries_def keys_sorted_def fun_eq_iff)
  ultimately show ?thesis unfolding stores_def using assms free_holds [OF assms(1,4,5)]
    by (intro exI [of _ t]) simp
qed

lemma erase_one:
  assumes h: "holds h (plug c (Node l y r))" "rb_tree (rb_color h) (plug c (Node l y r))" "keys_sorted h (inorder (plug c (Node l y r)))"
    and al: "rb_alive h = insert nilnode (set_tree (plug c (Node l y r)))" and one: "l = Leaf \<or> r = Leaf"
  shows "\<exists>h'. rb_delete y h = Some (y, h')
     \<and> stores (free_node y h') ((map_of (entries h (inorder (plug c (Node l y r)))))(rb_addr h y := None))"
proof -
  let ?as = "ctx_before c @ inorder l" and ?bs = "inorder r @ ctx_after c"
  have o: "keys_sorted h (?as @ y # ?bs)" "distinct (?as @ y # ?bs)" using h(3) holds_distinct [OF h(1)] by simp_all
  from rb_delete_one [OF h(1,2) one] obtain h' t' where h': "rb_delete y h = Some (y, h')" "holds h' t'" "rb_tree (rb_color h') t'"
    "inorder t' = ?as @ ?bs" "same_data h h'" by auto
  have st: "set_tree t' = set (?as @ ?bs)" using h'(4) by (metis set_inorder)
  have "y \<notin> set_tree t'" "rb_alive h' = insert nilnode (insert y (set_tree t'))" "keys_sorted h' (inorder t')"
    using st o al h'(4,5) same_data_entries [OF h'(5)] by (auto simp: same_data_def ctx_set_lists)
  from free_stores [OF h'(2,3) this(3,1) holds_node(2) [OF h(1)] this(2)]
  have "stores (free_node y h') (map_of (entries h (?as @ ?bs)))" using h'(4) same_data_entries [OF h'(5)] by simp
  then show ?thesis using h'(1) map_of_without [OF o(1)] by (simp del: map_of_append entries_simps)
qed

lemma key_moved_entries:
  "key_moved h d y h' \<Longrightarrow> d \<notin> set as \<Longrightarrow> y \<notin> set as \<Longrightarrow> entries h' as = entries h as \<and> keys_sorted h' as = keys_sorted h as"
  by (rule entries_cong) (auto simp: key_moved_def)

lemma key_moved_map:
  assumes m: "key_moved h d y h'" and o: "keys_sorted h (as @ d # y # bs)" "distinct (as @ d # y # bs)"
  shows "keys_sorted h' (as @ d # bs)"
    and "map_of (entries h' (as @ d # bs)) = (map_of (entries h (as @ d # y # bs)))
      (rb_addr h d := None, rb_addr h y \<mapsto> (rb_hndl h d, rb_prop h d))"
proof -
  have s: "entries h' as = entries h as" "keys_sorted h' as" "entries h' bs = entries h bs" "keys_sorted h' bs"
    using key_moved_entries [OF m, of "as"] key_moved_entries [OF m, of bs] o by auto
  have d: "rb_addr h' d = rb_addr h y" "rb_hndl h' d = rb_hndl h d" "rb_prop h' d = rb_prop h d"
    "\<forall>b \<in> set as \<union> set bs. rb_addr h' b = rb_addr h b" using m o(2) by (auto simp: key_moved_def)
  show "keys_sorted h' (as @ d # bs)" using s d o(1) by auto
  have y: "rb_addr h y \<notin> fst ` set (entries h as)" using o(1) by auto
  have "map_of (entries h' (as @ d # bs)) = (map_of (entries h (as @ bs)))(rb_addr h y \<mapsto> (rb_hndl h d, rb_prop h d))"
    using s d map_of_mid [OF y] by (simp del: map_of_append)
  also have "map_of (entries h (as @ bs)) = (map_of (entries h (as @ y # bs)))(rb_addr h y := None)"
    using o(1) by (intro map_of_without) auto
  also have "map_of (entries h (as @ y # bs)) = (map_of (entries h (as @ d # y # bs)))(rb_addr h d := None)"
    using o(1) by (intro map_of_without)
  also have "((map_of (entries h (as @ d # y # bs)))(rb_addr h d := None))(rb_addr h y := None, rb_addr h y \<mapsto> (rb_hndl h d, rb_prop h d))
      = (map_of (entries h (as @ d # y # bs)))(rb_addr h d := None, rb_addr h y \<mapsto> (rb_hndl h d, rb_prop h d))" by (rule fun_upd_upd)
  finally show "map_of (entries h' (as @ d # bs)) = (map_of (entries h (as @ d # y # bs)))
      (rb_addr h d := None, rb_addr h y \<mapsto> (rb_hndl h d, rb_prop h d))" .
qed

lemma erase_two:
  assumes h: "holds h (plug c (Node l d r))" "rb_tree (rb_color h) (plug c (Node l d r))" "keys_sorted h (inorder (plug c (Node l d r)))"
    and al: "rb_alive h = insert nilnode (set_tree (plug c (Node l d r)))" and two: "l \<noteq> Leaf" "r \<noteq> Leaf"
  shows "\<exists>h' y. rb_delete d h = Some (y, h') \<and> y \<in> set_tree r \<and> (\<forall>b \<in> set_tree r. rb_addr h y \<le> rb_addr h b)
     \<and> stores (free_node y h') ((map_of (entries h (inorder (plug c (Node l d r)))))
          (rb_addr h d := None, rb_addr h y \<mapsto> (rb_hndl h d, rb_prop h d)))"
proof -
  from rb_delete_two [OF h(1,2) two] obtain h' t' y bs where h': "rb_delete d h = Some (y, h')" "holds h' t'" "rb_tree (rb_color h') t'"
    "inorder r = y # bs" "inorder t' = ctx_before c @ inorder l @ d # bs @ ctx_after c" "key_moved h d y h'" by blast
  obtain as' bs' where ab: "as' = ctx_before c @ inorder l" "bs' = bs @ ctx_after c" by blast
  have i: "inorder (plug c (Node l d r)) = as' @ d # y # bs'" "inorder t' = as' @ d # bs'" using h'(4,5) by (simp_all add: ab)
  have o: "keys_sorted h (as' @ d # y # bs')" "distinct (as' @ d # y # bs')" using h(3) holds_distinct [OF h(1)] i(1) by metis+
  have st: "set_tree t' = set (as' @ d # bs')" "set_tree (plug c (Node l d r)) = set (as' @ d # y # bs')" "set_tree r = set (y # bs)"
    using i h'(4) by (metis set_inorder)+
  have "y \<notin> set_tree t'" "rb_alive h' = insert nilnode (insert y (set_tree t'))" "y \<noteq> nilnode"
    using st(1,2) o(2) al h'(6) holds_in [OF h(1), of y] by (auto simp: key_moved_def)
  with free_stores [OF h'(2,3)] key_moved_map [OF h'(6) o] i
  have "stores (free_node y h') ((map_of (entries h (inorder (plug c (Node l d r)))))
      (rb_addr h d := None, rb_addr h y \<mapsto> (rb_hndl h d, rb_prop h d)))" by metis
  moreover have "\<forall>b \<in> set_tree r. rb_addr h y \<le> rb_addr h b" using o(1) st(3) ab(2) by (auto simp: less_imp_le)
  ultimately show ?thesis using h'(1) st(3) by auto
qed

lemma tree_split: "a \<in> set_tree t \<Longrightarrow> \<exists>c l r. t = plug c (Node l a r)"
proof (induction t)
  case (Node l b r)
  then consider "a = b" | "\<exists>c l' r'. l = plug c (Node l' a r')" | "\<exists>c l' r'. r = plug c (Node l' a r')" by auto
  then show ?case
  proof cases
    case 1
    then show ?thesis by (metis plug.simps(1))
  next
    case 2
    then show ?thesis by (metis ctx_append(1) plug.simps(1,2))
  next
    case 3
    then show ?thesis by (metis ctx_append(1) plug.simps(1,3))
  qed
qed simp

text \<open>
  Deleting an address: the entry goes, but if its node has two children, the next larger address
  is left with the handle and the properties of the deleted entry.
\<close>

definition next_key :: "(int \<rightharpoonup> 'b) \<Rightarrow> int \<Rightarrow> int \<Rightarrow> bool" where
  "next_key m k j \<longleftrightarrow> k < j \<and> j \<in> dom m \<and> (\<forall>i \<in> dom m. i \<le> k \<or> j \<le> i)"

lemma del_stores:
  assumes "stores h m" and "k \<in> dom m"
  shows "\<exists>h' m'. persist_mr_del k h = Some (Inr (the (m k), h')) \<and> stores h' m'
     \<and> (m' = m(k := None) \<or> (\<exists>j. next_key m k j \<and> m' = m(k := None, j := m k)))"
proof -
  from assms obtain t where t: "holds h t" "rb_tree (rb_color h) t" "keys_sorted h (inorder t)" "m = map_of (entries h (inorder t))"
    and al: "rb_alive h = insert nilnode (set_tree t)"
    unfolding stores_def by blast
  obtain a where a: "a \<in> set_tree t" "rb_addr h a = k" "tree_search h (rb_root h) k = Some a"
    "map_of (entries h (inorder t)) k = Some (rb_hndl h a, rb_prop h a)" "a \<in> rb_alive h" "a \<noteq> nilnode"
    by (rule search_stores [OF t(1,3), of k]) (blast, use assms(2) t(4) in \<open>metis domIff\<close>)
  obtain c l r where s: "t = plug c (Node l a r)" using tree_split [OF a(1)] by blast
  note ts = t(1-3) [unfolded s]
  show ?thesis
  proof (cases "l = Leaf \<or> r = Leaf")
    case True
    from erase_one [OF ts al [unfolded s] True] obtain h' where "rb_delete a h = Some (a, h')" "stores (free_node a h') (m(k := None))"
      using t(4) s a(2) by auto
    then show ?thesis using a t(4) by (intro exI [of _ "free_node a h'"] exI [of _ "m(k := None)"]) (simp add: persist_mr_del_def)
  next
    case False
    then have two: "l \<noteq> Leaf" "r \<noteq> Leaf" by auto
    from erase_two [OF ts al [unfolded s] two] obtain h' y where h': "rb_delete a h = Some (y, h')" "y \<in> set_tree r"
      "\<forall>b \<in> set_tree r. rb_addr h y \<le> rb_addr h b" "stores (free_node y h') (m(k := None, rb_addr h y := m k))"
      using t(4) s a(2,4) by (auto simp del: map_of_append entries_simps)
    have "next_key m k (rb_addr h y)"
      unfolding next_key_def using h'(2,3) t(3,4) a(2) dom_entries [of h "inorder t"] s
      by (force simp: ctx_set_lists simp del: map_of_append entries_simps)
    then show ?thesis using h' a t(4) by (intro exI [of _ "free_node y h'"] exI [of _ "m(k := None, rb_addr h y := m k)"])
      (auto simp: persist_mr_del_def)
  qed
qed

text \<open>The smallest address has no left child, so nothing is moved.\<close>

lemma delrand_stores:
  assumes "stores h m"
  shows "(m = Map.empty \<and> persist_mr_delrand h = Some (None, h))
     \<or> (\<exists>k h'. k \<in> dom m \<and> (\<forall>j \<in> dom m. k \<le> j) \<and> persist_mr_delrand h = Some (Some (k, the (m k)), h') \<and> stores h' (m(k := None)))"
proof -
  from assms obtain t where t: "holds h t" "rb_tree (rb_color h) t" "keys_sorted h (inorder t)" "m = map_of (entries h (inorder t))"
    and al: "rb_alive h = insert nilnode (set_tree t)"
    unfolding stores_def by blast
  show ?thesis
  proof (cases "t = Leaf")
    case True
    then show ?thesis using t holds_root [OF t(1)] by (simp add: persist_mr_delrand_def)
  next
    case False
    have tr: "is_tree (rb_alive h) (rb_p h) (rb_left h) (rb_right h) nilnode (rb_root h) t" using t(1) by (simp add: holds_def)
    from tree_minimum_node [OF tr False] obtain c y r where y: "tree_minimum h (rb_root h) = Some y"
      "t = plug c (Node Leaf y r)" "ctx_before c = []" by blast
    note hs = t(1-3) [unfolded y(2)]
    from erase_one [OF hs al [unfolded y(2)]] obtain h' where h': "rb_delete y h = Some (y, h')"
      "stores (free_node y h') (m(rb_addr h y := None))" using t(4) y(2) by auto
    have "rb_root h \<noteq> nilnode" using False tr is_tree_root by blast
    moreover have "m (rb_addr h y) = Some (rb_hndl h y, rb_prop h y)"
      using entries_at [OF t(3), of y] t(4) y(2) by simp
    moreover have "inorder t = y # inorder r @ ctx_after c" using y(2,3) by simp
    then have "dom m = rb_addr h ` set (y # inorder r @ ctx_after c)" "keys_sorted h (y # inorder r @ ctx_after c)"
      using t(3,4) dom_entries [of h "inorder t"] by metis+
    then have "\<forall>j \<in> dom m. rb_addr h y \<le> j" by (auto simp: less_imp_le)
    ultimately show ?thesis using y(1) h' holds_node(1) [OF hs(1)]
      by (intro disjI2 exI [of _ "rb_addr h y"] exI [of _ "free_node y h'"]) (auto simp: persist_mr_delrand_def)
  qed
qed

end
