(* ===== verification/IbRegions.thy ===== *)
theory IbRegions
  imports RbErase "HOL-Library.Multiset"
begin

unbundle bit_operations_syntax

text \<open>
  The memory regions that the Infiniband driver \<open>MP_Lite/ib.c\<close> keeps registered:
  \<open>register_memory_region\<close> looks in the tree of \<open>RbTree\<close> before it calls the adapter, and
  \<open>ib_cleanup\<close> gives all regions back.  The library VAPI is not part of the repository: its answers
  are arguments, and what is used of them is \<open>honest\<close>.
\<close>

section \<open>Registering\<close>

record mrw =
  mr_acl :: "32 word"
  mr_size :: int
  mr_start :: int
  mr_lkey :: int
  mr_rkey :: int

datatype vapi_call = Register mrw int | Deregister int

text \<open>
  A handle with its properties, and the calls made to the adapter (a registration with the handle it
  returned).  \<open>reg\<close> answers \<open>VAPI_register_mr\<close> and \<open>dereg\<close> \<open>VAPI_deregister_mr\<close>; an error ends the
  program.  The store of regions is passed as its operations \<open>get\<close>, \<open>add\<close> and \<open>edit\<close>.
\<close>

definition widen :: "mrw \<Rightarrow> 32 word \<Rightarrow> int \<Rightarrow> mrw" where
  "widen out acl nbytes =
     (let in1 = (if mr_acl out AND acl \<noteq> acl then out\<lparr>mr_acl := mr_acl out OR acl\<rparr> else out)
      in if mr_size out < nbytes then in1\<lparr>mr_size := nbytes\<rparr> else in1)"

definition new_region :: "int \<Rightarrow> int \<Rightarrow> 32 word \<Rightarrow> mrw" where
  "new_region start nbytes acl = \<lparr>mr_acl = acl, mr_size = nbytes, mr_start = start mod 2 ^ 32, mr_lkey = 0, mr_rkey = 0\<rparr>"

definition register_region ::
  "(int \<Rightarrow> 'h \<Rightarrow> (int \<times> mrw) option option) \<Rightarrow> (nat \<Rightarrow> int \<Rightarrow> int \<Rightarrow> mrw \<Rightarrow> 'h \<Rightarrow> 'h option) \<Rightarrow>
   (int \<Rightarrow> int \<Rightarrow> mrw \<Rightarrow> 'h \<Rightarrow> 'h outcome option) \<Rightarrow> (mrw \<Rightarrow> (int \<times> mrw) option) \<Rightarrow> (int \<Rightarrow> bool) \<Rightarrow> nat \<Rightarrow>
   int \<Rightarrow> int \<Rightarrow> 32 word \<Rightarrow> 'h \<Rightarrow> ((int \<times> mrw) \<times> vapi_call list \<times> 'h) outcome option" where
  "register_region get add edit reg dereg new start nbytes acl h = do {
     found \<leftarrow> get start h;
     case found of
       Some (hndl, out) \<Rightarrow>
         if mr_acl out AND acl \<noteq> acl \<or> mr_size out < nbytes then
           if \<not> dereg hndl then Some (Inl Exit)
           else (case reg (widen out acl nbytes) of
             None \<Rightarrow> Some (Inl Exit)
           | Some (hndl', out') \<Rightarrow> do {
               r \<leftarrow> edit start hndl' out' h;
               Some (obind r (\<lambda>h'. Inr ((hndl', out'), [Deregister hndl, Register (widen out acl nbytes) hndl'], h'))) })
         else Some (Inr ((hndl, out), [], h))
     | None \<Rightarrow>
         (case reg (new_region start nbytes acl) of
           None \<Rightarrow> Some (Inl Exit)
         | Some (hndl, out) \<Rightarrow> do {
             h' \<leftarrow> add new start hndl out h;
             Some (Inr ((hndl, out), [Register (new_region start nbytes acl) hndl], h')) }) }"

definition register_memory_region ::
  "(mrw \<Rightarrow> (int \<times> mrw) option) \<Rightarrow> (int \<Rightarrow> bool) \<Rightarrow> nat \<Rightarrow> int \<Rightarrow> int \<Rightarrow> 32 word \<Rightarrow> mrw rb \<Rightarrow>
   ((int \<times> mrw) \<times> vapi_call list \<times> mrw rb) outcome option" where
  "register_memory_region = register_region persist_mr_get persist_mr_add persist_mr_edit"

text \<open>With persistent regions \<open>deregister_memory_region\<close> makes no call.\<close>

definition deregister_memory_region :: "int \<Rightarrow> vapi_call list" where
  "deregister_memory_region hndl = []"

text \<open>The loop of \<open>ib_cleanup\<close>: the handles that are given back, in order.\<close>

partial_function (option) dereg_all ::
  "('h \<Rightarrow> ((int \<times> int \<times> mrw) option \<times> 'h) option) \<Rightarrow> 'h \<Rightarrow> (vapi_call list \<times> 'h) option" where
  [code]: "dereg_all delrand h = do {
     (r, h') \<leftarrow> delrand h;
     case r of
       None \<Rightarrow> Some ([], h')
     | Some (addr, hndl, prop) \<Rightarrow> do {
         (cs, h'') \<leftarrow> dereg_all delrand h';
         Some (Deregister hndl # cs, h'') } }"

definition ib_cleanup_regions :: "mrw rb \<Rightarrow> (vapi_call list \<times> mrw rb) option" where
  "ib_cleanup_regions = dereg_all persist_mr_delrand"

text \<open>The handles the adapter holds after some calls.\<close>

fun live_after :: "int set \<Rightarrow> vapi_call list \<Rightarrow> int set" where
  "live_after L [] = L"
| "live_after L (Register r hndl # cs) = live_after (insert hndl L) cs"
| "live_after L (Deregister hndl # cs) = live_after (L - {hndl}) cs"

section \<open>The contract of a store of regions\<close>

text \<open>
  \<open>st h m\<close>: the store \<open>h\<close> holds the map \<open>m\<close>; \<open>fresh\<close>: memory that the store does not use.
\<close>

locale region_store =
  fixes st :: "'h \<Rightarrow> (int \<rightharpoonup> int \<times> mrw) \<Rightarrow> bool"
    and get :: "int \<Rightarrow> 'h \<Rightarrow> (int \<times> mrw) option option"
    and add :: "nat \<Rightarrow> int \<Rightarrow> int \<Rightarrow> mrw \<Rightarrow> 'h \<Rightarrow> 'h option"
    and edit :: "int \<Rightarrow> int \<Rightarrow> mrw \<Rightarrow> 'h \<Rightarrow> 'h outcome option"
    and delrand :: "'h \<Rightarrow> ((int \<times> int \<times> mrw) option \<times> 'h) option"
    and fresh :: "nat \<Rightarrow> 'h \<Rightarrow> bool"
  assumes get_law: "st h m \<Longrightarrow> get k h = Some (m k)"
    and add_law: "st h m \<Longrightarrow> k \<notin> dom m \<Longrightarrow> fresh new h \<Longrightarrow> \<exists>h'. add new k x y h = Some h' \<and> st h' (m(k \<mapsto> (x, y)))"
    and edit_law: "st h m \<Longrightarrow> k \<in> dom m \<Longrightarrow> \<exists>h'. edit k x y h = Some (Inr h') \<and> st h' (m(k \<mapsto> (x, y)))"
    and delrand_law: "st h m \<Longrightarrow> (m = Map.empty \<and> delrand h = Some (None, h))
      \<or> (\<exists>k x y h'. m k = Some (x, y) \<and> delrand h = Some (Some (k, x, y), h') \<and> st h' (m(k := None)))"
    and finite_law: "st h m \<Longrightarrow> finite (dom m)"

text \<open>Every entry has a handle of its own, and these are all the handles that the adapter holds.\<close>

definition handle_of :: "(int \<rightharpoonup> int \<times> mrw) \<Rightarrow> int \<Rightarrow> int" where
  "handle_of m k = fst (the (m k))"

definition accounted :: "int set \<Rightarrow> (int \<rightharpoonup> int \<times> mrw) \<Rightarrow> bool" where
  "accounted L m \<longleftrightarrow> L = handle_of m ` dom m \<and> inj_on (handle_of m) (dom m)"

text \<open>
  What is used of the adapter: a registration yields a handle that is not in use, for a region at
  least as large as asked for and with at least the rights asked for.
\<close>

definition honest :: "int set \<Rightarrow> (mrw \<Rightarrow> (int \<times> mrw) option) \<Rightarrow> bool" where
  "honest L reg \<longleftrightarrow> (\<forall>r hndl out. reg r = Some (hndl, out) \<longrightarrow>
     hndl \<notin> L \<and> mr_size r \<le> mr_size out \<and> mr_acl out AND mr_acl r = mr_acl r)"

lemma acl_or: "(a OR b) AND b = (b :: 32 word)"
  by (simp add: bit_eq_iff bit_simps)

lemma acl_trans: "x AND (a OR b) = a OR b \<Longrightarrow> x AND b = (b :: 32 word)"
  by (metis acl_or and.assoc and.commute)

lemma acl_sub: "x AND a = a \<Longrightarrow> a AND b = b \<Longrightarrow> x AND b = (b :: 32 word)"
  by (metis and.assoc)

lemma widen_covers:
  "nbytes \<le> mr_size (widen out acl nbytes)"
  "x AND mr_acl (widen out acl nbytes) = mr_acl (widen out acl nbytes) \<Longrightarrow> x AND acl = acl"
  by (auto simp: widen_def Let_def dest: acl_trans acl_sub split: if_splits)

definition covers :: "int \<times> mrw \<Rightarrow> int \<Rightarrow> 32 word \<Rightarrow> bool" where
  "covers r nbytes acl \<longleftrightarrow> nbytes \<le> mr_size (snd r) \<and> mr_acl (snd r) AND acl = acl"

lemma handle_of_upd: "handle_of (m(k \<mapsto> (hndl, out))) = (handle_of m)(k := hndl)"
  by (auto simp: handle_of_def)

lemma handles_without:
  "inj_on (handle_of m) (dom m) \<Longrightarrow> k \<in> dom m \<Longrightarrow> handle_of m ` (dom m - {k}) = handle_of m ` dom m - {handle_of m k}"
  by (auto dest: inj_onD)

lemma accounted_new:
  assumes "accounted L m" and "hndl \<notin> L" and "k \<notin> dom m"
  shows "accounted (insert hndl L) (m(k \<mapsto> (hndl, out)))"
  using assms by (auto simp: accounted_def handle_of_upd fun_upd_image inj_on_fun_updI inj_on_def)

lemma accounted_replace:
  assumes "accounted L m" and "m k = Some (old, p)" and "hndl \<notin> L"
  shows "accounted (insert hndl (L - {old})) (m(k \<mapsto> (hndl, out)))"
proof -
  have k: "k \<in> dom m" "handle_of m k = old" using assms(2) by (auto simp: handle_of_def)
  then have "insert k (dom m) = dom m" "dom m \<inter> {x. x \<noteq> k} = dom m - {k}" by auto
  with assms k handles_without [of m k] show ?thesis
    by (simp add: accounted_def handle_of_upd fun_upd_image inj_on_fun_updI)
qed

lemma accounted_remove:
  assumes "accounted L m" and "m k = Some (hndl, p)"
  shows "accounted (L - {hndl}) (m(k := None)) \<and> hndl \<in> L"
proof -
  have k: "k \<in> dom m" "handle_of m k = hndl" using assms(2) by (auto simp: handle_of_def)
  have "handle_of (m(k := None)) j = handle_of m j" if "j \<noteq> k" for j using that by (simp add: handle_of_def)
  then have "handle_of (m(k := None)) ` (dom m - {k}) = handle_of m ` (dom m - {k})"
    "inj_on (handle_of (m(k := None))) (dom m - {k}) = inj_on (handle_of m) (dom m - {k})"
    by (auto simp: inj_on_def)
  with assms k handles_without [of m k] show ?thesis
    by (auto simp: accounted_def intro: inj_on_subset)
qed

lemma honestD:
  assumes "honest L reg" and "reg r = Some (hndl, out)"
  shows "hndl \<notin> L" "mr_size r \<le> mr_size out" "mr_acl out AND mr_acl r = mr_acl r"
  using assms unfolding honest_def by blast+

context region_store
begin

text \<open>A region that is asked for is there, and is among the handles held.\<close>

lemma register_covers:
  assumes s: "st h m" and a: "accounted L m" and reg: "honest L reg" and new: "fresh new h"
    and r: "register_region get add edit reg dereg new start nbytes acl h = Some res"
  shows "res = Inl Exit \<or> (\<exists>r cs h' m'. res = Inr (r, cs, h') \<and> st h' m' \<and> m' = m(start \<mapsto> r) \<and> covers r nbytes acl
     \<and> accounted (live_after L cs) m')"
proof (cases "m start")
  case None
  then have get: "get start h = Some None" using get_law [OF s] by simp
  show ?thesis
  proof (cases "reg (new_region start nbytes acl)")
    case None
    then show ?thesis using get r by (simp add: register_region_def)
  next
    case (Some p)
    obtain hndl out where p: "p = (hndl, out)" by fastforce
    have h: "hndl \<notin> L" "nbytes \<le> mr_size out" "mr_acl out AND acl = acl"
      using honestD [OF reg Some [unfolded p]] by (simp_all add: new_region_def)
    obtain h' where h': "add new start hndl out h = Some h'" "st h' (m(start \<mapsto> (hndl, out)))"
      using add_law [OF s _ new] \<open>m start = None\<close> by blast
    have "accounted (insert hndl L) (m(start \<mapsto> (hndl, out)))"
      by (rule accounted_new [OF a h(1)]) (use \<open>m start = None\<close> in blast)
    with h h' get r Some p show ?thesis
      by (auto simp: register_region_def covers_def)
  qed
next
  case (Some q)
  obtain hndl out where q: "q = (hndl, out)" by fastforce
  have get: "get start h = Some (Some (hndl, out))" using get_law [OF s] Some q by simp
  show ?thesis
  proof (cases "mr_acl out AND acl \<noteq> acl \<or> mr_size out < nbytes")
    case False
    then show ?thesis using get r s a Some q by (auto simp: register_region_def covers_def map_upd_triv)
  next
    case True
    show ?thesis
    proof (cases "dereg hndl")
      case False
      then show ?thesis using get r True by (simp add: register_region_def)
    next
      case ok: True
      show ?thesis
      proof (cases "reg (widen out acl nbytes)")
        case None
        then show ?thesis using get r True ok by (simp add: register_region_def)
      next
        case (Some p)
        obtain hndl' out' where p: "p = (hndl', out')" by fastforce
        have h: "hndl' \<notin> L" "nbytes \<le> mr_size out'" "mr_acl out' AND acl = acl"
          using honestD [OF reg Some [unfolded p]] widen_covers(1) [of nbytes out acl] widen_covers(2) [of "mr_acl out'" out acl nbytes]
          by simp_all
        obtain h' where h': "edit start hndl' out' h = Some (Inr h')" "st h' (m(start \<mapsto> (hndl', out')))"
          using edit_law [OF s] \<open>m start = Some q\<close> by blast
        have "accounted (insert hndl' (L - {hndl})) (m(start \<mapsto> (hndl', out')))"
          by (rule accounted_replace [OF a _ h(1)]) (use \<open>m start = Some q\<close> q in simp)
        with h h' get r Some p True ok show ?thesis
          by (auto simp: register_region_def covers_def obind_def)
      qed
    qed
  qed
qed

lemma register_returns:
  assumes "st h m" and "fresh new h"
  shows "\<exists>res. register_region get add edit reg dereg new start nbytes acl h = Some res"
proof (cases "m start")
  case None
  then have get: "get start h = Some None" and k: "start \<notin> dom m" using get_law [OF assms(1), of start] by auto
  show ?thesis
  proof (cases "reg (new_region start nbytes acl)")
    case (Some p)
    with add_law [OF assms(1) k assms(2), of "fst p" "snd p"] get show ?thesis
      by (cases p) (auto simp: register_region_def)
  qed (use get in \<open>simp add: register_region_def\<close>)
next
  case (Some q)
  then have get: "get start h = Some (Some q)" and k: "start \<in> dom m" using get_law [OF assms(1), of start] by auto
  show ?thesis
  proof (cases "reg (widen (snd q) acl nbytes)")
    case None
    with get show ?thesis by (cases q) (simp add: register_region_def)
  next
    case (Some p)
    with edit_law [OF assms(1) k, of "fst p" "snd p"] get show ?thesis
      by (cases p; cases q) (auto simp: register_region_def)
  qed
qed

text \<open>The clean-up gives back every handle, once.\<close>

lemma dereg_all_drains:
  assumes "st h m" and "accounted L m"
  shows "\<exists>cs h'. dereg_all delrand h = Some (cs, h') \<and> st h' Map.empty \<and> live_after L cs = {}
     \<and> mset cs = image_mset (\<lambda>k. Deregister (handle_of m k)) (mset_set (dom m))"
  using assms
proof (induction "card (dom m)" arbitrary: h m L rule: less_induct)
  case less
  from delrand_law [OF less.prems(1)] show ?case
  proof (elim disjE exE conjE)
    assume "m = Map.empty" "delrand h = Some (None, h)"
    with less.prems show ?thesis by (subst dereg_all.simps) (auto simp: accounted_def)
  next
    fix k x y h'
    assume k: "m k = Some (x, y)" and d: "delrand h = Some (Some (k, x, y), h')" and s: "st h' (m(k := None))"
    have fin: "finite (dom m)" and kd: "k \<in> dom m" using finite_law [OF less.prems(1)] k by auto
    then have "card (dom (m(k := None))) < card (dom m)" by (simp add: card_Diff1_less del: card_Diff_insert)
    from less.hyps [OF this s] accounted_remove [OF less.prems(2) k] obtain cs h2 where
      c: "dereg_all delrand h' = Some (cs, h2)" "st h2 Map.empty" "live_after (L - {x}) cs = {}"
        "mset cs = image_mset (\<lambda>j. Deregister (handle_of (m(k := None)) j)) (mset_set (dom (m(k := None))))" by blast
    have "dereg_all delrand h = Some (Deregister x # cs, h2)" using d c(1) by (subst dereg_all.simps) simp
    moreover have "image_mset (\<lambda>j. Deregister (handle_of (m(k := None)) j)) (mset_set (dom m - {k}))
       = image_mset (\<lambda>j. Deregister (handle_of m j)) (mset_set (dom m - {k}))"
      using fin by (intro image_mset_cong) (auto simp: handle_of_def)
    then have "mset (Deregister x # cs) = image_mset (\<lambda>j. Deregister (handle_of m j)) (mset_set (dom m))"
      using c(4) mset_set.remove [OF fin kd] k by (simp add: handle_of_def)
    ultimately show ?thesis using c(2,3) by auto
  qed
qed

end

section \<open>The tree as a store\<close>

interpretation rb: region_store stores persist_mr_get persist_mr_add persist_mr_edit persist_mr_delrand "\<lambda>new h. new \<notin> rb_alive h"
proof
  show "persist_mr_get k h = Some (m k)" if "stores h m" for h and m :: "int \<rightharpoonup> int \<times> mrw" and k using that by (rule get_stores)
  show "\<exists>h'. persist_mr_add new k x y h = Some h' \<and> stores h' (m(k \<mapsto> (x, y)))"
    if "stores h m" "k \<notin> dom m" "new \<notin> rb_alive h" for h and m :: "int \<rightharpoonup> int \<times> mrw" and k new x y using that by (rule add_stores)
  show "\<exists>h'. persist_mr_edit k x y h = Some (Inr h') \<and> stores h' (m(k \<mapsto> (x, y)))"
    if "stores h m" "k \<in> dom m" for h and m :: "int \<rightharpoonup> int \<times> mrw" and k x y using that by (rule edit_stores)
  show "(m = Map.empty \<and> persist_mr_delrand h = Some (None, h))
      \<or> (\<exists>k x y h'. m k = Some (x, y) \<and> persist_mr_delrand h = Some (Some (k, x, y), h') \<and> stores h' (m(k := None)))"
    if "stores h m" for h and m :: "int \<rightharpoonup> int \<times> mrw" using delrand_stores [OF that] by (force simp: dom_def)
  show "finite (dom m)" if "stores h m" for h :: "mrw rb" and m using that by (auto simp: stores_def)
qed

text \<open>
  C25.  The tree of registered regions refines a finite map: looking up, adding and changing an entry never
  use a node that is not allocated, always return, and do what they do to the map; after each of
  them the nodes form a red-black search tree again.
\<close>

theorem mr_tree_refines_map:
  fixes h :: "mrw rb"
  assumes "stores h m"
  shows "persist_mr_get k h = Some (m k)
    \<and> (k \<notin> dom m \<and> new \<notin> rb_alive h \<longrightarrow> (\<exists>h'. persist_mr_add new k x y h = Some h' \<and> stores h' (m(k \<mapsto> (x, y)))))
    \<and> (k \<in> dom m \<longrightarrow> (\<exists>h'. persist_mr_edit k x y h = Some (Inr h') \<and> stores h' (m(k \<mapsto> (x, y)))))"
  using rb.get_law [OF assms] rb.add_law [OF assms] rb.edit_law [OF assms] by blast

text \<open>An empty tree, one with one region, and one with a changed region.\<close>

definition demo_mrw :: mrw where
  "demo_mrw = \<lparr>mr_acl = 3, mr_size = 4096, mr_start = 65536, mr_lkey = 1, mr_rkey = 2\<rparr>"

theorem mr_tree_refines_map_witness:
  "\<exists>h h'. persist_mr_add 1 65536 7 demo_mrw (empty_rb demo_mrw) = Some h \<and> persist_mr_get 65536 h = Some (Some (7, demo_mrw))
     \<and> persist_mr_edit 65536 8 demo_mrw h = Some (Inr h') \<and> persist_mr_get 65536 h' = Some (Some (8, demo_mrw))"
proof -
  have "1 \<notin> rb_alive (empty_rb demo_mrw)" by (simp add: empty_rb_def nilnode_def)
  with mr_tree_refines_map [OF empty_stores, of 65536 demo_mrw 1 7 demo_mrw] obtain h where
    h: "persist_mr_add 1 65536 7 demo_mrw (empty_rb demo_mrw) = Some h" "stores h [65536 \<mapsto> (7, demo_mrw)]" by auto
  from mr_tree_refines_map [OF h(2), of 65536 1 8 demo_mrw] obtain h' where
    h': "persist_mr_edit 65536 8 demo_mrw h = Some (Inr h')" "stores h' [65536 \<mapsto> (8, demo_mrw)]" by auto
  show ?thesis using h h' mr_tree_refines_map [OF h(2), of 65536 1 0 demo_mrw] mr_tree_refines_map [OF h'(2), of 65536 1 0 demo_mrw] by auto
qed

section \<open>The length of a search\<close>

lemma height_bh: "rb_ok col t \<Longrightarrow> height t \<le> 2 * bh col t + (if tcol col t = RED then 1 else 0)"
  by (induction t) (auto split: if_splits)

lemma bh_size: "rb_ok col t \<Longrightarrow> 2 ^ bh col t \<le> size1 t"
  by (induction t) auto

lemma rb_height: "rb_tree col t \<Longrightarrow> 2 ^ height t \<le> (size1 t)\<^sup>2"
proof -
  assume t: "rb_tree col t"
  then have "2 ^ height t \<le> (2 :: nat) ^ (2 * bh col t)"
    using height_bh [of col t] by (intro power_increasing) (auto simp: rb_tree_def)
  also have "\<dots> = (2 ^ bh col t)\<^sup>2" by (simp add: power_even_eq)
  also have "\<dots> \<le> (size1 t)\<^sup>2" using bh_size [of col t] t by (intro power_mono) (auto simp: rb_tree_def)
  finally show ?thesis .
qed

text \<open>The loop of \<open>tree_search\<close>, stopped after a number of rounds.\<close>

fun tree_search_within :: "nat \<Rightarrow> 'm rb \<Rightarrow> nat \<Rightarrow> int \<Rightarrow> nat option" where
  "tree_search_within n h node addr =
     (if node = nilnode then Some node
      else do {
        a \<leftarrow> rd rb_addr h node;
        if a = addr then Some node
        else case n of
          0 \<Rightarrow> None
        | Suc n' \<Rightarrow>
            if addr < a then do { l \<leftarrow> rd rb_left h node; tree_search_within n' h l addr }
            else do { r \<leftarrow> rd rb_right h node; tree_search_within n' h r addr } })"

declare tree_search_within.simps [simp del]

lemma search_within:
  "is_tree (rb_alive h) P (rb_left h) (rb_right h) q p t \<Longrightarrow> height t \<le> n \<Longrightarrow> tree_search_within n h p k = Some (node_of h t k)"
proof (induction t arbitrary: n q p)
  case Leaf
  then show ?case by (simp add: tree_search_within.simps)
next
  case (Node l a r)
  then obtain n' where n: "n = Suc n'" by (cases n) auto
  from Node show ?case by (subst tree_search_within.simps) (auto simp: n)
qed

text \<open>
  C28.  A search for an address in a tree of \<open>n\<close> regions ends after at most \<open>2 * log2 (n + 1)\<close> rounds of
  the loop.
\<close>

theorem mr_search_is_logarithmic:
  assumes "stores h m"
  shows "\<exists>n. 2 ^ n \<le> (card (dom m) + 1)\<^sup>2 \<and> tree_search_within n h (rb_root h) k = tree_search h (rb_root h) k
     \<and> tree_search h (rb_root h) k \<noteq> None"
proof -
  from assms obtain t where t: "holds h t" "rb_tree (rb_color h) t" "keys_sorted h (inorder t)" "m = map_of (entries h (inorder t))"
    unfolding stores_def by blast
  have "inj_on (rb_addr h) (set_tree t)" using node_of_found [OF t(3)] by (metis inj_onI)
  moreover have "dom m = rb_addr h ` set_tree t" using t(4) dom_entries [of h "inorder t"] by simp
  moreover have "card (set_tree t) = size t" using holds_distinct [OF t(1)] distinct_card [of "inorder t"] by simp
  ultimately have "card (dom m) + 1 = size1 t" by (simp add: card_image size1_size)
  with t(1) rb_height [OF t(2)] search_within [of h "rb_p h" nilnode "rb_root h" t "height t" k]
    tree_search_node [of h "rb_p h" nilnode "rb_root h" t k]
  show ?thesis by (intro exI [of _ "height t"]) (simp add: holds_def)
qed

theorem mr_search_is_logarithmic_witness:
  "\<exists>n. 2 ^ n \<le> (1 :: nat) \<and> tree_search_within n (empty_rb demo_mrw) nilnode 65536 = tree_search (empty_rb demo_mrw) nilnode 65536"
  using mr_search_is_logarithmic [OF empty_stores, of demo_mrw 65536] by (auto simp: empty_rb_def)

section \<open>Nothing is leaked\<close>

text \<open>The handles that the adapter holds, and the tree, while regions are registered.\<close>

inductive region_step :: "int set \<times> mrw rb \<Rightarrow> int set \<times> mrw rb \<Rightarrow> bool" where
  "honest L reg \<Longrightarrow> new \<notin> rb_alive h \<Longrightarrow>
     register_memory_region reg dereg new start nbytes acl h = Some (Inr (r, cs, h')) \<Longrightarrow>
     region_step (L, h) (live_after L cs, h')"

lemma regions_accounted:
  "region_step\<^sup>*\<^sup>* ({}, empty_rb d) (L, h) \<Longrightarrow> \<exists>m. stores h m \<and> accounted L m"
proof (induction "(L, h)" arbitrary: L h rule: rtranclp_induct)
  case base
  then show ?case using empty_stores by (intro exI [of _ Map.empty]) (auto simp: accounted_def)
next
  case (step y)
  from step.hyps(2) show ?case
  proof cases
    case (1 L0 reg new h0 dereg start nbytes acl r cs)
    with step.hyps(3) obtain m where m: "stores h0 m" "accounted L0 m" by blast
    from rb.register_covers [OF m 1(3,4) 1(5) [unfolded register_memory_region_def]] 1(2) show ?thesis by auto
  qed
qed

text \<open>
  C26.  Whatever regions were registered, the clean-up at the end gives back each handle that the adapter
  holds, once, and frees every node.
\<close>

theorem regions_returned:
  assumes "region_step\<^sup>*\<^sup>* ({}, empty_rb d) (L, h)"
  shows "\<exists>cs h'. ib_cleanup_regions h = Some (cs, h') \<and> live_after L cs = {} \<and> distinct cs \<and> set cs = Deregister ` L
     \<and> rb_alive h' = {nilnode}"
proof -
  from regions_accounted [OF assms] obtain m where m: "stores h m" "accounted L m" by blast
  from rb.dereg_all_drains [OF m] obtain cs h' where c: "dereg_all persist_mr_delrand h = Some (cs, h')" "stores h' Map.empty"
    "live_after L cs = {}" "mset cs = image_mset (\<lambda>k. Deregister (handle_of m k)) (mset_set (dom m))" by blast
  have fin: "finite (dom m)" by (rule rb.finite_law [OF m(1)])
  have inj: "inj_on (\<lambda>k. Deregister (handle_of m k)) (dom m)" using m(2) by (auto simp: accounted_def inj_on_def)
  have cs: "mset cs = mset_set ((\<lambda>k. Deregister (handle_of m k)) ` dom m)" using c(4) by (simp add: image_mset_mset_set [OF inj])
  then have "set cs = Deregister ` L" using fin m(2) by (metis accounted_def finite_imageI finite_set_mset_mset_set image_image set_mset_mset)
  moreover have "distinct cs" using cs by (metis count_mset_set' distinct_count_atmost_1 count_mset_0_iff le_numeral_extra(4) zero_le) 
  moreover from c(2) obtain t where t: "Map.empty = map_of (entries h' (inorder t))" "rb_alive h' = insert nilnode (set_tree t)"
    unfolding stores_def by blast
  then have "rb_addr h' ` set_tree t = {}" using dom_entries [of h' "inorder t"] by (metis dom_empty set_inorder)
  then have "rb_alive h' = {nilnode}" using t(2) by simp
  ultimately show ?thesis using c by (auto simp: ib_cleanup_regions_def)
qed

text \<open>One region is registered and given back.\<close>

theorem regions_returned_witness:
  "\<exists>h cs h'. region_step\<^sup>*\<^sup>* ({}, empty_rb demo_mrw) ({7}, h) \<and> ib_cleanup_regions h = Some (cs, h') \<and> cs = [Deregister 7]
     \<and> rb_alive h' = {nilnode}"
proof -
  let ?r = "new_region 65536 4096 3" and ?reg = "\<lambda>r. if mr_size r = 4096 then Some (7, r) else None"
  have new: "1 \<notin> rb_alive (empty_rb demo_mrw)" by (simp add: empty_rb_def nilnode_def)
  obtain h where h: "persist_mr_add 1 65536 7 ?r (empty_rb demo_mrw) = Some h"
    using add_stores [OF empty_stores _ new, of 65536 7 ?r] by auto
  have "persist_mr_get 65536 (empty_rb demo_mrw) = Some None" by (simp add: get_stores [OF empty_stores])
  then have "register_memory_region ?reg (\<lambda>_. True) 1 65536 4096 3 (empty_rb demo_mrw) = Some (Inr ((7, ?r), [Register ?r 7], h))"
    using h by (simp add: register_memory_region_def register_region_def new_region_def)
  from region_step.intros [OF _ new this, of "{}"] have s: "region_step\<^sup>*\<^sup>* ({}, empty_rb demo_mrw) ({7}, h)"
    by (auto simp: honest_def)
  from regions_returned [OF s] obtain cs h' where c: "ib_cleanup_regions h = Some (cs, h')" "distinct cs" "set cs = {Deregister 7}"
    "rb_alive h' = {nilnode}" by auto
  then have "length cs = 1" by (metis distinct_card is_singletonI is_singleton_altdef)
  then obtain x where "cs = [x]" by (cases cs) auto
  with c(3) have "cs = [Deregister 7]" by simp
  with s c show ?thesis by blast
qed

text \<open>
  C27.  A registration returns, and unless the adapter refuses, the region that it returns is large enough and has the
  rights asked for, is the one in the tree, and is held by the adapter together with those of the
  other entries.
\<close>

theorem registered_region_covers:
  assumes "region_step\<^sup>*\<^sup>* ({}, empty_rb d) (L, h)" and "honest L reg" and "new \<notin> rb_alive h"
  shows "register_memory_region reg dereg new start nbytes acl h = Some (Inl Exit)
     \<or> (\<exists>hndl out cs h'. register_memory_region reg dereg new start nbytes acl h = Some (Inr ((hndl, out), cs, h'))
        \<and> nbytes \<le> mr_size out \<and> mr_acl out AND acl = acl \<and> hndl \<in> live_after L cs
        \<and> persist_mr_get start h' = Some (Some (hndl, out)))"
proof -
  from regions_accounted [OF assms(1)] obtain m where m: "stores h m" "accounted L m" by blast
  from rb.register_returns [OF m(1) assms(3)] obtain res where
    r: "register_region persist_mr_get persist_mr_add persist_mr_edit reg dereg new start nbytes acl h = Some res" by blast
  from rb.register_covers [OF m assms(2,3) r] consider "res = Inl Exit"
    | hndl out cs h' where "res = Inr ((hndl, out), cs, h')" "stores h' (m(start \<mapsto> (hndl, out)))" "covers (hndl, out) nbytes acl"
        "accounted (live_after L cs) (m(start \<mapsto> (hndl, out)))" by auto
  then show ?thesis
  proof cases
    case 1
    then show ?thesis using r by (simp add: register_memory_region_def)
  next
    case 2
    have "hndl \<in> live_after L cs" using 2(4) by (auto simp: accounted_def handle_of_upd)
    moreover have "persist_mr_get start h' = Some (Some (hndl, out))" using get_stores [OF 2(2), of start] by simp
    ultimately show ?thesis using r 2(1,3) by (simp add: register_memory_region_def covers_def)
  qed
qed

theorem registered_region_covers_witness:
  "\<exists>hndl out cs h'. register_memory_region (\<lambda>r. Some (7, r)) (\<lambda>_. True) 1 65536 4096 3 (empty_rb demo_mrw)
       = Some (Inr ((hndl, out), cs, h')) \<and> 4096 \<le> mr_size out"
proof -
  have new: "1 \<notin> rb_alive (empty_rb demo_mrw)" by (simp add: empty_rb_def nilnode_def)
  have "honest {} (\<lambda>r. Some (7, r))" by (simp add: honest_def)
  from registered_region_covers [OF rtranclp.rtrancl_refl this new, of "\<lambda>_. True" 65536 4096 3]
  show ?thesis using get_stores [OF empty_stores [of demo_mrw], of 65536] add_stores [OF empty_stores _ new, of 65536 7 "new_region 65536 4096 3"]
    by (auto simp: register_memory_region_def register_region_def)
qed

section \<open>Deleting a given address\<close>

text \<open>Three regions, the middle one at the root, and the deletion of that one.\<close>

definition three_regions :: "nat rb option" where
  "three_regions = do {
     h1 \<leftarrow> persist_mr_add 1 200 20 0 (empty_rb 0);
     h2 \<leftarrow> persist_mr_add 2 100 10 0 h1;
     persist_mr_add 3 300 30 0 h2 }"

definition get_after_del :: "int \<Rightarrow> int \<Rightarrow> nat rb \<Rightarrow> ((int \<times> nat) \<times> (int \<times> nat) option) option" where
  "get_after_del k j h = do {
     r \<leftarrow> persist_mr_del k h;
     case r of Inl e \<Rightarrow> None | Inr (x, h') \<Rightarrow> do { g \<leftarrow> persist_mr_get j h'; Some (x, g) } }"


end
