(* ===== verification/Bakery.thy ===== *)
theory Bakery
  imports Prelude
begin

text \<open>
  The lock of \<open>MP_Lite/lock.c\<close> for machines without atomic instructions (\<open>LOCK == BAKERY\<close>):
  \<open>lock_pool\<close>, \<open>max_number\<close> and \<open>unlock_pool\<close> on two arrays in shared memory.  Every access to an
  element of the arrays is a step of its own, so a condition that reads an element twice may see two
  values.  The memory is sequentially consistent, or each processor delays its writes in a buffer.
\<close>

section \<open>The steps\<close>

datatype bk_loc = Choosing nat | Number nat

text \<open>
  Where a process is: in \<open>max_number\<close> with the index and the maximum so far, before the two
  assignments, at the reads of the two loops of \<open>lock_pool\<close>, or in the critical section.  A sum that
  overflows is undefined in C; the process stops there.
\<close>

datatype bk_pc = Outside | ScanFirst | Compare nat int | Reread nat int | Assign int | DoneChoosing
  | WaitChoosing nat | WaitZero nat | WaitLess nat | WaitEqual nat | Holding | Overflowed

record bakery =
  bk_mem :: "bk_loc \<Rightarrow> int"
  bk_buf :: "nat \<Rightarrow> (bk_loc \<times> int) list"
  bk_pc :: "nat \<Rightarrow> bk_pc"

definition bk_read :: "nat \<Rightarrow> bk_loc \<Rightarrow> bakery \<Rightarrow> int" where
  "bk_read p a s = (case map_of (rev (bk_buf s p)) a of Some v \<Rightarrow> v | None \<Rightarrow> bk_mem s a)"

definition bk_write :: "bool \<Rightarrow> nat \<Rightarrow> bk_loc \<Rightarrow> int \<Rightarrow> bakery \<Rightarrow> bakery" where
  "bk_write delayed p a v s =
     (if delayed then s\<lparr>bk_buf := (bk_buf s)(p := bk_buf s p @ [(a, v)])\<rparr>
      else s\<lparr>bk_mem := (bk_mem s)(a := v)\<rparr>)"

definition bk_goto :: "nat \<Rightarrow> bk_pc \<Rightarrow> bakery \<Rightarrow> bakery" where
  "bk_goto p c s = s\<lparr>bk_pc := (bk_pc s)(p := c)\<rparr>"

text \<open>\<open>n\<close> is \<open>nprocs\<close> and \<open>rk\<close> the table \<open>smp_rank\<close>.\<close>

fun max_number_step :: "nat \<Rightarrow> (nat \<Rightarrow> nat) \<Rightarrow> nat \<Rightarrow> bk_pc \<Rightarrow> bakery \<Rightarrow> bk_pc" where
  "max_number_step n rk p ScanFirst s = Compare 1 (bk_read p (Number (rk 0)) s)"
| "max_number_step n rk p (Compare i m) s =
     (if i < n then if m < bk_read p (Number (rk i)) s then Reread i m else Compare (i + 1) m else Assign m)"
| "max_number_step n rk p (Reread i m) s = Compare (i + 1) (bk_read p (Number (rk i)) s)"
| "max_number_step n rk p c s = c"

fun lock_wait_step :: "nat \<Rightarrow> (nat \<Rightarrow> nat) \<Rightarrow> nat \<Rightarrow> bk_pc \<Rightarrow> bakery \<Rightarrow> bk_pc" where
  "lock_wait_step n rk p (WaitChoosing i) s =
     (if i < n then if bk_read p (Choosing i) s \<noteq> 0 then WaitChoosing i else WaitZero i else Holding)"
| "lock_wait_step n rk p (WaitZero i) s =
     (if bk_read p (Number i) s \<noteq> 0 then WaitLess i else WaitChoosing (i + 1))"
| "lock_wait_step n rk p (WaitLess i) s =
     (if bk_read p (Number i) s < bk_read p (Number (rk p)) s then WaitZero i else WaitEqual i)"
| "lock_wait_step n rk p (WaitEqual i) s =
     (if bk_read p (Number i) s = bk_read p (Number (rk p)) s \<and> rk i < rk p then WaitZero i else WaitChoosing (i + 1))"
| "lock_wait_step n rk p c s = c"

fun in_scan :: "bk_pc \<Rightarrow> bool" where
  "in_scan ScanFirst = True"
| "in_scan (Compare i m) = True"
| "in_scan (Reread i m) = True"
| "in_scan c = False"

definition lock_pool_step :: "bool \<Rightarrow> nat \<Rightarrow> (nat \<Rightarrow> nat) \<Rightarrow> nat \<Rightarrow> bakery \<Rightarrow> bakery" where
  "lock_pool_step delayed n rk p s = (case bk_pc s p of
     Outside \<Rightarrow> bk_goto p ScanFirst (bk_write delayed p (Choosing (rk p)) 1 s)
   | Assign m \<Rightarrow> if m = INT_MAX then bk_goto p Overflowed s
       else bk_goto p DoneChoosing (bk_write delayed p (Number (rk p)) (m + 1) s)
   | DoneChoosing \<Rightarrow> bk_goto p (WaitChoosing 0) (bk_write delayed p (Choosing (rk p)) 0 s)
   | c \<Rightarrow> bk_goto p (if in_scan c then max_number_step n rk p c s else lock_wait_step n rk p c s) s)"

definition unlock_pool :: "bool \<Rightarrow> (nat \<Rightarrow> nat) \<Rightarrow> nat \<Rightarrow> bakery \<Rightarrow> bakery" where
  "unlock_pool delayed rk p s = bk_goto p Outside (bk_write delayed p (Number (rk p)) 0 s)"

text \<open>The state after every process has called \<open>init_lock\<close>.\<close>

definition init_lock :: bakery where
  "init_lock = \<lparr>bk_mem = (\<lambda>_. 0), bk_buf = (\<lambda>_. []), bk_pc = (\<lambda>_. Outside)\<rparr>"

definition bk_move :: "bool \<Rightarrow> nat \<Rightarrow> (nat \<Rightarrow> nat) \<Rightarrow> nat \<Rightarrow> bakery \<Rightarrow> bakery" where
  "bk_move delayed n rk p s =
     (if bk_pc s p = Holding then unlock_pool delayed rk p s else lock_pool_step delayed n rk p s)"

text \<open>The oldest write in the buffer of a processor reaches the memory.\<close>

definition bk_flush :: "nat \<Rightarrow> bakery \<Rightarrow> bakery" where
  "bk_flush p s = (case bk_buf s p of [] \<Rightarrow> s
     | (a, v) # ws \<Rightarrow> s\<lparr>bk_mem := (bk_mem s)(a := v), bk_buf := (bk_buf s)(p := ws)\<rparr>)"

inductive bk_step :: "bool \<Rightarrow> nat \<Rightarrow> (nat \<Rightarrow> nat) \<Rightarrow> bakery \<Rightarrow> bakery \<Rightarrow> bool" for delayed n rk where
  proc: "p < n \<Longrightarrow> bk_step delayed n rk s (bk_move delayed n rk p s)"
| flush: "p < n \<Longrightarrow> bk_step delayed n rk s (bk_flush p s)"

section \<open>The invariant\<close>

abbreviation bk_num :: "bakery \<Rightarrow> nat \<Rightarrow> int" where
  "bk_num s p \<equiv> bk_mem s (Number p)"

fun numbered :: "bk_pc \<Rightarrow> bool" where
  "numbered DoneChoosing = True"
| "numbered (WaitChoosing i) = True"
| "numbered (WaitZero i) = True"
| "numbered (WaitLess i) = True"
| "numbered (WaitEqual i) = True"
| "numbered Holding = True"
| "numbered c = False"

fun doorway :: "bk_pc \<Rightarrow> bool" where
  "doorway DoneChoosing = True"
| "doorway (Assign m) = True"
| "doorway Overflowed = True"
| "doorway c = in_scan c"

fun scan_pos :: "bk_pc \<Rightarrow> bool" where
  "scan_pos (Compare i m) = (0 \<le> m)"
| "scan_pos (Reread i m) = (0 \<le> m)"
| "scan_pos (Assign m) = (0 \<le> m)"
| "scan_pos c = True"

text \<open>\<open>q\<close>, if it is choosing, will get a number above that of \<open>p\<close>.\<close>

fun will_follow :: "(nat \<Rightarrow> int) \<Rightarrow> nat \<Rightarrow> bk_pc \<Rightarrow> bool" where
  "will_follow N p (Compare j m) = (p < j \<longrightarrow> N p \<le> m)"
| "will_follow N p (Reread j m) = (p < j \<longrightarrow> N p \<le> m \<and> N p < N j)"
| "will_follow N p (Assign m) = (N p \<le> m)"
| "will_follow N p c = True"

definition follows :: "(nat \<Rightarrow> int) \<Rightarrow> nat \<Rightarrow> nat \<Rightarrow> bk_pc \<Rightarrow> bool" where
  "follows N p q c \<longleftrightarrow> will_follow N p c \<and> (numbered c \<longrightarrow> N p < N q \<or> N p = N q \<and> p < q)"

text \<open>What \<open>p\<close> knows of \<open>q\<close>, by how far it has come.\<close>

fun knows :: "(nat \<Rightarrow> int) \<Rightarrow> nat \<Rightarrow> nat \<Rightarrow> bk_pc \<Rightarrow> bk_pc \<Rightarrow> bool" where
  "knows N p q c (WaitChoosing i) = (q < i \<longrightarrow> follows N p q c)"
| "knows N p q c (WaitZero i) = ((q < i \<longrightarrow> follows N p q c) \<and> (q = i \<longrightarrow> will_follow N p c))"
| "knows N p q c (WaitLess i) = ((q < i \<longrightarrow> follows N p q c) \<and> (q = i \<longrightarrow> will_follow N p c))"
| "knows N p q c (WaitEqual i) = ((q < i \<longrightarrow> follows N p q c) \<and>
     (q = i \<longrightarrow> will_follow N p c \<and> (numbered c \<longrightarrow> N p \<le> N q)))"
| "knows N p q c Holding = follows N p q c"
| "knows N p q c _ = True"

definition bk_local :: "bakery \<Rightarrow> nat \<Rightarrow> bool" where
  "bk_local s p \<longleftrightarrow> bk_mem s (Choosing p) = c_bool (doorway (bk_pc s p))
     \<and> (if numbered (bk_pc s p) then 0 < bk_num s p else bk_num s p = 0) \<and> scan_pos (bk_pc s p)"

definition bk_inv :: "nat \<Rightarrow> bakery \<Rightarrow> bool" where
  "bk_inv n s \<longleftrightarrow> bk_buf s = (\<lambda>_. []) \<and> (\<forall>p. 0 \<le> bk_num s p) \<and> (\<forall>p < n. bk_local s p)
     \<and> (\<forall>p < n. \<forall>q < n. p \<noteq> q \<longrightarrow> knows (bk_num s) p q (bk_pc s q) (bk_pc s p))"

lemma bk_read_sc [simp]: "bk_buf s = (\<lambda>_. []) \<Longrightarrow> bk_read p a s = bk_mem s a"
  by (simp add: bk_read_def)

lemmas bk_defs = bk_move_def lock_pool_step_def unlock_pool_def bk_write_def bk_goto_def

lemma move_local:
  assumes "bk_local s r" and "bk_buf s = (\<lambda>_. [])" and "r < n" and "\<forall>p. 0 \<le> bk_num s p"
  shows "bk_local (bk_move False n (\<lambda>i. i) r s) r"
  using assms by (cases "bk_pc s r") (auto simp: bk_local_def bk_defs c_bool_def INT_MAX_def)

lemma move_others:
  assumes "p \<noteq> r"
  shows "bk_pc (bk_move False n (\<lambda>i. i) r s) p = bk_pc s p" and "bk_num (bk_move False n (\<lambda>i. i) r s) p = bk_num s p"
    and "bk_mem (bk_move False n (\<lambda>i. i) r s) (Choosing p) = bk_mem s (Choosing p)"
  using assms by (cases "bk_pc s r"; simp add: bk_defs)+

lemma move_buf: "bk_buf (bk_move False n rk r s) = bk_buf s"
  by (cases "bk_pc s r") (auto simp: bk_defs)

text \<open>What the process that moves knows of another one.\<close>

lemma move_knows:
  assumes "knows (bk_num s) r q (bk_pc s q) (bk_pc s r)" and "bk_buf s = (\<lambda>_. [])" and "r < n" and "q < n" and "q \<noteq> r"
    and "bk_local s r" and "bk_local s q"
  shows "knows (bk_num (bk_move False n (\<lambda>i. i) r s)) r q (bk_pc s q) (bk_pc (bk_move False n (\<lambda>i. i) r s) r)"
  using assms
  by (cases "bk_pc s r"; cases "bk_pc s q") (auto simp: bk_local_def bk_defs follows_def less_Suc_eq c_bool_def split: if_splits)

text \<open>What a process knows of the one that moves.\<close>

lemma move_will_follow:
  assumes "will_follow (bk_num s) p (bk_pc s q)" and "bk_buf s = (\<lambda>_. [])" and "p < n" and "q < n" and "p \<noteq> q"
    and "numbered (bk_pc s p)" and "bk_local s q" and "bk_local s p"
  shows "will_follow (bk_num (bk_move False n (\<lambda>i. i) q s)) p (bk_pc (bk_move False n (\<lambda>i. i) q s) q)"
  using assms
  by (cases "bk_pc s q") (auto simp: bk_local_def bk_defs less_Suc_eq split: if_splits)

lemma move_follows:
  assumes "follows (bk_num s) p q (bk_pc s q)" and "bk_buf s = (\<lambda>_. [])" and "p < n" and "q < n" and "p \<noteq> q"
    and "numbered (bk_pc s p)" and "bk_local s q" and "bk_local s p"
  shows "follows (bk_num (bk_move False n (\<lambda>i. i) q s)) p q (bk_pc (bk_move False n (\<lambda>i. i) q s) q)"
  using assms
  by (cases "bk_pc s q") (auto simp: bk_local_def bk_defs follows_def less_Suc_eq split: if_splits)

lemma move_least:
  assumes "will_follow (bk_num s) p (bk_pc s q)" and "numbered (bk_pc s q) \<longrightarrow> bk_num s p \<le> bk_num s q"
    and "bk_buf s = (\<lambda>_. [])" and "p < n" and "q < n" and "p \<noteq> q"
    and "numbered (bk_pc s p)" and "bk_local s q" and "bk_local s p"
  shows "numbered (bk_pc (bk_move False n (\<lambda>i. i) q s) q) \<longrightarrow> bk_num s p \<le> bk_num (bk_move False n (\<lambda>i. i) q s) q"
  using assms
  by (cases "bk_pc s q") (auto simp: bk_local_def bk_defs less_Suc_eq split: if_splits)

lemma move_third:
  assumes "will_follow (bk_num s) p (bk_pc s q)" and "r \<noteq> p" and "r \<noteq> q" and "numbered (bk_pc s p)" and "bk_local s r"
    and "knows (bk_num s) r p (bk_pc s p) (bk_pc s r)" and "0 \<le> bk_num s p"
  shows "will_follow (bk_num (bk_move False n (\<lambda>i. i) r s)) p (bk_pc s q)"
  using assms
  by (cases "bk_pc s q"; cases "bk_pc s r") (auto simp: bk_local_def bk_defs follows_def)

lemma move_known:
  assumes "knows (bk_num s) p q (bk_pc s q) (bk_pc s p)" and "bk_buf s = (\<lambda>_. [])" and "p < n" and "q < n" and "p \<noteq> q"
    and "bk_local s q" and "bk_local s p"
  shows "knows (bk_num (bk_move False n (\<lambda>i. i) q s)) p q (bk_pc (bk_move False n (\<lambda>i. i) q s) q) (bk_pc s p)"
  using assms move_will_follow [of s p q n] move_follows [of s p q n] move_least [of s p q n] move_others(2) [of p q n s]
  by (cases "bk_pc s p") (auto simp: follows_def)

lemma move_aside:
  assumes "knows (bk_num s) p q (bk_pc s q) (bk_pc s p)" and "r \<noteq> p" and "r \<noteq> q" and "bk_local s r"
    and "knows (bk_num s) r p (bk_pc s p) (bk_pc s r)" and "0 \<le> bk_num s p"
  shows "knows (bk_num (bk_move False n (\<lambda>i. i) r s)) p q (bk_pc s q) (bk_pc s p)"
  using assms move_third [of s p q r n] move_others(2) [of p r n s] move_others(2) [of q r n s]
  by (cases "bk_pc s p") (auto simp: follows_def)

lemma move_inv:
  assumes inv: "bk_inv n s" and r: "r < n"
  shows "bk_inv n (bk_move False n (\<lambda>i. i) r s)"
proof -
  let ?s = "bk_move False n (\<lambda>i. i) r s"
  have buf: "bk_buf s = (\<lambda>_. [])" and pos: "\<forall>p. 0 \<le> bk_num s p" and loc: "\<And>p. p < n \<Longrightarrow> bk_local s p"
    and kn: "\<And>p q. p < n \<Longrightarrow> q < n \<Longrightarrow> p \<noteq> q \<Longrightarrow> knows (bk_num s) p q (bk_pc s q) (bk_pc s p)"
    using inv by (auto simp: bk_inv_def)
  have loc': "bk_local ?s p" if "p < n" for p
    using move_local [OF loc [OF r] buf r pos] loc [OF that] move_others [of p r n s]
    by (cases "p = r") (auto simp: bk_local_def)
  have "0 \<le> bk_num ?s p" for p
    using loc' [OF r] pos move_others(2) [of p r n s] by (cases "p = r") (auto simp: bk_local_def split: if_splits)
  moreover have "knows (bk_num ?s) p q (bk_pc ?s q) (bk_pc ?s p)" if pq: "p < n" "q < n" "p \<noteq> q" for p q
  proof -
    consider "p = r" | "q = r" "p \<noteq> r" | "p \<noteq> r" "q \<noteq> r" by blast
    then show ?thesis
    proof cases
      case 1
      then show ?thesis
        using move_knows [of s r q n] kn [of r q] buf r pq loc [of q] loc [OF r] move_others(1) [of q r n s] by auto
    next
      case 2
      then show ?thesis using move_known [OF kn [OF pq] buf pq loc [OF pq(2)] loc [OF pq(1)]] move_others(1) [of p r n s] by auto
    next
      case 3
      then show ?thesis using move_aside [OF kn [OF pq] _ _ loc [OF r] kn [OF r pq(1)]] pos move_others(1) by auto
    qed
  qed
  ultimately show ?thesis using loc' buf by (simp add: bk_inv_def move_buf)
qed

lemma init_inv: "bk_inv n init_lock"
  by (simp add: bk_inv_def init_lock_def bk_local_def c_bool_def)

lemma flush_inv: "bk_inv n s \<Longrightarrow> bk_flush p s = s"
  by (simp add: bk_inv_def bk_flush_def)

lemma bakery_inv:
  assumes "(bk_step False n (\<lambda>i. i))\<^sup>*\<^sup>* init_lock s"
  shows "bk_inv n s"
  using assms
proof induction
  case base
  show ?case by (rule init_inv)
next
  case (step s s')
  from step.hyps(2) step.IH show ?case by cases (auto simp: flush_inv intro: move_inv)
qed

text \<open>
  C14.  In every interleaving of their accesses, however often they lock and unlock, two processes
  are never both between \<open>lock_pool\<close> and \<open>unlock_pool\<close>, although \<open>max_number\<close> reads an element
  twice and may end with a maximum that no element had.
\<close>

theorem bakery_excludes:
  assumes "(bk_step False n (\<lambda>i. i))\<^sup>*\<^sup>* init_lock s" and "p < n" and "q < n" and "bk_pc s p = Holding" and "bk_pc s q = Holding"
  shows "p = q"
proof (rule ccontr)
  assume "p \<noteq> q"
  with bakery_inv [OF assms(1)] assms(2-5) have "follows (bk_num s) p q Holding" "follows (bk_num s) q p Holding"
    by (metis bk_inv_def knows.simps(5))+
  then show False by (auto simp: follows_def)
qed

lemma moves_reach: "p < n \<Longrightarrow> (bk_step delayed n rk)\<^sup>*\<^sup>* s ((bk_move delayed n rk p ^^ k) s)"
proof (induction k)
  case (Suc k)
  from rtranclp.rtrancl_into_rtrancl [OF Suc.IH [OF Suc.prems] proc [OF Suc.prems]] show ?case by simp
qed simp

theorem bakery_excludes_witness:
  "\<exists>s. (bk_step False 2 (\<lambda>i. i))\<^sup>*\<^sup>* init_lock s \<and> bk_pc s 1 = Holding \<and> bk_pc s 0 \<noteq> Holding"
proof -
  let ?s = "(bk_move False 2 (\<lambda>i. i) 1 ^^ 13) init_lock"
  have r: "(bk_step False 2 (\<lambda>i. i))\<^sup>*\<^sup>* init_lock ?s" by (rule moves_reach) simp
  have "bk_pc ?s 1 = Holding" by code_simp
  with bakery_excludes [OF r, of 0 1] r show ?thesis by auto
qed

section \<open>First come, first served\<close>

lemma follows_stays:
  assumes inv: "bk_inv n s" and r: "r < n" and pq: "p < n" "q < n" "p \<noteq> q" and num: "numbered (bk_pc s p)" "bk_pc s p \<noteq> Holding \<or> r \<noteq> p"
    and f: "follows (bk_num s) p q (bk_pc s q)"
  shows "follows (bk_num (bk_move False n (\<lambda>i. i) r s)) p q (bk_pc (bk_move False n (\<lambda>i. i) r s) q)"
proof -
  let ?s = "bk_move False n (\<lambda>i. i) r s"
  have buf: "bk_buf s = (\<lambda>_. [])" and pos: "\<forall>p. 0 \<le> bk_num s p" and loc: "\<And>p. p < n \<Longrightarrow> bk_local s p"
    and kn: "\<And>p q. p < n \<Longrightarrow> q < n \<Longrightarrow> p \<noteq> q \<Longrightarrow> knows (bk_num s) p q (bk_pc s q) (bk_pc s p)"
    using inv by (auto simp: bk_inv_def)
  consider "r = q" | "r = p" "r \<noteq> q" | "r \<noteq> p" "r \<noteq> q" by blast
  then show ?thesis
  proof cases
    case 1
    then show ?thesis using move_follows [OF f buf pq num(1) loc [OF pq(2)] loc [OF pq(1)]] by simp
  next
    case 2
    then have "bk_num ?s = bk_num s" using num by (cases "bk_pc s p") (auto simp: bk_defs fun_eq_iff)
    with 2 f move_others(1) [of q r n s] show ?thesis by auto
  next
    case 3
    then show ?thesis
      using f move_third [of s p q r n] num(1) loc [OF r] kn [OF r pq(1)] pos move_others [of q r n s] move_others(2) [of p r n s]
      by (auto simp: follows_def)
  qed
qed

text \<open>
  C15.  A process that has taken its number is served before every process that has not called
  \<open>lock_pool\<close> by then: as long as it has not left, the other one does not get the lock.
\<close>

theorem bakery_first_come:
  assumes "(bk_step False n (\<lambda>i. i))\<^sup>*\<^sup>* init_lock s" and "p < n" and "q < n" and "numbered (bk_pc s p)" and "bk_pc s q = Outside"
    and "(\<lambda>a b. bk_step False n (\<lambda>i. i) a b \<and> numbered (bk_pc b p))\<^sup>*\<^sup>* s s'"
  shows "bk_pc s' q \<noteq> Holding"
proof -
  from assms(4,5) have ne: "p \<noteq> q" by auto
  from assms(6) have "(bk_step False n (\<lambda>i. i))\<^sup>*\<^sup>* init_lock s' \<and> numbered (bk_pc s' p) \<and> follows (bk_num s') p q (bk_pc s' q)"
  proof induction
    case base
    show ?case using assms(1,4,5) by (simp add: follows_def)
  next
    case (step a b)
    then have inv: "bk_inv n a" and reach: "(bk_step False n (\<lambda>i. i))\<^sup>*\<^sup>* init_lock b"
      by (auto intro: bakery_inv rtranclp.rtrancl_into_rtrancl)
    from step.hyps(2) have "bk_step False n (\<lambda>i. i) a b" by simp
    then have "follows (bk_num b) p q (bk_pc b q)"
    proof cases
      case (proc r)
      have "bk_pc a p \<noteq> Holding \<or> r \<noteq> p" using step.hyps(2) proc(1) by (auto simp: bk_defs)
      with follows_stays [OF inv proc(2) assms(2,3) ne] step.IH proc(1) show ?thesis by simp
    next
      case (flush r)
      then show ?thesis using step.IH by (simp add: flush_inv [OF inv])
    qed
    then show ?case using reach step.hyps(2) by simp
  qed
  then have st: "bk_inv n s'" "numbered (bk_pc s' p)" "follows (bk_num s') p q (bk_pc s' q)" by (blast intro: bakery_inv)+
  show ?thesis
  proof
    assume h: "bk_pc s' q = Holding"
    with st(1) assms(2,3) ne have "knows (bk_num s') q p (bk_pc s' p) Holding" by (metis bk_inv_def)
    with st(2,3) h show False by (auto simp: follows_def)
  qed
qed

text \<open>Process 0 takes its number, then process 1 calls \<open>lock_pool\<close> and waits.\<close>

theorem bakery_first_come_witness:
  "bk_pc ((bk_move False 2 (\<lambda>i. i) 1 ^^ 20) ((bk_move False 2 (\<lambda>i. i) 0 ^^ 5) init_lock)) 1 \<noteq> Holding"
proof -
  let ?s = "(bk_move False 2 (\<lambda>i. i) 0 ^^ 5) init_lock" and ?f = "bk_move False 2 (\<lambda>i. i) 1"
  have s: "numbered (bk_pc ?s 0)" "bk_pc ?s 1 = Outside" by code_simp+
  have "(\<lambda>a b. bk_step False 2 (\<lambda>i. i) a b \<and> numbered (bk_pc b 0))\<^sup>*\<^sup>* ?s ((?f ^^ k) ?s) \<and> numbered (bk_pc ((?f ^^ k) ?s) 0)" for k
  proof (induction k)
    case (Suc k)
    have "numbered (bk_pc (?f ((?f ^^ k) ?s)) 0)" using Suc by (simp add: move_others)
    moreover have "bk_step False 2 (\<lambda>i. i) ((?f ^^ k) ?s) (?f ((?f ^^ k) ?s))" by (rule proc) simp
    ultimately show ?case using Suc by (auto intro: rtranclp.rtrancl_into_rtrancl)
  qed (use s in simp)
  with bakery_first_come [OF moves_reach _ _ s, of "(?f ^^ 20) ?s"] show ?thesis by simp
qed

section \<open>Progress\<close>

lemma funpow_reaches:
  assumes "\<And>x. P x \<Longrightarrow> Q (f x) \<or> P (f x) \<and> m (f x) < (m x :: nat)" and "P x"
  shows "\<exists>k \<le> m x + 1. Q ((f ^^ k) x)"
  using assms(2)
proof (induction "m x" arbitrary: x rule: less_induct)
  case less
  from assms(1) [OF less.prems] show ?case
  proof
    assume "Q (f x)"
    then show ?thesis by (intro exI [of _ 1]) simp
  next
    assume r: "P (f x) \<and> m (f x) < m x"
    with less.hyps obtain k where "k \<le> m (f x) + 1" "Q ((f ^^ k) (f x))" by blast
    with r show ?thesis by (intro exI [of _ "Suc k"]) (simp add: funpow_swap1)
  qed
qed

fun doorway_left :: "nat \<Rightarrow> bk_pc \<Rightarrow> nat" where
  "doorway_left n ScanFirst = 2 * n + 4"
| "doorway_left n (Compare i m) = 2 * (n - i) + 3"
| "doorway_left n (Reread i m) = 2 * (n - i) + 2"
| "doorway_left n (Assign m) = 1"
| "doorway_left n c = 0"

fun wait_left :: "nat \<Rightarrow> (nat \<Rightarrow> int) \<Rightarrow> bk_pc \<Rightarrow> nat" where
  "wait_left n N (WaitChoosing i) = 5 * (n - i) + 4"
| "wait_left n N (WaitZero i) = 5 * (n - i) + 2"
| "wait_left n N (WaitLess i) = 5 * (n - i) + (if N i = 0 then 3 else 1)"
| "wait_left n N (WaitEqual i) = 5 * (n - i)"
| "wait_left n N c = 0"

fun index_ok :: "nat \<Rightarrow> bk_pc \<Rightarrow> bool" where
  "index_ok n (WaitZero i) = (i < n)"
| "index_ok n (WaitLess i) = (i < n)"
| "index_ok n (WaitEqual i) = (i < n)"
| "index_ok n (Reread i m) = (i < n)"
| "index_ok n c = True"

lemma index_step: "index_ok n (bk_pc s p) \<Longrightarrow> index_ok n (bk_pc (bk_move False n (\<lambda>i. i) r s) p)"
  by (cases "p = r"; cases "bk_pc s r") (auto simp: bk_defs)

lemma bakery_index:
  assumes "(bk_step False n (\<lambda>i. i))\<^sup>*\<^sup>* init_lock s"
  shows "index_ok n (bk_pc s p)"
  using assms
proof induction
  case base
  show ?case by (simp add: init_lock_def)
next
  case (step s s')
  from step.hyps(2) step.IH show ?case
    by cases (auto intro: index_step simp: bk_flush_def split: list.splits)
qed

text \<open>A process leaves the doorway by its own steps.\<close>

lemma doorway_alone:
  assumes "bk_buf s = (\<lambda>_. [])" and "doorway (bk_pc s p)" and "bk_pc s p \<noteq> Overflowed" and "index_ok n (bk_pc s p)"
  shows "\<exists>k \<le> 2 * n + 5. bk_pc ((bk_move False n (\<lambda>i. i) p ^^ k) s) p \<in> {WaitChoosing 0, Overflowed}"
proof -
  let ?P = "\<lambda>s. bk_buf s = (\<lambda>_. []) \<and> doorway (bk_pc s p) \<and> bk_pc s p \<noteq> Overflowed \<and> index_ok n (bk_pc s p)"
  let ?Q = "\<lambda>s. bk_pc s p \<in> {WaitChoosing 0, Overflowed}"
  have "?Q (bk_move False n (\<lambda>i. i) p x) \<or> ?P (bk_move False n (\<lambda>i. i) p x)
    \<and> doorway_left n (bk_pc (bk_move False n (\<lambda>i. i) p x) p) < doorway_left n (bk_pc x p)" if "?P x" for x
    using that by (cases "bk_pc x p") (auto simp: bk_defs)
  from funpow_reaches [of ?P ?Q "bk_move False n (\<lambda>i. i) p" "\<lambda>s. doorway_left n (bk_pc s p)", OF this] assms obtain k where
    k: "k \<le> doorway_left n (bk_pc s p) + 1" "?Q ((bk_move False n (\<lambda>i. i) p ^^ k) s)" by blast
  have "doorway_left n (bk_pc s p) \<le> 2 * n + 4" by (cases "bk_pc s p") auto
  with k show ?thesis by (intro exI [of _ k]) simp
qed

text \<open>\<open>p\<close> waits, nobody is choosing, and no other process has a smaller number.\<close>

definition bk_first :: "nat \<Rightarrow> nat \<Rightarrow> bakery \<Rightarrow> bool" where
  "bk_first n p s \<longleftrightarrow> bk_buf s = (\<lambda>_. []) \<and> 0 < bk_num s p \<and> numbered (bk_pc s p) \<and> \<not> doorway (bk_pc s p) \<and> bk_pc s p \<noteq> Holding
     \<and> index_ok n (bk_pc s p) \<and> (\<forall>q < n. bk_mem s (Choosing q) = 0)
     \<and> (\<forall>q < n. q \<noteq> p \<longrightarrow> bk_num s q = 0 \<or> bk_num s p < bk_num s q \<or> bk_num s p = bk_num s q \<and> p < q)"

lemma first_waits:
  assumes "bk_first n p x"
  shows "lock_wait_step n (\<lambda>i. i) p (bk_pc x p) x = Holding \<or> (let c = lock_wait_step n (\<lambda>i. i) p (bk_pc x p) x in
    numbered c \<and> \<not> doorway c \<and> index_ok n c \<and> c \<noteq> Holding \<and> wait_left n (bk_num x) c < wait_left n (bk_num x) (bk_pc x p))"
proof -
  have buf: "bk_buf x = (\<lambda>_. [])" and ch: "\<And>q. q < n \<Longrightarrow> bk_mem x (Choosing q) = 0"
    and pos: "0 < bk_num x p" and sm: "\<And>q. q < n \<Longrightarrow> q \<noteq> p \<Longrightarrow> bk_num x q = 0 \<or> bk_num x p < bk_num x q \<or> bk_num x p = bk_num x q \<and> p < q"
    using assms by (auto simp: bk_first_def)
  have pc: "numbered (bk_pc x p)" "\<not> doorway (bk_pc x p)" "bk_pc x p \<noteq> Holding" "index_ok n (bk_pc x p)"
    using assms by (auto simp: bk_first_def)
  show ?thesis
  proof (cases "bk_pc x p")
    case (WaitLess i)
    then have "bk_num x i = 0 \<or> bk_num x p \<le> bk_num x i" using pc(4) sm [of i] by (cases "i = p") auto
    with WaitLess pc(4) buf pos show ?thesis by (auto simp: Let_def)
  next
    case (WaitEqual i)
    then have lt: "i < n" using pc(4) by simp
    then have i: "n - i = Suc (n - Suc i)" by simp
    have ne: "\<not> (bk_num x i = bk_num x p \<and> i < p)"
    proof
      assume e: "bk_num x i = bk_num x p \<and> i < p"
      with sm [OF lt] have "bk_num x i = 0 \<or> bk_num x p < bk_num x i \<or> p < i" by blast
      with e pos show False by linarith
    qed
    have "lock_wait_step n (\<lambda>i. i) p (bk_pc x p) x = WaitChoosing (Suc i)" using WaitEqual buf ne by simp
    with WaitEqual i show ?thesis by (simp add: Let_def)
  next
    case (WaitZero i)
    then have "n - i = Suc (n - Suc i)" using pc by simp
    with WaitZero show ?thesis using pc buf by (auto simp: Let_def)
  next
    case (WaitChoosing i)
    then show ?thesis using buf by (cases "i < n") (auto simp: Let_def ch)
  qed (use pc in simp_all)
qed

lemma first_alone:
  assumes "bk_first n p s"
  shows "\<exists>k \<le> 5 * n + 5. bk_pc ((bk_move False n (\<lambda>i. i) p ^^ k) s) p = Holding"
proof -
  let ?Q = "\<lambda>s. bk_pc s p = Holding"
  have "?Q (bk_move False n (\<lambda>i. i) p x) \<or> bk_first n p (bk_move False n (\<lambda>i. i) p x)
    \<and> wait_left n (bk_num (bk_move False n (\<lambda>i. i) p x)) (bk_pc (bk_move False n (\<lambda>i. i) p x) p) < wait_left n (bk_num x) (bk_pc x p)" if "bk_first n p x" for x
  proof -
    let ?c = "lock_wait_step n (\<lambda>i. i) p (bk_pc x p) x"
    from that have mv: "bk_move False n (\<lambda>i. i) p x = bk_goto p ?c x" by (cases "bk_pc x p") (auto simp: bk_first_def bk_defs)
    have "?c = Holding \<or> numbered ?c \<and> \<not> doorway ?c \<and> index_ok n ?c \<and> ?c \<noteq> Holding \<and> wait_left n (bk_num x) ?c < wait_left n (bk_num x) (bk_pc x p)"
      using first_waits [OF that] by (simp add: Let_def)
    then show ?thesis using that unfolding mv by (auto simp: bk_first_def bk_goto_def)
  qed
  from funpow_reaches [of "bk_first n p" ?Q "bk_move False n (\<lambda>i. i) p" "\<lambda>s. wait_left n (bk_num s) (bk_pc s p)", OF this assms] obtain k where
    k: "k \<le> wait_left n (bk_num s) (bk_pc s p) + 1" "?Q ((bk_move False n (\<lambda>i. i) p ^^ k) s)" by blast
  have "wait_left n (bk_num s) (bk_pc s p) \<le> 5 * n + 4" by (cases "bk_pc s p") auto
  with k show ?thesis by (intro exI [of _ k]) simp
qed

text \<open>
  No deadlock: when some process wants the lock, none has it and no sum has overflowed, then
  either a process that is choosing finishes doing so by its own steps, or a waiting process gets the lock by
  its own steps; their number is bounded.
\<close>

theorem bakery_progress:
  assumes "(bk_step False n (\<lambda>i. i))\<^sup>*\<^sup>* init_lock s" and "p < n" and "bk_pc s p \<noteq> Outside"
    and "\<forall>q < n. bk_pc s q \<noteq> Holding \<and> bk_pc s q \<noteq> Overflowed"
  shows "\<exists>q < n. \<exists>k \<le> 5 * n + 5.
      doorway (bk_pc s q) \<and> bk_pc ((bk_move False n (\<lambda>i. i) q ^^ k) s) q \<in> {WaitChoosing 0, Overflowed}
    \<or> bk_pc ((bk_move False n (\<lambda>i. i) q ^^ k) s) q = Holding"
proof (cases "\<exists>q < n. doorway (bk_pc s q)")
  case True
  then obtain q where q: "q < n" "doorway (bk_pc s q)" by blast
  have buf: "bk_buf s = (\<lambda>_. [])" using bakery_inv [OF assms(1)] by (simp add: bk_inv_def)
  from doorway_alone [OF buf q(2) _ bakery_index [OF assms(1)]] assms(4) q(1) obtain k where
    "k \<le> 2 * n + 5" "bk_pc ((bk_move False n (\<lambda>i. i) q ^^ k) s) q \<in> {WaitChoosing 0, Overflowed}" by blast
  with q show ?thesis by (intro exI [of _ q] conjI exI [of _ k]) auto
next
  case False
  have inv: "bk_inv n s" by (rule bakery_inv [OF assms(1)])
  have waits: "numbered (bk_pc s q) \<or> bk_pc s q = Outside" if "q < n" for q
    using False assms(4) that by (cases "bk_pc s q") auto
  define W where "W = {q. q < n \<and> numbered (bk_pc s q)}"
  have W: "finite W" "p \<in> W" using waits [OF assms(2)] assms(2,3) by (auto simp: W_def)
  obtain q where q: "q \<in> W" "\<And>r. r \<in> W \<Longrightarrow> bk_num s q < bk_num s r \<or> bk_num s q = bk_num s r \<and> q \<le> r"
  proof -
    let ?m = "Min (bk_num s ` W)" and ?q = "Min {r \<in> W. bk_num s r = Min (bk_num s ` W)}"
    have "?m \<in> bk_num s ` W" using W by (intro Min_in) auto
    then have "?q \<in> {r \<in> W. bk_num s r = ?m}" using W(1) by (intro Min_in) auto
    moreover have "?m \<le> bk_num s r" if "r \<in> W" for r using W(1) that by simp
    moreover have "?q \<le> r" if "r \<in> W" "bk_num s r = ?m" for r using W(1) that by (intro Min_le) auto
    ultimately show ?thesis using that [of ?q] by force
  qed
  have "bk_first n q s"
    unfolding bk_first_def
  proof (intro conjI allI impI)
    show "bk_buf s = (\<lambda>_. [])" using inv by (simp add: bk_inv_def)
    show "0 < bk_num s q" using inv q(1) by (auto simp: W_def bk_inv_def bk_local_def)
    show "numbered (bk_pc s q)" "\<not> doorway (bk_pc s q)" "bk_pc s q \<noteq> Holding" using q(1) False assms(4) by (auto simp: W_def)
    show "index_ok n (bk_pc s q)" by (rule bakery_index [OF assms(1)])
    show "bk_mem s (Choosing r) = 0" if "r < n" for r using inv that False by (auto simp: bk_inv_def bk_local_def c_bool_def)
    show "bk_num s r = 0 \<or> bk_num s q < bk_num s r \<or> bk_num s q = bk_num s r \<and> q < r" if "r < n" "r \<noteq> q" for r
    proof -
      have "bk_local s r" using inv that by (simp add: bk_inv_def)
      with q(2) [of r] that show ?thesis by (cases "numbered (bk_pc s r)") (auto simp: W_def bk_local_def)
    qed
  qed
  from first_alone [OF this] obtain k where "k \<le> 5 * n + 5" "bk_pc ((bk_move False n (\<lambda>i. i) q ^^ k) s) q = Holding" by blast
  with q(1) show ?thesis by (intro exI [of _ q] conjI exI [of _ k]) (auto simp: W_def)
qed

theorem bakery_progress_witness:
  "\<exists>q < 2. \<exists>k \<le> 15. doorway (bk_pc (bk_move False 2 (\<lambda>i. i) 1 init_lock) q)
      \<and> bk_pc ((bk_move False 2 (\<lambda>i. i) q ^^ k) (bk_move False 2 (\<lambda>i. i) 1 init_lock)) q \<in> {WaitChoosing 0, Overflowed}
    \<or> bk_pc ((bk_move False 2 (\<lambda>i. i) q ^^ k) (bk_move False 2 (\<lambda>i. i) 1 init_lock)) q = Holding"
proof -
  let ?s = "bk_move False 2 (\<lambda>i. i) 1 init_lock"
  have r: "(bk_step False 2 (\<lambda>i. i))\<^sup>*\<^sup>* init_lock ?s" using moves_reach [of 1 2 False "\<lambda>i. i" init_lock 1] by simp
  have "bk_pc ?s 0 = Outside \<and> bk_pc ?s 1 = ScanFirst" by code_simp
  then have "bk_pc ?s 1 \<noteq> Outside" "\<forall>q < 2. bk_pc ?s q \<noteq> Holding \<and> bk_pc ?s q \<noteq> Overflowed" by (auto simp: less_2_cases_iff)
  from bakery_progress [OF r _ this] show ?thesis by simp
qed

section \<open>Delayed writes\<close>

definition at_pc :: "nat \<Rightarrow> bakery \<Rightarrow> (bk_loc \<times> int) list \<Rightarrow> bk_pc \<Rightarrow> bakery" where
  "at_pc p s ws c = s\<lparr>bk_buf := (bk_buf s)(p := ws), bk_pc := (bk_pc s)(p := c)\<rparr>"

lemma delayed_moves:
  assumes "bk_mem s = (\<lambda>_. 0)" and "p < 2"
  shows "bk_move True 2 (\<lambda>i. i) p (at_pc p s [] Outside) = at_pc p s [(Choosing p, 1)] ScanFirst"
    and "bk_move True 2 (\<lambda>i. i) p (at_pc p s [(Choosing p, 1)] ScanFirst) = at_pc p s [(Choosing p, 1)] (Compare (Suc 0) 0)"
    and "bk_move True 2 (\<lambda>i. i) p (at_pc p s [(Choosing p, 1)] (Compare (Suc 0) 0)) = at_pc p s [(Choosing p, 1)] (Compare (Suc (Suc 0)) 0)"
    and "bk_move True 2 (\<lambda>i. i) p (at_pc p s [(Choosing p, 1)] (Compare (Suc (Suc 0)) 0)) = at_pc p s [(Choosing p, 1)] (Assign 0)"
    and "bk_move True 2 (\<lambda>i. i) p (at_pc p s [(Choosing p, 1)] (Assign 0)) = at_pc p s [(Choosing p, 1), (Number p, 1)] DoneChoosing"
    and "bk_move True 2 (\<lambda>i. i) p (at_pc p s [(Choosing p, 1), (Number p, 1)] DoneChoosing)
      = at_pc p s [(Choosing p, 1), (Number p, 1), (Choosing p, 0)] (WaitChoosing 0)"
  using assms by (auto simp: at_pc_def bk_defs bk_read_def INT_MAX_def)

lemma delayed_waits:
  assumes "bk_mem s = (\<lambda>_. 0)" and "p < 2" and "ws = [(Choosing p, 1), (Number p, 1), (Choosing p, 0)]"
  shows "i < 2 \<Longrightarrow> bk_move True 2 (\<lambda>i. i) p (at_pc p s ws (WaitChoosing i)) = at_pc p s ws (WaitZero i)"
    and "bk_move True 2 (\<lambda>i. i) p (at_pc p s ws (WaitZero i)) = at_pc p s ws (if i = p then WaitLess i else WaitChoosing (Suc i))"
    and "bk_move True 2 (\<lambda>i. i) p (at_pc p s ws (WaitLess p)) = at_pc p s ws (WaitEqual p)"
    and "bk_move True 2 (\<lambda>i. i) p (at_pc p s ws (WaitEqual p)) = at_pc p s ws (WaitChoosing (Suc p))"
    and "bk_move True 2 (\<lambda>i. i) p (at_pc p s ws (WaitChoosing (Suc (Suc 0)))) = at_pc p s ws Holding"
  using assms by (auto simp: at_pc_def bk_defs bk_read_def)

lemma alone_delayed:
  assumes "bk_mem s = (\<lambda>_. 0)" and "bk_buf s p = []" and "bk_pc s p = Outside" and "p < 2"
  shows "(bk_move True 2 (\<lambda>i. i) p ^^ 13) s = at_pc p s [(Choosing p, 1), (Number p, 1), (Choosing p, 0)] Holding"
proof -
  have s: "s = at_pc p s [] Outside" using assms(2,3) by (simp add: at_pc_def fun_upd_idem)
  note m = delayed_moves [OF assms(1)] and w = delayed_waits [OF assms(1) _ refl]
  have k: "(13 :: nat) = Suc (Suc (Suc (Suc (Suc (Suc (Suc (Suc (Suc (Suc (Suc (Suc (Suc 0))))))))))))" by simp
  from assms(4) consider "p = 0" | "p = Suc 0" by (auto simp: less_2_cases_iff)
  then have "(bk_move True 2 (\<lambda>i. i) p ^^ 13) (at_pc p s [] Outside) = at_pc p s [(Choosing p, 1), (Number p, 1), (Choosing p, 0)] Holding"
    unfolding k by cases (simp_all add: m w del: One_nat_def)
  with s show ?thesis by simp
qed

text \<open>
  C16.  On a processor that keeps writes in a buffer the lock needs a fence between the writes and the
  reads of \<open>lock_pool\<close>; without one, two processes get the lock together.
\<close>

theorem bakery_needs_fence:
  "\<exists>s. (bk_step True 2 (\<lambda>i. i))\<^sup>*\<^sup>* init_lock s \<and> bk_pc s 0 = Holding \<and> bk_pc s 1 = Holding"
proof -
  let ?s = "(bk_move True 2 (\<lambda>i. i) 0 ^^ 13) init_lock"
  let ?t = "(bk_move True 2 (\<lambda>i. i) 1 ^^ 13) ?s"
  have "(bk_step True 2 (\<lambda>i. i))\<^sup>*\<^sup>* init_lock ?t"
    by (rule rtranclp_trans [OF moves_reach moves_reach]) simp_all
  moreover note alone_delayed [of init_lock 0] alone_delayed [of ?s 1]
  ultimately show ?thesis by (intro exI [of _ ?t]) (simp add: init_lock_def at_pc_def)
qed

end
