(* ===== verification/IbEager.thy ===== *)
theory IbEager
  imports Prelude
begin

text \<open>
  The eager messages of the Infiniband driver \<open>MP_Lite/ib.c\<close>, from one process to another: four
  buffers on each side, counters of the buffers that were used and freed, queues of messages and
  the handlers of completion events.  The adapter is a queue of sends, a queue of posted receives
  and the remote writes of a counter, all in order; what it does is a step of its own, between any two
  operations of the program.
\<close>

section \<open>Counters\<close>

definition EAGER_BUFFERS_PER_NODE :: nat where "EAGER_BUFFERS_PER_NODE = 4"

definition INC_WITH_WRAP :: "int \<Rightarrow> int" where
  "INC_WITH_WRAP n = (if n = INT_MAX then 0 else n + 1)"

definition ADD_WITH_WRAP :: "int \<Rightarrow> int \<Rightarrow> int" where
  "ADD_WITH_WRAP n m = (if INT_MAX - n < m then (m - (INT_MAX - n)) - 1 else n + m)"

section \<open>State\<close>

datatype eager_flag = WaitingRecv | RecvComplete | RecvMatched | WaitingPost | WaitingSend | SendComplete

text \<open>
  A message header.  \<open>em_id\<close> stands for its address, \<open>em_ptr\<close> for \<open>ib_ptr\<close>; \<open>em_data\<close> is the
  contents of the user's buffer.
\<close>

record eager_msg =
  em_id :: nat
  em_tag :: int
  em_nbytes :: int
  em_data :: "8 word list"
  em_index :: nat
  em_flag :: eager_flag
  em_ptr :: "nat option"

type_synonym wire = "int \<times> 8 word list"

text \<open>
  The sender: queue, counters, buffers.  The receiver: the queue of posted buffers, the queue of the user's
  receives, buffers.  The adapter: posted sends (buffer numbers), messages on the way, completions of
  sends, posted receives, completions of receives, requested and pending writes of the counter.
\<close>

record eager =
  eager_send_q :: "eager_msg list"
  eager_sends :: int
  eager_loc_send_freed :: int
  eager_rem_recv_freed :: int
  eager_next_send_buffer :: nat
  eager_send_buffers :: "nat \<Rightarrow> wire"
  eager_ib_recv_q :: "eager_msg list"
  eager_user_recv_q :: "eager_msg list"
  eager_recv_buffer_in_use :: "nat \<Rightarrow> bool"
  eager_loc_recv_freed :: int
  eager_recv_buffers :: "nat \<Rightarrow> wire"
  hca_sends :: "nat list"
  hca_wire :: "wire list"
  hca_sent :: nat
  hca_recvs :: "nat list"
  hca_arrived :: nat
  hca_updates :: nat
  hca_writes :: "int list"
  next_id :: nat

fun change_first :: "('a \<Rightarrow> bool) \<Rightarrow> ('a \<Rightarrow> 'a) \<Rightarrow> 'a list \<Rightarrow> ('a \<times> 'a list) option" where
  "change_first P f [] = None"
| "change_first P f (x # xs) = (if P x then Some (x, f x # xs)
     else (case change_first P f xs of None \<Rightarrow> None | Some (y, ys) \<Rightarrow> Some (y, x # ys)))"

section \<open>Sending\<close>

definition eager_room :: "eager \<Rightarrow> bool" where
  "eager_room s \<longleftrightarrow> eager_sends s \<noteq> eager_loc_send_freed s \<and> eager_sends s \<noteq> eager_rem_recv_freed s"

definition ib_post_eager_send :: "eager_msg \<Rightarrow> eager \<Rightarrow> eager" where
  "ib_post_eager_send m s = s\<lparr>
     eager_send_buffers := (eager_send_buffers s)(eager_next_send_buffer s := (em_tag m, em_data m)),
     hca_sends := hca_sends s @ [eager_next_send_buffer s],
     eager_next_send_buffer := (eager_next_send_buffer s + 1) mod EAGER_BUFFERS_PER_NODE,
     eager_sends := INC_WITH_WRAP (eager_sends s)\<rparr>"

text \<open>The loop of \<open>ib_eager_check_sends\<close> over the queue, with the status.\<close>

fun check_sends_loop :: "eager_msg list \<Rightarrow> eager \<Rightarrow> eager_msg list \<times> eager \<times> bool" where
  "check_sends_loop [] s = ([], s, True)"
| "check_sends_loop (m # ms) s =
     (if \<not> eager_room s then (m # ms, s, False)
      else if em_flag m = WaitingPost then
        (case check_sends_loop ms (ib_post_eager_send m s) of (q, s', st) \<Rightarrow> (m\<lparr>em_flag := WaitingSend\<rparr> # q, s', st))
      else (case check_sends_loop ms s of (q, s', st) \<Rightarrow> (m # q, s', st)))"

definition ib_eager_check_sends :: "eager \<Rightarrow> eager \<times> bool" where
  "ib_eager_check_sends s = (case check_sends_loop (eager_send_q s) s of (q, s', st) \<Rightarrow> (s'\<lparr>eager_send_q := q\<rparr>, st))"

definition send_msg :: "nat \<Rightarrow> int \<Rightarrow> 8 word list \<Rightarrow> eager_flag \<Rightarrow> eager_msg" where
  "send_msg i tag data fl = \<lparr>em_id = i, em_tag = tag, em_nbytes = int (length data), em_data = data, em_index = 0,
     em_flag = fl, em_ptr = None\<rparr>"

definition ib_eager_asend :: "int \<Rightarrow> 8 word list \<Rightarrow> eager \<Rightarrow> eager" where
  "ib_eager_asend tag data s =
     (let (s1, status) = ib_eager_check_sends (s\<lparr>next_id := next_id s + 1\<rparr>);
          now = status \<and> eager_room s1;
          m = send_msg (next_id s) tag data (if now then WaitingSend else WaitingPost);
          s2 = s1\<lparr>eager_send_q := eager_send_q s1 @ [m]\<rparr>
      in if now then ib_post_eager_send m s2 else s2)"

definition ib_eager_handle_send :: "eager \<Rightarrow> eager outcome" where
  "ib_eager_handle_send s = (case change_first (\<lambda>m. em_flag m = WaitingSend) (em_flag_update (\<lambda>_. SendComplete)) (eager_send_q s) of
     None \<Rightarrow> Inl Exit
   | Some (m, q) \<Rightarrow> Inr (s\<lparr>eager_send_q := q, eager_loc_send_freed := INC_WITH_WRAP (eager_loc_send_freed s)\<rparr>))"

text \<open>
  \<open>ib_eager_finish_send\<close>: a message that is still queued is posted as soon as there is room, and a
  message that is complete leaves the queue; \<open>None\<close> while the call waits.
\<close>

definition finish_send_post :: "nat \<Rightarrow> eager \<Rightarrow> eager option" where
  "finish_send_post k s =
     (if eager_room s then
        (case change_first (\<lambda>m. em_id m = k \<and> em_flag m = WaitingPost) (em_flag_update (\<lambda>_. WaitingSend)) (eager_send_q s) of
           None \<Rightarrow> None
         | Some (m, q) \<Rightarrow> Some (ib_post_eager_send m (s\<lparr>eager_send_q := q\<rparr>)))
      else None)"

definition finish_send_done :: "nat \<Rightarrow> eager \<Rightarrow> eager option" where
  "finish_send_done k s =
     (if \<exists>m \<in> set (eager_send_q s). em_id m = k \<and> em_flag m = SendComplete
      then Some (s\<lparr>eager_send_q := filter (\<lambda>m. em_id m \<noteq> k) (eager_send_q s)\<rparr>) else None)"

section \<open>Receiving\<close>

definition ib_post_eager_recv :: "eager \<Rightarrow> eager outcome" where
  "ib_post_eager_recv s = (case find (\<lambda>b. \<not> eager_recv_buffer_in_use s b) [0..<EAGER_BUFFERS_PER_NODE] of
     None \<Rightarrow> Inl Exit
   | Some b \<Rightarrow> Inr (s\<lparr>
       eager_recv_buffer_in_use := (eager_recv_buffer_in_use s)(b := True),
       hca_recvs := hca_recvs s @ [b],
       eager_ib_recv_q := eager_ib_recv_q s @ [\<lparr>em_id = next_id s, em_tag = 0, em_nbytes = 32768, em_data = [],
         em_index = b, em_flag = WaitingRecv, em_ptr = None\<rparr>],
       next_id := next_id s + 1\<rparr>))"

definition ib_inc_eager_recv_freed :: "eager \<Rightarrow> eager" where
  "ib_inc_eager_recv_freed s = s\<lparr>eager_loc_recv_freed := INC_WITH_WRAP (eager_loc_recv_freed s), hca_updates := hca_updates s + 1\<rparr>"

text \<open>The buffer of a matched message is freed and posted again.\<close>

definition free_recv_buffer :: "nat \<Rightarrow> eager \<Rightarrow> eager outcome" where
  "free_recv_buffer b s = obind (ib_post_eager_recv (s\<lparr>eager_recv_buffer_in_use := (eager_recv_buffer_in_use s)(b := False)\<rparr>))
     (\<lambda>s'. Inr (ib_inc_eager_recv_freed s'))"

text \<open>A message in a buffer fits a receive.\<close>

definition eager_fits :: "eager_msg \<Rightarrow> int \<Rightarrow> int \<Rightarrow> bool" where
  "eager_fits m nbytes tag \<longleftrightarrow> em_nbytes m \<le> nbytes \<and> (tag = -1 \<or> em_tag m = tag)"

definition eager_user_recv :: "nat \<Rightarrow> int \<Rightarrow> int \<Rightarrow> eager_msg" where
  "eager_user_recv i nbytes tag = \<lparr>em_id = i, em_tag = tag, em_nbytes = nbytes, em_data = [], em_index = 0, em_flag = WaitingRecv, em_ptr = None\<rparr>"

text \<open>What a match copies to the user's header and buffer.\<close>

definition take_msg :: "eager_msg \<Rightarrow> eager \<Rightarrow> eager_msg \<Rightarrow> eager_msg" where
  "take_msg m s u = u\<lparr>em_ptr := Some (em_id m), em_data := take (nat (em_nbytes m)) (snd (eager_recv_buffers s (em_index m))),
     em_flag := RecvComplete\<rparr>"

definition ib_eager_arecv :: "int \<Rightarrow> int \<Rightarrow> eager \<Rightarrow> eager outcome" where
  "ib_eager_arecv nbytes tag s0 =
     (let u = eager_user_recv (next_id s0) nbytes tag; s = s0\<lparr>next_id := next_id s0 + 1\<rparr> in
      case change_first (\<lambda>m. em_flag m = RecvComplete \<and> eager_fits m nbytes tag) (em_flag_update (\<lambda>_. RecvMatched)) (eager_ib_recv_q s) of
        None \<Rightarrow> Inr (s\<lparr>eager_user_recv_q := eager_user_recv_q s @ [u]\<rparr>)
      | Some (m, q) \<Rightarrow> obind (free_recv_buffer (em_index m) (s\<lparr>eager_ib_recv_q := q\<rparr>))
          (\<lambda>s'. Inr (s'\<lparr>eager_user_recv_q := eager_user_recv_q s' @ [take_msg m s u]\<rparr>)))"

text \<open>What the handler takes from the header in a buffer.\<close>

definition arrived_msg :: "eager \<Rightarrow> eager_msg \<Rightarrow> eager_msg" where
  "arrived_msg s m = m\<lparr>em_tag := fst (eager_recv_buffers s (em_index m)),
     em_nbytes := int (length (snd (eager_recv_buffers s (em_index m)))), em_flag := RecvComplete\<rparr>"

definition ib_eager_handle_recv :: "eager \<Rightarrow> eager outcome" where
  "ib_eager_handle_recv s = (case change_first (\<lambda>m. em_flag m = WaitingRecv) (arrived_msg s) (eager_ib_recv_q s) of
     None \<Rightarrow> Inl Exit
   | Some (m0, q) \<Rightarrow>
       (let m = arrived_msg s m0
        in case change_first (\<lambda>u. em_flag u = WaitingRecv \<and> eager_fits m (em_nbytes u) (em_tag u)) (take_msg m s) (eager_user_recv_q s) of
          None \<Rightarrow> Inr (s\<lparr>eager_ib_recv_q := q\<rparr>)
        | Some (u, uq) \<Rightarrow>
            obind (free_recv_buffer (em_index m)
                (s\<lparr>eager_ib_recv_q := map (\<lambda>e. if em_id e = em_id m then e\<lparr>em_flag := RecvMatched\<rparr> else e) q\<rparr>))
              (\<lambda>s'. Inr (s'\<lparr>eager_user_recv_q := uq\<rparr>))))"

text \<open>\<open>ib_eager_finish_recv\<close>, once the receive is complete; \<open>None\<close> while it waits.\<close>

definition ib_eager_finish_recv :: "nat \<Rightarrow> eager \<Rightarrow> eager outcome option" where
  "ib_eager_finish_recv k s = (case find (\<lambda>u. em_id u = k) (eager_user_recv_q s) of
     None \<Rightarrow> Some (Inl Exit)
   | Some u \<Rightarrow>
       if em_flag u \<noteq> RecvComplete then None
       else if \<exists>m \<in> set (eager_ib_recv_q s). em_ptr u = Some (em_id m)
       then Some (Inr (s\<lparr>eager_user_recv_q := filter (\<lambda>u. em_id u \<noteq> k) (eager_user_recv_q s),
              eager_ib_recv_q := filter (\<lambda>m. em_ptr u \<noteq> Some (em_id m)) (eager_ib_recv_q s)\<rparr>))
       else Some (Inl Exit))"

section \<open>The adapter\<close>

text \<open>
  A posted send is read from its buffer and goes on its way; it arrives in the first posted buffer, which
  is an error of the connection when there is none, and is complete on both sides.  A write of the
  counter is read and then stored.
\<close>

definition hca_read_buffer :: "eager \<Rightarrow> eager" where
  "hca_read_buffer s = s\<lparr>hca_wire := hca_wire s @ [eager_send_buffers s (hd (hca_sends s))], hca_sends := tl (hca_sends s)\<rparr>"

definition hca_deliver :: "eager \<Rightarrow> eager outcome" where
  "hca_deliver s = (case hca_recvs s of [] \<Rightarrow> Inl Exit
   | b # bs \<Rightarrow> Inr (s\<lparr>eager_recv_buffers := (eager_recv_buffers s)(b := hd (hca_wire s)), hca_wire := tl (hca_wire s),
       hca_recvs := bs, hca_sent := hca_sent s + 1, hca_arrived := hca_arrived s + 1\<rparr>))"

definition hca_read_counter :: "eager \<Rightarrow> eager" where
  "hca_read_counter s = s\<lparr>hca_writes := hca_writes s @ [eager_loc_recv_freed s], hca_updates := hca_updates s - 1\<rparr>"

definition hca_write_counter :: "eager \<Rightarrow> eager" where
  "hca_write_counter s = s\<lparr>eager_rem_recv_freed := hd (hca_writes s), hca_writes := tl (hca_writes s)\<rparr>"

section \<open>All interleavings\<close>

text \<open>The state after \<open>ib_init\<close>, before the receives are posted, and after.\<close>

definition eager_unposted :: eager where
  "eager_unposted = \<lparr>eager_send_q = [], eager_sends = 0, eager_loc_send_freed = int EAGER_BUFFERS_PER_NODE,
     eager_rem_recv_freed = int EAGER_BUFFERS_PER_NODE, eager_next_send_buffer = 0, eager_send_buffers = (\<lambda>_. (0, [])),
     eager_ib_recv_q = [], eager_user_recv_q = [], eager_recv_buffer_in_use = (\<lambda>_. False),
     eager_loc_recv_freed = int EAGER_BUFFERS_PER_NODE, eager_recv_buffers = (\<lambda>_. (0, [])),
     hca_sends = [], hca_wire = [], hca_sent = 0, hca_recvs = [], hca_arrived = 0, hca_updates = 0, hca_writes = [], next_id = 0\<rparr>"

fun post_recvs :: "nat \<Rightarrow> eager \<Rightarrow> eager outcome" where
  "post_recvs 0 s = Inr s"
| "post_recvs (Suc j) s = obind (ib_post_eager_recv s) (post_recvs j)"

definition eager_init :: "eager outcome" where
  "eager_init = post_recvs EAGER_BUFFERS_PER_NODE eager_unposted"

text \<open>
  \<open>ov\<close>: whether a program may wait for a queued message while an earlier one is still queued.
\<close>

definition next_to_post :: "nat \<Rightarrow> eager \<Rightarrow> bool" where
  "next_to_post k s \<longleftrightarrow> (case find (\<lambda>m. em_flag m = WaitingPost) (eager_send_q s) of None \<Rightarrow> False | Some m \<Rightarrow> em_id m = k)"

inductive eager_step :: "bool \<Rightarrow> eager \<Rightarrow> eager outcome \<Rightarrow> bool" for ov where
  asend: "eager_step ov s (Inr (ib_eager_asend tag data s))"
| wait_send_post: "finish_send_post k s = Some s' \<Longrightarrow> ov \<or> next_to_post k s \<Longrightarrow> eager_step ov s (Inr s')"
| wait_send_done: "finish_send_done k s = Some s' \<Longrightarrow> eager_step ov s (Inr s')"
| handle_send: "0 < hca_sent s \<Longrightarrow> eager_step ov s (ib_eager_handle_send (s\<lparr>hca_sent := hca_sent s - 1\<rparr>))"
| arecv: "eager_step ov s (ib_eager_arecv nbytes tag s)"
| handle_recv: "0 < hca_arrived s \<Longrightarrow> eager_step ov s (ib_eager_handle_recv (s\<lparr>hca_arrived := hca_arrived s - 1\<rparr>))"
| wait_recv: "k \<in> em_id ` set (eager_user_recv_q s) \<Longrightarrow> ib_eager_finish_recv k s = Some r \<Longrightarrow> eager_step ov s r"
| read_buffer: "hca_sends s \<noteq> [] \<Longrightarrow> eager_step ov s (Inr (hca_read_buffer s))"
| deliver: "hca_wire s \<noteq> [] \<Longrightarrow> eager_step ov s (hca_deliver s)"
| read_counter: "0 < hca_updates s \<Longrightarrow> eager_step ov s (Inr (hca_read_counter s))"
| write_counter: "hca_writes s \<noteq> [] \<Longrightarrow> eager_step ov s (Inr (hca_write_counter s))"

inductive eager_run :: "bool \<Rightarrow> eager \<Rightarrow> eager outcome \<Rightarrow> bool" for ov where
  eager_refl: "eager_run ov s (Inr s)"
| eager_more: "eager_run ov s (Inr s') \<Longrightarrow> eager_step ov s' r \<Longrightarrow> eager_run ov s r"

end
