(* ===== verification/IbEagerFlow.thy ===== *)
theory IbEagerFlow
  imports IbEager "HOL-Library.Multiset"
begin

text \<open>
  The flow control of \<open>IbEager\<close>: the counters with their wrap-around, the cyclic buffers, and the
  refinement of an abstract mailbox.
\<close>

section \<open>Counters\<close>

definition wrapm :: "int \<Rightarrow> int" where
  "wrapm x = x mod (INT_MAX + 1)"

lemma inc_wrap: "INC_WITH_WRAP (wrapm x) = wrapm (x + 1)"
proof (cases "wrapm x = INT_MAX")
  case True
  have "wrapm (x + 1) = (wrapm x + 1) mod (INT_MAX + 1)" by (simp add: wrapm_def mod_simps)
  with True show ?thesis by (simp add: INC_WITH_WRAP_def)
next
  case False
  then have "wrapm x + 1 < INT_MAX + 1" using pos_mod_bound [of "INT_MAX + 1" x] by (simp add: wrapm_def INT_MAX_def)
  then have "(wrapm x + 1) mod (INT_MAX + 1) = wrapm x + 1"
    using pos_mod_sign [of "INT_MAX + 1" x] by (intro mod_pos_pos_trivial) (auto simp: wrapm_def INT_MAX_def)
  with False show ?thesis by (simp add: INC_WITH_WRAP_def wrapm_def mod_simps)
qed

lemma add_wrap: "0 \<le> m \<Longrightarrow> m \<le> INT_MAX \<Longrightarrow> ADD_WITH_WRAP (wrapm x) m = wrapm (x + m)"
proof -
  assume m: "0 \<le> m" "m \<le> INT_MAX"
  have b: "0 \<le> wrapm x" "wrapm x \<le> INT_MAX" using pos_mod_bound [of "INT_MAX + 1" x] pos_mod_sign [of "INT_MAX + 1" x]
    by (simp_all add: wrapm_def INT_MAX_def)
  have e: "wrapm (x + m) = (wrapm x + m) mod (INT_MAX + 1)" by (simp add: wrapm_def mod_simps)
  show ?thesis
  proof (cases "INT_MAX - wrapm x < m")
    case True
    have "(wrapm x + m) mod (INT_MAX + 1) = (wrapm x + m - (INT_MAX + 1)) mod (INT_MAX + 1)" by simp
    also have "\<dots> = wrapm x + m - (INT_MAX + 1)" using b m True by (intro mod_pos_pos_trivial) auto
    finally show ?thesis using True e by (simp add: ADD_WITH_WRAP_def)
  next
    case False
    then have "(wrapm x + m) mod (INT_MAX + 1) = wrapm x + m" using b m by (intro mod_pos_pos_trivial) auto
    with False e show ?thesis by (simp add: ADD_WITH_WRAP_def)
  qed
qed

lemma wrap_close: "wrapm x = wrapm (x + k) \<longleftrightarrow> k = 0" if "0 \<le> k" "k \<le> 4" for x k :: int
proof
  assume "wrapm x = wrapm (x + k)"
  then have "(x + k) mod (INT_MAX + 1) = x mod (INT_MAX + 1)" by (simp only: wrapm_def)
  then have "(INT_MAX + 1) dvd (x + k) - x" by (rule iffD1 [OF mod_eq_dvd_iff])
  then have "(INT_MAX + 1) dvd k" by (simp only: add_diff_cancel_left')
  with that show "k = 0" using zdvd_imp_le [of "INT_MAX + 1" k] by (auto simp: INT_MAX_def)
qed simp

text \<open>
  With \<open>n\<close> messages sent, of which \<open>out\<close> are not complete and \<open>uns\<close> have not been received by the
  user: what the counters hold, where the sender's copy and the writes on the way lag behind by \<open>d\<close> and
  \<open>ds\<close>.
\<close>

definition counters :: "int \<Rightarrow> int \<Rightarrow> int \<Rightarrow> int \<Rightarrow> int list \<Rightarrow> nat \<Rightarrow> int \<Rightarrow> int \<Rightarrow> bool" where
  "counters sends loc rem freed writes updates out uns \<longleftrightarrow> (\<exists>n d ds.
     sends = wrapm n \<and> loc = wrapm (n + 4 - out) \<and> freed = wrapm (n + 4 - uns) \<and> rem = wrapm (n + 4 - uns - d)
     \<and> writes = map (\<lambda>d. wrapm (n + 4 - uns - d)) ds \<and> sorted_wrt (\<ge>) (d # ds) \<and> (\<forall>x \<in> set (d # ds). 0 \<le> x)
     \<and> 0 \<le> out \<and> out \<le> 4 \<and> 0 \<le> uns \<and> uns + d \<le> 4 \<and> (updates = 0 \<longrightarrow> last (d # ds) = 0))"

lemma counters_post:
  assumes "counters sends loc rem freed writes updates out uns" and "sends \<noteq> loc" and "sends \<noteq> rem"
  shows "counters (INC_WITH_WRAP sends) loc rem freed writes updates (out + 1) (uns + 1)" and "out < 4" and "uns < 4"
proof -
  from assms(1) obtain n d ds where c: "sends = wrapm n" "loc = wrapm (n + 4 - out)" "freed = wrapm (n + 4 - uns)"
    "rem = wrapm (n + 4 - uns - d)" "writes = map (\<lambda>d. wrapm (n + 4 - uns - d)) ds" "sorted_wrt (\<ge>) (d # ds)" "\<forall>x \<in> set (d # ds). 0 \<le> x"
    "0 \<le> out" "out \<le> 4" "0 \<le> uns" "uns + d \<le> 4" "updates = 0 \<longrightarrow> last (d # ds) = 0"
    unfolding counters_def by blast
  have o: "out < 4" using assms(2) c(1,2,8,9) by (cases "out = 4") auto
  have u: "uns + d < 4" using assms(3) c(1,4,11) by (cases "uns + d = 4") (auto simp: algebra_simps)
  then show "uns < 4" using c(7) by auto
  show "out < 4" by (rule o)
  show "counters (INC_WITH_WRAP sends) loc rem freed writes updates (out + 1) (uns + 1)"
    unfolding counters_def using c o u
    by (intro exI [of _ "n + 1"] exI [of _ d] exI [of _ ds]) (simp add: inc_wrap algebra_simps)
qed

lemma counters_sent: "counters sends loc rem freed writes updates out uns \<Longrightarrow> 0 < out \<Longrightarrow>
    counters sends (INC_WITH_WRAP loc) rem freed writes updates (out - 1) uns"
  unfolding counters_def by (elim exE conjE, intro exI conjI) (assumption | simp add: inc_wrap algebra_simps)+

lemma counters_match:
  assumes "counters sends loc rem freed writes updates out uns" and "0 < uns"
  shows "counters sends loc rem (INC_WITH_WRAP freed) writes (updates + 1) out (uns - 1)"
proof -
  from assms(1) obtain n d ds where c: "sends = wrapm n" "loc = wrapm (n + 4 - out)" "freed = wrapm (n + 4 - uns)"
    "rem = wrapm (n + 4 - uns - d)" "writes = map (\<lambda>d. wrapm (n + 4 - uns - d)) ds" "sorted_wrt (\<ge>) (d # ds)" "\<forall>x \<in> set (d # ds). 0 \<le> x"
    "0 \<le> out" "out \<le> 4" "0 \<le> uns" "uns + d \<le> 4" "updates = 0 \<longrightarrow> last (d # ds) = 0"
    unfolding counters_def by blast
  then show ?thesis unfolding counters_def using assms(2)
    by (intro exI [of _ n] exI [of _ "d + 1"] exI [of _ "map (\<lambda>x. x + 1) ds"])
      (auto simp: inc_wrap algebra_simps sorted_wrt_map)
qed

lemma counters_read: "counters sends loc rem freed writes updates out uns \<Longrightarrow>
    counters sends loc rem freed (writes @ [freed]) (updates - 1) out uns"
  unfolding counters_def
  apply (elim exE conjE)
  subgoal for n d ds
    by (intro exI [of _ n] exI [of _ d] exI [of _ "ds @ [0]"]) (auto simp: sorted_wrt_append)
  done

lemma counters_write: "counters sends loc rem freed writes updates out uns \<Longrightarrow> writes \<noteq> [] \<Longrightarrow>
    counters sends loc (hd writes) freed (tl writes) updates out uns"
  unfolding counters_def
  apply (elim exE conjE)
  subgoal for n d ds
    by (intro exI [of _ n] exI [of _ "hd ds"] exI [of _ "tl ds"]) (cases ds; auto)
  done

lemma counters_out: "counters sends loc rem freed writes updates out uns \<Longrightarrow> 0 \<le> out \<and> out \<le> 4 \<and> 0 \<le> uns \<and> uns \<le> 4"
  unfolding counters_def by force

section \<open>The buffers of the sender\<close>

definition last_slots :: "nat \<Rightarrow> nat \<Rightarrow> nat list" where
  "last_slots nxt n = map (\<lambda>i. (nxt + 4 - n + i) mod 4) [0..<n]"

definition eager_slots :: "nat \<Rightarrow> nat list \<Rightarrow> bool" where
  "eager_slots nxt ks \<longleftrightarrow> nxt < 4 \<and> length ks \<le> 4 \<and> last_slots nxt (length ks) = ks"

lemma below_four: "n < 4 \<Longrightarrow> n = 0 \<or> n = 1 \<or> n = 2 \<or> n = (3 :: nat)" by linarith

lemma last_slots_post:
  assumes "n < 4" and "nxt < 4"
  shows "last_slots ((nxt + 1) mod 4) (Suc n) = last_slots nxt n @ [nxt] \<and> nxt \<notin> set (last_slots nxt n)"
  using below_four [OF assms(1)] below_four [OF assms(2)]
  by (elim disjE; simp add: last_slots_def upt_rec)

lemma last_slots_read:
  assumes "n < 4" and "nxt < 4"
  shows "last_slots nxt n = tl (last_slots nxt (Suc n))"
  using below_four [OF assms(1)] below_four [OF assms(2)]
  by (elim disjE; simp add: last_slots_def upt_rec)

lemma slots_post:
  assumes "eager_slots nxt ks" and "length ks < 4"
  shows "eager_slots ((nxt + 1) mod 4) (ks @ [nxt])" and "nxt \<notin> set ks"
  using last_slots_post [OF assms(2), of nxt] assms by (auto simp: eager_slots_def)

lemma slots_read: "eager_slots nxt ks \<Longrightarrow> eager_slots nxt (tl ks)"
  using last_slots_read [of "length ks - 1" nxt] by (cases ks) (auto simp: eager_slots_def)

section \<open>Lists\<close>

lemma change_first_None: "change_first P f xs = None \<longleftrightarrow> (\<forall>x \<in> set xs. \<not> P x)"
  by (induction xs) (auto split: option.splits)

lemma change_first_Some: "change_first P f xs = Some (x, ys) \<longleftrightarrow>
    (\<exists>as bs. xs = as @ x # bs \<and> ys = as @ f x # bs \<and> P x \<and> (\<forall>a \<in> set as. \<not> P a))"
proof (induction xs arbitrary: ys)
  case (Cons z xs)
  show ?case
  proof (cases "P z")
    case True
    show ?thesis
    proof
      assume "change_first P f (z # xs) = Some (x, ys)"
      with True show "\<exists>as bs. z # xs = as @ x # bs \<and> ys = as @ f x # bs \<and> P x \<and> (\<forall>a \<in> set as. \<not> P a)"
        by (intro exI [of _ "[]"] exI [of _ xs]) auto
    next
      assume "\<exists>as bs. z # xs = as @ x # bs \<and> ys = as @ f x # bs \<and> P x \<and> (\<forall>a \<in> set as. \<not> P a)"
      with True show "change_first P f (z # xs) = Some (x, ys)" by (auto simp: Cons_eq_append_conv)
    qed
  next
    case False
    have "change_first P f (z # xs) = Some (x, ys) \<longleftrightarrow> (\<exists>ys'. ys = z # ys' \<and> change_first P f xs = Some (x, ys'))"
      using False by (auto split: option.splits)
    with False show ?thesis unfolding Cons.IH by (auto simp: Cons_eq_append_conv) (metis append_Cons list.set_intros set_ConsD)+
  qed
qed simp

section \<open>The mailbox\<close>

text \<open>
  What the eager messages between two processes are meant to be.  Messages that wait to be posted,
  messages on their way, messages that have arrived and were not received, and the receives of the
  user with the bytes they got.
\<close>

record mailbox =
  mb_queued :: "(nat \<times> wire) list"
  mb_transit :: "wire list"
  mb_unread :: "wire list"
  mb_recvs :: "(nat \<times> int \<times> int \<times> 8 word list option) list"

definition wire_fits :: "wire \<Rightarrow> int \<Rightarrow> int \<Rightarrow> bool" where
  "wire_fits w nbytes tag \<longleftrightarrow> int (length (snd w)) \<le> nbytes \<and> (tag = -1 \<or> fst w = tag)"

fun awaits :: "wire \<Rightarrow> nat \<times> int \<times> int \<times> 8 word list option \<Rightarrow> bool" where
  "awaits w (i, nbytes, tag, d) \<longleftrightarrow> d = None \<and> wire_fits w nbytes tag"

text \<open>
  A message is queued, is posted in its turn (or out of turn, \<open>ov\<close>), and arrives in order of posting at
  the first receive that it fits, or is left; a receive takes the first message that fits; a
  receive that has got its message is forgotten.
\<close>

inductive mb_step :: "bool \<Rightarrow> mailbox \<Rightarrow> mailbox \<Rightarrow> bool" for ov where
  mb_queue: "mb_step ov m (m\<lparr>mb_queued := mb_queued m @ [(i, w)]\<rparr>)"
| mb_post: "mb_queued m = xs @ (i, w) # ys \<Longrightarrow> ov \<or> xs = [] \<Longrightarrow>
    mb_step ov m (m\<lparr>mb_queued := xs @ ys, mb_transit := mb_transit m @ [w]\<rparr>)"
| mb_leave: "mb_transit m = w # t \<Longrightarrow> \<forall>r \<in> set (mb_recvs m). \<not> awaits w r \<Longrightarrow>
    mb_step ov m (m\<lparr>mb_transit := t, mb_unread := mb_unread m @ [w]\<rparr>)"
| mb_match: "mb_transit m = w # t \<Longrightarrow> mb_recvs m = xs @ (i, nbytes, tag, None) # ys \<Longrightarrow> wire_fits w nbytes tag \<Longrightarrow>
    \<forall>r \<in> set xs. \<not> awaits w r \<Longrightarrow>
    mb_step ov m (m\<lparr>mb_transit := t, mb_recvs := xs @ (i, nbytes, tag, Some (snd w)) # ys\<rparr>)"
| mb_wait: "\<forall>w \<in> set (mb_unread m). \<not> wire_fits w nbytes tag \<Longrightarrow>
    mb_step ov m (m\<lparr>mb_recvs := mb_recvs m @ [(i, nbytes, tag, None)]\<rparr>)"
| mb_take: "mb_unread m = xs @ w # ys \<Longrightarrow> wire_fits w nbytes tag \<Longrightarrow> \<forall>x \<in> set xs. \<not> wire_fits x nbytes tag \<Longrightarrow>
    mb_step ov m (m\<lparr>mb_unread := xs @ ys, mb_recvs := mb_recvs m @ [(i, nbytes, tag, Some (snd w))]\<rparr>)"
| mb_done: "mb_recvs m = xs @ (i, nbytes, tag, Some d) # ys \<Longrightarrow> mb_step ov m (m\<lparr>mb_recvs := xs @ ys\<rparr>)"

text \<open>The mailbox of a state of the driver.\<close>

definition waiting_ix :: "eager_msg list \<Rightarrow> nat list" where
  "waiting_ix q = map em_index (filter (\<lambda>m. em_flag m = WaitingRecv) q)"

definition complete :: "eager_msg list \<Rightarrow> eager_msg list" where
  "complete q = filter (\<lambda>m. em_flag m = RecvComplete) q"

definition transit :: "eager \<Rightarrow> wire list" where
  "transit s = map (eager_recv_buffers s) (take (hca_arrived s) (waiting_ix (eager_ib_recv_q s))) @ hca_wire s
     @ map (eager_send_buffers s) (hca_sends s)"

definition recv_view :: "eager_msg \<Rightarrow> nat \<times> int \<times> int \<times> 8 word list option" where
  "recv_view u = (em_id u, em_nbytes u, em_tag u, if em_flag u = RecvComplete then Some (em_data u) else None)"

definition mailbox_of :: "eager \<Rightarrow> mailbox" where
  "mailbox_of s = \<lparr>
     mb_queued = map (\<lambda>m. (em_id m, (em_tag m, em_data m))) (filter (\<lambda>m. em_flag m = WaitingPost) (eager_send_q s)),
     mb_transit = transit s,
     mb_unread = map (\<lambda>m. eager_recv_buffers s (em_index m)) (complete (eager_ib_recv_q s)),
     mb_recvs = map recv_view (eager_user_recv_q s)\<rparr>"

section \<open>Invariant\<close>

definition eager_owed :: "eager \<Rightarrow> nat" where
  "eager_owed s = length (hca_sends s) + length (hca_wire s) + hca_sent s"

definition unreceived :: "eager \<Rightarrow> nat" where
  "unreceived s = length (hca_sends s) + length (hca_wire s) + hca_arrived s + length (complete (eager_ib_recv_q s))"

definition tx_inv :: "eager \<Rightarrow> bool" where
  "tx_inv s \<longleftrightarrow> length (filter (\<lambda>m. em_flag m = WaitingSend) (eager_send_q s)) = eager_owed s
     \<and> distinct (map em_id (eager_send_q s)) \<and> (\<forall>m \<in> set (eager_send_q s). em_id m < next_id s)"

definition flow_inv :: "eager \<Rightarrow> bool" where
  "flow_inv s \<longleftrightarrow> counters (eager_sends s) (eager_loc_send_freed s) (eager_rem_recv_freed s) (eager_loc_recv_freed s)
     (hca_writes s) (hca_updates s) (int (eager_owed s)) (int (unreceived s))"

definition buf_inv :: "eager \<Rightarrow> bool" where
  "buf_inv s \<longleftrightarrow> hca_arrived s \<le> length (waiting_ix (eager_ib_recv_q s))
     \<and> hca_recvs s = drop (hca_arrived s) (waiting_ix (eager_ib_recv_q s))
     \<and> length (waiting_ix (eager_ib_recv_q s)) + length (complete (eager_ib_recv_q s)) = 4
     \<and> distinct (waiting_ix (eager_ib_recv_q s) @ map em_index (complete (eager_ib_recv_q s)))
     \<and> set (waiting_ix (eager_ib_recv_q s) @ map em_index (complete (eager_ib_recv_q s))) \<subseteq> {..<4}
     \<and> (\<forall>b < 4. eager_recv_buffer_in_use s b)
     \<and> sorted_wrt (\<lambda>x y. em_flag x = WaitingRecv \<longrightarrow> em_flag y = WaitingRecv) (eager_ib_recv_q s)
     \<and> (\<forall>m \<in> set (complete (eager_ib_recv_q s)). em_tag m = fst (eager_recv_buffers s (em_index m))
         \<and> em_nbytes m = int (length (snd (eager_recv_buffers s (em_index m)))))"

definition linked :: "eager_msg list \<Rightarrow> eager_msg list \<Rightarrow> bool" where
  "linked ibq userq \<longleftrightarrow> (\<forall>u \<in> set userq. em_flag u = WaitingRecv \<or> em_flag u = RecvComplete)
     \<and> (\<forall>u \<in> set userq. em_flag u = RecvComplete \<longrightarrow> (\<exists>m \<in> set ibq. em_ptr u = Some (em_id m) \<and> em_flag m = RecvMatched))
     \<and> distinct (map em_ptr (complete userq))"

definition no_missed :: "eager_msg list \<Rightarrow> eager_msg list \<Rightarrow> bool" where
  "no_missed ibq userq \<longleftrightarrow> (\<forall>u \<in> set userq. em_flag u = WaitingRecv \<longrightarrow>
     (\<forall>m \<in> set (complete ibq). \<not> eager_fits m (em_nbytes u) (em_tag u)))"

definition ids_ok :: "eager_msg list \<Rightarrow> nat \<Rightarrow> bool" where
  "ids_ok q j \<longleftrightarrow> distinct (map em_id q) \<and> (\<forall>m \<in> set q. em_id m < j)"

definition user_inv :: "eager \<Rightarrow> bool" where
  "user_inv s \<longleftrightarrow> ids_ok (eager_ib_recv_q s) (next_id s) \<and> ids_ok (eager_user_recv_q s) (next_id s)
     \<and> linked (eager_ib_recv_q s) (eager_user_recv_q s) \<and> no_missed (eager_ib_recv_q s) (eager_user_recv_q s)"

definition core_inv :: "eager \<Rightarrow> bool" where
  "core_inv s \<longleftrightarrow> eager_slots (eager_next_send_buffer s) (hca_sends s) \<and> flow_inv s \<and> buf_inv s \<and> user_inv s"

definition eager_inv :: "eager \<Rightarrow> bool" where
  "eager_inv s \<longleftrightarrow> core_inv s \<and> tx_inv s"

section \<open>Sending\<close>

definition eager_queued :: "eager_msg list \<Rightarrow> (nat \<times> wire) list" where
  "eager_queued q = map (\<lambda>m. (em_id m, (em_tag m, em_data m))) (filter (\<lambda>m. em_flag m = WaitingPost) q)"

lemma eager_queued_simps [simp]:
  "eager_queued [] = []"
  "eager_queued (m # q) = (if em_flag m = WaitingPost then [(em_id m, (em_tag m, em_data m))] else []) @ eager_queued q"
  "eager_queued (q @ q') = eager_queued q @ eager_queued q'"
  by (simp_all add: eager_queued_def)

definition in_hand :: "eager_msg list \<Rightarrow> nat" where
  "in_hand q = length (filter (\<lambda>m. em_flag m = WaitingSend) q)"

lemma in_hand_simps [simp]:
  "in_hand [] = 0" "in_hand (m # q) = (if em_flag m = WaitingSend then 1 else 0) + in_hand q" "in_hand (q @ q') = in_hand q + in_hand q'"
  by (simp_all add: in_hand_def)

text \<open>What posting a send leaves alone, whatever the queue of the sender is.\<close>

lemma post_frame:
  "eager_send_q (ib_post_eager_send m s) = eager_send_q s" "eager_ib_recv_q (ib_post_eager_send m s) = eager_ib_recv_q s"
  "eager_user_recv_q (ib_post_eager_send m s) = eager_user_recv_q s" "next_id (ib_post_eager_send m s) = next_id s"
  "eager_recv_buffers (ib_post_eager_send m s) = eager_recv_buffers s" "hca_arrived (ib_post_eager_send m s) = hca_arrived s"
  "eager_owed (ib_post_eager_send m s) = eager_owed s + 1" "unreceived (ib_post_eager_send m s) = unreceived s + 1"
  by (simp_all add: ib_post_eager_send_def eager_owed_def unreceived_def)

lemma post_core:
  assumes "core_inv s" and "eager_room s"
  shows "core_inv (ib_post_eager_send m s)" and "transit (ib_post_eager_send m s) = transit s @ [(em_tag m, em_data m)]"
    and "eager_owed s < 4"
proof -
  have c: "counters (eager_sends s) (eager_loc_send_freed s) (eager_rem_recv_freed s) (eager_loc_recv_freed s)
     (hca_writes s) (hca_updates s) (int (eager_owed s)) (int (unreceived s))" and sl: "eager_slots (eager_next_send_buffer s) (hca_sends s)"
    and b: "buf_inv s" and u: "user_inv s"
    using assms(1) by (auto simp: core_inv_def flow_inv_def)
  note p = counters_post [OF c] and r = assms(2) [unfolded eager_room_def]
  show "eager_owed s < 4" using p(2) r by simp
  then have len: "length (hca_sends s) < 4" by (simp add: eager_owed_def)
  have "flow_inv (ib_post_eager_send m s)"
    using p(1) r post_frame(7,8) [of m s] by (simp add: flow_inv_def ib_post_eager_send_def add.commute)
  moreover have "buf_inv (ib_post_eager_send m s)" "user_inv (ib_post_eager_send m s)"
    using b u by (simp_all add: ib_post_eager_send_def buf_inv_def user_inv_def)
  moreover have "eager_slots (eager_next_send_buffer (ib_post_eager_send m s)) (hca_sends (ib_post_eager_send m s))"
    using slots_post(1) [OF sl len] by (simp add: ib_post_eager_send_def EAGER_BUFFERS_PER_NODE_def)
  ultimately show "core_inv (ib_post_eager_send m s)" by (simp add: core_inv_def)
  show "transit (ib_post_eager_send m s) = transit s @ [(em_tag m, em_data m)]"
    using slots_post(2) [OF sl len] by (simp add: transit_def ib_post_eager_send_def)
qed

lemma check_sends_ok:
  assumes "core_inv s" and "check_sends_loop ms s = (q, s', st)"
  shows "core_inv s' \<and> in_hand q + eager_owed s = in_hand ms + eager_owed s' \<and> map em_id q = map em_id ms
    \<and> eager_send_q s' = eager_send_q s \<and> next_id s' = next_id s \<and> eager_ib_recv_q s' = eager_ib_recv_q s
    \<and> eager_user_recv_q s' = eager_user_recv_q s \<and> eager_recv_buffers s' = eager_recv_buffers s
    \<and> (\<exists>ps. eager_queued ms = ps @ eager_queued q \<and> transit s' = transit s @ map snd ps) \<and> (st \<longrightarrow> eager_queued q = [])"
  using assms
proof (induction ms s arbitrary: q s' st rule: check_sends_loop.induct)
  case (2 m ms s)
  show ?case
  proof (cases "eager_room s")
    case False
    with 2 show ?thesis by auto
  next
    case room: True
    show ?thesis
    proof (cases "em_flag m = WaitingPost")
      case True
      obtain q1 s1 st1 where l: "check_sends_loop ms (ib_post_eager_send m s) = (q1, s1, st1)" by (metis prod_cases3)
      note p = post_core(1,2) [OF 2(3) room, where m = m]
      have r: "q = m\<lparr>em_flag := WaitingSend\<rparr> # q1" "s' = s1" "st = st1" using 2(4) l room True by auto
      from 2(1) [OF _ True p(1) l] room obtain ps where ps: "eager_queued ms = ps @ eager_queued q1"
        "transit s1 = transit (ib_post_eager_send m s) @ map snd ps" by auto
      with 2(1) [OF _ True p(1) l] room True r p(2) show ?thesis
        by (auto simp: post_frame intro!: exI [of _ "(em_id m, (em_tag m, em_data m)) # ps"])
    next
      case False
      obtain q1 s1 st1 where l: "check_sends_loop ms s = (q1, s1, st1)" by (metis prod_cases3)
      have r: "q = m # q1" "s' = s1" "st = st1" using 2(4) l room False by auto
      from 2(2) [OF _ False 2(3) l] room False r show ?thesis by auto
    qed
  qed
qed auto

lemma mb_posts:
  "mb_queued m = ps @ rest \<Longrightarrow> (mb_step ov)\<^sup>*\<^sup>* m (m\<lparr>mb_queued := rest, mb_transit := mb_transit m @ map snd ps\<rparr>)"
proof (induction ps arbitrary: m)
  case (Cons p ps)
  obtain i w where p: "p = (i, w)" by (cases p)
  have "mb_step ov m (m\<lparr>mb_queued := ps @ rest, mb_transit := mb_transit m @ [w]\<rparr>)" (is "mb_step ov m ?m")
    using mb_post [of m "[]" i w "ps @ rest" ov] Cons.prems p by simp
  moreover have "(mb_step ov)\<^sup>*\<^sup>* ?m (?m\<lparr>mb_queued := rest, mb_transit := mb_transit ?m @ map snd ps\<rparr>)"
    by (rule Cons.IH) simp
  ultimately show ?case using p by (simp add: converse_rtranclp_into_rtranclp)
next
  case Nil
  then have "m\<lparr>mb_queued := rest, mb_transit := mb_transit m @ map snd []\<rparr> = m" by (cases m) simp
  then show ?case by simp
qed


lemma core_inv_next: "core_inv s \<Longrightarrow> core_inv (s\<lparr>next_id := next_id s + 1\<rparr>)"
  by (auto simp: core_inv_def flow_inv_def buf_inv_def user_inv_def ids_ok_def eager_owed_def unreceived_def less_Suc_eq)

lemma core_inv_sendq [simp]: "core_inv (s\<lparr>eager_send_q := q\<rparr>) = core_inv s"
  by (simp add: core_inv_def flow_inv_def buf_inv_def user_inv_def eager_owed_def unreceived_def)

lemma room_sendq [simp]: "eager_room (s\<lparr>eager_send_q := q\<rparr>) = eager_room s"
  by (simp add: eager_room_def)

lemma outstanding_sendq [simp]: "eager_owed (s\<lparr>eager_send_q := q\<rparr>) = eager_owed s" "transit (s\<lparr>eager_send_q := q\<rparr>) = transit s"
    "eager_owed (s\<lparr>next_id := j\<rparr>) = eager_owed s" "transit (s\<lparr>next_id := j\<rparr>) = transit s"
  by (simp_all add: eager_owed_def transit_def)

lemma mailbox_parts:
  "mailbox_of s = \<lparr>mb_queued = eager_queued (eager_send_q s), mb_transit = transit s,
     mb_unread = map (\<lambda>m. eager_recv_buffers s (em_index m)) (complete (eager_ib_recv_q s)),
     mb_recvs = map recv_view (eager_user_recv_q s)\<rparr>"
  by (simp add: mailbox_of_def eager_queued_def)

lemma tx_parts: "tx_inv s \<longleftrightarrow> in_hand (eager_send_q s) = eager_owed s \<and> distinct (map em_id (eager_send_q s))
    \<and> (\<forall>m \<in> set (eager_send_q s). em_id m < next_id s)"
  by (simp add: tx_inv_def in_hand_def)

lemma asend_ok:
  assumes inv: "eager_inv s"
  shows "eager_inv (ib_eager_asend tag data s) \<and> (mb_step ov)\<^sup>*\<^sup>* (mailbox_of s) (mailbox_of (ib_eager_asend tag data s))"
proof -
  let ?s0 = "s\<lparr>next_id := next_id s + 1\<rparr>"
  obtain q s1 st where l: "check_sends_loop (eager_send_q s) ?s0 = (q, s1, st)" by (metis prod_cases3)
  have core: "core_inv ?s0" and tx: "in_hand (eager_send_q s) = eager_owed s" "distinct (map em_id (eager_send_q s))"
    "\<forall>m \<in> set (eager_send_q s). em_id m < next_id s"
    using inv core_inv_next by (auto simp: eager_inv_def tx_parts)
  from check_sends_ok [OF core l] obtain ps where c: "core_inv s1" "in_hand q = eager_owed s1" "map em_id q = map em_id (eager_send_q s)"
    "next_id s1 = next_id s + 1" "eager_ib_recv_q s1 = eager_ib_recv_q s" "eager_user_recv_q s1 = eager_user_recv_q s"
    "eager_recv_buffers s1 = eager_recv_buffers s" "eager_queued (eager_send_q s) = ps @ eager_queued q" "transit s1 = transit s @ map snd ps"
    "st \<longrightarrow> eager_queued q = []" using tx(1) by auto
  have "em_id ` set q = em_id ` set (eager_send_q s)" using c(3) by (metis set_map)
  moreover have "\<forall>i \<in> em_id ` set (eager_send_q s). i < next_id s" using tx(3) by blast
  ultimately have ids: "\<forall>m \<in> set q. em_id m < next_id s" "distinct (map em_id q)" using tx(2) c(3) by (metis image_eqI, metis)
  let ?now = "st \<and> eager_room s1"
  let ?m = "send_msg (next_id s) tag data (if ?now then WaitingSend else WaitingPost)"
  let ?s2 = "s1\<lparr>eager_send_q := q @ [?m]\<rparr>"
  have chk: "ib_eager_check_sends ?s0 = (s1\<lparr>eager_send_q := q\<rparr>, st)" using l by (simp add: ib_eager_check_sends_def)
  have r: "ib_eager_asend tag data s = (if ?now then ib_post_eager_send ?m ?s2 else ?s2)"
    unfolding ib_eager_asend_def Let_def chk by simp
  let ?mb = "(mailbox_of s)\<lparr>mb_queued := eager_queued q, mb_transit := transit s1\<rparr>"
  have a: "(mb_step ov)\<^sup>*\<^sup>* (mailbox_of s) ?mb"
    using mb_posts [of "mailbox_of s" ps "eager_queued q" ov] c(8,9) by (simp add: mailbox_parts)
  have b: "mb_step ov ?mb (?mb\<lparr>mb_queued := eager_queued q @ [(next_id s, (tag, data))]\<rparr>)"
    using mb_queue [of ov ?mb "next_id s" "(tag, data)"] by simp
  show ?thesis
  proof (cases ?now)
    case False
    have "eager_inv ?s2" using c(1,2,4) ids False by (auto simp: eager_inv_def tx_parts send_msg_def less_Suc_eq)
    moreover have "mailbox_of ?s2 = ?mb\<lparr>mb_queued := eager_queued q @ [(next_id s, (tag, data))]\<rparr>"
      using c False by (auto simp: mailbox_parts send_msg_def)
    ultimately show ?thesis using r False a b by (simp add: rtranclp.rtrancl_into_rtrancl del: mailbox.simps)
  next
    case True
    then have pq: "eager_queued q = []" using c(10) by simp
    have room: "core_inv ?s2" "eager_room ?s2" using c(1) True by simp_all
    note p = post_core(1,2) [OF room, where m = ?m]
    have "eager_inv (ib_post_eager_send ?m ?s2)"
      using p(1) c(2,4) ids True by (auto simp: eager_inv_def tx_parts post_frame send_msg_def less_Suc_eq)
    moreover have "mb_step ov (?mb\<lparr>mb_queued := [(next_id s, (tag, data))]\<rparr>) (?mb\<lparr>mb_queued := [], mb_transit := transit s1 @ [(tag, data)]\<rparr>)"
      using mb_post [of "?mb\<lparr>mb_queued := [(next_id s, (tag, data))]\<rparr>" "[]" "next_id s" "(tag, data)" "[]" ov] by simp
    moreover have "mailbox_of (ib_post_eager_send ?m ?s2) = ?mb\<lparr>mb_queued := [], mb_transit := transit s1 @ [(tag, data)]\<rparr>"
      using c pq p(2) True by (simp add: mailbox_parts post_frame send_msg_def)
    ultimately show ?thesis using r True a b pq by (simp del: mailbox.simps)
  qed
qed

lemma first_pending:
  assumes "next_to_post k s" and "eager_send_q s = as @ m # bs" and "\<forall>a \<in> set as. \<not> (em_id a = k \<and> em_flag a = WaitingPost)"
  shows "eager_queued as = []"
proof (rule ccontr)
  assume "eager_queued as \<noteq> []"
  then obtain a where "find (\<lambda>m. em_flag m = WaitingPost) as = Some a"
    by (metis (mono_tags, lifting) filter_False find_None_iff list.simps(8) not_None_eq eager_queued_def)
  moreover then have "a \<in> set as" "em_flag a = WaitingPost" by (auto simp: find_Some_iff)
  moreover have "find P (as @ ys) = Some a" if "find P as = Some a" for P and ys :: "eager_msg list"
    using that by (induction as) auto
  ultimately show False using assms by (auto simp: next_to_post_def)
qed

lemma finish_post_ok:
  assumes inv: "eager_inv s" and f: "finish_send_post k s = Some s'" and ov: "ov \<or> next_to_post k s"
  shows "eager_inv s' \<and> (mb_step ov)\<^sup>*\<^sup>* (mailbox_of s) (mailbox_of s')"
proof -
  from f obtain m q where room: "eager_room s"
    and c: "change_first (\<lambda>m. em_id m = k \<and> em_flag m = WaitingPost) (em_flag_update (\<lambda>_. WaitingSend)) (eager_send_q s) = Some (m, q)"
    and s': "s' = ib_post_eager_send m (s\<lparr>eager_send_q := q\<rparr>)"
    by (auto simp: finish_send_post_def split: if_splits option.splits)
  from c obtain as bs where q: "eager_send_q s = as @ m # bs" "q = as @ m\<lparr>em_flag := WaitingSend\<rparr> # bs" "em_flag m = WaitingPost"
    "\<forall>a \<in> set as. \<not> (em_id a = k \<and> em_flag a = WaitingPost)" by (auto simp: change_first_Some)
  have core: "core_inv (s\<lparr>eager_send_q := q\<rparr>)" and room': "eager_room (s\<lparr>eager_send_q := q\<rparr>)"
    using inv room by (simp_all add: eager_inv_def)
  note p = post_core(1,2) [OF core room', where m = m]
  have "eager_inv s'" using p(1) inv q(1-3) by (auto simp: s' eager_inv_def tx_parts post_frame)
  moreover have "ov \<or> eager_queued as = []" using ov first_pending [OF _ q(1,4)] by blast
  then have "mb_step ov (mailbox_of s) (mailbox_of s')"
    using mb_post [of "mailbox_of s" "eager_queued as" "em_id m" "(em_tag m, em_data m)" "eager_queued bs" ov] q(1-3) p(2)
    by (simp add: mailbox_parts s' post_frame)
  ultimately show ?thesis by blast
qed

lemma finish_done_ok:
  assumes inv: "eager_inv s" and f: "finish_send_done k s = Some s'"
  shows "eager_inv s' \<and> mailbox_of s' = mailbox_of s"
proof -
  from f obtain m where m: "m \<in> set (eager_send_q s)" "em_id m = k" "em_flag m = SendComplete"
    and s': "s' = s\<lparr>eager_send_q := filter (\<lambda>m. em_id m \<noteq> k) (eager_send_q s)\<rparr>"
    by (auto simp: finish_send_done_def split: if_splits)
  have d: "distinct (map em_id (eager_send_q s))" using inv by (simp add: eager_inv_def tx_parts)
  then have u: "x = m" if "x \<in> set (eager_send_q s)" "em_id x = k" for x using m that by (auto simp: distinct_map inj_on_def)
  have k: "filter (\<lambda>x. em_flag x = fl) (filter (\<lambda>x. em_id x \<noteq> k) (eager_send_q s)) = filter (\<lambda>x. em_flag x = fl) (eager_send_q s)"
    if "fl \<noteq> SendComplete" for fl using that m(3) u by (auto simp: filter_filter intro!: filter_cong)
  have "in_hand (eager_send_q s') = in_hand (eager_send_q s)" "eager_queued (eager_send_q s') = eager_queued (eager_send_q s)"
    using k [of WaitingSend] k [of WaitingPost] by (simp_all add: in_hand_def eager_queued_def s')
  then show ?thesis using inv d by (auto simp: eager_inv_def tx_parts s' mailbox_parts distinct_map_filter)
qed

lemma handle_send_ok:
  assumes inv: "eager_inv s" and h: "0 < hca_sent s"
  shows "\<exists>s'. ib_eager_handle_send (s\<lparr>hca_sent := hca_sent s - 1\<rparr>) = Inr s' \<and> eager_inv s' \<and> mailbox_of s' = mailbox_of s"
proof -
  have tx: "in_hand (eager_send_q s) = eager_owed s" "distinct (map em_id (eager_send_q s))" "\<forall>m \<in> set (eager_send_q s). em_id m < next_id s"
    and core: "core_inv s" using inv by (auto simp: eager_inv_def tx_parts)
  have "0 < in_hand (eager_send_q s)" using tx(1) h by (simp add: eager_owed_def)
  then obtain m q where c: "change_first (\<lambda>m. em_flag m = WaitingSend) (em_flag_update (\<lambda>_. SendComplete)) (eager_send_q s) = Some (m, q)"
    using change_first_None [of "\<lambda>m. em_flag m = WaitingSend" "em_flag_update (\<lambda>_. SendComplete)" "eager_send_q s"]
    by (force simp: in_hand_def filter_empty_conv)
  then obtain as bs where q: "eager_send_q s = as @ m # bs" "q = as @ m\<lparr>em_flag := SendComplete\<rparr> # bs" "em_flag m = WaitingSend"
    by (auto simp: change_first_Some)
  let ?s = "s\<lparr>hca_sent := hca_sent s - 1, eager_send_q := q, eager_loc_send_freed := INC_WITH_WRAP (eager_loc_send_freed s)\<rparr>"
  have o: "int (eager_owed ?s) = int (eager_owed s) - 1" "unreceived ?s = unreceived s" using h by (auto simp: eager_owed_def unreceived_def)
  have "flow_inv ?s" using counters_sent core h o by (simp add: core_inv_def flow_inv_def eager_owed_def)
  then have "core_inv ?s" using core by (simp add: core_inv_def buf_inv_def user_inv_def)
  moreover have "in_hand q = eager_owed ?s" using tx(1) q o(1) by simp
  ultimately have "eager_inv ?s" using tx(2,3) q by (auto simp: eager_inv_def tx_parts)
  moreover have "mailbox_of ?s = mailbox_of s" using q by (simp add: mailbox_parts transit_def)
  ultimately show ?thesis using c by (simp add: ib_eager_handle_send_def)
qed

section \<open>Receiving\<close>

lemma waiting_ix_simps [simp]:
  "waiting_ix [] = []" "waiting_ix (m # q) = (if em_flag m = WaitingRecv then [em_index m] else []) @ waiting_ix q"
  "waiting_ix (q @ q') = waiting_ix q @ waiting_ix q'"
  by (simp_all add: waiting_ix_def)

lemma complete_simps [simp]:
  "complete [] = []" "complete (m # q) = (if em_flag m = RecvComplete then [m] else []) @ complete q"
  "complete (q @ q') = complete q @ complete q'"
  by (simp_all add: complete_def)

definition posted_recv :: "nat \<Rightarrow> nat \<Rightarrow> eager_msg" where
  "posted_recv i b = \<lparr>em_id = i, em_tag = 0, em_nbytes = 32768, em_data = [], em_index = b, em_flag = WaitingRecv, em_ptr = None\<rparr>"

lemma posted_recv_simps [simp]: "em_id (posted_recv i b) = i" "em_index (posted_recv i b) = b" "em_flag (posted_recv i b) = WaitingRecv"
  by (simp_all add: posted_recv_def)

lemma free_recv_buffer_eq:
  assumes "\<forall>b < 4. eager_recv_buffer_in_use s b" and "b < 4"
  shows "free_recv_buffer b s = Inr (s\<lparr>hca_recvs := hca_recvs s @ [b], eager_ib_recv_q := eager_ib_recv_q s @ [posted_recv (next_id s) b],
     next_id := next_id s + 1, eager_loc_recv_freed := INC_WITH_WRAP (eager_loc_recv_freed s), hca_updates := hca_updates s + 1\<rparr>)"
proof -
  have "find (\<lambda>x. \<not> ((eager_recv_buffer_in_use s)(b := False)) x) [0..<4] = Some b"
    using below_four [OF assms(2)] assms(1) by (elim disjE) (simp_all add: upt_rec)
  moreover have "(eager_recv_buffer_in_use s)(b := True) = eager_recv_buffer_in_use s"
    using assms by (simp add: fun_upd_idem)
  ultimately show ?thesis
    by (simp add: free_recv_buffer_def ib_post_eager_recv_def EAGER_BUFFERS_PER_NODE_def ib_inc_eager_recv_freed_def posted_recv_def)
qed

text \<open>A message that was complete is matched: its buffer is posted again.\<close>

lemma match_frees:
  assumes sl: "eager_slots (eager_next_send_buffer s) (hca_sends s)" and flow: "flow_inv s" and buf: "buf_inv s"
    and q: "eager_ib_recv_q s = as @ m # bs" "em_flag m = RecvComplete"
  shows "\<exists>s'. free_recv_buffer (em_index m) (s\<lparr>eager_ib_recv_q := as @ m\<lparr>em_flag := RecvMatched\<rparr> # bs\<rparr>) = Inr s'
    \<and> eager_slots (eager_next_send_buffer s') (hca_sends s') \<and> flow_inv s' \<and> buf_inv s'
    \<and> eager_ib_recv_q s' = as @ m\<lparr>em_flag := RecvMatched\<rparr> # bs @ [posted_recv (next_id s) (em_index m)]
    \<and> eager_user_recv_q s' = eager_user_recv_q s \<and> next_id s' = next_id s + 1 \<and> eager_send_q s' = eager_send_q s
    \<and> eager_owed s' = eager_owed s \<and> transit s' = transit s \<and> eager_recv_buffers s' = eager_recv_buffers s"
proof -
  have b: "hca_arrived s \<le> length (waiting_ix (eager_ib_recv_q s))" "em_index m < 4" "\<forall>b < 4. eager_recv_buffer_in_use s b"
    using buf q by (auto simp: buf_inv_def)
  let ?q = "as @ m\<lparr>em_flag := RecvMatched\<rparr> # bs @ [posted_recv (next_id s) (em_index m)]"
  let ?s = "s\<lparr>hca_recvs := hca_recvs s @ [em_index m], eager_ib_recv_q := ?q,
     next_id := next_id s + 1, eager_loc_recv_freed := INC_WITH_WRAP (eager_loc_recv_freed s), hca_updates := hca_updates s + 1\<rparr>"
  have w: "waiting_ix ?q = waiting_ix (eager_ib_recv_q s) @ [em_index m]" "complete ?q = complete as @ complete bs"
    using q by simp_all
  have n: "eager_owed ?s = eager_owed s" "int (unreceived ?s) = int (unreceived s) - 1" "0 < unreceived s"
    using w(2) q by (simp_all add: eager_owed_def unreceived_def)
  have "flow_inv ?s" using counters_match flow n by (simp add: flow_inv_def)
  moreover have "buf_inv ?s" using buf q w b(1) by (auto simp: buf_inv_def sorted_wrt_append)
  moreover have "take (hca_arrived s) (waiting_ix ?q) = take (hca_arrived s) (waiting_ix (eager_ib_recv_q s))"
    unfolding w(1) using b(1) by simp
  then have "transit ?s = transit s" by (simp add: transit_def del: waiting_ix_simps take_append)
  moreover have "free_recv_buffer (em_index m) (s\<lparr>eager_ib_recv_q := as @ m\<lparr>em_flag := RecvMatched\<rparr> # bs\<rparr>) = Inr ?s"
    using free_recv_buffer_eq [of "s\<lparr>eager_ib_recv_q := as @ m\<lparr>em_flag := RecvMatched\<rparr> # bs\<rparr>" "em_index m"] b by simp
  ultimately show ?thesis using sl n(1) by (intro exI [of _ ?s]) simp
qed

lemma ids_ok_snoc: "ids_ok q j \<Longrightarrow> em_id m = j \<Longrightarrow> ids_ok (q @ [m]) (j + 1)"
  by (fastforce simp: ids_ok_def)

lemma ids_ok_mono: "ids_ok q j \<Longrightarrow> j \<le> k \<Longrightarrow> ids_ok q k"
  by (fastforce simp: ids_ok_def)

lemma fits_wire:
  assumes "em_tag m = fst w" and "em_nbytes m = int (length (snd w))"
  shows "eager_fits m nbytes tag \<longleftrightarrow> wire_fits w nbytes tag"
  using assms by (simp add: eager_fits_def wire_fits_def)

lemma ids_ok_alt: "ids_ok q j \<longleftrightarrow> distinct (map em_id q) \<and> list_all (\<lambda>i. i < j) (map em_id q)"
  by (simp add: ids_ok_def list_all_iff)

lemma ids_ok_cong: "map em_id q = map em_id q' \<Longrightarrow> ids_ok q j \<Longrightarrow> ids_ok q' j"
  by (simp only: ids_ok_alt)

lemma ids_ok_split: "ids_ok (as @ m # bs) j \<Longrightarrow> em_id x = em_id m \<Longrightarrow> ids_ok (as @ x # bs) j"
  by (erule ids_ok_cong [rotated]) simp

lemma tx_inv_mono:
  "tx_inv s \<Longrightarrow> eager_send_q s' = eager_send_q s \<Longrightarrow> eager_owed s' = eager_owed s \<Longrightarrow> next_id s \<le> next_id s' \<Longrightarrow> tx_inv s'"
  by (fastforce simp: tx_inv_def)

lemma userq_frame [simp]:
  "flow_inv (s\<lparr>eager_user_recv_q := q\<rparr>) = flow_inv s" "buf_inv (s\<lparr>eager_user_recv_q := q\<rparr>) = buf_inv s"
  "eager_owed (s\<lparr>eager_user_recv_q := q\<rparr>) = eager_owed s" "transit (s\<lparr>eager_user_recv_q := q\<rparr>) = transit s"
  "flow_inv (s\<lparr>next_id := j\<rparr>) = flow_inv s" "buf_inv (s\<lparr>next_id := j\<rparr>) = buf_inv s"
  by (simp_all add: flow_inv_def buf_inv_def eager_owed_def unreceived_def transit_def)

text \<open>A new complete receive is linked to a message that has just been matched.\<close>

lemma match_linked:
  assumes l: "linked (as @ m # bs) uq" and i: "ids_ok (as @ m # bs) j" and m: "em_flag m \<noteq> RecvMatched"
    and v: "em_flag v = RecvComplete" "em_ptr v = Some (em_id m)"
  shows "linked (as @ m\<lparr>em_flag := RecvMatched\<rparr> # bs @ cs) (uq @ [v])"
proof -
  have ne: "em_ptr u \<noteq> Some (em_id m)" and old: "\<exists>x \<in> set as \<union> set bs. em_ptr u = Some (em_id x) \<and> em_flag x = RecvMatched"
    if "u \<in> set (complete uq)" for u
  proof -
    from that l obtain x where x: "x \<in> set (as @ m # bs)" "em_ptr u = Some (em_id x)" "em_flag x = RecvMatched"
      by (auto simp: linked_def complete_def)
    with m have x': "x \<in> set as \<union> set bs" by auto
    have "em_id m \<notin> em_id ` (set as \<union> set bs)" using i by (simp add: ids_ok_def image_Un)
    with x' have "em_id x \<noteq> em_id m" by (metis imageI)
    with x x' show "em_ptr u \<noteq> Some (em_id m)" "\<exists>x \<in> set as \<union> set bs. em_ptr u = Some (em_id x) \<and> em_flag x = RecvMatched" by auto
  qed
  have "em_ptr v \<notin> em_ptr ` set (complete uq)" using ne v(2) by (metis imageE)
  moreover have "\<exists>x \<in> set (as @ m\<lparr>em_flag := RecvMatched\<rparr> # bs @ cs). em_ptr u = Some (em_id x) \<and> em_flag x = RecvMatched"
    if "u \<in> set (uq @ [v])" "em_flag u = RecvComplete" for u
    using that old [of u] v(2) by (auto simp: complete_def)
  ultimately show ?thesis using l v unfolding linked_def by auto
qed

text \<open>A receive of the user.\<close>

lemma arecv_ok:
  assumes inv: "eager_inv s"
  shows "\<exists>s'. ib_eager_arecv nbytes tag s = Inr s' \<and> eager_inv s' \<and> mb_step ov (mailbox_of s) (mailbox_of s')"
proof -
  let ?u = "eager_user_recv (next_id s) nbytes tag" and ?s = "s\<lparr>next_id := next_id s + 1\<rparr>"
  let ?P = "\<lambda>m. em_flag m = RecvComplete \<and> eager_fits m nbytes tag" and ?f = "em_flag_update (\<lambda>_. RecvMatched)"
  have core: "eager_slots (eager_next_send_buffer s) (hca_sends s)" "flow_inv s" "buf_inv s" "user_inv s" and tx: "tx_inv s"
    using inv by (auto simp: eager_inv_def core_inv_def)
  have u: "ids_ok (eager_ib_recv_q s) (next_id s)" "ids_ok (eager_user_recv_q s) (next_id s)"
    "linked (eager_ib_recv_q s) (eager_user_recv_q s)" "no_missed (eager_ib_recv_q s) (eager_user_recv_q s)"
    using core(4) by (auto simp: user_inv_def)
  have hdr: "eager_fits m n t \<longleftrightarrow> wire_fits (eager_recv_buffers s (em_index m)) n t" if "m \<in> set (complete (eager_ib_recv_q s))" for m n t
    using core(3) that by (intro fits_wire) (auto simp: buf_inv_def)
  show ?thesis
  proof (cases "change_first ?P ?f (eager_ib_recv_q s)")
    case None
    let ?s' = "?s\<lparr>eager_user_recv_q := eager_user_recv_q s @ [?u]\<rparr>"
    have no: "\<forall>m \<in> set (complete (eager_ib_recv_q s)). \<not> eager_fits m nbytes tag"
      using None by (auto simp: change_first_None complete_def)
    have "user_inv ?s'" using u no ids_ok_snoc [OF u(2), of ?u] ids_ok_mono [OF u(1)]
      by (auto simp: user_inv_def eager_user_recv_def linked_def no_missed_def)
    moreover have "tx_inv ?s'" by (rule tx_inv_mono [OF tx]) simp_all
    ultimately have "eager_inv ?s'" using core by (simp add: eager_inv_def core_inv_def)
    moreover have "mb_step ov (mailbox_of s) (mailbox_of ?s')"
      using mb_wait [of "mailbox_of s" nbytes tag ov "next_id s"] no hdr by (simp add: mailbox_parts recv_view_def eager_user_recv_def)
    moreover have "ib_eager_arecv nbytes tag s = Inr ?s'" using None by (simp add: ib_eager_arecv_def Let_def)
    ultimately show ?thesis by blast
  next
    case (Some mq)
    then obtain m q where c: "change_first ?P ?f (eager_ib_recv_q s) = Some (m, q)" by (cases mq) auto
    then obtain as bs where q: "eager_ib_recv_q s = as @ m # bs" "q = as @ m\<lparr>em_flag := RecvMatched\<rparr> # bs" "em_flag m = RecvComplete"
      "eager_fits m nbytes tag" "\<forall>a \<in> set as. em_flag a = RecvComplete \<longrightarrow> \<not> eager_fits a nbytes tag" by (auto simp: change_first_Some)
    have core': "eager_slots (eager_next_send_buffer ?s) (hca_sends ?s)" "flow_inv ?s" "buf_inv ?s" "eager_ib_recv_q ?s = as @ m # bs"
      using core q by (simp_all add: flow_inv_def buf_inv_def eager_owed_def unreceived_def)
    from match_frees [OF core' q(3)] q(2) obtain s1 where s1: "free_recv_buffer (em_index m) (?s\<lparr>eager_ib_recv_q := q\<rparr>) = Inr s1"
      "eager_slots (eager_next_send_buffer s1) (hca_sends s1)" "flow_inv s1" "buf_inv s1"
      "eager_ib_recv_q s1 = q @ [posted_recv (next_id s + 1) (em_index m)]" "eager_user_recv_q s1 = eager_user_recv_q s" "next_id s1 = next_id s + 2"
      "eager_send_q s1 = eager_send_q s" "eager_owed s1 = eager_owed s" "transit s1 = transit s" "eager_recv_buffers s1 = eager_recv_buffers s"
      by auto
    let ?v = "take_msg m ?s ?u" and ?s' = "s1\<lparr>eager_user_recv_q := eager_user_recv_q s @ [take_msg m ?s ?u]\<rparr>"
    have v: "em_id ?v = next_id s" "em_flag ?v = RecvComplete" "em_ptr ?v = Some (em_id m)" "em_tag ?v = tag" "em_nbytes ?v = nbytes"
      by (simp_all add: take_msg_def eager_user_recv_def)
    have w: "em_nbytes m = int (length (snd (eager_recv_buffers s (em_index m))))" using core(3) q by (auto simp: buf_inv_def)
    have d: "em_data ?v = snd (eager_recv_buffers s (em_index m))" using w by (simp add: take_msg_def)
    have ids: "ids_ok (q @ [posted_recv (next_id s + 1) (em_index m)]) (next_id s + 2)"
    proof -
      have "ids_ok q (next_id s)" using ids_ok_split [OF u(1) [unfolded q(1)], of "m\<lparr>em_flag := RecvMatched\<rparr>"] q(2) by simp
      then have "ids_ok q (next_id s + 1)" by (rule ids_ok_mono) simp
      from ids_ok_snoc [OF this, of "posted_recv (next_id s + 1) (em_index m)"] show ?thesis by simp
    qed
    have "linked (eager_ib_recv_q ?s') (eager_user_recv_q ?s')" using match_linked [OF u(3,1) [unfolded q(1)] _ v(2,3)] q(2,3) s1(5) by auto
    moreover have "no_missed (eager_ib_recv_q ?s') (eager_user_recv_q ?s')"
      using u(4) q(1-3) s1(5) v(2) by (auto simp: no_missed_def)
    moreover have "ids_ok (eager_user_recv_q ?s') (next_id ?s')"
      using ids_ok_snoc [OF u(2) v(1)] s1(7) by (auto intro: ids_ok_mono)
    ultimately have "user_inv ?s'" using ids s1(5,7) by (simp add: user_inv_def)
    moreover have "tx_inv ?s'" by (rule tx_inv_mono [OF tx]) (use s1 in simp_all)
    ultimately have "eager_inv ?s'" using s1(2-4) by (simp add: eager_inv_def core_inv_def)
    moreover have "mb_step ov (mailbox_of s) (mailbox_of ?s')"
    proof -
      let ?w = "\<lambda>m. eager_recv_buffers s (em_index m)"
      have "wire_fits (?w m) nbytes tag" "\<forall>x \<in> set (map ?w (complete as)). \<not> wire_fits x nbytes tag"
        using hdr q by (auto simp: complete_def)
      from mb_take [of "mailbox_of s" "map ?w (complete as)" "?w m" "map ?w (complete bs)", OF _ this, of ov "next_id s"] show ?thesis
        using q(1-3) s1 v d by (simp add: mailbox_parts recv_view_def)
    qed
    moreover have "ib_eager_arecv nbytes tag s = Inr ?s'" using c s1(1,6) by (simp add: ib_eager_arecv_def Let_def)
    ultimately show ?thesis by blast
  qed
qed

lemma arrived_msg_simps [simp]: "em_id (arrived_msg s m) = em_id m" "em_index (arrived_msg s m) = em_index m"
    "em_flag (arrived_msg s m) = RecvComplete" "em_tag (arrived_msg s m) = fst (eager_recv_buffers s (em_index m))"
    "em_nbytes (arrived_msg s m) = int (length (snd (eager_recv_buffers s (em_index m))))"
  by (simp_all add: arrived_msg_def)

lemma first_waiting:
  assumes buf: "buf_inv s" and arr: "0 < hca_arrived s"
  shows "\<exists>as m bs. eager_ib_recv_q s = as @ m # bs \<and> em_flag m = WaitingRecv \<and> waiting_ix as = [] \<and> complete bs = []
    \<and> change_first (\<lambda>m. em_flag m = WaitingRecv) (arrived_msg s) (eager_ib_recv_q s) = Some (m, as @ arrived_msg s m # bs)"
proof -
  from buf arr have "waiting_ix (eager_ib_recv_q s) \<noteq> []" by (auto simp: buf_inv_def)
  then obtain m q where c: "change_first (\<lambda>m. em_flag m = WaitingRecv) (arrived_msg s) (eager_ib_recv_q s) = Some (m, q)"
    using change_first_None [of "\<lambda>m. em_flag m = WaitingRecv" "arrived_msg s" "eager_ib_recv_q s"]
    by (force simp: waiting_ix_def filter_empty_conv)
  then obtain as bs where q: "eager_ib_recv_q s = as @ m # bs" "q = as @ arrived_msg s m # bs" "em_flag m = WaitingRecv"
    "\<forall>a \<in> set as. em_flag a \<noteq> WaitingRecv" by (auto simp: change_first_Some)
  then have "waiting_ix as = []" "complete bs = []" using buf
    by (auto simp: waiting_ix_def complete_def filter_empty_conv buf_inv_def sorted_wrt_append)
  with c q show ?thesis by blast
qed

lemma arrival_ok:
  assumes flow: "flow_inv s" and buf: "buf_inv s" and q: "eager_ib_recv_q s = as @ m # bs" "em_flag m = WaitingRecv"
      "waiting_ix as = []" "complete bs = []" and arr: "0 < hca_arrived s"
    and s1: "s1 = s\<lparr>hca_arrived := hca_arrived s - 1, eager_ib_recv_q := as @ arrived_msg s m # bs\<rparr>"
  shows "flow_inv s1 \<and> buf_inv s1 \<and> eager_owed s1 = eager_owed s \<and> transit s = eager_recv_buffers s (em_index m) # transit s1"
proof -
  obtain k where k: "hca_arrived s = Suc k" using arr by (cases "hca_arrived s") auto
  have o: "eager_owed s1 = eager_owed s" "unreceived s1 = unreceived s"
    using q k by (simp_all add: eager_owed_def unreceived_def s1)
  then have "flow_inv s1" using flow by (simp add: flow_inv_def s1)
  moreover have "\<forall>x \<in> set as. em_flag x \<noteq> WaitingRecv" using q(3) by (auto simp: waiting_ix_def filter_empty_conv)
  then have "buf_inv s1" using buf q k by (auto simp: buf_inv_def s1 sorted_wrt_append)
  moreover have "transit s = eager_recv_buffers s (em_index m) # transit s1" using q k by (simp add: transit_def s1)
  ultimately show ?thesis using o by simp
qed

lemma map_by_id:
  assumes "ids_ok (as @ m # bs) j"
  shows "map (\<lambda>e. if em_id e = em_id m then f e else e) (as @ m # bs) = as @ f m # bs"
proof -
  have "em_id m \<notin> em_id ` (set as \<union> set bs)" using assms by (simp add: ids_ok_def image_Un)
  then have "\<forall>x \<in> set as \<union> set bs. em_id x \<noteq> em_id m" by (metis imageI)
  then show ?thesis by (simp add: map_idI)
qed

lemma linked_arrive:
  assumes "linked (as @ m # bs) uq" and "em_flag m = WaitingRecv"
  shows "linked (as @ arrived_msg s m # bs) uq"
  using assms unfolding linked_def by fastforce

lemma linked_perm:
  assumes "mset uq = mset uq'"
  shows "linked q uq \<longleftrightarrow> linked q uq'"
proof -
  have "mset (map em_ptr (complete uq)) = mset (map em_ptr (complete uq'))" using assms by (simp add: complete_def)
  then have "distinct (map em_ptr (complete uq)) \<longleftrightarrow> distinct (map em_ptr (complete uq'))" by (rule mset_eq_imp_distinct_iff)
  moreover have "set uq = set uq'" using assms by (rule mset_eq_setD)
  ultimately show ?thesis by (simp add: linked_def)
qed

lemma match_user:
  assumes l: "linked (as @ m # bs) (us @ u # vs)" and i: "ids_ok (as @ m # bs) j" and m: "em_flag m \<noteq> RecvMatched"
    and u: "em_flag u = WaitingRecv" and v: "em_flag v = RecvComplete" "em_ptr v = Some (em_id m)"
  shows "linked (as @ m\<lparr>em_flag := RecvMatched\<rparr> # bs @ cs) (us @ v # vs)"
proof -
  have "linked (as @ m # bs) (us @ vs)" using l u by (auto simp: linked_def)
  from match_linked [OF this i m v] show ?thesis by (rule linked_perm [THEN iffD1, rotated]) simp
qed

lemma handle_recv_ok:
  assumes inv: "eager_inv s" and arr: "0 < hca_arrived s"
  shows "\<exists>s'. ib_eager_handle_recv (s\<lparr>hca_arrived := hca_arrived s - 1\<rparr>) = Inr s' \<and> eager_inv s' \<and> mb_step ov (mailbox_of s) (mailbox_of s')"
proof -
  let ?s = "s\<lparr>hca_arrived := hca_arrived s - 1\<rparr>" and ?w = "\<lambda>m. eager_recv_buffers s (em_index m)"
  have core: "eager_slots (eager_next_send_buffer s) (hca_sends s)" "flow_inv s" "buf_inv s" "user_inv s" and tx: "tx_inv s"
    using inv by (auto simp: eager_inv_def core_inv_def)
  have u: "ids_ok (eager_ib_recv_q s) (next_id s)" "ids_ok (eager_user_recv_q s) (next_id s)"
    "linked (eager_ib_recv_q s) (eager_user_recv_q s)" "no_missed (eager_ib_recv_q s) (eager_user_recv_q s)"
    using core(4) by (auto simp: user_inv_def)
  have am: "arrived_msg ?s = arrived_msg s" by (simp add: arrived_msg_def fun_eq_iff)
  from first_waiting [OF core(3) arr] obtain as m bs where q: "eager_ib_recv_q s = as @ m # bs" "em_flag m = WaitingRecv"
    "waiting_ix as = []" "complete bs = []"
    and c: "change_first (\<lambda>m. em_flag m = WaitingRecv) (arrived_msg s) (eager_ib_recv_q s) = Some (m, as @ arrived_msg s m # bs)" by blast
  let ?m = "arrived_msg s m" and ?q = "as @ arrived_msg s m # bs"
  let ?s1 = "?s\<lparr>eager_ib_recv_q := ?q\<rparr>"
  have a: "flow_inv ?s1" "buf_inv ?s1" "eager_owed ?s1 = eager_owed s" "transit s = ?w m # transit ?s1"
    using arrival_ok [OF core(2,3) q arr refl] by simp_all
  have ids: "ids_ok ?q (next_id s)" using ids_ok_split [OF u(1) [unfolded q(1)]] by simp
  have hm: "eager_fits ?m n t \<longleftrightarrow> wire_fits (?w m) n t" for n t by (rule fits_wire) simp_all
  have rest: "complete (eager_ib_recv_q s) = complete as" using q by simp
  let ?P = "\<lambda>u. em_flag u = WaitingRecv \<and> eager_fits ?m (em_nbytes u) (em_tag u)" and ?f = "take_msg ?m ?s"
  have aw: "awaits (?w m) (recv_view x) \<longleftrightarrow> ?P x" if "x \<in> set (eager_user_recv_q s)" for x
    using u(3) that hm by (auto simp: linked_def recv_view_def)
  have run: "ib_eager_handle_recv ?s = (case change_first ?P ?f (eager_user_recv_q s) of None \<Rightarrow> Inr ?s1
     | Some (u, uq) \<Rightarrow> obind (free_recv_buffer (em_index ?m) (?s\<lparr>eager_ib_recv_q :=
         map (\<lambda>e. if em_id e = em_id ?m then e\<lparr>em_flag := RecvMatched\<rparr> else e) ?q\<rparr>)) (\<lambda>s'. Inr (s'\<lparr>eager_user_recv_q := uq\<rparr>)))"
    using c am by (simp add: ib_eager_handle_recv_def Let_def del: One_nat_def)
  show ?thesis
  proof (cases "change_first ?P ?f (eager_user_recv_q s)")
    case None
    then have no: "\<forall>x \<in> set (eager_user_recv_q s). \<not> ?P x" by (simp add: change_first_None)
    have "user_inv ?s1" using u ids linked_arrive [OF u(3) [unfolded q(1)] q(2)] no rest q(4)
      by (auto simp: user_inv_def no_missed_def)
    moreover have "tx_inv ?s1" by (rule tx_inv_mono [OF tx]) (use a in simp_all)
    ultimately have "eager_inv ?s1" using a core(1) by (simp add: eager_inv_def core_inv_def)
    moreover have "mb_step ov (mailbox_of s) (mailbox_of ?s1)"
      using mb_leave [of "mailbox_of s" "?w m" "transit ?s1" ov] a(4) no aw rest q(4) by (simp add: mailbox_parts)
    ultimately show ?thesis using run None by simp
  next
    case (Some xq)
    then obtain x uq where cu: "change_first ?P ?f (eager_user_recv_q s) = Some (x, uq)" by (cases xq) auto
    then obtain us vs where uq: "eager_user_recv_q s = us @ x # vs" "uq = us @ ?f x # vs" "em_flag x = WaitingRecv"
      "eager_fits ?m (em_nbytes x) (em_tag x)" "\<forall>y \<in> set us. \<not> ?P y" by (auto simp: change_first_Some)
    have mm: "map (\<lambda>e. if em_id e = em_id ?m then e\<lparr>em_flag := RecvMatched\<rparr> else e) ?q = as @ ?m\<lparr>em_flag := RecvMatched\<rparr> # bs"
      using map_by_id [OF ids, of "\<lambda>e. e\<lparr>em_flag := RecvMatched\<rparr>"] by simp
    have "eager_slots (eager_next_send_buffer ?s1) (hca_sends ?s1)" "eager_ib_recv_q ?s1 = as @ ?m # bs" "em_flag ?m = RecvComplete"
      using core(1) by simp_all
    from match_frees [OF this(1) a(1,2) this(2,3)] obtain s2 where
      s2: "free_recv_buffer (em_index ?m) (?s\<lparr>eager_ib_recv_q := as @ ?m\<lparr>em_flag := RecvMatched\<rparr> # bs\<rparr>) = Inr s2"
      "eager_slots (eager_next_send_buffer s2) (hca_sends s2)" "flow_inv s2" "buf_inv s2"
      "eager_ib_recv_q s2 = as @ ?m\<lparr>em_flag := RecvMatched\<rparr> # bs @ [posted_recv (next_id s) (em_index m)]"
      "next_id s2 = next_id s + 1" "eager_send_q s2 = eager_send_q s" "eager_owed s2 = eager_owed s" "transit s2 = transit ?s1"
      "eager_recv_buffers s2 = eager_recv_buffers s" using a(3) by auto
    let ?s' = "s2\<lparr>eager_user_recv_q := uq\<rparr>"
    have v: "em_id (?f x) = em_id x" "em_flag (?f x) = RecvComplete" "em_ptr (?f x) = Some (em_id ?m)"
      "em_data (?f x) = snd (?w m)" "em_tag (?f x) = em_tag x" "em_nbytes (?f x) = em_nbytes x"
      by (simp_all add: take_msg_def)
    have "linked (eager_ib_recv_q ?s') uq"
      using match_user [OF linked_arrive [OF u(3) [unfolded q(1)] q(2), unfolded uq(1)] ids _ uq(3) v(2,3)] s2(5) uq(2) by simp
    moreover have "no_missed (eager_ib_recv_q ?s') uq"
      using u(4) s2(5) rest q(4) uq(1,2) v(2) by (auto simp: no_missed_def)
    moreover have "ids_ok uq (next_id s)" using ids_ok_split [OF u(2) [unfolded uq(1)] v(1)] uq(2) by simp
    moreover have "ids_ok (eager_ib_recv_q ?s') (next_id s + 1)"
      using ids_ok_snoc [of "as @ ?m\<lparr>em_flag := RecvMatched\<rparr> # bs" "next_id s" "posted_recv (next_id s) (em_index m)"]
        ids_ok_split [OF ids, of "?m\<lparr>em_flag := RecvMatched\<rparr>"] s2(5) by simp
    ultimately have "user_inv ?s'" using s2(6) by (simp add: user_inv_def) (blast intro: ids_ok_mono le_SucI)
    moreover have "tx_inv ?s'" by (rule tx_inv_mono [OF tx]) (use s2 in simp_all)
    ultimately have "eager_inv ?s'" using s2(2-4) by (simp add: eager_inv_def core_inv_def)
    moreover have "mb_step ov (mailbox_of s) (mailbox_of ?s')"
    proof -
      have "wire_fits (?w m) (em_nbytes x) (em_tag x)" "\<forall>r \<in> set (map recv_view us). \<not> awaits (?w m) r"
        using uq(1,4,5) hm aw by auto
      from mb_match [of "mailbox_of s" "?w m" "transit ?s1" "map recv_view us" "em_id x" _ _ "map recv_view vs", OF _ _ this, of ov] show ?thesis
        using uq(1-3) s2 v a(4) rest q(4) by (simp add: mailbox_parts recv_view_def)
    qed
    ultimately show ?thesis using run cu s2(1) mm by simp
  qed
qed

end
