(* ===== verification/IbEagerRuns.thy ===== *)
theory IbEagerRuns
  imports IbEagerFlow
begin

text \<open>
  The remaining steps of \<open>IbEager\<close> keep the invariant of \<open>IbEagerFlow\<close>, and what follows for all
  interleavings of the program with the adapter.
\<close>

section \<open>Finishing a receive\<close>

lemma filter_out_id:
  assumes "ids_ok (as @ m # bs) j"
  shows "filter (\<lambda>x. em_id x \<noteq> em_id m) (as @ m # bs) = as @ bs"
proof -
  have "em_id m \<notin> em_id ` (set as \<union> set bs)" using assms by (simp add: ids_ok_def image_Un)
  then have "\<forall>x \<in> set as \<union> set bs. em_id x \<noteq> em_id m" by (metis imageI)
  then show ?thesis by (simp add: filter_id_conv)
qed

lemma ids_ok_drop: "ids_ok (as @ m # bs) j \<Longrightarrow> ids_ok (as @ bs) j"
  by (auto simp: ids_ok_def)

lemma sorted_wrt_drop: "sorted_wrt P (as @ m # bs) \<Longrightarrow> sorted_wrt P (as @ bs)"
  by (simp add: sorted_wrt_append)

lemma linked_drop:
  assumes l: "linked (as @ m # bs) (us @ u # vs)" and u: "em_flag u = RecvComplete" "em_ptr u = Some (em_id m)"
  shows "linked (as @ bs) (us @ vs)"
proof -
  have d: "distinct (map em_ptr (complete us @ u # complete vs))" using l u(1) by (simp add: linked_def)
  then have "em_ptr u \<notin> em_ptr ` (set (complete us) \<union> set (complete vs))" by (simp add: image_Un)
  then have ne: "em_ptr x \<noteq> Some (em_id m)" if "x \<in> set us \<union> set vs" "em_flag x = RecvComplete" for x
  proof -
    have "x \<in> set (complete us) \<union> set (complete vs)" using that by (auto simp: complete_def)
    then have "em_ptr x \<in> em_ptr ` (set (complete us) \<union> set (complete vs))" by (rule imageI)
    then have "em_ptr x \<noteq> em_ptr u" using \<open>em_ptr u \<notin> _\<close> by metis
    with u(2) show ?thesis by simp
  qed
  have "\<exists>y \<in> set (as @ bs). em_ptr x = Some (em_id y) \<and> em_flag y = RecvMatched"
    if x: "x \<in> set (us @ vs)" "em_flag x = RecvComplete" for x
  proof -
    from l x have "\<exists>y \<in> set (as @ m # bs). em_ptr x = Some (em_id y) \<and> em_flag y = RecvMatched" by (simp add: linked_def)
    with ne [of x] x show ?thesis by auto
  qed
  with l d show ?thesis by (simp add: linked_def)
qed

lemma finish_recv_ok:
  assumes inv: "eager_inv s" and k: "k \<in> em_id ` set (eager_user_recv_q s)" and f: "ib_eager_finish_recv k s = Some r"
  shows "\<exists>s'. r = Inr s' \<and> eager_inv s' \<and> mb_step ov (mailbox_of s) (mailbox_of s')"
proof -
  have core: "eager_slots (eager_next_send_buffer s) (hca_sends s)" "flow_inv s" "buf_inv s" and tx: "tx_inv s"
    and u: "ids_ok (eager_ib_recv_q s) (next_id s)" "ids_ok (eager_user_recv_q s) (next_id s)"
    "linked (eager_ib_recv_q s) (eager_user_recv_q s)" "no_missed (eager_ib_recv_q s) (eager_user_recv_q s)"
    using inv by (auto simp: eager_inv_def core_inv_def user_inv_def)
  from k obtain x where x: "find (\<lambda>u. em_id u = k) (eager_user_recv_q s) = Some x"
    by (cases "find (\<lambda>u. em_id u = k) (eager_user_recv_q s)") (auto simp: find_None_iff)
  then have x': "em_id x = k" "x \<in> set (eager_user_recv_q s)" by (auto simp: find_Some_iff)
  with f x have fl: "em_flag x = RecvComplete" by (auto simp: ib_eager_finish_recv_def split: if_splits)
  with u(3) x'(2) obtain m where m: "m \<in> set (eager_ib_recv_q s)" "em_ptr x = Some (em_id m)" "em_flag m = RecvMatched"
    by (auto simp: linked_def)
  obtain us vs where us: "eager_user_recv_q s = us @ x # vs" using x'(2) by (meson split_list)
  obtain as bs where as: "eager_ib_recv_q s = as @ m # bs" using m(1) by (meson split_list)
  let ?s = "s\<lparr>eager_user_recv_q := us @ vs, eager_ib_recv_q := as @ bs\<rparr>"
  have fu: "filter (\<lambda>u. em_id u \<noteq> k) (eager_user_recv_q s) = us @ vs"
    using filter_out_id [OF u(2) [unfolded us]] us x'(1) by simp
  have "filter (\<lambda>x. em_id m \<noteq> em_id x) (eager_ib_recv_q s) = filter (\<lambda>x. em_id x \<noteq> em_id m) (eager_ib_recv_q s)"
    by (intro filter_cong) auto
  then have fi: "filter (\<lambda>y. em_ptr x \<noteq> Some (em_id y)) (eager_ib_recv_q s) = as @ bs"
    using filter_out_id [OF u(1) [unfolded as]] as m(2) by simp
  have r: "r = Inr ?s" using f x fl m fu fi by (auto simp: ib_eager_finish_recv_def split: if_splits)
  have same: "waiting_ix (as @ bs) = waiting_ix (eager_ib_recv_q s)" "complete (as @ bs) = complete (eager_ib_recv_q s)"
    using as m(3) by simp_all
  have o: "eager_owed ?s = eager_owed s" "unreceived ?s = unreceived s" "transit ?s = transit s"
    using same by (simp_all add: eager_owed_def unreceived_def transit_def del: waiting_ix_simps complete_simps)
  have "flow_inv ?s" using core(2) o by (simp add: flow_inv_def)
  moreover have "sorted_wrt (\<lambda>x y. em_flag x = WaitingRecv \<longrightarrow> em_flag y = WaitingRecv) (as @ m # bs)" using core(3) as by (simp add: buf_inv_def)
  then have "sorted_wrt (\<lambda>x y. em_flag x = WaitingRecv \<longrightarrow> em_flag y = WaitingRecv) (as @ bs)" by (rule sorted_wrt_drop)
  then have "buf_inv ?s" using core(3) same by (simp add: buf_inv_def del: waiting_ix_simps complete_simps)
  moreover have "no_missed (as @ bs) (us @ vs)" using u(4) same us by (simp add: no_missed_def del: complete_simps)
  then have "user_inv ?s" using u us as linked_drop [OF u(3) [unfolded us as] fl m(2)] by (auto simp: user_inv_def intro: ids_ok_drop)
  moreover have "tx_inv ?s" by (rule tx_inv_mono [OF tx]) (use o in simp_all)
  ultimately have "eager_inv ?s" using core(1) by (simp add: eager_inv_def core_inv_def)
  moreover have "mb_step ov (mailbox_of s) (mailbox_of ?s)"
    using mb_done [of "mailbox_of s" "map recv_view us" "em_id x" "em_nbytes x" "em_tag x" "em_data x" "map recv_view vs" ov] us fl same(2) o(3)
    by (simp add: mailbox_parts recv_view_def del: complete_simps)
  ultimately show ?thesis using r by blast
qed

section \<open>The adapter\<close>

lemma read_buffer_ok:
  assumes inv: "eager_inv s" and h: "hca_sends s \<noteq> []"
  shows "eager_inv (hca_read_buffer s) \<and> mailbox_of (hca_read_buffer s) = mailbox_of s"
proof -
  obtain k ks where k: "hca_sends s = k # ks" using h by (cases "hca_sends s") auto
  let ?s = "hca_read_buffer s"
  have o: "eager_owed ?s = eager_owed s" "unreceived ?s = unreceived s" "transit ?s = transit s"
    using k by (simp_all add: hca_read_buffer_def eager_owed_def unreceived_def transit_def)
  have "eager_slots (eager_next_send_buffer ?s) (hca_sends ?s)" "flow_inv ?s" "buf_inv ?s" "user_inv ?s"
    using inv o slots_read by (auto simp: eager_inv_def core_inv_def hca_read_buffer_def flow_inv_def buf_inv_def user_inv_def)
  moreover have "tx_inv ?s" by (rule tx_inv_mono [of s]) (use inv o in \<open>simp_all add: eager_inv_def hca_read_buffer_def\<close>)
  ultimately show ?thesis using o by (simp add: eager_inv_def core_inv_def mailbox_parts) (simp add: hca_read_buffer_def)
qed

text \<open>A message that arrives finds a buffer.\<close>

lemma deliver_ok:
  assumes inv: "eager_inv s" and h: "hca_wire s \<noteq> []"
  shows "\<exists>s'. hca_deliver s = Inr s' \<and> eager_inv s' \<and> mailbox_of s' = mailbox_of s"
proof -
  obtain w ws where w: "hca_wire s = w # ws" using h by (cases "hca_wire s") auto
  have core: "eager_slots (eager_next_send_buffer s) (hca_sends s)" "flow_inv s" "buf_inv s" "user_inv s" and tx: "tx_inv s"
    using inv by (auto simp: eager_inv_def core_inv_def)
  let ?W = "waiting_ix (eager_ib_recv_q s)"
  have b: "hca_recvs s = drop (hca_arrived s) ?W" "length ?W + length (complete (eager_ib_recv_q s)) = 4"
    "distinct (?W @ map em_index (complete (eager_ib_recv_q s)))" using core(3) by (simp_all add: buf_inv_def)
  have "unreceived s \<le> 4" using counters_out core(2) by (fastforce simp: flow_inv_def)
  then have lt: "hca_arrived s < length ?W" using b(2) w by (simp add: unreceived_def)
  then have r: "hca_recvs s = ?W ! hca_arrived s # drop (hca_arrived s + 1) ?W" using b(1) by (simp add: Cons_nth_drop_Suc)
  let ?b = "?W ! hca_arrived s"
  let ?s = "s\<lparr>eager_recv_buffers := (eager_recv_buffers s)(?b := w), hca_wire := ws, hca_recvs := drop (hca_arrived s + 1) ?W,
     hca_sent := hca_sent s + 1, hca_arrived := hca_arrived s + 1\<rparr>"
  have t: "take (hca_arrived s + 1) ?W = take (hca_arrived s) ?W @ [?b]" using lt by (simp add: take_Suc_conv_app_nth)
  have "distinct (take (hca_arrived s + 1) ?W)" using b(3) by simp
  then have nb: "?b \<notin> set (take (hca_arrived s) ?W)" unfolding t by simp
  have "?b \<in> set ?W" using lt by simp
  then have "?b \<notin> em_index ` set (complete (eager_ib_recv_q s))" using b(3) by auto
  then have nc: "\<forall>m \<in> set (complete (eager_ib_recv_q s)). em_index m \<noteq> ?b" by (metis imageI)
  have o: "eager_owed ?s = eager_owed s" "unreceived ?s = unreceived s"
    using w by (simp_all add: eager_owed_def unreceived_def)
  have tr: "transit ?s = transit s" using t nb w by (simp add: transit_def)
  have "flow_inv ?s" using core(2) o by (simp add: flow_inv_def)
  moreover have "buf_inv ?s" using core(3) lt nc by (auto simp: buf_inv_def)
  moreover have "user_inv ?s" using core(4) by (simp add: user_inv_def)
  moreover have "tx_inv ?s" by (rule tx_inv_mono [OF tx]) (use o in simp_all)
  moreover have "mailbox_of ?s = mailbox_of s" using tr nc by (auto simp: mailbox_parts)
  ultimately show ?thesis using core(1) r w by (intro exI [of _ ?s]) (simp add: eager_inv_def core_inv_def hca_deliver_def)
qed

lemma read_counter_ok:
  assumes "eager_inv s"
  shows "eager_inv (hca_read_counter s) \<and> mailbox_of (hca_read_counter s) = mailbox_of s"
proof -
  have "flow_inv (hca_read_counter s)" using assms counters_read
    by (auto simp: eager_inv_def core_inv_def flow_inv_def hca_read_counter_def eager_owed_def unreceived_def)
  moreover have "tx_inv (hca_read_counter s)"
    by (rule tx_inv_mono [of s]) (use assms in \<open>simp_all add: eager_inv_def hca_read_counter_def eager_owed_def\<close>)
  ultimately show ?thesis using assms
    by (simp add: eager_inv_def core_inv_def buf_inv_def user_inv_def hca_read_counter_def mailbox_parts transit_def)
qed

lemma write_counter_ok:
  assumes "eager_inv s" and "hca_writes s \<noteq> []"
  shows "eager_inv (hca_write_counter s) \<and> mailbox_of (hca_write_counter s) = mailbox_of s"
proof -
  have "flow_inv (hca_write_counter s)" using assms counters_write
    by (auto simp: eager_inv_def core_inv_def flow_inv_def hca_write_counter_def eager_owed_def unreceived_def)
  moreover have "tx_inv (hca_write_counter s)"
    by (rule tx_inv_mono [of s]) (use assms in \<open>simp_all add: eager_inv_def hca_write_counter_def eager_owed_def\<close>)
  ultimately show ?thesis using assms
    by (simp add: eager_inv_def core_inv_def buf_inv_def user_inv_def hca_write_counter_def mailbox_parts transit_def)
qed

section \<open>All interleavings\<close>

lemma eager_step_ok:
  assumes "eager_step ov s r" and "eager_inv s"
  shows "\<exists>s'. r = Inr s' \<and> eager_inv s' \<and> (mb_step ov)\<^sup>*\<^sup>* (mailbox_of s) (mailbox_of s')"
  using assms
proof cases
  case (asend tag data)
  then show ?thesis using asend_ok [OF assms(2)] by blast
next
  case (wait_send_post k s')
  then show ?thesis using finish_post_ok [OF assms(2)] by blast
next
  case (wait_send_done k s')
  then show ?thesis using finish_done_ok [OF assms(2)] by fastforce
next
  case handle_send
  then show ?thesis using handle_send_ok [OF assms(2)] by fastforce
next
  case (arecv nbytes tag)
  then show ?thesis using arecv_ok [OF assms(2), of nbytes tag ov] by (metis r_into_rtranclp)
next
  case handle_recv
  then show ?thesis using handle_recv_ok [OF assms(2), of ov] by (metis r_into_rtranclp)
next
  case (wait_recv k)
  then show ?thesis using finish_recv_ok [OF assms(2), of k r ov] by (metis r_into_rtranclp)
next
  case read_buffer
  then show ?thesis using read_buffer_ok [OF assms(2)] by fastforce
next
  case deliver
  then show ?thesis using deliver_ok [OF assms(2)] by fastforce
next
  case read_counter
  then show ?thesis using read_counter_ok [OF assms(2)] by fastforce
next
  case write_counter
  then show ?thesis using write_counter_ok [OF assms(2)] by fastforce
qed

definition eager_start :: eager where
  "eager_start = (case eager_init of Inr s \<Rightarrow> s | Inl e \<Rightarrow> eager_unposted)"

lemma eager_start: "eager_init = Inr eager_start"
  and eager_start_eq: "eager_start = eager_unposted\<lparr>eager_recv_buffer_in_use := eager_recv_buffer_in_use eager_start,
    hca_recvs := [0, 1, 2, 3], eager_ib_recv_q := [posted_recv 0 0, posted_recv 1 1, posted_recv 2 2, posted_recv 3 3], next_id := 4\<rparr>"
  and eager_start_in_use: "\<forall>b < 4. eager_recv_buffer_in_use eager_start b"
  by (auto simp: eager_start_def eager_init_def EAGER_BUFFERS_PER_NODE_def eval_nat_numeral ib_post_eager_recv_def upt_rec
    eager_unposted_def posted_recv_def less_Suc_eq)

lemma eager_start_simps:
  "eager_send_q eager_start = []" "eager_sends eager_start = 0" "eager_loc_send_freed eager_start = 4" "eager_rem_recv_freed eager_start = 4"
  "eager_loc_recv_freed eager_start = 4" "eager_next_send_buffer eager_start = 0" "eager_user_recv_q eager_start = []"
  "eager_ib_recv_q eager_start = [posted_recv 0 0, posted_recv 1 1, posted_recv 2 2, posted_recv 3 3]"
  "hca_sends eager_start = []" "hca_wire eager_start = []" "hca_sent eager_start = 0" "hca_recvs eager_start = [0, 1, 2, 3]"
  "hca_arrived eager_start = 0" "hca_updates eager_start = 0" "hca_writes eager_start = []" "next_id eager_start = 4"
  by (subst eager_start_eq; simp add: eager_unposted_def EAGER_BUFFERS_PER_NODE_def)+

lemma eager_start_inv: "eager_inv eager_start"
proof -
  have "eager_owed eager_start = 0" "unreceived eager_start = 0"
    by (simp_all add: eager_start_simps eager_owed_def unreceived_def)
  then have "flow_inv eager_start"
    unfolding flow_inv_def counters_def
    by (intro exI [of _ 0] exI [of _ "[]"]) (simp add: eager_start_simps wrapm_def INT_MAX_def)
  moreover have "eager_slots (eager_next_send_buffer eager_start) (hca_sends eager_start)" "tx_inv eager_start"
    by (simp_all add: eager_start_simps eager_slots_def last_slots_def tx_inv_def eager_owed_def)
  moreover have "buf_inv eager_start" using eager_start_in_use
    by (auto simp: eager_start_simps buf_inv_def)
  moreover have "user_inv eager_start"
    by (simp add: eager_start_simps user_inv_def ids_ok_def linked_def no_missed_def)
  ultimately show ?thesis by (simp add: eager_inv_def core_inv_def)
qed

lemma run_ok:
  assumes "eager_run ov eager_start r"
  shows "\<exists>s. r = Inr s \<and> eager_inv s \<and> (mb_step ov)\<^sup>*\<^sup>* (mailbox_of eager_start) (mailbox_of s)"
  using assms
proof (induction eager_start r)
  case eager_refl
  show ?case using eager_start_inv by blast
next
  case (eager_more s' r)
  then have s': "eager_inv s'" "(mb_step ov)\<^sup>*\<^sup>* (mailbox_of eager_start) (mailbox_of s')" by auto
  from eager_step_ok [OF eager_more.hyps(3) s'(1)] obtain s where "r = Inr s" "eager_inv s" "(mb_step ov)\<^sup>*\<^sup>* (mailbox_of s') (mailbox_of s)"
    by blast
  moreover from s'(2) this(3) have "(mb_step ov)\<^sup>*\<^sup>* (mailbox_of eager_start) (mailbox_of s)" by (rule rtranclp_trans)
  ultimately show ?case by blast
qed


text \<open>One message is sent and received.\<close>

lemma eager_steps: "eager_run ov s (Inr s') \<Longrightarrow> eager_step ov s' (Inr s'') \<Longrightarrow> eager_run ov s (Inr s'')"
  by (rule eager_more)


section \<open>Who a sender waits for\<close>

text \<open>The adapter has nothing left to do, and all completions have been handled; what \<open>ib_cleanup\<close> waits for.\<close>

definition quiet :: "eager \<Rightarrow> bool" where
  "quiet s \<longleftrightarrow> hca_sends s = [] \<and> hca_wire s = [] \<and> hca_sent s = 0 \<and> hca_arrived s = 0 \<and> hca_updates s = 0 \<and> hca_writes s = []"

definition cleanup_may_go_on :: "eager \<Rightarrow> bool" where
  "cleanup_may_go_on s \<longleftrightarrow> ADD_WITH_WRAP (eager_sends s) (int EAGER_BUFFERS_PER_NODE) = eager_rem_recv_freed s"

lemma counters_room:
  assumes "counters sends loc rem freed writes 0 0 uns" and "writes = []" and "sends = loc \<or> sends = rem"
  shows "uns = 4"
proof -
  from assms(1,2) obtain n d where c: "sends = wrapm n" "loc = wrapm (n + 4)" "rem = wrapm (n + 4 - uns - d)" "d = 0" "0 \<le> uns" "uns \<le> 4"
    unfolding counters_def by auto
  from assms(3) show ?thesis
  proof
    assume "sends = loc"
    then show ?thesis using wrap_close [of 4 n] c by simp
  next
    assume "sends = rem"
    then have "wrapm n = wrapm (n + (4 - uns))" using c(1,3,4) by (simp add: add_diff_eq)
    then show ?thesis using wrap_close [of "4 - uns" n] c(5,6) by simp
  qed
qed

lemma counters_drained:
  assumes "counters sends loc rem freed writes updates out uns"
  shows "ADD_WITH_WRAP sends 4 = rem \<Longrightarrow> uns = 0" and "updates = 0 \<Longrightarrow> writes = [] \<Longrightarrow> uns = 0 \<Longrightarrow> ADD_WITH_WRAP sends 4 = rem"
proof -
  from assms obtain n d ds where c: "sends = wrapm n" "rem = wrapm (n + 4 - uns - d)" "0 \<le> d" "0 \<le> uns" "uns + d \<le> 4"
    "writes = map (\<lambda>d. wrapm (n + 4 - uns - d)) ds" "updates = 0 \<longrightarrow> last (d # ds) = 0" unfolding counters_def by auto
  have e: "ADD_WITH_WRAP sends 4 = wrapm (n + 4)" using add_wrap [of 4 n] c(1) by (simp add: INT_MAX_def)
  show "uns = 0" if "ADD_WITH_WRAP sends 4 = rem"
  proof -
    have "wrapm (n + 4 - uns - d) = wrapm ((n + 4 - uns - d) + (uns + d))" using that e c(2) by simp
    then have "uns + d = 0" using wrap_close [of "uns + d" "n + 4 - uns - d"] c(3-5) by simp
    with c(3,4) show ?thesis by simp
  qed
  show "ADD_WITH_WRAP sends 4 = rem" if "updates = 0" "writes = []" "uns = 0"
    using that c e by simp
qed

text \<open>
  C21.  When the adapter has nothing left to do and all completions have been handled, a sender finds no room
  only if its four buffers hold messages at the receiver that nobody has asked for; and
  \<open>ib_cleanup\<close> goes on only when every message that was sent has been received.
\<close>

theorem eager_sender_waits:
  assumes "eager_run ov eager_start (Inr s)"
  shows "(quiet s \<and> \<not> eager_room s \<longrightarrow> length (mb_unread (mailbox_of s)) = EAGER_BUFFERS_PER_NODE)
    \<and> (cleanup_may_go_on s \<longrightarrow> mb_transit (mailbox_of s) = [] \<and> mb_unread (mailbox_of s) = [])
    \<and> (quiet s \<and> mb_unread (mailbox_of s) = [] \<longrightarrow> cleanup_may_go_on s)"
proof -
  have inv: "eager_inv s" using run_ok [OF assms] by auto
  have c: "counters (eager_sends s) (eager_loc_send_freed s) (eager_rem_recv_freed s) (eager_loc_recv_freed s)
     (hca_writes s) (hca_updates s) (int (eager_owed s)) (int (unreceived s))"
    using inv by (simp add: eager_inv_def core_inv_def flow_inv_def)
  have "length (mb_unread (mailbox_of s)) = 4" if "quiet s" "\<not> eager_room s"
    using counters_room [of "eager_sends s" "eager_loc_send_freed s" "eager_rem_recv_freed s" "eager_loc_recv_freed s" "hca_writes s" "int (unreceived s)"] c that
    by (auto simp: quiet_def eager_room_def eager_owed_def unreceived_def mailbox_parts)
  moreover have "mb_transit (mailbox_of s) = [] \<and> mb_unread (mailbox_of s) = []" if "cleanup_may_go_on s"
  proof -
    have "unreceived s = 0" using counters_drained(1) [OF c] that by (simp add: cleanup_may_go_on_def EAGER_BUFFERS_PER_NODE_def)
    then show ?thesis by (simp add: unreceived_def mailbox_parts transit_def)
  qed
  moreover have "cleanup_may_go_on s" if "quiet s" "mb_unread (mailbox_of s) = []"
    using counters_drained(2) [OF c] that
    by (auto simp: cleanup_may_go_on_def EAGER_BUFFERS_PER_NODE_def quiet_def unreceived_def mailbox_parts)
  ultimately show ?thesis by (auto simp: EAGER_BUFFERS_PER_NODE_def)
qed

theorem eager_sender_waits_witness:
  "cleanup_may_go_on eager_start \<and> mb_transit (mailbox_of eager_start) = []"
proof -
  have "quiet eager_start \<and> mb_unread (mailbox_of eager_start) = []"
    by (simp add: quiet_def mailbox_parts eager_start_simps)
  with eager_sender_waits [OF eager_refl] show ?thesis by blast
qed

section \<open>Waiting out of order\<close>

text \<open>The steps as a function, to run examples.\<close>

datatype eager_act = ASend int "8 word list" | WaitSend nat | HandleSend | ARecv int int | HandleRecv
  | ReadBuffer | Deliver | ReadCounter | WriteCounter

fun eager_do :: "eager_act \<Rightarrow> eager \<Rightarrow> eager outcome option" where
  "eager_do (ASend tag data) s = Some (Inr (ib_eager_asend tag data s))"
| "eager_do (WaitSend k) s = map_option Inr (finish_send_post k s)"
| "eager_do HandleSend s = (if 0 < hca_sent s then Some (ib_eager_handle_send (s\<lparr>hca_sent := hca_sent s - 1\<rparr>)) else None)"
| "eager_do (ARecv nbytes tag) s = Some (ib_eager_arecv nbytes tag s)"
| "eager_do HandleRecv s = (if 0 < hca_arrived s then Some (ib_eager_handle_recv (s\<lparr>hca_arrived := hca_arrived s - 1\<rparr>)) else None)"
| "eager_do ReadBuffer s = (if hca_sends s \<noteq> [] then Some (Inr (hca_read_buffer s)) else None)"
| "eager_do Deliver s = (if hca_wire s \<noteq> [] then Some (hca_deliver s) else None)"
| "eager_do ReadCounter s = (if 0 < hca_updates s then Some (Inr (hca_read_counter s)) else None)"
| "eager_do WriteCounter s = (if hca_writes s \<noteq> [] then Some (Inr (hca_write_counter s)) else None)"

fun eager_acts :: "eager_act list \<Rightarrow> eager \<Rightarrow> eager option" where
  "eager_acts [] s = Some s"
| "eager_acts (a # as) s = (case eager_do a s of Some (Inr s') \<Rightarrow> eager_acts as s' | _ \<Rightarrow> None)"

lemma do_step: "eager_do a s = Some r \<Longrightarrow> eager_step True s r"
  by (cases a) (auto intro: eager_step.intros split: if_splits simp del: One_nat_def)

lemma acts_run: "eager_acts as s' = Some s'' \<Longrightarrow> eager_run True s (Inr s') \<Longrightarrow> eager_run True s (Inr s'')"
  by (induction as s' rule: eager_acts.induct) (auto split: option.splits sum.splits intro: eager_more do_step)

definition six_sends :: "eager_act list" where
  "six_sends = map (\<lambda>i. ASend 7 [of_nat i]) [1..<7] @ [ReadBuffer, Deliver, HandleSend, HandleRecv, ARecv 8 7, ReadCounter, WriteCounter, WaitSend 9]"

text \<open>
  C22.  Six messages with one tag are sent, the last two are queued.  When the program waits for the sixth before
  the fifth, the sixth is posted as soon as there is room, and overtakes the fifth, which is still
  queued.
\<close>

theorem eager_wait_overtakes:
  "\<exists>s. eager_run True eager_start (Inr s) \<and> mb_queued (mailbox_of s) = [(8, (7, [5]))]
     \<and> mb_transit (mailbox_of s) = [(7, [2]), (7, [3]), (7, [4]), (7, [6])]"
proof -
  have "map_option (\<lambda>s. (mb_queued (mailbox_of s), mb_transit (mailbox_of s))) (eager_acts six_sends eager_start)
     = Some ([(8, (7, [5]))], [(7, [2]), (7, [3]), (7, [4]), (7, [6])])"
    by code_simp
  then obtain s where "eager_acts six_sends eager_start = Some s" "mb_queued (mailbox_of s) = [(8, (7, [5]))]"
    "mb_transit (mailbox_of s) = [(7, [2]), (7, [3]), (7, [4]), (7, [6])]" by auto
  with acts_run [OF _ eager_refl] show ?thesis by blast
qed

end
