(* ===== verification/IbRndzv.thy ===== *)
theory IbRndzv
  imports IbEagerFlow
begin

text \<open>
  The rendezvous messages of \<open>MP_Lite/ib.c\<close>, from one process to another: the receiver sends a
  ready-to-receive message (RTR) with the address of its buffer and a transaction number, the sender
  writes the data to that address with the number as immediate data.  The adapter is a queue of writes; its steps
  and the handlers of completions come between any two operations of the programs.
\<close>

section \<open>Transaction numbers\<close>

definition MP_TRANS_ID_SPACE :: nat where "MP_TRANS_ID_SPACE = 512"
definition MP_TRANS_MIN_ID :: nat where "MP_TRANS_MIN_ID = 1"

text \<open>The loop of \<open>ib_get_trans_id\<close>; it is given as many rounds as there are numbers.\<close>

fun trans_id_loop :: "nat \<Rightarrow> (nat \<Rightarrow> bool) \<Rightarrow> nat \<Rightarrow> nat \<Rightarrow> nat outcome option" where
  "trans_id_loop 0 used lst cid = None"
| "trans_id_loop (Suc f) used lst cid =
     (if cid = lst then Some (Inl Exit)
      else if \<not> used cid then Some (Inr cid)
      else trans_id_loop f used lst ((cid + 1) mod MP_TRANS_ID_SPACE))"

text \<open>The list of used numbers, the number used last; the result is the number that is sent.\<close>

definition ib_get_trans_id :: "(nat \<Rightarrow> bool) \<Rightarrow> nat \<Rightarrow> (nat \<times> (nat \<Rightarrow> bool) \<times> nat) outcome option" where
  "ib_get_trans_id used cur = map_option (\<lambda>r. obind r (\<lambda>c. Inr (MP_TRANS_MIN_ID + c, used(c := True), c)))
     (trans_id_loop MP_TRANS_ID_SPACE used cur ((cur + 1) mod MP_TRANS_ID_SPACE))"

definition ib_free_trans_id :: "(nat \<Rightarrow> bool) \<Rightarrow> nat \<Rightarrow> nat \<Rightarrow> bool" where
  "ib_free_trans_id used t = used(t - MP_TRANS_MIN_ID := False)"

section \<open>State\<close>

text \<open>
  An entry of \<open>rndzv_send_q\<close>: a message of the user, or, with no buffer, an RTR that came
  first; \<open>rs_index\<close> is then its transaction number (otherwise \<open>-1\<close>) and \<open>rs_dest\<close> the address of the receiver's buffer.
\<close>

record rndzv_send =
  rs_id :: nat
  rs_tag :: int
  rs_nbytes :: int
  rs_buf :: "8 word list option"
  rs_index :: int
  rs_dest :: nat
  rs_done :: bool

text \<open>An entry of \<open>rndzv_recv_q\<close>; \<open>rr_id\<close> stands for the address of the user's buffer.\<close>

record rndzv_recv =
  rr_id :: nat
  rr_tag :: int
  rr_nbytes :: int
  rr_index :: int
  rr_done :: bool

record rtr_msg =
  rt_addr :: nat
  rt_tag :: int
  rt_nbytes :: int
  rt_trans :: nat

text \<open>
  The sender: its queue, the queue \<open>rndzv_posted2ib_q\<close> with the pointers \<open>mnext\<close>, the area for
  incoming RTRs, and the receives it has posted to the adapter.  The receiver: its queue, the transaction
  numbers, the acknowledgement, the outgoing RTR, its posted receives and the memory of its users.  The adapter: writes of
  RTRs posted and arrived, acknowledgements on their way, writes of data (message, address,
  data, number), completions of these writes on both sides.
\<close>

record rndzv =
  rz_send_q :: "rndzv_send list"
  rz_posted :: "nat option"
  rz_mnext :: "nat \<Rightarrow> nat option"
  rz_msgs_in :: rtr_msg
  rz_send_rr :: nat
  rz_recv_q :: "rndzv_recv list"
  rz_used :: "nat \<Rightarrow> bool"
  rz_cur :: nat
  rz_ack :: bool
  rz_msgs_out :: rtr_msg
  rz_recv_rr :: nat
  rz_mem :: "nat \<Rightarrow> 8 word list option"
  rz_rtr_posted :: nat
  rz_rtr_arrived :: nat
  rz_acks :: nat
  rz_data :: "(nat \<times> nat \<times> 8 word list \<times> nat) list"
  rz_sent :: nat
  rz_landed :: "nat list"
  rz_next :: nat

section \<open>Operations\<close>

text \<open>\<open>post\<close> for the queue \<open>rndzv_posted2ib_q\<close>: it follows the pointers to the end.\<close>

partial_function (option) last_posted :: "(nat \<Rightarrow> nat option) \<Rightarrow> nat \<Rightarrow> nat option" where
  [code]: "last_posted mn p = (case mn p of None \<Rightarrow> Some p | Some q \<Rightarrow> last_posted mn q)"

definition post_rndzv :: "nat \<Rightarrow> rndzv \<Rightarrow> rndzv option" where
  "post_rndzv i s = (case rz_posted s of
     None \<Rightarrow> Some (s\<lparr>rz_posted := Some i\<rparr>)
   | Some p \<Rightarrow> map_option (\<lambda>l. s\<lparr>rz_mnext := (rz_mnext s)(l := Some i)\<rparr>) (last_posted (rz_mnext s) p))"

definition ib_rndzv_send_data :: "nat \<Rightarrow> 8 word list \<Rightarrow> nat \<Rightarrow> nat \<Rightarrow> rndzv \<Rightarrow> rndzv" where
  "ib_rndzv_send_data i data t addr s = s\<lparr>rz_data := rz_data s @ [(i, addr, data, t)]\<rparr>"

definition user_send :: "nat \<Rightarrow> int \<Rightarrow> 8 word list \<Rightarrow> rndzv_send" where
  "user_send i tag data = \<lparr>rs_id = i, rs_tag = tag, rs_nbytes = int (length data), rs_buf = Some data, rs_index = -1,
     rs_dest = 0, rs_done = False\<rparr>"

text \<open>A receive of \<open>nbytes\<close> and \<open>tag\<close> accepts a message.\<close>

definition rz_accepts :: "int \<Rightarrow> int \<Rightarrow> int \<Rightarrow> int \<Rightarrow> bool" where
  "rz_accepts rbytes rtag nbytes tag \<longleftrightarrow> nbytes \<le> rbytes \<and> (tag = rtag \<or> rtag = -1)"

text \<open>\<open>None\<close> when the call does not return.\<close>

definition ib_rndzv_asend :: "int \<Rightarrow> 8 word list \<Rightarrow> rndzv \<Rightarrow> rndzv option" where
  "ib_rndzv_asend tag data s0 =
     (let m = user_send (rz_next s0) tag data; s = s0\<lparr>rz_next := rz_next s0 + 1, rz_mnext := (rz_mnext s0)(rz_next s0 := None)\<rparr> in
      case change_first (\<lambda>c. rs_index c \<noteq> -1 \<and> rz_accepts (rs_nbytes c) (rs_tag c) (rs_nbytes m) tag) (\<lambda>_. m) (rz_send_q s) of
        None \<Rightarrow> Some (s\<lparr>rz_send_q := rz_send_q s @ [m]\<rparr>)
      | Some (c, q) \<Rightarrow> map_option (\<lambda>s'. (ib_rndzv_send_data (rs_id m) data (nat (rs_index c)) (rs_dest c) s')\<lparr>rz_send_q := q\<rparr>)
          (post_rndzv (rs_id m) s))"

text \<open>\<open>ib_post_rndzv_recv\<close> at the receiver and at the sender.\<close>

definition ib_post_rndzv_recv :: "rndzv \<Rightarrow> rndzv" where
  "ib_post_rndzv_recv s = s\<lparr>rz_recv_rr := rz_recv_rr s + 1\<rparr>"

definition sender_post_rndzv_recv :: "rndzv \<Rightarrow> rndzv" where
  "sender_post_rndzv_recv s = s\<lparr>rz_send_rr := rz_send_rr s + 1\<rparr>"

definition ib_rndzv_send_rtr_msg :: "nat \<Rightarrow> int \<Rightarrow> int \<Rightarrow> nat \<Rightarrow> rndzv \<Rightarrow> rndzv" where
  "ib_rndzv_send_rtr_msg addr tag nbytes t s = s\<lparr>
     rz_msgs_out := \<lparr>rt_addr = addr, rt_tag = tag, rt_nbytes = nbytes, rt_trans = t\<rparr>, rz_rtr_posted := rz_rtr_posted s + 1\<rparr>"

definition ib_rndzv_send_rtr_ack :: "rndzv \<Rightarrow> rndzv" where
  "ib_rndzv_send_rtr_ack s = s\<lparr>rz_acks := rz_acks s + 1\<rparr>"

lemmas rndzv_posts = ib_post_rndzv_recv_def sender_post_rndzv_recv_def ib_rndzv_send_rtr_msg_def ib_rndzv_send_rtr_ack_def

text \<open>
  The call returns once the last RTR has been acknowledged; what it does before and after this wait is one
  step here.
\<close>

definition ib_rndzv_arecv :: "int \<Rightarrow> int \<Rightarrow> rndzv \<Rightarrow> rndzv outcome option" where
  "ib_rndzv_arecv nbytes tag s =
     (if \<not> rz_ack s then None
      else map_option (\<lambda>r. obind r (\<lambda>(t, used, cur). Inr (ib_rndzv_send_rtr_msg (rz_next s) tag nbytes t ((ib_post_rndzv_recv s)\<lparr>
          rz_used := used, rz_cur := cur,
          rz_recv_q := rz_recv_q s @ [\<lparr>rr_id = rz_next s, rr_tag = tag, rr_nbytes = nbytes, rr_index = int t, rr_done = False\<rparr>],
          rz_ack := False, rz_next := rz_next s + 1\<rparr>))))
        (ib_get_trans_id (rz_used s) (rz_cur s)))"

text \<open>\<open>ib_rndzv_handle_recv\<close> for an RTR.\<close>

definition handle_rtr :: "rndzv \<Rightarrow> rndzv option" where
  "handle_rtr s0 =
     (let r = rz_msgs_in s0; s = ib_rndzv_send_rtr_ack (sender_post_rndzv_recv s0)
      in case find (\<lambda>m. rs_buf m \<noteq> None \<and> \<not> rs_done m \<and> rz_accepts (rt_nbytes r) (rt_tag r) (rs_nbytes m) (rs_tag m)) (rz_send_q s) of
           None \<Rightarrow> Some (s\<lparr>rz_send_q := rz_send_q s @ [\<lparr>rs_id = rz_next s, rs_tag = rt_tag r, rs_nbytes = rt_nbytes r, rs_buf = None,
               rs_index = int (rt_trans r), rs_dest = rt_addr r, rs_done = False\<rparr>], rz_next := rz_next s + 1\<rparr>)
         | Some m \<Rightarrow> map_option (ib_rndzv_send_data (rs_id m) (the (rs_buf m)) (rt_trans r) (rt_addr r)) (post_rndzv (rs_id m) s))"

text \<open>\<open>ib_rndzv_handle_recv\<close> for the data of the transaction \<open>t\<close>.\<close>

definition handle_data :: "nat \<Rightarrow> rndzv \<Rightarrow> rndzv outcome" where
  "handle_data t s = (case change_first (\<lambda>r. rr_index r = int t) (rr_done_update (\<lambda>_. True)) (rz_recv_q s) of
     None \<Rightarrow> Inl Exit
   | Some (r, q) \<Rightarrow> Inr (s\<lparr>rz_recv_q := q, rz_used := ib_free_trans_id (rz_used s) t\<rparr>))"

definition ib_rndzv_handle_send :: "rndzv \<Rightarrow> rndzv outcome" where
  "ib_rndzv_handle_send s = (case rz_posted s of
     None \<Rightarrow> Inl Exit
   | Some i \<Rightarrow> Inr (s\<lparr>rz_send_q := map (\<lambda>m. if rs_id m = i then m\<lparr>rs_done := True\<rparr> else m) (rz_send_q s),
       rz_posted := rz_mnext s i\<rparr>))"

text \<open>\<open>ib_rndzv_finish\<close> for a send and for a receive, once they are complete.\<close>

definition finish_rndzv_send :: "nat \<Rightarrow> rndzv \<Rightarrow> rndzv option" where
  "finish_rndzv_send i s = (if \<exists>m \<in> set (rz_send_q s). rs_id m = i \<and> rs_done m
     then Some (s\<lparr>rz_send_q := filter (\<lambda>m. rs_id m \<noteq> i) (rz_send_q s)\<rparr>) else None)"

definition finish_rndzv_recv :: "nat \<Rightarrow> rndzv \<Rightarrow> rndzv option" where
  "finish_rndzv_recv i s = (if \<exists>r \<in> set (rz_recv_q s). rr_id r = i \<and> rr_done r
     then Some (s\<lparr>rz_recv_q := filter (\<lambda>r. rr_id r \<noteq> i) (rz_recv_q s)\<rparr>) else None)"

text \<open>
  The adapter writes an RTR into the area at the sender, an acknowledgement, or data; a write with
  immediate data uses up a posted receive.
\<close>

definition hca_rtr :: "rndzv \<Rightarrow> rndzv outcome" where
  "hca_rtr s = (if rz_send_rr s = 0 then Inl Exit
     else Inr (s\<lparr>rz_msgs_in := rz_msgs_out s, rz_send_rr := rz_send_rr s - 1, rz_rtr_posted := rz_rtr_posted s - 1,
       rz_rtr_arrived := rz_rtr_arrived s + 1\<rparr>))"

definition hca_ack :: "rndzv \<Rightarrow> rndzv" where
  "hca_ack s = s\<lparr>rz_ack := True, rz_acks := rz_acks s - 1\<rparr>"

definition hca_data :: "rndzv \<Rightarrow> rndzv outcome" where
  "hca_data s = (if rz_recv_rr s = 0 then Inl Exit
     else (case hd (rz_data s) of (i, addr, data, t) \<Rightarrow>
       Inr (s\<lparr>rz_mem := (rz_mem s)(addr := Some data), rz_data := tl (rz_data s), rz_recv_rr := rz_recv_rr s - 1,
         rz_sent := rz_sent s + 1, rz_landed := rz_landed s @ [t]\<rparr>)))"

section \<open>All interleavings\<close>

definition rndzv_start :: rndzv where
  "rndzv_start = \<lparr>rz_send_q = [], rz_posted = None, rz_mnext = (\<lambda>_. None), rz_msgs_in = \<lparr>rt_addr = 0, rt_tag = 0, rt_nbytes = 0, rt_trans = 0\<rparr>,
     rz_send_rr = 1, rz_recv_q = [], rz_used = (\<lambda>_. False), rz_cur = 0, rz_ack = True,
     rz_msgs_out = \<lparr>rt_addr = 0, rt_tag = 0, rt_nbytes = 0, rt_trans = 0\<rparr>, rz_recv_rr = 1, rz_mem = (\<lambda>_. None),
     rz_rtr_posted = 0, rz_rtr_arrived = 0, rz_acks = 0, rz_data = [], rz_sent = 0, rz_landed = [], rz_next = 0\<rparr>"

text \<open>
  \<open>care\<close> restricts the interleavings: an RTR is handled only when the completions of all
  data sent before have been handled, no number of a receive that is still queued is used again, and the numbers
  suffice.  Without it, the relation holds the steps that the code allows.
\<close>

definition rndzv_act_ok :: "bool \<Rightarrow> rndzv \<Rightarrow> rndzv \<Rightarrow> bool" where
  "rndzv_act_ok care s s' \<longleftrightarrow> care \<longrightarrow> distinct (map rr_index (rz_recv_q s'))"

inductive rndzv_step :: "bool \<Rightarrow> rndzv \<Rightarrow> rndzv outcome \<Rightarrow> bool" for care where
  asend: "ib_rndzv_asend tag data s = Some s' \<Longrightarrow> rndzv_step care s (Inr s')"
| arecv: "ib_rndzv_arecv nbytes tag s = Some (Inr s') \<Longrightarrow> rndzv_act_ok care s s' \<Longrightarrow> rndzv_step care s (Inr s')"
| arecv_full: "ib_rndzv_arecv nbytes tag s = Some (Inl e) \<Longrightarrow> \<not> care \<Longrightarrow> rndzv_step care s (Inl e)"
| rtr: "0 < rz_rtr_arrived s \<Longrightarrow> care \<longrightarrow> rz_posted s = None \<Longrightarrow> handle_rtr (s\<lparr>rz_rtr_arrived := rz_rtr_arrived s - 1\<rparr>) = Some s' \<Longrightarrow>
    rndzv_step care s (Inr s')"
| data: "rz_landed s = t # ts \<Longrightarrow> rndzv_step care s (handle_data t (s\<lparr>rz_landed := ts\<rparr>))"
| sent: "0 < rz_sent s \<Longrightarrow> rndzv_step care s (ib_rndzv_handle_send (s\<lparr>rz_sent := rz_sent s - 1\<rparr>))"
| wait_send: "finish_rndzv_send i s = Some s' \<Longrightarrow> rndzv_step care s (Inr s')"
| wait_recv: "finish_rndzv_recv i s = Some s' \<Longrightarrow> rndzv_step care s (Inr s')"
| write_rtr: "0 < rz_rtr_posted s \<Longrightarrow> rndzv_step care s (hca_rtr s)"
| write_ack: "0 < rz_acks s \<Longrightarrow> rndzv_step care s (Inr (hca_ack s))"
| write_data: "rz_data s \<noteq> [] \<Longrightarrow> rndzv_step care s (hca_data s)"

inductive rndzv_run :: "bool \<Rightarrow> rndzv \<Rightarrow> rndzv outcome \<Rightarrow> bool" for care where
  rndzv_refl: "rndzv_run care s (Inr s)"
| rndzv_more: "rndzv_run care s (Inr s') \<Longrightarrow> rndzv_step care s' r \<Longrightarrow> rndzv_run care s r"

section \<open>The numbers in use\<close>

lemma trans_id_loop_result:
  assumes "cid < MP_TRANS_ID_SPACE" and "lst < MP_TRANS_ID_SPACE" and "(lst + MP_TRANS_ID_SPACE - cid) mod MP_TRANS_ID_SPACE < f"
  shows "(\<exists>c. trans_id_loop f used lst cid = Some (Inr c) \<and> c < MP_TRANS_ID_SPACE \<and> c \<noteq> lst \<and> \<not> used c)
    \<or> trans_id_loop f used lst cid = Some (Inl Exit)"
  using assms
proof (induction f arbitrary: cid)
  case (Suc f)
  show ?case
  proof (cases "cid = lst \<or> \<not> used cid")
    case True
    then show ?thesis using Suc.prems by auto
  next
    case False
    have "(lst + MP_TRANS_ID_SPACE - (cid + 1) mod MP_TRANS_ID_SPACE) mod MP_TRANS_ID_SPACE < f"
      using Suc.prems False by (auto simp: MP_TRANS_ID_SPACE_def mod_Suc mod_if split: if_splits)
    with Suc.IH [of "(cid + 1) mod MP_TRANS_ID_SPACE"] Suc.prems False show ?thesis by (simp add: MP_TRANS_ID_SPACE_def)
  qed
qed simp

end
