(* ===== verification/IbRndzvRuns.thy ===== *)
theory IbRndzvRuns
  imports IbRndzv
begin

text \<open>
  What holds of the rendezvous messages of \<open>IbRndzv\<close>: with care they implement an abstract rendezvous, and
  without it a message can be received twice and a handler need not return.
\<close>

section \<open>The queue of posted messages\<close>

fun posted_chain :: "(nat \<Rightarrow> nat option) \<Rightarrow> nat option \<Rightarrow> nat list \<Rightarrow> bool" where
  "posted_chain mn p [] = (p = None)"
| "posted_chain mn p (x # xs) = (p = Some x \<and> posted_chain mn (mn x) xs)"

lemma posted_chain_last: "posted_chain mn (Some p) (p # xs) \<Longrightarrow> last_posted mn p = Some (last (p # xs))"
proof (induction xs arbitrary: p)
  case Nil
  then show ?case by (subst last_posted.simps) simp
next
  case (Cons x xs)
  then show ?case by (subst last_posted.simps) auto
qed

lemma posted_chain_upd: "i \<notin> set xs \<Longrightarrow> posted_chain (mn(i := v)) p xs = posted_chain mn p xs"
  by (induction xs arbitrary: p) auto

lemma posted_chain_snoc:
  assumes "posted_chain mn p xs" and "distinct xs" and "xs \<noteq> []" and "i \<notin> set xs" and "mn i = None"
  shows "posted_chain (mn(last xs := Some i)) p (xs @ [i])"
  using assms
proof (induction xs arbitrary: p)
  case (Cons x xs)
  show ?case
  proof (cases xs)
    case Nil
    then show ?thesis using Cons.prems by auto
  next
    case (Cons y ys)
    then have "x \<noteq> last xs" using Cons.prems(2) by auto
    with Cons Cons.IH [of "mn x"] Cons.prems show ?thesis by auto
  qed
qed simp

lemma post_rndzv_ok:
  assumes "posted_chain (rz_mnext s) (rz_posted s) xs" and "distinct xs" and "i \<notin> set xs" and "rz_mnext s i = None"
  shows "\<exists>h mn. post_rndzv i s = Some (s\<lparr>rz_posted := h, rz_mnext := mn\<rparr>) \<and> posted_chain mn h (xs @ [i])
    \<and> (\<forall>j. j \<notin> set xs \<longrightarrow> mn j = rz_mnext s j)"
proof (cases xs)
  case Nil
  then show ?thesis using assms
    by (intro exI [of _ "Some i"] exI [of _ "rz_mnext s"]) (simp add: post_rndzv_def)
next
  case (Cons x ys)
  then have p: "rz_posted s = Some x" "last_posted (rz_mnext s) x = Some (last xs)"
    using assms(1) posted_chain_last [of "rz_mnext s" x ys] by simp_all
  have c: "posted_chain ((rz_mnext s)(last xs := Some i)) (Some x) (xs @ [i])"
    using posted_chain_snoc [OF assms(1,2) _ assms(3,4)] Cons p(1) by simp
  have l: "last xs \<in> set xs" using Cons by simp
  show ?thesis
    by (intro exI [of _ "Some x"] exI [of _ "(rz_mnext s)(last xs := Some i)"] conjI)
      (use p c l in \<open>auto simp: post_rndzv_def\<close>)
qed

text \<open>A pointer from a message to itself is followed for ever.\<close>

lemma last_posted_end:
  assumes "last_posted mn p = Some l"
  shows "mn l = None \<and> (mn p = Some p \<longrightarrow> l = p)"
proof (rule last_posted.raw_induct [where P = "\<lambda>mn p l. mn l = None \<and> (mn p = Some p \<longrightarrow> l = p)", OF _ assms])
  fix f :: "(nat \<Rightarrow> nat option) \<Rightarrow> nat \<Rightarrow> nat option" and mn p l
  assume "\<And>mn p l. f mn p = Some l \<Longrightarrow> mn l = None \<and> (mn p = Some p \<longrightarrow> l = p)"
    and "(case mn p of None \<Rightarrow> Some p | Some q \<Rightarrow> f mn q) = Some l"
  then show "mn l = None \<and> (mn p = Some p \<longrightarrow> l = p)" by (auto split: option.splits)
qed

lemma last_posted_cycle: "mn p = Some p \<Longrightarrow> last_posted mn p = None"
  using last_posted_end [of mn p] by (cases "last_posted mn p") auto

section \<open>The abstract rendezvous\<close>

text \<open>
  Messages that no receive has been matched with; receives announced to the sender; the receive that is being
  announced; and what is or will be in the buffer of a receive.
\<close>

record rm_state =
  rm_pending :: "(nat \<times> int \<times> 8 word list) list"
  rm_ready :: "(nat \<times> int \<times> int) list"
  rm_coming :: "(nat \<times> int \<times> int) list"
  rm_got :: "nat \<Rightarrow> 8 word list option"

definition meets :: "nat \<times> int \<times> int \<Rightarrow> nat \<times> int \<times> 8 word list \<Rightarrow> bool" where
  "meets r m \<longleftrightarrow> (case (r, m) of ((a, n, rt), (i, t, d)) \<Rightarrow> rz_accepts n rt (int (length d)) t)"

inductive rm_step :: "rm_state \<Rightarrow> rm_state \<Rightarrow> bool" where
  rm_queue: "\<forall>r \<in> set (rm_ready m). \<not> meets r (i, t, d) \<Longrightarrow> rm_step m (m\<lparr>rm_pending := rm_pending m @ [(i, t, d)]\<rparr>)"
| rm_send: "rm_ready m = xs @ (a, n, rt) # ys \<Longrightarrow> meets (a, n, rt) (i, t, d) \<Longrightarrow> \<forall>r \<in> set xs. \<not> meets r (i, t, d) \<Longrightarrow>
    rm_step m (m\<lparr>rm_ready := xs @ ys, rm_got := (rm_got m)(a \<mapsto> d)\<rparr>)"
| rm_recv: "rm_coming m = [] \<Longrightarrow> rm_step m (m\<lparr>rm_coming := [(a, n, rt)]\<rparr>)"
| rm_meet: "rm_coming m = [(a, n, rt)] \<Longrightarrow> rm_pending m = xs @ (i, t, d) # ys \<Longrightarrow> meets (a, n, rt) (i, t, d) \<Longrightarrow>
    \<forall>x \<in> set xs. \<not> meets (a, n, rt) x \<Longrightarrow>
    rm_step m (m\<lparr>rm_pending := xs @ ys, rm_coming := [], rm_got := (rm_got m)(a \<mapsto> d)\<rparr>)"
| rm_wait: "rm_coming m = [r] \<Longrightarrow> \<forall>x \<in> set (rm_pending m). \<not> meets r x \<Longrightarrow>
    rm_step m (m\<lparr>rm_ready := rm_ready m @ [r], rm_coming := []\<rparr>)"

section \<open>The rendezvous of a state\<close>

fun chain_list :: "nat \<Rightarrow> (nat \<Rightarrow> nat option) \<Rightarrow> nat option \<Rightarrow> nat list" where
  "chain_list 0 mn p = []"
| "chain_list (Suc f) mn p = (case p of None \<Rightarrow> [] | Some x \<Rightarrow> x # chain_list f mn (mn x))"

lemma chain_list: "posted_chain mn p xs \<Longrightarrow> length xs \<le> f \<Longrightarrow> chain_list f mn p = xs"
proof (induction xs arbitrary: p f)
  case Nil
  then show ?case by (cases f) auto
next
  case (Cons x xs)
  then show ?case by (cases f) auto
qed

definition posted_ids :: "rndzv \<Rightarrow> nat list" where
  "posted_ids s = chain_list (rz_sent s + length (rz_data s)) (rz_mnext s) (rz_posted s)"

definition ready_sends :: "rndzv_send list \<Rightarrow> (nat \<times> int \<times> int) list" where
  "ready_sends q = map (\<lambda>m. (rs_dest m, rs_nbytes m, rs_tag m)) (filter (\<lambda>m. rs_buf m = None) q)"

definition pending_sends :: "nat list \<Rightarrow> rndzv_send list \<Rightarrow> (nat \<times> int \<times> 8 word list) list" where
  "pending_sends xs q = map (\<lambda>m. (rs_id m, rs_tag m, the (rs_buf m))) (filter (\<lambda>m. rs_buf m \<noteq> None \<and> \<not> rs_done m \<and> rs_id m \<notin> set xs) q)"

definition rtrs :: "rndzv \<Rightarrow> rtr_msg list" where
  "rtrs s = (if 0 < rz_rtr_posted s then [rz_msgs_out s] else if 0 < rz_rtr_arrived s then [rz_msgs_in s] else [])"

definition rz_got :: "rndzv \<Rightarrow> nat \<Rightarrow> 8 word list option" where
  "rz_got s a = (case map_of (map (\<lambda>(i, a, d, t). (a, d)) (rz_data s)) a of Some d \<Rightarrow> Some d | None \<Rightarrow> rz_mem s a)"

definition rendezvous_of :: "rndzv \<Rightarrow> rm_state" where
  "rendezvous_of s = \<lparr>rm_pending = pending_sends (posted_ids s) (rz_send_q s), rm_ready = ready_sends (rz_send_q s),
     rm_coming = map (\<lambda>r. (rt_addr r, rt_nbytes r, rt_tag r)) (rtrs s), rm_got = rz_got s\<rparr>"

section \<open>Invariant\<close>

text \<open>
  One token goes between the acknowledgement, the RTR and its handler; every receive of the adapter that is
  used up has been posted.
\<close>

definition token_inv :: "rndzv \<Rightarrow> bool" where
  "token_inv s \<longleftrightarrow> (if rz_ack s then 1 else 0) + rz_rtr_posted s + rz_rtr_arrived s + rz_acks s = 1
     \<and> rz_send_rr s + rz_rtr_arrived s = 1
     \<and> rz_recv_rr s + length (rz_landed s) = 1 + length (filter (\<lambda>r. \<not> rr_done r) (rz_recv_q s))"

definition rz_send_inv :: "rndzv \<Rightarrow> bool" where
  "rz_send_inv s \<longleftrightarrow> distinct (map rs_id (rz_send_q s))
     \<and> (\<forall>m \<in> set (rz_send_q s). rs_id m < rz_next s \<and> (rs_buf m = None \<longleftrightarrow> rs_index m \<noteq> -1) \<and> (rs_buf m = None \<longrightarrow> \<not> rs_done m \<and> 0 \<le> rs_index m)
         \<and> (\<forall>d. rs_buf m = Some d \<longrightarrow> rs_nbytes m = int (length d)))
     \<and> (\<exists>xs. posted_chain (rz_mnext s) (rz_posted s) xs \<and> distinct xs \<and> length xs = rz_sent s + length (rz_data s)
         \<and> drop (rz_sent s) xs = map fst (rz_data s)
         \<and> (\<forall>x \<in> set xs. \<exists>m \<in> set (rz_send_q s). rs_id m = x \<and> rs_buf m \<noteq> None \<and> \<not> rs_done m))
     \<and> (\<forall>m \<in> set (rz_send_q s). rs_buf m \<noteq> None \<and> \<not> rs_done m \<and> rs_id m \<notin> set (posted_ids s) \<longrightarrow> rz_mnext s (rs_id m) = None)
     \<and> (\<forall>r \<in> set (ready_sends (rz_send_q s)). \<forall>x \<in> set (pending_sends (posted_ids s) (rz_send_q s)). \<not> meets r x)"

text \<open>The transaction numbers that are under way, with the address of the buffer, where the sender knows it.\<close>

definition under_way :: "rndzv \<Rightarrow> (nat \<times> int) list" where
  "under_way s = map (\<lambda>r. (rt_addr r, int (rt_trans r))) (rtrs s)
     @ map (\<lambda>m. (rs_dest m, rs_index m)) (filter (\<lambda>m. rs_buf m = None) (rz_send_q s))
     @ map (\<lambda>(i, a, d, t). (a, int t)) (rz_data s)"

definition recv_inv :: "rndzv \<Rightarrow> bool" where
  "recv_inv s \<longleftrightarrow> distinct (map rr_index (rz_recv_q s)) \<and> distinct (map rr_id (rz_recv_q s)) \<and> (\<forall>r \<in> set (rz_recv_q s). rr_id r < rz_next s)
     \<and> mset (map snd (under_way s) @ map int (rz_landed s)) = mset (map rr_index (filter (\<lambda>r. \<not> rr_done r) (rz_recv_q s)))
     \<and> (\<forall>(a, t) \<in> set (under_way s). \<exists>r \<in> set (rz_recv_q s). rr_id r = a \<and> rr_index r = t)
     \<and> (\<forall>r \<in> set (rz_recv_q s). rr_done r \<or> rr_index r \<in> int ` set (rz_landed s) \<longrightarrow> rz_mem s (rr_id r) \<noteq> None)"

definition rndzv_inv :: "rndzv \<Rightarrow> bool" where
  "rndzv_inv s \<longleftrightarrow> token_inv s \<and> rz_send_inv s \<and> recv_inv s"

section \<open>Consequences of the invariant\<close>

lemma ready_simps [simp]: "ready_sends [] = []"
  "ready_sends (m # q) = (if rs_buf m = None then [(rs_dest m, rs_nbytes m, rs_tag m)] else []) @ ready_sends q"
  "ready_sends (q @ q') = ready_sends q @ ready_sends q'"
  by (simp_all add: ready_sends_def)

lemma pending_sends_simps [simp]: "pending_sends xs [] = []"
  "pending_sends xs (m # q) = (if rs_buf m \<noteq> None \<and> \<not> rs_done m \<and> rs_id m \<notin> set xs then [(rs_id m, rs_tag m, the (rs_buf m))] else [])
     @ pending_sends xs q"
  "pending_sends xs (q @ q') = pending_sends xs q @ pending_sends xs q'"
  by (simp_all add: pending_sends_def)

lemma pending_sends_cong: "(\<And>m. m \<in> set q \<Longrightarrow> rs_id m \<in> set xs \<longleftrightarrow> rs_id m \<in> set ys) \<Longrightarrow> pending_sends xs q = pending_sends ys q"
  by (auto simp: pending_sends_def intro!: arg_cong [where f = "map _"] filter_cong)

text \<open>What is used of the sender, with the chain \<open>xs\<close>.\<close>

definition rz_sender :: "rndzv \<Rightarrow> nat list \<Rightarrow> bool" where
  "rz_sender s xs \<longleftrightarrow> distinct (map rs_id (rz_send_q s))
     \<and> (\<forall>m \<in> set (rz_send_q s). rs_id m < rz_next s \<and> (rs_buf m = None \<longleftrightarrow> rs_index m \<noteq> -1) \<and> (rs_buf m = None \<longrightarrow> \<not> rs_done m \<and> 0 \<le> rs_index m)
         \<and> (\<forall>d. rs_buf m = Some d \<longrightarrow> rs_nbytes m = int (length d)))
     \<and> posted_chain (rz_mnext s) (rz_posted s) xs \<and> distinct xs \<and> length xs = rz_sent s + length (rz_data s)
     \<and> drop (rz_sent s) xs = map fst (rz_data s)
     \<and> (\<forall>x \<in> set xs. \<exists>m \<in> set (rz_send_q s). rs_id m = x \<and> rs_buf m \<noteq> None \<and> \<not> rs_done m)
     \<and> (\<forall>m \<in> set (rz_send_q s). rs_buf m \<noteq> None \<and> \<not> rs_done m \<and> rs_id m \<notin> set xs \<longrightarrow> rz_mnext s (rs_id m) = None)
     \<and> (\<forall>r \<in> set (ready_sends (rz_send_q s)). \<forall>x \<in> set (pending_sends xs (rz_send_q s)). \<not> meets r x)"

lemma sender_posted: "rz_sender s xs \<Longrightarrow> posted_ids s = xs"
  unfolding rz_sender_def posted_ids_def by (elim conjE) (rule chain_list, simp_all)

lemma rz_send_inv_alt: "rz_send_inv s \<longleftrightarrow> (\<exists>xs. rz_sender s xs)"
proof
  assume i: "rz_send_inv s"
  then obtain xs where xs: "posted_chain (rz_mnext s) (rz_posted s) xs" "distinct xs" "length xs = rz_sent s + length (rz_data s)"
    "drop (rz_sent s) xs = map fst (rz_data s)" "\<forall>x \<in> set xs. \<exists>m \<in> set (rz_send_q s). rs_id m = x \<and> rs_buf m \<noteq> None \<and> \<not> rs_done m"
    unfolding rz_send_inv_def by (elim conjE exE) blast
  then have "posted_ids s = xs" unfolding posted_ids_def by (intro chain_list) simp_all
  with i xs show "\<exists>xs. rz_sender s xs" unfolding rz_send_inv_def rz_sender_def by blast
next
  assume "\<exists>xs. rz_sender s xs"
  then obtain xs where xs: "rz_sender s xs" ..
  with sender_posted [OF xs] show "rz_send_inv s" unfolding rz_send_inv_def rz_sender_def by blast
qed

lemma rendezvous_view: "rz_sender s xs \<Longrightarrow> rendezvous_of s = \<lparr>rm_pending = pending_sends xs (rz_send_q s), rm_ready = ready_sends (rz_send_q s),
     rm_coming = map (\<lambda>r. (rt_addr r, rt_nbytes r, rt_tag r)) (rtrs s), rm_got = rz_got s\<rparr>"
  by (simp add: rendezvous_of_def sender_posted)

lemma under_way_distinct:
  assumes "recv_inv s"
  shows "distinct (map snd (under_way s) @ map int (rz_landed s))" and "distinct (map fst (under_way s))"
    and "length (under_way s) + length (rz_landed s) = length (filter (\<lambda>r. \<not> rr_done r) (rz_recv_q s))"
    and "(a, t) \<in> set (under_way s) \<Longrightarrow> \<exists>r \<in> set (rz_recv_q s). rr_id r = a \<and> rr_index r = t \<and> \<not> rr_done r"
proof -
  let ?U = "filter (\<lambda>r. \<not> rr_done r) (rz_recv_q s)"
  have m: "mset (map snd (under_way s) @ map int (rz_landed s)) = mset (map rr_index ?U)" and di: "distinct (map rr_index (rz_recv_q s))"
    and lk: "\<And>a t. (a, t) \<in> set (under_way s) \<Longrightarrow> \<exists>r \<in> set (rz_recv_q s). rr_id r = a \<and> rr_index r = t"
    and dd: "distinct (map rr_id (rz_recv_q s))"
    using assms unfolding recv_inv_def by auto
  have "distinct (map rr_index ?U)" using di by (simp add: distinct_map_filter)
  then show d: "distinct (map snd (under_way s) @ map int (rz_landed s))" using mset_eq_imp_distinct_iff [OF m] by simp
  have "length (map snd (under_way s) @ map int (rz_landed s)) = length (map rr_index ?U)" by (rule mset_eq_length [OF m])
  then show "length (under_way s) + length (rz_landed s) = length ?U" by simp
  show "distinct (map fst (under_way s))"
  proof -
    have "distinct (under_way s)" using d by (simp add: distinct_map)
    moreover have "inj_on fst (set (under_way s))"
    proof (rule inj_onI)
      fix x y assume xy: "x \<in> set (under_way s)" "y \<in> set (under_way s)" "fst x = fst y"
      from lk [of "fst x" "snd x"] xy(1) obtain r where r: "r \<in> set (rz_recv_q s)" "rr_id r = fst x" "rr_index r = snd x" by auto
      from lk [of "fst y" "snd y"] xy(2) obtain r' where "r' \<in> set (rz_recv_q s)" "rr_id r' = fst y" "rr_index r' = snd y" by auto
      moreover have "r = r'" using r calculation dd xy(3) by (auto simp: distinct_map inj_on_def)
      ultimately show "x = y" using r xy(3) by (simp add: prod_eq_iff)
    qed
    ultimately show ?thesis by (simp add: distinct_map)
  qed
  show "\<exists>r \<in> set (rz_recv_q s). rr_id r = a \<and> rr_index r = t \<and> \<not> rr_done r" if at: "(a, t) \<in> set (under_way s)"
  proof -
    from lk [OF at] obtain r where r: "r \<in> set (rz_recv_q s)" "rr_id r = a" "rr_index r = t" by blast
    have "t \<in> set (map snd (under_way s) @ map int (rz_landed s))" using at by force
    then have "t \<in> set (map rr_index ?U)" using mset_eq_setD [OF m] by blast
    then obtain r' where "r' \<in> set ?U" "rr_index r' = t" by auto
    with r di have "r' = r" by (auto simp: distinct_map inj_on_def)
    with r \<open>r' \<in> set ?U\<close> show ?thesis by auto
  qed
qed

end
