(* ===== verification/IbRndzvSteps.thy ===== *)
theory IbRndzvSteps
  imports IbRndzvRuns
begin

text \<open>With care every step of \<open>IbRndzv\<close> keeps the invariant and is a step of the abstract rendezvous.\<close>

definition refines_step :: "rndzv \<Rightarrow> rndzv \<Rightarrow> bool" where
  "refines_step s s' \<longleftrightarrow> rndzv_inv s' \<and> rm_step\<^sup>*\<^sup>* (rendezvous_of s) (rendezvous_of s')"

lemma refines_one: "rndzv_inv s' \<Longrightarrow> rm_step (rendezvous_of s) (rendezvous_of s') \<Longrightarrow> refines_step s s'"
  by (auto simp: refines_step_def)

lemma refines_none: "rndzv_inv s' \<Longrightarrow> rendezvous_of s' = rendezvous_of s \<Longrightarrow> refines_step s s'"
  by (simp add: refines_step_def)

lemma got_cong: "rz_data s' = rz_data s \<Longrightarrow> rz_mem s' = rz_mem s \<Longrightarrow> rz_got s' = rz_got s"
  by (intro ext) (simp add: rz_got_def split: option.split)

lemma rtrs_cong: "rz_rtr_posted s' = rz_rtr_posted s \<Longrightarrow> rz_rtr_arrived s' = rz_rtr_arrived s \<Longrightarrow>
    rz_msgs_out s' = rz_msgs_out s \<Longrightarrow> rz_msgs_in s' = rz_msgs_in s \<Longrightarrow> rtrs s' = rtrs s"
  by (simp add: rtrs_def)

text \<open>The address of a new transfer is not that of one that is under way.\<close>

lemma got_new:
  assumes "a \<notin> (\<lambda>(i, a, d, t). a) ` set (rz_data s)" and "rz_data s' = rz_data s @ [(i, a, d, t)]" and "rz_mem s' = rz_mem s"
  shows "rz_got s' = (rz_got s)(a \<mapsto> d)"
proof
  fix b
  have "map_of (map (\<lambda>(i, a, d, t). (a, d)) (rz_data s)) a = None" using assms(1) by (force simp: map_of_eq_None_iff)
  then show "rz_got s' b = ((rz_got s)(a \<mapsto> d)) b"
    using assms(2,3) by (auto simp: rz_got_def map_add_def split: option.splits)
qed

lemma under_way_addrs: "map fst (under_way s) = map rt_addr (rtrs s) @ map rs_dest (filter (\<lambda>m. rs_buf m = None) (rz_send_q s))
    @ map (\<lambda>(i, a, d, t). a) (rz_data s)"
  by (simp add: under_way_def comp_def case_prod_beta)

text \<open>A message that is sent takes a place in the chain.\<close>

lemma post_fresh:
  assumes "rz_sender s xs" and "i = rz_next s" and "s1 = s\<lparr>rz_next := rz_next s + 1, rz_mnext := (rz_mnext s)(i := None)\<rparr>"
  shows "i \<notin> set xs" and "posted_chain (rz_mnext s1) (rz_posted s1) xs"
    and "\<exists>h mn. post_rndzv i s1 = Some (s1\<lparr>rz_posted := h, rz_mnext := mn\<rparr>) \<and> posted_chain mn h (xs @ [i])
      \<and> (\<forall>j. j \<notin> set xs \<longrightarrow> mn j = rz_mnext s1 j)"
proof -
  show i: "i \<notin> set xs" using assms(1,2) unfolding rz_sender_def by (metis less_irrefl)
  show c: "posted_chain (rz_mnext s1) (rz_posted s1) xs" using assms(1,3) i by (simp add: rz_sender_def posted_chain_upd)
  have "distinct xs" "rz_mnext s1 i = None" using assms by (simp_all add: rz_sender_def)
  from post_rndzv_ok [OF c this(1) i this(2)] show "\<exists>h mn. post_rndzv i s1 = Some (s1\<lparr>rz_posted := h, rz_mnext := mn\<rparr>) \<and> posted_chain mn h (xs @ [i])
      \<and> (\<forall>j. j \<notin> set xs \<longrightarrow> mn j = rz_mnext s1 j)"
    by blast
qed

lemma asend_queued:
  assumes inv: "rndzv_inv s"
    and none: "\<forall>c \<in> set (rz_send_q s). \<not> (rs_index c \<noteq> -1 \<and> rz_accepts (rs_nbytes c) (rs_tag c) (int (length data)) tag)"
    and s': "s' = s\<lparr>rz_next := rz_next s + 1, rz_mnext := (rz_mnext s)(rz_next s := None), rz_send_q := rz_send_q s @ [user_send (rz_next s) tag data]\<rparr>"
  shows "refines_step s s'"
proof -
  obtain xs where xs: "rz_sender s xs" using inv by (auto simp: rndzv_inv_def rz_send_inv_alt)
  note f = post_fresh [OF xs refl refl]
  have no: "\<forall>r \<in> set (ready_sends (rz_send_q s)). \<not> meets r (rz_next s, tag, data)"
    using none xs by (auto simp: ready_sends_def meets_def rz_sender_def)
  have "rz_sender s' xs" using xs f(1,2) no unfolding rz_sender_def s'
    by (auto simp: user_send_def less_Suc_eq)
  moreover have "recv_inv s'" using inv by (auto simp: rndzv_inv_def recv_inv_def under_way_def rtrs_def s' user_send_def)
  moreover have "token_inv s'" using inv by (simp add: rndzv_inv_def token_inv_def s')
  ultimately have "rndzv_inv s'" by (auto simp: rndzv_inv_def rz_send_inv_alt)
  moreover have "rm_step (rendezvous_of s) (rendezvous_of s')"
  proof -
    have g: "rz_got s' = rz_got s" by (rule got_cong) (simp_all add: s')
    have t: "rtrs s' = rtrs s" by (rule rtrs_cong) (simp_all add: s')
    have q: "pending_sends xs (rz_send_q s') = pending_sends xs (rz_send_q s) @ [(rz_next s, tag, data)]"
      "ready_sends (rz_send_q s') = ready_sends (rz_send_q s)" using f(1) by (simp_all add: s' user_send_def)
    have "rendezvous_of s' = (rendezvous_of s)\<lparr>rm_pending := rm_pending (rendezvous_of s) @ [(rz_next s, tag, data)]\<rparr>"
      unfolding rendezvous_view [OF xs] rendezvous_view [OF \<open>rz_sender s' xs\<close>] g t q by simp
    moreover have "\<forall>r \<in> set (rm_ready (rendezvous_of s)). \<not> meets r (rz_next s, tag, data)"
      using no by (simp add: rendezvous_view [OF xs])
    ultimately show ?thesis using rm_queue by metis
  qed
  ultimately show ?thesis by (rule refines_one)
qed

lemma meets_accepts: "meets (a, n, rt) (i, t, d) \<longleftrightarrow> rz_accepts n rt (int (length d)) t"
  by (simp add: meets_def)

text \<open>An announced receive takes the message at once.\<close>

lemma asend_matched:
  assumes inv: "rndzv_inv s" and q: "rz_send_q s = as @ c # bs" "rs_index c \<noteq> -1" "rz_accepts (rs_nbytes c) (rs_tag c) (int (length data)) tag"
    "\<forall>x \<in> set as. \<not> (rs_index x \<noteq> -1 \<and> rz_accepts (rs_nbytes x) (rs_tag x) (int (length data)) tag)"
    and s1: "s1 = s\<lparr>rz_next := rz_next s + 1, rz_mnext := (rz_mnext s)(rz_next s := None)\<rparr>"
    and m: "m = user_send (rz_next s) tag data"
    and p: "post_rndzv (rz_next s) s1 = Some (s1\<lparr>rz_posted := h, rz_mnext := mn\<rparr>)" "posted_chain mn h (xs @ [rz_next s])"
      "\<forall>j. j \<notin> set xs \<longrightarrow> mn j = rz_mnext s1 j" and xs: "rz_sender s xs"
    and s': "s' = (ib_rndzv_send_data (rz_next s) data (nat (rs_index c)) (rs_dest c) (s1\<lparr>rz_posted := h, rz_mnext := mn\<rparr>))\<lparr>rz_send_q := as @ m # bs\<rparr>"
  shows "refines_step s s'"
proof -
  let ?i = "rz_next s"
  note f = post_fresh [OF xs refl refl]
  have sx: "distinct (map rs_id (rz_send_q s))" "posted_chain (rz_mnext s) (rz_posted s) xs" "distinct xs" "length xs = rz_sent s + length (rz_data s)"
    "drop (rz_sent s) xs = map fst (rz_data s)" "\<forall>x \<in> set xs. \<exists>m \<in> set (rz_send_q s). rs_id m = x \<and> rs_buf m \<noteq> None \<and> \<not> rs_done m"
    "\<forall>r \<in> set (ready_sends (rz_send_q s)). \<forall>x \<in> set (pending_sends xs (rz_send_q s)). \<not> meets r x"
    "\<forall>m \<in> set (rz_send_q s). rs_buf m \<noteq> None \<and> \<not> rs_done m \<and> rs_id m \<notin> set xs \<longrightarrow> rz_mnext s (rs_id m) = None"
    and ent: "\<forall>m \<in> set (rz_send_q s). rs_id m < rz_next s \<and> (rs_buf m = None \<longleftrightarrow> rs_index m \<noteq> -1) \<and> (rs_buf m = None \<longrightarrow> \<not> rs_done m \<and> 0 \<le> rs_index m)
         \<and> (\<forall>d. rs_buf m = Some d \<longrightarrow> rs_nbytes m = int (length d))"
    using xs unfolding rz_sender_def by blast+
  have c: "rs_buf c = None" "0 \<le> rs_index c" using ent q(1,2) by auto
  have mf: "rs_id m = ?i" "rs_buf m = Some data" "rs_index m = -1" "\<not> rs_done m" "rs_nbytes m = int (length data)" by (simp_all add: m user_send_def)
  have "\<forall>y \<in> set (rz_send_q s). rs_id y < ?i" using ent by blast
  then have "\<forall>y \<in> set (as @ c # bs). rs_id y \<noteq> ?i" unfolding q(1) by (metis less_irrefl)
  then have ids: "\<forall>y \<in> set as \<union> set bs. rs_id y \<noteq> ?i" by simp
  have pend: "pending_sends (xs @ [?i]) (as @ m # bs) = pending_sends xs (rz_send_q s)"
    using mf c q(1) ids pending_sends_cong [of as "xs @ [?i]" xs] pending_sends_cong [of bs "xs @ [?i]" xs] by simp
  have ready: "ready_sends (rz_send_q s) = ready_sends as @ (rs_dest c, rs_nbytes c, rs_tag c) # ready_sends bs"
    "ready_sends (as @ m # bs) = ready_sends as @ ready_sends bs" using q(1) c mf by simp_all
  have di: "distinct (map rs_id (as @ m # bs))" using sx(1) q(1) mf(1) ids by (auto simp: image_iff)
  have "rz_sender s' (xs @ [?i])"
    unfolding rz_sender_def
  proof (intro conjI)
    show "distinct (map rs_id (rz_send_q s'))" using di by (simp add: s')
    show "\<forall>m \<in> set (rz_send_q s'). rs_id m < rz_next s' \<and> (rs_buf m = None \<longleftrightarrow> rs_index m \<noteq> -1) \<and> (rs_buf m = None \<longrightarrow> \<not> rs_done m \<and> 0 \<le> rs_index m)
         \<and> (\<forall>d. rs_buf m = Some d \<longrightarrow> rs_nbytes m = int (length d))"
      using ent q(1) mf by (auto simp: s' s1 ib_rndzv_send_data_def less_Suc_eq)
    show "posted_chain (rz_mnext s') (rz_posted s') (xs @ [?i])" using p(2) by (simp add: s' ib_rndzv_send_data_def)
    show "distinct (xs @ [?i])" using sx(3) f(1) by simp
    show "length (xs @ [?i]) = rz_sent s' + length (rz_data s')" using sx(4) by (simp add: s' s1 ib_rndzv_send_data_def)
    show "drop (rz_sent s') (xs @ [?i]) = map fst (rz_data s')" using sx(4,5) by (simp add: s' s1 ib_rndzv_send_data_def)
    show "\<forall>x \<in> set (xs @ [?i]). \<exists>m \<in> set (rz_send_q s'). rs_id m = x \<and> rs_buf m \<noteq> None \<and> \<not> rs_done m"
      using sx(6) q(1) c(1) mf by (auto simp: s')
    have "\<forall>y \<in> set (as @ m # bs). rs_buf y \<noteq> None \<and> \<not> rs_done y \<and> rs_id y \<notin> set (xs @ [?i]) \<longrightarrow> mn (rs_id y) = None"
      using sx(8) q(1) p(3) mf by (auto simp: s1)
    then show "\<forall>m \<in> set (rz_send_q s'). rs_buf m \<noteq> None \<and> \<not> rs_done m \<and> rs_id m \<notin> set (xs @ [?i]) \<longrightarrow> rz_mnext s' (rs_id m) = None"
      by (simp add: s' ib_rndzv_send_data_def)
    show "\<forall>r \<in> set (ready_sends (rz_send_q s')). \<forall>x \<in> set (pending_sends (xs @ [?i]) (rz_send_q s')). \<not> meets r x"
      using sx(7) pend ready by (simp add: s')
  qed
  note sx' = this
  have uw: "mset (map snd (under_way s')) = mset (map snd (under_way s))" "set (under_way s') = set (under_way s)"
    using c mf q(1) by (auto simp: under_way_def rtrs_def s' s1 ib_rndzv_send_data_def)
  have "recv_inv s'" using inv uw by (auto simp: rndzv_inv_def recv_inv_def s' s1 ib_rndzv_send_data_def)
  moreover have "token_inv s'" using inv by (simp add: rndzv_inv_def token_inv_def s' s1 ib_rndzv_send_data_def)
  ultimately have "rndzv_inv s'" using sx' by (auto simp: rndzv_inv_def rz_send_inv_alt)
  moreover have "rm_step (rendezvous_of s) (rendezvous_of s')"
  proof -
    have "distinct (map fst (under_way s))" using inv by (intro under_way_distinct(2)) (simp add: rndzv_inv_def)
    then have "rs_dest c \<notin> (\<lambda>(i, a, d, t). a) ` set (rz_data s)" using q(1) c(1) unfolding under_way_addrs by auto
    then have g: "rz_got s' = (rz_got s)(rs_dest c \<mapsto> data)"
      by (rule got_new [where i = ?i and t = "nat (rs_index c)"]) (simp_all add: s' s1 ib_rndzv_send_data_def)
    have t: "rtrs s' = rtrs s" by (rule rtrs_cong) (simp_all add: s' s1 ib_rndzv_send_data_def)
    have sq: "rz_send_q s' = as @ m # bs" by (simp add: s')
    have "rendezvous_of s' = (rendezvous_of s)\<lparr>rm_ready := ready_sends as @ ready_sends bs, rm_got := (rm_got (rendezvous_of s))(rs_dest c \<mapsto> data)\<rparr>"
      unfolding rendezvous_view [OF xs] rendezvous_view [OF sx'] g t sq pend ready(2) by simp
    moreover have "rm_ready (rendezvous_of s) = ready_sends as @ (rs_dest c, rs_nbytes c, rs_tag c) # ready_sends bs"
      using ready(1) by (simp add: rendezvous_view [OF xs])
    moreover have "\<forall>r \<in> set (ready_sends as). \<not> meets r (?i, tag, data)"
      using q(1,4) ent by (auto simp: ready_sends_def meets_accepts)
    moreover have "meets (rs_dest c, rs_nbytes c, rs_tag c) (?i, tag, data)" using q(3) by (simp add: meets_accepts)
    ultimately show ?thesis using rm_send by metis
  qed
  ultimately show ?thesis by (rule refines_one)
qed

lemma asend_refines:
  assumes inv: "rndzv_inv s"
  shows "\<exists>s'. ib_rndzv_asend tag data s = Some s' \<and> refines_step s s'"
proof -
  obtain xs where xs: "rz_sender s xs" using inv by (auto simp: rndzv_inv_def rz_send_inv_alt)
  let ?m = "user_send (rz_next s) tag data" and ?s1 = "s\<lparr>rz_next := rz_next s + 1, rz_mnext := (rz_mnext s)(rz_next s := None)\<rparr>"
  let ?P = "\<lambda>c. rs_index c \<noteq> -1 \<and> rz_accepts (rs_nbytes c) (rs_tag c) (int (length data)) tag"
  have mf: "rs_nbytes ?m = int (length data)" "rs_id ?m = rz_next s" by (simp_all add: user_send_def)
  show ?thesis
  proof (cases "change_first ?P (\<lambda>_. ?m) (rz_send_q s)")
    case None
    then have "\<forall>c \<in> set (rz_send_q s). \<not> ?P c" by (simp add: change_first_None)
    from asend_queued [OF inv this refl] show ?thesis using None by (simp add: ib_rndzv_asend_def mf)
  next
    case (Some cq)
    then obtain c q where c: "change_first ?P (\<lambda>_. ?m) (rz_send_q s) = Some (c, q)" by (cases cq) auto
    then obtain as bs where q: "rz_send_q s = as @ c # bs" "q = as @ ?m # bs" "rs_index c \<noteq> -1"
      "rz_accepts (rs_nbytes c) (rs_tag c) (int (length data)) tag" "\<forall>x \<in> set as. \<not> ?P x" by (auto simp: change_first_Some)
    from post_fresh(3) [OF xs refl refl] obtain h mn where p: "post_rndzv (rz_next s) ?s1 = Some (?s1\<lparr>rz_posted := h, rz_mnext := mn\<rparr>)"
      "posted_chain mn h (xs @ [rz_next s])" "\<forall>j. j \<notin> set xs \<longrightarrow> mn j = rz_mnext ?s1 j" by blast
    from asend_matched [OF inv q(1,3,4,5) refl refl p xs refl] c p(1) q(2) show ?thesis
      by (simp add: ib_rndzv_asend_def mf Let_def)
  qed
qed

end
