(* ===== verification/IbRndzvRecv.thy ===== *)
theory IbRndzvRecv
  imports IbRndzvSteps
begin

text \<open>The steps of the receiver, of the handlers and of the adapter, and all interleavings with care.\<close>

lemma sender_same:
  assumes "rz_sender s xs" and "rz_send_q s' = rz_send_q s" and "rz_next s \<le> rz_next s'" and "rz_mnext s' = rz_mnext s"
    and "rz_posted s' = rz_posted s" and "rz_sent s' = rz_sent s" and "rz_data s' = rz_data s"
  shows "rz_sender s' xs"
proof -
  have "\<forall>m \<in> set (rz_send_q s). rs_id m < rz_next s'" using assms(1,3) unfolding rz_sender_def by (metis less_le_trans)
  with assms show ?thesis unfolding rz_sender_def by (simp only:) blast
qed

lemma token_acked:
  assumes "token_inv s" and "rz_ack s"
  shows "rz_rtr_posted s = 0" and "rz_rtr_arrived s = 0" and "rz_acks s = 0"
  using assms by (auto simp: token_inv_def)

lemma arecv_refines:
  assumes inv: "rndzv_inv s" and r: "ib_rndzv_arecv nbytes tag s = Some (Inr s')" and ok: "distinct (map rr_index (rz_recv_q s'))"
  shows "refines_step s s'"
proof -
  obtain xs where xs: "rz_sender s xs" and tok: "token_inv s" and rin: "recv_inv s" using inv by (auto simp: rndzv_inv_def rz_send_inv_alt)
  from r obtain t used cu where ack: "rz_ack s" and s': "s' = s\<lparr>rz_recv_rr := rz_recv_rr s + 1, rz_used := used, rz_cur := cu,
          rz_recv_q := rz_recv_q s @ [\<lparr>rr_id = rz_next s, rr_tag = tag, rr_nbytes = nbytes, rr_index = int t, rr_done = False\<rparr>],
          rz_ack := False, rz_next := rz_next s + 1, rz_msgs_out := \<lparr>rt_addr = rz_next s, rt_tag = tag, rt_nbytes = nbytes, rt_trans = t\<rparr>,
          rz_rtr_posted := rz_rtr_posted s + 1\<rparr>"
    by (auto simp: ib_rndzv_arecv_def rndzv_posts obind_Inr_iff split: if_splits)
  note z = token_acked [OF tok ack]
  have sx': "rz_sender s' xs" by (rule sender_same [OF xs]) (simp_all add: s')
  have rt: "rtrs s = []" "rtrs s' = [\<lparr>rt_addr = rz_next s, rt_tag = tag, rt_nbytes = nbytes, rt_trans = t\<rparr>]"
    using z by (simp_all add: rtrs_def s')
  then have uw: "under_way s' = (rz_next s, int t) # under_way s" by (simp add: under_way_def s')
  have new: "int t \<notin> int ` set (rz_landed s)"
  proof
    assume "int t \<in> int ` set (rz_landed s)"
    then have "int t \<in> set (map snd (under_way s) @ map int (rz_landed s))" by simp
    then have "int t \<in> set (map rr_index (filter (\<lambda>r. \<not> rr_done r) (rz_recv_q s)))"
      using rin mset_eq_setD unfolding recv_inv_def by blast
    then have "int t \<in> rr_index ` set (rz_recv_q s)" by auto
    with ok show False by (simp add: s')
  qed
  have "token_inv s'" using tok ack by (simp add: token_inv_def s')
  moreover have "recv_inv s'" using rin ok uw new by (auto simp: recv_inv_def s' less_Suc_eq)
  ultimately have "rndzv_inv s'" using sx' by (auto simp: rndzv_inv_def rz_send_inv_alt)
  moreover have "rm_step (rendezvous_of s) (rendezvous_of s')"
  proof -
    have g: "rz_got s' = rz_got s" by (rule got_cong) (simp_all add: s')
    have sq: "rz_send_q s' = rz_send_q s" by (simp add: s')
    have "rm_coming (rendezvous_of s) = []" by (simp add: rendezvous_view [OF xs] rt)
    moreover have "rendezvous_of s' = (rendezvous_of s)\<lparr>rm_coming := [(rz_next s, nbytes, tag)]\<rparr>"
      unfolding rendezvous_view [OF xs] rendezvous_view [OF sx'] g rt sq by simp
    ultimately show ?thesis using rm_recv by metis
  qed
  ultimately show ?thesis by (rule refines_one)
qed

text \<open>The handler of an RTR, when nothing is left to be completed.\<close>

lemma nothing_posted:
  assumes "rz_sender s xs" and "rz_posted s = None"
  shows "xs = []" and "rz_data s = []" and "rz_sent s = 0"
proof -
  show x: "xs = []" using assms by (cases xs) (auto simp: rz_sender_def)
  show "rz_data s = []" "rz_sent s = 0" using assms(1) x by (auto simp: rz_sender_def)
qed

lemma token_arrived:
  assumes "token_inv s" and "0 < rz_rtr_arrived s"
  shows "rz_rtr_posted s = 0" and "rz_rtr_arrived s = 1" and "rz_acks s = 0" and "\<not> rz_ack s" and "rtrs s = [rz_msgs_in s]"
  using assms by (auto simp: token_inv_def rtrs_def split: if_splits)

lemma rtr_waits:
  assumes inv: "rndzv_inv s" and arr: "0 < rz_rtr_arrived s" and idle: "rz_posted s = None"
    and none: "\<forall>m \<in> set (rz_send_q s). \<not> (rs_buf m \<noteq> None \<and> \<not> rs_done m \<and> rz_accepts (rt_nbytes (rz_msgs_in s)) (rt_tag (rz_msgs_in s)) (rs_nbytes m) (rs_tag m))"
    and c: "c = \<lparr>rs_id = rz_next s, rs_tag = rt_tag (rz_msgs_in s), rs_nbytes = rt_nbytes (rz_msgs_in s), rs_buf = None,
               rs_index = int (rt_trans (rz_msgs_in s)), rs_dest = rt_addr (rz_msgs_in s), rs_done = False\<rparr>"
    and s': "s' = s\<lparr>rz_rtr_arrived := rz_rtr_arrived s - 1, rz_send_rr := rz_send_rr s + 1, rz_acks := rz_acks s + 1,
       rz_send_q := rz_send_q s @ [c], rz_next := rz_next s + 1\<rparr>"
  shows "refines_step s s'"
proof -
  let ?r = "rz_msgs_in s" and ?a = "(rt_addr (rz_msgs_in s), rt_nbytes (rz_msgs_in s), rt_tag (rz_msgs_in s))"
  obtain xs where xs: "rz_sender s xs" and tok: "token_inv s" and rin: "recv_inv s" using inv by (auto simp: rndzv_inv_def rz_send_inv_alt)
  note z = token_arrived [OF tok arr] and e = nothing_posted [OF xs idle]
  have cf: "rs_buf c = None" "rs_index c = int (rt_trans ?r)" "rs_dest c = rt_addr ?r" "\<not> rs_done c" "rs_id c = rz_next s" by (simp_all add: c)
  have rd: "ready_sends (rz_send_q s @ [c]) = ready_sends (rz_send_q s) @ [?a]" by (simp add: c)
  have pd: "pending_sends xs (rz_send_q s @ [c]) = pending_sends xs (rz_send_q s)" by (simp add: cf)
  have ent: "\<forall>m \<in> set (rz_send_q s). \<forall>d. rs_buf m = Some d \<longrightarrow> rs_nbytes m = int (length d)"
    using xs unfolding rz_sender_def by blast
  then have no: "\<forall>x \<in> set (pending_sends xs (rz_send_q s)). \<not> meets ?a x"
    using none by (fastforce simp: pending_sends_def meets_accepts)
  have sx: "rz_sender s' xs" using xs no rd pd cf unfolding rz_sender_def s' by (auto simp: less_Suc_eq e)
  have rt: "rtrs s' = []" using z by (simp add: rtrs_def s')
  have uw: "under_way s' = map (\<lambda>m. (rs_dest m, rs_index m)) (filter (\<lambda>m. rs_buf m = None) (rz_send_q s)) @ [(rt_addr ?r, int (rt_trans ?r))]"
    "under_way s = (rt_addr ?r, int (rt_trans ?r)) # map (\<lambda>m. (rs_dest m, rs_index m)) (filter (\<lambda>m. rs_buf m = None) (rz_send_q s))"
    unfolding under_way_def rt z(5) using e cf by (simp_all add: s')
  have "recv_inv s'" using rin by (auto simp: recv_inv_def uw less_Suc_eq) (auto simp: s' less_Suc_eq)
  moreover have "token_inv s'" using tok z by (simp add: token_inv_def s')
  ultimately have "rndzv_inv s'" using sx by (auto simp: rndzv_inv_def rz_send_inv_alt)
  moreover have "rm_step (rendezvous_of s) (rendezvous_of s')"
  proof -
    have g: "rz_got s' = rz_got s" by (rule got_cong) (simp_all add: s')
    have sq: "rz_send_q s' = rz_send_q s @ [c]" by (simp add: s')
    have "rm_coming (rendezvous_of s) = [?a]" by (simp add: rendezvous_view [OF xs] z(5))
    moreover have "\<forall>x \<in> set (rm_pending (rendezvous_of s)). \<not> meets ?a x" using no by (simp add: rendezvous_view [OF xs])
    moreover have "rendezvous_of s' = (rendezvous_of s)\<lparr>rm_ready := rm_ready (rendezvous_of s) @ [?a], rm_coming := []\<rparr>"
      unfolding rendezvous_view [OF xs] rendezvous_view [OF sx] g rt sq rd pd by simp
    ultimately show ?thesis using rm_wait by metis
  qed
  ultimately show ?thesis by (rule refines_one)
qed

end
