(* ===== verification/IbRndzvCare.thy ===== *)
theory IbRndzvCare
  imports IbRndzvRecv
begin

text \<open>
  The rest of the steps of \<open>IbRndzv\<close>, and all its interleavings with care: they implement the abstract rendezvous.
\<close>

lemma find_split: "find P xs = Some x \<Longrightarrow> \<exists>as bs. xs = as @ x # bs \<and> P x \<and> (\<forall>y \<in> set as. \<not> P y)"
proof (induction xs)
  case (Cons y ys)
  show ?case
  proof (cases "P y")
    case False
    with Cons obtain as bs where "ys = as @ x # bs" "P x" "\<forall>y \<in> set as. \<not> P y" by auto
    with False show ?thesis by (intro exI [of _ "y # as"] exI [of _ bs]) simp
  qed (use Cons.prems in \<open>auto intro: exI [of _ "[]"]\<close>)
qed simp

lemma same_key: "distinct (map f xs) \<Longrightarrow> x \<in> set xs \<Longrightarrow> y \<in> set xs \<Longrightarrow> f x = f y \<Longrightarrow> x = y"
  by (auto simp: distinct_map inj_on_def)

section \<open>The handler of an RTR\<close>

lemma rtr_meets:
  assumes inv: "rndzv_inv s" and arr: "0 < rz_rtr_arrived s" and idle: "rz_posted s = None"
    and q: "rz_send_q s = as @ m # bs" and m: "rs_buf m = Some d" "\<not> rs_done m"
    and acc: "rz_accepts (rt_nbytes (rz_msgs_in s)) (rt_tag (rz_msgs_in s)) (rs_nbytes m) (rs_tag m)"
    and none: "\<forall>m \<in> set as. \<not> (rs_buf m \<noteq> None \<and> \<not> rs_done m \<and> rz_accepts (rt_nbytes (rz_msgs_in s)) (rt_tag (rz_msgs_in s)) (rs_nbytes m) (rs_tag m))"
    and s': "s' = ib_rndzv_send_data (rs_id m) d (rt_trans (rz_msgs_in s)) (rt_addr (rz_msgs_in s)) (s\<lparr>rz_rtr_arrived := rz_rtr_arrived s - 1,
       rz_send_rr := rz_send_rr s + 1, rz_acks := rz_acks s + 1, rz_posted := Some (rs_id m)\<rparr>)"
  shows "refines_step s s'"
proof -
  let ?r = "rz_msgs_in s" and ?a = "(rt_addr (rz_msgs_in s), rt_nbytes (rz_msgs_in s), rt_tag (rz_msgs_in s))" and ?i = "rs_id m"
  obtain xs where xs': "rz_sender s xs" and tok: "token_inv s" and rin: "recv_inv s" using inv by (auto simp: rndzv_inv_def rz_send_inv_alt)
  note z = token_arrived [OF tok arr]
  have e: "rz_data s = []" "rz_sent s = 0" and xs: "rz_sender s []" using nothing_posted [OF xs' idle] xs' by simp_all
  have ent: "\<forall>m \<in> set (rz_send_q s). rs_id m < rz_next s \<and> (rs_buf m = None \<longleftrightarrow> rs_index m \<noteq> -1) \<and> (rs_buf m = None \<longrightarrow> \<not> rs_done m \<and> 0 \<le> rs_index m)
         \<and> (\<forall>d. rs_buf m = Some d \<longrightarrow> rs_nbytes m = int (length d))"
    and di: "distinct (map rs_id (rz_send_q s))"
    and nm: "\<forall>r \<in> set (ready_sends (rz_send_q s)). \<forall>x \<in> set (pending_sends [] (rz_send_q s)). \<not> meets r x"
    and lk: "\<forall>m \<in> set (rz_send_q s). rs_buf m \<noteq> None \<and> \<not> rs_done m \<and> rs_id m \<notin> set [] \<longrightarrow> rz_mnext s (rs_id m) = None"
    using xs unfolding rz_sender_def by blast+
  have ids: "\<forall>y \<in> set as \<union> set bs. rs_id y \<noteq> ?i" using di q by (auto simp: image_iff)
  have pend: "pending_sends [?i] (rz_send_q s) = pending_sends [] as @ pending_sends [] bs"
    "pending_sends [] (rz_send_q s) = pending_sends [] as @ (?i, rs_tag m, d) # pending_sends [] bs"
    using q m ids pending_sends_cong [of as "[?i]" "[]"] pending_sends_cong [of bs "[?i]" "[]"] by simp_all
  have sq: "rz_send_q s' = rz_send_q s" by (simp add: s' ib_rndzv_send_data_def)
  have sx: "rz_sender s' [?i]" unfolding rz_sender_def sq
  proof (intro conjI)
    show "posted_chain (rz_mnext s') (rz_posted s') [?i]" using lk q m by (simp add: s' ib_rndzv_send_data_def)
    show "\<forall>r \<in> set (ready_sends (rz_send_q s)). \<forall>x \<in> set (pending_sends [?i] (rz_send_q s)). \<not> meets r x"
      using nm unfolding pend by simp
    show "\<forall>m \<in> set (rz_send_q s). rs_id m < rz_next s' \<and> (rs_buf m = None \<longleftrightarrow> rs_index m \<noteq> -1) \<and> (rs_buf m = None \<longrightarrow> \<not> rs_done m \<and> 0 \<le> rs_index m)
         \<and> (\<forall>d. rs_buf m = Some d \<longrightarrow> rs_nbytes m = int (length d))" using ent by (simp add: s' ib_rndzv_send_data_def)
    show "\<forall>m \<in> set (rz_send_q s). rs_buf m \<noteq> None \<and> \<not> rs_done m \<and> rs_id m \<notin> set [?i] \<longrightarrow> rz_mnext s' (rs_id m) = None"
      using lk by (simp add: s' ib_rndzv_send_data_def)
    show "\<forall>x \<in> set [?i]. \<exists>m \<in> set (rz_send_q s). rs_id m = x \<and> rs_buf m \<noteq> None \<and> \<not> rs_done m" using q m by auto
  qed (use di e in \<open>simp_all add: s' ib_rndzv_send_data_def\<close>)
  have rt: "rtrs s' = []" using z by (simp add: rtrs_def s' ib_rndzv_send_data_def)
  have uw: "mset (map snd (under_way s')) = mset (map snd (under_way s))" "set (under_way s') = set (under_way s)"
    unfolding under_way_def rt z(5) sq using e by (simp_all add: s' ib_rndzv_send_data_def)
  have "recv_inv s'" using rin uw by (simp add: recv_inv_def) (simp add: s' ib_rndzv_send_data_def)
  moreover have "token_inv s'" using tok z by (simp add: token_inv_def s' ib_rndzv_send_data_def)
  ultimately have "rndzv_inv s'" using sx by (auto simp: rndzv_inv_def rz_send_inv_alt)
  moreover have "rm_step (rendezvous_of s) (rendezvous_of s')"
  proof -
    have g: "rz_got s' = (rz_got s)(rt_addr ?r \<mapsto> d)"
      by (rule got_new [where i = ?i and t = "rt_trans ?r"]) (simp_all add: s' ib_rndzv_send_data_def e)
    have "rendezvous_of s' = (rendezvous_of s)\<lparr>rm_pending := pending_sends [] as @ pending_sends [] bs, rm_coming := [],
        rm_got := (rm_got (rendezvous_of s))(rt_addr ?r \<mapsto> d)\<rparr>"
      unfolding rendezvous_view [OF xs] rendezvous_view [OF sx] g rt sq pend by simp
    moreover have "rm_coming (rendezvous_of s) = [?a]" by (simp add: rendezvous_view [OF xs] z(5))
    moreover have "rm_pending (rendezvous_of s) = pending_sends [] as @ (?i, rs_tag m, d) # pending_sends [] bs"
      by (simp add: rendezvous_view [OF xs] pend)
    moreover have "meets ?a (?i, rs_tag m, d)" using acc ent q m(1) by (simp add: meets_accepts)
    moreover have "\<forall>x \<in> set (pending_sends [] as). \<not> meets ?a x"
    proof -
      have "\<forall>y \<in> set as. \<forall>d. rs_buf y = Some d \<longrightarrow> rs_nbytes y = int (length d)" using ent q by simp
      with none show ?thesis by (fastforce simp: pending_sends_def meets_accepts)
    qed
    ultimately show ?thesis using rm_meet by metis
  qed
  ultimately show ?thesis by (rule refines_one)
qed

lemma rtr_refines:
  assumes inv: "rndzv_inv s" and arr: "0 < rz_rtr_arrived s" and idle: "rz_posted s = None"
  shows "\<exists>s'. handle_rtr (s\<lparr>rz_rtr_arrived := rz_rtr_arrived s - 1\<rparr>) = Some s' \<and> refines_step s s'"
proof -
  let ?P = "\<lambda>m. rs_buf m \<noteq> None \<and> \<not> rs_done m \<and> rz_accepts (rt_nbytes (rz_msgs_in s)) (rt_tag (rz_msgs_in s)) (rs_nbytes m) (rs_tag m)"
  show ?thesis
  proof (cases "find ?P (rz_send_q s)")
    case None
    then have "\<forall>m \<in> set (rz_send_q s). \<not> ?P m" by (auto simp: find_None_iff)
    from rtr_waits [OF inv arr idle this refl refl] None show ?thesis by (simp add: handle_rtr_def rndzv_posts Let_def)
  next
    case (Some m)
    from find_split [OF this] obtain as bs where q: "rz_send_q s = as @ m # bs" "?P m" "\<forall>y \<in> set as. \<not> ?P y" by blast
    then obtain d where d: "rs_buf m = Some d" by blast
    from rtr_meets [OF inv arr idle q(1) d _ _ q(3) refl] q(2) Some d idle show ?thesis
      by (simp add: handle_rtr_def rndzv_posts Let_def post_rndzv_def)
  qed
qed

section \<open>Completions and waiting\<close>

lemma data_refines:
  assumes inv: "rndzv_inv s" and t: "rz_landed s = t # ts"
  shows "\<exists>s'. handle_data t (s\<lparr>rz_landed := ts\<rparr>) = Inr s' \<and> refines_step s s'"
proof -
  obtain xs where xs: "rz_sender s xs" and tok: "token_inv s" and rin: "recv_inv s" using inv by (auto simp: rndzv_inv_def rz_send_inv_alt)
  let ?U = "\<lambda>q. filter (\<lambda>r. \<not> rr_done r) q"
  have r: "distinct (map rr_index (rz_recv_q s))" "distinct (map rr_id (rz_recv_q s))" "\<forall>r \<in> set (rz_recv_q s). rr_id r < rz_next s"
    "mset (map snd (under_way s) @ map int (rz_landed s)) = mset (map rr_index (?U (rz_recv_q s)))"
    "\<forall>(a, t) \<in> set (under_way s). \<exists>r \<in> set (rz_recv_q s). rr_id r = a \<and> rr_index r = t"
    "\<forall>r \<in> set (rz_recv_q s). rr_done r \<or> rr_index r \<in> int ` set (rz_landed s) \<longrightarrow> rz_mem s (rr_id r) \<noteq> None"
    using rin unfolding recv_inv_def by - (elim conjE, assumption)+
  let ?P = "\<lambda>r. rr_index r = int t" and ?f = "rr_done_update (\<lambda>_. True)"
  have "int t \<in> set (map snd (under_way s) @ map int (rz_landed s))" using t by simp
  then have "int t \<in> set (map rr_index (?U (rz_recv_q s)))" using mset_eq_setD [OF r(4)] by blast
  then obtain r0 where r0: "r0 \<in> set (rz_recv_q s)" "?P r0" "\<not> rr_done r0" by auto
  then obtain x q where c: "change_first ?P ?f (rz_recv_q s) = Some (x, q)"
    using change_first_None [of ?P ?f "rz_recv_q s"] by (cases "change_first ?P ?f (rz_recv_q s)") auto
  then obtain as bs where q: "rz_recv_q s = as @ x # bs" "q = as @ ?f x # bs" "?P x" by (auto simp: change_first_Some)
  have "x \<in> set (rz_recv_q s)" using q(1) by simp
  then have x: "x = r0" by (rule same_key [OF r(1) _ r0(1)]) (use q(3) r0(2) in simp)
  define s' where "s' = s\<lparr>rz_landed := ts, rz_recv_q := q, rz_used := ib_free_trans_id (rz_used s) t\<rparr>"
  have h: "handle_data t (s\<lparr>rz_landed := ts\<rparr>) = Inr s'" by (simp add: handle_data_def c s'_def)
  have uw: "under_way s' = under_way s" by (simp add: under_way_def rtrs_def s'_def)
  have ms: "mset (map rr_index (?U (rz_recv_q s))) = add_mset (int t) (mset (map rr_index (?U q)))"
    using q x r0 by simp
  have "recv_inv s'" unfolding recv_inv_def uw
  proof (intro conjI)
    show "distinct (map rr_index (rz_recv_q s'))" "distinct (map rr_id (rz_recv_q s'))" "\<forall>r \<in> set (rz_recv_q s'). rr_id r < rz_next s'"
      using r(1-3) q by (simp_all add: s'_def)
    show "mset (map snd (under_way s) @ map int (rz_landed s')) = mset (map rr_index (?U (rz_recv_q s')))"
      using r(4) t unfolding ms by (simp add: s'_def)
    show "\<forall>(a, t) \<in> set (under_way s). \<exists>r \<in> set (rz_recv_q s'). rr_id r = a \<and> rr_index r = t"
      using r(5) q by (fastforce simp: s'_def)
    show "\<forall>r \<in> set (rz_recv_q s'). rr_done r \<or> rr_index r \<in> int ` set (rz_landed s') \<longrightarrow> rz_mem s' (rr_id r) \<noteq> None"
      using r(6) q t by (auto simp: s'_def)
  qed
  moreover have "length (?U (rz_recv_q s)) = Suc (length (?U q))" using q x r0 by simp
  then have "token_inv s'" using tok t by (auto simp: token_inv_def s'_def)
  moreover have sx: "rz_sender s' xs" by (rule sender_same [OF xs]) (simp_all add: s'_def)
  ultimately have "rndzv_inv s'" by (auto simp: rndzv_inv_def rz_send_inv_alt)
  moreover have "rendezvous_of s' = rendezvous_of s"
  proof -
    have g: "rz_got s' = rz_got s" by (rule got_cong) (simp_all add: s'_def)
    have t: "rtrs s' = rtrs s" by (rule rtrs_cong) (simp_all add: s'_def)
    show ?thesis unfolding rendezvous_view [OF xs] rendezvous_view [OF sx] g t by (simp add: s'_def)
  qed
  ultimately show ?thesis using h refines_none by blast
qed

text \<open>Steps that only the sender's queue knows about.\<close>

lemma queue_refines:
  assumes inv: "rndzv_inv s" and sx: "rz_sender s' ys" and ps: "pending_sends ys (rz_send_q s') = pending_sends (posted_ids s) (rz_send_q s)"
    and fl: "map (\<lambda>m. (rs_dest m, rs_nbytes m, rs_tag m, rs_index m)) (filter (\<lambda>m. rs_buf m = None) (rz_send_q s'))
      = map (\<lambda>m. (rs_dest m, rs_nbytes m, rs_tag m, rs_index m)) (filter (\<lambda>m. rs_buf m = None) (rz_send_q s))"
    and s': "s' = s\<lparr>rz_send_q := q, rz_posted := p, rz_sent := n\<rparr>"
  shows "refines_step s s'"
proof -
  have proj: "map (\<lambda>m. f (rs_dest m, rs_nbytes m, rs_tag m, rs_index m)) (filter (\<lambda>m. rs_buf m = None) (rz_send_q s'))
      = map (\<lambda>m. f (rs_dest m, rs_nbytes m, rs_tag m, rs_index m)) (filter (\<lambda>m. rs_buf m = None) (rz_send_q s))" for f :: "_ \<Rightarrow> 'x"
    using arg_cong [OF fl, of "map f"] by (simp add: comp_def)
  have rd: "ready_sends (rz_send_q s') = ready_sends (rz_send_q s)"
    unfolding ready_sends_def using proj [of "\<lambda>(d, n, t, i). (d, n, t)"] by simp
  have t: "rtrs s' = rtrs s" by (rule rtrs_cong) (simp_all add: s')
  have g: "rz_got s' = rz_got s" by (rule got_cong) (simp_all add: s')
  have "map (\<lambda>m. (rs_dest m, rs_index m)) (filter (\<lambda>m. rs_buf m = None) (rz_send_q s'))
      = map (\<lambda>m. (rs_dest m, rs_index m)) (filter (\<lambda>m. rs_buf m = None) (rz_send_q s))"
    using proj [of "\<lambda>(d, n, t, i). (d, i)"] by simp
  then have "under_way s' = under_way s" unfolding under_way_def t by (simp add: s')
  then have "recv_inv s'" using inv by (simp add: rndzv_inv_def recv_inv_def) (simp add: s')
  moreover have "token_inv s'" using inv by (simp add: rndzv_inv_def token_inv_def s')
  ultimately have "rndzv_inv s'" using sx by (auto simp: rndzv_inv_def rz_send_inv_alt)
  moreover have "rendezvous_of s' = rendezvous_of s"
    unfolding rendezvous_view [OF sx] rd t g ps by (simp add: rendezvous_of_def)
  ultimately show ?thesis by (rule refines_none)
qed

lemma sent_refines:
  assumes inv: "rndzv_inv s" and sent: "0 < rz_sent s"
  shows "\<exists>s'. ib_rndzv_handle_send (s\<lparr>rz_sent := rz_sent s - 1\<rparr>) = Inr s' \<and> refines_step s s'"
proof -
  obtain ys where ys: "rz_sender s ys" using inv by (auto simp: rndzv_inv_def rz_send_inv_alt)
  have len: "length ys = rz_sent s + length (rz_data s)" using ys unfolding rz_sender_def by - (elim conjE, assumption)
  then obtain i xs where y: "ys = i # xs" using sent by (cases ys) auto
  let ?set = "\<lambda>m. if rs_id m = i then m\<lparr>rs_done := True\<rparr> else m"
  have ch: "posted_chain (rz_mnext s) (rz_posted s) (i # xs)" and dx: "distinct (i # xs)" and dr: "drop (rz_sent s) (i # xs) = map fst (rz_data s)"
    and di: "distinct (map rs_id (rz_send_q s))"
    and pq: "\<forall>x \<in> set (i # xs). \<exists>m \<in> set (rz_send_q s). rs_id m = x \<and> rs_buf m \<noteq> None \<and> \<not> rs_done m"
    and lk: "\<forall>m \<in> set (rz_send_q s). rs_buf m \<noteq> None \<and> \<not> rs_done m \<and> rs_id m \<notin> set (i # xs) \<longrightarrow> rz_mnext s (rs_id m) = None"
    and nm: "\<forall>r \<in> set (ready_sends (rz_send_q s)). \<forall>x \<in> set (pending_sends (i # xs) (rz_send_q s)). \<not> meets r x"
    and ent: "\<forall>m \<in> set (rz_send_q s). rs_id m < rz_next s \<and> (rs_buf m = None \<longleftrightarrow> rs_index m \<noteq> -1) \<and> (rs_buf m = None \<longrightarrow> \<not> rs_done m \<and> 0 \<le> rs_index m)
         \<and> (\<forall>d. rs_buf m = Some d \<longrightarrow> rs_nbytes m = int (length d))"
    using ys unfolding y rz_sender_def by - (elim conjE, assumption)+
  from pq obtain m0 where m0: "m0 \<in> set (rz_send_q s)" "rs_id m0 = i" "rs_buf m0 \<noteq> None" by auto
  have buf: "rs_buf m \<noteq> None" if "m \<in> set (rz_send_q s)" "rs_id m = i" for m
    using same_key [OF di that(1) m0(1)] that(2) m0(2,3) by simp
  define s' where "s' = s\<lparr>rz_send_q := map ?set (rz_send_q s), rz_posted := rz_mnext s i, rz_sent := rz_sent s - 1\<rparr>"
  have h: "ib_rndzv_handle_send (s\<lparr>rz_sent := rz_sent s - 1\<rparr>) = Inr s'" using ch by (simp add: ib_rndzv_handle_send_def s'_def)
  have fl: "filter (\<lambda>m. rs_buf m = None) (map ?set q) = filter (\<lambda>m. rs_buf m = None) q" if "set q \<subseteq> set (rz_send_q s)" for q
    using that
  proof (induction q)
    case (Cons a q)
    have "rs_id a = i \<longrightarrow> rs_buf a \<noteq> None" using Cons.prems buf [of a] by simp
    with Cons show ?case by auto
  qed simp
  have pend: "pending_sends xs (map ?set q) = pending_sends (i # xs) q" for q by (induction q) (use dx in auto)
  have keys: "map rs_id (map ?set q) = map rs_id q" for q by (induction q) auto
  have sq: "rz_send_q s' = map ?set (rz_send_q s)" by (simp add: s'_def)
  have rd: "ready_sends (map ?set (rz_send_q s)) = ready_sends (rz_send_q s)" by (simp only: ready_sends_def fl [OF subset_refl])
  have "rz_sender s' xs" unfolding rz_sender_def
  proof (intro conjI)
    show "distinct (map rs_id (rz_send_q s'))" using di unfolding sq keys .
    show "\<forall>m \<in> set (rz_send_q s'). rs_id m < rz_next s' \<and> (rs_buf m = None \<longleftrightarrow> rs_index m \<noteq> -1) \<and> (rs_buf m = None \<longrightarrow> \<not> rs_done m \<and> 0 \<le> rs_index m)
         \<and> (\<forall>d. rs_buf m = Some d \<longrightarrow> rs_nbytes m = int (length d))" using ent buf by (fastforce simp: s'_def)
    show "posted_chain (rz_mnext s') (rz_posted s') xs" "distinct xs" using ch dx by (simp_all add: s'_def)
    show "length xs = rz_sent s' + length (rz_data s')" using len y sent by (simp add: s'_def)
    show "drop (rz_sent s') xs = map fst (rz_data s')" using dr sent by (cases "rz_sent s") (simp_all add: s'_def)
    show "\<forall>x \<in> set xs. \<exists>m \<in> set (rz_send_q s'). rs_id m = x \<and> rs_buf m \<noteq> None \<and> \<not> rs_done m"
    proof
      fix x assume x: "x \<in> set xs"
      then obtain m where "m \<in> set (rz_send_q s)" "rs_id m = x" "rs_buf m \<noteq> None" "\<not> rs_done m" using pq by auto
      moreover have "x \<noteq> i" using x dx by auto
      ultimately show "\<exists>m \<in> set (rz_send_q s'). rs_id m = x \<and> rs_buf m \<noteq> None \<and> \<not> rs_done m"
        by (intro bexI [of _ m]) (auto simp: s'_def image_iff intro!: bexI [of _ m])
    qed
    show "\<forall>m \<in> set (rz_send_q s'). rs_buf m \<noteq> None \<and> \<not> rs_done m \<and> rs_id m \<notin> set xs \<longrightarrow> rz_mnext s' (rs_id m) = None"
      using lk by (auto simp: s'_def)
    show "\<forall>r \<in> set (ready_sends (rz_send_q s')). \<forall>x \<in> set (pending_sends xs (rz_send_q s')). \<not> meets r x"
      using nm by (simp add: s'_def pend rd)
  qed
  then have "refines_step s s'"
    by (rule queue_refines [OF inv _ _ _ s'_def])
      (simp_all add: s'_def fl pend sender_posted [OF ys] y)
  with h show ?thesis by blast
qed

lemma wait_send_refines:
  assumes inv: "rndzv_inv s" and f: "finish_rndzv_send i s = Some s'"
  shows "refines_step s s'"
proof -
  obtain xs where xs: "rz_sender s xs" using inv by (auto simp: rndzv_inv_def rz_send_inv_alt)
  let ?q = "filter (\<lambda>m. rs_id m \<noteq> i) (rz_send_q s)"
  from f obtain m0 where m0: "m0 \<in> set (rz_send_q s)" "rs_id m0 = i" "rs_done m0" and s': "s' = s\<lparr>rz_send_q := ?q, rz_posted := rz_posted s, rz_sent := rz_sent s\<rparr>"
    by (auto simp: finish_rndzv_send_def split: if_splits)
  have di: "distinct (map rs_id (rz_send_q s))"
    and ent: "\<forall>m \<in> set (rz_send_q s). rs_id m < rz_next s \<and> (rs_buf m = None \<longleftrightarrow> rs_index m \<noteq> -1) \<and> (rs_buf m = None \<longrightarrow> \<not> rs_done m \<and> 0 \<le> rs_index m)
         \<and> (\<forall>d. rs_buf m = Some d \<longrightarrow> rs_nbytes m = int (length d))"
    and pq: "\<forall>x \<in> set xs. \<exists>m \<in> set (rz_send_q s). rs_id m = x \<and> rs_buf m \<noteq> None \<and> \<not> rs_done m"
    and lk: "\<forall>m \<in> set (rz_send_q s). rs_buf m \<noteq> None \<and> \<not> rs_done m \<and> rs_id m \<notin> set xs \<longrightarrow> rz_mnext s (rs_id m) = None"
    and more: "posted_chain (rz_mnext s) (rz_posted s) xs" "distinct xs" "length xs = rz_sent s + length (rz_data s)"
      "drop (rz_sent s) xs = map fst (rz_data s)"
      "\<forall>r \<in> set (ready_sends (rz_send_q s)). \<forall>x \<in> set (pending_sends xs (rz_send_q s)). \<not> meets r x"
    using xs unfolding rz_sender_def by - (elim conjE, assumption)+
  have dn: "rs_done m \<and> rs_buf m \<noteq> None" if "m \<in> set (rz_send_q s)" "rs_id m = i" for m
    using same_key [OF di that(1) m0(1)] that(2) m0 ent by auto
  then have dn': "\<forall>m \<in> set (rz_send_q s). rs_id m = i \<longrightarrow> rs_done m \<and> rs_buf m \<noteq> None" by blast
  have fl: "filter (\<lambda>m. rs_buf m = None) ?q = filter (\<lambda>m. rs_buf m = None) (rz_send_q s)"
    unfolding filter_filter by (rule filter_cong) (use dn' in auto)
  have pend: "pending_sends ys ?q = pending_sends ys (rz_send_q s)" for ys
    unfolding pending_sends_def filter_filter by (rule arg_cong [where f = "map _"], rule filter_cong) (use dn' in auto)
  have rd: "ready_sends ?q = ready_sends (rz_send_q s)" by (simp only: ready_sends_def fl)
  have ne: "\<forall>x \<in> set xs. \<exists>m \<in> set ?q. rs_id m = x \<and> rs_buf m \<noteq> None \<and> \<not> rs_done m"
  proof
    fix x assume "x \<in> set xs"
    then obtain m where m: "m \<in> set (rz_send_q s)" "rs_id m = x" "rs_buf m \<noteq> None" "\<not> rs_done m" using pq by auto
    with dn [of m] show "\<exists>m \<in> set ?q. rs_id m = x \<and> rs_buf m \<noteq> None \<and> \<not> rs_done m" by (intro bexI [of _ m]) auto
  qed
  have "rz_sender s' xs" unfolding rz_sender_def
  proof (intro conjI)
    have sub: "set (rz_send_q s') \<subseteq> set (rz_send_q s)" by (auto simp: s')
    show "\<forall>m \<in> set (rz_send_q s'). rs_id m < rz_next s' \<and> (rs_buf m = None \<longleftrightarrow> rs_index m \<noteq> -1) \<and> (rs_buf m = None \<longrightarrow> \<not> rs_done m \<and> 0 \<le> rs_index m)
         \<and> (\<forall>d. rs_buf m = Some d \<longrightarrow> rs_nbytes m = int (length d))" using ent sub by (auto simp: s')
    show "\<forall>m \<in> set (rz_send_q s'). rs_buf m \<noteq> None \<and> \<not> rs_done m \<and> rs_id m \<notin> set xs \<longrightarrow> rz_mnext s' (rs_id m) = None"
      using lk sub by (auto simp: s')
    show "\<forall>x \<in> set xs. \<exists>m \<in> set (rz_send_q s'). rs_id m = x \<and> rs_buf m \<noteq> None \<and> \<not> rs_done m" using ne by (simp add: s')
    show "distinct (map rs_id (rz_send_q s'))" using di by (simp add: s' distinct_map_filter)
  qed (use more in \<open>simp_all add: s' rd pend\<close>)
  then show ?thesis by (rule queue_refines [OF inv _ _ _ s']) (simp_all add: s' fl pend sender_posted [OF xs] del: filter_filter)
qed

text \<open>A finished receive is not under way.\<close>

lemma done_not_under_way:
  assumes "recv_inv s" and "r \<in> set (rz_recv_q s)" and "rr_done r"
  shows "rr_id r \<notin> fst ` set (under_way s)"
proof
  assume "rr_id r \<in> fst ` set (under_way s)"
  then obtain t where "(rr_id r, t) \<in> set (under_way s)" by auto
  with under_way_distinct(4) [OF assms(1)] obtain r' where r': "r' \<in> set (rz_recv_q s)" "rr_id r' = rr_id r" "\<not> rr_done r'" by blast
  have "distinct (map rr_id (rz_recv_q s))" using assms(1) unfolding recv_inv_def by - (elim conjE, assumption)
  from same_key [OF this r'(1) assms(2) r'(2)] r'(3) assms(3) show False by simp
qed

lemma wait_recv_refines:
  assumes inv: "rndzv_inv s" and f: "finish_rndzv_recv i s = Some s'"
  shows "refines_step s s'"
proof -
  obtain xs where xs: "rz_sender s xs" and tok: "token_inv s" and rin: "recv_inv s" using inv by (auto simp: rndzv_inv_def rz_send_inv_alt)
  let ?q = "filter (\<lambda>r. rr_id r \<noteq> i) (rz_recv_q s)" and ?U = "\<lambda>q. filter (\<lambda>r. \<not> rr_done r) q"
  from f obtain r0 where r0: "r0 \<in> set (rz_recv_q s)" "rr_id r0 = i" "rr_done r0" and s': "s' = s\<lparr>rz_recv_q := ?q\<rparr>"
    by (auto simp: finish_rndzv_recv_def split: if_splits)
  have r: "distinct (map rr_index (rz_recv_q s))" "distinct (map rr_id (rz_recv_q s))" "\<forall>r \<in> set (rz_recv_q s). rr_id r < rz_next s"
    "mset (map snd (under_way s) @ map int (rz_landed s)) = mset (map rr_index (?U (rz_recv_q s)))"
    "\<forall>(a, t) \<in> set (under_way s). \<exists>r \<in> set (rz_recv_q s). rr_id r = a \<and> rr_index r = t"
    "\<forall>r \<in> set (rz_recv_q s). rr_done r \<or> rr_index r \<in> int ` set (rz_landed s) \<longrightarrow> rz_mem s (rr_id r) \<noteq> None"
    using rin unfolding recv_inv_def by - (elim conjE, assumption)+
  have "\<forall>r \<in> set (rz_recv_q s). rr_id r = i \<longrightarrow> rr_done r" using same_key [OF r(2) _ r0(1)] r0(2,3) by metis
  then have U: "?U ?q = ?U (rz_recv_q s)" unfolding filter_filter by (auto intro: filter_cong)
  have uw: "under_way s' = under_way s" by (simp add: under_way_def rtrs_def s')
  have "recv_inv s'" unfolding recv_inv_def uw
  proof (intro conjI)
    show "distinct (map rr_index (rz_recv_q s'))" "distinct (map rr_id (rz_recv_q s'))" "\<forall>r \<in> set (rz_recv_q s'). rr_id r < rz_next s'"
      using r(1-3) by (simp_all add: s' distinct_map_filter)
    show "mset (map snd (under_way s) @ map int (rz_landed s')) = mset (map rr_index (?U (rz_recv_q s')))"
      using r(4) U by (simp add: s' del: filter_filter)
    show "\<forall>(a, t) \<in> set (under_way s). \<exists>r \<in> set (rz_recv_q s'). rr_id r = a \<and> rr_index r = t"
    proof clarify
      fix a t assume at: "(a, t) \<in> set (under_way s)"
      from bspec [OF r(5) at] obtain r where m: "r \<in> set (rz_recv_q s)" "rr_id r = a" "rr_index r = t" by auto
      have "i \<notin> fst ` set (under_way s)" using done_not_under_way [OF rin r0(1,3)] r0(2) by simp
      then have "a \<noteq> i" using at by force
      with m show "\<exists>r \<in> set (rz_recv_q s'). rr_id r = a \<and> rr_index r = t" by (intro bexI [of _ r]) (simp_all add: s')
    qed
    show "\<forall>r \<in> set (rz_recv_q s'). rr_done r \<or> rr_index r \<in> int ` set (rz_landed s') \<longrightarrow> rz_mem s' (rr_id r) \<noteq> None"
      using r(6) by (auto simp: s')
  qed
  moreover have "token_inv s'" using tok U by (simp add: token_inv_def s' del: filter_filter)
  moreover have sx: "rz_sender s' xs" by (rule sender_same [OF xs]) (simp_all add: s')
  ultimately have "rndzv_inv s'" by (auto simp: rndzv_inv_def rz_send_inv_alt)
  moreover have "rendezvous_of s' = rendezvous_of s"
  proof -
    have g: "rz_got s' = rz_got s" by (rule got_cong) (simp_all add: s')
    have t: "rtrs s' = rtrs s" by (rule rtrs_cong) (simp_all add: s')
    show ?thesis unfolding rendezvous_view [OF xs] rendezvous_view [OF sx] g t by (simp add: s')
  qed
  ultimately show ?thesis by (rule refines_none)
qed

section \<open>The adapter\<close>

lemma quiet_refines:
  assumes inv: "rndzv_inv s" and "token_inv s'" and t: "rtrs s' = rtrs s"
    and s': "s' = s\<lparr>rz_msgs_in := a, rz_send_rr := b, rz_rtr_posted := c, rz_rtr_arrived := d, rz_ack := e, rz_acks := f\<rparr>"
  shows "refines_step s s'"
proof -
  obtain xs where xs: "rz_sender s xs" and rin: "recv_inv s" using inv by (auto simp: rndzv_inv_def rz_send_inv_alt)
  have sx: "rz_sender s' xs" by (rule sender_same [OF xs]) (simp_all add: s')
  have g: "rz_got s' = rz_got s" by (rule got_cong) (simp_all add: s')
  have "under_way s' = under_way s" unfolding under_way_def t by (simp add: s')
  then have "recv_inv s'" using rin by (simp add: recv_inv_def) (simp add: s')
  with assms(2) sx have "rndzv_inv s'" by (auto simp: rndzv_inv_def rz_send_inv_alt)
  moreover have "rendezvous_of s' = rendezvous_of s"
    unfolding rendezvous_view [OF xs] rendezvous_view [OF sx] g t by (simp add: s')
  ultimately show ?thesis by (rule refines_none)
qed

lemma write_rtr_refines:
  assumes inv: "rndzv_inv s" and p: "0 < rz_rtr_posted s"
  shows "\<exists>s'. hca_rtr s = Inr s' \<and> refines_step s s'"
proof -
  have tok: "token_inv s" using inv by (simp add: rndzv_inv_def)
  then have z: "rz_rtr_posted s = 1" "rz_rtr_arrived s = 0" "rz_acks s = 0" "\<not> rz_ack s" "rz_send_rr s = 1"
    using p by (auto simp: token_inv_def split: if_splits)
  let ?s = "s\<lparr>rz_msgs_in := rz_msgs_out s, rz_send_rr := 0, rz_rtr_posted := 0, rz_rtr_arrived := 1, rz_ack := rz_ack s, rz_acks := rz_acks s\<rparr>"
  have "hca_rtr s = Inr ?s" using z by (simp add: hca_rtr_def)
  moreover have "refines_step s ?s"
    by (rule quiet_refines [OF inv _ _ refl]) (use tok z in \<open>simp_all add: token_inv_def rtrs_def\<close>)
  ultimately show ?thesis by blast
qed

lemma write_ack_refines:
  assumes inv: "rndzv_inv s" and p: "0 < rz_acks s"
  shows "refines_step s (hca_ack s)"
proof -
  have tok: "token_inv s" using inv by (simp add: rndzv_inv_def)
  then have z: "rz_rtr_posted s = 0" "rz_rtr_arrived s = 0" "rz_acks s = 1" "\<not> rz_ack s"
    using p by (auto simp: token_inv_def split: if_splits)
  have "hca_ack s = s\<lparr>rz_msgs_in := rz_msgs_in s, rz_send_rr := rz_send_rr s, rz_rtr_posted := rz_rtr_posted s,
      rz_rtr_arrived := rz_rtr_arrived s, rz_ack := True, rz_acks := rz_acks s - 1\<rparr>"
    by (cases s) (simp add: hca_ack_def)
  then show ?thesis by (rule quiet_refines [OF inv, rotated 2]) (use tok z in \<open>simp_all add: hca_ack_def token_inv_def rtrs_def\<close>)
qed

text \<open>A write of data finds a posted receive, and its buffer is that of the receive with its number.\<close>

lemma write_data_refines:
  assumes inv: "rndzv_inv s" and ne: "rz_data s \<noteq> []"
  shows "\<exists>s'. hca_data s = Inr s' \<and> refines_step s s'"
proof -
  obtain xs where xs: "rz_sender s xs" and tok: "token_inv s" and rin: "recv_inv s" using inv by (auto simp: rndzv_inv_def rz_send_inv_alt)
  from ne obtain i a d t ds where da: "rz_data s = (i, a, d, t) # ds" by (cases "rz_data s") auto
  define s' where "s' = s\<lparr>rz_mem := (rz_mem s)(a := Some d), rz_data := ds, rz_recv_rr := rz_recv_rr s - 1,
         rz_sent := rz_sent s + 1, rz_landed := rz_landed s @ [t]\<rparr>"
  let ?U = "filter (\<lambda>r. \<not> rr_done r) (rz_recv_q s)"
  have r: "distinct (map rr_index (rz_recv_q s))" "distinct (map rr_id (rz_recv_q s))" "\<forall>r \<in> set (rz_recv_q s). rr_id r < rz_next s"
    "mset (map snd (under_way s) @ map int (rz_landed s)) = mset (map rr_index ?U)"
    "\<forall>(a, t) \<in> set (under_way s). \<exists>r \<in> set (rz_recv_q s). rr_id r = a \<and> rr_index r = t"
    "\<forall>r \<in> set (rz_recv_q s). rr_done r \<or> rr_index r \<in> int ` set (rz_landed s) \<longrightarrow> rz_mem s (rr_id r) \<noteq> None"
    using rin unfolding recv_inv_def by - (elim conjE, assumption)+
  have at: "(a, int t) \<in> set (under_way s)" by (simp add: under_way_def da)
  then have rr: "0 < rz_recv_rr s" using tok under_way_distinct(3) [OF rin] by (cases "under_way s") (auto simp: token_inv_def)
  then have h: "hca_data s = Inr s'" by (simp add: hca_data_def da s'_def)
  have t: "rtrs s' = rtrs s" by (rule rtrs_cong) (simp_all add: s'_def)
  have uw: "set (under_way s') \<subseteq> set (under_way s)" "mset (map snd (under_way s)) = add_mset (int t) (mset (map snd (under_way s')))"
    unfolding under_way_def t by (simp_all add: da s'_def) blast
  from bspec [OF r(5) at] obtain r0 where r0: "r0 \<in> set (rz_recv_q s)" "rr_id r0 = a" "rr_index r0 = int t" by auto
  have only: "\<forall>r \<in> set (rz_recv_q s). rr_index r = int t \<longrightarrow> rr_id r = a" using same_key [OF r(1) _ r0(1)] r0(2,3) by metis
  have "recv_inv s'" unfolding recv_inv_def
  proof (intro conjI)
    show "distinct (map rr_index (rz_recv_q s'))" "distinct (map rr_id (rz_recv_q s'))" "\<forall>r \<in> set (rz_recv_q s'). rr_id r < rz_next s'"
      using r(1-3) by (simp_all add: s'_def)
    show "mset (map snd (under_way s') @ map int (rz_landed s')) = mset (map rr_index (filter (\<lambda>r. \<not> rr_done r) (rz_recv_q s')))"
      using r(4) uw(2) by (simp add: s'_def)
    show "\<forall>(a, t) \<in> set (under_way s'). \<exists>r \<in> set (rz_recv_q s'). rr_id r = a \<and> rr_index r = t"
    proof
      fix x assume "x \<in> set (under_way s')"
      with uw(1) have "x \<in> set (under_way s)" by blast
      from bspec [OF r(5) this] show "case x of (a, t) \<Rightarrow> \<exists>r \<in> set (rz_recv_q s'). rr_id r = a \<and> rr_index r = t" by (simp add: s'_def)
    qed
    show "\<forall>r \<in> set (rz_recv_q s'). rr_done r \<or> rr_index r \<in> int ` set (rz_landed s') \<longrightarrow> rz_mem s' (rr_id r) \<noteq> None"
      using r(6) only by (auto simp: s'_def)
  qed
  moreover have "token_inv s'" using tok rr by (auto simp: token_inv_def s'_def)
  moreover have sx: "rz_sender s' xs"
  proof -
    have "length xs = rz_sent s + length (rz_data s)" "drop (rz_sent s) xs = map fst (rz_data s)"
      using xs unfolding rz_sender_def by - (elim conjE, assumption)+
    then have "length xs = rz_sent s' + length (rz_data s')" "drop (rz_sent s') xs = map fst (rz_data s')"
      using tl_drop [of "rz_sent s" xs] by (simp_all add: s'_def da drop_Suc)
    moreover have "rz_send_q s' = rz_send_q s" "rz_next s' = rz_next s" "rz_mnext s' = rz_mnext s" "rz_posted s' = rz_posted s"
      by (simp_all add: s'_def)
    ultimately show ?thesis using xs unfolding rz_sender_def by (simp only:) blast
  qed
  ultimately have "rndzv_inv s'" by (auto simp: rndzv_inv_def rz_send_inv_alt)
  moreover have "rendezvous_of s' = rendezvous_of s"
  proof -
    have "distinct (map fst (under_way s))" by (rule under_way_distinct(2) [OF rin])
    then have "a \<notin> (\<lambda>(i, a, d, t). a) ` set ds" unfolding under_way_addrs da by simp
    then have "map_of (map (\<lambda>(i, a, d, t). (a, d)) ds) a = None" by (force simp: map_of_eq_None_iff)
    then have g: "rz_got s' = rz_got s" by (intro ext) (auto simp: rz_got_def s'_def da split: option.split)
    show ?thesis unfolding rendezvous_view [OF xs] rendezvous_view [OF sx] g t by (simp add: s'_def)
  qed
  ultimately show ?thesis using h refines_none by blast
qed

section \<open>All runs with care\<close>

lemma start_inv_rndzv: "rndzv_inv rndzv_start"
  by (simp add: rndzv_inv_def token_inv_def rz_send_inv_def recv_inv_def under_way_def rtrs_def posted_ids_def rndzv_start_def)

lemma care_step:
  assumes inv: "rndzv_inv s" and st: "rndzv_step True s r"
  shows "\<exists>s'. r = Inr s' \<and> refines_step s s'"
  using st
proof cases
  case (asend tag data s')
  with asend_refines [OF inv, of tag data] show ?thesis by auto
next
  case (arecv nbytes tag s')
  then show ?thesis using arecv_refines [OF inv] by (auto simp: rndzv_act_ok_def)
next
  case (rtr s')
  with rtr_refines [OF inv] show ?thesis by auto
next
  case (data t ts)
  with data_refines [OF inv, of t ts] show ?thesis by auto
next
  case sent
  with sent_refines [OF inv] show ?thesis by auto
next
  case (wait_send i s')
  with wait_send_refines [OF inv] show ?thesis by blast
next
  case (wait_recv i s')
  with wait_recv_refines [OF inv] show ?thesis by blast
next
  case write_rtr
  with write_rtr_refines [OF inv] show ?thesis by auto
next
  case write_ack
  with write_ack_refines [OF inv] show ?thesis by blast
next
  case write_data
  with write_data_refines [OF inv] show ?thesis by auto
qed simp

lemma care_run:
  assumes "rndzv_run True s r" and "rndzv_inv s"
  shows "\<exists>s'. r = Inr s' \<and> refines_step s s'"
  using assms
proof (induction rule: rndzv_run.induct)
  case (rndzv_refl s)
  then show ?case by (simp add: refines_step_def)
next
  case (rndzv_more s s' r)
  then have a: "refines_step s s'" by simp
  then have "rndzv_inv s'" by (simp add: refines_step_def)
  from care_step [OF this rndzv_more(2)] obtain t where "r = Inr t" "refines_step s' t" by blast
  with a show ?case by (auto simp: refines_step_def)
qed

lemma received_data:
  assumes inv: "rndzv_inv s" and r: "r \<in> set (rz_recv_q s)" "rr_done r"
  shows "rz_mem s (rr_id r) \<noteq> None \<and> rm_got (rendezvous_of s) (rr_id r) = rz_mem s (rr_id r)"
proof -
  have rin: "recv_inv s" using inv by (simp add: rndzv_inv_def)
  have "\<forall>r \<in> set (rz_recv_q s). rr_done r \<or> rr_index r \<in> int ` set (rz_landed s) \<longrightarrow> rz_mem s (rr_id r) \<noteq> None"
    using rin unfolding recv_inv_def by - (elim conjE, assumption)
  moreover have "rr_id r \<notin> (\<lambda>(i, a, d, t). a) ` set (rz_data s)"
    using done_not_under_way [OF rin r] unfolding set_map [symmetric] under_way_addrs by simp
  then have "map_of (map (\<lambda>(i, a, d, t). (a, d)) (rz_data s)) (rr_id r) = None" by (force simp: map_of_eq_None_iff)
  ultimately show ?thesis using r by (simp add: rendezvous_of_def rz_got_def)
qed

end
