(* ===== verification/IbRndzvRace.thy ===== *)
theory IbRndzvRace
  imports IbRndzvRuns
begin

text \<open>A race in the rendezvous messages of \<open>IbRndzv\<close>, with programs that only use blocking calls.\<close>

datatype rndzv_act = Send int "8 word list" | Recv int int | Rtr | Data | Sent | WaitRecv nat | WriteRtr | WriteAck | WriteData

fun rndzv_do :: "rndzv_act \<Rightarrow> rndzv \<Rightarrow> rndzv outcome option" where
  "rndzv_do (Send tag d) s = map_option Inr (ib_rndzv_asend tag d s)"
| "rndzv_do (Recv n tag) s = ib_rndzv_arecv n tag s"
| "rndzv_do Rtr s = (if 0 < rz_rtr_arrived s then map_option Inr (handle_rtr (s\<lparr>rz_rtr_arrived := rz_rtr_arrived s - 1\<rparr>)) else None)"
| "rndzv_do Data s = (case rz_landed s of [] \<Rightarrow> None | t # ts \<Rightarrow> Some (handle_data t (s\<lparr>rz_landed := ts\<rparr>)))"
| "rndzv_do Sent s = (if 0 < rz_sent s then Some (ib_rndzv_handle_send (s\<lparr>rz_sent := rz_sent s - 1\<rparr>)) else None)"
| "rndzv_do (WaitRecv i) s = map_option Inr (finish_rndzv_recv i s)"
| "rndzv_do WriteRtr s = (if 0 < rz_rtr_posted s then Some (hca_rtr s) else None)"
| "rndzv_do WriteAck s = (if 0 < rz_acks s then Some (Inr (hca_ack s)) else None)"
| "rndzv_do WriteData s = (if rz_data s \<noteq> [] then Some (hca_data s) else None)"

fun rndzv_acts :: "rndzv_act list \<Rightarrow> rndzv \<Rightarrow> rndzv option" where
  "rndzv_acts [] s = Some s"
| "rndzv_acts (a # as) s = (case rndzv_do a s of Some (Inr s') \<Rightarrow> rndzv_acts as s' | _ \<Rightarrow> None)"

lemma rndzv_do_step:
  assumes "rndzv_do a s = Some r"
  shows "rndzv_step False s r"
proof (cases a)
  case (Recv n tag)
  with assms show ?thesis by (cases r) (auto intro: rndzv_step.arecv rndzv_step.arecv_full simp: rndzv_act_ok_def)
qed (use assms in \<open>auto intro: rndzv_step.intros(1,4-) split: if_splits list.splits simp del: One_nat_def\<close>)

lemma rndzv_acts_run: "rndzv_acts as s' = Some s'' \<Longrightarrow> rndzv_run False s (Inr s') \<Longrightarrow> rndzv_run False s (Inr s'')"
  by (induction as s' rule: rndzv_acts.induct) (auto split: option.splits sum.splits intro: rndzv_more rndzv_do_step)

text \<open>
  One message is sent and received; the next receive with the same tag announces itself before the sender
  has handled the completion of the first message.
\<close>

definition one_send_two_recvs :: "rndzv_act list" where
  "one_send_two_recvs = [Send 7 [1], Recv 8 7, WriteRtr, Rtr, WriteAck, WriteData, Data, WaitRecv 1,
     Recv 8 7, WriteRtr, Rtr, WriteAck, WriteData, Data]"

text \<open>
  C24.  The message is received twice: both receives are complete and have its data, although it was
  the only one that was sent.
\<close>

theorem rndzv_received_twice:
  "\<exists>s. rndzv_run False rndzv_start (Inr s) \<and> rndzv_acts one_send_two_recvs rndzv_start = Some s
     \<and> rz_mem s 1 = Some [1] \<and> rz_mem s 2 = Some [1] \<and> map rr_done (rz_recv_q s) = [True]"
proof -
  have "map_option (\<lambda>s. (rz_mem s 1, rz_mem s 2, map rr_done (rz_recv_q s))) (rndzv_acts one_send_two_recvs rndzv_start)
     = Some (Some [1], Some [1], [True])"
    by code_simp
  then obtain s where s: "rndzv_acts one_send_two_recvs rndzv_start = Some s" "rz_mem s 1 = Some [1]" "rz_mem s 2 = Some [1]"
    "map rr_done (rz_recv_q s) = [True]" by auto
  have "rndzv_run False rndzv_start (Inr s)" by (rule rndzv_acts_run [OF s(1) rndzv_refl])
  with s show ?thesis by (intro exI [of _ s] conjI)
qed

text \<open>
  The message is then in the queue of posted messages twice, with a pointer to itself: when the next
  message is matched, the handler follows it for ever, with the lock held.
\<close>

definition third_recv :: "rndzv_act list" where
  "third_recv = one_send_two_recvs @ [Sent, Sent, Send 7 [2], WaitRecv 2, Recv 8 7, WriteRtr]"

theorem rndzv_handler_hangs:
  "\<exists>s. rndzv_run False rndzv_start (Inr s) \<and> rz_rtr_arrived s = 1 \<and> handle_rtr (s\<lparr>rz_rtr_arrived := 0\<rparr>) = None"
proof -
  let ?view = "\<lambda>s. (rz_rtr_arrived s, rz_posted s, rz_mnext s 0, rz_msgs_in s, rz_send_q s)"
  have "map_option ?view (rndzv_acts third_recv rndzv_start)
     = Some (1, Some 0, Some 0, \<lparr>rt_addr = 4, rt_tag = 7, rt_nbytes = 8, rt_trans = 4\<rparr>,
        [(user_send 0 7 [1])\<lparr>rs_done := True\<rparr>, user_send 3 7 [2]])"
    by code_simp
  then obtain s where s: "rndzv_acts third_recv rndzv_start = Some s" "rz_rtr_arrived s = 1" "rz_posted s = Some 0" "rz_mnext s 0 = Some 0"
    "rz_msgs_in s = \<lparr>rt_addr = 4, rt_tag = 7, rt_nbytes = 8, rt_trans = 4\<rparr>"
    "rz_send_q s = [(user_send 0 7 [1])\<lparr>rs_done := True\<rparr>, user_send 3 7 [2]]" by auto
  have "handle_rtr (s\<lparr>rz_rtr_arrived := 0\<rparr>) = None"
    using s(3-6) last_posted_cycle [of "rz_mnext s" 0]
    by (simp add: handle_rtr_def rndzv_posts user_send_def rz_accepts_def post_rndzv_def Let_def)
  with rndzv_acts_run [OF s(1) rndzv_refl] s(2) show ?thesis by blast
qed

end
