(* ===== verification/Spec2Isabelle.thy ===== *)
theory Spec2Isabelle
  imports Tcp Schedule Mpi Theo Memcpy Disk Driver Stats Work Fifo Cart Reduction Gather Broadcast Messages Status Utils Shm Sending InOrder Matching LockUsers TokenRing Fence LinkedQ OneSided IbRegions Bakery IbEagerRuns IbRndzvRefines
begin

text \<open>
  A verification development for NetPIPE 5.x: the benchmark itself (\<open>src/src\<close>) and the
  message-passing library MP_Lite that is distributed with it (\<open>src/MP_Lite\<close>).

  \<^bold>\<open>The program.\<close>  NetPIPE measures how fast messages of growing sizes go between pairs of
  processes.  \<open>netpipe.c\<close> is the core: \<open>main()\<close> reads the options, asks the module to set up the
  communication, chooses the message sizes and the number of repeats, allocates the buffers, lets
  the two processes of a pair exchange messages and reports times and throughputs.  A module
  (\<open>tcp.c\<close>, \<open>mpi.c\<close>, \<open>theo.c\<close>, \<open>memcpy.c\<close>, \<open>disk.c\<close>) supplies the \<open>Module_\<close> functions,
  \<open>SendData\<close> and \<open>RecvData\<close>; linking the core with one of them gives one program.  MP_Lite is a
  library with the calls of MPI: \<open>mpcore.c\<close> holds collective operations and the status file,
  \<open>utils.c\<close> what its network drivers share, \<open>shm.c\<close> and \<open>fifo.c\<close> the messages between
  processes of one machine.

  \<^bold>\<open>Conventions.\<close>  C structs and groups of static variables are records, \<open>int\<close> values are
  \<open>int\<close> with the overflow written out or excluded by a theorem, bytes are \<open>8 word\<close>, pointers
  are integers into a memory that is a function, \<open>double\<close> values are real numbers (rounding is
  not modelled, except that the reductions of MP_Lite take any commutative operation).  A failed
  \<open>ERRCHECK\<close>, a call of \<open>errorx\<close> or an undefined operation is a value \<open>Inl\<close> of the type
  \<open>outcome\<close>.  What the system answers (bytes transferred by a \<open>read\<close>, refused connections,
  measured times) is an argument of the definition that models the code.  Loops that need not end
  take fuel or a list of answers, and \<open>None\<close> says that they are still running.

  \<^bold>\<open>The core.\<close>
  \<^item> \<open>Prelude\<close>: errors, C division, \<open>atoi\<close>, storing a block into a list, powers of two.
  \<^item> \<open>Globals\<close>: the variables of \<open>netpipe.h\<close>, the defaults of \<open>main()\<close>, roles and pairs.
  \<^item> \<open>Args\<close>: the command line.  The locale \<open>np_options\<close> and its extension \<open>np_module\<close> say what a
    module's \<open>Module_ArgOpt\<close> has to keep; every module is an interpretation.
  \<^item> \<open>Driver\<close>: \<open>main()\<close> around a module, the locale \<open>np_program\<close>, one interpretation for each
    of NPtcp, NPmpi, NPtheo and NPmemcpy.
  \<^item> \<open>Schedule\<close>: the loop over the message sizes and its perturbations, with the measured times as
    a parameter; termination, the sizes that are tested, balanced allocation, absence of overflow.
    A round makes at most three tests, so the inner loop has fuel 4; the outer loop needs
    \<open>end - start + 2\<close> rounds at most because the size grows in each.
  \<^item> \<open>Buffers\<close>: \<open>MallocBufs\<close>, \<open>AdvancePtrs\<close> and the saved pointers; the messages lie inside the
    allocation, for ever.
  \<^item> \<open>Integrity\<close>: the tags and patterns of a message and their check.
  \<^item> \<open>PingPong\<close>: the timed loops of a pair of processes as a step relation over a channel; the
    locale \<open>transport\<close> is the contract of a module's \<open>SendData\<close> and \<open>RecvData\<close>, under which a
    trial counts no failure, never blocks and ends.
  \<^item> \<open>Stats\<close> and \<open>Work\<close>: times, throughputs, latency and bandwidth; the workload of \<open>DoWork\<close>.

  \<^bold>\<open>The modules.\<close>
  \<^item> \<open>Tcp\<close>: options, partial reads and writes, connecting, and the interpretation of
    \<open>transport\<close>.
  \<^item> \<open>Mpi\<close>: the calls made to MPI with their tags and request slots.
  \<^item> \<open>Theo\<close>: the computed time of a message; \<open>Memcpy\<close>: the copy loops and the pipe; \<open>Disk\<close>:
    the calls of the read, write and copy tests.

  \<^bold>\<open>MP_Lite.\<close>
  \<^item> \<open>Doubling\<close>: the recursive doubling that \<open>MP_Global\<close> and \<open>MP_Global_gather\<close> of \<open>mpcore.c\<close>
    share, for any number of processes, with the table \<open>trial\<close> of the processes that exist.  Every
    receive has its send.  The locale \<open>doubling\<close> is the contract of one exchange.
  \<^item> \<open>Reduction\<close> and \<open>Gather\<close>: the two operations with their wrappers, interpretations of
    \<open>doubling\<close>.
  \<^item> \<open>Broadcast\<close>: the tree of \<open>MP_Bcast_masked\<close> in all interleavings (locale \<open>bcast_tree\<close>).
  \<^item> \<open>Messages\<close>: the typed wrappers, \<open>MP_SSend\<close> and the handshake of \<open>MP_SShift\<close>.
  \<^item> \<open>Cart\<close>: the Cartesian mesh.  \<open>Status\<close>: the status file, errors and the watchdog.
  \<^item> \<open>Utils\<close>: splitting a message over network cards, buffered messages, socket sizes.
  \<^item> \<open>Fifo\<close> and \<open>Shm\<close>: the rings of offsets (locale \<open>bounded_queue\<close>, and the interleavings of
    one writer with one reader), the pool of messages, receiving and the barrier \<open>smp_sync\<close>.

  \<^item> \<open>Sending\<close>, \<open>Receiving\<close>: the asynchronous messages of \<open>tcp.c\<close> between two processes with one
    network card: message headers in \<open>msg_list\<close>, the queues \<open>send_q\<close>, \<open>recv_q\<close> and \<open>msg_q\<close>, partial
    transfers, the signal handler.  The connection is a list of header and data bytes; the answers
    of the system to \<open>read\<close> and \<open>write\<close> are a list in the state, so the loops end when it does.
    \<open>InOrder\<close> shows that receives posted in the order of the sends get their messages;
    \<open>Matching\<close> what happens to messages that come early or in another order.

  \<^item> \<open>Ring\<close>, \<open>Locks\<close>, \<open>LockUsers\<close>: the locks of a window, \<open>do_lock\<close> and \<open>try_lock\<close> of \<open>tcp.c\<close>
    with the ring of waiting requests (an interpretation of \<open>bounded_queue\<close>); they refine an
    abstract lock for readers and writers, and with the processes that use them they exclude each
    other, lose no request and answer each.
  \<^item> \<open>TokenRing\<close> and \<open>Fence\<close>: \<open>tcp_sync\<close> and \<open>MP_Win_fence\<close> as step relations over the processes;
    both are barriers, and only a late process makes others wait.
  \<^item> \<open>LinkedQ\<close>: the queues of outstanding one-sided operations, linked lists in an explicit heap.
  \<^item> \<open>OneSided\<close>: the addresses and checks of put, get and accumulate and the handler of the signal
    that reads the messages of these operations from a socket in pieces.

  \<^item> \<open>RbTree\<close>, \<open>RbShape\<close>, \<open>RbInsert\<close>, \<open>RbStore\<close>, \<open>RbDelete\<close>, \<open>RbErase\<close>: the red-black tree of
    \<open>ib.c\<close> as nodes in a heap with the sentinel \<open>nilnode\<close>, and its refinement of a map; every loop ends.
    \<open>IbRegions\<close>: the memory regions that the tree holds (locale \<open>region_store\<close>), \<open>register_memory_region\<close> and
    the clean-up.  The adapter's answers are arguments.
  \<^item> \<open>IbEager\<close>, \<open>IbEagerFlow\<close>, \<open>IbEagerRuns\<close>: the eager messages of \<open>ib.c\<close> from one process to another,
    with four buffers on each side and counters that wrap around.  The adapter is the environment: it carries
    out sends and remote writes in their order, at any time, and a send without a posted receive is an error.  Every
    interleaving of programs, handlers and adapter refines an unbounded mailbox.
  \<^item> \<open>IbRndzv\<close> and \<open>IbRndzvRuns\<close>, \<open>IbRndzvSteps\<close>, \<open>IbRndzvRecv\<close>, \<open>IbRndzvCare\<close>, \<open>IbRndzvRefines\<close>: its
    rendezvous messages, with the queue of posted messages as pointers, the transaction numbers and the token that
    RTR messages and acknowledgements pass on.  With care about the order of completions they refine an abstract
    rendezvous; \<open>IbRndzvRace\<close> shows what happens without.  The search for a number has as many rounds of fuel
    as there are numbers, which is enough (\<open>trans_id_loop_result\<close>).
  \<^item> \<open>Bakery\<close>: the lock of \<open>lock.c\<close> for machines without atomic instructions, each access to the shared
    arrays a step; mutual exclusion, first come first served and progress.

  \<^bold>\<open>Across the components.\<close>  This theory states what \<open>main()\<close> guarantees for every command line:
  consistent options, termination, and, for NPtcp, that every trial of the run is right.

  \<^bold>\<open>What goes wrong.\<close>  Where the code does not do what it is meant to do, the definitions follow the
  code and a theorem states the behaviour, for example \<open>burst_nocache_null_deref\<close>,
  \<open>mpi_doubles_short\<close>, \<open>pipe_failed_read_writes_before_buffer\<close>, \<open>smp_send_overwrites\<close>,
  \<open>set_message_stale\<close>, \<open>same_tag_garbled\<close>, \<open>errorx_returns_without_file\<close>,
  \<open>full_ring_loses_requests\<close>, \<open>waiting_for_last_dangles\<close>, \<open>lock_requests_mix\<close>,
  \<open>del_mixes_up_regions\<close>, \<open>eager_wait_overtakes\<close>, \<open>rndzv_received_twice\<close>, \<open>rndzv_handler_hangs\<close>, \<open>bakery_needs_fence\<close>.

  \<^bold>\<open>Not modelled.\<close>  Output to the terminal and the result file, except where the text is checked
  or has a bounded buffer; rounding of doubles; the burst mode and the workload inside the step
  relation of a trial (their operations are modelled in \<open>Mpi\<close>, \<open>Tcp\<close> and \<open>Work\<close>); receives
  of \<open>tcp.c\<close> from any source, its probes and its use of several network cards; of its one-sided
  operations the replies to a get and the calls \<open>MP_Win_start\<close>, \<open>MP_Win_post\<close>, \<open>MP_Win_complete\<close>
  and \<open>MP_Win_wait\<close>, and the one-sided operations in shared memory; of \<open>ib.c\<close> the connection of the
  queue pairs, the dispatch of events and the exchange through a shared file, and all of \<open>via.c\<close>, calls of
  libraries for particular hardware; the locks of \<open>lock.c\<close> through semaphores and machine instructions; parallel files and the wrappers that only rename calls; the modules
  \<open>ibverbs.c\<close>, \<open>shmem.c\<close> and those for one-sided MPI; everything under the two directories
  \<open>extras\<close>, which are not built.
\<close>

section \<open>From the command line to the trials\<close>

text \<open>
  The options that nothing on the command line of a message-passing program changes.
\<close>

lemma core_opt_keeps_disk: "core_opt arg v v2 g = Inr (Some g') \<Longrightarrow> disk g' = disk g"
  unfolding core_opt_def
  apply (elim if_Inr_keeps)
  apply (simp_all only: sum.inject sum.distinct option.inject option.distinct need_opt_Inr
      atoi_opt_Inr Let_def errcheck_Inr)
  apply ((elim exE conjE)?, hypsubst, simp add: set_workload_def Let_def)+
  done

lemma core_opt_keeps_stream: "core_opt arg v v2 g = Inr (Some g') \<Longrightarrow> stream g \<noteq> 0 \<Longrightarrow> stream g' \<noteq> 0"
  unfolding core_opt_def
  apply (elim if_Inr_keeps)
  apply (simp_all only: sum.inject sum.distinct option.inject option.distinct need_opt_Inr
      atoi_opt_Inr Let_def errcheck_Inr)
  apply (auto simp: set_workload_def Let_def)
  done

lemma np_setup_invariant:
  assumes "np_setup M argv m0 = Inr (g, m)"
    and init: "\<And>g1 m1. mod_Init M (init_globals, m0) = (g1, m1) \<Longrightarrow> P (set_roles g1)"
    and core: "\<And>arg v v2 g g'. core_opt arg v v2 g = Inr (Some g') \<Longrightarrow> P g \<Longrightarrow> P g'"
    and opt: "\<And>arg v st st'. mod_ArgOpt M arg v st = Inr st' \<Longrightarrow> P (fst st) \<Longrightarrow> P (fst st')"
    and stp: "\<And>st st'. mod_Setup M st = Inr st' \<Longrightarrow> P (fst st) \<Longrightarrow> P (fst st')"
  shows "P g"
proof -
  obtain g0 m1 where i: "mod_Init M (init_globals, m0) = (g0, m1)" by fastforce
  from assms(1) i obtain st st' where p: "parse_args (mod_ArgOpt M) argv (set_roles g0, m1) = Inr st"
      and s: "mod_Setup M st = Inr st'" and c: "check_opts (fst st') = Inr g"
    by (auto simp: np_setup_def obind_Inr_iff check_opts_def errcheck_def split: if_splits)
  have one: "P (fst st')" if "one_opt (mod_ArgOpt M) arg v v2 st = Inr st'" "P (fst st)"
    for arg v v2 st st'
    using that core [of arg v v2 "fst st"] opt [of arg v st st']
    by (auto simp: one_opt_def obind_Inr_iff split: option.splits)
  have "P (fst st)"
    by (rule parse_args_invariant [where P = "\<lambda>st. P (fst st)", OF one p]) (use init [OF i] in simp_all)
  then have "P (fst st')" by (rule stp [OF s])
  with c show "P g" by (auto simp: check_opts_def errcheck_def split: if_splits)
qed

lemma set_roles_keeps [simp]:
  "disk (set_roles g) = disk g" "stream (set_roles g) = stream g" "bidir (set_roles g) = bidir g"
  by (simp_all add: set_roles_def Let_def)

lemma tcp_setup_disk:
  assumes "np_setup (tcp_program rank n e rc) argv x = Inr (g, t)"
  shows "disk g = 0"
  using assms
  by (rule np_setup_invariant)
     (auto simp: tcp_program_def tcp_Init_def tcp_opts_def tcp_Setup_def Let_def init_globals_def
       map_sum_Inr_iff core_opt_keeps_disk)

lemma mpi_setup_async:
  "np_setup (mpi_program rank n cmp src) argv y = Inr (g, m) \<Longrightarrow> async g = 1"
  by (auto simp: np_setup_def mpi_program_def mpi_Setup_def obind_Inr_iff check_opts_def
      errcheck_def Let_def split: if_splits prod.splits)

lemma theo_setup_stream:
  assumes "np_setup theo_program argv x = Inr (g, t)"
  shows "stream g \<noteq> 0"
  using assms
  by (rule np_setup_invariant)
     (auto simp: theo_program_def theo_Init_def theo_opts_def map_sum_Inr_iff
       dest: core_opt_keeps_stream)

lemma mcpy_setup_stream:
  assumes "np_setup (mcpy_program rank n pe) argv x = Inr (g, t)"
  shows "stream g \<noteq> 0"
  using assms
  by (rule np_setup_invariant)
     (auto simp: mcpy_program_def mcpy_Init_def mcpy_opts_def map_sum_Inr_iff
       dest: core_opt_keeps_stream)

text \<open>
  C34.  The programs are well typed: whatever is on the command line, if the setup of NPtcp, NPmpi,
  NPtheo or NPmemcpy succeeds, the options are consistent (no stream in two directions, the
  overlapping modes receive asynchronously, a bidirectional process transmits, at least one
  trial, a positive first size, no integrity check in burst mode), and the two programs
  without a partner process stay one-way.
\<close>

theorem programs_well_typed:
  "(np_setup (tcp_program rank n e rc) argv x = Inr (g, t) \<longrightarrow>
      opts_ok g \<and> 1 \<le> start g \<and> (integrityCheck g = 0 \<or> burst g = 0) \<and> disk g = 0)
   \<and> (np_setup (mpi_program rank n cmp src) argv y = Inr (g, m) \<longrightarrow>
      opts_ok g \<and> 1 \<le> start g \<and> (integrityCheck g = 0 \<or> burst g = 0) \<and> async g = 1)
   \<and> (np_setup theo_program argv z = Inr (g, h) \<longrightarrow> opts_ok g \<and> 1 \<le> start g \<and> bidir g = 0)
   \<and> (np_setup (mcpy_program rank n pe) argv w = Inr (g, c) \<longrightarrow>
      opts_ok g \<and> 1 \<le> start g \<and> bidir g = 0)"
proof (intro conjI impI)
  assume s: "np_setup (tcp_program rank n e rc) argv x = Inr (g, t)"
  show "opts_ok g" "1 \<le> start g" "integrityCheck g = 0 \<or> burst g = 0"
    by (fact tcp_main.setup_ok [OF s])+
  show "disk g = 0" by (rule tcp_setup_disk [OF s])
next
  assume s: "np_setup (mpi_program rank n cmp src) argv y = Inr (g, m)"
  show "opts_ok g" "1 \<le> start g" "integrityCheck g = 0 \<or> burst g = 0"
    by (fact mpi_main.setup_ok [OF s])+
  show "async g = 1" by (rule mpi_setup_async [OF s])
next
  assume s: "np_setup theo_program argv z = Inr (g, h)"
  show "opts_ok g" "1 \<le> start g" by (fact theo_main.setup_ok [OF s])+
  have "stream g \<noteq> 0" by (rule theo_setup_stream [OF s])
  with \<open>opts_ok g\<close> show "bidir g = 0" by (simp add: opts_ok_def)
next
  assume s: "np_setup (mcpy_program rank n pe) argv w = Inr (g, c)"
  show "opts_ok g" "1 \<le> start g" by (fact mcpy_main.setup_ok [OF s])+
  have "stream g \<noteq> 0" by (rule mcpy_setup_stream [OF s])
  with \<open>opts_ok g\<close> show "bidir g = 0" by (simp add: opts_ok_def)
qed

theorem programs_well_typed_witness:
  "\<exists>g m. np_setup (mpi_program 0 2 (\<lambda>s t. 0) (-1)) [''--bidir''] init_mpi = Inr (g, m)
     \<and> opts_ok g \<and> 1 \<le> start g \<and> bidir g = 1 \<and> async g = 1"
proof -
  let ?M = "mpi_program 0 2 (\<lambda>s t. 0) (-1)"
  have "\<exists>g m. np_setup ?M [''--bidir''] init_mpi = Inr (g, m) \<and> bidir g = 1"
    by (simp add: np_setup_def mpi_program_def mpi_Init_def mpi_Setup_def one_opt_def core_opt_def
        dash_def check_opts_def errcheck_def init_globals_def set_roles_def need_opt_def Let_def)
  then obtain g m where g: "np_setup ?M [''--bidir''] init_mpi = Inr (g, m)" "bidir g = 1" by blast
  have "opts_ok g \<and> 1 \<le> start g \<and> (integrityCheck g = 0 \<or> burst g = 0) \<and> async g = 1"
    using programs_well_typed [THEN conjunct2, THEN conjunct1, THEN mp, OF g(1)] .
  with g show ?thesis by blast
qed



definition demo_env :: sock_env where
  "demo_env = \<lparr>se_sd = 5, se_proto = True, se_nodelay = 0, se_reuse = 0, se_sndbuf = 0,
     se_rcvbuf = 0\<rparr>"

definition demo_run :: globals where
  "demo_run = globals.nprocs_update (\<lambda>_. 2)
     (demo_globals\<lparr>transmitter := 1, mypair := 1, source := 1\<rparr>)"

lemma demo_setup:
  "np_setup (tcp_program 0 2 demo_env 0) [''--end'', ''12'', ''--repeats'', ''5''] init_tcp
     = Inr (demo_run, init_tcp)"
  by code_simp

lemma demo_run_schedule:
  "map_option (map_sum id sizes) (run_schedule 13 demo_run (\<lambda>_ _ _. 1))
     = Some (Inr [1, 2, 3, 4, 6, 8, 12])"
  by code_simp

lemma demo_sys_init: "pp_init (tcp_msgs (nat 8)) (tcp_ok (nat 8)) demo_run 8 demo_sys"
proof -
  have "bufs_ok 8 8192 (nbufs (p_node (demo_proc c)))" for c
    by (simp add: demo_proc_def null_bufs_def bufs_ok_def inside_def disjoint_def)
  then have "node_bufs_ok demo_run 8 (nbufs (p_node (demo_proc c)))" for c
    by (auto simp: node_bufs_ok_def demo_run_def demo_globals_def init_globals_def demo_proc_def
        null_bufs_def)
  then show ?thesis
    by (auto simp: pp_init_def demo_sys_def role_of_def start_pc_def demo_run_def demo_globals_def
        init_globals_def tcp_msgs_def tcp_ok_def chunks.simps [of 8 "[]"] delivers_def demo_proc_def)
qed


end
